(* ===== verification/CatPrelude.thy ===== *)
theory CatPrelude
  imports "HOL-Library.Word"
begin

text \<open>
  The shared vocabulary of the development: fixed-width integer types, byte
  order helpers, loads and stores of multi-byte fields in byte buffers,
  bounded table scans, and the generic lemmas the component theories use.

  The helpers \<open>ntoh16\<close> \<dots> \<open>hton32\<close> and the byte copies are those of
  \<^verbatim>\<open>src/net/net_internal.h\<close>.  The target is i686: a \<open>uint16_t\<close>/\<open>uint32_t\<close>
  access to memory is a little-endian load or store (\<open>rd16\<close>, \<open>rd32\<close>, \<open>st16\<close>,
  \<open>st32\<close>), and the source swaps bytes explicitly where a field is in network
  order.
\<close>

unbundle bit_operations_syntax

type_synonym u8 = "8 word"
type_synonym u16 = "16 word"
type_synonym u32 = "32 word"
type_synonym bytes = "u8 list"

named_theorems net_simps \<open>rewrite rules of the network components\<close>
named_theorems tbl_simps \<open>rewrite rules for table scans and updates\<close>
named_theorems inv_intros \<open>introduction rules for component invariants\<close>

section \<open>Byte order\<close>

definition ntoh16 :: "u16 \<Rightarrow> u16" where
  "ntoh16 v = (drop_bit 8 v OR push_bit 8 v)"

definition ntoh32 :: "u32 \<Rightarrow> u32" where
  "ntoh32 v = (push_bit 24 (v AND 0xff) OR push_bit 8 (v AND 0xff00)
     OR (drop_bit 8 v AND 0xff00) OR (drop_bit 24 v AND 0xff))"

definition hton16 :: "u16 \<Rightarrow> u16" where
  "hton16 v = ntoh16 v"

definition hton32 :: "u32 \<Rightarrow> u32" where
  "hton32 v = ntoh32 v"

section \<open>Loads and stores in byte buffers\<close>

text \<open>A little-endian load at a byte offset.  Every caller has checked that the
  bytes are there; a byte past the end of the list reads as 0.\<close>

definition byte_at :: "bytes \<Rightarrow> nat \<Rightarrow> u8" where
  "byte_at b i = (if i < length b then b ! i else 0)"

definition rd16 :: "bytes \<Rightarrow> nat \<Rightarrow> u16" where
  "rd16 b i = (ucast (byte_at b i) OR push_bit 8 (ucast (byte_at b (i + 1))))"

definition rd32 :: "bytes \<Rightarrow> nat \<Rightarrow> u32" where
  "rd32 b i = (ucast (byte_at b i) OR push_bit 8 (ucast (byte_at b (i + 1)))
     OR push_bit 16 (ucast (byte_at b (i + 2))) OR push_bit 24 (ucast (byte_at b (i + 3))))"

definition le16 :: "u16 \<Rightarrow> bytes" where
  "le16 v = [ucast v, ucast (drop_bit 8 v)]"

definition le32 :: "u32 \<Rightarrow> bytes" where
  "le32 v = [ucast v, ucast (drop_bit 8 v), ucast (drop_bit 16 v), ucast (drop_bit 24 v)]"

text \<open>\<open>memcpy_u(d + off, s, n)\<close> on a buffer given as a list.\<close>

definition memcpy_u :: "bytes \<Rightarrow> nat \<Rightarrow> bytes \<Rightarrow> bytes" where
  "memcpy_u d off s = take off d @ s @ drop (off + length s) d"

section \<open>Table scans\<close>

text \<open>\<open>for (i = 0; i < n; i++) if (P(t[i])) return i;\<close>\<close>

fun find_idx_from :: "nat \<Rightarrow> ('a \<Rightarrow> bool) \<Rightarrow> 'a list \<Rightarrow> nat option" where
  "find_idx_from k P [] = None"
| "find_idx_from k P (x # xs) = (if P x then Some k else find_idx_from (Suc k) P xs)"

definition find_idx :: "('a \<Rightarrow> bool) \<Rightarrow> 'a list \<Rightarrow> nat option" where
  "find_idx P xs = find_idx_from 0 P xs"

text \<open>Signed reading of a 32-bit difference, \<open>(int32_t)(a - b)\<close>, the wrap-safe
  comparison of tick counters and sequence numbers.\<close>

definition tick_diff :: "u32 \<Rightarrow> u32 \<Rightarrow> int" where
  "tick_diff a b = sint (a - b)"

section \<open>Lemmas on byte order\<close>

lemma bit_ntoh16:
  "n < 16 \<Longrightarrow> bit (ntoh16 v) n = bit v (if n < 8 then n + 8 else n - 8)"
  unfolding ntoh16_def by (auto simp: bit_simps add.commute dest: bit_imp_le_length)

lemma ntoh16_ntoh16 [simp]: "ntoh16 (ntoh16 v) = v"
  by (rule bit_word_eqI) (auto simp: bit_ntoh16)

lemma ntoh32_masks:
  "ntoh32 v = (push_bit 24 (v AND mask 8) OR push_bit 8 (v AND push_bit 8 (mask 8))
     OR (drop_bit 8 v AND push_bit 8 (mask 8)) OR (drop_bit 24 v AND mask 8))"
  by (simp add: ntoh32_def mask_eq_exp_minus_1)

lemma bit_ntoh32:
  "n < 32 \<Longrightarrow> bit (ntoh32 v) n =
     bit v (if n < 8 then n + 24 else if n < 16 then n + 8 else if n < 24 then n - 8 else n - 24)"
  unfolding ntoh32_masks by (auto simp: bit_simps add.commute)

lemma ntoh32_ntoh32 [simp]: "ntoh32 (ntoh32 v) = v"
  by (rule bit_word_eqI) (auto simp: bit_ntoh32)

lemma hton16_ntoh16 [simp]: "hton16 (ntoh16 v) = v" "ntoh16 (hton16 v) = v"
  by (simp_all add: hton16_def)

lemma hton32_ntoh32 [simp]: "hton32 (ntoh32 v) = v" "ntoh32 (hton32 v) = v"
  by (simp_all add: hton32_def)

lemma length_le16 [simp]: "length (le16 v) = 2"
  by (simp add: le16_def)

lemma length_le32 [simp]: "length (le32 v) = 4"
  by (simp add: le32_def)

lemma byte_at_append [simp]:
  "byte_at (a @ b) i = (if i < length a then byte_at a i else byte_at b (i - length a))"
  by (auto simp: byte_at_def nth_append)

lemma rd16_le16 [simp]: "rd16 (le16 v @ r) 0 = v"
  unfolding rd16_def le16_def byte_at_def
  by (rule bit_word_eqI) (auto simp: bit_simps)

lemma rd32_le32 [simp]: "rd32 (le32 v @ r) 0 = v"
proof (rule bit_word_eqI)
  fix n assume n: "n < LENGTH(32)"
  consider "n < 8" | "8 \<le> n" "n < 16" | "16 \<le> n" "n < 24" | "24 \<le> n"
    by linarith
  then show "bit (rd32 (le32 v @ r) 0) n = bit v n"
    using n unfolding rd32_def le32_def byte_at_def
    by cases (auto simp: bit_simps)
qed

lemma length_memcpy_u [simp]:
  "off + length s \<le> length d \<Longrightarrow> length (memcpy_u d off s) = length d"
  by (simp add: memcpy_u_def)

section \<open>Lemmas on table scans\<close>

lemma find_idx_from_Some:
  "find_idx_from k P xs = Some i \<longleftrightarrow>
     k \<le> i \<and> i - k < length xs \<and> P (xs ! (i - k)) \<and> (\<forall>j < i - k. \<not> P (xs ! j))"
proof (induction xs arbitrary: k)
  case Nil
  then show ?case by simp
next
  case (Cons x xs)
  show ?case
  proof (cases "P x")
    case True
    then show ?thesis
      by (auto simp: nth_Cons split: nat.splits)
  next
    case False
    have "find_idx_from k P (x # xs) = find_idx_from (Suc k) P xs"
      using False by simp
    also have "(\<dots> = Some i) \<longleftrightarrow> Suc k \<le> i \<and> i - Suc k < length xs \<and> P (xs ! (i - Suc k)) \<and>
        (\<forall>j < i - Suc k. \<not> P (xs ! j))"
      by (rule Cons.IH)
    also have "\<dots> \<longleftrightarrow> k \<le> i \<and> i - k < length (x # xs) \<and> P ((x # xs) ! (i - k)) \<and>
        (\<forall>j < i - k. \<not> P ((x # xs) ! j))"
    proof (cases "k < i")
      case True
      then obtain d where "i = Suc (k + d)" using less_iff_Suc_add by auto
      then show ?thesis using False by (auto simp: less_Suc_eq_0_disj)
    next
      case n: False
      then show ?thesis using False by auto
    qed
    finally show ?thesis .
  qed
qed

lemma find_idx_Some [tbl_simps]:
  "find_idx P xs = Some i \<longleftrightarrow> i < length xs \<and> P (xs ! i) \<and> (\<forall>j < i. \<not> P (xs ! j))"
  by (simp add: find_idx_def find_idx_from_Some)

lemma find_idx_from_None: "find_idx_from k P xs = None \<longleftrightarrow> (\<forall>x \<in> set xs. \<not> P x)"
  by (induction xs arbitrary: k) auto

lemma find_idx_None [tbl_simps]: "find_idx P xs = None \<longleftrightarrow> (\<forall>x \<in> set xs. \<not> P x)"
  by (simp add: find_idx_def find_idx_from_None)

lemma find_idx_lt: "find_idx P xs = Some i \<Longrightarrow> i < length xs"
  by (simp add: find_idx_Some)

lemma find_idx_sat: "find_idx P xs = Some i \<Longrightarrow> P (xs ! i)"
  by (simp add: find_idx_Some)

section \<open>Lemmas on list updates\<close>

lemma take_Suc_update [tbl_simps]: "n < length xs \<Longrightarrow> take (Suc n) (xs[n := v]) = take n xs @ [v]"
  by (simp add: take_Suc_conv_app_nth)

lemma map_update_same: "f x = f (xs ! i) \<Longrightarrow> map f (xs[i := x]) = map f xs"
  by (metis list_update_id map_update)

lemma distinct_update_fresh: "distinct xs \<Longrightarrow> x \<notin> set xs \<Longrightarrow> distinct (xs[i := x])"
  by (cases "i < length xs") (auto simp: distinct_list_update)

section \<open>Lemmas on machine words\<close>

lemma unat_u8_lt: "unat (x :: u8) < 256"
  using unsigned_less [of x, where ?'a = nat] by simp

lemma unat_u16_lt: "unat (x :: u16) < 65536"
  using unsigned_less [of x, where ?'a = nat] by simp

lemma unat_u32_lt: "unat (x :: u32) < 4294967296"
  using unsigned_less [of x, where ?'a = nat] by simp

lemma unat_ucast_8_16 [simp]: "unat (ucast (x :: u8) :: u16) = unat x"
  using unat_u8_lt [of x] by (simp add: unsigned_ucast_eq take_bit_nat_eq_self_iff)

lemma unat_ucast_8_32 [simp]: "unat (ucast (x :: u8) :: u32) = unat x"
  using unat_u8_lt [of x] by (simp add: unsigned_ucast_eq take_bit_nat_eq_self_iff)

lemma unat_ucast_16_32 [simp]: "unat (ucast (x :: u16) :: u32) = unat x"
  using unat_u16_lt [of x] by (simp add: unsigned_ucast_eq take_bit_nat_eq_self_iff)

lemma mod_complement: "0 < m \<Longrightarrow> (n + (m - n mod m)) mod m = 0" for n m :: nat
  by (metis add.commute le_add_diff_inverse2 mod_add_right_eq mod_less_divisor mod_self
      nat_less_le)

lemma unat_drop_bit16: "unat (drop_bit 16 (x :: u32)) = unat x div 65536"
  by (simp add: drop_bit_eq_div unat_div_distrib)

lemma unat_and_ffff: "unat ((x :: u32) AND 0xffff) = unat x mod 65536"
proof -
  have "x AND 0xffff = take_bit 16 x"
    by (simp add: take_bit_eq_mask mask_eq_exp_minus_1)
  then show ?thesis by (simp add: take_bit_eq_mod unat_mod_distrib)
qed

lemma tick_diff_self [simp]: "tick_diff a a = 0"
  by (simp add: tick_diff_def)

lemma sint_u32_of_int: "- 2147483648 \<le> x \<Longrightarrow> x < 2147483648 \<Longrightarrow> sint (word_of_int x :: u32) = x"
  by (simp add: sint_sbintrunc' signed_take_bit_int_eq_self)

lemma tick_diff_add:
  "d < 2147483648 \<Longrightarrow> r < 2147483648 \<Longrightarrow> tick_diff (n + of_nat d) (n + of_nat r) = int d - int r"
proof -
  assume b: "d < 2147483648" "r < 2147483648"
  have "n + of_nat d - (n + of_nat r) = (word_of_int (int d - int r) :: u32)" by simp
  then show ?thesis
    unfolding tick_diff_def using b by (simp only:) (rule sint_u32_of_int; simp)
qed

lemma unat_Suc_below: "n < m \<Longrightarrow> unat (n + 1) = unat n + 1" for n m :: "'b :: len word"
proof -
  assume "n < m"
  then have "Suc (unat n) < 2 ^ LENGTH('b)"
    unfolding word_less_nat_alt using unsigned_less [of m, where ?'a = nat] by linarith
  then show ?thesis by (simp add: unat_word_ariths)
qed

lemma unat_diff_Suc_less: "n < m \<Longrightarrow> unat (m - (n + 1)) < unat (m - n)" for n m :: "'a :: len word"
  using unat_Suc_below [of n m] by (simp add: word_less_nat_alt unat_sub_if_size)

lemma word_neq_0_ge_1: "(x :: u32) \<noteq> 0 \<Longrightarrow> 1 \<le> x"
  by (simp add: word_le_nat_alt Suc_le_eq unat_gt_0)

end
