(* ===== verification/TcpConn.thy ===== *)
theory TcpConn
  imports CatPrelude
begin

text \<open>
  A TCP connection and its private operations, \<^verbatim>\<open>src/net/net_tcp.c\<close> lines 18 to 271
  with \<open>struct tcp_conn\<close> of \<^verbatim>\<open>src/net/net_internal.h\<close>: option parsing, reassembly of
  received data, the scoreboard of transmitted segments, timers and congestion
  state.

  A buffer with a fill count is the list of its valid bytes: \<open>rxb\<close> is
  \<open>rxb[0..rxn)\<close>, \<open>sacks\<close> are the first \<open>sack_n\<close> blocks, \<open>tx\<close> the first \<open>tx_n\<close> scoreboard entries (the code keeps \<open>used\<close> set on
  exactly these), and an out-of-order slot is \<open>None\<close> when its \<open>used\<close> flag is clear.
  The send buffer is kept whole, since a fast retransmission may read past \<open>snd_used\<close>.
\<close>

section \<open>State\<close>

abbreviation (input) TCP_MAX_CONNS :: nat where "TCP_MAX_CONNS \<equiv> 64"
abbreviation (input) TCP_MSS :: nat where "TCP_MSS \<equiv> 1460"
abbreviation (input) TCP_BUF_SIZE :: nat where "TCP_BUF_SIZE \<equiv> 4096"
abbreviation (input) TCP_TX_SEG_MAX :: nat where "TCP_TX_SEG_MAX \<equiv> 8"
abbreviation (input) TCP_OOO_SLOTS :: nat where "TCP_OOO_SLOTS \<equiv> 2"
abbreviation (input) TCP_RTO_INIT :: u32 where "TCP_RTO_INIT \<equiv> 30"
abbreviation (input) TCP_RTO_MAX :: u32 where "TCP_RTO_MAX \<equiv> 240"

datatype tcp_state = TCP_CLOSED | TCP_LISTEN | TCP_SYN_SENT | TCP_SYN_RECEIVED | TCP_ESTABLISHED
  | TCP_FIN_WAIT_1 | TCP_FIN_WAIT_2 | TCP_CLOSE_WAIT | TCP_CLOSING | TCP_LAST_ACK | TCP_TIME_WAIT

record tx_seg =
  tx_seq :: u32
  tx_len :: nat
  tx_sacked :: bool
  tx_lost :: bool
  tx_retransmitted :: bool

record tcp_conn =
  c_used :: bool
  c_accepted :: bool
  c_state :: tcp_state
  c_backlog :: u8
  rcv_isn :: u32
  rcv_nxt :: u32
  snd_isn :: u32
  snd_nxt :: u32
  snd_una :: u32
  peer_ip :: u32
  peer_port :: u16
  c_lport :: u16
  peer_win :: u16
  adv_win :: u16
  peer_mss :: u16
  rxb :: bytes
  ooo :: "(u32 \<times> bytes) option list"
  ooo_bytes :: u32
  sack_ok :: bool
  sacks :: "(u32 \<times> u32) list"
  sndb :: bytes
  snd_used :: nat
  tx :: "tx_seg list"
  rto_deadline :: u32
  rto_backoff :: u8
  rto_attempts :: u8
  rto_ticks :: u32
  rtt_stamp :: u32
  rtt_seq :: u32
  srtt_ticks :: u32
  rttvar_ticks :: u32
  rtt_pending :: bool
  rtt_retransmitted :: bool
  cwnd :: u32
  ssthresh :: u32
  dupacks :: u32
  fast_recovery :: bool
  recover_seq :: u32
  tw_until :: u32
  persist_deadline :: u32
  persist_backoff :: u8
  test_sent :: bool
  test_closed :: bool
  dead :: bool
  rcv_wscale :: u8

definition tcp_conn0 :: tcp_conn where
  "tcp_conn0 = \<lparr> c_used = False, c_accepted = False, c_state = TCP_CLOSED, c_backlog = 0, rcv_isn = 0,
     rcv_nxt = 0, snd_isn = 0, snd_nxt = 0, snd_una = 0, peer_ip = 0, peer_port = 0, c_lport = 0,
     peer_win = 0, adv_win = 0, peer_mss = 0, rxb = [], ooo = replicate TCP_OOO_SLOTS None, ooo_bytes = 0,
     sack_ok = False, sacks = [], sndb = replicate TCP_BUF_SIZE 0, snd_used = 0, tx = [], rto_deadline = 0, rto_backoff = 0, rto_attempts = 0,
     rto_ticks = 0, rtt_stamp = 0, rtt_seq = 0, srtt_ticks = 0, rttvar_ticks = 0, rtt_pending = False,
     rtt_retransmitted = False, cwnd = 0, ssthresh = 0, dupacks = 0, fast_recovery = False,
     recover_seq = 0, tw_until = 0, persist_deadline = 0, persist_backoff = 0, test_sent = False,
     test_closed = False, dead = False, rcv_wscale = 0 \<rparr>"

section \<open>Sequence numbers and options\<close>

definition tcp_seq_after :: "u32 \<Rightarrow> u32 \<Rightarrow> bool" where
  "tcp_seq_after a b \<longleftrightarrow> tick_diff a b > 0"

definition tcp_seq_before :: "u32 \<Rightarrow> u32 \<Rightarrow> bool" where
  "tcp_seq_before a b \<longleftrightarrow> tick_diff a b < 0"

text \<open>The SACK block loop: \<open>count\<close> blocks of eight bytes starting at \<open>b\<close>, at most two
  registered.\<close>

fun tcp_sack_scan :: "nat \<Rightarrow> bytes \<Rightarrow> u32 \<Rightarrow> u32 \<Rightarrow> (u32 \<times> u32) list \<Rightarrow> (u32 \<times> u32) list" where
  "tcp_sack_scan 0 b una nxt acc = acc"
| "tcp_sack_scan (Suc k) b una nxt acc =
    (if length acc \<ge> 2 then acc
     else (let l0 = ntoh32 (rd32 b 0); r = ntoh32 (rd32 b 4); b' = drop 8 b in
       if \<not> tcp_seq_before l0 r then tcp_sack_scan k b' una nxt acc
       else if tcp_seq_after r nxt then tcp_sack_scan k b' una nxt acc
       else if tcp_seq_before r una then tcp_sack_scan k b' una nxt acc
       else (let l = (if tcp_seq_before l0 una then una else l0) in
         if (l, r) \<in> set acc then tcp_sack_scan k b' una nxt acc
         else tcp_sack_scan k b' una nxt (acc @ [(l, r)]))))"

text \<open>One option of kind \<open>opt!0\<close> and length \<open>opt!1\<close>.\<close>

definition tcp_opt_apply :: "bytes \<Rightarrow> bool \<Rightarrow> tcp_conn \<Rightarrow> tcp_conn" where
  "tcp_opt_apply opt syn c =
    (let kind = opt ! 0; olen = unat (opt ! 1);
         c1 = (if kind = 4 \<and> olen = 2 \<and> syn then c\<lparr> sack_ok := True \<rparr> else c);
         c2 = (if kind = 3 \<and> olen = 3 \<and> syn
               then c1\<lparr> rcv_wscale := (if opt ! 2 > 14 then 14 else opt ! 2) \<rparr> else c1);
         m = ntoh16 (rd16 opt 2);
         c3 = (if kind = 2 \<and> olen = 4 \<and> syn \<and> m \<noteq> 0 then c2\<lparr> peer_mss := m \<rparr> else c2)
     in if kind = 5 \<and> \<not> syn \<and> sack_ok c3 \<and> olen \<ge> 10 \<and> (olen - 2) mod 8 = 0
        then c3\<lparr> sacks := tcp_sack_scan ((olen - 2) div 8) (drop 2 opt) (snd_una c3) (snd_nxt c3) [] \<rparr>
        else c3)"

function tcp_parse_opts :: "bytes \<Rightarrow> bool \<Rightarrow> tcp_conn \<Rightarrow> tcp_conn" where
  "tcp_parse_opts opt syn c =
    (if opt = [] then c
     else if opt ! 0 = 0 then c
     else if opt ! 0 = 1 then tcp_parse_opts (drop 1 opt) syn c
     else if length opt < 2 \<or> opt ! 1 < 2 \<or> unat (opt ! 1) > length opt then c
     else tcp_parse_opts (drop (unat (opt ! 1)) opt) syn (tcp_opt_apply opt syn c))"
  by pat_completeness auto
termination
  by (relation "measure (\<lambda>(opt, syn, c). length opt)") (auto simp: word_less_nat_alt)

declare tcp_parse_opts.simps [simp del]

section \<open>Reception\<close>

definition tcp_rx_append :: "bytes \<Rightarrow> tcp_conn \<Rightarrow> tcp_conn" where
  "tcp_rx_append data c =
    (if length (rxb c) + length data \<le> TCP_BUF_SIZE then c\<lparr> rxb := rxb c @ data \<rparr> else c)"

text \<open>One slot of the merge pass; the flag is \<open>again\<close>.\<close>

definition tcp_merge_slot :: "nat \<Rightarrow> bool \<times> tcp_conn \<Rightarrow> bool \<times> tcp_conn" where
  "tcp_merge_slot i st =
    (case st of (again, c) \<Rightarrow>
     (case ooo c ! i of
        None \<Rightarrow> (again, c)
      | Some (sq, d) \<Rightarrow>
         (let len = of_nat (length d) :: u32; fin = sq + len in
          if \<not> tcp_seq_after fin (rcv_nxt c)
          then (True, c\<lparr> ooo_bytes := ooo_bytes c - len, ooo := (ooo c)[i := None] \<rparr>)
          else (let cut = tcp_seq_before sq (rcv_nxt c);
                    trim = rcv_nxt c - sq;
                    sq1 = (if cut then rcv_nxt c else sq);
                    d1 = (if cut then drop (unat trim) d else d);
                    c1 = (if cut then c\<lparr> ooo_bytes := ooo_bytes c - trim, ooo := (ooo c)[i := Some (sq1, d1)] \<rparr> else c);
                    again1 = (again \<or> cut) in
            if sq1 \<noteq> rcv_nxt c1 then (again1, c1)
            else if length (rxb c1) + length d1 > TCP_BUF_SIZE then (again1, c1)
            else (True, (tcp_rx_append d1 c1)\<lparr> rcv_nxt := rcv_nxt c1 + of_nat (length d1),
                     ooo_bytes := ooo_bytes c1 - of_nat (length d1), ooo := (ooo c1)[i := None] \<rparr>)))))"

definition tcp_merge_pass :: "tcp_conn \<Rightarrow> bool \<times> tcp_conn" where
  "tcp_merge_pass c = fold tcp_merge_slot [0..<length (ooo c)] (False, c)"

text \<open>The loop ends: every repetition has freed a slot, or has trimmed one that lay before
  \<open>rcv_nxt\<close>.\<close>

definition slot_weight :: "nat \<Rightarrow> u32 \<Rightarrow> (u32 \<times> bytes) option \<Rightarrow> nat" where
  "slot_weight k nxt sl =
    (case sl of None \<Rightarrow> 0 | Some (sq, d) \<Rightarrow> k + 1 + (if tcp_seq_before sq nxt then 1 else 0))"

definition merge_weight :: "tcp_conn \<Rightarrow> nat" where
  "merge_weight c = sum_list (map (slot_weight (length (ooo c)) (rcv_nxt c)) (ooo c))"

lemma sum_list_update_less:
  "i < length xs \<Longrightarrow> f y < f (xs ! i) \<Longrightarrow> sum_list (map f (xs[i := y])) < sum_list (map f xs)" for f :: "'a \<Rightarrow> nat"
proof (induction xs arbitrary: i)
  case (Cons x xs)
  then show ?case by (cases i) (auto simp: add_less_le_mono)
qed simp

lemma sum_list_shift:
  "(\<And>x. f x \<le> g x + 1) \<Longrightarrow> sum_list (map f xs) \<le> sum_list (map g xs) + length xs" for f g :: "'a \<Rightarrow> nat"
proof (induction xs)
  case (Cons x xs)
  have "f x \<le> g x + 1" by (rule Cons.prems)
  then show ?case using Cons.IH [OF Cons.prems] by simp
qed simp

lemma slot_weight_shift: "slot_weight k a sl \<le> slot_weight k b sl + 1"
  by (auto simp: slot_weight_def split: option.splits)

lemma merge_weight_free:
  assumes "i < length (ooo c)" "ooo c ! i \<noteq> None"
  shows "sum_list (map (slot_weight (length (ooo c)) nxt) ((ooo c)[i := None])) < merge_weight c"
proof -
  let ?k = "length (ooo c)" and ?o = "(ooo c)[i := None]"
  have "sum_list (map (slot_weight ?k nxt) ?o) \<le> sum_list (map (slot_weight ?k (rcv_nxt c)) ?o) + length ?o"
    by (rule sum_list_shift) (rule slot_weight_shift)
  also have "\<dots> = sum_list (map (slot_weight ?k (rcv_nxt c)) ?o) + ?k" by simp
  also have "\<dots> < merge_weight c"
  proof -
    have w: "slot_weight ?k (rcv_nxt c) (ooo c ! i) \<ge> ?k + 1"
      using assms(2) by (auto simp: slot_weight_def split: option.splits)
    have "sum_list (map f (xs[i := y])) + f (xs ! i) = sum_list (map f xs) + f y" if "i < length xs"
      for f :: "(u32 \<times> bytes) option \<Rightarrow> nat" and xs y
      using that
    proof (induction xs arbitrary: i)
      case (Cons x xs)
      then show ?case by (cases i) (auto simp: add.commute add.left_commute)
    qed simp
    from this [OF assms(1), of "slot_weight ?k (rcv_nxt c)" None] w show ?thesis
      by (simp add: merge_weight_def slot_weight_def)
  qed
  finally show ?thesis .
qed

lemma tcp_merge_slot_weight:
  assumes "i < length (ooo c)" "tcp_merge_slot i (a, c) = (a', c')"
  shows "length (ooo c') = length (ooo c) \<and> (c' = c \<and> a' = a \<or> a' \<and> merge_weight c' < merge_weight c)"
proof (cases "ooo c ! i")
  case None
  then show ?thesis using assms by (simp add: tcp_merge_slot_def)
next
  case (Some p)
  obtain sq d where p: "p = (sq, d)" by (cases p)
  have ne: "ooo c ! i \<noteq> None" using Some by simp
  note free = merge_weight_free [OF assms(1) ne]
  let ?cut = "tcp_seq_before sq (rcv_nxt c)"
  have cutw: "?cut \<Longrightarrow> sum_list (map (slot_weight (length (ooo c)) (rcv_nxt c)) ((ooo c)[i := Some (rcv_nxt c, x)])) < merge_weight c" for x
    unfolding merge_weight_def by (rule sum_list_update_less [OF assms(1)]) (simp add: Some p slot_weight_def tcp_seq_before_def)
  show ?thesis
    using assms(2) Some p free cutw
    by (auto simp: tcp_merge_slot_def Let_def merge_weight_def tcp_rx_append_def split: if_splits)
qed

lemma tcp_merge_fold_weight:
  "\<forall>i \<in> set is. i < length (ooo c) \<Longrightarrow> fold tcp_merge_slot is (a, c) = (a', c') \<Longrightarrow>
   length (ooo c') = length (ooo c) \<and> (c' = c \<and> a' = a \<or> a' \<and> merge_weight c' < merge_weight c)"
proof (induction "is" arbitrary: a c)
  case (Cons i "is")
  obtain a1 c1 where s: "tcp_merge_slot i (a, c) = (a1, c1)" by (cases "tcp_merge_slot i (a, c)")
  have l: "i < length (ooo c)" using Cons.prems by simp
  note w = tcp_merge_slot_weight [OF l s]
  have "length (ooo c') = length (ooo c1) \<and> (c' = c1 \<and> a' = a1 \<or> a' \<and> merge_weight c' < merge_weight c1)"
    by (rule Cons.IH) (use Cons.prems s w in auto)
  then show ?case using w by auto
qed simp

lemma tcp_merge_pass_weight:
  "tcp_merge_pass c = (True, c') \<Longrightarrow> merge_weight c' < merge_weight c"
  unfolding tcp_merge_pass_def using tcp_merge_fold_weight [of "[0..<length (ooo c)]" c False True c'] by auto

function tcp_merge_ooo :: "tcp_conn \<Rightarrow> tcp_conn" where
  "tcp_merge_ooo c = (case tcp_merge_pass c of (again, c') \<Rightarrow> if again then tcp_merge_ooo c' else c')"
  by pat_completeness auto
termination
  by (relation "measure merge_weight") (auto intro: tcp_merge_pass_weight simp: eq_commute)

declare tcp_merge_ooo.simps [simp del]

text \<open>\<open>len\<close> is the length the caller computed; the bytes are those of the segment.\<close>

definition tcp_queue_ooo :: "u32 \<Rightarrow> bytes \<Rightarrow> nat \<Rightarrow> tcp_conn \<Rightarrow> bool \<times> tcp_conn" where
  "tcp_queue_ooo sq data len c =
    (let fin = sq + of_nat len in
     if len = 0 \<or> len > TCP_MSS \<or> ooo_bytes c + of_nat len > of_nat TCP_BUF_SIZE then (False, c)
     else if \<not> tcp_seq_after fin (rcv_nxt c) then (False, c)
     else (let cut = \<not> tcp_seq_after sq (rcv_nxt c); trim = rcv_nxt c - sq;
               sq1 = (if cut then sq + trim else sq);
               d1 = (if cut then drop (unat trim) data else data);
               len1 = (if cut then len - unat trim else len) in
       if \<exists>sl \<in> set (ooo c). (case sl of None \<Rightarrow> False | Some (q, d) \<Rightarrow>
            tcp_seq_before sq1 (q + of_nat (length d)) \<and> tcp_seq_before q (sq1 + of_nat len1))
       then (False, c)
       else (case find_idx (\<lambda>sl. sl = None) (ooo c) of
           None \<Rightarrow> (False, c)
         | Some i \<Rightarrow> (True, c\<lparr> ooo := (ooo c)[i := Some (sq1, take len1 d1)],
                               ooo_bytes := ooo_bytes c + of_nat len1 \<rparr>))))"

definition tcp_accept_data :: "u32 \<Rightarrow> bytes \<Rightarrow> nat \<Rightarrow> tcp_conn \<Rightarrow> bool \<times> tcp_conn" where
  "tcp_accept_data sq data len c =
    (if sq \<noteq> rcv_nxt c then tcp_queue_ooo sq data len c
     else if len \<le> TCP_MSS \<and> length (rxb c) + len \<le> TCP_BUF_SIZE
     then (True, tcp_merge_ooo ((tcp_rx_append (take len data) c)\<lparr> rcv_nxt := rcv_nxt c + of_nat len \<rparr>))
     else (False, c))"

text \<open>What \<open>tcp_recv\<close> takes out of the receive buffer.\<close>

definition tcp_recv_take :: "nat \<Rightarrow> tcp_conn \<Rightarrow> bytes \<times> tcp_conn" where
  "tcp_recv_take max_len c =
    (let n = (if length (rxb c) > max_len then max_len else length (rxb c)) in
     (take n (rxb c), c\<lparr> rxb := drop n (rxb c) \<rparr>))"

section \<open>The scoreboard of transmitted segments\<close>

definition tcp_tx_reset :: "tcp_conn \<Rightarrow> tcp_conn" where
  "tcp_tx_reset c = c\<lparr> tx := [] \<rparr>"

definition tx_end :: "tx_seg \<Rightarrow> u32" where
  "tx_end e = tx_seq e + of_nat (tx_len e)"

definition tcp_tx_add :: "u32 \<Rightarrow> nat \<Rightarrow> tcp_conn \<Rightarrow> tcp_conn" where
  "tcp_tx_add sq len c =
    (if len = 0 \<or> len > TCP_MSS then c
     else if length (tx c) \<ge> TCP_TX_SEG_MAX then
       (let k = TCP_TX_SEG_MAX - 1; e = tx c ! k in
        if sq = tx_end e \<and> tx_len e + len \<le> TCP_BUF_SIZE
        then c\<lparr> tx := (tx c)[k := e\<lparr> tx_len := tx_len e + len \<rparr>] \<rparr> else c)
     else c\<lparr> tx := tx c @ [\<lparr> tx_seq = sq, tx_len = len, tx_sacked = False, tx_lost = False, tx_retransmitted = False \<rparr>] \<rparr>)"

definition tx_ack_seg :: "u32 \<Rightarrow> tx_seg \<Rightarrow> tx_seg" where
  "tx_ack_seg ack e =
    (if tcp_seq_before (tx_seq e) ack
     then \<lparr> tx_seq = ack, tx_len = unat (ucast (tx_end e - ack) :: u16), tx_sacked = False, tx_lost = False, tx_retransmitted = False \<rparr>
     else e)"

definition tcp_tx_ack :: "u32 \<Rightarrow> tcp_conn \<Rightarrow> tcp_conn" where
  "tcp_tx_ack ack c = c\<lparr> tx := map (tx_ack_seg ack) (filter (\<lambda>e. tcp_seq_after (tx_end e) ack) (tx c)) \<rparr>"

definition tx_high :: "tcp_conn \<Rightarrow> u32" where
  "tx_high c = fold (\<lambda>b high. if tcp_seq_after (snd b) high then snd b else high) (sacks c) (snd_una c)"

definition tx_covered :: "tcp_conn \<Rightarrow> tx_seg \<Rightarrow> bool" where
  "tx_covered c e \<longleftrightarrow> (\<exists>b \<in> set (sacks c). \<not> tcp_seq_before (tx_seq e) (fst b) \<and> \<not> tcp_seq_after (tx_end e) (snd b))"

definition tcp_tx_sack :: "tcp_conn \<Rightarrow> tcp_conn" where
  "tcp_tx_sack c = c\<lparr> tx := map (\<lambda>e. e\<lparr> tx_sacked := tx_covered c e,
      tx_lost := (\<not> tx_covered c e \<and> tcp_seq_before (tx_seq e) (tx_high c)) \<rparr>) (tx c) \<rparr>"

definition tcp_tx_clear_marks :: "tcp_conn \<Rightarrow> tcp_conn" where
  "tcp_tx_clear_marks c = c\<lparr> tx := map (\<lambda>e. e\<lparr> tx_sacked := False, tx_lost := False, tx_retransmitted := False \<rparr>) (tx c) \<rparr>"

section \<open>Timers and congestion state\<close>

text \<open>The current tick is an argument.\<close>

definition tcp_persist_arm :: "u32 \<Rightarrow> tcp_conn \<Rightarrow> tcp_conn" where
  "tcp_persist_arm now c = (if persist_deadline c = 0 then c\<lparr> persist_deadline := now + TCP_RTO_INIT \<rparr> else c)"

definition tcp_persist_clear :: "tcp_conn \<Rightarrow> tcp_conn" where
  "tcp_persist_clear c = c\<lparr> persist_deadline := 0, persist_backoff := 0 \<rparr>"

definition tcp_persist_retry :: "u32 \<Rightarrow> tcp_conn \<Rightarrow> tcp_conn" where
  "tcp_persist_retry now c =
    (let b = (if persist_backoff c < 6 then persist_backoff c + 1 else persist_backoff c);
         d0 = push_bit (unat b) TCP_RTO_INIT;
         d = (if d0 > TCP_RTO_MAX then TCP_RTO_MAX else d0)
     in c\<lparr> persist_backoff := b, persist_deadline := now + d \<rparr>)"

definition rto_base :: "tcp_conn \<Rightarrow> u32" where
  "rto_base c =
    (let r = (if rto_ticks c \<noteq> 0 then rto_ticks c else TCP_RTO_INIT)
     in if r < TCP_RTO_INIT then TCP_RTO_INIT else if r > TCP_RTO_MAX then TCP_RTO_MAX else r)"

definition rto_now :: "tcp_conn \<Rightarrow> u32" where
  "rto_now c = (let r = push_bit (unat (rto_backoff c)) (rto_base c) in if r > TCP_RTO_MAX then TCP_RTO_MAX else r)"

definition tcp_rto_arm :: "u32 \<Rightarrow> tcp_conn \<Rightarrow> tcp_conn" where
  "tcp_rto_arm now c = c\<lparr> rto_deadline := now + rto_now c, rto_backoff := 0, rto_attempts := 0 \<rparr>"

definition tcp_rto_rearm :: "u32 \<Rightarrow> tcp_conn \<Rightarrow> tcp_conn" where
  "tcp_rto_rearm now c = c\<lparr> rto_deadline := now + rto_now c \<rparr>"

definition tcp_rto_retry :: "u32 \<Rightarrow> tcp_conn \<Rightarrow> tcp_conn" where
  "tcp_rto_retry now c =
    (let c1 = c\<lparr> rto_backoff := (if rto_backoff c < 6 then rto_backoff c + 1 else rto_backoff c),
                 rto_attempts := rto_attempts c + 1 \<rparr>
     in c1\<lparr> rto_deadline := now + rto_now c1 \<rparr>)"

definition tcp_cc_init :: "tcp_conn \<Rightarrow> tcp_conn" where
  "tcp_cc_init c = c\<lparr> rto_ticks := TCP_RTO_INIT, rtt_stamp := 0, rtt_seq := 0, srtt_ticks := 0,
     rttvar_ticks := 0, rtt_pending := False, rtt_retransmitted := False, cwnd := of_nat TCP_MSS,
     ssthresh := of_nat TCP_BUF_SIZE, dupacks := 0, fast_recovery := False, recover_seq := 0 \<rparr>"

definition tcp_rtt_sample :: "u32 \<Rightarrow> tcp_conn \<Rightarrow> tcp_conn" where
  "tcp_rtt_sample sample0 c =
    (let sample = (if sample0 = 0 then 1 else sample0);
         c1 = (if srtt_ticks c = 0 then c\<lparr> srtt_ticks := sample, rttvar_ticks := sample div 2 \<rparr>
               else (let d = (if srtt_ticks c > sample then srtt_ticks c - sample else sample - srtt_ticks c)
                     in c\<lparr> rttvar_ticks := (3 * rttvar_ticks c + d) div 4,
                           srtt_ticks := (7 * srtt_ticks c + sample) div 8 \<rparr>));
         r = srtt_ticks c1 + 4 * rttvar_ticks c1
     in c1\<lparr> rto_ticks := (if r < TCP_RTO_INIT then TCP_RTO_INIT else if r > TCP_RTO_MAX then TCP_RTO_MAX else r) \<rparr>)"

definition tcp_loss_window :: "u32 \<Rightarrow> tcp_conn \<Rightarrow> tcp_conn" where
  "tcp_loss_window in_flight c =
    (let half = in_flight div 2 in
     c\<lparr> ssthresh := (if half < 2 * of_nat TCP_MSS then 2 * of_nat TCP_MSS else half),
        cwnd := of_nat TCP_MSS, dupacks := 0, fast_recovery := False \<rparr>)"

definition tcp_advertise_window :: "tcp_conn \<Rightarrow> u32" where
  "tcp_advertise_window c =
    (let free = of_nat TCP_BUF_SIZE - of_nat (length (rxb c)) :: u32
     in if free \<noteq> 0 \<and> free < of_nat TCP_MSS then 0 else free)"

text \<open>Options of an outgoing segment.\<close>

definition tcp_sack_blocks :: "tcp_conn \<Rightarrow> nat" where
  "tcp_sack_blocks c = (let n = length (filter (\<lambda>sl. sl \<noteq> None) (ooo c)) in if n > 2 then 2 else n)"

definition sack_opt_blocks :: "nat \<Rightarrow> (u32 \<times> bytes) option list \<Rightarrow> bytes" where
  "sack_opt_blocks k sls = concat (map (\<lambda>(q, d). le32 (hton32 q) @ le32 (hton32 (q + of_nat (length d))))
     (take k (List.map_filter id sls)))"

definition tcp_build_opts :: "tcp_conn \<Rightarrow> u8 \<Rightarrow> bytes" where
  "tcp_build_opts c flags =
    (let o1 = (if flags AND 0x02 \<noteq> 0 then [2, 4, 5, 180] else []);
         o2 = (if flags AND 0x02 \<noteq> 0 \<and> sack_ok c then o1 @ [1, 1, 4, 2]
               else if flags AND 0x10 \<noteq> 0 \<and> sack_ok c then
                 (let blocks = tcp_sack_blocks c in
                  if blocks \<noteq> 0 then o1 @ [1, 1, 5, of_nat (2 + 8 * blocks)] @ sack_opt_blocks blocks (ooo c) else o1)
               else o1)
     in o2 @ replicate ((4 - length o2 mod 4) mod 4) 1)"

end
