(* ===== verification/TcpRx.thy ===== *)
theory TcpRx
  imports TcpConn
begin

text \<open>
  Correctness of TCP reassembly (\<open>tcp_accept_data\<close>, \<open>tcp_queue_ooo\<close>,
  \<open>tcp_merge_ooo\<close>).  The peer's byte stream is a function \<open>S\<close> from sequence numbers
  to bytes; a segment is a fragment of it when every byte is the stream's byte at its
  sequence number.  Sequence numbers wrap, and nothing below assumes they do not.
\<close>

section \<open>Fragments of a stream\<close>

definition frag :: "(u32 \<Rightarrow> u8) \<Rightarrow> u32 \<Rightarrow> bytes \<Rightarrow> bool" where
  "frag S sq d \<longleftrightarrow> (\<forall>k < length d. d ! k = S (sq + of_nat k))"

lemma frag_Nil [simp]: "frag S sq []"
  by (simp add: frag_def)

lemma frag_drop: "frag S sq d \<Longrightarrow> frag S (sq + of_nat t) (drop t d)"
  by (auto simp: frag_def add.assoc of_nat_add [symmetric] simp del: of_nat_add)

lemma frag_take: "frag S sq d \<Longrightarrow> frag S sq (take t d)"
  by (auto simp: frag_def)

lemma frag_append: "frag S sq (a @ b) \<longleftrightarrow> frag S sq a \<and> frag S (sq + of_nat (length a)) b"
proof
  assume ab: "frag S sq (a @ b)"
  then show "frag S sq a \<and> frag S (sq + of_nat (length a)) b"
    using frag_take [OF ab, of "length a"] frag_drop [OF ab, of "length a"] by simp
next
  assume h: "frag S sq a \<and> frag S (sq + of_nat (length a)) b"
  show "frag S sq (a @ b)"
    unfolding frag_def
  proof (intro allI impI)
    fix k assume k: "k < length (a @ b)"
    show "(a @ b) ! k = S (sq + of_nat k)"
    proof (cases "k < length a")
      case True
      then show ?thesis using h by (simp add: frag_def nth_append)
    next
      case False
      have "(a @ b) ! k = b ! (k - length a)" using False by (simp add: nth_append)
      also have "\<dots> = S (sq + of_nat (length a) + of_nat (k - length a))"
        using h k False by (simp add: frag_def)
      also have "sq + of_nat (length a) + of_nat (k - length a) = sq + of_nat k"
        using False by (simp add: of_nat_diff)
      finally show ?thesis .
    qed
  qed
qed

lemma frag_Cons: "frag S sq (x # xs) \<longleftrightarrow> x = S sq \<and> frag S (sq + 1) xs"
  using frag_append [of S sq "[x]" xs] by (simp add: frag_def)

text \<open>The arithmetic of trimming: a segment that starts before \<open>nxt\<close> and ends after it
  overlaps by less than its length.\<close>

lemma seq_overlap:
  assumes b: "\<not> tcp_seq_after sq nxt" and a: "tcp_seq_after (sq + of_nat len) nxt" and l: "len < 65536"
  shows "unat (nxt - sq) < len"
proof -
  define x where "x = sint (sq - nxt)"
  have x: "- 2147483648 \<le> x" "x \<le> 0"
    using b sint_ge [of "sq - nxt"] by (auto simp: x_def tcp_seq_after_def tick_diff_def)
  have sx: "sq - nxt = word_of_int x" by (simp add: x_def)
  have "sq + of_nat len - nxt = (sq - nxt) + of_nat len" by simp
  also have "\<dots> = word_of_int (x + int len)" by (simp add: sx)
  finally have "tick_diff (sq + of_nat len) nxt = x + int len"
    unfolding tick_diff_def using x l by (simp only:) (rule sint_u32_of_int; simp)
  then have pos: "x + int len > 0" using a by (simp add: tcp_seq_after_def)
  have "nxt - sq = - (sq - nxt)" by simp
  also have "\<dots> = word_of_int (- x)" unfolding sx by simp
  also have "\<dots> = of_nat (nat (- x))" using x by simp
  finally have e: "nxt - sq = of_nat (nat (- x))" .
  have "nat (- x) < 2 ^ 32" using x pos l by simp
  then have "unat (nxt - sq) = nat (- x)" unfolding e by (simp only: unat_of_nat) simp
  then show ?thesis using pos x by simp
qed

lemma seq_before_not_after: "tcp_seq_before a b \<Longrightarrow> \<not> tcp_seq_after a b"
  by (simp add: tcp_seq_before_def tcp_seq_after_def)

lemma frag_trim: "frag S sq d \<Longrightarrow> frag S nxt (drop (unat (nxt - sq)) d)"
  using frag_drop [of S sq d "unat (nxt - sq)"] by simp

section \<open>The invariant\<close>

definition slot_ok :: "(u32 \<Rightarrow> u8) \<Rightarrow> (u32 \<times> bytes) option \<Rightarrow> bool" where
  "slot_ok S sl \<longleftrightarrow> (case sl of None \<Rightarrow> True | Some (q, d) \<Rightarrow> frag S q d \<and> 0 < length d \<and> length d \<le> TCP_MSS)"

definition slot_len :: "(u32 \<times> bytes) option \<Rightarrow> nat" where
  "slot_len sl = (case sl of None \<Rightarrow> 0 | Some (q, d) \<Rightarrow> length d)"

definition rx_inv :: "(u32 \<Rightarrow> u8) \<Rightarrow> tcp_conn \<Rightarrow> bool" where
  "rx_inv S c \<longleftrightarrow> length (ooo c) = TCP_OOO_SLOTS \<and> length (rxb c) \<le> TCP_BUF_SIZE \<and>
     frag S (rcv_nxt c - of_nat (length (rxb c))) (rxb c) \<and> (\<forall>sl \<in> set (ooo c). slot_ok S sl) \<and>
     ooo_bytes c = of_nat (sum_list (map slot_len (ooo c)))"

text \<open>Progress from one state to another: new bytes at the end of the receive buffer, and
  \<open>rcv_nxt\<close> advanced by as many; what the receive path never touches is unchanged.\<close>

definition rx_adv :: "tcp_conn \<Rightarrow> tcp_conn \<Rightarrow> bool" where
  "rx_adv c c' \<longleftrightarrow> (\<exists>new sl b. c' = c\<lparr> rxb := rxb c @ new, rcv_nxt := rcv_nxt c + of_nat (length new),
     ooo := sl, ooo_bytes := b \<rparr>)"

lemma rx_advI: "c' = c\<lparr> rxb := rxb c @ new, rcv_nxt := rcv_nxt c + of_nat (length new), ooo := sl, ooo_bytes := b \<rparr> \<Longrightarrow> rx_adv c c'"
  unfolding rx_adv_def by blast

lemma rx_adv_refl [simp]: "rx_adv c c"
  by (rule rx_advI [where new = "[]" and sl = "ooo c" and b = "ooo_bytes c"]) simp

lemma rx_adv_trans:
  assumes "rx_adv c d" "rx_adv d e"
  shows "rx_adv c e"
proof -
  obtain n1 o1 b1 where d: "d = c\<lparr> rxb := rxb c @ n1, rcv_nxt := rcv_nxt c + of_nat (length n1), ooo := o1, ooo_bytes := b1 \<rparr>"
    using assms(1) unfolding rx_adv_def by blast
  obtain n2 o2 b2 where e: "e = d\<lparr> rxb := rxb d @ n2, rcv_nxt := rcv_nxt d + of_nat (length n2), ooo := o2, ooo_bytes := b2 \<rparr>"
    using assms(2) unfolding rx_adv_def by blast
  show ?thesis
    by (rule rx_advI [where new = "n1 @ n2" and sl = o2 and b = b2]) (simp add: e d)
qed

lemma sum_len_update:
  "i < length xs \<Longrightarrow> sum_list (map slot_len (xs[i := y])) + slot_len (xs ! i) = sum_list (map slot_len xs) + slot_len y"
proof (induction xs arbitrary: i)
  case (Cons x xs)
  then show ?case by (cases i) (auto simp: add.commute add.left_commute)
qed simp

lemma ooo_bytes_update:
  assumes "i < length xs" "b = of_nat (sum_list (map slot_len xs))"
  shows "(of_nat (sum_list (map slot_len (xs[i := y]))) :: u32) = b - of_nat (slot_len (xs ! i)) + of_nat (slot_len y)"
proof -
  have "(of_nat (sum_list (map slot_len (xs[i := y])) + slot_len (xs ! i)) :: u32) = of_nat (sum_list (map slot_len xs) + slot_len y)"
    using sum_len_update [OF assms(1), of y] by simp
  then show ?thesis using assms(2) by (simp add: algebra_simps)
qed

lemma set_update_ball: "\<forall>x \<in> set xs. P x \<Longrightarrow> P y \<Longrightarrow> \<forall>x \<in> set (xs[i := y]). P x"
  by (auto dest!: set_update_subset_insert [THEN subsetD])

lemma rx_inv_slot:
  assumes inv: "rx_inv S c" and i: "i < length (ooo c)" and ok: "slot_ok S y"
    and b: "b = ooo_bytes c - of_nat (slot_len (ooo c ! i)) + of_nat (slot_len y)"
  shows "rx_inv S (c\<lparr> ooo := (ooo c)[i := y], ooo_bytes := b \<rparr>)"
  using inv ok ooo_bytes_update [OF i, of "ooo_bytes c" y] set_update_ball [of "ooo c" "slot_ok S" y i] b
  by (simp add: rx_inv_def)

lemma rx_inv_append:
  assumes inv: "rx_inv S c" and d: "frag S (rcv_nxt c) d" and f: "length (rxb c) + length d \<le> TCP_BUF_SIZE"
  shows "rx_inv S (c\<lparr> rxb := rxb c @ d, rcv_nxt := rcv_nxt c + of_nat (length d) \<rparr>)"
proof -
  have "frag S (rcv_nxt c - of_nat (length (rxb c))) (rxb c @ d)"
    using inv d by (simp add: frag_append rx_inv_def)
  then show ?thesis using inv f by (simp add: rx_inv_def)
qed

section \<open>Merging\<close>

lemma tcp_merge_slot_inv:
  assumes inv: "rx_inv S c" and i: "i < length (ooo c)" and st: "tcp_merge_slot i (a, c) = (a', c')"
  shows "rx_inv S c' \<and> rx_adv c c'"
proof (cases "ooo c ! i")
  case None
  then show ?thesis using st inv by (simp add: tcp_merge_slot_def)
next
  case (Some p)
  obtain sq d where p: "p = (sq, d)" by (cases p)
  have at: "ooo c ! i = Some (sq, d)" using Some p by simp
  then have ok: "frag S sq d" "0 < length d" "length d \<le> TCP_MSS"
    using inv i nth_mem [OF i] by (auto simp: rx_inv_def slot_ok_def)
  let ?n = "rcv_nxt c"
  define trim where "trim = ?n - sq"
  show ?thesis
  proof (cases "tcp_seq_after (sq + of_nat (length d)) ?n")
    case False
    then have c': "c' = c\<lparr> ooo := (ooo c)[i := None], ooo_bytes := ooo_bytes c - of_nat (length d) \<rparr>"
      using st at by (auto simp: tcp_merge_slot_def Let_def)
    have "rx_inv S c'" unfolding c' by (rule rx_inv_slot [OF inv i]) (simp_all add: slot_ok_def slot_len_def at)
    moreover have "rx_adv c c'" unfolding c' by (rule rx_advI [where new = "[]"]) simp
    ultimately show ?thesis ..
  next
    case True
    define cut where "cut = tcp_seq_before sq ?n"
    define sq1 where "sq1 = (if cut then ?n else sq)"
    define d1 where "d1 = (if cut then drop (unat trim) d else d)"
    define c1 where "c1 = (if cut then c\<lparr> ooo_bytes := ooo_bytes c - trim, ooo := (ooo c)[i := Some (sq1, d1)] \<rparr> else c)"
    have tl: "cut \<Longrightarrow> unat trim < length d"
      unfolding trim_def cut_def using seq_overlap [OF seq_before_not_after True] ok(3) by simp
    have ok1: "slot_ok S (Some (sq1, d1))"
      using ok tl frag_trim [OF ok(1), of ?n] by (auto simp: slot_ok_def sq1_def d1_def trim_def)
    have c1: "c1 = c\<lparr> ooo := (ooo c)[i := Some (sq1, d1)], ooo_bytes := ooo_bytes c - (if cut then trim else 0) \<rparr>"
      using at by (auto simp: c1_def sq1_def d1_def list_update_id [of "ooo c" i, unfolded at])
    have inv1: "rx_inv S c1" unfolding c1
    proof (rule rx_inv_slot [OF inv i ok1])
      show "ooo_bytes c - (if cut then trim else 0) = ooo_bytes c - of_nat (slot_len (ooo c ! i)) + of_nat (slot_len (Some (sq1, d1)))"
        using tl by (auto simp: slot_len_def at d1_def of_nat_diff)
    qed
    have adv1: "rx_adv c c1" unfolding c1 by (rule rx_advI [where new = "[]"]) simp
    have n1: "rcv_nxt c1 = ?n" "rxb c1 = rxb c" "length (ooo c1) = length (ooo c)" "ooo c1 ! i = Some (sq1, d1)"
      using i by (simp_all add: c1)
    have "tcp_merge_slot i (a, c) = (if sq1 \<noteq> rcv_nxt c1 then (a \<or> cut, c1)
        else if length (rxb c1) + length d1 > TCP_BUF_SIZE then (a \<or> cut, c1)
        else (True, (tcp_rx_append d1 c1)\<lparr> rcv_nxt := rcv_nxt c1 + of_nat (length d1),
                 ooo_bytes := ooo_bytes c1 - of_nat (length d1), ooo := (ooo c1)[i := None] \<rparr>))"
      unfolding tcp_merge_slot_def prod.case at option.case Let_def c1_def d1_def sq1_def cut_def trim_def
      using True by (simp only: not_True_eq_False if_False)
    then have res: "c' = c1 \<or> (sq1 = ?n \<and> length (rxb c1) + length d1 \<le> TCP_BUF_SIZE \<and>
        c' = (tcp_rx_append d1 c1)\<lparr> rcv_nxt := rcv_nxt c1 + of_nat (length d1),
                 ooo_bytes := ooo_bytes c1 - of_nat (length d1), ooo := (ooo c1)[i := None] \<rparr>)"
      unfolding st n1(1) by (simp only: prod.inject not_less split: if_splits) blast+
    then show ?thesis
    proof
      assume "c' = c1" then show ?thesis using inv1 adv1 by simp
    next
      assume r: "sq1 = ?n \<and> length (rxb c1) + length d1 \<le> TCP_BUF_SIZE \<and>
        c' = (tcp_rx_append d1 c1)\<lparr> rcv_nxt := rcv_nxt c1 + of_nat (length d1),
                 ooo_bytes := ooo_bytes c1 - of_nat (length d1), ooo := (ooo c1)[i := None] \<rparr>"
      have i1: "i < length (ooo c1)" using i n1 by simp
      let ?c2 = "c1\<lparr> ooo := (ooo c1)[i := None], ooo_bytes := ooo_bytes c1 - of_nat (length d1) \<rparr>"
      have inv2: "rx_inv S ?c2"
        by (rule rx_inv_slot [OF inv1 i1]) (simp_all add: slot_ok_def slot_len_def n1)
      have c': "c' = ?c2\<lparr> rxb := rxb ?c2 @ d1, rcv_nxt := rcv_nxt ?c2 + of_nat (length d1) \<rparr>"
        using r by (simp add: tcp_rx_append_def)
      have "rx_inv S c'" unfolding c'
        by (rule rx_inv_append [OF inv2]) (use r ok1 n1 in \<open>simp_all add: slot_ok_def\<close>)
      moreover have "rx_adv c1 c'" unfolding c'
        by (rule rx_advI [where new = d1 and sl = "(ooo c1)[i := None]" and b = "ooo_bytes c1 - of_nat (length d1)"]) simp
      ultimately show ?thesis using rx_adv_trans [OF adv1] by blast
    qed
  qed
qed

lemma tcp_merge_fold_inv:
  "rx_inv S c \<Longrightarrow> \<forall>i \<in> set is. i < length (ooo c) \<Longrightarrow> fold tcp_merge_slot is (a, c) = (a', c') \<Longrightarrow>
   rx_inv S c' \<and> rx_adv c c'"
proof (induction "is" arbitrary: a c)
  case (Cons i "is")
  obtain a1 c1 where s: "tcp_merge_slot i (a, c) = (a1, c1)" by (cases "tcp_merge_slot i (a, c)")
  have l: "i < length (ooo c)" using Cons.prems by simp
  note w = tcp_merge_slot_inv [OF Cons.prems(1) l s]
  have len: "length (ooo c1) = length (ooo c)" using w Cons.prems(1) by (simp add: rx_inv_def)
  have "rx_inv S c' \<and> rx_adv c1 c'"
    by (rule Cons.IH [of c1 a1]) (use Cons.prems s w len in auto)
  then show ?case using w rx_adv_trans by blast
qed simp

lemma tcp_merge_ooo_inv: "rx_inv S c \<Longrightarrow> rx_inv S (tcp_merge_ooo c) \<and> rx_adv c (tcp_merge_ooo c)"
proof (induction c rule: tcp_merge_ooo.induct)
  case (1 c)
  obtain a c1 where p: "tcp_merge_pass c = (a, c1)" by (cases "tcp_merge_pass c")
  have w: "rx_inv S c1 \<and> rx_adv c c1"
    using p tcp_merge_fold_inv [OF 1(2), of "[0..<length (ooo c)]" False a c1] unfolding tcp_merge_pass_def by auto
  show ?case
  proof (cases a)
    case True
    then have "tcp_merge_ooo c = tcp_merge_ooo c1" using p by (simp add: tcp_merge_ooo.simps [of c])
    then show ?thesis using 1(1) [OF p [symmetric]] True w rx_adv_trans by auto
  next
    case False
    then show ?thesis using p w by (simp add: tcp_merge_ooo.simps [of c])
  qed
qed

section \<open>Arrival of a segment\<close>

lemma find_idx_none_slot:
  assumes "find_idx (\<lambda>sl. sl = None) xs = Some i"
  shows "i < length xs \<and> xs ! i = None"
  using find_idx_lt [OF assms] find_idx_sat [OF assms] by simp

lemma tcp_queue_ooo_inv:
  assumes inv: "rx_inv S c" and d: "frag S sq data"
    and q: "tcp_queue_ooo sq data (length data) c = (ok, c')"
  shows "rx_inv S c' \<and> rx_adv c c'"
proof (cases "ok")
  case False
  then have "c' = c" using q by (auto simp: tcp_queue_ooo_def Let_def split: if_splits option.splits)
  then show ?thesis using inv by simp
next
  case True
  define cut where "cut = (\<not> tcp_seq_after sq (rcv_nxt c))"
  define trim where "trim = rcv_nxt c - sq"
  define sq1 where "sq1 = (if cut then sq + trim else sq)"
  define d1 where "d1 = (if cut then drop (unat trim) data else data)"
  define len1 where "len1 = (if cut then length data - unat trim else length data)"
  have pre: "0 < length data" "length data \<le> TCP_MSS" "tcp_seq_after (sq + of_nat (length data)) (rcv_nxt c)"
    using q True by (auto simp: tcp_queue_ooo_def Let_def split: if_splits)
  then obtain i where i: "find_idx (\<lambda>sl. sl = None) (ooo c) = Some i"
    and c': "c' = c\<lparr> ooo := (ooo c)[i := Some (sq1, take len1 d1)], ooo_bytes := ooo_bytes c + of_nat len1 \<rparr>"
    using q True unfolding tcp_queue_ooo_def Let_def cut_def [symmetric] trim_def [symmetric]
      sq1_def [symmetric] d1_def [symmetric] len1_def [symmetric]
    by (auto split: if_splits option.splits)
  have len1: "length d1 = len1" by (simp add: d1_def len1_def)
  have tl: "cut \<Longrightarrow> unat trim < length data"
    unfolding trim_def cut_def using seq_overlap [OF _ pre(3)] pre(2) by simp
  have ok1: "slot_ok S (Some (sq1, take len1 d1))"
    using pre tl d len1 frag_trim [OF d, of "rcv_nxt c"]
    by (auto simp: slot_ok_def sq1_def d1_def len1_def trim_def)
  have "rx_inv S c'" unfolding c'
    by (rule rx_inv_slot [OF inv _ ok1]) (use find_idx_none_slot [OF i] len1 in \<open>auto simp: slot_len_def\<close>)
  moreover have "rx_adv c c'" unfolding c' by (rule rx_advI [where new = "[]"]) simp
  ultimately show ?thesis ..
qed

lemma tcp_accept_data_inv:
  assumes inv: "rx_inv S c" and d: "frag S sq data"
    and q: "tcp_accept_data sq data (length data) c = (ok, c')"
  shows "rx_inv S c' \<and> rx_adv c c'"
proof (cases "sq = rcv_nxt c")
  case False
  then show ?thesis using q tcp_queue_ooo_inv [OF inv d] by (simp add: tcp_accept_data_def)
next
  case True
  show ?thesis
  proof (cases "length data \<le> TCP_MSS \<and> length (rxb c) + length data \<le> TCP_BUF_SIZE")
    case False
    then show ?thesis using q True inv by (auto simp: tcp_accept_data_def split: if_splits)
  next
    case fits: True
    let ?c1 = "c\<lparr> rxb := rxb c @ data, rcv_nxt := rcv_nxt c + of_nat (length data) \<rparr>"
    have c': "c' = tcp_merge_ooo ?c1"
      using q True fits by (simp add: tcp_accept_data_def tcp_rx_append_def)
    have inv1: "rx_inv S ?c1" by (rule rx_inv_append [OF inv]) (use d True fits in simp_all)
    have "rx_adv c ?c1"
      by (rule rx_advI [where new = data and sl = "ooo c" and b = "ooo_bytes c"]) simp
    then show ?thesis using tcp_merge_ooo_inv [OF inv1] rx_adv_trans unfolding c' by blast
  qed
qed

section \<open>What a merge leaves behind\<close>

text \<open>A slot that survives a merge is neither stale nor overlapping, and when it is contiguous
  the receive buffer has no room for it.\<close>

definition slot_settled :: "tcp_conn \<Rightarrow> (u32 \<times> bytes) option \<Rightarrow> bool" where
  "slot_settled c sl \<longleftrightarrow> (case sl of None \<Rightarrow> True | Some (q, d) \<Rightarrow>
     tcp_seq_after (q + of_nat (length d)) (rcv_nxt c) \<and> \<not> tcp_seq_before q (rcv_nxt c) \<and>
     (q = rcv_nxt c \<longrightarrow> length (rxb c) + length d > TCP_BUF_SIZE))"

lemma tcp_merge_slot_False:
  "tcp_merge_slot i (a, c) = (False, c') \<Longrightarrow> c' = c \<and> \<not> a \<and> slot_settled c (ooo c ! i)"
  by (cases "ooo c ! i") (auto simp: tcp_merge_slot_def slot_settled_def Let_def split: if_splits)

lemma tcp_merge_fold_False:
  "fold tcp_merge_slot is (a, c) = (False, c') \<Longrightarrow> c' = c \<and> \<not> a \<and> (\<forall>i \<in> set is. slot_settled c (ooo c ! i))"
proof (induction "is" arbitrary: a c)
  case (Cons i "is")
  obtain a1 c1 where s: "tcp_merge_slot i (a, c) = (a1, c1)" by (cases "tcp_merge_slot i (a, c)")
  have "c' = c1 \<and> \<not> a1 \<and> (\<forall>i \<in> set is. slot_settled c1 (ooo c1 ! i))"
    by (rule Cons.IH) (use Cons.prems s in simp)
  then show ?case using tcp_merge_slot_False [of i a c c1] s by auto
qed simp

lemma tcp_merge_ooo_settled: "\<forall>sl \<in> set (ooo (tcp_merge_ooo c)). slot_settled (tcp_merge_ooo c) sl"
proof (induction c rule: tcp_merge_ooo.induct)
  case (1 c)
  obtain a c1 where p: "tcp_merge_pass c = (a, c1)" by (cases "tcp_merge_pass c")
  show ?case
  proof (cases a)
    case True
    then show ?thesis using 1 [OF p [symmetric]] p by (simp add: tcp_merge_ooo.simps [of c])
  next
    case False
    then have "tcp_merge_ooo c = c1" using p by (simp add: tcp_merge_ooo.simps [of c])
    moreover have "c1 = c \<and> (\<forall>i \<in> set [0..<length (ooo c)]. slot_settled c (ooo c ! i))"
      using tcp_merge_fold_False [of "[0..<length (ooo c)]" False c c1] p False by (simp add: tcp_merge_pass_def)
    ultimately show ?thesis by (auto simp: in_set_conv_nth)
  qed
qed

section \<open>Runs of arrivals and reads\<close>

datatype rx_event = Arrive u32 bytes | AppRead nat

fun rx_step :: "rx_event \<Rightarrow> bytes \<times> tcp_conn \<Rightarrow> bytes \<times> tcp_conn" where
  "rx_step (Arrive sq d) (out, c) = (out, snd (tcp_accept_data sq d (length d) c))"
| "rx_step (AppRead n) (out, c) = (case tcp_recv_take n c of (bs, c') \<Rightarrow> (out @ bs, c'))"

fun rx_run :: "rx_event list \<Rightarrow> bytes \<times> tcp_conn \<Rightarrow> bytes \<times> tcp_conn" where
  "rx_run [] st = st"
| "rx_run (e # es) st = rx_run es (rx_step e st)"

fun event_of :: "(u32 \<Rightarrow> u8) \<Rightarrow> rx_event \<Rightarrow> bool" where
  "event_of S (Arrive sq d) = frag S sq d"
| "event_of S (AppRead n) = True"

definition stream_inv :: "(u32 \<Rightarrow> u8) \<Rightarrow> u32 \<Rightarrow> bytes \<times> tcp_conn \<Rightarrow> bool" where
  "stream_inv S start st \<longleftrightarrow> (case st of (out, c) \<Rightarrow> rx_inv S c \<and> frag S start (out @ rxb c) \<and>
     rcv_nxt c = start + of_nat (length (out @ rxb c)))"

lemma tcp_recv_take_inv:
  assumes "rx_inv S c" "tcp_recv_take n c = (bs, c')"
  shows "rx_inv S c' \<and> rxb c = bs @ rxb c' \<and> rcv_nxt c' = rcv_nxt c"
proof -
  define k where "k = (if length (rxb c) > n then n else length (rxb c))"
  have k: "k \<le> length (rxb c)" by (simp add: k_def)
  have e: "bs = take k (rxb c)" "c' = c\<lparr> rxb := drop k (rxb c) \<rparr>"
    using assms(2) by (auto simp: tcp_recv_take_def Let_def k_def)
  have s: "rcv_nxt c - of_nat (length (rxb c)) + of_nat k = rcv_nxt c - of_nat (length (rxb c) - k)"
    using k by (simp add: of_nat_diff)
  have "frag S (rcv_nxt c - of_nat (length (rxb c))) (rxb c)" using assms(1) by (simp add: rx_inv_def)
  from frag_drop [OF this, of k, unfolded s]
  have "frag S (rcv_nxt c - of_nat (length (rxb c) - k)) (drop k (rxb c))" .
  then show ?thesis using assms(1) by (auto simp: rx_inv_def e)
qed

lemma rx_step_inv:
  assumes inv: "stream_inv S start st" and ev: "event_of S e"
  shows "stream_inv S start (rx_step e st)"
proof -
  obtain out c where st: "st = (out, c)" by (cases st)
  have i: "rx_inv S c" "frag S start (out @ rxb c)" "rcv_nxt c = start + of_nat (length (out @ rxb c))"
    using inv by (auto simp: stream_inv_def st)
  show ?thesis
  proof (cases e)
    case (Arrive sq d)
    obtain ok c' where q: "tcp_accept_data sq d (length d) c = (ok, c')"
      by (cases "tcp_accept_data sq d (length d) c")
    have "frag S sq d" using ev Arrive by simp
    from tcp_accept_data_inv [OF i(1) this q] obtain new sl b where
      r: "rx_inv S c'" "c' = c\<lparr> rxb := rxb c @ new, rcv_nxt := rcv_nxt c + of_nat (length new), ooo := sl, ooo_bytes := b \<rparr>"
      unfolding rx_adv_def by blast
    have e: "rxb c' = rxb c @ new" "rcv_nxt c' = rcv_nxt c + of_nat (length new)" by (simp_all add: r(2))
    have "frag S (rcv_nxt c' - of_nat (length (rxb c'))) (rxb c')" using r(1) by (simp add: rx_inv_def)
    then have "frag S (rcv_nxt c) new" by (simp add: e frag_append)
    then have "frag S start (out @ rxb c')" using i by (simp add: e frag_append add.assoc)
    then show ?thesis using r(1) i(3) q by (simp add: stream_inv_def st Arrive e)
  next
    case (AppRead n)
    obtain bs c' where q: "tcp_recv_take n c = (bs, c')" by (cases "tcp_recv_take n c")
    show ?thesis using tcp_recv_take_inv [OF i(1) q] i q by (auto simp: stream_inv_def st AppRead)
  qed
qed

lemma rx_run_inv: "stream_inv S start st \<Longrightarrow> list_all (event_of S) es \<Longrightarrow> stream_inv S start (rx_run es st)"
proof (induction es arbitrary: st)
  case (Cons e es)
  show ?case using Cons.IH [OF rx_step_inv [of S start st e]] Cons.prems by simp
qed simp

section \<open>Properties\<close>

text \<open>Property C1: in-order delivery of the peer's stream.  Whatever the arrivals of
  fragments of the stream are (lost, repeated, reordered, overlapping, wrapping around the
  sequence space) and however they interleave with reads, the bytes handed to the
  application followed by those still buffered are the stream from the first expected
  sequence number on, without gap or repetition; \<open>rcv_nxt\<close>, which every ACK carries,
  counts exactly those bytes, and the receive buffer never exceeds its 4096 bytes.\<close>

theorem tcp_stream_delivery:
  assumes "rx_inv S c" "rxb c = []" "list_all (event_of S) es" "rx_run es ([], c) = (out, c')"
  shows "frag S (rcv_nxt c) (out @ rxb c') \<and>
    rcv_nxt c' = rcv_nxt c + of_nat (length out + length (rxb c')) \<and> length (rxb c') \<le> TCP_BUF_SIZE"
proof -
  have "stream_inv S (rcv_nxt c) ([], c)" using assms by (simp add: stream_inv_def)
  from rx_run_inv [OF this assms(3)] show ?thesis
    using assms(4) by (simp add: stream_inv_def rx_inv_def)
qed

definition rx_demo :: tcp_conn where
  "rx_demo = tcp_conn0\<lparr> rcv_nxt := 1 \<rparr>"

definition rx_demo_events :: "rx_event list" where
  "rx_demo_events = [Arrive 3 [3, 4], Arrive 3 [3, 4], Arrive 1 [1, 2], AppRead 3, AppRead 9]"

lemma replicate_two [simp]: "replicate 2 x = [x, x]"
  by (simp add: numeral_2_eq_2)

lemma upt_two: "[0..<Suc (Suc 0)] = [0, Suc 0]"
  by simp

lemmas rx_eval = rx_demo_def tcp_conn0_def tcp_accept_data_def tcp_queue_ooo_def tcp_seq_after_def
  tcp_seq_before_def tick_diff_def tcp_rx_append_def tcp_merge_pass_def tcp_merge_slot_def tcp_recv_take_def

definition rx_demo1 :: tcp_conn where
  "rx_demo1 = rx_demo\<lparr> ooo := [Some (3, [3, 4]), None], ooo_bytes := 2 \<rparr>"

lemma rx_demo_queue: "tcp_accept_data 3 [3, 4] (Suc (Suc 0)) rx_demo = (True, rx_demo1)"
  by (simp add: rx_eval rx_demo1_def find_idx_def)

lemma rx_demo_dup: "tcp_accept_data 3 [3, 4] (Suc (Suc 0)) rx_demo1 = (False, rx_demo1)"
  by (simp add: rx_eval rx_demo1_def)

lemma rx_demo_pass1:
  "tcp_merge_pass (rx_demo1\<lparr> rxb := [1, 2], rcv_nxt := 3 \<rparr>) = (True, rx_demo\<lparr> rxb := [1, 2, 3, 4], rcv_nxt := 5 \<rparr>)"
  by (simp add: rx_eval rx_demo1_def upt_two)

lemma rx_demo_pass2:
  "tcp_merge_pass (rx_demo\<lparr> rxb := [1, 2, 3, 4], rcv_nxt := 5 \<rparr>) = (False, rx_demo\<lparr> rxb := [1, 2, 3, 4], rcv_nxt := 5 \<rparr>)"
  by (simp add: rx_eval upt_two)

lemma rx_demo_fill:
  "tcp_accept_data 1 [1, 2] (Suc (Suc 0)) rx_demo1 = (True, rx_demo\<lparr> rxb := [1, 2, 3, 4], rcv_nxt := 5 \<rparr>)"
proof -
  have "tcp_accept_data 1 [1, 2] (Suc (Suc 0)) rx_demo1 = (True, tcp_merge_ooo (rx_demo1\<lparr> rxb := [1, 2], rcv_nxt := 3 \<rparr>))"
    by (simp add: rx_demo1_def tcp_accept_data_def rx_demo_def tcp_conn0_def tcp_rx_append_def)
  then show ?thesis
    by (simp add: tcp_merge_ooo.simps [of "rx_demo1\<lparr> rxb := [1, 2], rcv_nxt := 3 \<rparr>"]
        tcp_merge_ooo.simps [of "rx_demo\<lparr> rxb := [1, 2, 3, 4], rcv_nxt := 5 \<rparr>"] rx_demo_pass1 rx_demo_pass2)
qed

lemma rx_demo_run:
  "rx_run rx_demo_events ([], rx_demo) = ([1, 2, 3, 4], rx_demo\<lparr> rcv_nxt := 5 \<rparr>)"
proof -
  have "rx_run rx_demo_events ([], rx_demo) =
    rx_run [AppRead 3, AppRead 9] ([], rx_demo\<lparr> rxb := [1, 2, 3, 4], rcv_nxt := 5 \<rparr>)"
    unfolding rx_demo_events_def by (simp add: rx_demo_queue rx_demo_dup rx_demo_fill del: One_nat_def)
  then show ?thesis by (simp add: tcp_recv_take_def rx_demo_def tcp_conn0_def)
qed

theorem tcp_stream_delivery_witness:
  "frag (\<lambda>x. ucast x) 1 [1, 2, 3, 4 :: u8]"
  using tcp_stream_delivery [OF _ _ _ rx_demo_run, of "\<lambda>x. ucast x"]
  by (simp add: rx_demo_events_def rx_demo_def tcp_conn0_def rx_inv_def slot_ok_def slot_len_def frag_Cons)

text \<open>Property C20: progress of the receiver.  A segment that starts at \<open>rcv_nxt\<close>, is no
  longer than the MSS and fits in the buffer is always accepted: its bytes are appended, then
  whatever the out-of-order slots make contiguous; afterwards no slot holds data that is
  already received or that could be delivered.\<close>

theorem tcp_in_order_progress:
  assumes inv: "rx_inv S c" and d: "frag S (rcv_nxt c) data" and m: "length data \<le> TCP_MSS"
    and f: "length (rxb c) + length data \<le> TCP_BUF_SIZE"
  shows "\<exists>c' more. tcp_accept_data (rcv_nxt c) data (length data) c = (True, c') \<and>
    rxb c' = rxb c @ data @ more \<and> rcv_nxt c' = rcv_nxt c + of_nat (length (data @ more)) \<and>
    list_all (slot_settled c') (ooo c')"
proof -
  let ?c1 = "c\<lparr> rxb := rxb c @ data, rcv_nxt := rcv_nxt c + of_nat (length data) \<rparr>"
  have inv1: "rx_inv S ?c1" by (rule rx_inv_append [OF inv d f])
  obtain more sl b where c2: "tcp_merge_ooo ?c1 = ?c1\<lparr> rxb := rxb ?c1 @ more, rcv_nxt := rcv_nxt ?c1 + of_nat (length more), ooo := sl, ooo_bytes := b \<rparr>"
    using tcp_merge_ooo_inv [OF inv1] unfolding rx_adv_def by blast
  have "tcp_accept_data (rcv_nxt c) data (length data) c = (True, tcp_merge_ooo ?c1)"
    using m f by (simp add: tcp_accept_data_def tcp_rx_append_def)
  moreover have "rxb (tcp_merge_ooo ?c1) = rxb c @ data @ more" unfolding c2 by simp
  moreover have "rcv_nxt (tcp_merge_ooo ?c1) = rcv_nxt c + of_nat (length (data @ more))" unfolding c2 by simp
  moreover have "list_all (slot_settled (tcp_merge_ooo ?c1)) (ooo (tcp_merge_ooo ?c1))"
    using tcp_merge_ooo_settled [of ?c1] by (simp only: list_all_iff)
  ultimately show ?thesis by blast
qed

theorem tcp_in_order_progress_witness:
  "\<exists>c' more. tcp_accept_data 1 [1, 2] (Suc (Suc 0)) rx_demo = (True, c') \<and>
    rxb c' = [1, 2] @ more \<and> rcv_nxt c' = 3 + of_nat (length more) \<and> list_all (slot_settled c') (ooo c')"
  using tcp_in_order_progress [of "\<lambda>x. ucast x" rx_demo "[1, 2]"]
  by (simp add: rx_demo_def tcp_conn0_def rx_inv_def slot_ok_def slot_len_def frag_Cons)

end
