(* ===== verification/E1000.thy ===== *)
theory E1000
  imports CatPrelude
begin

text \<open>
  The descriptor rings of \<^verbatim>\<open>src/drivers/e1000.c\<close>.  The state has, for every
  transmit descriptor, its DD (descriptor done) bit, the software index
  \<open>tx_next\<close>, the tail register \<open>TDT\<close>, and the frames handed to the controller
  in the order of submission; for every receive descriptor its DD bit, its
  buffer page and the length the controller wrote, the software index \<open>rx_last\<close> and \<open>RDT\<close>.  The
  controller itself (which sets the DD bits) is the environment; register
  programming in \<open>e1000_init\<close> is not modelled beyond the ring state it leaves.

  The frame a caller builds in the buffer returned by \<open>e1000_tx_alloc\<close> is the
  byte list given to \<open>e1000_tx_submit\<close>; its length is the \<open>len\<close> argument.
\<close>

abbreviation (input) RX_N :: nat where "RX_N \<equiv> 256"
abbreviation (input) TX_N :: nat where "TX_N \<equiv> 256"
abbreviation (input) E1000_BATCH_LIMIT :: nat where "E1000_BATCH_LIMIT \<equiv> 32"
abbreviation (input) PAGE_BYTES :: nat where "PAGE_BYTES \<equiv> 4096"

record e1000 =
  mmio :: bool
  tx_dd :: "bool list"
  tx_next :: nat
  tx_tdt :: nat
  tx_wire :: "bytes list"
  rx_dd :: "bool list"
  rx_buf :: "bytes list"
  rx_len :: "u16 list"
  rx_last :: nat
  rx_rdt :: nat

definition e1000_tx_alloc :: "'a e1000_scheme \<Rightarrow> bool" where
  "e1000_tx_alloc s = (mmio s \<and> tx_dd s ! tx_next s)"

definition pad60 :: "bytes \<Rightarrow> bytes" where
  "pad60 p = (if length p < 60 then p @ replicate (60 - length p) 0 else p)"

definition e1000_tx_submit :: "bytes \<Rightarrow> 'a e1000_scheme \<Rightarrow> int \<times> 'a e1000_scheme" where
  "e1000_tx_submit p s =
    (let n = tx_next s in
     if \<not> tx_dd s ! n then (-1, s)
     else (let q = pad60 p;
               len = (of_nat (length q) :: u16) in
       (0, s\<lparr> tx_dd := (tx_dd s)[n := False],
               tx_wire := tx_wire s @ [take (unat len) q],
               tx_tdt := (n + 1) mod TX_N,
               tx_next := (n + 1) mod TX_N \<rparr>)))"

text \<open>The ring state \<open>e1000_init\<close> leaves: every transmit descriptor is free,
  every receive descriptor is empty, all but one of them are given to the
  controller.\<close>

definition e1000_init_rings :: "'a e1000_scheme \<Rightarrow> 'a e1000_scheme" where
  "e1000_init_rings s = s\<lparr> mmio := True, tx_dd := replicate TX_N True, tx_next := 0,
     tx_tdt := 0, rx_dd := replicate RX_N False, rx_buf := replicate RX_N [], rx_len := replicate RX_N 0,
     rx_last := 0, rx_rdt := RX_N - 1 \<rparr>"

text \<open>The batch loop of \<open>e1000_poll\<close>, with the consumer \<open>h\<close> of a frame (the
  protocol stack's \<open>net_handle_packet\<close>) as a parameter; \<open>None\<close> is a memory
  fault inside the consumer.  The result carries the number of descriptors
  processed and the last index recycled.\<close>

fun e1000_poll_loop ::
  "(bytes \<Rightarrow> u32 \<Rightarrow> 'a e1000_scheme \<Rightarrow> 'a e1000_scheme option) \<Rightarrow> nat \<Rightarrow> nat \<Rightarrow> nat \<Rightarrow>
   'a e1000_scheme \<Rightarrow> (nat \<times> nat \<times> 'a e1000_scheme) option" where
  "e1000_poll_loop h 0 processed last_rdt s = Some (processed, last_rdt, s)"
| "e1000_poll_loop h (Suc budget) processed last_rdt s =
    (let i = rx_last s in
     if \<not> rx_dd s ! i then Some (processed, last_rdt, s)
     else (case h (rx_buf s ! i) (ucast (rx_len s ! i)) s of
       None \<Rightarrow> None
     | Some s' \<Rightarrow> e1000_poll_loop h budget (Suc processed) i
         (s'\<lparr> rx_dd := (rx_dd s')[i := False], rx_last := (i + 1) mod RX_N \<rparr>)))"

definition e1000_poll ::
  "(bytes \<Rightarrow> u32 \<Rightarrow> 'a e1000_scheme \<Rightarrow> 'a e1000_scheme option) \<Rightarrow> 'a e1000_scheme \<Rightarrow>
   'a e1000_scheme option" where
  "e1000_poll h s =
    (if \<not> mmio s then Some s
     else (case e1000_poll_loop h E1000_BATCH_LIMIT 0 0 s of
       None \<Rightarrow> None
     | Some (processed, last_rdt, s') \<Rightarrow>
         Some (if processed > 0 then s'\<lparr> rx_rdt := last_rdt \<rparr> else s')))"

section \<open>Invariant and transmit behaviour\<close>

definition e1000_inv :: "'a e1000_scheme \<Rightarrow> bool" where
  "e1000_inv s \<longleftrightarrow> length (tx_dd s) = TX_N \<and> tx_next s < TX_N \<and>
     length (rx_dd s) = RX_N \<and> length (rx_buf s) = RX_N \<and> length (rx_len s) = RX_N \<and> rx_last s < RX_N"

lemma e1000_init_rings_inv: "e1000_inv (e1000_init_rings s)"
  by (simp add: e1000_inv_def e1000_init_rings_def)

lemma length_pad60: "length (pad60 p) = max 60 (length p)"
  by (simp add: pad60_def)

lemma take_pad60: "take (length p) (pad60 p) = p"
  by (simp add: pad60_def)

lemma e1000_tx_submit_inv [inv_intros]:
  "e1000_inv s \<Longrightarrow> e1000_inv (snd (e1000_tx_submit p s))"
  by (simp add: e1000_inv_def e1000_tx_submit_def Let_def)

lemma e1000_tx_submit_ok:
  "tx_dd s ! tx_next s \<Longrightarrow> length p \<le> PAGE_BYTES \<Longrightarrow>
     fst (e1000_tx_submit p s) = 0 \<and> tx_wire (snd (e1000_tx_submit p s)) = tx_wire s @ [pad60 p]"
  by (simp add: e1000_tx_submit_def Let_def length_pad60 unat_of_nat)

lemma e1000_tx_submit_busy:
  "\<not> tx_dd s ! tx_next s \<Longrightarrow> e1000_tx_submit p s = (-1, s)"
  by (simp add: e1000_tx_submit_def Let_def)

lemma e1000_tx_submit_fst:
  "fst (e1000_tx_submit p s) = (if tx_dd s ! tx_next s then 0 else -1)"
  by (simp add: e1000_tx_submit_def Let_def)

end
