(* ===== verification/NetCore.thy ===== *)
theory NetCore
  imports E1000
begin

text \<open>
  The core of the protocol stack, \<^verbatim>\<open>src/net/net.c\<close>: global configuration and
  statistics, the Internet checksum with and without the pseudo header, the
  textual IPv4 parser, and IPv4 framing (\<open>begin_ip\<close>, \<open>end_ip\<close>).  Addresses are
  kept as the source keeps them, in network order read by a little-endian
  load.

  The state of the stack is one extensible record; each protocol module extends
  it by its own tables, so that its operations are defined on any later
  extension.
\<close>

section \<open>State\<close>

record net_stats =
  arp_req_out :: u32
  arp_reply_in :: u32
  arp_resolve_miss :: u32
  ip_csum_err :: u32
  ethertype_unknown :: u32
  udp_no_listener :: u32
  rx_drop_full :: u32
  tcp_rst_sent :: u32
  tcp_rto_rexmit :: u32
  tcp_sack_rexmit :: u32
  tcp_persist_probe :: u32
  icmp_echo_out :: u32
  arp_entry_expired :: u32

record netcore = e1000 +
  ticks :: u32
  g_mac :: bytes
  g_ip :: u32
  g_gw :: u32
  g_mask :: u32
  g_dns :: u32
  ip_id :: u16
  g_net_stats :: net_stats

section \<open>Textual addresses\<close>

record parse_st =
  ps_value :: u32
  ps_octet :: u32
  ps_dots :: u32
  ps_digit :: bool

text \<open>The loop of \<open>net_parse_ipv4\<close> with its bound of 16 characters as the first
  argument; the end of the list is the terminating NUL.\<close>

fun net_parse_ipv4_loop :: "nat \<Rightarrow> parse_st \<Rightarrow> string \<Rightarrow> u32 option" where
  "net_parse_ipv4_loop 0 st cs = None"
| "net_parse_ipv4_loop (Suc k) st [] =
     (if ps_digit st \<and> ps_dots st = 3
      then Some (hton32 (push_bit 8 (ps_value st) OR ps_octet st)) else None)"
| "net_parse_ipv4_loop (Suc k) st (c # cs) =
     (if of_char c \<ge> (48 :: nat) \<and> of_char c \<le> (57 :: nat) then
        (let oct = ps_octet st * 10 + (of_nat (of_char c - 48)) in
         if oct > 255 then None
         else net_parse_ipv4_loop k (st\<lparr> ps_digit := True, ps_octet := oct \<rparr>) cs)
      else if c = CHR ''.'' \<and> ps_digit st \<and> ps_dots st < 3 then
        net_parse_ipv4_loop k (st\<lparr> ps_value := push_bit 8 (ps_value st) OR ps_octet st,
          ps_octet := 0, ps_digit := False, ps_dots := ps_dots st + 1 \<rparr>) cs
      else None)"

definition net_parse_ipv4 :: "string \<Rightarrow> u32 option" where
  "net_parse_ipv4 text = net_parse_ipv4_loop 16
     \<lparr> ps_value = 0, ps_octet = 0, ps_dots = 0, ps_digit = False \<rparr> text"

section \<open>Checksums\<close>

definition be_word :: "u8 \<Rightarrow> u8 \<Rightarrow> u32" where
  "be_word a b = (push_bit 8 (ucast a) OR ucast b)"

fun csum_words :: "bytes \<Rightarrow> u32 \<Rightarrow> u32" where
  "csum_words (a # b # r) sm = csum_words r (sm + be_word a b)"
| "csum_words [a] sm = sm + push_bit 8 (ucast a)"
| "csum_words [] sm = sm"

lemma csum_fold_step:
  "unat (drop_bit 16 sm + (sm AND 0xffff)) = unat sm div 65536 + unat sm mod 65536"
  for sm :: u32
proof -
  have "unat sm div 65536 + unat sm mod 65536 < 2 ^ LENGTH(32)"
    using unat_u32_lt [of sm] by simp
  then show ?thesis by (metis unat_drop_bit16 unat_and_ffff unat_add_lem)
qed

lemma drop_bit16_nz: "drop_bit 16 (sm :: u32) \<noteq> 0 \<longleftrightarrow> 65536 \<le> unat sm"
  by (simp add: unat_eq_zero [symmetric] unat_drop_bit16 div_eq_0_iff not_less)

lemma csum_fold_decreases:
  assumes "drop_bit 16 (sm :: u32) \<noteq> 0"
  shows "unat (drop_bit 16 sm + (sm AND 0xffff)) < unat sm"
proof -
  have "0 < unat sm div 65536" using assms by (simp add: drop_bit16_nz div_greater_zero_iff)
  moreover have "unat sm = unat sm div 65536 * 65536 + unat sm mod 65536" by simp
  ultimately show ?thesis unfolding csum_fold_step by linarith
qed

function csum_fold :: "u32 \<Rightarrow> u32" where
  "csum_fold sm =
     (if drop_bit 16 sm \<noteq> 0 then csum_fold (drop_bit 16 sm + (sm AND 0xffff)) else sm)"
  by pat_completeness auto
termination
  by (relation "measure unat") (simp_all add: csum_fold_decreases)

declare csum_fold.simps [simp del]

definition ip_checksum :: "bytes \<Rightarrow> u16" where
  "ip_checksum b = ucast (NOT (csum_fold (csum_words b 0)))"

definition ip_checksum_pseudo :: "u32 \<Rightarrow> u32 \<Rightarrow> u8 \<Rightarrow> u16 \<Rightarrow> bytes \<Rightarrow> u16" where
  "ip_checksum_pseudo src dst proto tcp_len b =
    (let s = le32 src; d = le32 dst;
         sum0 = be_word (s ! 0) (s ! 1) + be_word (s ! 2) (s ! 3)
              + be_word (d ! 0) (d ! 1) + be_word (d ! 2) (d ! 3)
              + ucast proto + ucast tcp_len
     in ucast (NOT (csum_fold (csum_words b sum0))))"

section \<open>IPv4 framing\<close>

record ip_hdr =
  ver_ihl :: u8
  dscp_ecn :: u8
  tot_len :: u16
  ih_id :: u16
  flags_frag :: u16
  ttl :: u8
  proto :: u8
  hdr_csum :: u16
  ih_src :: u32
  ih_dst :: u32

definition ip_hdr_bytes :: "ip_hdr \<Rightarrow> bytes" where
  "ip_hdr_bytes h = [ver_ihl h, dscp_ecn h] @ le16 (tot_len h) @ le16 (ih_id h)
     @ le16 (flags_frag h) @ [ttl h, proto h] @ le16 (hdr_csum h)
     @ le32 (ih_src h) @ le32 (ih_dst h)"

definition ip_hdr_at :: "bytes \<Rightarrow> ip_hdr" where
  "ip_hdr_at p = \<lparr> ver_ihl = byte_at p 0, dscp_ecn = byte_at p 1, tot_len = rd16 p 2,
     ih_id = rd16 p 4, flags_frag = rd16 p 6, ttl = byte_at p 8, proto = byte_at p 9,
     hdr_csum = rd16 p 10, ih_src = rd32 p 12, ih_dst = rd32 p 16 \<rparr>"

text \<open>\<open>begin_ip\<close> writes the Ethernet and IPv4 headers into a fresh transmit
  buffer; the result is the pair of headers, \<open>None\<close> when no buffer is free.\<close>

definition begin_ip ::
  "u32 \<Rightarrow> u8 \<Rightarrow> bytes \<Rightarrow> 'a netcore_scheme \<Rightarrow> (bytes \<times> ip_hdr) option \<times> 'a netcore_scheme" where
  "begin_ip dst pr dmac s =
    (if \<not> e1000_tx_alloc s then (None, s)
     else (Some (dmac @ g_mac s @ [0x08, 0x00],
             \<lparr> ver_ihl = 0x45, dscp_ecn = 0, tot_len = 0, ih_id = hton16 (ip_id s),
               flags_frag = 0, ttl = 64, proto = pr, hdr_csum = 0,
               ih_src = g_ip s, ih_dst = dst \<rparr>),
           s\<lparr> ip_id := ip_id s + 1 \<rparr>))"

definition ip_hdr_finish :: "ip_hdr \<Rightarrow> nat \<Rightarrow> ip_hdr" where
  "ip_hdr_finish h seglen =
    (let h1 = h\<lparr> tot_len := hton16 (of_nat (20 + seglen)) \<rparr>
     in h1\<lparr> hdr_csum := hton16 (ip_checksum (ip_hdr_bytes h1)) \<rparr>)"

definition end_ip ::
  "bytes \<times> ip_hdr \<Rightarrow> bytes \<Rightarrow> 'a netcore_scheme \<Rightarrow> bool \<times> 'a netcore_scheme" where
  "end_ip f seg s =
    (case e1000_tx_submit (fst f @ ip_hdr_bytes (ip_hdr_finish (snd f) (length seg)) @ seg) s of
       (r, s') \<Rightarrow> (r = 0, s'))"

text \<open>\<open>NETSTAT_INC(f)\<close>, with the field given by its update function.\<close>

definition NETSTAT_INC ::
  "((u32 \<Rightarrow> u32) \<Rightarrow> net_stats \<Rightarrow> net_stats) \<Rightarrow> 'a netcore_scheme \<Rightarrow> 'a netcore_scheme" where
  "NETSTAT_INC upd s = s\<lparr> g_net_stats := upd (\<lambda>v. v + 1) (g_net_stats s) \<rparr>"

definition net_stats_list :: "net_stats \<Rightarrow> u32 list" where
  "net_stats_list t = [arp_req_out t, arp_reply_in t, arp_resolve_miss t, ip_csum_err t,
     ethertype_unknown t, udp_no_listener t, rx_drop_full t, tcp_rst_sent t,
     tcp_rto_rexmit t, tcp_sack_rexmit t, tcp_persist_probe t, icmp_echo_out t,
     arp_entry_expired t]"

abbreviation (input) NET_STATS_COUNT :: nat where "NET_STATS_COUNT \<equiv> 13"

text \<open>The entries written to a non-NULL \<open>out\<close> and the returned count.\<close>

definition net_stats_snapshot :: "u32 \<Rightarrow> 'a netcore_scheme \<Rightarrow> u32 list \<times> int" where
  "net_stats_snapshot cap s =
    (let n = (if unat cap < NET_STATS_COUNT then unat cap else NET_STATS_COUNT)
     in (take n (net_stats_list (g_net_stats s)), int n))"

definition net_set_ip :: "u32 \<Rightarrow> 'a netcore_scheme \<Rightarrow> 'a netcore_scheme" where
  "net_set_ip ip s = s\<lparr> g_ip := ip \<rparr>"

definition net_set_gateway :: "u32 \<Rightarrow> 'a netcore_scheme \<Rightarrow> 'a netcore_scheme" where
  "net_set_gateway gw s = s\<lparr> g_gw := gw \<rparr>"

definition net_set_subnet :: "u32 \<Rightarrow> 'a netcore_scheme \<Rightarrow> 'a netcore_scheme" where
  "net_set_subnet m s = s\<lparr> g_mask := m \<rparr>"

section \<open>Correctness of the Internet checksum\<close>

text \<open>The exact sum of the big-endian 16-bit words of a buffer, an odd last byte
  being the high half of a word.\<close>

fun nsum :: "bytes \<Rightarrow> nat" where
  "nsum (a # b # r) = unat a * 256 + unat b + nsum r"
| "nsum [a] = unat a * 256"
| "nsum [] = 0"

lemma unat_be_word: "unat (be_word a b) = unat a * 256 + unat b"
proof -
  have "be_word a b = push_bit 8 (ucast a) + ucast b"
    unfolding be_word_def
    by (rule disjunctive_add [symmetric]) (auto simp: bit_simps dest: bit_imp_le_length)
  moreover have "unat (push_bit 8 (ucast a) :: u32) = unat a * 256"
    using unat_u8_lt [of a] by (simp add: push_bit_eq_mult unat_word_ariths)
  ultimately show ?thesis
    using unat_u8_lt [of a] unat_u8_lt [of b] by (simp add: unat_word_ariths)
qed

lemma unat_be_hi: "unat (push_bit 8 (ucast (a :: u8)) :: u32) = unat a * 256"
  using unat_u8_lt [of a] by (simp add: push_bit_eq_mult unat_word_ariths)

lemma unat_csum_words:
  "unat s + nsum b < 2 ^ 32 \<Longrightarrow> unat (csum_words b s) = unat s + nsum b"
proof (induction b s rule: csum_words.induct)
  case (1 a b r s)
  have "unat (s + be_word a b) = unat s + unat a * 256 + unat b"
    using 1(2) by (simp add: unat_word_ariths unat_be_word)
  then show ?case using 1 by simp
next
  case (2 a s)
  then show ?case by (simp add: unat_word_ariths unat_be_hi)
qed simp

lemma nsum_bound: "nsum b \<le> 65535 * ((length b + 1) div 2)"
proof (induction b rule: nsum.induct)
  case (1 a b r)
  then show ?case using unat_u8_lt [of a] unat_u8_lt [of b] by simp
next
  case (2 a)
  then show ?case using unat_u8_lt [of a] by simp
qed simp

lemma nsum_append: "even (length a) \<Longrightarrow> nsum (a @ b) = nsum a + nsum b"
  by (induction a rule: nsum.induct) auto

lemma csum_fold_props:
  "unat (csum_fold sm) < 65536 \<and> unat (csum_fold sm) mod 65535 = unat sm mod 65535 \<and>
   (csum_fold sm = 0 \<longleftrightarrow> sm = 0)"
proof (induction sm rule: csum_fold.induct)
  case (1 sm)
  show ?case
  proof (cases "drop_bit 16 sm = 0")
    case True
    then have "unat sm < 65536" using drop_bit16_nz [of sm] by simp
    then show ?thesis using True by (simp add: csum_fold.simps [of sm])
  next
    case False
    let ?t = "drop_bit 16 sm + (sm AND 0xffff)"
    have big: "65536 \<le> unat sm" using False drop_bit16_nz by blast
    have "unat sm = unat ?t + 65535 * (unat sm div 65536)"
      using div_mult_mod_eq [of "unat sm" 65536] unfolding csum_fold_step by linarith
    then have m: "unat ?t mod 65535 = unat sm mod 65535" by (metis mod_mult_self2)
    have "sm \<noteq> 0" using False by auto
    moreover have "?t \<noteq> 0"
    proof
      assume "?t = 0"
      then have "unat sm div 65536 + unat sm mod 65536 = 0"
        using csum_fold_step [of sm] by simp
      then show False using big by (simp add: div_eq_0_iff)
    qed
    ultimately show ?thesis
      using 1 [OF False] m False by (simp add: csum_fold.simps [of sm])
  qed
qed

lemma unat_csum_fold:
  "unat (csum_fold sm) = (if unat sm = 0 then 0
     else if unat sm mod 65535 = 0 then 65535 else unat sm mod 65535)"
proof -
  let ?f = "unat (csum_fold sm)"
  have f: "?f < 65536" "?f mod 65535 = unat sm mod 65535" "?f = 0 \<longleftrightarrow> unat sm = 0"
    using csum_fold_props [of sm] by (simp_all add: unat_eq_zero)
  show ?thesis
  proof (cases "?f = 65535")
    case True
    then show ?thesis using f by simp
  next
    case False
    then have "?f mod 65535 = ?f" using f(1) by simp
    then show ?thesis using f by (metis mod_0)
  qed
qed

lemma unat_not_ucast16:
  "unat x < 65536 \<Longrightarrow> unat (ucast (NOT (x :: u32)) :: u16) = 65535 - unat x"
proof -
  assume x: "unat x < 65536"
  have "(ucast (NOT x) :: u16) = NOT (ucast x)"
    by (rule bit_word_eqI) (simp add: bit_simps)
  moreover have "unat (ucast x :: u16) = unat x"
    using x by (simp add: unsigned_ucast_eq take_bit_nat_eq_self_iff)
  moreover have "unat (NOT y) = 65535 - unat y" for y :: u16
  proof -
    have "unat (-1 - y) = unat (-1 :: u16) - unat y"
      by (rule unat_sub) (simp add: word_order.extremum)
    moreover have "NOT y = -1 - y" by (simp add: not_eq_complement)
    moreover have "unat (-1 :: u16) = 65535"
      by (simp add: unsigned_minus_1_eq_mask mask_eq_exp_minus_1)
    ultimately show ?thesis by (simp only:)
  qed
  ultimately show ?thesis by simp
qed

text \<open>The checksum of a buffer as arithmetic modulo 65535 (one's complement).\<close>

lemma unat_ip_checksum:
  assumes "nsum b < 2 ^ 32"
  shows "unat (ip_checksum b) = (if nsum b = 0 then 65535
     else if nsum b mod 65535 = 0 then 0 else 65535 - nsum b mod 65535)"
proof -
  have w: "unat (csum_words b 0) = nsum b"
    using assms unat_csum_words [of 0 b] by simp
  have "unat (csum_fold (csum_words b 0)) < 65536"
    using csum_fold_props by blast
  then have "unat (ip_checksum b) = 65535 - unat (csum_fold (csum_words b 0))"
    unfolding ip_checksum_def by (rule unat_not_ucast16)
  then show ?thesis by (simp add: unat_csum_fold w)
qed

lemma ip_checksum_zero_iff:
  "nsum b < 2 ^ 32 \<Longrightarrow> ip_checksum b = 0 \<longleftrightarrow> nsum b \<noteq> 0 \<and> nsum b mod 65535 = 0"
proof -
  assume n: "nsum b < 2 ^ 32"
  have "nsum b mod 65535 < 65535" by simp
  then have "unat (ip_checksum b) = 0 \<longleftrightarrow> nsum b \<noteq> 0 \<and> nsum b mod 65535 = 0"
    unfolding unat_ip_checksum [OF n] by auto
  then show ?thesis by (simp add: unat_eq_zero)
qed

lemma nsum_small: "length b \<le> 65536 \<Longrightarrow> nsum b < 2 ^ 32"
proof -
  assume "length b \<le> 65536"
  then have "(length b + 1) div 2 \<le> 32768" by simp
  then have "65535 * ((length b + 1) div 2) \<le> 65535 * 32768" by (rule mult_le_mono2)
  then show ?thesis using nsum_bound [of b] by simp
qed

text \<open>A 16-bit field stored in network order contributes its value.\<close>

lemma le16_hton16: "le16 (hton16 c) = [ucast (drop_bit 8 c), ucast c]"
proof -
  have "(ucast (ntoh16 c) :: u8) = ucast (drop_bit 8 c)"
    by (rule bit_word_eqI) (simp add: bit_simps bit_ntoh16 add.commute)
  moreover have "(ucast (drop_bit 8 (ntoh16 c)) :: u8) = ucast c"
    by (rule bit_word_eqI) (simp add: bit_simps bit_ntoh16)
  ultimately show ?thesis by (simp add: le16_def hton16_def)
qed

lemma nsum_le16_hton16: "nsum (le16 (hton16 c)) = unat c"
proof -
  have "unat (ucast (drop_bit 8 c) :: u8) = unat c div 256"
    using unat_u16_lt [of c]
    by (simp add: unsigned_ucast_eq take_bit_eq_mod drop_bit_eq_div unat_div_distrib)
  moreover have "unat (ucast c :: u8) = unat c mod 256"
    by (simp add: unsigned_ucast_eq take_bit_eq_mod)
  ultimately show ?thesis by (simp add: le16_hton16)
qed

lemma ip_checksum_fill:
  assumes "even (length pre)" "length pre + 2 + length post \<le> 65536"
  shows "ip_checksum (pre @ le16 (hton16 (ip_checksum (pre @ le16 0 @ post))) @ post) = 0"
proof -
  let ?c = "ip_checksum (pre @ le16 0 @ post)"
  have z: "nsum (pre @ le16 0 @ post) = nsum pre + nsum post"
    using assms(1) by (simp add: nsum_append le16_def)
  have t: "nsum (pre @ le16 (hton16 ?c) @ post) = nsum pre + nsum post + unat ?c"
    using assms(1) by (simp add: nsum_append nsum_le16_hton16)
  have small: "nsum (pre @ le16 0 @ post) < 2 ^ 32" "nsum (pre @ le16 (hton16 ?c) @ post) < 2 ^ 32"
    using assms(2) by (intro nsum_small; simp)+
  let ?n = "nsum pre + nsum post"
  have c: "unat ?c = (if ?n = 0 then 65535 else if ?n mod 65535 = 0 then 0 else 65535 - ?n mod 65535)"
    using unat_ip_checksum [OF small(1)] z by simp
  have "?n + unat ?c \<noteq> 0 \<and> (?n + unat ?c) mod 65535 = 0"
  proof (cases "?n mod 65535 = 0")
    case True
    then show ?thesis using c by (auto simp: mod_add_left_eq [symmetric, of ?n])
  next
    case False
    then have "unat ?c = 65535 - ?n mod 65535" using c by auto
    then show ?thesis using mod_complement [of 65535 ?n] by simp
  qed
  then show ?thesis using ip_checksum_zero_iff [OF small(2)] t by simp
qed

end
