(* ===== verification/Arp.thy ===== *)
theory Arp
  imports NetCore
begin

text \<open>
  Address resolution, \<^verbatim>\<open>src/net/net_arp.c\<close>: the cache of eight entries with its
  fill count, stale probing, replacement when full, the request throttle, the
  packet handler and the periodic expiry scan.  A pointer to an entry is its
  index in the cache.
\<close>

section \<open>Model\<close>

abbreviation (input) ETH_TYPE_ARP :: u16 where "ETH_TYPE_ARP \<equiv> 0x0806"
abbreviation (input) ETH_TYPE_IP :: u16 where "ETH_TYPE_IP \<equiv> 0x0800"
abbreviation (input) ARP_CACHE_MAX :: nat where "ARP_CACHE_MAX \<equiv> 8"
abbreviation (input) ARP_REACH_TIMEOUT :: u32 where "ARP_REACH_TIMEOUT \<equiv> 3000"
abbreviation (input) ARP_RETRANS_TICKS :: u32 where "ARP_RETRANS_TICKS \<equiv> 100"
abbreviation (input) ARP_PROBE_MAX :: u8 where "ARP_PROBE_MAX \<equiv> 3"
abbreviation (input) ARP_PROBE_TIMEOUT :: u32 where "ARP_PROBE_TIMEOUT \<equiv> 300"
abbreviation (input) ARP_TICK_INTERVAL :: u32 where "ARP_TICK_INTERVAL \<equiv> 100"
abbreviation (input) ARP_OP_REQUEST :: u16 where "ARP_OP_REQUEST \<equiv> 1"
abbreviation (input) ARP_OP_REPLY :: u16 where "ARP_OP_REPLY \<equiv> 2"

record arp_entry =
  ae_ip :: u32
  ae_mac :: bytes
  seen_tick :: u32
  req_tick :: u32
  probes :: u8

record arp_pkt =
  htype :: u16
  ptype :: u16
  hlen :: u8
  plen :: u8
  arp_op :: u16
  sha :: bytes
  spa :: u32
  tha :: bytes
  tpa :: u32

record arpst = netcore +
  arp_cache :: "arp_entry list"
  arp_cache_n :: nat
  arp_req_gate :: u32
  arp_scan_deadline :: u32

definition arp_pkt_bytes :: "arp_pkt \<Rightarrow> bytes" where
  "arp_pkt_bytes a = le16 (htype a) @ le16 (ptype a) @ [hlen a, plen a] @ le16 (arp_op a)
     @ sha a @ le32 (spa a) @ tha a @ le32 (tpa a)"

definition arp_pkt_at :: "bytes \<Rightarrow> nat \<Rightarrow> arp_pkt" where
  "arp_pkt_at p off = \<lparr> htype = rd16 p off, ptype = rd16 p (off + 2), hlen = byte_at p (off + 4),
     plen = byte_at p (off + 5), arp_op = rd16 p (off + 6), sha = map (\<lambda>i. byte_at p (off + 8 + i)) [0..<6],
     spa = rd32 p (off + 14), tha = map (\<lambda>i. byte_at p (off + 18 + i)) [0..<6],
     tpa = rd32 p (off + 24) \<rparr>"

definition arp_cache_fill :: "nat \<Rightarrow> u32 \<Rightarrow> bytes \<Rightarrow> 'a arpst_scheme \<Rightarrow> 'a arpst_scheme" where
  "arp_cache_fill e ip mac s = s\<lparr> arp_cache := (arp_cache s)[e :=
     \<lparr> ae_ip = ip, ae_mac = mac, seen_tick = ticks s, req_tick = ticks s, probes = 0 \<rparr>] \<rparr>"

definition arp_lookup :: "u32 \<Rightarrow> 'a arpst_scheme \<Rightarrow> nat option" where
  "arp_lookup ip s = find_idx (\<lambda>e. ae_ip e = ip) (take (arp_cache_n s) (arp_cache s))"

definition arp_cache_del :: "nat \<Rightarrow> 'a arpst_scheme \<Rightarrow> 'a arpst_scheme" where
  "arp_cache_del idx s = s\<lparr>
     arp_cache := fold (\<lambda>i c. c[i := c ! (i + 1)]) [idx..<arp_cache_n s - 1] (arp_cache s),
     arp_cache_n := arp_cache_n s - 1 \<rparr>"

definition arp_oldest :: "'a arpst_scheme \<Rightarrow> nat" where
  "arp_oldest s = fold (\<lambda>i e. if tick_diff (seen_tick (arp_cache s ! i)) (seen_tick (arp_cache s ! e)) < 0
     then i else e) [1..<ARP_CACHE_MAX] 0"

definition arp_victim :: "'a arpst_scheme \<Rightarrow> nat" where
  "arp_victim s =
    (case find_idx (\<lambda>e. ticks s - seen_tick e \<ge> ARP_REACH_TIMEOUT) (take ARP_CACHE_MAX (arp_cache s)) of
       Some i \<Rightarrow> i
     | None \<Rightarrow> arp_oldest s)"

definition arp_cache_add :: "u32 \<Rightarrow> bytes \<Rightarrow> 'a arpst_scheme \<Rightarrow> 'a arpst_scheme" where
  "arp_cache_add ip mac s =
    (case arp_lookup ip s of
       Some e \<Rightarrow> s\<lparr> arp_cache := (arp_cache s)[e := (arp_cache s ! e)
                    \<lparr> ae_mac := mac, seen_tick := ticks s, probes := 0 \<rparr>] \<rparr>
     | None \<Rightarrow>
         if arp_cache_n s < ARP_CACHE_MAX
         then arp_cache_fill (arp_cache_n s) ip mac (s\<lparr> arp_cache_n := arp_cache_n s + 1 \<rparr>)
         else arp_cache_fill (arp_victim s) ip mac s)"

definition arp_request :: "u32 \<Rightarrow> 'a arpst_scheme \<Rightarrow> bool \<times> 'a arpst_scheme" where
  "arp_request ip s =
    (let e = arp_lookup ip s;
         last = (case e of Some i \<Rightarrow> req_tick (arp_cache s ! i) | None \<Rightarrow> arp_req_gate s) in
     if ticks s - last < ARP_RETRANS_TICKS then (False, s)
     else if \<not> e1000_tx_alloc s then (False, s)
     else (let p = replicate 6 0xFF @ g_mac s @ le16 (hton16 ETH_TYPE_ARP) @ arp_pkt_bytes
                 \<lparr> htype = hton16 1, ptype = hton16 0x0800, hlen = 6, plen = 4,
                   arp_op = hton16 ARP_OP_REQUEST, sha = g_mac s, spa = g_ip s,
                   tha = replicate 6 0, tpa = ip \<rparr>;
               (r, s1) = e1000_tx_submit p s in
       if r \<noteq> 0 then (False, s1)
       else (let s2 = (case e of
                 Some i \<Rightarrow> s1\<lparr> arp_cache := (arp_cache s1)[i := (arp_cache s1 ! i)\<lparr> req_tick := ticks s1 \<rparr>] \<rparr>
               | None \<Rightarrow> s1\<lparr> arp_req_gate := ticks s1 \<rparr>)
             in (True, NETSTAT_INC arp_req_out_update s2))))"

definition arp_resolve :: "u32 \<Rightarrow> 'a arpst_scheme \<Rightarrow> bytes option \<times> 'a arpst_scheme" where
  "arp_resolve ip s =
    (if ip = 0xFFFFFFFF then (Some (replicate 6 0xFF), s)
     else case arp_lookup ip s of
       Some e \<Rightarrow>
         (let s' = (if ticks s - seen_tick (arp_cache s ! e) \<ge> ARP_REACH_TIMEOUT \<and>
                       probes (arp_cache s ! e) < ARP_PROBE_MAX
                    then (let (sent, s1) = arp_request ip s in
                      if sent then s1\<lparr> arp_cache := (arp_cache s1)[e := (arp_cache s1 ! e)
                                  \<lparr> probes := probes (arp_cache s1 ! e) + 1 \<rparr>] \<rparr>
                      else s1)
                    else s)
          in (Some (ae_mac (arp_cache s' ! e)), s'))
     | None \<Rightarrow> (None, snd (arp_request ip (NETSTAT_INC arp_resolve_miss_update s))))"

definition arp_handle :: "bytes \<Rightarrow> u32 \<Rightarrow> 'a arpst_scheme \<Rightarrow> 'a arpst_scheme" where
  "arp_handle p len s =
    (if len < 42 then s
     else (let a = arp_pkt_at p 14 in
       if ntoh16 (htype a) \<noteq> 1 \<or> ntoh16 (ptype a) \<noteq> 0x0800 \<or> hlen a \<noteq> 6 \<or> plen a \<noteq> 4 then s
       else (let s1 = arp_cache_add (spa a) (sha a) s; op = ntoh16 (arp_op a) in
         if op = ARP_OP_REQUEST \<and> tpa a = g_ip s1 then
           (if \<not> e1000_tx_alloc s1 then s1
            else snd (e1000_tx_submit (sha a @ g_mac s1 @ le16 (hton16 ETH_TYPE_ARP) @ arp_pkt_bytes
              \<lparr> htype = hton16 1, ptype = hton16 0x0800, hlen = 6, plen = 4,
                arp_op = hton16 ARP_OP_REPLY, sha = g_mac s1, spa = g_ip s1,
                tha = sha a, tpa = spa a \<rparr>) s1))
         else if op = ARP_OP_REPLY \<and> tpa a = g_ip s1 then NETSTAT_INC arp_reply_in_update s1
         else s1)))"

definition arp_dead :: "u32 \<Rightarrow> arp_entry \<Rightarrow> bool" where
  "arp_dead now e \<longleftrightarrow> \<not> now - seen_tick e < ARP_REACH_TIMEOUT \<and>
     probes e \<ge> ARP_PROBE_MAX \<and> now - req_tick e \<ge> ARP_PROBE_TIMEOUT"

definition arp_tick :: "'a arpst_scheme \<Rightarrow> 'a arpst_scheme" where
  "arp_tick s = fold (\<lambda>i s. if arp_dead (ticks s) (arp_cache s ! i)
       then arp_cache_del i (NETSTAT_INC arp_entry_expired_update s) else s)
     (rev [0..<arp_cache_n s]) s"

definition arp_poll :: "'a arpst_scheme \<Rightarrow> 'a arpst_scheme" where
  "arp_poll s =
    (if tick_diff (ticks s) (arp_scan_deadline s) \<ge> 0
     then arp_tick (s\<lparr> arp_scan_deadline := ticks s + ARP_TICK_INTERVAL \<rparr>) else s)"

definition ip_send ::
  "u32 \<Rightarrow> u8 \<Rightarrow> bytes \<Rightarrow> 'a arpst_scheme \<Rightarrow> bool \<times> 'a arpst_scheme" where
  "ip_send dst pr data s =
    (case arp_resolve dst s of
       (None, s1) \<Rightarrow> (False, s1)
     | (Some dmac, s1) \<Rightarrow>
        (case begin_ip dst pr dmac s1 of
           (None, s2) \<Rightarrow> (False, s2)
         | (Some f, s2) \<Rightarrow> end_ip f data s2))"

section \<open>The live table and its invariant\<close>

definition arp_tbl :: "'a arpst_scheme \<Rightarrow> arp_entry list" where
  "arp_tbl s = take (arp_cache_n s) (arp_cache s)"

definition arp_inv :: "'a arpst_scheme \<Rightarrow> bool" where
  "arp_inv s \<longleftrightarrow> length (arp_cache s) = ARP_CACHE_MAX \<and> arp_cache_n s \<le> ARP_CACHE_MAX \<and>
     distinct (map ae_ip (arp_tbl s))"

text \<open>What the cache answers for an address.\<close>

definition arp_mac :: "u32 \<Rightarrow> 'a arpst_scheme \<Rightarrow> bytes option" where
  "arp_mac ip s = map_option (\<lambda>i. ae_mac (arp_cache s ! i)) (arp_lookup ip s)"

lemma length_arp_tbl: "arp_inv s \<Longrightarrow> length (arp_tbl s) = arp_cache_n s"
  by (simp add: arp_inv_def arp_tbl_def)

lemma arp_lookup_Some:
  assumes "arp_inv s"
  shows "arp_lookup ip s = Some i \<longleftrightarrow> i < arp_cache_n s \<and> ae_ip (arp_cache s ! i) = ip"
proof -
  have "i < arp_cache_n s \<Longrightarrow> j < i \<Longrightarrow> ae_ip (arp_cache s ! j) \<noteq> ae_ip (arp_cache s ! i)" for j
    using assms nth_eq_iff_index_eq [of "map ae_ip (arp_tbl s)" i j]
    by (simp add: arp_inv_def arp_tbl_def)
  then show ?thesis
    using assms by (auto simp: arp_lookup_def find_idx_Some arp_inv_def)
qed

lemma arp_lookup_None: "arp_lookup ip s = None \<longleftrightarrow> ip \<notin> ae_ip ` set (arp_tbl s)"
  by (auto simp: arp_lookup_def find_idx_None arp_tbl_def)

lemma arp_mac_Some:
  "arp_inv s \<Longrightarrow> arp_mac ip s = Some m \<longleftrightarrow>
     (\<exists>e \<in> set (arp_tbl s). ae_ip e = ip \<and> ae_mac e = m)"
  unfolding arp_mac_def
  by (force simp: arp_lookup_Some arp_tbl_def in_set_conv_nth arp_inv_def)

lemma arp_mac_None: "arp_mac ip s = None \<longleftrightarrow> ip \<notin> ae_ip ` set (arp_tbl s)"
  by (simp add: arp_mac_def arp_lookup_None)

lemma arp_victim_lt: "arp_inv s \<Longrightarrow> arp_victim s < ARP_CACHE_MAX"
proof -
  assume inv: "arp_inv s"
  have "fold (\<lambda>i e. if P i e then i else e) is 0 < ARP_CACHE_MAX"
    if "\<forall>i \<in> set is. i < ARP_CACHE_MAX" for P and "is" :: "nat list"
  proof -
    have "a < ARP_CACHE_MAX \<Longrightarrow> fold (\<lambda>i e. if P i e then i else e) is a < ARP_CACHE_MAX" for a
      using that by (induction "is" arbitrary: a) auto
    then show ?thesis by simp
  qed
  then have "arp_oldest s < ARP_CACHE_MAX" unfolding arp_oldest_def by simp
  then show ?thesis
    using inv by (auto simp: arp_victim_def arp_inv_def split: option.splits dest: find_idx_lt)
qed

text \<open>The table after an insertion, for the three branches of the code.\<close>

lemma arp_tbl_add:
  assumes "arp_inv s"
  shows "arp_tbl (arp_cache_add ip mac s) =
    (let new = \<lparr> ae_ip = ip, ae_mac = mac, seen_tick = ticks s, req_tick = ticks s, probes = 0 \<rparr> in
     case arp_lookup ip s of
       Some e \<Rightarrow> (arp_tbl s)[e := (arp_tbl s ! e)\<lparr> ae_mac := mac, seen_tick := ticks s, probes := 0 \<rparr>]
     | None \<Rightarrow> if arp_cache_n s < ARP_CACHE_MAX then arp_tbl s @ [new]
               else (arp_tbl s)[arp_victim s := new])"
proof (cases "arp_lookup ip s")
  case None
  then show ?thesis
    using assms
    by (cases "arp_cache_n s < ARP_CACHE_MAX")
      (simp_all add: arp_cache_add_def arp_cache_fill_def arp_tbl_def arp_inv_def take_Suc_update)
next
  case (Some e)
  then have "e < arp_cache_n s" using assms by (simp add: arp_lookup_Some)
  then show ?thesis
    using Some by (simp add: arp_cache_add_def arp_tbl_def Let_def take_update_swap)
qed

lemma arp_cache_add_frame [simp]:
  "ticks (arp_cache_add ip mac s) = ticks s" "g_ip (arp_cache_add ip mac s) = g_ip s"
  "g_mac (arp_cache_add ip mac s) = g_mac s" "tx_dd (arp_cache_add ip mac s) = tx_dd s"
  "tx_next (arp_cache_add ip mac s) = tx_next s" "tx_wire (arp_cache_add ip mac s) = tx_wire s"
  "mmio (arp_cache_add ip mac s) = mmio s"
  by (simp_all add: arp_cache_add_def arp_cache_fill_def split: option.splits)

lemma arp_cache_add_inv [inv_intros]:
  assumes "arp_inv s"
  shows "arp_inv (arp_cache_add ip mac s)"
proof -
  have len: "length (arp_cache (arp_cache_add ip mac s)) = ARP_CACHE_MAX"
    "arp_cache_n (arp_cache_add ip mac s) \<le> ARP_CACHE_MAX"
    using assms by (auto simp: arp_cache_add_def arp_cache_fill_def arp_inv_def split: option.splits)
  have "distinct (map ae_ip (arp_tbl (arp_cache_add ip mac s)))"
  proof (cases "arp_lookup ip s")
    case None
    then have "ip \<notin> set (map ae_ip (arp_tbl s))" by (simp add: arp_lookup_None)
    then show ?thesis
      using assms None by (auto simp: arp_tbl_add Let_def arp_inv_def map_update distinct_update_fresh)
  next
    case (Some e)
    then have "e < length (arp_tbl s)" using assms by (simp add: arp_lookup_Some length_arp_tbl)
    then show ?thesis
      using assms Some by (simp add: arp_tbl_add Let_def arp_inv_def map_update_same)
  qed
  then show ?thesis using len by (simp add: arp_inv_def)
qed

lemma arp_mac_add_same: "arp_inv s \<Longrightarrow> arp_mac ip (arp_cache_add ip mac s) = Some mac"
proof -
  assume inv: "arp_inv s"
  have "\<exists>e \<in> set (arp_tbl (arp_cache_add ip mac s)). ae_ip e = ip \<and> ae_mac e = mac"
  proof (cases "arp_lookup ip s")
    case None
    then show ?thesis
      using inv arp_victim_lt [OF inv]
      by (auto simp: arp_tbl_add Let_def length_arp_tbl arp_inv_def intro!: bexI [OF _ set_update_memI])
  next
    case (Some e)
    then have e: "e < length (arp_tbl s)" "ae_ip (arp_tbl s ! e) = ip"
      using inv by (auto simp: arp_lookup_Some length_arp_tbl) (simp add: arp_tbl_def)
    then show ?thesis
      using inv Some by (auto simp: arp_tbl_add Let_def intro!: bexI [OF _ set_update_memI])
  qed
  then show ?thesis using inv arp_cache_add_inv arp_mac_Some by blast
qed

lemma arp_mac_add_other:
  assumes inv: "arp_inv s" and ne: "ip' \<noteq> ip"
  shows "arp_mac ip' (arp_cache_add ip mac s) = arp_mac ip' s \<or>
         arp_mac ip' (arp_cache_add ip mac s) = None"
proof (cases "arp_mac ip' (arp_cache_add ip mac s)")
  case (Some m)
  then obtain e where e: "e \<in> set (arp_tbl (arp_cache_add ip mac s))" "ae_ip e = ip'" "ae_mac e = m"
    using arp_mac_Some [OF arp_cache_add_inv [OF inv]] by blast
  have "e \<in> set (arp_tbl s)"
  proof (cases "arp_lookup ip s")
    case None
    then show ?thesis
      using e ne inv by (auto simp: arp_tbl_add Let_def split: if_splits dest!: set_update_subset_insert [THEN subsetD])
  next
    case (Some i)
    then have "ae_ip (arp_tbl s ! i) = ip"
      using inv by (auto simp: arp_lookup_Some arp_tbl_def)
    then show ?thesis
      using e ne inv Some by (auto simp: arp_tbl_add Let_def dest!: set_update_subset_insert [THEN subsetD])
  qed
  then have "arp_mac ip' s = Some m" using e arp_mac_Some [OF inv] by blast
  then show ?thesis using Some by simp
qed simp

section \<open>Deletion and the expiry scan\<close>

lemma fold_shift_nth:
  "b < length c \<Longrightarrow> length (fold (\<lambda>i c. c[i := c ! (i + 1)]) [a..<b] c) = length c \<and>
     (\<forall>j < length c. fold (\<lambda>i c. c[i := c ! (i + 1)]) [a..<b] c ! j =
        (if a \<le> j \<and> j < b then c ! (j + 1) else c ! j))"
proof (induction b)
  case (Suc b)
  then show ?case by (cases "a \<le> b") (auto simp: nth_list_update less_Suc_eq)
qed simp

lemma arp_tbl_del:
  assumes "length (arp_cache s) = ARP_CACHE_MAX" "arp_cache_n s \<le> ARP_CACHE_MAX" "idx < arp_cache_n s"
  shows "arp_tbl (arp_cache_del idx s) = take idx (arp_tbl s) @ drop (Suc idx) (arp_tbl s)"
proof -
  let ?n = "arp_cache_n s"
  let ?c = "fold (\<lambda>i c. c[i := c ! (i + 1)]) [idx..<?n - 1] (arp_cache s)"
  have c: "length ?c = ARP_CACHE_MAX"
    "j < ARP_CACHE_MAX \<Longrightarrow> ?c ! j = (if idx \<le> j \<and> j < ?n - 1 then arp_cache s ! (j + 1) else arp_cache s ! j)"
    for j using fold_shift_nth [of "?n - 1" "arp_cache s" idx] assms by auto
  have "take (?n - 1) ?c = take idx (arp_tbl s) @ drop (Suc idx) (arp_tbl s)"
  proof (rule nth_equalityI)
    show "length (take (?n - 1) ?c) = length (take idx (arp_tbl s) @ drop (Suc idx) (arp_tbl s))"
      using assms c(1) by (simp add: arp_tbl_def)
    fix j assume "j < length (take (?n - 1) ?c)"
    then show "take (?n - 1) ?c ! j = (take idx (arp_tbl s) @ drop (Suc idx) (arp_tbl s)) ! j"
      using assms c by (auto simp: arp_tbl_def nth_append)
  qed
  then show ?thesis by (simp add: arp_cache_del_def arp_tbl_def)
qed

definition arp_tick_step :: "nat \<Rightarrow> 'a arpst_scheme \<Rightarrow> 'a arpst_scheme" where
  "arp_tick_step i s = (if arp_dead (ticks s) (arp_cache s ! i)
     then arp_cache_del i (NETSTAT_INC arp_entry_expired_update s) else s)"

lemma arp_tick_step_tbl:
  assumes "length (arp_cache s) = ARP_CACHE_MAX" "arp_cache_n s \<le> ARP_CACHE_MAX" "i < arp_cache_n s"
  shows "arp_tbl (arp_tick_step i s) =
      (if arp_dead (ticks s) (arp_tbl s ! i) then take i (arp_tbl s) @ drop (Suc i) (arp_tbl s) else arp_tbl s)"
    and "length (arp_cache (arp_tick_step i s)) = ARP_CACHE_MAX"
    and "i \<le> arp_cache_n (arp_tick_step i s)" "arp_cache_n (arp_tick_step i s) \<le> ARP_CACHE_MAX"
    and "ticks (arp_tick_step i s) = ticks s"
proof -
  let ?s = "NETSTAT_INC arp_entry_expired_update s"
  have f: "arp_cache ?s = arp_cache s" "arp_cache_n ?s = arp_cache_n s" "ticks ?s = ticks s"
    "arp_tbl ?s = arp_tbl s"
    by (simp_all add: NETSTAT_INC_def arp_tbl_def)
  have nth: "arp_tbl s ! i = arp_cache s ! i" using assms by (simp add: arp_tbl_def)
  show "arp_tbl (arp_tick_step i s) =
      (if arp_dead (ticks s) (arp_tbl s ! i) then take i (arp_tbl s) @ drop (Suc i) (arp_tbl s) else arp_tbl s)"
    using arp_tbl_del [of ?s i] assms f nth by (simp add: arp_tick_step_def)
  show "length (arp_cache (arp_tick_step i s)) = ARP_CACHE_MAX"
    using assms f fold_shift_nth [of "arp_cache_n s - 1" "arp_cache s" i]
    by (auto simp: arp_tick_step_def arp_cache_del_def)
  show "i \<le> arp_cache_n (arp_tick_step i s)" "arp_cache_n (arp_tick_step i s) \<le> ARP_CACHE_MAX"
    "ticks (arp_tick_step i s) = ticks s"
    using assms f by (auto simp: arp_tick_step_def arp_cache_del_def)
qed

lemma arp_tick_fold:
  assumes "length (arp_cache s) = ARP_CACHE_MAX" "arp_cache_n s \<le> ARP_CACHE_MAX" "k \<le> arp_cache_n s"
  shows "arp_tbl (fold arp_tick_step (rev [0..<k]) s) =
      filter (\<lambda>e. \<not> arp_dead (ticks s) e) (take k (arp_tbl s)) @ drop k (arp_tbl s) \<and>
    length (arp_cache (fold arp_tick_step (rev [0..<k]) s)) = ARP_CACHE_MAX \<and>
    arp_cache_n (fold arp_tick_step (rev [0..<k]) s) \<le> ARP_CACHE_MAX"
  using assms
proof (induction k arbitrary: s)
  case 0
  then show ?case by simp
next
  case (Suc k)
  let ?s1 = "arp_tick_step k s"
  have k: "k < arp_cache_n s" using Suc.prems by simp
  note st = arp_tick_step_tbl [OF Suc.prems(1,2) k]
  have len: "k < length (arp_tbl s)" using Suc.prems by (simp add: arp_tbl_def)
  have step: "fold arp_tick_step (rev [0..<Suc k]) s = fold arp_tick_step (rev [0..<k]) ?s1" by simp
  note ih = Suc.IH [OF st(2) st(4) st(3)]
  have tbl: "take k (arp_tbl ?s1) = take k (arp_tbl s)"
    "drop k (arp_tbl ?s1) = (if arp_dead (ticks s) (arp_tbl s ! k) then [] else [arp_tbl s ! k]) @ drop (Suc k) (arp_tbl s)"
    using st(1) len by (auto simp: Cons_nth_drop_Suc)
  have tk: "take (Suc k) (arp_tbl s) = take k (arp_tbl s) @ [arp_tbl s ! k]"
    using len by (rule take_Suc_conv_app_nth)
  show ?case
    unfolding step tk using ih tbl st(5) by simp
qed

lemma arp_tick_alt: "arp_tick s = fold arp_tick_step (rev [0..<arp_cache_n s]) s"
  unfolding arp_tick_def arp_tick_step_def [abs_def] ..

lemma arp_tick_tbl:
  "arp_inv s \<Longrightarrow> arp_tbl (arp_tick s) = filter (\<lambda>e. \<not> arp_dead (ticks s) e) (arp_tbl s)"
  using arp_tick_fold [of s "arp_cache_n s"] by (simp add: arp_tick_alt arp_inv_def arp_tbl_def)

lemma arp_tick_inv [inv_intros]:
  assumes "arp_inv s"
  shows "arp_inv (arp_tick s)"
proof -
  have "length (arp_cache (arp_tick s)) = ARP_CACHE_MAX \<and> arp_cache_n (arp_tick s) \<le> ARP_CACHE_MAX"
    using arp_tick_fold [of s "arp_cache_n s"] assms by (simp add: arp_tick_alt arp_inv_def)
  then show ?thesis
    using assms arp_tick_tbl [OF assms] by (simp add: arp_inv_def distinct_map_filter)
qed

section \<open>The contract of an address cache\<close>

text \<open>A cache that may forget but never lies: a lookup returns the last value
  stored for the key, or nothing.\<close>

locale lossy_cache =
  fixes inv :: "'s \<Rightarrow> bool" and get :: "'k \<Rightarrow> 's \<Rightarrow> 'v option" and put :: "'k \<Rightarrow> 'v \<Rightarrow> 's \<Rightarrow> 's"
  assumes put_inv: "inv s \<Longrightarrow> inv (put k v s)"
    and get_put_same: "inv s \<Longrightarrow> get k (put k v s) = Some v"
    and get_put_other: "inv s \<Longrightarrow> k' \<noteq> k \<Longrightarrow> get k' (put k v s) = get k' s \<or> get k' (put k v s) = None"
begin

lemma puts_inv: "inv s \<Longrightarrow> inv (fold (\<lambda>(k, v). put k v) kvs s)"
  by (induction kvs arbitrary: s) (auto simp: put_inv)

lemma puts_last:
  "inv s \<Longrightarrow> get k (fold (\<lambda>(k, v). put k v) kvs s) = Some v \<Longrightarrow>
     map_of (rev kvs) k = Some v \<or> (k \<notin> fst ` set kvs \<and> get k s = Some v)"
proof (induction kvs rule: rev_induct)
  case (snoc kv kvs)
  obtain k1 v1 where kv: "kv = (k1, v1)" by (cases kv)
  let ?s = "fold (\<lambda>(k, v). put k v) kvs s"
  have inv: "inv ?s" using snoc.prems(1) by (rule puts_inv)
  show ?case
  proof (cases "k = k1")
    case True
    then show ?thesis using snoc.prems get_put_same [OF inv] kv by simp
  next
    case False
    then have "get k ?s = Some v"
      using snoc.prems get_put_other [OF inv False, of v1] kv by auto
    then show ?thesis using snoc.IH [OF snoc.prems(1)] kv False by auto
  qed
qed simp

end

interpretation arpc: lossy_cache arp_inv arp_mac arp_cache_add
  by unfold_locales (rule arp_cache_add_inv arp_mac_add_same arp_mac_add_other; assumption)+

section \<open>Requests and resolution\<close>

lemma arp_request_frame:
  "ticks (snd (arp_request ip s)) = ticks s" "arp_cache_n (snd (arp_request ip s)) = arp_cache_n s"
  "map ae_mac (arp_cache (snd (arp_request ip s))) = map ae_mac (arp_cache s)"
  "map ae_ip (arp_cache (snd (arp_request ip s))) = map ae_ip (arp_cache s)"
  "g_ip (snd (arp_request ip s)) = g_ip s" "g_mac (snd (arp_request ip s)) = g_mac s"
  by (simp_all add: arp_request_def Let_def e1000_tx_submit_def NETSTAT_INC_def map_update_same
      split: option.splits)

lemma arp_lookup_cong:
  assumes "map ae_ip (arp_cache t) = map ae_ip (arp_cache s)" "arp_cache_n t = arp_cache_n s"
  shows "arp_lookup ip t = arp_lookup ip s"
proof -
  have "find_idx_from k (\<lambda>e. ae_ip e = ip) xs = find_idx_from k (\<lambda>a. a = ip) (map ae_ip xs)" for k xs
    by (induction xs arbitrary: k) auto
  then show ?thesis using assms unfolding arp_lookup_def find_idx_def by (metis take_map)
qed

lemma map_cong_nth: "map f xs = map f ys \<Longrightarrow> i < length ys \<Longrightarrow> f (xs ! i) = f (ys ! i)"
  by (metis length_map nth_map)

lemma arp_resolve_result:
  assumes "arp_inv s" "ip \<noteq> 0xFFFFFFFF"
  shows "fst (arp_resolve ip s) = arp_mac ip s"
proof (cases "arp_lookup ip s")
  case None
  then show ?thesis using assms by (simp add: arp_resolve_def arp_mac_def)
next
  case (Some e)
  then have e: "e < length (arp_cache s)" using assms by (simp add: arp_lookup_Some arp_inv_def)
  then have "ae_mac (arp_cache (snd (arp_request ip s)) ! e) = ae_mac (arp_cache s ! e)"
    using arp_request_frame(3) map_cong_nth by blast
  moreover have "length (arp_cache (snd (arp_request ip s))) = length (arp_cache s)"
    using arp_request_frame(3) map_eq_imp_length_eq by blast
  ultimately show ?thesis
    using Some assms e by (auto simp: arp_resolve_def arp_mac_def Let_def split_beta)
qed

text \<open>The binding a received frame announces, when the code accepts the frame.\<close>

definition arp_binding :: "bytes \<times> u32 \<Rightarrow> (u32 \<times> bytes) option" where
  "arp_binding f =
    (let a = arp_pkt_at (fst f) 14 in
     if snd f < 42 \<or> ntoh16 (htype a) \<noteq> 1 \<or> ntoh16 (ptype a) \<noteq> 0x0800 \<or> hlen a \<noteq> 6 \<or> plen a \<noteq> 4
     then None else Some (spa a, sha a))"

lemma arp_handle_cache:
  "arp_inv (arp_handle p len s) = arp_inv (case arp_binding (p, len) of None \<Rightarrow> s | Some (ip, m) \<Rightarrow> arp_cache_add ip m s)"
  "arp_mac ip' (arp_handle p len s) = arp_mac ip' (case arp_binding (p, len) of None \<Rightarrow> s | Some (ip, m) \<Rightarrow> arp_cache_add ip m s)"
  by (auto simp: arp_handle_def arp_binding_def Let_def e1000_tx_submit_def NETSTAT_INC_def arp_inv_def
      arp_tbl_def arp_mac_def arp_lookup_def)

lemma arp_handles_step:
  assumes "arp_inv s"
  shows "arp_inv (arp_handle p len s)"
    "arp_mac ip' (arp_handle p len s) = Some m \<Longrightarrow>
       (case arp_binding (p, len) of Some (ip, m') \<Rightarrow> if ip = ip' then m = m' else arp_mac ip' s = Some m
        | None \<Rightarrow> arp_mac ip' s = Some m)"
  using assms arp_cache_add_inv [OF assms] arp_mac_add_same [OF assms] arp_mac_add_other [OF assms, of ip']
  by (auto simp: arp_handle_cache split: option.splits) (metis option.distinct(1))

lemma arp_handles_sound:
  "arp_inv s \<Longrightarrow> arp_inv (fold (\<lambda>(p, len). arp_handle p len) fs s) \<and>
   (arp_mac ip (fold (\<lambda>(p, len). arp_handle p len) fs s) = Some m \<longrightarrow>
     map_of (rev (List.map_filter arp_binding fs)) ip = Some m \<or>
     (ip \<notin> fst ` set (List.map_filter arp_binding fs) \<and> arp_mac ip s = Some m))"
proof (induction fs rule: rev_induct)
  case Nil
  then show ?case by (simp add: map_filter_simps)
next
  case (snoc f fs)
  obtain p len where f: "f = (p, len)" by (cases f)
  let ?s = "fold (\<lambda>(p, len). arp_handle p len) fs s"
  have inv: "arp_inv ?s" using snoc by blast
  have mf: "List.map_filter arp_binding (fs @ [f]) =
      List.map_filter arp_binding fs @ (case arp_binding f of None \<Rightarrow> [] | Some b \<Rightarrow> [b])"
    by (auto simp: map_filter_def split: option.splits)
  show ?case
    using arp_handles_step [OF inv, where p = p and len = len] snoc f mf
    by (auto split: option.splits if_splits)
qed

text \<open>Property C32: resolution never returns a wrong binding.  After any sequence of
  received frames, the address the resolver returns is the one announced by the last
  accepted ARP frame of that sender, or, when no frame of the sequence announced the
  sender, the one the cache held before.\<close>

theorem arp_resolve_sound:
  assumes "arp_inv s" "ip \<noteq> 0xFFFFFFFF"
    "fst (arp_resolve ip (fold (\<lambda>(p, len). arp_handle p len) fs s)) = Some m"
  shows "map_of (rev (List.map_filter arp_binding fs)) ip = Some m \<or>
     (ip \<notin> fst ` set (List.map_filter arp_binding fs) \<and> arp_mac ip s = Some m)"
  using arp_handles_sound [OF assms(1), of fs ip m] assms arp_resolve_result by fastforce

text \<open>The expiry scan keeps the live entries in their order and removes
  exactly those that used up their probes and stayed silent.\<close>

theorem arp_tick_exact:
  assumes "arp_inv s"
  shows "arp_tbl (arp_tick s) = filter (\<lambda>e. \<not> arp_dead (ticks s) e) (arp_tbl s) \<and> arp_inv (arp_tick s)"
  using assms arp_tick_tbl arp_tick_inv by blast

section \<open>Concrete states\<close>

definition arp_zero_stats :: net_stats where
  "arp_zero_stats = \<lparr> arp_req_out = 0, arp_reply_in = 0, arp_resolve_miss = 0, ip_csum_err = 0,
     ethertype_unknown = 0, udp_no_listener = 0, rx_drop_full = 0, tcp_rst_sent = 0,
     tcp_rto_rexmit = 0, tcp_sack_rexmit = 0, tcp_persist_probe = 0, icmp_echo_out = 0,
     arp_entry_expired = 0 \<rparr>"

definition arp_entry0 :: arp_entry where
  "arp_entry0 = \<lparr> ae_ip = 0, ae_mac = replicate 6 0, seen_tick = 0, req_tick = 0, probes = 0 \<rparr>"

definition arp_boot :: arpst where
  "arp_boot = \<lparr> mmio = True, tx_dd = replicate TX_N True, tx_next = 0, tx_tdt = 0, tx_wire = [],
     rx_dd = replicate RX_N False, rx_buf = replicate RX_N [], rx_len = replicate RX_N 0,
     rx_last = 0, rx_rdt = 255, ticks = 5000, g_mac = [2, 0, 0, 0, 0, 1], g_ip = 0x0F02000A,
     g_gw = 0, g_mask = 0, g_dns = 0, ip_id = 0, g_net_stats = arp_zero_stats,
     arp_cache = replicate ARP_CACHE_MAX arp_entry0, arp_cache_n = 0, arp_req_gate = 0,
     arp_scan_deadline = 0 \<rparr>"

definition arp_demo_frame :: bytes where
  "arp_demo_frame = replicate 12 0 @ le16 (hton16 0x0806) @ arp_pkt_bytes \<lparr> htype = hton16 1,
     ptype = hton16 0x0800, hlen = 6, plen = 4, arp_op = hton16 2, sha = [2, 0, 0, 0, 0, 9],
     spa = 0x0202000A, tha = replicate 6 0, tpa = 0x0F02000A \<rparr>"

lemma arp_boot_inv: "arp_inv arp_boot"
  by (simp add: arp_inv_def arp_boot_def arp_tbl_def)

theorem arp_resolve_sound_witness:
  "fst (arp_resolve 0x0202000A (fold (\<lambda>(p, len). arp_handle p len) [(arp_demo_frame, 42)] arp_boot))
     = Some [2, 0, 0, 0, 0, 9] \<and>
   map_of (rev (List.map_filter arp_binding [(arp_demo_frame, 42)])) 0x0202000A = Some [2, 0, 0, 0, 0, 9]"
proof -
  have r: "fst (arp_resolve 0x0202000A (fold (\<lambda>(p, len). arp_handle p len) [(arp_demo_frame, 42)] arp_boot))
     = Some [2, 0, 0, 0, 0, 9]"
    by code_simp
  have "arp_mac 0x0202000A arp_boot = None" by code_simp
  then show ?thesis
    using arp_resolve_sound [OF arp_boot_inv _ r] r by auto
qed

definition arp_demo_stale :: arpst where
  "arp_demo_stale = arp_boot\<lparr> arp_cache_n := 2, arp_cache := (arp_cache arp_boot)
     [0 := arp_entry0\<lparr> ae_ip := 1, probes := 3 \<rparr>, 1 := arp_entry0\<lparr> ae_ip := 2, seen_tick := 4900 \<rparr>] \<rparr>"

theorem arp_tick_exact_witness:
  "arp_tbl (arp_tick arp_demo_stale) = [arp_entry0\<lparr> ae_ip := 2, seen_tick := 4900 \<rparr>]"
proof -
  have "arp_inv arp_demo_stale"
    by (simp add: arp_inv_def arp_demo_stale_def arp_boot_def arp_tbl_def arp_entry0_def numeral_eq_Suc)
  then have "arp_tbl (arp_tick arp_demo_stale) =
      filter (\<lambda>e. \<not> arp_dead (ticks arp_demo_stale) e) (arp_tbl arp_demo_stale)"
    using arp_tick_exact by blast
  also have "\<dots> = [arp_entry0\<lparr> ae_ip := 2, seen_tick := 4900 \<rparr>]" by code_simp
  finally show ?thesis .
qed

end
