(* ===== verification/NetFraming.thy ===== *)
theory NetFraming
  imports Arp
begin

text \<open>
  Decimal output (\<open>kput_dec\<close> of \<^verbatim>\<open>src/kernel/kernel.c\<close>), the dotted-quad
  printer and parser as a round trip, and the correctness of IPv4 framing: what
  \<open>ip_send\<close> puts on the wire is a well-formed packet that the receive path
  accepts.
\<close>

section \<open>Decimal output\<close>

definition dec_char :: "u32 \<Rightarrow> char" where
  "dec_char d = char_of (48 + unat d)"

text \<open>The digit loop; the fuel is the bound \<open>i < sizeof(buf)\<close> of the code.  The
  digits are produced least significant first.\<close>

fun kput_dec_loop :: "nat \<Rightarrow> u32 \<Rightarrow> string" where
  "kput_dec_loop 0 v = []"
| "kput_dec_loop (Suc k) v = (if v = 0 then [] else dec_char (v mod 10) # kput_dec_loop k (v div 10))"

definition kput_dec :: "u32 \<Rightarrow> string" where
  "kput_dec v = (if v = 0 then ''0'' else rev (kput_dec_loop 11 v))"

definition net_ip_print :: "u32 \<Rightarrow> string" where
  "net_ip_print ip =
    (let b = le32 ip in
     kput_dec (ucast (b ! 0)) @ ''.'' @ kput_dec (ucast (b ! 1)) @ ''.''
     @ kput_dec (ucast (b ! 2)) @ ''.'' @ kput_dec (ucast (b ! 3)))"

text \<open>The value a digit string denotes.\<close>

definition digit_val :: "char \<Rightarrow> nat" where
  "digit_val c = of_char c - 48"

fun digits_val :: "string \<Rightarrow> nat" where
  "digits_val [] = 0"
| "digits_val (c # cs) = digit_val c + 10 * digits_val cs"

lemma unat_mod10: "unat (v mod 10 :: u32) = unat v mod 10"
  by (simp add: unat_mod_distrib)

lemma unat_div10: "unat (v div 10 :: u32) = unat v div 10"
  by (simp add: unat_div_distrib)

lemma digit_val_dec_char: "unat d < 10 \<Longrightarrow> digit_val (dec_char d) = unat d"
  by (simp add: digit_val_def dec_char_def)

lemma kput_dec_loop_val:
  "unat v < 10 ^ k \<Longrightarrow> digits_val (kput_dec_loop k v) = unat v"
proof (induction k arbitrary: v)
  case 0
  then show ?case by simp
next
  case (Suc k)
  show ?case
  proof (cases "v = 0")
    case False
    have "unat (v div 10) < 10 ^ k" using Suc.prems by (simp add: unat_div10 less_mult_imp_div_less mult.commute)
    then have "digits_val (kput_dec_loop k (v div 10)) = unat v div 10"
      using Suc.IH by (simp add: unat_div10)
    then show ?thesis
      using False by (simp add: digit_val_dec_char unat_mod10)
  qed simp
qed

lemma kput_dec_loop_digits:
  "c \<in> set (kput_dec_loop k v) \<Longrightarrow> of_char c \<ge> (48 :: nat) \<and> of_char c \<le> (57 :: nat)"
proof (induction k arbitrary: v)
  case (Suc k)
  have "unat (v mod 10) < 10" by (simp add: unat_mod10)
  then show ?case using Suc by (auto simp: dec_char_def split: if_splits)
qed simp

section \<open>Dotted quads\<close>

definition ps_push :: "parse_st \<Rightarrow> nat \<Rightarrow> parse_st" where
  "ps_push st v = st\<lparr> ps_digit := True, ps_octet := of_nat v \<rparr>"

lemma ps_push_octet: "v < 256 \<Longrightarrow> unat (ps_octet (ps_push st v)) = v"
  unfolding ps_push_def by (simp add: unat_of_nat)

lemma ps_push_push: "ps_push (ps_push st v) w = ps_push st w"
  by (simp add: ps_push_def)

lemma parse_digit_step:
  assumes "d < 10" "unat (ps_octet st) * 10 + d = v" "v < 256"
  shows "net_parse_ipv4_loop (Suc k) st (char_of (48 + d) # cs) = net_parse_ipv4_loop k (ps_push st v) cs"
proof -
  have oct: "ps_octet st * 10 + of_nat d = of_nat v"
    using assms(2) [symmetric] by simp
  have "unat (of_nat v :: u32) = v" using assms(3) by (simp add: unat_of_nat)
  then have "\<not> (of_nat v :: u32) > 255"
    using assms(3) by (simp add: word_less_nat_alt)
  then show ?thesis using assms(1) oct by (simp add: Let_def ps_push_def)
qed

lemma kput_dec_byte:
  fixes b :: u8
  defines "v \<equiv> unat b"
  shows "kput_dec (ucast b) =
    (if v < 10 then [char_of (48 + v)]
     else if v < 100 then [char_of (48 + v div 10), char_of (48 + v mod 10)]
     else [char_of (48 + v div 100), char_of (48 + v div 10 mod 10), char_of (48 + v mod 10)])"
proof -
  let ?w = "ucast b :: u32"
  have w: "unat ?w = v" by (simp add: v_def)
  have lt: "v < 256" using unat_u8_lt v_def by simp
  have z: "x = 0 \<longleftrightarrow> unat x = 0" for x :: u32 by (simp add: unat_eq_zero)
  have zw: "?w = 0 \<longleftrightarrow> v = 0" unfolding z w ..
  have c0: "char_of (48 :: nat) = CHR ''0''" by code_simp
  have e: "kput_dec_loop (Suc k) x =
      (if unat x = 0 then [] else char_of (48 + unat x mod 10) # kput_dec_loop k (x div 10))" for k x
    by (simp add: z dec_char_def unat_mod10)
  have "kput_dec_loop 11 ?w = kput_dec_loop (Suc (Suc (Suc (Suc 7)))) ?w" by simp
  also have "\<dots> = (if v = 0 then [] else char_of (48 + v mod 10) #
      (if v div 10 = 0 then [] else char_of (48 + v div 10 mod 10) #
      (if v div 100 = 0 then [] else char_of (48 + v div 100 mod 10) # [])))"
  proof -
    have "v div 1000 = 0" using lt by simp
    then show ?thesis
      unfolding e unat_div10 w by (simp add: div_mult2_eq [symmetric])
  qed
  finally have l: "kput_dec_loop 11 ?w = \<dots>" .
  show ?thesis
    unfolding kput_dec_def l zw using lt c0 by (auto simp: div_eq_0_iff)
qed

lemma parse_octet:
  assumes "ps_octet st = 0" "length (kput_dec (ucast b)) \<le> k"
  shows "net_parse_ipv4_loop k st (kput_dec (ucast (b :: u8)) @ cs) =
    net_parse_ipv4_loop (k - length (kput_dec (ucast b))) (ps_push st (unat b)) cs"
proof -
  let ?v = "unat b"
  have lt: "?v < 256" by (rule unat_u8_lt)
  have o0: "unat (ps_octet st) = 0" using assms(1) by simp
  consider "?v < 10" | "10 \<le> ?v" "?v < 100" | "100 \<le> ?v" by linarith
  then show ?thesis
  proof cases
    case 1
    then have l: "kput_dec (ucast b) = [char_of (48 + ?v)]" by (simp add: kput_dec_byte)
    then obtain k' where k: "k = Suc k'" using assms(2) that [of "k - 1"] by simp
    show ?thesis unfolding l k append.simps list.size
      using parse_digit_step [of ?v st ?v k' cs] 1 o0 lt by simp
  next
    case 2
    then have l: "kput_dec (ucast b) = [char_of (48 + ?v div 10), char_of (48 + ?v mod 10)]"
      by (simp add: kput_dec_byte)
    then obtain k' where k: "k = Suc (Suc k')"
      using assms(2) that [of "k - 2"] by simp
    have "?v div 10 < 10" using 2 by simp
    then have "net_parse_ipv4_loop k st (kput_dec (ucast b) @ cs) =
        net_parse_ipv4_loop (Suc k') (ps_push st (?v div 10)) (char_of (48 + ?v mod 10) # cs)"
      unfolding l k append.simps by (intro parse_digit_step) (simp_all add: o0)
    also have "\<dots> = net_parse_ipv4_loop k' (ps_push (ps_push st (?v div 10)) ?v) cs"
      by (rule parse_digit_step) (use lt in \<open>simp_all add: ps_push_octet\<close>)
    finally show ?thesis by (simp add: l k ps_push_push)
  next
    case 3
    then have l: "kput_dec (ucast b) = [char_of (48 + ?v div 100), char_of (48 + ?v div 10 mod 10), char_of (48 + ?v mod 10)]"
      by (simp add: kput_dec_byte)
    then obtain k' where k: "k = Suc (Suc (Suc k'))"
      using assms(2) that [of "k - 3"] by simp
    have "?v div 100 = ?v div 10 div 10" by (simp add: div_mult2_eq [symmetric])
    then have v2: "?v div 100 * 10 + ?v div 10 mod 10 = ?v div 10" by simp
    have d: "?v div 100 < 10" "?v div 100 < 256" "?v div 10 < 256" using lt by simp_all
    have "net_parse_ipv4_loop k st (kput_dec (ucast b) @ cs) =
        net_parse_ipv4_loop (Suc (Suc k')) (ps_push st (?v div 100)) (char_of (48 + ?v div 10 mod 10) # char_of (48 + ?v mod 10) # cs)"
      unfolding l k append.simps by (intro parse_digit_step) (simp_all add: o0 d)
    also have "\<dots> = net_parse_ipv4_loop (Suc k') (ps_push (ps_push st (?v div 100)) (?v div 10)) (char_of (48 + ?v mod 10) # cs)"
      by (rule parse_digit_step) (use v2 d in \<open>simp_all add: ps_push_octet\<close>)
    also have "\<dots> = net_parse_ipv4_loop k' (ps_push (ps_push (ps_push st (?v div 100)) (?v div 10)) ?v) cs"
      by (rule parse_digit_step) (use lt d in \<open>simp_all add: ps_push_octet\<close>)
    finally show ?thesis by (simp add: l k ps_push_push)
  qed
qed

lemma length_kput_dec_byte: "length (kput_dec (ucast (b :: u8))) \<le> 3" "1 \<le> length (kput_dec (ucast (b :: u8)))"
  by (simp_all add: kput_dec_byte)

lemma parse_dot:
  assumes "ps_digit st" "ps_dots st < 3"
  shows "net_parse_ipv4_loop (Suc k) st (''.'' @ cs) =
    net_parse_ipv4_loop k (st\<lparr> ps_value := push_bit 8 (ps_value st) OR ps_octet st,
          ps_octet := 0, ps_digit := False, ps_dots := ps_dots st + 1 \<rparr>) cs"
  using assms by simp

lemma hton32_quad:
  "hton32 (push_bit 8 (push_bit 8 (push_bit 8 (ucast (a :: u8)) OR ucast (b :: u8)) OR ucast (c :: u8)) OR ucast (d :: u8)) =
    (ucast a OR push_bit 8 (ucast b) OR push_bit 16 (ucast c) OR push_bit 24 (ucast d))"
proof (rule bit_word_eqI)
  fix n assume n: "n < LENGTH(32)"
  consider "n < 8" | "8 \<le> n" "n < 16" | "16 \<le> n" "n < 24" | "24 \<le> n"
    by linarith
  then show "bit (hton32 (push_bit 8 (push_bit 8 (push_bit 8 (ucast a) OR ucast b) OR ucast c) OR ucast d)) n =
      bit (ucast a OR push_bit 8 (ucast b) OR push_bit 16 (ucast c) OR push_bit 24 (ucast d) :: u32) n"
    using n by cases (auto simp: hton32_def bit_ntoh32 bit_simps dest: bit_imp_le_length)
qed

lemma le32_join:
  "(ucast (le32 v ! 0) OR push_bit 8 (ucast (le32 v ! 1)) OR push_bit 16 (ucast (le32 v ! 2))
     OR push_bit 24 (ucast (le32 v ! 3))) = v"
  using rd32_le32 [of v "[]"] by (simp add: rd32_def byte_at_def numeral_2_eq_2)

text \<open>One octet and the dot after it, on a parser state at the start of an octet.\<close>

lemma parse_octet_dot:
  assumes "ps_octet st = 0" "ps_dots st < 3" "4 \<le> k"
  shows "\<exists>k'. k \<le> k' + 4 \<and> net_parse_ipv4_loop k st (kput_dec (ucast (b :: u8)) @ ''.'' @ cs) =
    net_parse_ipv4_loop k' \<lparr> ps_value = push_bit 8 (ps_value st) OR ucast b, ps_octet = 0,
      ps_dots = ps_dots st + 1, ps_digit = False \<rparr> cs"
proof -
  let ?l = "length (kput_dec (ucast b))"
  have l: "?l \<le> 3" "?l \<le> k" using length_kput_dec_byte [of b] assms(3) by simp_all
  then obtain k' where k': "k - ?l = Suc k'" using assms(3) that [of "k - ?l - 1"] by simp
  have "net_parse_ipv4_loop k st (kput_dec (ucast b) @ ''.'' @ cs) =
      net_parse_ipv4_loop (Suc k') (ps_push st (unat b)) (''.'' @ cs)"
    using parse_octet [OF assms(1) l(2)] k' by simp
  also have "\<dots> = net_parse_ipv4_loop k' \<lparr> ps_value = push_bit 8 (ps_value st) OR ucast b, ps_octet = 0,
      ps_dots = ps_dots st + 1, ps_digit = False \<rparr> cs"
    using assms(2) by (cases st) (subst parse_dot; simp add: ps_push_def)
  finally show ?thesis using l k' by (intro exI [of _ k']) auto
qed

text \<open>The dotted-quad parser inverts the dotted-quad printer, on every
  address; in particular the parser's bound of 16 characters never truncates a
  printed address.\<close>

theorem net_parse_print_ipv4: "net_parse_ipv4 (net_ip_print ip) = Some ip"
proof -
  define a b c d where "a = le32 ip ! 0" and "b = le32 ip ! 1" and "c = le32 ip ! 2" and "d = le32 ip ! 3"
  let ?st = "\<lambda>v n. \<lparr> ps_value = v, ps_octet = 0, ps_dots = n, ps_digit = False \<rparr>"
  let ?v1 = "ucast a :: u32" and ?v2 = "push_bit 8 (ucast a) OR ucast b :: u32"
  let ?v3 = "push_bit 8 (push_bit 8 (ucast a) OR ucast b) OR ucast c :: u32"
  obtain k1 where k1: "16 \<le> k1 + 4" "net_parse_ipv4_loop 16 (?st 0 0) (net_ip_print ip) =
      net_parse_ipv4_loop k1 (?st ?v1 1) (kput_dec (ucast b) @ ''.'' @ kput_dec (ucast c) @ ''.'' @ kput_dec (ucast d))"
    using parse_octet_dot [of "?st 0 0" 16 a "kput_dec (ucast b) @ ''.'' @ kput_dec (ucast c) @ ''.'' @ kput_dec (ucast d)"]
    by (auto simp: net_ip_print_def Let_def a_def b_def c_def d_def)
  obtain k2 where k2: "k1 \<le> k2 + 4" "net_parse_ipv4_loop k1 (?st ?v1 1) (kput_dec (ucast b) @ ''.'' @ kput_dec (ucast c) @ ''.'' @ kput_dec (ucast d)) =
      net_parse_ipv4_loop k2 (?st ?v2 2) (kput_dec (ucast c) @ ''.'' @ kput_dec (ucast d))"
    using parse_octet_dot [of "?st ?v1 1" k1 b "kput_dec (ucast c) @ ''.'' @ kput_dec (ucast d)"] k1(1) by auto
  obtain k3 where k3: "k2 \<le> k3 + 4" "net_parse_ipv4_loop k2 (?st ?v2 2) (kput_dec (ucast c) @ ''.'' @ kput_dec (ucast d)) =
      net_parse_ipv4_loop k3 (?st ?v3 3) (kput_dec (ucast d))"
    using parse_octet_dot [of "?st ?v2 2" k2 c "kput_dec (ucast d)"] k1(1) k2(1) by auto
  have l: "length (kput_dec (ucast d)) \<le> 3" by (rule length_kput_dec_byte)
  then obtain k4 where k4: "k3 - length (kput_dec (ucast d)) = Suc k4"
    using k1(1) k2(1) k3(1) that [of "k3 - length (kput_dec (ucast d)) - 1"] by simp
  have "net_parse_ipv4_loop k3 (?st ?v3 3) (kput_dec (ucast d)) = Some (hton32 (push_bit 8 ?v3 OR ucast d))"
    using parse_octet [of "?st ?v3 3" d k3 "[]"] l k4 k1(1) k2(1) k3(1) by (simp add: ps_push_def)
  moreover have "hton32 (push_bit 8 ?v3 OR ucast d) = ip"
    unfolding hton32_quad unfolding a_def b_def c_def d_def by (rule le32_join)
  ultimately show ?thesis unfolding net_parse_ipv4_def using k1(2) k2(2) k3(2) by simp
qed

section \<open>IPv4 framing\<close>

lemma join16: "(ucast (ucast v :: u8) :: u16) OR push_bit 8 (ucast (ucast (drop_bit 8 v) :: u8)) = v"
  using rd16_le16 [of v "[]"] by (simp add: rd16_def le16_def byte_at_def)

lemma join32:
  "(ucast (ucast v :: u8) :: u32) OR push_bit 8 (ucast (ucast (drop_bit 8 v) :: u8))
     OR push_bit 16 (ucast (ucast (drop_bit 16 v) :: u8)) OR push_bit 24 (ucast (ucast (drop_bit 24 v) :: u8)) = v"
  using rd32_le32 [of v "[]"] by (simp add: rd32_def le32_def byte_at_def)

lemma ip_hdr_at_bytes: "ip_hdr_at (ip_hdr_bytes h @ r) = h"
  by (cases h) (simp add: ip_hdr_at_def ip_hdr_bytes_def rd16_def rd32_def le16_def le32_def byte_at_def
      join16 join32)

lemma length_ip_hdr_bytes [simp]: "length (ip_hdr_bytes h) = 20"
  by (simp add: ip_hdr_bytes_def)

lemma ip_hdr_finish_valid:
  assumes "hdr_csum h = 0"
  shows "ip_checksum (ip_hdr_bytes (ip_hdr_finish h n)) = 0"
proof -
  let ?h = "h\<lparr> tot_len := hton16 (of_nat (20 + n)) \<rparr>"
  let ?pre = "[ver_ihl h, dscp_ecn h] @ le16 (tot_len ?h) @ le16 (ih_id h) @ le16 (flags_frag h) @ [ttl h, proto h]"
  let ?post = "le32 (ih_src h) @ le32 (ih_dst h)"
  have "ip_hdr_bytes ?h = ?pre @ le16 0 @ ?post"
    using assms by (simp add: ip_hdr_bytes_def)
  then have "ip_hdr_bytes (ip_hdr_finish h n) =
      ?pre @ le16 (hton16 (ip_checksum (?pre @ le16 0 @ ?post))) @ ?post"
    by (simp add: ip_hdr_finish_def Let_def) (simp add: ip_hdr_bytes_def)
  moreover have "ip_checksum (?pre @ le16 (hton16 (ip_checksum (?pre @ le16 0 @ ?post))) @ ?post) = 0"
    by (rule ip_checksum_fill) simp_all
  ultimately show ?thesis by simp
qed

text \<open>Property C31: a packet framed by \<open>begin_ip\<close> and \<open>end_ip\<close> is the one the receiver
  reads.  With a free transmit descriptor and a segment that fits the buffer page, exactly
  one frame reaches the wire; its Ethernet addresses, source, destination, protocol, length
  and payload are those asked for, and the header checksum verifies.\<close>

theorem ip_frame_valid:
  assumes "e1000_tx_alloc s" "length dmac = 6" "length (g_mac s) = 6" "length seg \<le> 4062"
  shows "\<exists>f s1 s2 fr. begin_ip dst pr dmac s = (Some f, s1) \<and> end_ip f seg s1 = (True, s2) \<and>
    tx_wire s2 = tx_wire s @ [fr] \<and> take 14 fr = dmac @ g_mac s @ [0x08, 0x00] \<and>
    ip_checksum (take 20 (drop 14 fr)) = 0 \<and>
    ntoh16 (tot_len (ip_hdr_at (drop 14 fr))) = of_nat (20 + length seg) \<and>
    ih_src (ip_hdr_at (drop 14 fr)) = g_ip s \<and> ih_dst (ip_hdr_at (drop 14 fr)) = dst \<and>
    proto (ip_hdr_at (drop 14 fr)) = pr \<and> take (length seg) (drop 34 fr) = seg"
proof -
  obtain eth h s1 where b: "begin_ip dst pr dmac s = (Some (eth, h), s1)" "eth = dmac @ g_mac s @ [0x08, 0x00]"
    "hdr_csum h = 0" "ih_src h = g_ip s" "ih_dst h = dst" "proto h = pr"
    "tx_dd s1 = tx_dd s" "tx_next s1 = tx_next s" "tx_wire s1 = tx_wire s"
    using assms(1) by (simp add: begin_ip_def)
  define h' where "h' = ip_hdr_finish h (length seg)"
  define p where "p = eth @ ip_hdr_bytes h' @ seg"
  have h': "tot_len h' = hton16 (of_nat (20 + length seg))" "ih_src h' = g_ip s" "ih_dst h' = dst" "proto h' = pr"
    "ip_checksum (ip_hdr_bytes h') = 0"
    using b ip_hdr_finish_valid by (simp_all add: h'_def ip_hdr_finish_def Let_def)
  have le: "length eth = 14" "length p \<le> PAGE_BYTES" using assms b(2) by (simp_all add: p_def)
  have dd: "tx_dd s1 ! tx_next s1" using assms(1) b by (simp add: e1000_tx_alloc_def)
  obtain s2 where e: "end_ip (eth, h) seg s1 = (True, s2)" "tx_wire s2 = tx_wire s @ [pad60 p]"
    using e1000_tx_submit_ok [OF dd le(2)] b(9) that [of "snd (e1000_tx_submit p s1)"]
    by (simp add: end_ip_def p_def h'_def split_beta)
  obtain z where z: "pad60 p = p @ z"
    by (metis append_take_drop_id take_pad60)
  have "take 14 (pad60 p) = eth" "drop 14 (pad60 p) = ip_hdr_bytes h' @ seg @ z" "drop 34 (pad60 p) = seg @ z"
    using le(1) z by (simp_all add: p_def)
  then show ?thesis
    using b(1,2) e h' by (intro exI [of _ "(eth, h)"] exI [of _ s1] exI [of _ s2] exI [of _ "pad60 p"])
      (simp add: ip_hdr_at_bytes)
qed

theorem ip_frame_valid_witness:
  "\<exists>f s1 s2 fr. begin_ip 0x0202000A 17 [2, 0, 0, 0, 0, 9] arp_boot = (Some f, s1) \<and>
    end_ip f [1, 2, 3] s1 = (True, s2) \<and> tx_wire s2 = [fr] \<and> ip_checksum (take 20 (drop 14 fr)) = 0"
proof -
  have a: "e1000_tx_alloc arp_boot" by code_simp
  have g: "length (g_mac arp_boot) = 6" "tx_wire arp_boot = []" by (simp_all add: arp_boot_def)
  show ?thesis
    using ip_frame_valid [OF a, where dmac = "[2, 0, 0, 0, 0, 9]" and seg = "[1, 2, 3]" and
        dst = "0x0202000A" and pr = 17] g by simp blast
qed

end
