(* ===== verification/Dhcp.thy ===== *)
theory Dhcp
  imports NetFraming
begin

text \<open>
  The sending half of UDP (\<open>udp_send\<close> of \<^verbatim>\<open>src/net/net_udp.c\<close>) and the DHCP client
  of \<^verbatim>\<open>src/net/net_dhcp.c\<close>: lease arithmetic, message construction, option parsing,
  the handler of server messages and the timer-driven state machine.

  A received message is the memory that starts at the payload, with the length
  the caller computed; the option parser yields \<open>None\<close> when it would read past that
  memory.
\<close>

section \<open>UDP transmission\<close>

abbreviation (input) IP_PROTO_ICMP :: u8 where "IP_PROTO_ICMP \<equiv> 1"
abbreviation (input) IP_PROTO_TCP :: u8 where "IP_PROTO_TCP \<equiv> 6"
abbreviation (input) IP_PROTO_UDP :: u8 where "IP_PROTO_UDP \<equiv> 17"

definition udp_send ::
  "u32 \<Rightarrow> u16 \<Rightarrow> u16 \<Rightarrow> bytes \<Rightarrow> 'a arpst_scheme \<Rightarrow> bool \<times> 'a arpst_scheme" where
  "udp_send dst_ip dst_port src_port data s =
    (case arp_resolve dst_ip s of
       (None, s1) \<Rightarrow> (False, s1)
     | (Some dmac, s1) \<Rightarrow>
        (case begin_ip dst_ip IP_PROTO_UDP dmac s1 of
           (None, s2) \<Rightarrow> (False, s2)
         | (Some f, s2) \<Rightarrow>
             end_ip f (le16 (hton16 src_port) @ le16 (hton16 dst_port)
               @ le16 (hton16 (of_nat (8 + length data))) @ le16 0 @ data) s2))"

section \<open>DHCP state\<close>

datatype dhcp_state_t = DHCP_OFF | DHCP_DISCOVER | DHCP_WAIT_OFFER | DHCP_WAIT_ACK | DHCP_DONE
  | DHCP_BOUND | DHCP_RENEWING | DHCP_REBINDING

datatype dhcp_mode = DHCP_MODE_BOOT | DHCP_MODE_RENEW | DHCP_MODE_REBIND

abbreviation (input) DHCP_TICKS_PER_SEC :: u32 where "DHCP_TICKS_PER_SEC \<equiv> 100"
abbreviation (input) DHCP_RETRY_BASE_SECS :: u32 where "DHCP_RETRY_BASE_SECS \<equiv> 2"
abbreviation (input) DHCP_RETRY_CAP_SECS :: u32 where "DHCP_RETRY_CAP_SECS \<equiv> 30"

record dhcpst = arpst +
  dhcp_xid :: u32
  dhcp_offer :: u32
  dhcp_server :: u32
  dhcp_mask :: u32
  dhcp_gw :: u32
  dhcp_last :: u32
  dhcp_wait :: u32
  dhcp_ciaddr :: u32
  dhcp_state :: dhcp_state_t
  dhcp_retries :: u8
  dhcp_t1_due :: u32
  dhcp_t2_due :: u32
  dhcp_expire_due :: u32
  dhcp_timed :: bool

section \<open>Operations\<close>

text \<open>The default build has \<open>CATOS_DHCP_LEASE_SCALE\<close> = 1.\<close>

definition dhcp_secs_to_ticks :: "u32 \<Rightarrow> u32" where
  "dhcp_secs_to_ticks secs =
    (let secs' = (if secs > 42949672 then 42949672 else secs)
     in secs' * DHCP_TICKS_PER_SEC div 1)"

definition dhcp_arm_lease :: "u32 \<Rightarrow> u32 \<Rightarrow> u32 \<Rightarrow> 'a dhcpst_scheme \<Rightarrow> 'a dhcpst_scheme" where
  "dhcp_arm_lease lease_s t1_s t2_s s =
    (if lease_s = 0 then s\<lparr> dhcp_timed := False \<rparr>
     else (let now = ticks s;
               lt0 = dhcp_secs_to_ticks lease_s;
               lt = (if lt0 = 0 then 1 else lt0);
               r1a = (if t1_s \<noteq> 0 then dhcp_secs_to_ticks t1_s else lt div 2);
               r2a = (if t2_s \<noteq> 0 then dhcp_secs_to_ticks t2_s else lt - lt div 8);
               r2b = (if r2a > lt then lt else r2a);
               r2 = (if r2b = 0 then 1 else r2b);
               r1b = (if r1a > r2 then r2 else r1a);
               r1 = (if r1b = 0 then 1 else r1b)
           in s\<lparr> dhcp_t1_due := now + r1, dhcp_t2_due := now + r2, dhcp_expire_due := now + lt,
                  dhcp_timed := True \<rparr>))"

definition dhcp_backoff_next :: "u32 \<Rightarrow> u32" where
  "dhcp_backoff_next w0 =
    (let w = w0 * 7 div 4 in if w > DHCP_RETRY_CAP_SECS then DHCP_RETRY_CAP_SECS else w)"

definition dhcp_pkt :: "u8 \<Rightarrow> dhcp_mode \<Rightarrow> 'a dhcpst_scheme \<Rightarrow> bytes" where
  "dhcp_pkt type mode s =
    (let hdr = [1, 1, 6, 0] @ le32 (hton32 (dhcp_xid s)) @ le16 0 @ le16 (hton16 0x8000)
           @ (if mode \<noteq> DHCP_MODE_BOOT then le32 (dhcp_ciaddr s) else le32 0)
           @ replicate 12 0 @ g_mac s;
         opts = [99, 130, 83, 99, 53, 1, type]
           @ (if type = 3 \<and> mode = DHCP_MODE_BOOT
              then [54, 4] @ le32 (dhcp_server s) @ [50, 4] @ le32 (dhcp_offer s) else [])
           @ [55, 3, 1, 3, 6, 255];
         b = hdr @ replicate (236 - length hdr) 0 @ opts
     in b @ replicate (548 - length b) 0)"

definition dhcp_send :: "u8 \<Rightarrow> dhcp_mode \<Rightarrow> 'a dhcpst_scheme \<Rightarrow> 'a dhcpst_scheme" where
  "dhcp_send type mode s =
    (if mode = DHCP_MODE_RENEW then snd (udp_send (dhcp_server s) 67 68 (dhcp_pkt type mode s) s)
     else snd (udp_send 0xFFFFFFFF 67 68 (dhcp_pkt type mode s) s))"

text \<open>\<open>dhcp_lease_expired\<close>; the NAK branch of \<open>dhcp_handle\<close> performs the same
  statements.\<close>

definition dhcp_lease_expired :: "'a dhcpst_scheme \<Rightarrow> 'a dhcpst_scheme" where
  "dhcp_lease_expired s = dhcp_send 1 DHCP_MODE_BOOT
     (s\<lparr> g_ip := 0, g_gw := 0, g_mask := 0, g_dns := 0, dhcp_ciaddr := 0, dhcp_offer := 0,
         dhcp_timed := False, dhcp_retries := 0,
         dhcp_xid := dhcp_xid s XOR (ucast (ip_id s) + 0x9e3779b9),
         dhcp_state := DHCP_WAIT_OFFER, dhcp_wait := DHCP_RETRY_BASE_SECS, dhcp_last := ticks s \<rparr>)"

record dhcp_opts =
  do_mt :: u8
  do_51 :: u32
  do_58 :: u32
  do_59 :: u32
  do_server :: u32
  do_mask :: u32
  do_gw :: u32
  do_dns :: u32

text \<open>One option: \<open>Some\<close> the accumulator after the branch taken, \<open>None\<close> when the
  branch reads past the memory.\<close>

definition dhcp_opt_apply :: "bytes \<Rightarrow> nat \<Rightarrow> u8 \<Rightarrow> nat \<Rightarrow> dhcp_opts \<Rightarrow> dhcp_opts option" where
  "dhcp_opt_apply d i code l a =
    (let v = rd32 d (i + 2); ok4 = (i + 6 \<le> length d) in
     if code = 53 \<and> l \<noteq> 0 then (if i + 3 \<le> length d then Some (a\<lparr> do_mt := d ! (i + 2) \<rparr>) else None)
     else if code = 51 \<and> l = 4 then (if ok4 then Some (a\<lparr> do_51 := ntoh32 v \<rparr>) else None)
     else if code = 58 \<and> l = 4 then (if ok4 then Some (a\<lparr> do_58 := ntoh32 v \<rparr>) else None)
     else if code = 59 \<and> l = 4 then (if ok4 then Some (a\<lparr> do_59 := ntoh32 v \<rparr>) else None)
     else if code = 54 \<and> l = 4 then (if ok4 then Some (a\<lparr> do_server := v \<rparr>) else None)
     else if code = 1 \<and> l = 4 then (if ok4 then Some (a\<lparr> do_mask := v \<rparr>) else None)
     else if code = 3 \<and> l \<ge> 4 then (if ok4 then Some (a\<lparr> do_gw := v \<rparr>) else None)
     else if code = 6 \<and> l = 4 then (if ok4 then Some (a\<lparr> do_dns := v \<rparr>) else None)
     else Some a)"

function dhcp_opts_loop :: "bytes \<Rightarrow> nat \<Rightarrow> nat \<Rightarrow> dhcp_opts \<Rightarrow> dhcp_opts option" where
  "dhcp_opts_loop d n i a =
    (if \<not> i < n then Some a
     else if i \<ge> length d then None
     else if d ! i = 255 then Some a
     else if d ! i = 0 then dhcp_opts_loop d n (i + 1) a
     else if i + 1 \<ge> n then Some a
     else if i + 1 \<ge> length d then None
     else (let l = unat (d ! (i + 1)) in
       if i + 2 + l > n then Some a
       else (case dhcp_opt_apply d i (d ! i) l a of
               None \<Rightarrow> None
             | Some a' \<Rightarrow> dhcp_opts_loop d n (i + 2 + l) a')))"
  by pat_completeness auto
termination by (relation "measure (\<lambda>(d, n, i, a). n - i)") auto

declare dhcp_opts_loop.simps [simp del]

definition dhcp_accepts :: "bytes \<Rightarrow> nat \<Rightarrow> 'a dhcpst_scheme \<Rightarrow> bool" where
  "dhcp_accepts d n s \<longleftrightarrow>
     \<not> (n < 240 \<or> byte_at d 0 \<noteq> 2 \<or> byte_at d 1 \<noteq> 1 \<or> byte_at d 2 \<noteq> 6 \<or> ntoh32 (rd32 d 4) \<noteq> dhcp_xid s) \<and>
     map (\<lambda>i. byte_at d (28 + i)) [0..<6] = g_mac s \<and>
     byte_at d 236 = 99 \<and> byte_at d 237 = 130 \<and> byte_at d 238 = 83 \<and> byte_at d 239 = 99"

text \<open>The part of the handler that follows the option scan.\<close>

definition dhcp_react :: "bytes \<Rightarrow> dhcp_opts \<Rightarrow> 'a dhcpst_scheme \<Rightarrow> 'a dhcpst_scheme" where
  "dhcp_react d o1 s1 =
    (if do_mt o1 = 6 then dhcp_lease_expired s1
     else if do_mt o1 = 2 \<and> dhcp_state s1 = DHCP_WAIT_OFFER then
       (let s2 = dhcp_send 3 DHCP_MODE_BOOT (s1\<lparr> dhcp_offer := rd32 d 16, dhcp_state := DHCP_WAIT_ACK \<rparr>)
        in s2\<lparr> dhcp_last := ticks s2, dhcp_wait := DHCP_RETRY_BASE_SECS \<rparr>)
     else if do_mt o1 = 5 \<and> dhcp_state s1 \<in> {DHCP_WAIT_ACK, DHCP_RENEWING, DHCP_REBINDING} then
       (let s2 = s1\<lparr> dhcp_offer := rd32 d 16, dhcp_ciaddr := rd32 d 16, g_ip := rd32 d 16,
                     g_gw := dhcp_gw s1, g_mask := dhcp_mask s1 \<rparr>;
            s3 = dhcp_arm_lease (do_51 o1) (do_58 o1) (do_59 o1) s2
        in s3\<lparr> dhcp_state := (if dhcp_timed s3 then DHCP_BOUND else DHCP_DONE) \<rparr>)
     else s1)"

definition dhcp_handle :: "bytes \<Rightarrow> nat \<Rightarrow> 'a dhcpst_scheme \<Rightarrow> 'a dhcpst_scheme option" where
  "dhcp_handle d n s =
    (if n \<ge> 240 \<and> length d < 240 then None
     else if \<not> dhcp_accepts d n s then Some s
     else (case dhcp_opts_loop d n 240 \<lparr> do_mt = 0, do_51 = 0, do_58 = 0, do_59 = 0,
               do_server = dhcp_server s, do_mask = dhcp_mask s, do_gw = dhcp_gw s, do_dns = g_dns s \<rparr> of
       None \<Rightarrow> None
     | Some o1 \<Rightarrow> Some (dhcp_react d o1 (s\<lparr> dhcp_server := do_server o1, dhcp_mask := do_mask o1,
         dhcp_gw := do_gw o1, g_dns := do_dns o1 \<rparr>))))"

text \<open>The timer: the lease deadlines first, then the retry of the first
  acquisition with its static fallback.\<close>

definition dhcp_rexid :: "'a dhcpst_scheme \<Rightarrow> 'a dhcpst_scheme" where
  "dhcp_rexid s = s\<lparr> dhcp_xid := dhcp_xid s XOR (ucast (ip_id s) + 0x9e3779b9) \<rparr>"

definition dhcp_retry_due :: "u32 \<Rightarrow> 'a dhcpst_scheme \<Rightarrow> bool" where
  "dhcp_retry_due now s \<longleftrightarrow> dhcp_wait s \<noteq> 0 \<and> now - dhcp_last s \<ge> dhcp_wait s * 100"

definition dhcp_tick_lease :: "'a dhcpst_scheme \<Rightarrow> 'a dhcpst_scheme" where
  "dhcp_tick_lease s =
    (let now = ticks s in
     case dhcp_state s of
       DHCP_BOUND \<Rightarrow>
         if tick_diff now (dhcp_expire_due s) \<ge> 0 then dhcp_lease_expired s
         else if tick_diff now (dhcp_t1_due s) \<ge> 0 then
           (let s1 = snd (arp_resolve (dhcp_server s) s)
            in dhcp_send 3 DHCP_MODE_RENEW (dhcp_rexid (s1\<lparr> dhcp_state := DHCP_RENEWING, dhcp_retries := 0,
                 dhcp_wait := DHCP_RETRY_BASE_SECS, dhcp_last := now \<rparr>)))
         else s
     | DHCP_RENEWING \<Rightarrow>
         if tick_diff now (dhcp_expire_due s) \<ge> 0 then dhcp_lease_expired s
         else if tick_diff now (dhcp_t2_due s) \<ge> 0 then
           dhcp_send 3 DHCP_MODE_REBIND (dhcp_rexid (s\<lparr> dhcp_state := DHCP_REBINDING, dhcp_retries := 0,
             dhcp_wait := DHCP_RETRY_BASE_SECS, dhcp_last := now \<rparr>))
         else if dhcp_retry_due now s then
           dhcp_send 3 DHCP_MODE_RENEW (s\<lparr> dhcp_wait := dhcp_backoff_next (dhcp_wait s), dhcp_last := now \<rparr>)
         else s
     | DHCP_REBINDING \<Rightarrow>
         if tick_diff now (dhcp_expire_due s) \<ge> 0 then dhcp_lease_expired s
         else if dhcp_retry_due now s then
           dhcp_send 3 DHCP_MODE_REBIND (s\<lparr> dhcp_wait := dhcp_backoff_next (dhcp_wait s), dhcp_last := now \<rparr>)
         else s
     | _ \<Rightarrow> s)"

definition dhcp_tick_boot :: "'a dhcpst_scheme \<Rightarrow> 'a dhcpst_scheme" where
  "dhcp_tick_boot s =
    (if dhcp_state s \<in> {DHCP_WAIT_OFFER, DHCP_WAIT_ACK} \<and> dhcp_retry_due (ticks s) s then
       (if dhcp_retries s \<ge> 6 then
          s\<lparr> dhcp_retries := dhcp_retries s + 1, dhcp_wait := 0, g_ip := hton32 0x0A00020F,
             g_gw := hton32 0x0A000202, g_mask := hton32 0xFFFFFF00, g_dns := hton32 0x0A000203,
             dhcp_state := DHCP_DONE, dhcp_timed := False \<rparr>
        else (dhcp_send 1 DHCP_MODE_BOOT (dhcp_rexid (s\<lparr> dhcp_retries := dhcp_retries s + 1 \<rparr>)))
          \<lparr> dhcp_state := DHCP_WAIT_OFFER, dhcp_wait := 2, dhcp_last := ticks s \<rparr>)
     else s)"

definition dhcp_tick :: "'a dhcpst_scheme \<Rightarrow> 'a dhcpst_scheme" where
  "dhcp_tick s = dhcp_tick_boot (dhcp_tick_lease s)"

definition dhcp_start :: "'a dhcpst_scheme \<Rightarrow> 'a dhcpst_scheme" where
  "dhcp_start s =
    (let s1 = dhcp_send 1 DHCP_MODE_BOOT (s\<lparr> dhcp_xid := 0x12340000 XOR ucast (ip_id s),
           dhcp_retries := 0, dhcp_wait := 2, dhcp_state := DHCP_DISCOVER \<rparr>)
     in s1\<lparr> dhcp_last := ticks s1, dhcp_state := DHCP_WAIT_OFFER, dhcp_ciaddr := 0, dhcp_t1_due := 0,
            dhcp_t2_due := 0, dhcp_expire_due := 0, dhcp_timed := False \<rparr>)"

section \<open>Frame conditions of transmission\<close>

text \<open>What any transmission may change: the transmit ring, the frames on the wire, the
  ARP cache entries and throttle, the statistics and the IP identification counter.\<close>

definition tx_effect :: "'a arpst_scheme \<Rightarrow> 'a arpst_scheme \<Rightarrow> bool" where
  "tx_effect s t \<longleftrightarrow> (\<exists>dd nx td w c g st i. t = s\<lparr> tx_dd := dd, tx_next := nx, tx_tdt := td, tx_wire := w,
     ip_id := i, g_net_stats := st, arp_cache := c, arp_req_gate := g \<rparr>)"

lemma tx_effectI:
  "t = s\<lparr> tx_dd := dd, tx_next := nx, tx_tdt := td, tx_wire := w,
     ip_id := i, g_net_stats := st, arp_cache := c, arp_req_gate := g \<rparr> \<Longrightarrow> tx_effect s t"
  unfolding tx_effect_def by blast

lemma tx_effect_refl [simp]: "tx_effect s s"
  by (rule tx_effectI [where dd = "tx_dd s" and nx = "tx_next s" and td = "tx_tdt s" and w = "tx_wire s" and i = "ip_id s" and st = "g_net_stats s" and c = "arp_cache s" and g = "arp_req_gate s"]) simp

lemma tx_effect_trans:
  assumes "tx_effect s t" "tx_effect t u"
  shows "tx_effect s u"
proof -
  obtain dd nx td w i st c g where u: "u = t\<lparr> tx_dd := dd, tx_next := nx, tx_tdt := td, tx_wire := w,
     ip_id := i, g_net_stats := st, arp_cache := c, arp_req_gate := g \<rparr>"
    using assms(2) unfolding tx_effect_def by blast
  obtain dd' nx' td' w' i' st' c' g' where t: "t = s\<lparr> tx_dd := dd', tx_next := nx', tx_tdt := td', tx_wire := w',
     ip_id := i', g_net_stats := st', arp_cache := c', arp_req_gate := g' \<rparr>"
    using assms(1) unfolding tx_effect_def by blast
  show ?thesis
    by (rule tx_effectI [where dd = dd and nx = nx and td = td and w = w and i = i and st = st and c = c and g = g])
      (simp add: u t)
qed

lemma e1000_tx_submit_effect: "tx_effect s (snd (e1000_tx_submit p s))"
proof (cases "tx_dd s ! tx_next s")
  case True
  then show ?thesis
    by (intro tx_effectI [where dd = "(tx_dd s)[tx_next s := False]" and nx = "(tx_next s + 1) mod 256" and
          td = "(tx_next s + 1) mod 256" and w = "tx_wire s @ [take (unat (of_nat (length (pad60 p)) :: u16)) (pad60 p)]" and
          i = "ip_id s" and st = "g_net_stats s" and c = "arp_cache s" and g = "arp_req_gate s"])
      (simp add: e1000_tx_submit_def Let_def)
qed (simp add: e1000_tx_submit_def)

lemma tx_effect_upd:
  "tx_effect s (s\<lparr> ip_id := i \<rparr>)" "tx_effect s (s\<lparr> g_net_stats := st \<rparr>)"
  "tx_effect s (s\<lparr> arp_cache := c \<rparr>)" "tx_effect s (s\<lparr> arp_req_gate := g \<rparr>)"
proof -
  show "tx_effect s (s\<lparr> ip_id := i \<rparr>)"
    by (rule tx_effectI [where dd = "tx_dd s" and nx = "tx_next s" and td = "tx_tdt s" and w = "tx_wire s" and i = "i" and st = "g_net_stats s" and c = "arp_cache s" and g = "arp_req_gate s"]) simp
  show "tx_effect s (s\<lparr> g_net_stats := st \<rparr>)"
    by (rule tx_effectI [where dd = "tx_dd s" and nx = "tx_next s" and td = "tx_tdt s" and w = "tx_wire s" and i = "ip_id s" and st = "st" and c = "arp_cache s" and g = "arp_req_gate s"]) simp
  show "tx_effect s (s\<lparr> arp_cache := c \<rparr>)"
    by (rule tx_effectI [where dd = "tx_dd s" and nx = "tx_next s" and td = "tx_tdt s" and w = "tx_wire s" and i = "ip_id s" and st = "g_net_stats s" and c = "c" and g = "arp_req_gate s"]) simp
  show "tx_effect s (s\<lparr> arp_req_gate := g \<rparr>)"
    by (rule tx_effectI [where dd = "tx_dd s" and nx = "tx_next s" and td = "tx_tdt s" and w = "tx_wire s" and i = "ip_id s" and st = "g_net_stats s" and c = "arp_cache s" and g = "g"]) simp
qed

lemma NETSTAT_INC_effect: "tx_effect s (NETSTAT_INC f s)"
  unfolding NETSTAT_INC_def by (rule tx_effect_upd)

lemma arp_request_effect: "tx_effect s (snd (arp_request ip s))"
proof -
  define p where "p = replicate 6 0xFF @ g_mac s @ le16 (hton16 0x0806) @ arp_pkt_bytes
     \<lparr> htype = hton16 1, ptype = hton16 0x0800, hlen = 6, plen = 4,
       arp_op = hton16 1, sha = g_mac s, spa = g_ip s, tha = replicate 6 0, tpa = ip \<rparr>"
  obtain r s1 where r: "e1000_tx_submit p s = (r, s1)" by (cases "e1000_tx_submit p s")
  have e1: "tx_effect s s1" using e1000_tx_submit_effect [of s p] r by simp
  have "snd (arp_request ip s) \<in> {s, s1} \<or> (\<exists>c. snd (arp_request ip s) = NETSTAT_INC arp_req_out_update (s1\<lparr> arp_cache := c \<rparr>))
     \<or> (\<exists>g. snd (arp_request ip s) = NETSTAT_INC arp_req_out_update (s1\<lparr> arp_req_gate := g \<rparr>))"
    using r unfolding arp_request_def Let_def p_def [symmetric]
    by (auto split: option.splits)
  then show ?thesis
    using e1 tx_effect_trans [OF tx_effect_trans [OF e1 tx_effect_upd(3)] NETSTAT_INC_effect]
      tx_effect_trans [OF tx_effect_trans [OF e1 tx_effect_upd(4)] NETSTAT_INC_effect] by auto
qed

lemma arp_resolve_effect: "tx_effect s (snd (arp_resolve ip s))"
proof -
  let ?q = "snd (arp_request ip s)"
  have "snd (arp_resolve ip s) \<in> {s, ?q, snd (arp_request ip (NETSTAT_INC arp_resolve_miss_update s))} \<or>
      (\<exists>c. snd (arp_resolve ip s) = ?q\<lparr> arp_cache := c \<rparr>)"
    unfolding arp_resolve_def by (auto simp: Let_def split_beta split: option.splits)
  then show ?thesis
    using arp_request_effect [of s ip] tx_effect_trans [OF arp_request_effect tx_effect_upd(3)]
      tx_effect_trans [OF NETSTAT_INC_effect arp_request_effect] by auto
qed

lemma begin_ip_effect: "tx_effect s (snd (begin_ip dst pr m s))"
  by (simp add: begin_ip_def tx_effect_upd)

lemma end_ip_effect: "tx_effect s (snd (end_ip f seg s))"
  by (simp add: end_ip_def split_beta e1000_tx_submit_effect)

text \<open>Every sender of the stack has this shape: resolve, frame, submit.\<close>

lemma ip_path_effect:
  "tx_effect s (snd (case arp_resolve dst s of (None, s1) \<Rightarrow> (False, s1)
     | (Some m, s1) \<Rightarrow> (case begin_ip dst pr m s1 of (None, s2) \<Rightarrow> (False, s2)
         | (Some f, s2) \<Rightarrow> end_ip f seg s2)))"
proof -
  obtain r s1 where r: "arp_resolve dst s = (r, s1)" by (cases "arp_resolve dst s")
  have e1: "tx_effect s s1" using arp_resolve_effect [of s dst] r by simp
  show ?thesis
  proof (cases r)
    case (Some m)
    obtain f s2 where f: "begin_ip dst pr m s1 = (f, s2)" by (cases "begin_ip dst pr m s1")
    have e2: "tx_effect s s2"
      using tx_effect_trans [OF e1] begin_ip_effect [of s1 dst pr m] f by simp
    then show ?thesis
      using r Some f tx_effect_trans [OF e2 end_ip_effect] by (cases f) simp_all
  qed (use r e1 in simp)
qed

lemma udp_send_effect: "tx_effect s (snd (udp_send ip dp sp d s))"
  unfolding udp_send_def by (rule ip_path_effect)

lemma ip_send_effect: "tx_effect s (snd (ip_send dst pr d s))"
  unfolding ip_send_def by (rule ip_path_effect)

lemma tx_effect_core [net_simps]:
  "tx_effect s t \<Longrightarrow> ticks t = ticks s \<and> g_ip t = g_ip s \<and> g_gw t = g_gw s \<and> g_mask t = g_mask s \<and>
     g_dns t = g_dns s \<and> g_mac t = g_mac s \<and> mmio t = mmio s \<and> arp_cache_n t = arp_cache_n s \<and>
     arpst.more t = arpst.more s"
  by (auto simp: tx_effect_def)

lemma tx_effect_dhcp [net_simps]:
  fixes s t :: "'a dhcpst_scheme"
  shows "tx_effect s t \<Longrightarrow> dhcp_state t = dhcp_state s \<and> dhcp_timed t = dhcp_timed s \<and>
    dhcp_t1_due t = dhcp_t1_due s \<and> dhcp_t2_due t = dhcp_t2_due s \<and> dhcp_expire_due t = dhcp_expire_due s \<and>
    dhcp_wait t = dhcp_wait s \<and> dhcp_last t = dhcp_last s \<and> dhcp_retries t = dhcp_retries s \<and>
    dhcp_ciaddr t = dhcp_ciaddr s \<and> dhcp_xid t = dhcp_xid s \<and> dhcp_offer t = dhcp_offer s \<and>
    dhcp_server t = dhcp_server s"
  by (auto simp: tx_effect_def)

lemma dhcp_send_effect: "tx_effect s (snd (udp_send ip dp sp d s))" "tx_effect s (dhcp_send ty m s)"
  by (simp_all add: dhcp_send_def udp_send_effect)

section \<open>Lease arithmetic\<close>

lemma unat_dhcp_secs_to_ticks: "unat (dhcp_secs_to_ticks x) = min (unat x) 42949672 * 100"
proof (cases "x > 42949672")
  case True
  then show ?thesis by (simp add: dhcp_secs_to_ticks_def word_less_nat_alt)
next
  case False
  then show ?thesis by (simp add: dhcp_secs_to_ticks_def word_less_nat_alt unat_word_ariths)
qed

lemma dhcp_arm_lease_order:
  assumes "l \<noteq> 0"
  shows "\<exists>r1 r2. dhcp_arm_lease l t1 t2 s = s\<lparr> dhcp_t1_due := ticks s + r1, dhcp_t2_due := ticks s + r2,
      dhcp_expire_due := ticks s + dhcp_secs_to_ticks l, dhcp_timed := True \<rparr> \<and>
    1 \<le> r1 \<and> r1 \<le> r2 \<and> r2 \<le> dhcp_secs_to_ticks l"
proof -
  let ?lt = "dhcp_secs_to_ticks l"
  have "0 < unat l" using assms by (simp add: unat_gt_0)
  then have nz: "?lt \<noteq> 0" using unat_dhcp_secs_to_ticks [of l] by auto
  define r2b where "r2b = (let r2a = (if t2 \<noteq> 0 then dhcp_secs_to_ticks t2 else ?lt - ?lt div 8) in if r2a > ?lt then ?lt else r2a)"
  define r2 where "r2 = (if r2b = 0 then 1 else r2b)"
  define r1b where "r1b = (let r1a = (if t1 \<noteq> 0 then dhcp_secs_to_ticks t1 else ?lt div 2) in if r1a > r2 then r2 else r1a)"
  define r1 where "r1 = (if r1b = 0 then 1 else r1b)"
  have "r2b \<le> ?lt" by (simp add: r2b_def Let_def not_less)
  then have r2: "1 \<le> r2" "r2 \<le> ?lt" using word_neq_0_ge_1 nz by (auto simp: r2_def)
  have "r1b \<le> r2" by (simp add: r1b_def Let_def not_less)
  then have r1: "1 \<le> r1" "r1 \<le> r2" using word_neq_0_ge_1 r2 by (auto simp: r1_def)
  have "dhcp_arm_lease l t1 t2 s = s\<lparr> dhcp_t1_due := ticks s + r1, dhcp_t2_due := ticks s + r2,
      dhcp_expire_due := ticks s + ?lt, dhcp_timed := True \<rparr>"
    using assms nz unfolding dhcp_arm_lease_def r1_def r1b_def r2_def r2b_def Let_def
    by (simp only: if_False)
  then show ?thesis using r1 r2 by blast
qed

section \<open>The state machine\<close>

text \<open>The invariant the timer relies on: a state with lease deadlines is entered only
  with the deadlines armed, and the address in use is the one a renewal asks for.\<close>

definition dhcp_leased :: "dhcp_state_t \<Rightarrow> bool" where
  "dhcp_leased st \<longleftrightarrow> st \<in> {DHCP_BOUND, DHCP_RENEWING, DHCP_REBINDING}"

definition dhcp_inv :: "'a dhcpst_scheme \<Rightarrow> bool" where
  "dhcp_inv s \<longleftrightarrow> (dhcp_leased (dhcp_state s) \<longrightarrow> dhcp_timed s \<and> g_ip s = dhcp_ciaddr s)"

lemma dhcp_send_fields [simp]:
  "dhcp_state (dhcp_send ty m s) = dhcp_state s" "dhcp_timed (dhcp_send ty m s) = dhcp_timed s"
  "g_ip (dhcp_send ty m s) = g_ip s" "ticks (dhcp_send ty m s) = ticks s"
  "dhcp_last (dhcp_send ty m s) = dhcp_last s" "dhcp_wait (dhcp_send ty m s) = dhcp_wait s"
  "dhcp_ciaddr (dhcp_send ty m s) = dhcp_ciaddr s" "dhcp_t1_due (dhcp_send ty m s) = dhcp_t1_due s"
  "dhcp_t2_due (dhcp_send ty m s) = dhcp_t2_due s" "dhcp_expire_due (dhcp_send ty m s) = dhcp_expire_due s"
  using tx_effect_dhcp [OF dhcp_send_effect(2)] tx_effect_core [OF dhcp_send_effect(2)] by blast+

lemma arp_resolve_dhcp [simp]:
  fixes s :: "'a dhcpst_scheme"
  shows "dhcp_state (snd (arp_resolve ip s)) = dhcp_state s" "dhcp_timed (snd (arp_resolve ip s)) = dhcp_timed s"
  "g_ip (snd (arp_resolve ip s)) = g_ip s" "dhcp_ciaddr (snd (arp_resolve ip s)) = dhcp_ciaddr s"
  "ticks (snd (arp_resolve ip s)) = ticks s" "dhcp_t1_due (snd (arp_resolve ip s)) = dhcp_t1_due s"
  "dhcp_t2_due (snd (arp_resolve ip s)) = dhcp_t2_due s" "dhcp_expire_due (snd (arp_resolve ip s)) = dhcp_expire_due s"
  using tx_effect_dhcp [OF arp_resolve_effect] tx_effect_core [OF arp_resolve_effect] by blast+

lemma dhcp_lease_expired_fields [simp]:
  "dhcp_state (dhcp_lease_expired s) = DHCP_WAIT_OFFER" "g_ip (dhcp_lease_expired s) = 0"
  "dhcp_last (dhcp_lease_expired s) = ticks s" "dhcp_wait (dhcp_lease_expired s) = 2"
  "ticks (dhcp_lease_expired s) = ticks s"
  by (simp_all add: dhcp_lease_expired_def)

lemma dhcp_rexid_fields [simp]:
  "dhcp_state (dhcp_rexid s) = dhcp_state s" "dhcp_timed (dhcp_rexid s) = dhcp_timed s" "g_ip (dhcp_rexid s) = g_ip s"
  "dhcp_ciaddr (dhcp_rexid s) = dhcp_ciaddr s" "ticks (dhcp_rexid s) = ticks s"
  "dhcp_t1_due (dhcp_rexid s) = dhcp_t1_due s" "dhcp_t2_due (dhcp_rexid s) = dhcp_t2_due s"
  "dhcp_expire_due (dhcp_rexid s) = dhcp_expire_due s"
  by (simp_all add: dhcp_rexid_def)

lemma dhcp_arm_lease_fields [simp]:
  "dhcp_state (dhcp_arm_lease l t1 t2 s) = dhcp_state s" "g_ip (dhcp_arm_lease l t1 t2 s) = g_ip s"
  "dhcp_ciaddr (dhcp_arm_lease l t1 t2 s) = dhcp_ciaddr s"
  by (simp_all add: dhcp_arm_lease_def Let_def)

lemma dhcp_start_inv: "dhcp_inv (dhcp_start s)"
  by (simp add: dhcp_inv_def dhcp_start_def Let_def dhcp_leased_def)

lemma dhcp_tick_lease_inv: "dhcp_inv s \<Longrightarrow> dhcp_inv (dhcp_tick_lease s)"
  by (auto simp: dhcp_inv_def dhcp_tick_lease_def Let_def dhcp_leased_def split: dhcp_state_t.splits)

lemma dhcp_tick_inv: "dhcp_inv s \<Longrightarrow> dhcp_inv (dhcp_tick s)"
  using dhcp_tick_lease_inv [of s]
  by (auto simp: dhcp_tick_def dhcp_tick_boot_def dhcp_inv_def dhcp_leased_def)

lemma dhcp_react_inv: "dhcp_inv s \<Longrightarrow> dhcp_inv (dhcp_react d o1 s)"
  unfolding dhcp_react_def dhcp_inv_def dhcp_leased_def Let_def by (simp split: if_splits)

lemma dhcp_handle_inv:
  assumes "dhcp_inv s" "dhcp_handle d n s = Some s'"
  shows "dhcp_inv s'"
proof -
  have "dhcp_inv (s\<lparr> dhcp_server := a, dhcp_mask := b, dhcp_gw := c, g_dns := e \<rparr>)" for a b c e
    using assms(1) by (simp add: dhcp_inv_def)
  then show ?thesis
    using assms by (auto simp: dhcp_handle_def split: if_splits option.splits intro!: dhcp_react_inv)
qed

text \<open>What one timer tick does to a bound client, in terms of the deadlines.\<close>

lemma dhcp_tick_bound:
  assumes "dhcp_state s = DHCP_BOUND"
  shows "tick_diff (ticks s) (dhcp_expire_due s) \<ge> 0 \<Longrightarrow>
      dhcp_state (dhcp_tick s) = DHCP_WAIT_OFFER \<and> g_ip (dhcp_tick s) = 0"
    "tick_diff (ticks s) (dhcp_expire_due s) < 0 \<Longrightarrow> tick_diff (ticks s) (dhcp_t1_due s) \<ge> 0 \<Longrightarrow>
      dhcp_state (dhcp_tick s) = DHCP_RENEWING \<and> g_ip (dhcp_tick s) = g_ip s"
    "tick_diff (ticks s) (dhcp_expire_due s) < 0 \<Longrightarrow> tick_diff (ticks s) (dhcp_t1_due s) < 0 \<Longrightarrow> dhcp_tick s = s"
  using assms by (simp_all add: dhcp_tick_def dhcp_tick_lease_def dhcp_tick_boot_def Let_def dhcp_retry_due_def)

text \<open>A run of the timer: every timer interrupt advances the clock by one and calls
  \<open>dhcp_tick\<close>, with no message from a server in between.\<close>

definition dhcp_timer_tick :: "'a dhcpst_scheme \<Rightarrow> 'a dhcpst_scheme" where
  "dhcp_timer_tick s = dhcp_tick (s\<lparr> ticks := ticks s + 1 \<rparr>)"

definition lease_phase :: "nat \<Rightarrow> nat \<Rightarrow> nat \<Rightarrow> dhcp_state_t" where
  "lease_phase r1 r2 d = (if d < r1 then DHCP_BOUND else if d < max r2 (r1 + 1) then DHCP_RENEWING else DHCP_REBINDING)"

text \<open>The client \<open>d\<close> ticks after a lease of \<open>L\<close> ticks was armed at \<open>t\<close>.\<close>

definition leased_at :: "u32 \<Rightarrow> u32 \<Rightarrow> nat \<Rightarrow> nat \<Rightarrow> nat \<Rightarrow> nat \<Rightarrow> 'a dhcpst_scheme \<Rightarrow> bool" where
  "leased_at t ip r1 r2 L d s \<longleftrightarrow> ticks s = t + of_nat d \<and> dhcp_t1_due s = t + of_nat r1 \<and>
     dhcp_t2_due s = t + of_nat r2 \<and> dhcp_expire_due s = t + of_nat L \<and> g_ip s = ip \<and>
     dhcp_state s = lease_phase r1 r2 d"

lemma leased_at_next:
  assumes "leased_at t ip r1 r2 L d s" "r1 \<le> r2" "r2 \<le> L" "L < 2147483648" "1 \<le> r1" "d < L"
  shows "if d + 1 < L then leased_at t ip r1 r2 L (d + 1) (dhcp_timer_tick s)
    else dhcp_state (dhcp_timer_tick s) = DHCP_WAIT_OFFER \<and> g_ip (dhcp_timer_tick s) = 0"
proof -
  let ?s = "s\<lparr> ticks := ticks s + 1 \<rparr>"
  note l = assms(1) [unfolded leased_at_def]
  have td: "tick_diff (t + of_nat d + 1) (t + of_nat r) = int (d + 1) - int r" if "r \<le> L" for r
    using tick_diff_add [of "d + 1" r t] that assms(4,6) by (simp add: add.assoc add.commute [of 1])
  have e: "tick_diff (t + of_nat d + 1) (t + of_nat L) = int (d + 1) - int L"
    "tick_diff (t + of_nat d + 1) (t + of_nat r1) = int (d + 1) - int r1"
    "tick_diff (t + of_nat d + 1) (t + of_nat r2) = int (d + 1) - int r2"
    using td assms(2,3) by simp_all
  have tk: "ticks ?s = t + of_nat d + 1" "dhcp_t1_due ?s = t + of_nat r1" "dhcp_t2_due ?s = t + of_nat r2"
    "dhcp_expire_due ?s = t + of_nat L" "g_ip ?s = ip" "dhcp_state ?s = lease_phase r1 r2 d" using l by simp_all
  show ?thesis
  proof (cases "d + 1 < L")
    case False
    have "dhcp_tick ?s = dhcp_tick_boot (dhcp_lease_expired ?s)"
      using False tk e(1) unfolding dhcp_tick_def dhcp_tick_lease_def Let_def lease_phase_def
      by (simp split: if_splits)
    then show ?thesis using False
      by (simp add: dhcp_timer_tick_def dhcp_tick_boot_def dhcp_retry_due_def)
  next
    case True
    consider (b) "d < r1" | (r) "\<not> d < r1" "d < max r2 (r1 + 1)" | (q) "\<not> d < r1" "\<not> d < max r2 (r1 + 1)" by blast
    then have "leased_at t ip r1 r2 L (d + 1) (dhcp_tick ?s)"
    proof cases
      case b
      then have "dhcp_state ?s = DHCP_BOUND" using tk(6) by (simp add: lease_phase_def)
      then show ?thesis using b True tk e assms(2,3)
        by (auto simp: leased_at_def lease_phase_def dhcp_tick_def dhcp_tick_lease_def dhcp_tick_boot_def Let_def add.assoc add.commute [of 1])
    next
      case r
      then have "dhcp_state ?s = DHCP_RENEWING" using tk(6) by (simp add: lease_phase_def)
      then show ?thesis using r True tk e assms(2,3)
        by (auto simp: leased_at_def lease_phase_def dhcp_tick_def dhcp_tick_lease_def dhcp_tick_boot_def Let_def add.assoc add.commute [of 1])
    next
      case q
      then have "dhcp_state ?s = DHCP_REBINDING" using tk(6) by (simp add: lease_phase_def)
      then show ?thesis using q True tk e assms(2,3)
        by (auto simp: leased_at_def lease_phase_def dhcp_tick_def dhcp_tick_lease_def dhcp_tick_boot_def Let_def add.assoc add.commute [of 1])
    qed
    then show ?thesis using True by (simp add: dhcp_timer_tick_def)
  qed
qed

lemma leased_at_run:
  assumes "leased_at t ip r1 r2 L 0 s" "1 \<le> r1" "r1 \<le> r2" "r2 \<le> L" "L < 2147483648"
  shows "d < L \<Longrightarrow> leased_at t ip r1 r2 L d ((dhcp_timer_tick ^^ d) s)"
proof (induction d)
  case (Suc d)
  then show ?case using leased_at_next [OF _ assms(3,4,5,2), of t ip d] by simp
qed (use assms(1) in simp)

lemma leased_at_end:
  assumes "leased_at t ip r1 r2 L 0 s" "1 \<le> r1" "r1 \<le> r2" "r2 \<le> L" "L < 2147483648"
  shows "dhcp_state ((dhcp_timer_tick ^^ L) s) = DHCP_WAIT_OFFER \<and> g_ip ((dhcp_timer_tick ^^ L) s) = 0"
proof -
  obtain k where k: "L = Suc k" using assms(2-4) by (cases L) auto
  have "leased_at t ip r1 r2 L k ((dhcp_timer_tick ^^ k) s)" using leased_at_run [OF assms, of k] k by simp
  then show ?thesis using leased_at_next [OF _ assms(3,4,5,2), of t ip k] k by simp
qed

text \<open>Property C33: the life of a lease that no server renews.  A client that is bound with a
  lease of \<open>L < 2^31\<close> ticks gets two deadlines T1 and T2 with \<open>1 \<le> T1 \<le> T2 \<le> L\<close>, whatever the
  server sent for them.  Along the run of timer interrupts that follows it is BOUND before T1,
  RENEWING from T1 until T2, REBINDING from T2 on (one tick after T1 when the two coincide),
  and has its address at every tick before \<open>L\<close>; exactly \<open>L\<close> ticks after the
  acknowledgement the address is gone and discovery has restarted.\<close>

theorem dhcp_lease_timeline:
  assumes "l \<noteq> 0" "L = unat (dhcp_secs_to_ticks l)" "L < 2147483648"
    "dhcp_state s = DHCP_BOUND" "s1 = dhcp_arm_lease l ta tb s"
  shows "\<exists>r1 r2. 1 \<le> r1 \<and> r1 \<le> r2 \<and> r2 \<le> L \<and>
    dhcp_t1_due s1 = ticks s + of_nat r1 \<and> dhcp_t2_due s1 = ticks s + of_nat r2 \<and>
    (\<forall>d < L. g_ip ((dhcp_timer_tick ^^ d) s1) = g_ip s \<and> dhcp_state ((dhcp_timer_tick ^^ d) s1) =
       (if d < r1 then DHCP_BOUND else if d < max r2 (r1 + 1) then DHCP_RENEWING else DHCP_REBINDING)) \<and>
    dhcp_state ((dhcp_timer_tick ^^ L) s1) = DHCP_WAIT_OFFER \<and> g_ip ((dhcp_timer_tick ^^ L) s1) = 0"
proof -
  obtain w1 w2 where w: "s1 = s\<lparr> dhcp_t1_due := ticks s + w1, dhcp_t2_due := ticks s + w2,
      dhcp_expire_due := ticks s + dhcp_secs_to_ticks l, dhcp_timed := True \<rparr>"
    "1 \<le> w1" "w1 \<le> w2" "w2 \<le> dhcp_secs_to_ticks l"
    using dhcp_arm_lease_order [OF assms(1), of ta tb s] assms(5) by auto
  define R1 R2 where "R1 = unat w1" and "R2 = unat w2"
  have n: "1 \<le> R1" "R1 \<le> R2" "R2 \<le> L"
    using w(2-4) by (simp_all add: assms(2) R1_def R2_def word_le_nat_alt)
  have i: "leased_at (ticks s) (g_ip s) R1 R2 L 0 s1"
    using n(1) assms(2,4) by (simp add: leased_at_def w(1) lease_phase_def R1_def R2_def)
  have due: "dhcp_t1_due s1 = ticks s + of_nat R1" "dhcp_t2_due s1 = ticks s + of_nat R2"
    using i by (simp_all add: leased_at_def)
  have run: "g_ip ((dhcp_timer_tick ^^ d) s1) = g_ip s \<and> dhcp_state ((dhcp_timer_tick ^^ d) s1) = lease_phase R1 R2 d"
    if "d < L" for d using leased_at_run [OF i n assms(3) that] by (simp add: leased_at_def)
  show ?thesis
    by (intro exI [of _ R1] exI [of _ R2] conjI allI impI n due)
      (simp_all add: run leased_at_end [OF i n assms(3)] lease_phase_def [symmetric])
qed

text \<open>A long lease is lost at once.  For every lease above 21474836 seconds,
  in particular the value 0xffffffff that RFC 2131 defines as an infinite lease, the
  deadline lies \<open>2^31\<close> ticks or more ahead, the signed comparison reads it as past, and the
  first timer tick after the acknowledgement clears the address and restarts discovery.\<close>

theorem dhcp_long_lease_expires_at_once:
  assumes "l > 21474836" "dhcp_state s = DHCP_BOUND"
  shows "g_ip (dhcp_tick (dhcp_arm_lease l t1 t2 s)) = 0 \<and>
    dhcp_state (dhcp_tick (dhcp_arm_lease l t1 t2 s)) = DHCP_WAIT_OFFER"
proof -
  let ?lt = "dhcp_secs_to_ticks l" and ?s = "dhcp_arm_lease l t1 t2 s"
  have l: "unat l > 21474836" using assms(1) by (simp add: word_less_nat_alt)
  define L where "L = unat ?lt"
  have lt: "2147483648 < L" "L < 4294967296"
    using l unat_dhcp_secs_to_ticks [of l] unat_u32_lt [of ?lt] by (simp_all add: L_def)
  have ln: "?lt = of_nat L" by (simp add: L_def)
  have nz: "l \<noteq> 0" using l by auto
  have s: "dhcp_expire_due ?s = ticks s + ?lt" "ticks ?s = ticks s" "dhcp_state ?s = DHCP_BOUND"
    using dhcp_arm_lease_order [OF nz, of t1 t2 s] assms(2) by auto
  have "ticks s - (ticks s + ?lt) = - (of_nat L :: u32)" by (simp add: ln)
  also have "\<dots> = word_of_int (4294967296 - int L)" by simp
  finally have "tick_diff (ticks ?s) (dhcp_expire_due ?s) = 4294967296 - int L"
    unfolding tick_diff_def s using lt by (simp only:) (rule sint_u32_of_int; simp)
  then show ?thesis using dhcp_tick_bound(1) [OF s(3)] lt by simp
qed

text \<open>The client as a transition system: a message from the network, a timer tick, and the
  passing of time.\<close>

inductive dhcp_step :: "'a dhcpst_scheme \<Rightarrow> 'a dhcpst_scheme \<Rightarrow> bool" where
  dhcp_recv: "dhcp_handle d n s = Some s' \<Longrightarrow> dhcp_step s s'"
| dhcp_timer: "dhcp_step s (dhcp_tick s)"
| dhcp_clock: "dhcp_step s (s\<lparr> ticks := t \<rparr>)"

inductive_cases dhcp_stepE: "dhcp_step s s'"

lemma dhcp_step_inv: "dhcp_step s s' \<Longrightarrow> dhcp_inv s \<Longrightarrow> dhcp_inv s'"
  by (erule dhcp_stepE) (auto intro: dhcp_handle_inv dhcp_tick_inv, simp add: dhcp_inv_def)

text \<open>In every state the client can reach from \<open>dhcp_start\<close>, whatever messages
  arrive and however time passes, BOUND, RENEWING and REBINDING have their deadlines armed
  and the interface address is the one the renewal request carries.\<close>

theorem dhcp_reachable_leased:
  assumes "dhcp_step\<^sup>*\<^sup>* (dhcp_start s0) s" "dhcp_state s \<in> {DHCP_BOUND, DHCP_RENEWING, DHCP_REBINDING}"
  shows "dhcp_timed s \<and> g_ip s = dhcp_ciaddr s"
proof -
  from assms(1) have "dhcp_inv s"
    by (induction rule: rtranclp_induct) (auto intro: dhcp_start_inv dhcp_step_inv)
  then show ?thesis using assms(2) unfolding dhcp_inv_def dhcp_leased_def by blast
qed

section \<open>Concrete states\<close>

definition dhcp_boot :: dhcpst where
  "dhcp_boot = arpst.extend arp_boot (dhcpst.fields 0 0 0 0 0 0 0 0 DHCP_OFF 0 0 0 0 False)"

definition dhcp_ack_msg :: "u8 \<Rightarrow> bytes" where
  "dhcp_ack_msg mt = [2, 1, 6, 0] @ le32 (hton32 0x12340000) @ replicate 8 0 @ [10, 0, 2, 15] @ replicate 8 0
     @ [2, 0, 0, 0, 0, 1] @ replicate 202 0 @ [99, 130, 83, 99, 53, 1, mt, 51, 4, 0, 1, 0, 0, 255]"

theorem dhcp_lease_timeline_witness:
  "dhcp_state ((dhcp_timer_tick ^^ 6000) (dhcp_arm_lease 60 0 0 (dhcp_boot\<lparr> dhcp_state := DHCP_BOUND \<rparr>))) = DHCP_WAIT_OFFER"
proof -
  have l: "(60 :: u32) \<noteq> 0" "6000 = unat (dhcp_secs_to_ticks 60)" "(6000 :: nat) < 2147483648"
    by (simp_all add: dhcp_secs_to_ticks_def)
  have d: "dhcp_state (dhcp_boot\<lparr> dhcp_state := DHCP_BOUND \<rparr>) = DHCP_BOUND" by simp
  show ?thesis
    using dhcp_lease_timeline [OF l d refl, where ta = 0 and tb = 0] by blast
qed

theorem dhcp_long_lease_witness:
  "g_ip (dhcp_tick (dhcp_arm_lease 0xFFFFFFFF 0 0 (dhcp_boot\<lparr> dhcp_state := DHCP_BOUND, g_ip := 0x0F02000A \<rparr>))) = 0"
  using dhcp_long_lease_expires_at_once [of "0xFFFFFFFF" "dhcp_boot\<lparr> dhcp_state := DHCP_BOUND, g_ip := 0x0F02000A \<rparr>" 0 0]
  by simp

theorem dhcp_reachable_leased_witness:
  "\<exists>s. dhcp_step\<^sup>*\<^sup>* (dhcp_start dhcp_boot) s \<and> dhcp_state s = DHCP_BOUND \<and> dhcp_timed s \<and> g_ip s = dhcp_ciaddr s"
proof -
  have "case dhcp_handle (dhcp_ack_msg 2) 256 (dhcp_start dhcp_boot) of None \<Rightarrow> False
     | Some s1 \<Rightarrow> (case dhcp_handle (dhcp_ack_msg 5) 256 s1 of None \<Rightarrow> False | Some s2 \<Rightarrow> dhcp_state s2 = DHCP_BOUND)"
    by code_simp
  then obtain s1 s2 where s12: "dhcp_handle (dhcp_ack_msg 2) 256 (dhcp_start dhcp_boot) = Some s1"
    "dhcp_handle (dhcp_ack_msg 5) 256 s1 = Some s2" "dhcp_state s2 = DHCP_BOUND"
    by (auto split: option.splits)
  have r: "dhcp_step\<^sup>*\<^sup>* (dhcp_start dhcp_boot) s2"
    using dhcp_recv [OF s12(1)] dhcp_recv [OF s12(2)] by auto
  show ?thesis using r s12(3) dhcp_reachable_leased [OF r] by auto
qed

end
