(* ===== verification/Fifo.thy ===== *)
theory Fifo
  imports CatPrelude
begin

text \<open>
  The interface of a bounded first-in first-out queue and what follows from it for any
  sequence of operations.  The receive queue of a UDP socket and the keyboard ring
  provide it.
\<close>

text \<open>The contract of a bounded queue: \<open>push\<close> appends or refuses, \<open>pop\<close> takes the
  oldest element.\<close>

locale bounded_fifo =
  fixes inv :: "'s \<Rightarrow> bool" and abs :: "'s \<Rightarrow> 'a list"
    and push :: "'a \<Rightarrow> 's \<Rightarrow> 's option" and pop :: "'s \<Rightarrow> ('a \<times> 's) option"
  assumes push_inv: "inv s \<Longrightarrow> push x s = Some s' \<Longrightarrow> inv s'"
    and push_abs: "inv s \<Longrightarrow> push x s = Some s' \<Longrightarrow> abs s' = abs s @ [x]"
    and pop_inv: "inv s \<Longrightarrow> pop s = Some (x, s') \<Longrightarrow> inv s'"
    and pop_abs: "inv s \<Longrightarrow> pop s = Some (x, s') \<Longrightarrow> abs s = x # abs s'"
    and pop_None: "inv s \<Longrightarrow> pop s = None \<longleftrightarrow> abs s = []"
begin

text \<open>Pushing a sequence, dropping what is refused; popping everything.\<close>

fun pushes :: "'a list \<Rightarrow> 's \<Rightarrow> 'a list \<times> 's" where
  "pushes [] s = ([], s)"
| "pushes (x # xs) s =
    (case push x s of
       None \<Rightarrow> pushes xs s
     | Some s' \<Rightarrow> (let (ys, t) = pushes xs s' in (x # ys, t)))"

fun pops :: "nat \<Rightarrow> 's \<Rightarrow> 'a list \<times> 's" where
  "pops 0 s = ([], s)"
| "pops (Suc k) s =
    (case pop s of None \<Rightarrow> ([], s) | Some (x, s') \<Rightarrow> (let (ys, t) = pops k s' in (x # ys, t)))"

lemma pushes_spec: "inv s \<Longrightarrow> inv (snd (pushes xs s)) \<and> abs (snd (pushes xs s)) = abs s @ fst (pushes xs s)"
proof (induction xs arbitrary: s)
  case (Cons x xs)
  show ?case
  proof (cases "push x s")
    case (Some s')
    then show ?thesis
      using Cons.IH [of s'] push_inv [OF Cons.prems Some] push_abs [OF Cons.prems Some]
      by (simp add: split_beta Let_def)
  qed (use Cons in simp)
qed simp

lemma pops_spec: "inv s \<Longrightarrow> fst (pops k s) = take k (abs s) \<and> abs (snd (pops k s)) = drop k (abs s) \<and> inv (snd (pops k s))"
proof (induction k arbitrary: s)
  case (Suc k)
  show ?case
  proof (cases "pop s")
    case None
    then show ?thesis using pop_None [OF Suc.prems] Suc.prems by simp
  next
    case (Some p)
    obtain x s' where p: "p = (x, s')" by (cases p)
    then show ?thesis
      using Suc.IH [of s'] pop_inv [OF Suc.prems, of x s'] pop_abs [OF Suc.prems, of x s'] Some
      by (simp add: split_beta Let_def)
  qed
qed simp

lemma fifo: "inv s \<Longrightarrow> length (abs s) + length xs \<le> k \<Longrightarrow>
    fst (pops k (snd (pushes xs s))) = abs s @ fst (pushes xs s)"
proof -
  assume inv: "inv s" and k: "length (abs s) + length xs \<le> k"
  have "length (fst (pushes xs t)) \<le> length xs" for t
    by (induction xs arbitrary: t) (auto simp: split_beta Let_def le_SucI split: option.splits)
  then have "length (fst (pushes xs s)) \<le> length xs" .
  then show ?thesis using pops_spec [of "snd (pushes xs s)" k] pushes_spec [OF inv, of xs] k by simp
qed

end

end
