(* ===== verification/Udp.thy ===== *)
theory Udp
  imports Dhcp Fifo
begin

text \<open>
  UDP reception and sockets, \<^verbatim>\<open>src/net/net_udp.c\<close>, with the socket handle type of
  \<^verbatim>\<open>src/net/net.h\<close>.  A socket's receive buffer is a linear queue of records
  \<open>[length][source][port]payload\<close>.  A received segment is the memory that starts at
  the UDP header together with the segment length the IP layer computed;
  \<open>udp_handle\<close> yields \<open>None\<close> when the code would read past that memory or write
  past the socket buffer.
\<close>

section \<open>State\<close>

abbreviation (input) UDP_SLOTS :: nat where "UDP_SLOTS \<equiv> 8"
abbreviation (input) UDP_RXBUF :: nat where "UDP_RXBUF \<equiv> 2048"
abbreviation (input) NET_POLLIN :: "16 word" where "NET_POLLIN \<equiv> 0x001"
abbreviation (input) NET_POLLOUT :: "16 word" where "NET_POLLOUT \<equiv> 0x004"
abbreviation (input) NET_POLLERR :: "16 word" where "NET_POLLERR \<equiv> 0x008"
abbreviation (input) NET_POLLHUP :: "16 word" where "NET_POLLHUP \<equiv> 0x010"
abbreviation (input) NET_POLLNVAL :: "16 word" where "NET_POLLNVAL \<equiv> 0x020"

datatype sock_type = SOCK_CLOSED | SOCK_UDP | SOCK_TCP_LISTEN | SOCK_TCP_ESTAB
  | SOCK_UDP_UNBOUND | SOCK_TCP_UNBOUND

text \<open>A handle; the union's two members are separate fields, \<open>so_conn\<close> is an index
  into the connection table.\<close>

record socket =
  so_type :: sock_type
  so_lport :: u16
  so_slot :: nat
  so_owned :: bool
  so_conn :: "nat option"

record udp_sock =
  us_used :: bool
  us_bound :: bool
  us_owned :: bool
  us_lport :: u16
  us_rxb :: bytes
  us_head :: u32
  us_n :: u32

record udpst = dhcpst +
  udp_socks :: "udp_sock list"
  udp_handles :: "socket list"

section \<open>Operations\<close>

definition udp_sock_by_port :: "u16 \<Rightarrow> 'a udpst_scheme \<Rightarrow> nat option" where
  "udp_sock_by_port port s =
     find_idx (\<lambda>u. us_used u \<and> us_bound u \<and> us_lport u = port) (udp_socks s)"

definition udp_sock_find_free :: "'a udpst_scheme \<Rightarrow> nat option" where
  "udp_sock_find_free s = find_idx (\<lambda>u. \<not> us_used u) (udp_socks s)"

definition be16 :: "u16 \<Rightarrow> bytes" where
  "be16 v = rev (le16 v)"

definition be32 :: "u32 \<Rightarrow> bytes" where
  "be32 v = rev (le32 v)"

definition rd_be16 :: "bytes \<Rightarrow> nat \<Rightarrow> u16" where
  "rd_be16 b i = (push_bit 8 (ucast (byte_at b i)) OR ucast (byte_at b (i + 1)))"

definition rd_be32 :: "bytes \<Rightarrow> nat \<Rightarrow> u32" where
  "rd_be32 b i = (push_bit 24 (ucast (byte_at b i)) OR push_bit 16 (ucast (byte_at b (i + 1)))
     OR push_bit 8 (ucast (byte_at b (i + 2))) OR ucast (byte_at b (i + 3)))"

text \<open>The record written at the head of the buffer; \<open>None\<close> when a copy leaves the
  source memory or the buffer.\<close>

definition udp_enqueue :: "u32 \<Rightarrow> u16 \<Rightarrow> bytes \<Rightarrow> u32 \<Rightarrow> udp_sock \<Rightarrow> udp_sock option" where
  "udp_enqueue src_ip sport data dlen u =
    (if length data < unat dlen \<or> length (us_rxb u) < unat (us_head u) + 10 + unat dlen then None
     else Some (u\<lparr> us_rxb := memcpy_u (us_rxb u) (unat (us_head u))
                     (be32 dlen @ le32 src_ip @ be16 sport @ take (unat dlen) data),
                   us_head := us_head u + (4 + 4 + 2 + dlen), us_n := us_n u + (4 + 4 + 2 + dlen) \<rparr>))"

text \<open>The part of the handler behind the header: \<open>data\<close> is the memory after it.\<close>

definition udp_deliver ::
  "u16 \<Rightarrow> u16 \<Rightarrow> bytes \<Rightarrow> u32 \<Rightarrow> u32 \<Rightarrow> 'a udpst_scheme \<Rightarrow> 'a udpst_scheme option" where
  "udp_deliver dport sport data dlen src_ip s =
    (if dport = 68 \<and> sport = 67 then dhcp_handle data (unat dlen) s
     else case udp_sock_by_port dport s of
       None \<Rightarrow> Some (NETSTAT_INC udp_no_listener_update s)
     | Some i \<Rightarrow>
        (if dport = 7 \<and> length data < unat dlen then None
         else (let s1 = (if dport = 7 then snd (udp_send src_ip sport 7 (take (unat dlen) data) s) else s);
                   u = udp_socks s1 ! i in
           if us_n u + 4 + 4 + 2 + dlen \<le> of_nat UDP_RXBUF then
             (case udp_enqueue src_ip sport data dlen u of
                None \<Rightarrow> None
              | Some u' \<Rightarrow> Some (s1\<lparr> udp_socks := (udp_socks s1)[i := u'] \<rparr>))
           else Some (NETSTAT_INC rx_drop_full_update s1))))"

definition udp_handle :: "bytes \<Rightarrow> u32 \<Rightarrow> u32 \<Rightarrow> 'a udpst_scheme \<Rightarrow> 'a udpst_scheme option" where
  "udp_handle seg seglen src_ip s =
    (if seglen < 8 then Some s
     else if length seg < 8 then None
     else (let dport = ntoh16 (rd16 seg 2); sport = ntoh16 (rd16 seg 0);
               plen0 = ucast (ntoh16 (rd16 seg 4)) :: u32;
               plen = (if plen0 > seglen then seglen else plen0) in
       udp_deliver dport sport (drop 8 seg) (plen - 8) src_ip s))"

text \<open>The index of the handle, \<open>None\<close> for NULL.\<close>

definition udp_open :: "u16 \<Rightarrow> 'a udpst_scheme \<Rightarrow> nat option \<times> 'a udpst_scheme" where
  "udp_open lport s =
    (case udp_sock_find_free s of
       None \<Rightarrow> (None, s)
     | Some i \<Rightarrow> (Some i, s\<lparr>
         udp_socks := (udp_socks s)[i := (udp_socks s ! i)\<lparr> us_used := True, us_bound := True,
            us_owned := False, us_lport := lport, us_head := 0, us_n := 0 \<rparr>],
         udp_handles := (udp_handles s)[i := (udp_handles s ! i)\<lparr> so_type := SOCK_UDP, so_lport := lport,
            so_slot := i, so_owned := False \<rparr>] \<rparr>))"

definition udp_sendto ::
  "socket \<Rightarrow> u32 \<Rightarrow> u16 \<Rightarrow> bytes \<Rightarrow> 'a udpst_scheme \<Rightarrow> int \<times> 'a udpst_scheme" where
  "udp_sendto h dst_ip dst_port data s =
    (if so_type h \<noteq> SOCK_UDP then (-1, s)
     else if length data > 1472 then (-1, s)
     else (case udp_send dst_ip dst_port (so_lport h) data s of (ok, s') \<Rightarrow> (if ok then 0 else -1, s')))"

text \<open>One record taken from the front of the buffer: source, port, payload cut to
  \<open>max_len\<close>, and the socket with the rest moved to the front.\<close>

definition udp_dequeue :: "nat \<Rightarrow> udp_sock \<Rightarrow> (u32 \<times> u16 \<times> bytes) \<times> udp_sock" where
  "udp_dequeue max_len u =
    (let r = us_rxb u; dlen = rd_be32 r 0; total = 4 + 4 + 2 + dlen;
         m = (if unat dlen > max_len then max_len else unat dlen);
         n' = us_n u - total
     in ((rd32 r 4, rd_be16 r 8, take m (drop 10 r)),
         u\<lparr> us_n := n',
            us_rxb := (if n' > 0 then memcpy_u r 0 (take (unat n') (drop (unat total) r)) else r),
            us_head := n' \<rparr>))"

definition udp_recvfrom ::
  "socket \<Rightarrow> nat \<Rightarrow> 'a udpst_scheme \<Rightarrow> (u32 \<times> u16 \<times> bytes) option \<times> 'a udpst_scheme" where
  "udp_recvfrom h max_len s =
    (if so_type h \<noteq> SOCK_UDP then (None, s)
     else (case (if so_owned h \<and> so_slot h < UDP_SLOTS then Some (so_slot h) else udp_sock_by_port (so_lport h) s) of
       None \<Rightarrow> (None, s)
     | Some i \<Rightarrow>
        (if us_n (udp_socks s ! i) = 0 then (None, s)
         else (case udp_dequeue max_len (udp_socks s ! i) of
           (p, u') \<Rightarrow> (Some p, s\<lparr> udp_socks := (udp_socks s)[i := u'] \<rparr>)))))"

definition udp_socket_poll :: "socket \<Rightarrow> u16 \<Rightarrow> 'a udpst_scheme \<Rightarrow> u16" where
  "udp_socket_poll h events s =
    (if so_type h \<noteq> SOCK_UDP \<and> so_type h \<noteq> SOCK_UDP_UNBOUND then NET_POLLNVAL
     else if so_type h = SOCK_UDP_UNBOUND then 0
     else (case (if so_slot h < UDP_SLOTS \<and> us_used (udp_socks s ! so_slot h) then Some (so_slot h)
                 else udp_sock_by_port (so_lport h) s) of
       None \<Rightarrow> NET_POLLERR OR NET_POLLHUP
     | Some i \<Rightarrow> (if events AND NET_POLLIN \<noteq> 0 \<and> us_n (udp_socks s ! i) \<noteq> 0 then NET_POLLIN else 0)
         OR (if events AND NET_POLLOUT \<noteq> 0 then NET_POLLOUT else 0)))"

section \<open>The receive queue as a queue of datagrams\<close>

type_synonym datagram = "u32 \<times> u16 \<times> bytes"

definition dg_enc :: "datagram \<Rightarrow> bytes" where
  "dg_enc p = (case p of (ip, port, d) \<Rightarrow> be32 (of_nat (length d)) @ le32 ip @ be16 port @ d)"

function dg_decode :: "bytes \<Rightarrow> datagram list" where
  "dg_decode b =
    (if length b < 10 then []
     else (rd32 b 4, rd_be16 b 8, take (unat (rd_be32 b 0)) (drop 10 b))
            # dg_decode (drop (10 + unat (rd_be32 b 0)) b))"
  by pat_completeness auto
termination by (relation "measure length") auto

declare dg_decode.simps [simp del]

definition dg_ok :: "datagram \<Rightarrow> bool" where
  "dg_ok p \<longleftrightarrow> length (snd (snd p)) \<le> 65527"

definition uq_inv :: "udp_sock \<Rightarrow> bool" where
  "uq_inv u \<longleftrightarrow> length (us_rxb u) = UDP_RXBUF \<and> us_head u = us_n u \<and> unat (us_n u) \<le> UDP_RXBUF \<and>
     (\<exists>q. list_all dg_ok q \<and> take (unat (us_n u)) (us_rxb u) = concat (map dg_enc q))"

definition uq_abs :: "udp_sock \<Rightarrow> datagram list" where
  "uq_abs u = dg_decode (take (unat (us_n u)) (us_rxb u))"

lemma length_be [simp]: "length (be32 v) = 4" "length (be16 w) = 2"
  by (simp_all add: be32_def be16_def)

lemma rd_be32_be32 [simp]: "rd_be32 (be32 v @ r) 0 = v"
  using join32 [of v] by (simp add: rd_be32_def be32_def le32_def byte_at_def or.assoc or.commute or.left_commute)

lemma rd_be16_be16 [simp]: "rd_be16 (be16 v @ r) 0 = v"
  using join16 [of v] by (simp add: rd_be16_def be16_def le16_def byte_at_def or.commute)

lemma rd_shift:
  "length a = k \<Longrightarrow> rd32 (a @ b) (k + i) = rd32 b i" "length a = k \<Longrightarrow> rd_be16 (a @ b) (k + i) = rd_be16 b i"
  by (simp_all add: rd32_def rd_be16_def)

lemma dg_fields:
  "rd_be32 (dg_enc (ip, port, d) @ r) 0 = of_nat (length d)"
  "rd32 (dg_enc (ip, port, d) @ r) 4 = ip" "rd_be16 (dg_enc (ip, port, d) @ r) 8 = port"
  "drop 10 (dg_enc (ip, port, d) @ r) = d @ r" "length (dg_enc (ip, port, d)) = 10 + length d"
  using rd_shift(1) [of "be32 (of_nat (length d))" 4 "le32 ip @ be16 port @ d @ r" 0]
    rd_shift(2) [of "be32 (of_nat (length d)) @ le32 ip" 8 "be16 port @ d @ r" 0]
  by (simp_all add: dg_enc_def)

lemma unat_dg_len: "dg_ok (ip, port, d) \<Longrightarrow> unat (of_nat (length d) :: u32) = length d"
  by (simp add: dg_ok_def unat_of_nat)

lemma dg_decode_concat: "list_all dg_ok q \<Longrightarrow> dg_decode (concat (map dg_enc q)) = q"
proof (induction q)
  case Nil
  then show ?case by (simp add: dg_decode.simps)
next
  case (Cons p q)
  obtain ip port d where p: "p = (ip, port, d)" by (cases p)
  have ok: "dg_ok (ip, port, d)" using Cons.prems p by simp
  let ?r = "concat (map dg_enc q)"
  have "drop (10 + length d) (dg_enc (ip, port, d) @ ?r) = ?r"
    using dg_fields(5) [of ip port d] by simp
  then show ?case
    using Cons p dg_fields(1-4) [of ip port d ?r] dg_fields(5) [of ip port d] unat_dg_len [OF ok]
    by (subst dg_decode.simps) simp
qed

lemma uq_abs_eq: "list_all dg_ok q \<Longrightarrow> take (unat (us_n u)) (us_rxb u) = concat (map dg_enc q) \<Longrightarrow> uq_abs u = q"
  by (simp add: uq_abs_def dg_decode_concat)

text \<open>The queue operations as \<open>udp_handle\<close> and \<open>udp_recvfrom\<close> perform them: the room
  test before the enqueue, the emptiness test before the dequeue, and a caller's buffer that
  holds any record.\<close>

definition uq_push :: "datagram \<Rightarrow> udp_sock \<Rightarrow> udp_sock option" where
  "uq_push p u = (case p of (ip, port, d) \<Rightarrow>
     if length d \<le> 65527 \<and> us_n u + 4 + 4 + 2 + of_nat (length d) \<le> of_nat UDP_RXBUF
     then udp_enqueue ip port d (of_nat (length d)) u else None)"

definition uq_pop :: "udp_sock \<Rightarrow> (datagram \<times> udp_sock) option" where
  "uq_pop u = (if us_n u = 0 then None else Some (udp_dequeue UDP_RXBUF u))"

lemma uq_room:
  assumes "unat (us_n u) \<le> UDP_RXBUF" "dg_ok (ip, port, d)"
  shows "us_n u + 4 + 4 + 2 + of_nat (length d) \<le> of_nat UDP_RXBUF \<longleftrightarrow> unat (us_n u) + 10 + length d \<le> UDP_RXBUF"
    and "unat (us_n u + (4 + 4 + 2 + of_nat (length d))) = unat (us_n u) + 10 + length d"
proof -
  have d: "unat (of_nat (length d) :: u32) = length d" "length d \<le> 65527"
    using assms(2) by (auto simp: unat_dg_len dg_ok_def)
  have e: "us_n u + 4 + 4 + 2 + of_nat (length d) = us_n u + (4 + 4 + 2 + of_nat (length d))" by simp
  show n: "unat (us_n u + (4 + 4 + 2 + of_nat (length d))) = unat (us_n u) + 10 + length d"
    using assms(1) d by (simp add: unat_word_ariths)
  show "us_n u + 4 + 4 + 2 + of_nat (length d) \<le> of_nat UDP_RXBUF \<longleftrightarrow> unat (us_n u) + 10 + length d \<le> UDP_RXBUF"
    unfolding e word_le_nat_alt n by simp
qed

lemma uq_push_spec:
  assumes inv: "uq_inv u" and push: "uq_push p u = Some u'"
  shows "uq_inv u' \<and> uq_abs u' = uq_abs u @ [p]"
proof -
  obtain ip port d where p: "p = (ip, port, d)" by (cases p)
  obtain q where q: "list_all dg_ok q" "take (unat (us_n u)) (us_rxb u) = concat (map dg_enc q)"
    and u: "length (us_rxb u) = UDP_RXBUF" "us_head u = us_n u" "unat (us_n u) \<le> UDP_RXBUF"
    using inv by (auto simp: uq_inv_def)
  have ok: "dg_ok (ip, port, d)" and room: "us_n u + 4 + 4 + 2 + of_nat (length d) \<le> of_nat UDP_RXBUF"
    and e: "udp_enqueue ip port d (of_nat (length d)) u = Some u'"
    using push p by (auto simp: uq_push_def dg_ok_def split: if_splits)
  have fits: "unat (us_n u) + 10 + length d \<le> UDP_RXBUF" using room uq_room(1) [OF u(3) ok] by blast
  let ?n' = "us_n u + (4 + 4 + 2 + of_nat (length d))"
  have u': "us_rxb u' = memcpy_u (us_rxb u) (unat (us_n u)) (dg_enc p)" "us_head u' = ?n'" "us_n u' = ?n'"
    using e u(2) p unat_dg_len [OF ok] by (auto simp: udp_enqueue_def dg_enc_def split: if_splits)
  have n': "unat ?n' = unat (us_n u) + 10 + length d" by (rule uq_room(2) [OF u(3) ok])
  have le: "length (dg_enc p) = 10 + length d" using dg_fields(5) p by simp
  have "take (unat ?n') (us_rxb u') = take (unat (us_n u)) (us_rxb u) @ dg_enc p"
    unfolding n' u' memcpy_u_def using u le fits by simp
  also have "\<dots> = concat (map dg_enc (q @ [p]))" using q by simp
  finally have t: "take (unat (us_n u')) (us_rxb u') = concat (map dg_enc (q @ [p]))" using u' by simp
  moreover have "list_all dg_ok (q @ [p])" using q ok p by simp
  moreover have "length (us_rxb u') = UDP_RXBUF" using u' u fits le by simp
  ultimately have "uq_inv u'" unfolding uq_inv_def using u' n' fits by (intro conjI exI [of _ "q @ [p]"]) simp_all
  moreover have "uq_abs u' = q @ [p]" using t q ok p by (intro uq_abs_eq) simp_all
  ultimately show ?thesis using uq_abs_eq [OF q] by simp
qed

lemma uq_pop_spec:
  assumes inv: "uq_inv u" and pop: "uq_pop u = Some (p, u')"
  shows "uq_inv u' \<and> uq_abs u = p # uq_abs u'"
proof -
  obtain q where q: "list_all dg_ok q" "take (unat (us_n u)) (us_rxb u) = concat (map dg_enc q)"
    and u: "length (us_rxb u) = UDP_RXBUF" "us_head u = us_n u" "unat (us_n u) \<le> UDP_RXBUF"
    using inv by (auto simp: uq_inv_def)
  have nz: "us_n u \<noteq> 0" and de: "udp_dequeue UDP_RXBUF u = (p, u')"
    using pop by (auto simp: uq_pop_def split: if_splits)
  have "unat (us_n u) \<noteq> 0" using nz by (simp add: unat_eq_zero)
  then have "take (unat (us_n u)) (us_rxb u) \<noteq> []" using u by auto
  then obtain p0 q' where qq: "q = p0 # q'" using q by (cases q) auto
  obtain ip port d where p0: "p0 = (ip, port, d)" by (cases p0)
  have ok: "dg_ok (ip, port, d)" using q qq p0 by simp
  let ?r = "concat (map dg_enc q')" and ?x = "us_rxb u" and ?n = "unat (us_n u)"
  have x: "?x = dg_enc (ip, port, d) @ ?r @ drop ?n ?x"
    using q qq p0 by (metis append_take_drop_id append.assoc concat.simps(2) list.map(2))
  have len: "?n = 10 + length d + length ?r"
  proof -
    have "?n = length (take ?n ?x)" using u by simp
    also have "\<dots> = 10 + length d + length ?r" unfolding q(2) qq p0 using dg_fields(5) [of ip port d] by simp
    finally show ?thesis .
  qed
  have f: "rd_be32 ?x 0 = of_nat (length d)" "rd32 ?x 4 = ip" "rd_be16 ?x 8 = port"
    "drop 10 ?x = d @ ?r @ drop ?n ?x"
    by (subst x, rule dg_fields)+
  have dl: "unat (of_nat (length d) :: u32) = length d" by (rule unat_dg_len [OF ok])
  have tot: "unat (4 + 4 + 2 + of_nat (length d) :: u32) = 10 + length d"
    using dl ok by (simp add: unat_word_ariths dg_ok_def)
  let ?n' = "us_n u - (4 + 4 + 2 + of_nat (length d))"
  have n': "unat ?n' = length ?r"
    using tot len by (subst unat_sub) (simp_all add: word_le_nat_alt)
  have dr: "drop (10 + length d) ?x = ?r @ drop ?n ?x"
    using f(4) by (metis add.commute append_eq_conv_conj drop_drop)
  have pp: "p = (ip, port, d)"
    using de u len dl f by (auto simp: udp_dequeue_def Let_def)
  have u': "us_n u' = ?n'" "us_head u' = ?n'"
    "us_rxb u' = (if ?n' > 0 then memcpy_u ?x 0 (take (length ?r) (drop (10 + length d) ?x)) else ?x)"
    using de f(1) tot n' by (auto simp: udp_dequeue_def Let_def)
  have "?n' > 0 \<longleftrightarrow> ?r \<noteq> []" using n' by (metis length_0_conv unat_eq_zero word_greater_zero_iff)
  then have t: "take (unat (us_n u')) (us_rxb u') = ?r"
    unfolding u' n' using dr by (cases "?r = []") (simp_all add: memcpy_u_def del: concat_eq_Nil_conv)
  have "length (us_rxb u') = UDP_RXBUF" using u' u len dr by (simp add: memcpy_u_def)
  then have "uq_inv u'" using u' t n' len u q qq unfolding uq_inv_def by auto
  moreover have "uq_abs u' = q'" using t q qq by (intro uq_abs_eq) simp_all
  moreover have "uq_abs u = q" using q by (intro uq_abs_eq) simp_all
  ultimately show ?thesis using qq p0 pp by simp
qed

lemma uq_pop_None: "uq_inv u \<Longrightarrow> uq_pop u = None \<longleftrightarrow> uq_abs u = []"
proof -
  assume inv: "uq_inv u"
  show ?thesis
  proof (cases "us_n u = 0")
    case True
    then show ?thesis by (simp add: uq_pop_def uq_abs_def dg_decode.simps)
  next
    case False
    then obtain p u' where "uq_pop u = Some (p, u')" by (cases "udp_dequeue UDP_RXBUF u") (simp add: uq_pop_def)
    then show ?thesis using uq_pop_spec [OF inv] by auto
  qed
qed

interpretation uq: bounded_fifo uq_inv uq_abs uq_push uq_pop
proof
  show "uq_inv s \<Longrightarrow> uq_push x s = Some s' \<Longrightarrow> uq_inv s'" for s x s' using uq_push_spec by blast
  show "uq_inv s \<Longrightarrow> uq_push x s = Some s' \<Longrightarrow> uq_abs s' = uq_abs s @ [x]" for s x s' using uq_push_spec by blast
  show "uq_inv s \<Longrightarrow> uq_pop s = Some (x, s') \<Longrightarrow> uq_inv s'" for s x s' using uq_pop_spec by blast
  show "uq_inv s \<Longrightarrow> uq_pop s = Some (x, s') \<Longrightarrow> uq_abs s = x # uq_abs s'" for s x s' using uq_pop_spec by blast
  show "uq_inv s \<Longrightarrow> uq_pop s = None \<longleftrightarrow> uq_abs s = []" for s by (rule uq_pop_None)
qed

section \<open>The handler\<close>

definition udp_inv :: "'a udpst_scheme \<Rightarrow> bool" where
  "udp_inv s \<longleftrightarrow> length (udp_socks s) = UDP_SLOTS \<and> (\<forall>u \<in> set (udp_socks s). uq_inv u)"

lemma tx_effect_udp:
  fixes s t :: "'a udpst_scheme"
  shows "tx_effect s t \<Longrightarrow> udp_socks t = udp_socks s \<and> udp_handles t = udp_handles s"
  by (auto simp: tx_effect_def)

lemma udp_send_udp [simp]:
  fixes s :: "'a udpst_scheme"
  shows "udp_socks (snd (udp_send ip dp sp d s)) = udp_socks s" "udp_handles (snd (udp_send ip dp sp d s)) = udp_handles s"
  using tx_effect_udp [OF udp_send_effect] by blast+

text \<open>A well-formed datagram: the length field covers the header and the segment holds
  what it announces.\<close>

definition udp_datagram :: "u16 \<Rightarrow> u16 \<Rightarrow> bytes \<Rightarrow> bytes" where
  "udp_datagram sport dport d =
     le16 (hton16 sport) @ le16 (hton16 dport) @ le16 (hton16 (of_nat (8 + length d))) @ le16 0 @ d"

lemma rd16_shift: "length a = k \<Longrightarrow> rd16 (a @ b) (k + i) = rd16 b i"
  by (simp add: rd16_def)

lemma udp_datagram_fields:
  "rd16 (udp_datagram sport dport d) 0 = hton16 sport" "rd16 (udp_datagram sport dport d) 2 = hton16 dport"
  "rd16 (udp_datagram sport dport d) 4 = hton16 (of_nat (8 + length d))" "drop 8 (udp_datagram sport dport d) = d"
  "length (udp_datagram sport dport d) = 8 + length d"
  using rd16_shift [of "le16 (hton16 sport)" 2 "le16 (hton16 dport) @ le16 (hton16 (of_nat (8 + length d))) @ le16 0 @ d" 0]
    rd16_shift [of "le16 (hton16 sport) @ le16 (hton16 dport)" 4 "le16 (hton16 (of_nat (8 + length d))) @ le16 0 @ d" 0]
  by (simp_all add: udp_datagram_def)

lemma udp_handle_datagram:
  assumes "length d \<le> 65507" "dport \<noteq> 68 \<or> sport \<noteq> 67" "udp_sock_by_port dport s = Some i"
    and s1_def: "s1 = (if dport = 7 then snd (udp_send src sport 7 d s) else s)"
  shows "udp_handle (udp_datagram sport dport d) (of_nat (8 + length d)) src s =
    (case uq_push (src, sport, d) (udp_socks s ! i) of
       Some u' \<Rightarrow> Some (s1\<lparr> udp_socks := (udp_socks s)[i := u'] \<rparr>)
     | None \<Rightarrow> if us_n (udp_socks s ! i) + 4 + 4 + 2 + of_nat (length d) \<le> of_nat UDP_RXBUF then None
               else Some (NETSTAT_INC rx_drop_full_update s1))"
proof -
  have l: "unat (of_nat (8 + length d) :: u32) = 8 + length d" "unat (of_nat (8 + length d) :: u16) = 8 + length d"
    "unat (of_nat (length d) :: u32) = length d"
    using assms(1) by (simp_all add: unat_of_nat del: of_nat_add)
  have len: "ucast (of_nat (8 + length d) :: u16) = (of_nat (8 + length d) :: u32)"
    using l by (simp add: word_unat_eq_iff del: of_nat_add)
  have ge: "\<not> (of_nat (8 + length d) :: u32) < 8"
    using l(1) by (simp add: word_less_nat_alt del: of_nat_add)
  have so: "udp_socks s1 = udp_socks s" by (simp add: s1_def)
  have dl: "of_nat (8 + length d) - 8 = (of_nat (length d) :: u32)" by simp
  have nd: "(dport = 68 \<and> sport = 67) = False" using assms(2) by blast
  have "udp_handle (udp_datagram sport dport d) (of_nat (8 + length d)) src s =
      udp_deliver dport sport d (of_nat (length d)) src s"
    unfolding udp_handle_def Let_def udp_datagram_fields len hton16_ntoh16
    using ge by (simp only: dl if_cancel if_False) simp
  also have "\<dots> = (case uq_push (src, sport, d) (udp_socks s ! i) of
       Some u' \<Rightarrow> Some (s1\<lparr> udp_socks := (udp_socks s)[i := u'] \<rparr>)
     | None \<Rightarrow> if us_n (udp_socks s ! i) + 4 + 4 + 2 + of_nat (length d) \<le> of_nat UDP_RXBUF then None
               else Some (NETSTAT_INC rx_drop_full_update s1))"
    unfolding udp_deliver_def nd if_False
    using assms(1,3) l(3) so by (simp add: uq_push_def s1_def Let_def split: option.splits)
  finally show ?thesis .
qed

lemma udp_inv_nth: "udp_inv s \<Longrightarrow> i < UDP_SLOTS \<Longrightarrow> uq_inv (udp_socks s ! i)"
  by (simp add: udp_inv_def)

lemma udp_inv_update: "udp_inv s \<Longrightarrow> uq_inv u \<Longrightarrow> udp_socks t = (udp_socks s)[i := u] \<Longrightarrow> udp_inv t"
  by (auto simp: udp_inv_def dest!: set_update_subset_insert [THEN subsetD])

lemma udp_by_port_lt: "udp_inv s \<Longrightarrow> udp_sock_by_port p s = Some i \<Longrightarrow> i < UDP_SLOTS"
  using find_idx_lt by (fastforce simp: udp_sock_by_port_def udp_inv_def)

lemma uq_push_None_iff:
  assumes "uq_inv u" "length d \<le> 65527"
  shows "uq_push (ip, port, d) u = None \<longleftrightarrow> \<not> unat (us_n u) + 10 + length d \<le> UDP_RXBUF"
proof -
  have u: "length (us_rxb u) = UDP_RXBUF" "us_head u = us_n u" "unat (us_n u) \<le> UDP_RXBUF"
    using assms(1) by (auto simp: uq_inv_def)
  have ok: "dg_ok (ip, port, d)" using assms(2) by (simp add: dg_ok_def)
  show ?thesis
    using uq_room(1) [OF u(3) ok] u unat_dg_len [OF ok] assms(2)
    by (auto simp: uq_push_def udp_enqueue_def)
qed

text \<open>Sending leaves the counter of datagrams dropped for lack of room alone.\<close>

lemma arp_request_drops: "rx_drop_full (g_net_stats (snd (arp_request ip s))) = rx_drop_full (g_net_stats s)"
  by (auto simp: arp_request_def Let_def split_beta e1000_tx_submit_def NETSTAT_INC_def split: option.splits)

lemma arp_resolve_drops: "rx_drop_full (g_net_stats (snd (arp_resolve ip s))) = rx_drop_full (g_net_stats s)"
  by (auto simp: arp_resolve_def Let_def split_beta arp_request_drops NETSTAT_INC_def split: option.splits)

lemma udp_send_drops: "rx_drop_full (g_net_stats (snd (udp_send ip dp sp d s))) = rx_drop_full (g_net_stats s)"
  using arp_resolve_drops [of ip s]
  by (auto simp: udp_send_def begin_ip_def end_ip_def e1000_tx_submit_def Let_def split_beta split: prod.splits option.splits)

text \<open>Property C30: reception refines a bounded queue of datagrams.  A well-formed datagram
  for a bound port never faults; it is appended, with its source address, source port and
  payload, to the queue of the first socket bound to the port when the record fits the
  buffer; otherwise it is dropped whole and the counter of full-queue drops goes up by one.
  No other socket changes.\<close>

theorem udp_handle_refines:
  assumes inv: "udp_inv s" and d: "length d \<le> 65507" and nd: "dport \<noteq> 68 \<or> sport \<noteq> 67"
    and i: "udp_sock_by_port dport s = Some i"
  shows "\<exists>s'. udp_handle (udp_datagram sport dport d) (of_nat (8 + length d)) src s = Some s' \<and> udp_inv s' \<and>
    (\<forall>j. j \<noteq> i \<longrightarrow> udp_socks s' ! j = udp_socks s ! j) \<and>
    uq_abs (udp_socks s' ! i) = uq_abs (udp_socks s ! i) @
      (if unat (us_n (udp_socks s ! i)) + 10 + length d \<le> UDP_RXBUF then [(src, sport, d)] else []) \<and>
    rx_drop_full (g_net_stats s') = rx_drop_full (g_net_stats s) +
      (if unat (us_n (udp_socks s ! i)) + 10 + length d \<le> UDP_RXBUF then 0 else 1)"
proof -
  let ?u = "udp_socks s ! i"
  have lt: "i < UDP_SLOTS" using udp_by_port_lt [OF inv i] .
  have ui: "uq_inv ?u" using udp_inv_nth [OF inv lt] .
  have len: "length (udp_socks s) = UDP_SLOTS" using inv by (simp add: udp_inv_def)
  define s1 where "s1 = (if dport = 7 then snd (udp_send src sport 7 d s) else s)"
  have so: "udp_socks s1 = udp_socks s" by (simp add: s1_def)
  have dr: "rx_drop_full (g_net_stats s1) = rx_drop_full (g_net_stats s)" by (simp add: s1_def udp_send_drops)
  note h = udp_handle_datagram [OF d nd i s1_def]
  have d': "length d \<le> 65527" using d by simp
  have ok: "dg_ok (src, sport, d)" using d by (simp add: dg_ok_def)
  have n: "unat (us_n ?u) \<le> UDP_RXBUF" using ui by (simp add: uq_inv_def)
  show ?thesis
  proof (cases "uq_push (src, sport, d) ?u")
    case None
    then have full: "\<not> unat (us_n ?u) + 10 + length d \<le> UDP_RXBUF" using uq_push_None_iff [OF ui d'] by simp
    then have "\<not> us_n ?u + 4 + 4 + 2 + of_nat (length d) \<le> of_nat UDP_RXBUF" using uq_room(1) [OF n ok] by blast
    then have "udp_handle (udp_datagram sport dport d) (of_nat (8 + length d)) src s = Some (NETSTAT_INC rx_drop_full_update s1)"
      using h None by (simp only: option.case if_False)
    moreover have "udp_socks (NETSTAT_INC rx_drop_full_update s1) = udp_socks s" using so by (simp add: NETSTAT_INC_def)
    moreover then have "udp_inv (NETSTAT_INC rx_drop_full_update s1)" using inv by (simp add: udp_inv_def)
    moreover have "rx_drop_full (g_net_stats (NETSTAT_INC rx_drop_full_update s1)) = rx_drop_full (g_net_stats s) + 1"
      using dr by (simp add: NETSTAT_INC_def)
    ultimately show ?thesis using full by auto
  next
    case (Some u')
    then have room: "unat (us_n ?u) + 10 + length d \<le> UDP_RXBUF" using uq_push_None_iff [OF ui d', of src sport] by force
    have u': "uq_inv u'" "uq_abs u' = uq_abs ?u @ [(src, sport, d)]" using uq_push_spec [OF ui Some] by auto
    let ?s' = "s1\<lparr> udp_socks := (udp_socks s)[i := u'] \<rparr>"
    have "udp_handle (udp_datagram sport dport d) (of_nat (8 + length d)) src s = Some ?s'"
      using h Some by (simp only: option.case)
    moreover have "udp_inv ?s'" by (rule udp_inv_update [OF inv u'(1)]) simp
    ultimately show ?thesis using room u' lt len dr by (intro exI [of _ ?s']) (simp add: nth_list_update)
  qed
qed

text \<open>The queue slot a handle reads.\<close>

definition udp_recv_slot :: "socket \<Rightarrow> 'a udpst_scheme \<Rightarrow> nat option" where
  "udp_recv_slot h s = (if so_owned h \<and> so_slot h < UDP_SLOTS then Some (so_slot h) else udp_sock_by_port (so_lport h) s)"

lemma udp_dequeue_cut:
  "udp_dequeue m u = (case udp_dequeue UDP_RXBUF u of ((ip, port, d), u') \<Rightarrow> ((ip, port, take m d), u'))"
  if "unat (rd_be32 (us_rxb u) 0) \<le> UDP_RXBUF"
  using that by (simp add: udp_dequeue_def Let_def min_def)

lemma uq_first_len: "uq_inv u \<Longrightarrow> us_n u \<noteq> 0 \<Longrightarrow> unat (rd_be32 (us_rxb u) 0) \<le> UDP_RXBUF"
proof -
  assume inv: "uq_inv u" and nz: "us_n u \<noteq> 0"
  obtain p u' where p: "uq_pop u = Some (p, u')" using nz by (cases "udp_dequeue UDP_RXBUF u") (simp add: uq_pop_def)
  obtain q where q: "list_all dg_ok q" "take (unat (us_n u)) (us_rxb u) = concat (map dg_enc q)"
    "unat (us_n u) \<le> UDP_RXBUF" "length (us_rxb u) = UDP_RXBUF"
    using inv by (auto simp: uq_inv_def)
  have "q = p # uq_abs u'" using uq_abs_eq [OF q(1,2)] uq_pop_spec [OF inv p] by simp
  moreover obtain ip port d where "p = (ip, port, d)" by (cases p)
  ultimately have x: "take (unat (us_n u)) (us_rxb u) = dg_enc (ip, port, d) @ concat (map dg_enc (uq_abs u'))"
    and ok: "dg_ok (ip, port, d)" using q by simp_all
  have "us_rxb u = dg_enc (ip, port, d) @ concat (map dg_enc (uq_abs u')) @ drop (unat (us_n u)) (us_rxb u)"
    using x by (metis append_take_drop_id append.assoc)
  then have "rd_be32 (us_rxb u) 0 = of_nat (length d)" by (metis dg_fields(1))
  moreover have "10 + length d \<le> unat (us_n u)"
    using arg_cong [OF x, of length] q(3,4) dg_fields(5) [of ip port d] by simp
  ultimately show ?thesis using unat_dg_len [OF ok] q(3) by simp
qed

text \<open>Receiving takes the oldest datagram.  On a non-empty queue
  \<open>udp_recvfrom\<close> returns the source, port and payload of the oldest record, the payload cut
  to the caller's buffer, and removes exactly that record; the boundaries of the records
  behind it are kept even when the payload was cut.  On an empty queue it returns -1 and
  changes nothing.\<close>

theorem udp_recvfrom_refines:
  assumes inv: "udp_inv s" and h: "so_type h = SOCK_UDP" and i: "udp_recv_slot h s = Some i"
  shows "(case uq_abs (udp_socks s ! i) of
      [] \<Rightarrow> udp_recvfrom h m s = (None, s)
    | (ip, port, d) # q \<Rightarrow> (\<exists>s'. udp_recvfrom h m s = (Some (ip, port, take m d), s') \<and> udp_inv s' \<and>
        uq_abs (udp_socks s' ! i) = q \<and> (\<forall>j. j \<noteq> i \<longrightarrow> udp_socks s' ! j = udp_socks s ! j)))"
proof -
  let ?u = "udp_socks s ! i"
  have lt: "i < UDP_SLOTS"
    using i udp_by_port_lt [OF inv] by (auto simp: udp_recv_slot_def split: if_splits)
  have ui: "uq_inv ?u" using udp_inv_nth [OF inv lt] .
  have len: "length (udp_socks s) = UDP_SLOTS" using inv by (simp add: udp_inv_def)
  have r: "udp_recvfrom h m s = (if us_n ?u = 0 then (None, s) else (case udp_dequeue m ?u of
      (p, u') \<Rightarrow> (Some p, s\<lparr> udp_socks := (udp_socks s)[i := u'] \<rparr>)))"
    using h i by (auto simp: udp_recvfrom_def udp_recv_slot_def split: if_splits)
  show ?thesis
  proof (cases "us_n ?u = 0")
    case True
    then have "uq_abs ?u = []" by (simp add: uq_abs_def dg_decode.simps)
    then show ?thesis using True r by simp
  next
    case False
    obtain ip port d u' where e: "udp_dequeue UDP_RXBUF ?u = ((ip, port, d), u')"
      by (cases "udp_dequeue UDP_RXBUF ?u") auto
    then have "uq_pop ?u = Some ((ip, port, d), u')" using False by (simp add: uq_pop_def)
    then have u': "uq_inv u'" "uq_abs ?u = (ip, port, d) # uq_abs u'" using uq_pop_spec [OF ui] by auto
    have c: "udp_dequeue m ?u = ((ip, port, take m d), u')"
      using udp_dequeue_cut [OF uq_first_len [OF ui False]] e by simp
    let ?s' = "s\<lparr> udp_socks := (udp_socks s)[i := u'] \<rparr>"
    have "udp_inv ?s'" by (rule udp_inv_update [OF inv u'(1)]) simp
    then show ?thesis using r c False u' lt len by (auto simp: nth_list_update)
  qed
qed

text \<open>A datagram whose length field is below the header size makes the handler
  read out of bounds.  The subtraction of the header size wraps, the room test wraps back
  into range, and the copy length is close to 4 GiB.\<close>

theorem udp_short_length_faults:
  assumes "udp_sock_by_port (ntoh16 (rd16 seg 2)) s = Some i" "ntoh16 (rd16 seg 2) \<noteq> 68"
    "8 \<le> length seg" "length seg < 4294967280" "unat (ntoh16 (rd16 seg 4)) < 8" "8 \<le> seglen"
    "unat (us_n (udp_socks s ! i)) \<le> 2038"
  shows "udp_handle seg seglen src s = None"
proof -
  let ?dp = "ntoh16 (rd16 seg 2)" and ?pl = "ucast (ntoh16 (rd16 seg 4)) :: u32"
  have pl: "unat ?pl < 8" using assms(5) by simp
  have sl: "8 \<le> unat seglen" using assms(6) by (simp add: word_le_nat_alt)
  have "\<not> ?pl > seglen" using pl sl by (simp add: word_less_nat_alt)
  have dl: "unat (?pl - 8) = 4294967288 + unat ?pl"
    using pl by (simp add: unat_sub_if_size word_size word_le_nat_alt)
  let ?n = "us_n (udp_socks s ! i)"
  have e: "?n + 4 + 4 + 2 + (?pl - 8) = ?n + 2 + ?pl" by simp
  have u: "unat (?n + 2 + ?pl) = unat ?n + 2 + unat ?pl"
    using assms(7) pl by (simp add: unat_word_ariths)
  have room: "?n + 4 + 4 + 2 + (?pl - 8) \<le> of_nat UDP_RXBUF"
    unfolding e word_le_nat_alt u using assms(7) pl by simp
  have over: "length (drop 8 seg) < unat (?pl - 8)" using assms(3,4) dl by simp
  then have "udp_enqueue src (ntoh16 (rd16 seg 0)) (drop 8 seg) (?pl - 8) (udp_socks s ! i) = None"
    by (simp add: udp_enqueue_def)
  then have "udp_deliver ?dp (ntoh16 (rd16 seg 0)) (drop 8 seg) (?pl - 8) src s = None"
    using assms(1,2) room over by (simp add: udp_deliver_def Let_def)
  moreover have "(seglen < ?pl) = False" "\<not> seglen < 8" "\<not> length seg < 8"
    using \<open>\<not> ?pl > seglen\<close> assms(3,6) by simp_all
  ultimately show ?thesis by (simp add: udp_handle_def Let_def)
qed

section \<open>Concrete states\<close>

definition udp_sock0 :: udp_sock where
  "udp_sock0 = \<lparr> us_used = False, us_bound = False, us_owned = False, us_lport = 0,
     us_rxb = replicate UDP_RXBUF 0, us_head = 0, us_n = 0 \<rparr>"

definition socket0 :: socket where
  "socket0 = \<lparr> so_type = SOCK_CLOSED, so_lport = 0, so_slot = 0, so_owned = False, so_conn = None \<rparr>"

definition udp_boot :: udpst where
  "udp_boot = dhcpst.extend dhcp_boot (udpst.fields (replicate UDP_SLOTS udp_sock0) (replicate UDP_SLOTS socket0))"

definition udp_demo :: udpst where
  "udp_demo = snd (udp_open 9 udp_boot)"

lemma uq_inv_empty: "length b = UDP_RXBUF \<Longrightarrow> us_rxb u = b \<Longrightarrow> us_head u = 0 \<Longrightarrow> us_n u = 0 \<Longrightarrow> uq_inv u"
  unfolding uq_inv_def by (auto intro: exI [of _ "[]"])

lemma udp_demo_shape:
  "udp_socks udp_demo = (replicate UDP_SLOTS udp_sock0)[0 := udp_sock0\<lparr> us_used := True, us_bound := True, us_lport := 9 \<rparr>]"
  by (simp add: udp_demo_def udp_open_def udp_sock_find_free_def udp_boot_def dhcpst.defs udpst.defs
      find_idx_def numeral_eq_Suc udp_sock0_def)

lemma udp_demo_inv: "udp_inv udp_demo"
  unfolding udp_inv_def udp_demo_shape
  by (auto simp: udp_sock0_def intro!: uq_inv_empty dest!: set_update_subset_insert [THEN subsetD])

lemma udp_demo_port: "udp_sock_by_port 9 udp_demo = Some 0"
  by (simp add: udp_sock_by_port_def udp_demo_shape find_idx_def numeral_eq_Suc udp_sock0_def)

theorem udp_handle_refines_witness:
  "\<exists>s'. udp_handle (udp_datagram 1000 9 [1, 2, 3]) 11 0x0202000A udp_demo = Some s' \<and> udp_inv s' \<and>
     uq_abs (udp_socks s' ! 0) = uq_abs (udp_socks udp_demo ! 0) @ [(0x0202000A, 1000, [1, 2, 3])]"
proof -
  have n: "us_n (udp_socks udp_demo ! 0) = 0" by (simp add: udp_demo_shape udp_sock0_def)
  show ?thesis
    using udp_handle_refines [OF udp_demo_inv _ _ udp_demo_port, of "[1, 2, 3]" 1000 "0x0202000A"] n by auto
qed

theorem udp_recvfrom_refines_witness:
  "\<exists>u s'. uq_push (0x0202000A, 1000, [1, 2, 3]) (udp_socks udp_demo ! 0) = Some u \<and>
     udp_recvfrom (socket0\<lparr> so_type := SOCK_UDP, so_owned := True \<rparr>) 2
       (udp_demo\<lparr> udp_socks := (udp_socks udp_demo)[0 := u] \<rparr>) = (Some (0x0202000A, 1000, [1, 2]), s')"
proof -
  have i0: "uq_inv (udp_socks udp_demo ! 0)" using udp_inv_nth [OF udp_demo_inv] by simp
  have e: "uq_abs (udp_socks udp_demo ! 0) = []" "us_n (udp_socks udp_demo ! 0) = 0"
    by (simp_all add: uq_abs_def udp_demo_shape udp_sock0_def dg_decode.simps)
  then obtain u where u: "uq_push (0x0202000A, 1000, [1, 2, 3]) (udp_socks udp_demo ! 0) = Some u"
    using uq_push_None_iff [OF i0, of "[1, 2, 3]" "0x0202000A" 1000] by fastforce
  let ?s = "udp_demo\<lparr> udp_socks := (udp_socks udp_demo)[0 := u] \<rparr>"
  have inv: "udp_inv ?s" using uq_push_spec [OF i0 u] by (intro udp_inv_update [OF udp_demo_inv, of u]) simp_all
  have q: "uq_abs (udp_socks ?s ! 0) = [(0x0202000A, 1000, [1, 2, 3])]"
    using uq_push_spec [OF i0 u] e by (simp add: udp_demo_shape)
  have sl: "udp_recv_slot (socket0\<lparr> so_type := SOCK_UDP, so_owned := True \<rparr>) ?s = Some 0"
    by (simp add: udp_recv_slot_def socket0_def)
  show ?thesis
    using udp_recvfrom_refines [OF inv _ sl, of 2] q u by auto
qed

theorem udp_short_length_witness:
  "udp_handle [0, 53, 0, 9, 0, 4, 0, 0, 1, 2] 10 0x0202000A udp_demo = None"
proof -
  have p: "ntoh16 (rd16 [0, 53, 0, 9, 0, 4, 0, 0, 1, 2] 2) = 9" "unat (ntoh16 (rd16 [0, 53, 0, 9, 0, 4, 0, 0, 1, 2] 4)) = 4"
    by code_simp+
  have n: "us_n (udp_socks udp_demo ! 0) = 0" by (simp add: udp_demo_shape udp_sock0_def)
  show ?thesis
    by (rule udp_short_length_faults [of _ _ 0]) (use p n udp_demo_port in simp_all)
qed

end
