(* ===== verification/Icmp.thy ===== *)
theory Icmp
  imports Udp
begin

text \<open>
  ICMP echo, \<^verbatim>\<open>src/net/net_icmp.c\<close>: the responder, the matching of replies to an
  outstanding ping, the construction of a request, and the bounded text output of
  \<open>net_ping\<close> and \<open>net_ping_stats\<close>.
\<close>

record icmpst = udpst +
  ping_wait :: bool
  ping_received :: bool
  ping_dst :: u32
  ping_source :: u32
  ping_rx_tick :: u32
  ping_id :: u16
  ping_seq :: u16
  ping_sent_count :: u16
  ping_received_count :: u16

text \<open>The reply to a request: type and code cleared, checksum recomputed over the segment
  with a zero checksum field.\<close>

definition icmp_reply :: "bytes \<Rightarrow> bytes" where
  "icmp_reply seg = [0, 0] @ le16 (hton16 (ip_checksum ([0, 0, 0, 0] @ drop 4 seg))) @ drop 4 seg"

definition icmp_handle :: "bytes \<Rightarrow> u32 \<Rightarrow> 'a icmpst_scheme \<Rightarrow> 'a icmpst_scheme" where
  "icmp_handle seg src_ip s =
    (if length seg < 8 then s
     else if ip_checksum seg \<noteq> 0 then s
     else if byte_at seg 0 = 0 \<and> ping_wait s \<and> src_ip = ping_dst s \<and> ntoh16 (rd16 seg 4) = ping_id s \<and>
             ntoh16 (rd16 seg 6) = ping_seq s
     then s\<lparr> ping_source := src_ip, ping_rx_tick := ticks s, ping_received := True \<rparr>
     else if byte_at seg 0 \<noteq> 8 \<or> byte_at seg 1 \<noteq> 0 then s
     else (case arp_resolve src_ip s of
         (None, s1) \<Rightarrow> s1
       | (Some dmac, s1) \<Rightarrow>
          (case begin_ip src_ip IP_PROTO_ICMP dmac s1 of
             (None, s2) \<Rightarrow> s2
           | (Some f, s2) \<Rightarrow>
              (case end_ip f (icmp_reply seg) s2 of
                 (ok, s3) \<Rightarrow> if ok then NETSTAT_INC icmp_echo_out_update s3 else s3))))"

text \<open>The request of \<open>net_ping\<close>.\<close>

definition icmp_request :: "u16 \<Rightarrow> u16 \<Rightarrow> bytes" where
  "icmp_request pid pseq =
    (let b = le16 (hton16 pid) @ le16 (hton16 pseq)
     in [8, 0] @ le16 (hton16 (ip_checksum ([8, 0, 0, 0] @ b))) @ b)"

text \<open>Bounded output: the buffer, its capacity and the count of characters produced, which
  may exceed the capacity.\<close>

definition ping_putc :: "char \<Rightarrow> string \<times> nat \<times> nat \<Rightarrow> string \<times> nat \<times> nat" where
  "ping_putc c o1 = (case o1 of (out, cap, n) \<Rightarrow> (if n < cap then out[n := c] else out, cap, n + 1))"

definition ping_puts :: "string \<Rightarrow> string \<times> nat \<times> nat \<Rightarrow> string \<times> nat \<times> nat" where
  "ping_puts cs o1 = fold ping_putc cs o1"

fun ping_dec_loop :: "nat \<Rightarrow> u32 \<Rightarrow> string" where
  "ping_dec_loop 0 v = []"
| "ping_dec_loop (Suc k) v = (if v = 0 then [] else dec_char (v mod 10) # ping_dec_loop k (v div 10))"

definition ping_putdec :: "u32 \<Rightarrow> string \<times> nat \<times> nat \<Rightarrow> string \<times> nat \<times> nat" where
  "ping_putdec v o1 = (if v = 0 then ping_putc CHR ''0'' o1 else fold ping_putc (rev (ping_dec_loop 10 v)) o1)"

definition ping_putip :: "u32 \<Rightarrow> string \<times> nat \<times> nat \<Rightarrow> string \<times> nat \<times> nat" where
  "ping_putip ip o1 =
    (let b = le32 ip in
     ping_putdec (ucast (b ! 3)) (ping_putc CHR ''.'' (ping_putdec (ucast (b ! 2)) (ping_putc CHR ''.''
       (ping_putdec (ucast (b ! 1)) (ping_putc CHR ''.'' (ping_putdec (ucast (b ! 0)) o1)))))))"

definition ping_finish :: "string \<times> nat \<times> nat \<Rightarrow> string \<times> nat" where
  "ping_finish o1 = (case o1 of (out, cap, n) \<Rightarrow>
     if cap = 0 then (out, 0)
     else (let n' = (if n \<ge> cap then cap - 1 else n) in (out[n' := CHR 0x00], n')))"

definition net_ping_stats :: "string \<Rightarrow> nat \<Rightarrow> 'a icmpst_scheme \<Rightarrow> string \<times> nat" where
  "net_ping_stats out out_len s =
    (let o0 = (map (\<lambda>_. CHR 0x00) (take out_len out) @ drop out_len out, out_len, 0);
         sent = ping_sent_count s; rcvd = ping_received_count s;
         loss = (if sent \<noteq> 0 then word_of_int ((uint sent - uint rcvd)) * 100 div ucast sent else 100) :: u32
     in ping_finish (ping_puts ''% packet loss
'' (ping_putdec loss (ping_puts '' received, '' (ping_putdec (ucast rcvd)
          (ping_puts '' packets transmitted, '' (ping_putdec (ucast sent) (ping_puts ''--- ping statistics ---
'' o0))))))))"

section \<open>Echo\<close>

lemma icmp_request_valid: "ip_checksum (icmp_request pid pseq) = 0"
  using ip_checksum_fill [of "[8, 0]" "le16 (hton16 pid) @ le16 (hton16 pseq)"]
  by (simp add: icmp_request_def Let_def le16_def)

lemma icmp_reply_valid: "length seg \<le> 65536 \<Longrightarrow> ip_checksum (icmp_reply seg) = 0"
  using ip_checksum_fill [of "[0, 0]" "drop 4 seg"] by (simp add: icmp_reply_def le16_def)

end
