(* ===== verification/TcpIo.thy ===== *)
theory TcpIo
  imports TcpRx Icmp
begin

text \<open>
  Transmission by a connection, \<^verbatim>\<open>src/net/net_tcp.c\<close> lines 176 to 188, 341 to 418 and 799
  to 856: building and submitting a segment, resets, the window-filling loop, SACK
  retransmission, and the connection-level bodies of send, receive and close.

  A segment goes out on the stack state \<open>s\<close>; of the connection \<open>tcp_put_pkt\<close> only changes
  the advertised window.  Both are passed and returned.
\<close>

section \<open>Segments\<close>

abbreviation (input) TCP_FLAG_FIN :: u8 where "TCP_FLAG_FIN \<equiv> 0x01"
abbreviation (input) TCP_FLAG_SYN :: u8 where "TCP_FLAG_SYN \<equiv> 0x02"
abbreviation (input) TCP_FLAG_RST :: u8 where "TCP_FLAG_RST \<equiv> 0x04"
abbreviation (input) TCP_FLAG_ACK :: u8 where "TCP_FLAG_ACK \<equiv> 0x10"
abbreviation (input) TCP_FLAG_ACKPSH :: u8 where "TCP_FLAG_ACKPSH \<equiv> 0x18"
abbreviation (input) TCP_FLAG_SYNACK :: u8 where "TCP_FLAG_SYNACK \<equiv> 0x12"
abbreviation (input) TCP_FLAG_FINACK :: u8 where "TCP_FLAG_FINACK \<equiv> 0x11"
abbreviation (input) TCP_FLAG_RSTACK :: u8 where "TCP_FLAG_RSTACK \<equiv> 0x14"
abbreviation (input) IP_PROTO_TCP :: u8 where "IP_PROTO_TCP \<equiv> 6"

text \<open>The bytes of a segment up to the checksum, and after it.\<close>

definition tcp_hdr_pre :: "u16 \<Rightarrow> u16 \<Rightarrow> u32 \<Rightarrow> u32 \<Rightarrow> u8 \<Rightarrow> u8 \<Rightarrow> u16 \<Rightarrow> bytes" where
  "tcp_hdr_pre sp dp sq ack off flags win =
    le16 (hton16 sp) @ le16 (hton16 dp) @ le32 (hton32 sq) @ le32 (hton32 ack) @ [off, flags] @ le16 (hton16 win)"

definition tcp_csummed :: "u32 \<Rightarrow> u32 \<Rightarrow> bytes \<Rightarrow> bytes \<Rightarrow> bytes" where
  "tcp_csummed src dst pre rest =
    (let z = pre @ le16 0 @ le16 0 @ rest
     in pre @ le16 (hton16 (ip_checksum_pseudo src dst IP_PROTO_TCP (of_nat (length z)) z)) @ le16 0 @ rest)"

definition tcp_segment :: "u32 \<Rightarrow> tcp_conn \<Rightarrow> u8 \<Rightarrow> u32 \<Rightarrow> u32 \<Rightarrow> bytes \<Rightarrow> bytes" where
  "tcp_segment ip c flags sq ack data =
    (let opts = tcp_build_opts c flags;
         off = of_nat (((20 + length opts) div 4) * 16) :: u8
     in tcp_csummed ip (peer_ip c)
          (tcp_hdr_pre (c_lport c) (peer_port c) sq ack off flags (ucast (tcp_advertise_window c)))
          (opts @ data))"

definition tcp_put_pkt ::
  "u8 \<Rightarrow> u32 \<Rightarrow> u32 \<Rightarrow> bytes \<Rightarrow> tcp_conn \<Rightarrow> 'a arpst_scheme \<Rightarrow> bool \<times> tcp_conn \<times> 'a arpst_scheme" where
  "tcp_put_pkt flags sq ack data c s =
    (case arp_resolve (peer_ip c) s of
       (None, s1) \<Rightarrow> (False, c, s1)
     | (Some dmac, s1) \<Rightarrow>
        (case begin_ip (peer_ip c) IP_PROTO_TCP dmac s1 of
           (None, s2) \<Rightarrow> (False, c, s2)
         | (Some f, s2) \<Rightarrow>
            (case end_ip f (tcp_segment (g_ip s2) c flags sq ack data) s2 of
               (ok, s3) \<Rightarrow> (ok, c\<lparr> adv_win := ucast (tcp_advertise_window c) \<rparr>, s3))))"

definition tcp_rst_segment :: "u32 \<Rightarrow> u32 \<Rightarrow> u16 \<Rightarrow> u16 \<Rightarrow> u32 \<Rightarrow> u8 \<Rightarrow> u32 \<Rightarrow> bytes" where
  "tcp_rst_segment ip dst_ip src_port dst_port sq in_flags dlen =
    (if in_flags AND TCP_FLAG_ACK \<noteq> 0
     then tcp_csummed ip dst_ip (tcp_hdr_pre src_port dst_port sq 0 0x50 TCP_FLAG_RST 0) []
     else tcp_csummed ip dst_ip (tcp_hdr_pre src_port dst_port 0
        (sq + dlen + (if in_flags AND (TCP_FLAG_SYN OR TCP_FLAG_FIN) \<noteq> 0 then 1 else 0)) 0x50 TCP_FLAG_RSTACK 0) [])"

definition tcp_send_rst_ack ::
  "u32 \<Rightarrow> u16 \<Rightarrow> u16 \<Rightarrow> u32 \<Rightarrow> u8 \<Rightarrow> u32 \<Rightarrow> 'a arpst_scheme \<Rightarrow> 'a arpst_scheme" where
  "tcp_send_rst_ack dst_ip src_port dst_port sq in_flags dlen s =
    (case arp_resolve dst_ip s of
       (None, s1) \<Rightarrow> s1
     | (Some dmac, s1) \<Rightarrow>
        (case begin_ip dst_ip IP_PROTO_TCP dmac s1 of
           (None, s2) \<Rightarrow> s2
         | (Some f, s2) \<Rightarrow> snd (end_ip f (tcp_rst_segment (g_ip s2) dst_ip src_port dst_port sq in_flags dlen) s2)))"

text \<open>\<open>sndb[off..off+n)\<close>.\<close>

definition sndb_at :: "tcp_conn \<Rightarrow> nat \<Rightarrow> nat \<Rightarrow> bytes" where
  "sndb_at c off n = take n (drop off (sndb c))"

section \<open>What putting a packet leaves alone\<close>

lemma tcp_put_pkt_conn:
  assumes "tcp_put_pkt flags sq ack data c s = (ok, c', s')"
  shows "(c' = c \<or> c' = c\<lparr> adv_win := ucast (tcp_advertise_window c) \<rparr>) \<and> tx_effect s s'"
proof -
  obtain r s1 where r: "arp_resolve (peer_ip c) s = (r, s1)" by (cases "arp_resolve (peer_ip c) s")
  have e1: "tx_effect s s1" using arp_resolve_effect [of s "peer_ip c"] r by simp
  show ?thesis
  proof (cases r)
    case None
    then show ?thesis using assms r e1 by (simp add: tcp_put_pkt_def)
  next
    case (Some dmac)
    obtain f s2 where b: "begin_ip (peer_ip c) IP_PROTO_TCP dmac s1 = (f, s2)" by fastforce
    have e2: "tx_effect s s2"
      using begin_ip_effect [of s1 "peer_ip c" IP_PROTO_TCP dmac] b tx_effect_trans [OF e1] by simp
    show ?thesis
    proof (cases f)
      case None
      then show ?thesis using assms r Some b e2 by (simp add: tcp_put_pkt_def)
    next
      case (Some fr)
      obtain k s3 where e: "end_ip fr (tcp_segment (g_ip s2) c flags sq ack data) s2 = (k, s3)" by fastforce
      have "tx_effect s s3" using end_ip_effect [of s2 fr "tcp_segment (g_ip s2) c flags sq ack data"] e tx_effect_trans [OF e2] by simp
      then show ?thesis using assms r \<open>r = Some dmac\<close> b Some e by (simp add: tcp_put_pkt_def)
    qed
  qed
qed

lemma tcp_put_pkt_fields [tbl_simps]:
  assumes "tcp_put_pkt flags sq ack data c s = (ok, c', s')"
  shows "snd_nxt c' = snd_nxt c" "snd_una c' = snd_una c" "snd_used c' = snd_used c" "sndb c' = sndb c"
    "peer_mss c' = peer_mss c" "cwnd c' = cwnd c" "peer_win c' = peer_win c" "c_state c' = c_state c"
    "c_used c' = c_used c" "rcv_nxt c' = rcv_nxt c" "rxb c' = rxb c" "tx c' = tx c" "rto_attempts c' = rto_attempts c"
  using tcp_put_pkt_conn [OF assms] by auto

section \<open>Filling the window\<close>

definition tcp_eff_mss :: "tcp_conn \<Rightarrow> nat" where
  "tcp_eff_mss c = (let m = (if peer_mss c \<noteq> 0 then unat (peer_mss c) else TCP_MSS) in if m > TCP_MSS then TCP_MSS else m)"

lemma tcp_eff_mss_bounds: "0 < tcp_eff_mss c" "tcp_eff_mss c \<le> TCP_MSS"
  using unat_gt_0 [of "peer_mss c"] by (auto simp: tcp_eff_mss_def Let_def)

definition tcp_send_win :: "tcp_conn \<Rightarrow> u32" where
  "tcp_send_win c = (if ucast (peer_win c) < cwnd c then ucast (peer_win c) else cwnd c)"

definition tcp_in_flight :: "tcp_conn \<Rightarrow> nat" where
  "tcp_in_flight c = unat (snd_nxt c - snd_una c)"

definition tcp_xmit_size :: "u32 \<Rightarrow> tcp_conn \<Rightarrow> nat" where
  "tcp_xmit_size send_win c = min (min (snd_used c - tcp_in_flight c) (unat send_win - tcp_in_flight c)) (tcp_eff_mss c)"

text \<open>What the loop does after a successful \<open>tcp_put_pkt\<close> of \<open>n\<close> bytes.\<close>

definition tcp_xmit_sent :: "u32 \<Rightarrow> nat \<Rightarrow> tcp_conn \<Rightarrow> tcp_conn" where
  "tcp_xmit_sent now n c =
    (let c1 = (if \<not> rtt_pending c then c\<lparr> rtt_stamp := now, rtt_seq := snd_nxt c + of_nat n, rtt_pending := True,
                  rtt_retransmitted := False \<rparr> else c);
         c2 = c1\<lparr> snd_nxt := snd_nxt c1 + of_nat n \<rparr>
     in tcp_persist_clear (tcp_rto_rearm now (tcp_tx_add (snd_nxt c2 - of_nat n) n c2)))"

lemma tcp_tx_add_fields [simp]:
  "snd_nxt (tcp_tx_add sq n c) = snd_nxt c" "snd_una (tcp_tx_add sq n c) = snd_una c"
  "snd_used (tcp_tx_add sq n c) = snd_used c" "peer_mss (tcp_tx_add sq n c) = peer_mss c"
  "sndb (tcp_tx_add sq n c) = sndb c" "peer_win (tcp_tx_add sq n c) = peer_win c" "cwnd (tcp_tx_add sq n c) = cwnd c"
  by (simp_all add: tcp_tx_add_def Let_def)

lemma tcp_xmit_sent_fields [simp]:
  "snd_nxt (tcp_xmit_sent now n c) = snd_nxt c + of_nat n" "snd_una (tcp_xmit_sent now n c) = snd_una c"
  "snd_used (tcp_xmit_sent now n c) = snd_used c" "peer_mss (tcp_xmit_sent now n c) = peer_mss c"
  "sndb (tcp_xmit_sent now n c) = sndb c" "peer_win (tcp_xmit_sent now n c) = peer_win c"
  "cwnd (tcp_xmit_sent now n c) = cwnd c"
  by (simp_all add: tcp_xmit_sent_def Let_def tcp_persist_clear_def tcp_rto_rearm_def)

lemma tcp_in_flight_add:
  assumes "tcp_in_flight c + n < 2 ^ 32" "snd_nxt c' = snd_nxt c + of_nat n" "snd_una c' = snd_una c"
  shows "tcp_in_flight c' = tcp_in_flight c + n"
proof -
  have "snd_nxt c' - snd_una c' = of_nat (tcp_in_flight c + n)"
    using assms(2,3) by (simp add: tcp_in_flight_def)
  then have "tcp_in_flight c' = unat (of_nat (tcp_in_flight c + n) :: u32)" unfolding tcp_in_flight_def [of c'] by (simp only:)
  also have "\<dots> = tcp_in_flight c + n" using assms(1) by (simp only: unat_of_nat) simp
  finally show ?thesis .
qed

lemma tcp_xmit_progress:
  assumes n: "n = tcp_xmit_size send_win c" and w: "tcp_in_flight c < unat send_win" and u: "tcp_in_flight c < snd_used c"
    and p: "tcp_put_pkt fl sq ack d c s = (ok, c1, s1)"
  shows "0 < n" "n \<le> tcp_eff_mss c" "tcp_in_flight c + n \<le> unat send_win" "tcp_in_flight c + n \<le> snd_used c"
    "tcp_in_flight (tcp_xmit_sent now n c1) = tcp_in_flight c + n"
proof -
  show n1: "0 < n" "n \<le> tcp_eff_mss c" and n2: "tcp_in_flight c + n \<le> unat send_win" and "tcp_in_flight c + n \<le> snd_used c"
    using w u tcp_eff_mss_bounds [of c] by (auto simp: n tcp_xmit_size_def)
  show "tcp_in_flight (tcp_xmit_sent now n c1) = tcp_in_flight c + n"
    by (rule tcp_in_flight_add)
      (use n2 unat_u32_lt [of send_win] tcp_put_pkt_fields [OF p] in auto)
qed

function tcp_xmit_loop :: "u32 \<Rightarrow> tcp_conn \<Rightarrow> 'a arpst_scheme \<Rightarrow> tcp_conn \<times> 'a arpst_scheme" where
  "tcp_xmit_loop send_win c s =
    (if tcp_in_flight c \<ge> unat send_win \<or> snd_used c \<le> tcp_in_flight c then (c, s)
     else (let n = tcp_xmit_size send_win c in
       case tcp_put_pkt TCP_FLAG_ACKPSH (snd_nxt c) (rcv_nxt c) (sndb_at c (tcp_in_flight c) n) c s of
         (ok, c1, s1) \<Rightarrow> if ok then tcp_xmit_loop send_win (tcp_xmit_sent (ticks s1) n c1) s1 else (c1, s1)))"
  by pat_completeness auto
termination
proof (relation "measure (\<lambda>(w, c, s). snd_used c - tcp_in_flight c)", simp, clarsimp simp: not_le)
  fix send_win :: u32 and c c1 :: tcp_conn and s s1 :: "'a arpst_scheme"
  assume "tcp_in_flight c < unat send_win" "tcp_in_flight c < snd_used c"
    and p: "(True, c1, s1) = tcp_put_pkt TCP_FLAG_ACKPSH (snd_nxt c) (rcv_nxt c)
       (sndb_at c (tcp_in_flight c) (tcp_xmit_size send_win c)) c s"
  from tcp_xmit_progress [OF refl this(1,2) p [symmetric]] tcp_put_pkt_fields(3) [OF p [symmetric]]
  show "snd_used c1 - tcp_in_flight (tcp_xmit_sent (ticks s1) (tcp_xmit_size send_win c) c1) < snd_used c - tcp_in_flight c"
    by (metis \<open>tcp_in_flight c < snd_used c\<close> diff_less_mono2 less_add_same_cancel1)
qed

declare tcp_xmit_loop.simps [simp del]

definition tcp_xmit_pending :: "tcp_conn \<Rightarrow> 'a arpst_scheme \<Rightarrow> tcp_conn \<times> 'a arpst_scheme" where
  "tcp_xmit_pending c s =
    (if tcp_send_win c = 0 then (if snd_used c > tcp_in_flight c then (tcp_persist_arm (ticks s) c, s) else (c, s))
     else tcp_xmit_loop (tcp_send_win c) c s)"

section \<open>SACK retransmission, window updates\<close>

text \<open>The scan over the scoreboard from entry \<open>i\<close> on: the first lost segment that can be
  sent is, and a failed transmission tries the next.\<close>

function tcp_retransmit_from :: "nat \<Rightarrow> tcp_conn \<Rightarrow> 'a arpst_scheme \<Rightarrow> bool \<times> tcp_conn \<times> 'a arpst_scheme" where
  "tcp_retransmit_from i c s =
    (if i \<ge> length (tx c) then (False, c, s)
     else (let e = tx c ! i; off = tx_seq e - snd_una c in
       if \<not> (tx_lost e \<and> \<not> tx_sacked e \<and> \<not> tx_retransmitted e) then tcp_retransmit_from (Suc i) c s
       else if tcp_seq_before (tx_seq e) (snd_una c) \<or> unat (off + of_nat (tx_len e)) > snd_used c
       then tcp_retransmit_from (Suc i) c s
       else (case tcp_put_pkt TCP_FLAG_ACKPSH (tx_seq e) (rcv_nxt c) (sndb_at c (unat off) (tx_len e)) c s of
           (ok, c1, s1) \<Rightarrow>
             if \<not> ok then tcp_retransmit_from (Suc i) c1 s1
             else (True,
               tcp_rto_rearm (ticks s1) (c1\<lparr> tx := (tx c1)[i := (tx c1 ! i)\<lparr> tx_retransmitted := True \<rparr>], rtt_retransmitted := True \<rparr>),
               NETSTAT_INC tcp_sack_rexmit_update s1))))"
  by pat_completeness auto
termination
  by (relation "measure (\<lambda>(i, c, s). length (tx c) - i)")
    (auto simp: tcp_put_pkt_fields dest!: sym [of _ "tcp_put_pkt _ _ _ _ _ _"] intro: diff_less_mono2)

declare tcp_retransmit_from.simps [simp del]

definition tcp_tx_retransmit_lost :: "tcp_conn \<Rightarrow> 'a arpst_scheme \<Rightarrow> bool \<times> tcp_conn \<times> 'a arpst_scheme" where
  "tcp_tx_retransmit_lost c s = tcp_retransmit_from 0 c s"

definition tcp_window_update_ack :: "tcp_conn \<Rightarrow> 'a arpst_scheme \<Rightarrow> tcp_conn \<times> 'a arpst_scheme" where
  "tcp_window_update_ack c s =
    (if c_state c \<noteq> TCP_ESTABLISHED then (c, s)
     else (let nw = tcp_advertise_window c in
       if nw \<noteq> 0 \<and> ucast (adv_win c) < nw \<and> nw \<ge> 2 * ucast (adv_win c)
       then snd (tcp_put_pkt TCP_FLAG_ACK (snd_nxt c) (rcv_nxt c) [] c s)
       else (c, s)))"

section \<open>Send, receive and close on a connection\<close>

abbreviation (input) CATOS_EAGAIN :: int where "CATOS_EAGAIN \<equiv> 11"
abbreviation (input) CATOS_ECONNRESET :: int where "CATOS_ECONNRESET \<equiv> 104"

text \<open>\<open>data\<close> are the caller's \<open>len\<close> bytes.\<close>

definition tcp_send_conn :: "bytes \<Rightarrow> tcp_conn \<Rightarrow> 'a arpst_scheme \<Rightarrow> int \<times> tcp_conn \<times> 'a arpst_scheme" where
  "tcp_send_conn data c s =
    (if dead c then (- CATOS_ECONNRESET, c, s)
     else if c_state c \<noteq> TCP_ESTABLISHED then (- 1, c, s)
     else if length data = 0 then (0, c, s)
     else (let len0 = (if length data > 1460 then 1460 else length data);
               len = (if len0 > TCP_BUF_SIZE - snd_used c then TCP_BUF_SIZE - snd_used c else len0) in
       if len = 0 then (- CATOS_EAGAIN, c, s)
       else (int len, tcp_xmit_pending (c\<lparr> sndb := take (snd_used c) (sndb c) @ take len data @ drop (snd_used c + len) (sndb c),
                                           snd_used := snd_used c + len \<rparr>) s)))"

text \<open>The returned count, and the bytes written to the caller's buffer.\<close>

definition tcp_recv_conn :: "nat \<Rightarrow> tcp_conn \<Rightarrow> 'a arpst_scheme \<Rightarrow> (int \<times> bytes) \<times> tcp_conn \<times> 'a arpst_scheme" where
  "tcp_recv_conn max_len c s =
    (if dead c then ((- CATOS_ECONNRESET, []), c, s)
     else if rxb c = [] then
       ((if c_state c = TCP_CLOSE_WAIT \<or> c_state c = TCP_LAST_ACK \<or> c_state c = TCP_TIME_WAIT then 0 else - 1, []), c, s)
     else (case tcp_recv_take max_len c of (bs, c1) \<Rightarrow> ((int (length bs), bs), tcp_window_update_ack c1 s)))"

definition tcp_close_conn :: "tcp_conn \<Rightarrow> 'a arpst_scheme \<Rightarrow> tcp_conn \<times> 'a arpst_scheme" where
  "tcp_close_conn c s =
    (case (if c_state c = TCP_ESTABLISHED \<or> c_state c = TCP_CLOSE_WAIT then
             (case tcp_put_pkt TCP_FLAG_FINACK (snd_nxt c) (rcv_nxt c) [] c s of
                (ok, c1, s1) \<Rightarrow>
                  (tcp_rto_arm (ticks s1) (c1\<lparr> snd_nxt := snd_nxt c1 + 1,
                     c_state := (if c_state c = TCP_ESTABLISHED then TCP_FIN_WAIT_1 else TCP_LAST_ACK) \<rparr>), s1))
           else (c, s)) of
       (c2, s2) \<Rightarrow> (c2\<lparr> c_accepted := False \<rparr>, s2))"

end
