(* ===== verification/TcpInput.thy ===== *)
theory TcpInput
  imports TcpIo
begin

text \<open>
  Segment arrival on an existing connection (\<open>tcp_handle\<close>, \<^verbatim>\<open>src/net/net_tcp.c\<close> lines 527
  to 697) and the timer of one connection (\<open>tcp_tick\<close>, lines 707 to 780).  The handler is
  cut where its comments number its steps: reset, window and options, acknowledgement,
  state machine.
\<close>

section \<open>The parsed segment\<close>

record tcp_in =
  ti_src :: u32
  ti_sport :: u16
  ti_dport :: u16
  ti_flags :: u8
  ti_seq :: u32
  ti_ack :: u32
  ti_win :: u16
  ti_opts :: bytes
  ti_data :: bytes
  ti_dlen :: u32

definition flag_set :: "tcp_in \<Rightarrow> u8 \<Rightarrow> bool" where
  "flag_set m f \<longleftrightarrow> ti_flags m AND f \<noteq> 0"

section \<open>Step 1: reset\<close>

definition tcp_in_rst :: "tcp_in \<Rightarrow> tcp_conn \<Rightarrow> 'a arpst_scheme \<Rightarrow> tcp_conn \<times> 'a arpst_scheme" where
  "tcp_in_rst m c s =
    (let rcv_win = of_nat (TCP_BUF_SIZE - length (rxb c)) :: u32 in
     if ti_seq m \<noteq> rcv_nxt c \<and> tcp_seq_after (ti_seq m) (rcv_nxt c) \<and> tcp_seq_before (ti_seq m) (rcv_nxt c + rcv_win)
     then snd (tcp_put_pkt TCP_FLAG_ACK (snd_nxt c) (rcv_nxt c) [] c s)
     else if ti_seq m = rcv_nxt c
     then (c\<lparr> dead := True, c_used := False, c_state := TCP_CLOSED, rto_deadline := 0, persist_deadline := 0, tw_until := 0 \<rparr>, s)
     else (c, s))"

section \<open>Step 2: window and options\<close>

definition tcp_in_window :: "tcp_in \<Rightarrow> u32 \<Rightarrow> tcp_conn \<Rightarrow> tcp_conn" where
  "tcp_in_window m now c =
    (let c1 = c\<lparr> peer_win := ti_win m \<rparr>;
         c2 = (if flag_set m TCP_FLAG_ACK \<and> peer_win c1 \<noteq> 0 then tcp_persist_clear c1
               else if flag_set m TCP_FLAG_ACK \<and> peer_win c1 = 0 \<and> snd_used c1 > tcp_in_flight c1 then tcp_persist_arm now c1
               else c1)
     in tcp_parse_opts (ti_opts m) False (c2\<lparr> sacks := [] \<rparr>))"

section \<open>Step 3: acknowledgement\<close>

definition tcp_fast_retransmit :: "u32 \<Rightarrow> bool \<Rightarrow> tcp_conn \<Rightarrow> 'a arpst_scheme \<Rightarrow> tcp_conn \<times> 'a arpst_scheme" where
  "tcp_fast_retransmit in_flight retx c s =
    (let c1 = (tcp_loss_window in_flight c)\<lparr> dupacks := 3 \<rparr>;
         c2 = c1\<lparr> cwnd := ssthresh c1 + 3 * of_nat TCP_MSS, fast_recovery := True, recover_seq := snd_nxt c1 \<rparr>
     in case (if \<not> retx \<and> sacks c2 \<noteq> [] then tcp_tx_retransmit_lost c2 s else (retx, c2, s)) of
          (retx1, c3, s3) \<Rightarrow>
            if retx1 then (c3, s3)
            else (case tcp_put_pkt TCP_FLAG_ACKPSH (snd_una c3) (rcv_nxt c3)
                     (sndb_at c3 0 (if unat in_flight > TCP_MSS then TCP_MSS else unat in_flight)) c3 s3 of
                (ok, c4, s4) \<Rightarrow>
                  (tcp_rto_rearm (ticks s4) (if ok then c4\<lparr> rtt_retransmitted := True \<rparr> else c4\<lparr> fast_recovery := False \<rparr>), s4)))"

definition tcp_in_dupack :: "u32 \<Rightarrow> tcp_conn \<Rightarrow> 'a arpst_scheme \<Rightarrow> tcp_conn \<times> 'a arpst_scheme" where
  "tcp_in_dupack in_flight c s =
    (let c1 = c\<lparr> dupacks := dupacks c + 1 \<rparr> in
     case (if sacks c1 \<noteq> [] then tcp_tx_retransmit_lost c1 s else (False, c1, s)) of
       (retx, c2, s2) \<Rightarrow>
         if dupacks c2 = 3 then tcp_fast_retransmit in_flight retx c2 s2
         else if fast_recovery c2 \<and> dupacks c2 > 3 then tcp_xmit_pending (c2\<lparr> cwnd := cwnd c2 + of_nat TCP_MSS \<rparr>) s2
         else (c2, s2))"

text \<open>The bookkeeping of an acknowledgement that advances \<open>snd_una\<close>: round-trip sample, send
  buffer and scoreboard, congestion window, end of fast recovery.\<close>

definition tcp_acked :: "u32 \<Rightarrow> tcp_conn \<Rightarrow> u32" where
  "tcp_acked ack c = (let acked = ack - snd_una c in if unat acked > snd_used c then of_nat (snd_used c) else acked)"

definition tcp_ack_rtt :: "u32 \<Rightarrow> u32 \<Rightarrow> tcp_conn \<Rightarrow> tcp_conn" where
  "tcp_ack_rtt ack now c =
    (if rtt_pending c \<and> \<not> tcp_seq_before ack (rtt_seq c)
     then (if \<not> rtt_retransmitted c then (tcp_rtt_sample (now - rtt_stamp c) c)\<lparr> rtt_pending := False \<rparr>
           else c\<lparr> rtt_pending := False \<rparr>)
     else c)"

definition tcp_ack_buf :: "u32 \<Rightarrow> u32 \<Rightarrow> tcp_conn \<Rightarrow> tcp_conn" where
  "tcp_ack_buf ack acked c =
    (let k = unat acked; c1 = c\<lparr> snd_una := ack \<rparr> in
     tcp_tx_ack ack
       (if acked \<noteq> 0
        then c1\<lparr> sndb := take (snd_used c1 - k) (drop k (sndb c1)) @ drop (snd_used c1 - k) (sndb c1),
                 snd_used := snd_used c1 - k \<rparr>
        else c1))"

definition tcp_ack_cwnd :: "u32 \<Rightarrow> tcp_conn \<Rightarrow> tcp_conn" where
  "tcp_ack_cwnd acked c =
    (if acked = 0 then c
     else if cwnd c < ssthresh c
     then c\<lparr> cwnd := cwnd c + (if acked > of_nat TCP_MSS then of_nat TCP_MSS else acked) \<rparr>
     else (let inc = (of_nat TCP_MSS * acked) div (if cwnd c \<noteq> 0 then cwnd c else of_nat TCP_MSS)
           in c\<lparr> cwnd := cwnd c + (if inc \<noteq> 0 then inc else 1) \<rparr>))"

definition tcp_ack_recovered :: "u32 \<Rightarrow> tcp_conn \<Rightarrow> tcp_conn" where
  "tcp_ack_recovered ack c =
    (if fast_recovery c \<and> (tcp_seq_after ack (recover_seq c) \<or> ack = recover_seq c)
     then c\<lparr> cwnd := ssthresh c, fast_recovery := False \<rparr> else c)
    \<lparr> dupacks := 0, rto_backoff := 0, rto_attempts := 0 \<rparr>"

definition tcp_ack_advance :: "u32 \<Rightarrow> u32 \<Rightarrow> tcp_conn \<Rightarrow> tcp_conn" where
  "tcp_ack_advance ack now c =
    (let acked = tcp_acked ack c
     in tcp_ack_recovered ack (tcp_ack_cwnd acked (tcp_ack_buf ack acked (tcp_ack_rtt ack now c))))"

definition tcp_in_newack :: "u32 \<Rightarrow> tcp_conn \<Rightarrow> 'a arpst_scheme \<Rightarrow> tcp_conn \<times> 'a arpst_scheme" where
  "tcp_in_newack ack c s =
    (let c1 = tcp_ack_advance ack (ticks s) c in
     case (if sacks c1 = [] then (False, c1, s) else tcp_tx_retransmit_lost c1 s) of
       (retx, c2, s2) \<Rightarrow>
         (case (if retx then (c2, s2) else tcp_xmit_pending c2 s2) of
            (c3, s3) \<Rightarrow>
              (if snd_nxt c3 = snd_una c3 then c3\<lparr> rto_deadline := 0 \<rparr>
               else if rto_deadline c3 = 0 then tcp_rto_rearm (ticks s3) c3 else c3, s3)))"

definition tcp_in_ack :: "tcp_in \<Rightarrow> u16 \<Rightarrow> tcp_conn \<Rightarrow> 'a arpst_scheme \<Rightarrow> tcp_conn \<times> 'a arpst_scheme" where
  "tcp_in_ack m old_win c s =
    (if \<not> flag_set m TCP_FLAG_ACK then (c, s)
     else (let in_flight = snd_nxt c - snd_una c; ack = ti_ack m;
               c1 = (if sacks c \<noteq> [] then tcp_tx_sack c else c) in
       if ack = snd_una c1 \<and> in_flight \<noteq> 0 \<and> peer_win c1 \<le> old_win then tcp_in_dupack in_flight c1 s
       else if ack = snd_una c1 \<and> peer_win c1 > old_win then tcp_xmit_pending (c1\<lparr> dupacks := 0 \<rparr>) s
       else if tcp_seq_after ack (snd_una c1) \<and> \<not> tcp_seq_after ack (snd_nxt c1) then tcp_in_newack ack c1 s
       else (c1, s)))"

section \<open>Step 4: the state machine\<close>

text \<open>A bare acknowledgement of \<open>rcv_nxt\<close>.\<close>

definition tcp_ack_now :: "tcp_conn \<Rightarrow> 'a arpst_scheme \<Rightarrow> tcp_conn \<times> 'a arpst_scheme" where
  "tcp_ack_now c s = snd (tcp_put_pkt TCP_FLAG_ACK (snd_nxt c) (rcv_nxt c) [] c s)"

definition tcp_in_data :: "tcp_in \<Rightarrow> tcp_conn \<Rightarrow> 'a arpst_scheme \<Rightarrow> tcp_conn \<times> 'a arpst_scheme" where
  "tcp_in_data m c s =
    (if ti_dlen m = 0 then (c, s)
     else tcp_ack_now (snd (tcp_accept_data (ti_seq m) (ti_data m) (unat (ti_dlen m)) c)) s)"

definition tcp_in_syn_received :: "tcp_in \<Rightarrow> tcp_conn \<Rightarrow> 'a arpst_scheme \<Rightarrow> tcp_conn \<times> 'a arpst_scheme" where
  "tcp_in_syn_received m c s =
    tcp_in_data m (if flag_set m TCP_FLAG_ACK \<and> ti_ack m = snd_nxt c
                   then c\<lparr> c_state := TCP_ESTABLISHED, rto_deadline := 0, rto_attempts := 0, rto_backoff := 0 \<rparr>
                   else c) s"

definition tcp_time_wait :: "u32 \<Rightarrow> tcp_conn \<Rightarrow> tcp_conn" where
  "tcp_time_wait now c = c\<lparr> c_state := TCP_TIME_WAIT, tw_until := now + 200 \<rparr>"

text \<open>An in-sequence FIN, after its acknowledgement has been sent.\<close>

definition tcp_in_fin :: "tcp_conn \<Rightarrow> 'a arpst_scheme \<Rightarrow> tcp_conn \<times> 'a arpst_scheme" where
  "tcp_in_fin c s =
    (if c_state c = TCP_FIN_WAIT_1
     then (if snd_una c \<ge> snd_nxt c then (tcp_time_wait (ticks s) c, s) else (c\<lparr> c_state := TCP_CLOSING \<rparr>, s))
     else if c_state c = TCP_FIN_WAIT_2 \<or> c_state c = TCP_CLOSING then (tcp_time_wait (ticks s) c, s)
     else if c_state c = TCP_CLOSE_WAIT then (c, s)
     else (case tcp_put_pkt TCP_FLAG_FINACK (snd_nxt c) (rcv_nxt c) [] (c\<lparr> c_state := TCP_CLOSE_WAIT \<rparr>) s of
         (ok, c1, s1) \<Rightarrow> (tcp_rto_arm (ticks s1) (c1\<lparr> snd_nxt := snd_nxt c1 + 1, c_state := TCP_LAST_ACK \<rparr>), s1)))"

definition tcp_active_close :: "tcp_in \<Rightarrow> u32 \<Rightarrow> tcp_conn \<Rightarrow> tcp_conn" where
  "tcp_active_close m now c =
    (let c1 = (if c_state c = TCP_FIN_WAIT_1 \<and> flag_set m TCP_FLAG_ACK \<and> snd_una c \<ge> snd_nxt c
               then c\<lparr> c_state := TCP_FIN_WAIT_2, rto_deadline := 0 \<rparr> else c)
     in if c_state c1 = TCP_CLOSING \<and> flag_set m TCP_FLAG_ACK \<and> snd_una c1 \<ge> snd_nxt c1
        then tcp_time_wait now c1 else c1)"

definition tcp_in_synchronized :: "tcp_in \<Rightarrow> tcp_conn \<Rightarrow> 'a arpst_scheme \<Rightarrow> tcp_conn \<times> 'a arpst_scheme" where
  "tcp_in_synchronized m c s =
    (case tcp_in_data m c s of
       (c1, s1) \<Rightarrow>
         if flag_set m TCP_FLAG_FIN \<and> ti_seq m + ti_dlen m = rcv_nxt c1
         then (case tcp_ack_now (c1\<lparr> rcv_nxt := rcv_nxt c1 + 1 \<rparr>) s1 of (c2, s2) \<Rightarrow> tcp_in_fin c2 s2)
         else (case (if flag_set m TCP_FLAG_FIN then tcp_ack_now c1 s1 else (c1, s1)) of
             (c2, s2) \<Rightarrow> (tcp_active_close m (ticks s2) c2, s2)))"

definition tcp_in_last_ack :: "tcp_in \<Rightarrow> tcp_conn \<Rightarrow> 'a arpst_scheme \<Rightarrow> tcp_conn \<times> 'a arpst_scheme" where
  "tcp_in_last_ack m c s =
    (if flag_set m TCP_FLAG_FIN \<and> ti_seq m + ti_dlen m + 1 = rcv_nxt c then tcp_ack_now c s
     else if flag_set m TCP_FLAG_ACK \<and> ti_ack m \<ge> snd_nxt c
     then (c\<lparr> c_used := False, c_state := TCP_CLOSED, rto_deadline := 0 \<rparr>, s)
     else (c, s))"

definition tcp_in_state :: "tcp_in \<Rightarrow> tcp_conn \<Rightarrow> 'a arpst_scheme \<Rightarrow> tcp_conn \<times> 'a arpst_scheme" where
  "tcp_in_state m c s =
    (case c_state c of
       TCP_SYN_RECEIVED \<Rightarrow> tcp_in_syn_received m c s
     | TCP_ESTABLISHED \<Rightarrow> tcp_in_synchronized m c s
     | TCP_FIN_WAIT_1 \<Rightarrow> tcp_in_synchronized m c s
     | TCP_FIN_WAIT_2 \<Rightarrow> tcp_in_synchronized m c s
     | TCP_CLOSE_WAIT \<Rightarrow> tcp_in_synchronized m c s
     | TCP_CLOSING \<Rightarrow> tcp_in_synchronized m c s
     | TCP_LAST_ACK \<Rightarrow> tcp_in_last_ack m c s
     | TCP_TIME_WAIT \<Rightarrow> (if flag_set m TCP_FLAG_FIN \<or> ti_dlen m \<noteq> 0 then tcp_ack_now c s else (c, s))
     | _ \<Rightarrow> (c, s))"

text \<open>The whole of lines 527 to 697.\<close>

definition tcp_conn_input :: "tcp_in \<Rightarrow> tcp_conn \<Rightarrow> 'a arpst_scheme \<Rightarrow> tcp_conn \<times> 'a arpst_scheme" where
  "tcp_conn_input m c s =
    (if c_state c = TCP_SYN_RECEIVED \<and> flag_set m TCP_FLAG_SYN \<and> ti_seq m = rcv_isn c
     then (case tcp_put_pkt TCP_FLAG_SYNACK (snd_isn c) (rcv_nxt c) [] c s of
         (ok, c1, s1) \<Rightarrow> (tcp_rto_arm (ticks s1) c1, s1))
     else if flag_set m TCP_FLAG_RST then tcp_in_rst m c s
     else (case tcp_in_ack m (peer_win c) (tcp_in_window m (ticks s) c) s of
         (c1, s1) \<Rightarrow> tcp_in_state m c1 s1))"

section \<open>The timer of one connection\<close>

text \<open>The acceptance service on port 81: sixteen writes of ninety bytes.\<close>

definition tcp_test_buf :: "nat \<Rightarrow> bytes" where
  "tcp_test_buf k = map (\<lambda>j. of_nat (65 + (k * 90 + j) mod 26)) [0..<90]"

fun tcp_test_send :: "nat list \<Rightarrow> tcp_conn \<Rightarrow> 'a arpst_scheme \<Rightarrow> tcp_conn \<times> 'a arpst_scheme" where
  "tcp_test_send [] c s = (c, s)"
| "tcp_test_send (k # ks) c s =
    (case tcp_send_conn (tcp_test_buf k) c s of
       (n, c1, s1) \<Rightarrow> if n \<noteq> 90 then (c1, s1) else tcp_test_send ks c1 s1)"

definition tcp_tick_test :: "tcp_conn \<Rightarrow> 'a arpst_scheme \<Rightarrow> tcp_conn \<times> 'a arpst_scheme" where
  "tcp_tick_test c s =
    (if c_state c = TCP_ESTABLISHED \<and> c_lport c = 81 then
       (if \<not> test_sent c then (case tcp_test_send [0..<16] c s of (c1, s1) \<Rightarrow> (c1\<lparr> test_sent := True \<rparr>, s1))
        else if \<not> test_closed c \<and> snd_used c = 0 \<and> snd_nxt c = snd_una c
        then (case tcp_close_conn c s of (c1, s1) \<Rightarrow> (c1\<lparr> test_closed := True \<rparr>, s1))
        else (c, s))
     else (c, s))"

text \<open>\<open>deadline \<and> (int32_t)(ticks - deadline) >= 0\<close>.\<close>

definition timer_due :: "u32 \<Rightarrow> u32 \<Rightarrow> bool" where
  "timer_due now deadline \<longleftrightarrow> deadline \<noteq> 0 \<and> tick_diff now deadline \<ge> 0"

definition tcp_tick_persist :: "tcp_conn \<Rightarrow> 'a arpst_scheme \<Rightarrow> tcp_conn \<times> 'a arpst_scheme" where
  "tcp_tick_persist c s =
    (if \<not> timer_due (ticks s) (persist_deadline c) then (c, s)
     else if peer_win c \<noteq> 0 \<or> snd_used c \<le> tcp_in_flight c then (tcp_persist_clear c, s)
     else (case tcp_put_pkt TCP_FLAG_ACKPSH (snd_una c) (rcv_nxt c) (sndb_at c 0 1) c s of
         (ok, c1, s1) \<Rightarrow>
           (let s2 = NETSTAT_INC tcp_persist_probe_update s1
            in (tcp_persist_retry (ticks s2) (c1\<lparr> rtt_retransmitted := True \<rparr>), s2))))"

definition tcp_r2 :: "tcp_conn \<Rightarrow> u8" where
  "tcp_r2 c = (if c_state c = TCP_SYN_RECEIVED then 3 else 5)"

text \<open>Repeat a control segment and back off.\<close>

definition tcp_rto_resend :: "u8 \<Rightarrow> u32 \<Rightarrow> bytes \<Rightarrow> tcp_conn \<Rightarrow> 'a arpst_scheme \<Rightarrow> tcp_conn \<times> 'a arpst_scheme" where
  "tcp_rto_resend flags sq data c s =
    (case tcp_put_pkt flags sq (rcv_nxt c) data c (NETSTAT_INC tcp_rto_rexmit_update s) of
       (ok, c1, s1) \<Rightarrow> (tcp_rto_retry (ticks s1) c1, s1))"

definition tcp_tick_rto :: "tcp_conn \<Rightarrow> 'a arpst_scheme \<Rightarrow> tcp_conn \<times> 'a arpst_scheme" where
  "tcp_tick_rto c s =
    (if \<not> timer_due (ticks s) (rto_deadline c) then (c, s)
     else if rto_attempts c \<ge> tcp_r2 c
     then (c\<lparr> c_used := False, c_state := TCP_CLOSED, rto_deadline := 0, persist_deadline := 0, tw_until := 0 \<rparr>, s)
     else if c_state c = TCP_SYN_RECEIVED then tcp_rto_resend TCP_FLAG_SYNACK (snd_isn c) [] c s
     else if c_state c = TCP_LAST_ACK then tcp_rto_resend TCP_FLAG_FINACK (snd_nxt c - 1) [] c s
     else if (c_state c = TCP_FIN_WAIT_1 \<or> c_state c = TCP_CLOSING) \<and> snd_used c = 0
     then tcp_rto_resend TCP_FLAG_FINACK (snd_nxt c - 1) [] c s
     else if snd_used c \<noteq> 0 then
       (let in_flight = (if tcp_in_flight c > snd_used c then snd_used c else tcp_in_flight c);
            c1 = (tcp_loss_window (of_nat in_flight) (tcp_tx_clear_marks c))\<lparr> rtt_retransmitted := True \<rparr>
        in tcp_rto_resend TCP_FLAG_ACKPSH (snd_una c1) (sndb_at c1 0 in_flight) c1 s)
     else (c\<lparr> rto_deadline := 0 \<rparr>, s))"

definition tcp_tick_conn :: "tcp_conn \<Rightarrow> 'a arpst_scheme \<Rightarrow> tcp_conn \<times> 'a arpst_scheme" where
  "tcp_tick_conn c s =
    (if \<not> c_used c then (c, s)
     else if c_state c = TCP_TIME_WAIT then
       (if timer_due (ticks s) (tw_until c) then (c\<lparr> c_used := False, c_state := TCP_CLOSED \<rparr>, s) else (c, s))
     else (case tcp_tick_test c s of
         (c1, s1) \<Rightarrow> (case tcp_tick_persist c1 s1 of (c2, s2) \<Rightarrow> tcp_tick_rto c2 s2)))"

end
