(* ===== verification/TcpTable.thy ===== *)
theory TcpTable
  imports TcpInput
begin

text \<open>
  The connection table and the socket calls over it, \<^verbatim>\<open>src/net/net_tcp.c\<close>: lookup,
  listen, the SYN half of \<open>tcp_handle\<close>, the dispatch to a connection, the tick over the
  table, accept, poll, send, receive, close.

  A pointer to a connection is its index in \<open>tcp_conns\<close>; the \<open>socket_t\<close> handles live in
  \<open>tcp_socks\<close> (listeners opened by the kernel) and \<open>tcp_handles\<close>.
\<close>

section \<open>State\<close>

record tcpst = icmpst +
  seq_gen :: u32
  tcp_conns :: "tcp_conn list"
  tcp_socks :: "socket list"
  tcp_handles :: "socket list"

definition set_conn :: "nat \<Rightarrow> tcp_conn \<Rightarrow> 'a tcpst_scheme \<Rightarrow> 'a tcpst_scheme" where
  "set_conn i c s = s\<lparr> tcp_conns := (tcp_conns s)[i := c] \<rparr>"

text \<open>Run an operation of one connection and store its result.\<close>

definition on_conn ::
  "nat \<Rightarrow> (tcp_conn \<Rightarrow> 'a tcpst_scheme \<Rightarrow> tcp_conn \<times> 'a tcpst_scheme) \<Rightarrow> 'a tcpst_scheme \<Rightarrow> 'a tcpst_scheme" where
  "on_conn i f s = (case f (tcp_conns s ! i) s of (c, s1) \<Rightarrow> set_conn i c s1)"

section \<open>Lookup\<close>

definition tcp_conn_find_free :: "'a tcpst_scheme \<Rightarrow> nat option" where
  "tcp_conn_find_free s = find_idx (\<lambda>c. \<not> c_used c) (tcp_conns s)"

definition tcp_conn_find_peer :: "u32 \<Rightarrow> u16 \<Rightarrow> 'a tcpst_scheme \<Rightarrow> nat option" where
  "tcp_conn_find_peer ip sport s = find_idx (\<lambda>c. c_used c \<and> peer_ip c = ip \<and> peer_port c = sport) (tcp_conns s)"

definition tcp_conn_find_listen :: "u16 \<Rightarrow> 'a tcpst_scheme \<Rightarrow> nat option" where
  "tcp_conn_find_listen port s = find_idx (\<lambda>c. c_used c \<and> c_state c = TCP_LISTEN \<and> c_lport c = port) (tcp_conns s)"

definition tcp_pending :: "u16 \<Rightarrow> tcp_conn \<Rightarrow> bool" where
  "tcp_pending port c \<longleftrightarrow> c_used c \<and> \<not> c_accepted c \<and> c_lport c = port \<and>
     (c_state c = TCP_SYN_RECEIVED \<or> c_state c = TCP_ESTABLISHED)"

definition tcp_pending_count :: "u16 \<Rightarrow> 'a tcpst_scheme \<Rightarrow> nat" where
  "tcp_pending_count port s = length (filter (tcp_pending port) (tcp_conns s))"

definition tcp_drop_pending :: "u16 \<Rightarrow> 'a tcpst_scheme \<Rightarrow> 'a tcpst_scheme" where
  "tcp_drop_pending port s = s\<lparr> tcp_conns := map (\<lambda>c. if tcp_pending port c
     then c\<lparr> c_used := False, c_state := TCP_CLOSED, rto_deadline := 0, persist_deadline := 0, tw_until := 0 \<rparr> else c)
     (tcp_conns s) \<rparr>"

section \<open>Listen\<close>

text \<open>A fresh listener in a reused slot.\<close>

definition tcp_listen_init :: "u16 \<Rightarrow> tcp_conn \<Rightarrow> tcp_conn" where
  "tcp_listen_init port c =
    (let c1 = c\<lparr> c_used := True, c_state := TCP_LISTEN, c_backlog := of_nat TCP_MAX_CONNS, c_lport := port, peer_ip := 0,
                 peer_port := 0, c_accepted := False, dead := False, rxb := [], snd_used := 0, snd_isn := 0, snd_nxt := 0,
                 snd_una := 0, rto_deadline := 0, rto_backoff := 0, tw_until := 0, persist_deadline := 0, persist_backoff := 0 \<rparr>
     in (tcp_cc_init (tcp_tx_reset c1))\<lparr> rto_attempts := 0, peer_mss := 0, adv_win := 0, sack_ok := False, sacks := [],
          ooo := replicate TCP_OOO_SLOTS None, ooo_bytes := 0, test_sent := False, test_closed := False \<rparr>)"

text \<open>The returned handle is always \<open>tcp_socks[0]\<close>.\<close>

definition tcp_listen :: "u16 \<Rightarrow> 'a tcpst_scheme \<Rightarrow> nat option \<times> 'a tcpst_scheme" where
  "tcp_listen port s =
    (case tcp_conn_find_free s of
       None \<Rightarrow> (None, s)
     | Some i \<Rightarrow>
        (let s1 = set_conn i (tcp_listen_init port (tcp_conns s ! i)) s in
         (Some 0, case find_idx (\<lambda>h. so_type h = SOCK_CLOSED) (tcp_socks s1) of
            None \<Rightarrow> s1
          | Some j \<Rightarrow> s1\<lparr> tcp_socks := (tcp_socks s1)[j := (tcp_socks s1 ! j)\<lparr> so_type := SOCK_TCP_LISTEN, so_conn := Some i \<rparr>] \<rparr>)))"

section \<open>Arrival\<close>

text \<open>Retire an incarnation that a new SYN replaces.\<close>

definition tcp_recycle :: "tcp_conn \<Rightarrow> tcp_conn" where
  "tcp_recycle c = c\<lparr> c_used := False, c_state := TCP_CLOSED, rto_deadline := 0, persist_deadline := 0, tw_until := 0 \<rparr>"

definition tcp_stale :: "tcp_in \<Rightarrow> tcp_conn \<Rightarrow> bool" where
  "tcp_stale m c \<longleftrightarrow> flag_set m TCP_FLAG_SYN \<and> \<not> flag_set m TCP_FLAG_ACK \<and>
     c_state c \<in> {TCP_TIME_WAIT, TCP_LAST_ACK, TCP_CLOSE_WAIT, TCP_CLOSING, TCP_FIN_WAIT_1, TCP_FIN_WAIT_2}"

text \<open>The block run with interrupts disabled: a new half-open connection in slot \<open>c\<close>.\<close>

definition tcp_syn_init :: "tcp_in \<Rightarrow> u32 \<Rightarrow> tcp_conn \<Rightarrow> tcp_conn" where
  "tcp_syn_init m isn c =
    (let c1 = c\<lparr> c_state := TCP_SYN_RECEIVED, c_lport := ti_dport m, peer_ip := ti_src m, peer_port := ti_sport m,
                 peer_win := ti_win m, c_accepted := False, rxb := [], snd_used := 0 \<rparr>;
         c2 = (tcp_tx_reset c1)\<lparr> test_sent := False, test_closed := False, persist_deadline := 0, persist_backoff := 0, dead := False \<rparr>;
         c3 = tcp_parse_opts (ti_opts m) True (tcp_cc_init c2)
     in c3\<lparr> rcv_isn := ti_seq m, rcv_nxt := ti_seq m + 1, snd_isn := isn, snd_nxt := isn + 1, snd_una := isn + 1, c_used := True \<rparr>)"

definition tcp_reject :: "tcp_in \<Rightarrow> 'a tcpst_scheme \<Rightarrow> 'a tcpst_scheme" where
  "tcp_reject m s = NETSTAT_INC tcp_rst_sent_update
     (tcp_send_rst_ack (ti_src m) (ti_dport m) (ti_sport m) (ti_seq m) (ti_flags m) (ti_dlen m) s)"

definition tcp_no_conn :: "tcp_in \<Rightarrow> 'a tcpst_scheme \<Rightarrow> 'a tcpst_scheme" where
  "tcp_no_conn m s =
    (case tcp_conn_find_listen (ti_dport m) s of
       None \<Rightarrow> tcp_reject m s
     | Some l \<Rightarrow>
        (if \<not> flag_set m TCP_FLAG_SYN then tcp_reject m s
         else if tcp_pending_count (ti_dport m) s \<ge> unat (c_backlog (tcp_conns s ! l)) then tcp_reject m s
         else (case tcp_conn_find_free s of
             None \<Rightarrow> tcp_reject m s
           | Some i \<Rightarrow>
              (let isn = seq_gen s;
                   s1 = set_conn i (tcp_syn_init m isn (tcp_conns s ! i)) (s\<lparr> seq_gen := isn + 1 \<rparr>)
               in on_conn i (\<lambda>c s. case tcp_put_pkt TCP_FLAG_SYNACK (snd_isn c) (rcv_nxt c) [] c s of
                    (ok, c1, s2) \<Rightarrow> (tcp_rto_arm (ticks s2) c1, s2)) s1))))"

definition tcp_dispatch :: "tcp_in \<Rightarrow> 'a tcpst_scheme \<Rightarrow> 'a tcpst_scheme" where
  "tcp_dispatch m s =
    (case tcp_conn_find_peer (ti_src m) (ti_sport m) s of
       None \<Rightarrow> tcp_no_conn m s
     | Some i \<Rightarrow>
        (if tcp_stale m (tcp_conns s ! i) then tcp_no_conn m (set_conn i (tcp_recycle (tcp_conns s ! i)) s)
         else on_conn i (tcp_conn_input m) s))"

text \<open>\<open>seg\<close> is the memory from the segment on, \<open>seglen\<close> the length the caller computed, which
  may exceed it; \<open>None\<close> is a read past the frame.  The checksum is not looked at.\<close>

definition tcp_in_of :: "bytes \<Rightarrow> nat \<Rightarrow> u32 \<Rightarrow> u32 \<Rightarrow> tcp_in" where
  "tcp_in_of seg hl seglen src_ip =
    \<lparr> ti_src = src_ip, ti_sport = ntoh16 (rd16 seg 0), ti_dport = ntoh16 (rd16 seg 2), ti_flags = byte_at seg 13,
      ti_seq = ntoh32 (rd32 seg 4), ti_ack = ntoh32 (rd32 seg 8), ti_win = ntoh16 (rd16 seg 14),
      ti_opts = take (hl - 20) (drop 20 seg), ti_data = drop hl seg, ti_dlen = seglen - of_nat hl \<rparr>"

definition tcp_hlen :: "bytes \<Rightarrow> nat" where
  "tcp_hlen seg = unat (drop_bit 4 (byte_at seg 12) AND 0xF) * 4"

definition tcp_handle :: "bytes \<Rightarrow> u32 \<Rightarrow> u32 \<Rightarrow> 'a tcpst_scheme \<Rightarrow> 'a tcpst_scheme option" where
  "tcp_handle seg seglen src_ip s =
    (if seglen < 20 then Some s
     else if length seg < 20 then None
     else if tcp_hlen seg < 20 \<or> tcp_hlen seg > unat seglen then Some s
     else if length seg < tcp_hlen seg then None
     else Some (tcp_dispatch (tcp_in_of seg (tcp_hlen seg) seglen src_ip) s))"

section \<open>The tick\<close>

definition tcp_tick :: "'a tcpst_scheme \<Rightarrow> 'a tcpst_scheme" where
  "tcp_tick s = fold (\<lambda>i. on_conn i tcp_tick_conn) [0..<TCP_MAX_CONNS] s"

section \<open>Socket calls\<close>

text \<open>A handle argument is \<open>None\<close> for a NULL pointer.\<close>

definition tcp_accept_ready :: "u16 \<Rightarrow> tcp_conn \<Rightarrow> bool" where
  "tcp_accept_ready port c \<longleftrightarrow> c_used c \<and> c_state c = TCP_ESTABLISHED \<and> c_lport c = port \<and> \<not> c_accepted c"

definition sock_lport :: "socket \<Rightarrow> 'a tcpst_scheme \<Rightarrow> u16" where
  "sock_lport h s = c_lport (tcp_conns s ! the (so_conn h))"

definition tcp_accept_socket :: "socket option \<Rightarrow> 'a tcpst_scheme \<Rightarrow> nat option \<times> 'a tcpst_scheme" where
  "tcp_accept_socket h s =
    (case h of None \<Rightarrow> (None, s)
     | Some k \<Rightarrow>
        if so_type k \<noteq> SOCK_TCP_LISTEN then (None, s)
        else (case find_idx (tcp_accept_ready (sock_lport k s)) (tcp_conns s) of
            None \<Rightarrow> (None, s)
          | Some i \<Rightarrow>
             (case find_idx (\<lambda>g. so_type g = SOCK_CLOSED) (tcp_handles s) of
                None \<Rightarrow> (None, s)
              | Some j \<Rightarrow>
                 (Some j, (set_conn i ((tcp_conns s ! i)\<lparr> c_accepted := True \<rparr>) s)
                    \<lparr> tcp_handles := (tcp_handles s)[j := \<lparr> so_type = SOCK_TCP_ESTAB, so_lport = 0, so_slot = 0,
                         so_owned = False, so_conn = Some i \<rparr>] \<rparr>))))"

definition tcp_accept :: "socket option \<Rightarrow> 'a tcpst_scheme \<Rightarrow> (u32 \<times> u16) option \<times> 'a tcpst_scheme" where
  "tcp_accept h s =
    (case h of None \<Rightarrow> (None, s)
     | Some k \<Rightarrow>
        if so_type k \<noteq> SOCK_TCP_LISTEN then (None, s)
        else (case find_idx (tcp_accept_ready (sock_lport k s)) (tcp_conns s) of
            None \<Rightarrow> (None, s)
          | Some i \<Rightarrow> (Some (peer_ip (tcp_conns s ! i), peer_port (tcp_conns s ! i)),
                       set_conn i ((tcp_conns s ! i)\<lparr> c_accepted := True \<rparr>) s)))"

definition tcp_set_backlog :: "socket option \<Rightarrow> u32 \<Rightarrow> 'a tcpst_scheme \<Rightarrow> int \<times> 'a tcpst_scheme" where
  "tcp_set_backlog h backlog s =
    (case h of None \<Rightarrow> (- 22, s)
     | Some k \<Rightarrow>
        (case so_conn k of
           None \<Rightarrow> (- 22, s)
         | Some i \<Rightarrow>
            if so_type k \<noteq> SOCK_TCP_LISTEN then (- 22, s)
            else (let b0 = (if backlog = 0 then 1 else backlog); b = (if b0 > of_nat TCP_MAX_CONNS then of_nat TCP_MAX_CONNS else b0)
                  in (0, set_conn i ((tcp_conns s ! i)\<lparr> c_backlog := ucast b \<rparr>) s))))"

text \<open>The calls that change the handle return it.\<close>

definition tcp_abort_socket :: "socket \<Rightarrow> 'a tcpst_scheme \<Rightarrow> socket \<times> 'a tcpst_scheme" where
  "tcp_abort_socket h s =
    (case so_conn h of
       None \<Rightarrow> (h, s)
     | Some i \<Rightarrow> (h\<lparr> so_type := SOCK_CLOSED \<rparr>,
         set_conn i ((tcp_conns s ! i)\<lparr> c_used := False, c_state := TCP_CLOSED, rto_deadline := 0, persist_deadline := 0 \<rparr>) s))"

definition tcp_socket_poll :: "socket option \<Rightarrow> u16 \<Rightarrow> 'a tcpst_scheme \<Rightarrow> u16" where
  "tcp_socket_poll h events s =
    (case h of None \<Rightarrow> NET_POLLNVAL
     | Some k \<Rightarrow>
        if so_type k \<noteq> SOCK_TCP_LISTEN \<and> so_type k \<noteq> SOCK_TCP_ESTAB then NET_POLLNVAL
        else (case so_conn k of
            None \<Rightarrow> NET_POLLERR OR NET_POLLHUP
          | Some i \<Rightarrow>
             (let c = tcp_conns s ! i in
              if so_type k = SOCK_TCP_LISTEN then
                (if c_used c \<and> c_state c = TCP_LISTEN \<and> events AND NET_POLLIN \<noteq> 0 \<and> tcp_pending_count (c_lport c) s \<noteq> 0
                 then NET_POLLIN else 0)
              else if dead c then NET_POLLERR OR NET_POLLHUP
              else if \<not> c_used c \<or> c_state c = TCP_CLOSED then NET_POLLHUP
              else (if events AND NET_POLLIN \<noteq> 0 \<and> (rxb c \<noteq> [] \<or> c_state c = TCP_CLOSE_WAIT \<or> c_state c = TCP_LAST_ACK \<or>
                         c_state c = TCP_TIME_WAIT) then NET_POLLIN else 0) OR
                   (if events AND NET_POLLOUT \<noteq> 0 \<and> c_state c = TCP_ESTABLISHED \<and> snd_used c < TCP_BUF_SIZE
                    then NET_POLLOUT else 0))))"

definition tcp_send :: "socket option \<Rightarrow> bytes \<Rightarrow> 'a tcpst_scheme \<Rightarrow> int \<times> 'a tcpst_scheme" where
  "tcp_send h data s =
    (case h of None \<Rightarrow> (- 1, s)
     | Some k \<Rightarrow>
        if so_type k \<noteq> SOCK_TCP_ESTAB then (- 1, s)
        else (case so_conn k of
            None \<Rightarrow> (- 1, s)
          | Some i \<Rightarrow> (case tcp_send_conn data (tcp_conns s ! i) s of (r, c, s1) \<Rightarrow> (r, set_conn i c s1))))"

definition tcp_recv :: "socket option \<Rightarrow> nat \<Rightarrow> 'a tcpst_scheme \<Rightarrow> (int \<times> bytes) \<times> 'a tcpst_scheme" where
  "tcp_recv h max_len s =
    (case h of None \<Rightarrow> ((- 1, []), s)
     | Some k \<Rightarrow>
        if so_type k \<noteq> SOCK_TCP_ESTAB then ((- 1, []), s)
        else (case so_conn k of
            None \<Rightarrow> ((- 1, []), s)
          | Some i \<Rightarrow> (case tcp_recv_conn max_len (tcp_conns s ! i) s of (r, c, s1) \<Rightarrow> (r, set_conn i c s1))))"

definition tcp_close :: "socket \<Rightarrow> 'a tcpst_scheme \<Rightarrow> socket \<times> 'a tcpst_scheme" where
  "tcp_close h s =
    (h\<lparr> so_type := SOCK_CLOSED \<rparr>,
     case so_conn h of
       None \<Rightarrow> s
     | Some i \<Rightarrow> if so_type h = SOCK_TCP_ESTAB then on_conn i tcp_close_conn s else s)"

end
