(* ===== verification/Dns.thy ===== *)
theory Dns
  imports Udp
begin

text \<open>
  The resolver's message handling, \<^verbatim>\<open>src/net/net_dns.c\<close>: reading a possibly
  compressed name (\<open>dns_read_name\<close>), encoding the query name, choosing an
  ephemeral port, and the treatment of one received response.  The polling loop
  around them is not modelled.
\<close>

section \<open>Reading a name\<close>

abbreviation (input) DNS_NAME_MAX :: nat where "DNS_NAME_MAX \<equiv> 64"
abbreviation (input) DNS_QNAME_CAP :: nat where "DNS_QNAME_CAP \<equiv> 80"
abbreviation (input) DNS_CNAME_MAX :: nat where "DNS_CNAME_MAX \<equiv> 4"
abbreviation (input) DNS_NAME_PTR_MAX :: nat where "DNS_NAME_PTR_MAX \<equiv> 8"

record dns_cur =
  dn_p :: nat
  dn_jumps :: nat
  dn_used :: nat
  dn_out :: bytes
  dn_jumped :: bool
  dn_off :: nat

text \<open>The loop body: \<open>Inl r\<close> leaves the loop with the function's result, \<open>Inr c\<close>
  continues.  \<open>want\<close> is \<open>out != NULL\<close>; the result carries the new offset, the bytes
  written and the reported length.\<close>

definition dns_read_step ::
  "bytes \<Rightarrow> nat \<Rightarrow> bool \<Rightarrow> nat \<Rightarrow> dns_cur \<Rightarrow> (nat \<times> bytes \<times> nat) option + dns_cur" where
  "dns_read_step msg n want cap c =
    (let p = dn_p c; ol = length (dn_out c) in
     if p \<ge> n then Inl None
     else (let l = byte_at msg p in
       if l = 0 then
         (if want \<and> ol + 1 > cap then Inl None
          else Inl (Some (if dn_jumped c then dn_off c else p + 1,
                          (if want then dn_out c @ [0] else []), ol + 1)))
       else if l AND 0xC0 = 0xC0 then
         (if p + 2 > n then Inl None
          else (let tgt = unat (l AND 0x3F) * 256 + unat (byte_at msg (p + 1)) in
            if tgt < 12 \<or> tgt \<ge> p then Inl None
            else if dn_jumps c + 1 > DNS_NAME_PTR_MAX then Inl None
            else if dn_used c + 2 > n then Inl None
            else Inr (c\<lparr> dn_jumps := dn_jumps c + 1, dn_used := dn_used c + 2,
                         dn_off := (if dn_jumped c then dn_off c else p + 2),
                         dn_p := tgt, dn_jumped := True \<rparr>)))
       else if l AND 0xC0 \<noteq> 0 then Inl None
       else if unat l \<ge> n - p then Inl None
       else if want \<and> ol + 1 + unat l > cap then Inl None
       else if dn_used c + (1 + unat l) > n then Inl None
       else Inr (c\<lparr> dn_out := (if want then dn_out c @ [l] @ map (byte_at msg) [p + 1..<p + 1 + unat l] else []),
                    dn_used := dn_used c + (1 + unat l), dn_p := p + 1 + unat l \<rparr>)))"

lemma dns_read_step_used:
  "dns_read_step msg n want cap c = Inr c' \<Longrightarrow> dn_used c < dn_used c' \<and> dn_used c' \<le> n"
  by (auto simp: dns_read_step_def Let_def split: if_splits)

function dns_read_loop :: "bytes \<Rightarrow> nat \<Rightarrow> bool \<Rightarrow> nat \<Rightarrow> dns_cur \<Rightarrow> (nat \<times> bytes \<times> nat) option" where
  "dns_read_loop msg n want cap c =
    (case dns_read_step msg n want cap c of Inl r \<Rightarrow> r | Inr c' \<Rightarrow> dns_read_loop msg n want cap c')"
  by pat_completeness auto
termination
  by (relation "measure (\<lambda>(msg, n, want, cap, c). n - dn_used c)") (auto dest: dns_read_step_used)

declare dns_read_loop.simps [simp del]

definition dns_read_name :: "bytes \<Rightarrow> nat \<Rightarrow> nat \<Rightarrow> bool \<Rightarrow> nat \<Rightarrow> (nat \<times> bytes \<times> nat) option" where
  "dns_read_name msg n off want cap = dns_read_loop msg n want cap
     \<lparr> dn_p = off, dn_jumps = 0, dn_used = 0, dn_out = [], dn_jumped = False, dn_off = off \<rparr>"

section \<open>The query\<close>

definition dns_char_ok :: "char \<Rightarrow> bool" where
  "dns_char_ok c \<longleftrightarrow> (let k = (of_char c :: nat) in
     (48 \<le> k \<and> k \<le> 57) \<or> (97 \<le> k \<and> k \<le> 122) \<or> (65 \<le> k \<and> k \<le> 90) \<or> k = 45)"

text \<open>The label loop: \<open>i\<close> is the index of the next character, \<open>lab\<close> the characters since
  the last dot, \<open>enc\<close> what is written behind the header; the end of the list is the NUL.\<close>

fun dns_encode_loop :: "nat \<Rightarrow> string \<Rightarrow> bytes \<Rightarrow> string \<Rightarrow> bytes option" where
  "dns_encode_loop i lab enc [] =
     (let llen = length lab in
      if llen = 0 \<or> llen > 63 then None
      else if 12 + length enc + 1 + llen > 12 + DNS_QNAME_CAP - 1 then None
      else Some (enc @ [of_nat llen] @ map (\<lambda>c. of_nat (of_char c)) lab))"
| "dns_encode_loop i lab enc (c # cs) =
     (if i \<ge> DNS_NAME_MAX then None
      else if c = CHR ''.'' then
        (let llen = length lab in
         if llen = 0 \<or> llen > 63 then None
         else if 12 + length enc + 1 + llen > 12 + DNS_QNAME_CAP - 1 then None
         else dns_encode_loop (i + 1) [] (enc @ [of_nat llen] @ map (\<lambda>c. of_nat (of_char c)) lab) cs)
      else if \<not> dns_char_ok c then None
      else dns_encode_loop (i + 1) (lab @ [c]) enc cs)"

definition dns_encode_name :: "string \<Rightarrow> bytes option" where
  "dns_encode_name name = map_option (\<lambda>e. e @ [0]) (dns_encode_loop 0 [] [] name)"

text \<open>The query packet: header with identifier, recursion desired and one question.\<close>

definition dns_query_pkt :: "u16 \<Rightarrow> bytes \<Rightarrow> bytes" where
  "dns_query_pkt txid qname = be16 txid @ [0x01, 0, 0, 1, 0, 0, 0, 0, 0, 0] @ qname @ [0, 1, 0, 1]"

text \<open>Four attempts at a free ephemeral port; the slot and port taken.\<close>

fun dns_alloc_port :: "nat \<Rightarrow> u32 \<Rightarrow> u16 \<Rightarrow> 'a udpst_scheme \<Rightarrow> (nat \<times> u16) option \<times> 'a udpst_scheme" where
  "dns_alloc_port 0 t txid s = (None, s)"
| "dns_alloc_port (Suc k) t txid s =
    (let p = ucast (0xC000 + ((ucast txid + t * 97) AND 0x1FFF :: u32)) :: u16 in
     if p = 67 \<or> p = 68 \<or> udp_sock_by_port p s \<noteq> None then dns_alloc_port k (t + 1) txid s
     else (case udp_sock_find_free s of
         None \<Rightarrow> dns_alloc_port k (t + 1) txid s
       | Some i \<Rightarrow> (Some (i, p), s\<lparr> udp_socks := (udp_socks s)[i := (udp_socks s ! i)
            \<lparr> us_used := True, us_bound := True, us_owned := False, us_lport := p, us_head := 0, us_n := 0 \<rparr>] \<rparr>)))"

section \<open>The response\<close>

datatype dns_cause = DNS_TO | DNS_FMT | DNS_RCODE | DNS_TRUNC | DNS_CNAME | DNS_NOA

datatype dns_verdict = DnsIgnore | DnsFail dns_cause | DnsGot u32 | DnsRequery bytes | DnsEmpty

fun dns_skip_questions :: "bytes \<Rightarrow> nat \<Rightarrow> nat \<Rightarrow> nat \<Rightarrow> nat option" where
  "dns_skip_questions msg n 0 off = Some off"
| "dns_skip_questions msg n (Suc q) off =
    (case dns_read_name msg n off False 0 of
       None \<Rightarrow> None
     | Some (off', _, _) \<Rightarrow> if off' + 4 \<le> n then dns_skip_questions msg n q (off' + 4) else None)"

text \<open>The answer scan: \<open>None\<close> for a malformed record, otherwise the address of the first
  A record, if any, and the offset of the last usable CNAME target.\<close>

fun dns_answers :: "bytes \<Rightarrow> nat \<Rightarrow> nat \<Rightarrow> nat \<Rightarrow> nat option \<Rightarrow> (u32 option \<times> nat option) option" where
  "dns_answers msg n 0 off last_cn = Some (None, last_cn)"
| "dns_answers msg n (Suc a) off last_cn =
    (case dns_read_name msg n off False 0 of
       None \<Rightarrow> None
     | Some (off1, _, _) \<Rightarrow>
        if off1 + 10 > n then None
        else (let type = rd_be16 msg off1; cls = rd_be16 msg (off1 + 2);
                  rdlen = unat (rd_be16 msg (off1 + 8)); off2 = off1 + 10 in
          if off2 + rdlen > n then None
          else if cls = 1 \<and> type = 1 \<and> rdlen = 4 then Some (Some (rd32 msg off2), last_cn)
          else (let last_cn' = (if type = 5 \<and> rdlen \<noteq> 0 then
                      (case dns_read_name msg n off2 False 0 of
                         Some (probe, _, _) \<Rightarrow> if probe - off2 = rdlen then Some off2 else last_cn
                       | None \<Rightarrow> last_cn)
                    else last_cn)
                in dns_answers msg n a (off2 + rdlen) last_cn')))"

definition dns_response :: "bytes \<Rightarrow> nat \<Rightarrow> u16 \<Rightarrow> nat \<Rightarrow> dns_verdict" where
  "dns_response rxb n txid cn_hops =
    (if n < 12 then DnsIgnore
     else if rd_be16 rxb 0 \<noteq> txid then DnsIgnore
     else (let flags = rd_be16 rxb 2 in
       if flags AND 0x8000 = 0 then DnsIgnore
       else if flags AND 0x000F \<noteq> 0 then DnsFail DNS_RCODE
       else if flags AND 0x0200 \<noteq> 0 then DnsFail DNS_TRUNC
       else (let qd = unat (rd_be16 rxb 4); an = unat (rd_be16 rxb 6) in
         case dns_skip_questions rxb n qd 12 of
           None \<Rightarrow> DnsFail DNS_FMT
         | Some off \<Rightarrow>
            (case dns_answers rxb n an off None of
               None \<Rightarrow> DnsFail DNS_FMT
             | Some (Some ip, _) \<Rightarrow> DnsGot ip
             | Some (None, last_cn) \<Rightarrow>
                 if an = 0 then DnsEmpty
                 else (case last_cn of
                     None \<Rightarrow> DnsFail DNS_NOA
                   | Some roff \<Rightarrow>
                       if cn_hops \<ge> DNS_CNAME_MAX then DnsFail DNS_CNAME
                       else (case dns_read_name rxb n roff True DNS_QNAME_CAP of
                           None \<Rightarrow> DnsFail DNS_FMT
                         | Some (_, out, olen) \<Rightarrow> if olen < 2 then DnsFail DNS_FMT else DnsRequery out))))))"

definition dns_errno :: "dns_cause \<Rightarrow> int" where
  "dns_errno c = (if c = DNS_TO then -110 else if c = DNS_RCODE then -111 else -22)"

section \<open>Names as label sequences\<close>

definition lab_ok :: "bytes \<Rightarrow> bool" where
  "lab_ok l \<longleftrightarrow> 1 \<le> length l \<and> length l \<le> 63"

definition lab_bytes :: "bytes \<Rightarrow> bytes" where
  "lab_bytes l = of_nat (length l) # l"

definition enc_labels :: "bytes list \<Rightarrow> bytes" where
  "enc_labels ls = concat (map lab_bytes ls) @ [0]"

lemma lab_len_byte:
  assumes "lab_ok l"
  shows "(of_nat (length l) :: u8) \<noteq> 0" "(of_nat (length l) :: u8) AND 0xC0 = 0"
    "unat (of_nat (length l) :: u8) = length l"
proof -
  have k: "length l \<in> set [1..<64]" using assms by (auto simp: lab_ok_def)
  have all: "\<forall>k \<in> set [1..<64]. (of_nat k :: u8) \<noteq> 0 \<and> (of_nat k :: u8) AND 0xC0 = 0" by code_simp
  show "(of_nat (length l) :: u8) \<noteq> 0" "(of_nat (length l) :: u8) AND 0xC0 = 0"
    using bspec [OF all k] by simp_all
  show "unat (of_nat (length l) :: u8) = length l" using k by (simp add: unat_of_nat)
qed

lemma low_tag_bound: "(l :: u8) AND 0xC0 = 0 \<Longrightarrow> unat l < 64"
proof -
  assume z: "l AND 0xC0 = 0"
  have all: "\<forall>k \<in> set [64..<256]. (of_nat k :: u8) AND 0xC0 \<noteq> 0" by code_simp
  have l: "(of_nat (unat l) :: u8) = l" by simp
  show ?thesis
  proof (rule ccontr)
    assume "\<not> unat l < 64"
    then have "unat l \<in> set [64..<256]" using unat_u8_lt [of l] by (simp only: set_upt atLeastLessThan_iff not_less)
    then show False using bspec [OF all, of "unat l"] l z by simp
  qed
qed

lemma length_lab_bytes [simp]: "length (lab_bytes l) = 1 + length l"
  by (simp add: lab_bytes_def)

text \<open>One literal label.\<close>

lemma dns_step_label:
  assumes ok: "lab_ok l" and at: "\<forall>i < length (lab_bytes l). byte_at msg (dn_p c + i) = lab_bytes l ! i"
    and n: "dn_p c + 1 + length l < n" and u: "dn_used c + 1 + length l \<le> n"
    and cap: "want \<Longrightarrow> length (dn_out c) + 1 + length l \<le> cap"
  shows "dns_read_step msg n want cap c = Inr (c\<lparr> dn_out := (if want then dn_out c @ lab_bytes l else []),
      dn_used := dn_used c + (1 + length l), dn_p := dn_p c + 1 + length l \<rparr>)"
proof -
  have b: "byte_at msg (dn_p c) = of_nat (length l)" using at [rule_format, of 0] by (simp add: lab_bytes_def)
  have "map (byte_at msg) [dn_p c + 1..<dn_p c + 1 + length l] = l"
  proof (rule nth_equalityI)
    fix i assume "i < length (map (byte_at msg) [dn_p c + 1..<dn_p c + 1 + length l])"
    then have i: "i < length l" by (simp del: upt_Suc)
    then show "map (byte_at msg) [dn_p c + 1..<dn_p c + 1 + length l] ! i = l ! i"
      using at [rule_format, of "Suc i"] by (simp add: lab_bytes_def del: upt_Suc)
  qed (simp del: upt_Suc)
  then show ?thesis
    using lab_len_byte [OF ok] n u cap b by (auto simp: dns_read_step_def Let_def lab_bytes_def simp del: upt_Suc)
qed

lemma byte_at_Cons: "byte_at (x # xs) 0 = x" "byte_at (x # xs) (Suc i) = byte_at xs i"
  by (simp_all add: byte_at_def)

lemma byte_at_drop: "byte_at msg (p + i) = byte_at (drop p msg) i"
  by (auto simp: byte_at_def add.commute)

lemma byte_at_prefix: "i < length xs \<Longrightarrow> take (length xs) ys = xs \<Longrightarrow> byte_at ys i = xs ! i"
  by (metis byte_at_def length_take min_less_iff_conj nth_take)

text \<open>A literal name followed by its terminator, read from any cursor.\<close>

lemma dns_loop_labels:
  assumes "list_all lab_ok ls" "take (length (enc_labels ls)) (drop (dn_p c) msg) = enc_labels ls"
    "dn_p c + length (enc_labels ls) \<le> n" "dn_used c + length (enc_labels ls) \<le> n + 1"
    "want \<Longrightarrow> length (dn_out c) + length (enc_labels ls) \<le> cap" "\<not> want \<Longrightarrow> dn_out c = []"
  shows "dns_read_loop msg n want cap c =
    Some (if dn_jumped c then dn_off c else dn_p c + length (enc_labels ls),
          if want then dn_out c @ enc_labels ls else [],
          if want then length (dn_out c) + length (enc_labels ls) else 1)"
  using assms
proof (induction ls arbitrary: c)
  case Nil
  have "byte_at (drop (dn_p c) msg) 0 = 0"
    using byte_at_prefix [of 0 "enc_labels []" "drop (dn_p c) msg"] Nil.prems(2) by (simp add: enc_labels_def)
  then have "byte_at msg (dn_p c) = 0" using byte_at_drop [of msg "dn_p c" 0] by simp
  then show ?case
    using Nil.prems by (subst dns_read_loop.simps) (auto simp: dns_read_step_def Let_def enc_labels_def)
next
  case (Cons l ls)
  let ?d = "drop (dn_p c) msg"
  have e: "enc_labels (l # ls) = lab_bytes l @ enc_labels ls" by (simp add: enc_labels_def)
  have ok: "lab_ok l" "list_all lab_ok ls" using Cons.prems(1) by simp_all
  have d: "take (length (lab_bytes l @ enc_labels ls)) ?d = lab_bytes l @ enc_labels ls"
    using Cons.prems(2) e by simp
  have at: "\<forall>i < length (lab_bytes l). byte_at msg (dn_p c + i) = lab_bytes l ! i"
  proof (intro allI impI)
    fix i assume i: "i < length (lab_bytes l)"
    then show "byte_at msg (dn_p c + i) = lab_bytes l ! i"
      using byte_at_prefix [OF _ d, of i] by (simp add: byte_at_drop nth_append)
  qed
  have pos: "1 \<le> length (enc_labels ls)" by (simp add: enc_labels_def)
  let ?c = "c\<lparr> dn_out := (if want then dn_out c @ lab_bytes l else []),
      dn_used := dn_used c + (1 + length l), dn_p := dn_p c + 1 + length l \<rparr>"
  have step: "dns_read_step msg n want cap c = Inr ?c"
    using Cons.prems(3-5) e pos by (intro dns_step_label [OF ok(1) at]) auto
  have tk: "take (length (enc_labels ls)) (drop (dn_p ?c) msg) = enc_labels ls"
  proof -
    have "drop (length (lab_bytes l)) (take (length (lab_bytes l @ enc_labels ls)) ?d) = enc_labels ls"
      unfolding d by simp
    then have "take (length (enc_labels ls)) (drop (length (lab_bytes l)) ?d) = enc_labels ls"
      by (simp add: drop_take)
    then show ?thesis by (simp add: add.commute add.left_commute)
  qed
  have "dns_read_loop msg n want cap ?c =
      Some (if dn_jumped ?c then dn_off ?c else dn_p ?c + length (enc_labels ls),
          if want then dn_out ?c @ enc_labels ls else [],
          if want then length (dn_out ?c) + length (enc_labels ls) else 1)"
    by (rule Cons.IH [OF ok(2) tk]) (use Cons.prems(3-6) e in auto)
  then show ?case using step Cons.prems(6) e by (subst dns_read_loop.simps) auto
qed

lemma length_enc_labels_pos: "1 \<le> length (enc_labels ls)"
  by (simp add: enc_labels_def)

text \<open>The encoder produces such a sequence.\<close>

lemma dns_encode_loop_labels:
  "dns_encode_loop i lab enc cs = Some e \<Longrightarrow> length lab + length cs \<le> 200 \<Longrightarrow>
   \<exists>ls. list_all lab_ok ls \<and> e = enc @ concat (map lab_bytes ls) \<and> length e \<le> 79"
proof (induction cs arbitrary: i lab enc)
  case Nil
  then show ?case
    by (intro exI [of _ "[map (\<lambda>c. of_nat (of_char c)) lab]"])
      (auto simp: Let_def lab_ok_def lab_bytes_def Suc_le_eq split: if_splits)
next
  case (Cons c cs)
  show ?case
  proof (cases "c = CHR ''.''")
    case True
    let ?l = "map (\<lambda>c. of_nat (of_char c)) lab :: bytes"
    have l: "lab_ok ?l" and r: "dns_encode_loop (i + 1) [] (enc @ lab_bytes ?l) cs = Some e"
      using Cons.prems(1) True by (auto simp: Let_def lab_ok_def lab_bytes_def Suc_le_eq split: if_splits)
    obtain ls where "list_all lab_ok ls" "e = (enc @ lab_bytes ?l) @ concat (map lab_bytes ls)" "length e \<le> 79"
      using Cons.IH [OF r] Cons.prems(2) by auto
    then show ?thesis using l by (intro exI [of _ "?l # ls"]) simp
  next
    case False
    then have "dns_encode_loop (i + 1) (lab @ [c]) enc cs = Some e"
      using Cons.prems(1) by (simp split: if_splits)
    then show ?thesis using Cons.IH Cons.prems(2) by simp
  qed
qed

lemma dns_encode_loop_short: "dns_encode_loop i lab enc cs = Some e \<Longrightarrow> i + length cs \<le> max i 64"
proof (induction cs arbitrary: i lab enc)
  case (Cons c cs)
  have "i < 64" using Cons.prems by (simp split: if_splits)
  moreover have "\<exists>l e'. dns_encode_loop (i + 1) l e' cs = Some e"
    using Cons.prems by (auto simp: Let_def split: if_splits)
  then have "i + 1 + length cs \<le> max (i + 1) 64" using Cons.IH by blast
  ultimately show ?case by simp
qed simp

lemma dns_encode_name_labels:
  assumes "dns_encode_name name = Some e"
  shows "\<exists>ls. list_all lab_ok ls \<and> e = enc_labels ls \<and> length e \<le> DNS_QNAME_CAP"
proof -
  obtain e0 where e0: "dns_encode_loop 0 [] [] name = Some e0" "e = e0 @ [0]"
    using assms by (auto simp: dns_encode_name_def)
  have "length name \<le> 64" using dns_encode_loop_short [OF e0(1)] by simp
  then show ?thesis
    using dns_encode_loop_labels [OF e0(1)] e0(2) by (auto simp: enc_labels_def)
qed

text \<open>Property C34: reading inverts encoding, with and without compression.  A name encoded
  for a query is read back unchanged from wherever it stands in a message behind the header,
  the offset moves just past it; and a compression pointer to it, placed anywhere behind it,
  yields the same name with the offset just past the two pointer bytes.\<close>

theorem dns_read_encoded:
  assumes "dns_encode_name name = Some e" "12 \<le> length pre" "length pre < 16384"
    "msg = pre @ e @ mid @ [0xC0 OR of_nat (length pre div 256), of_nat (length pre mod 256)] @ post"
    "n = length msg"
  shows "dns_read_name msg n (length pre) True DNS_QNAME_CAP = Some (length pre + length e, e, length e) \<and>
    dns_read_name msg n (length pre + length e + length mid) True DNS_QNAME_CAP =
      Some (length pre + length e + length mid + 2, e, length e)"
proof -
  obtain ls where ls: "list_all lab_ok ls" "e = enc_labels ls" "length e \<le> DNS_QNAME_CAP"
    using dns_encode_name_labels [OF assms(1)] by blast
  let ?q = "length pre + length e + length mid"
  have tk: "take (length (enc_labels ls)) (drop (length pre) msg) = enc_labels ls"
    using assms(4) ls(2) by simp
  have n: "n = ?q + 2 + length post" using assms(4,5) by simp
  have a: "dns_read_name msg n (length pre) True DNS_QNAME_CAP = Some (length pre + length e, e, length e)"
    unfolding dns_read_name_def
    by (subst dns_loop_labels [OF ls(1)]) (use tk n ls in simp_all)
  let ?hi = "0xC0 OR of_nat (length pre div 256) :: u8" and ?lo = "of_nat (length pre mod 256) :: u8"
  have hb: "length pre div 256 \<in> set [0..<64]" using assms(3) by simp
  have all: "\<forall>k \<in> set [0..<64]. (0xC0 OR of_nat k :: u8) \<noteq> 0 \<and> (0xC0 OR of_nat k :: u8) AND 0xC0 = 0xC0 \<and>
      unat ((0xC0 OR of_nat k :: u8) AND 0x3F) = k" by code_simp
  note hi = bspec [OF all hb]
  have lo: "unat ?lo = length pre mod 256" by (simp add: unat_of_nat)
  have b: "byte_at msg ?q = ?hi" "byte_at msg (?q + 1) = ?lo"
    using assms(4) by (simp_all add: byte_at_Cons)
  have tgt: "unat (?hi AND 0x3F) * 256 + unat ?lo = length pre" using hi lo by simp
  have epos: "e \<noteq> []" using ls(2) by (simp add: enc_labels_def)
  let ?c0 = "\<lparr> dn_p = ?q, dn_jumps = 0, dn_used = 0, dn_out = [], dn_jumped = False, dn_off = ?q \<rparr>"
  let ?c1 = "\<lparr> dn_p = length pre, dn_jumps = 1, dn_used = 2, dn_out = [], dn_jumped = True, dn_off = ?q + 2 \<rparr>"
  have "dns_read_step msg n True DNS_QNAME_CAP ?c0 = Inr ?c1"
    using b tgt hi n assms(2) epos unfolding dns_read_step_def Let_def by simp
  then have "dns_read_name msg n ?q True DNS_QNAME_CAP = dns_read_loop msg n True DNS_QNAME_CAP ?c1"
    unfolding dns_read_name_def by (subst dns_read_loop.simps) simp
  also have "\<dots> = Some (?q + 2, e, length e)"
    by (subst dns_loop_labels [OF ls(1)]) (use tk n ls assms(2) in simp_all)
  finally show ?thesis using a by blast
qed

section \<open>Every accepted name is well formed\<close>

definition dns_cur_ok :: "nat \<Rightarrow> bool \<Rightarrow> nat \<Rightarrow> dns_cur \<Rightarrow> bool" where
  "dns_cur_ok n want cap c \<longleftrightarrow> (dn_jumped c \<longrightarrow> dn_off c \<le> n) \<and> (\<not> want \<longrightarrow> dn_out c = []) \<and>
     (\<exists>ls. list_all lab_ok ls \<and> dn_out c = concat (map lab_bytes ls))"

lemma dns_step_ok:
  assumes ok: "dns_cur_ok n want cap c" and step: "dns_read_step msg n want cap c = Inr c'"
  shows "dns_cur_ok n want cap c'"
proof -
  let ?p = "dn_p c" and ?l = "byte_at msg (dn_p c)"
  obtain ls where ls: "list_all lab_ok ls" "dn_out c = concat (map lab_bytes ls)"
    using ok by (auto simp: dns_cur_ok_def)
  consider (ptr) "dn_out c' = dn_out c" "dn_jumped c'" "dn_off c' = (if dn_jumped c then dn_off c else ?p + 2)" "?p + 2 \<le> n"
    | (lab) "dn_jumped c' = dn_jumped c" "dn_off c' = dn_off c" "?l \<noteq> 0" "?l AND 0xC0 = 0"
      "dn_out c' = (if want then dn_out c @ [?l] @ map (byte_at msg) [?p + 1..<?p + 1 + unat ?l] else [])"
    using step by (auto simp: dns_read_step_def Let_def split: if_splits)
  then show ?thesis
  proof cases
    case ptr
    then show ?thesis using ok by (auto simp: dns_cur_ok_def)
  next
    case lab
    let ?b = "map (byte_at msg) [?p + 1..<?p + 1 + unat ?l]"
    have len: "length ?b = unat ?l" by (simp del: upt_Suc)
    have "unat ?l \<noteq> 0" using lab(3) by (simp add: unat_eq_zero)
    then have "lab_ok ?b" using low_tag_bound [OF lab(4)] len by (simp add: lab_ok_def)
    moreover have "[?l] @ ?b = lab_bytes ?b" using len by (simp add: lab_bytes_def)
    ultimately have "want \<longrightarrow> (\<exists>ls. list_all lab_ok ls \<and> dn_out c' = concat (map lab_bytes ls))"
      using lab(5) ls by (intro impI exI [of _ "ls @ [?b]"]) simp
    moreover have "\<not> want \<longrightarrow> (\<exists>ls. list_all lab_ok ls \<and> dn_out c' = concat (map lab_bytes ls))"
      using lab(5) by (intro impI exI [of _ "[]"]) simp
    ultimately show ?thesis using lab ok by (auto simp: dns_cur_ok_def)
  qed
qed

lemma dns_step_done:
  assumes "dns_cur_ok n want cap c" "dns_read_step msg n want cap c = Inl (Some (off', out, len))"
  shows "off' \<le> n \<and> (want \<longrightarrow> (\<exists>ls. list_all lab_ok ls \<and> out = enc_labels ls) \<and> length out \<le> cap \<and> len = length out)"
  using assms by (auto simp: dns_read_step_def dns_cur_ok_def enc_labels_def Let_def split: if_splits)

lemma dns_read_loop_sound:
  "dns_cur_ok n want cap c \<Longrightarrow> dns_read_loop msg n want cap c = Some (off', out, len) \<Longrightarrow>
   off' \<le> n \<and> (want \<longrightarrow> (\<exists>ls. list_all lab_ok ls \<and> out = enc_labels ls) \<and> length out \<le> cap \<and> len = length out)"
proof (induction msg n want cap c rule: dns_read_loop.induct)
  case (1 msg n want cap c)
  show ?case
  proof (cases "dns_read_step msg n want cap c")
    case (Inl r)
    then have "r = Some (off', out, len)" using 1(3) by (subst (asm) dns_read_loop.simps) simp
    then show ?thesis using dns_step_done [OF 1(2)] Inl by blast
  next
    case (Inr c')
    then have "dns_read_loop msg n want cap c' = Some (off', out, len)"
      using 1(3) by (subst (asm) dns_read_loop.simps) simp
    then show ?thesis using 1(1) [OF Inr] dns_step_ok [OF 1(2) Inr] by blast
  qed
qed

lemma dns_read_name_sound:
  "dns_read_name msg n off want cap = Some (off', out, len) \<Longrightarrow>
   off' \<le> n \<and> (want \<longrightarrow> (\<exists>ls. list_all lab_ok ls \<and> out = enc_labels ls) \<and> length out \<le> cap \<and> len = length out)"
  unfolding dns_read_name_def
  by (rule dns_read_loop_sound [rotated]) (auto simp: dns_cur_ok_def intro: exI [of _ "[]"])

lemma dns_answers_sound:
  "dns_answers msg n a off cn = Some (Some ip, cn') \<Longrightarrow>
   \<exists>off2. 10 \<le> off2 \<and> off2 + 4 \<le> n \<and> rd_be16 msg (off2 - 10) = 1 \<and> rd_be16 msg (off2 - 8) = 1 \<and>
     rd_be16 msg (off2 - 2) = 4 \<and> ip = rd32 msg off2"
proof (induction a arbitrary: off cn)
  case (Suc a)
  obtain off1 x y where r: "dns_read_name msg n off False 0 = Some (off1, x, y)"
    using Suc.prems by (auto split: option.splits)
  let ?rd = "rd_be16 msg (off1 + 8)"
  have fit: "off1 + 10 \<le> n" "off1 + 10 + unat ?rd \<le> n"
    using Suc.prems r by (auto simp: Let_def split: if_splits)
  show ?case
  proof (cases "rd_be16 msg (off1 + 2) = 1 \<and> rd_be16 msg off1 = 1 \<and> unat ?rd = 4")
    case True
    then have "ip = rd32 msg (off1 + 10)" using Suc.prems r fit by simp
    moreover have "?rd = 4" using True by (simp add: word_unat_eq_iff)
    ultimately show ?thesis using True fit by (intro exI [of _ "off1 + 10"]) (simp add: add.commute)
  next
    case False
    then obtain off' cn1 where "dns_answers msg n a off' cn1 = Some (Some ip, cn')"
      using Suc.prems r fit by (simp add: Let_def split: if_splits)
    then show ?thesis by (rule Suc.IH)
  qed
qed simp

text \<open>Property C35: what the resolver takes from a response.  An address is returned only from
  a response with the query's identifier, the response bit and no error code, and it is the
  four bytes of an A record of class IN that lies inside the message; a name adopted from a
  CNAME is a well-formed label sequence that, with the header and the question's type and
  class, fits the 96-byte query buffer.\<close>

theorem dns_response_sound:
  "(dns_response rxb n txid hops = DnsGot ip \<longrightarrow>
      rd_be16 rxb 0 = txid \<and> rd_be16 rxb 2 AND 0x8000 \<noteq> 0 \<and> rd_be16 rxb 2 AND 0x000F = 0 \<and>
      (\<exists>off2. 10 \<le> off2 \<and> off2 + 4 \<le> n \<and> rd_be16 rxb (off2 - 10) = 1 \<and> rd_be16 rxb (off2 - 8) = 1 \<and>
         rd_be16 rxb (off2 - 2) = 4 \<and> ip = rd32 rxb off2)) \<and>
   (dns_response rxb n txid hops = DnsRequery q \<longrightarrow>
      hops < DNS_CNAME_MAX \<and> (\<exists>ls. list_all lab_ok ls \<and> q = enc_labels ls) \<and> 16 + length q \<le> 96)"
  (is "?got \<and> ?requery")
proof
  show ?got
    using dns_answers_sound
    by (auto simp: dns_response_def Let_def split: if_splits option.splits prod.splits)
  show ?requery
    using dns_read_name_sound [of rxb n _ True DNS_QNAME_CAP]
    by (auto simp: dns_response_def Let_def not_le split: if_splits option.splits prod.splits)
qed

definition dns_demo_reply :: bytes where
  "dns_demo_reply = [0x12, 0x34, 0x81, 0x80, 0, 0, 0, 1, 0, 0, 0, 0] @
     [1, 97, 0, 0, 1, 0, 1, 0, 0, 0, 9, 0, 4, 10, 0, 2, 7]"

theorem dns_response_sound_witness:
  "dns_response dns_demo_reply 29 0x1234 0 = DnsGot 0x0702000A \<and>
   (\<exists>off2. 10 \<le> off2 \<and> off2 + 4 \<le> 29 \<and> rd_be16 dns_demo_reply (off2 - 2) = 4 \<and> 0x0702000A = rd32 dns_demo_reply off2)"
proof -
  have g: "dns_response dns_demo_reply 29 0x1234 0 = DnsGot 0x0702000A" by code_simp
  then show ?thesis
    using dns_response_sound [of dns_demo_reply 29 "0x1234" 0 "0x0702000A" "[]"] by blast
qed

theorem dns_read_encoded_witness:
  "\<exists>e. dns_encode_name ''ab.c'' = Some e \<and>
     dns_read_name (replicate 12 0 @ e @ [] @ [0xC0, 12] @ []) 20 18 True DNS_QNAME_CAP = Some (20, e, length e)"
proof -
  have e: "dns_encode_name ''ab.c'' = Some [2, 97, 98, 1, 99, 0]" by code_simp
  have m: "replicate 12 0 @ [2, 97, 98, 1, 99, 0] @ [] @ [0xC0, 12] @ [] =
      replicate 12 0 @ [2, 97, 98, 1, 99, 0] @ [] @
        [0xC0 OR of_nat (length (replicate 12 (0 :: u8)) div 256), of_nat (length (replicate 12 (0 :: u8)) mod 256)] @ []"
    by simp
  show ?thesis
    using dns_read_encoded [OF e _ _ m, of 20] e by simp
qed

section \<open>Pointers and termination\<close>

definition dns_loop_msg :: bytes where
  "dns_loop_msg = replicate 12 0 @ [1, 97, 0xC0, 12] @ replicate 48 0"

text \<open>A backward pointer can still close a cycle.  In a message that holds the
  label \<open>a\<close> at offset 12 and a pointer to offset 12 behind it, reading at offset 12 comes back
  to offset 12 after every jump; only the jump counter ends it, with a failure.\<close>

theorem dns_pointer_cycle:
  "(\<forall>j < 8. \<forall>u. u + 4 \<le> 64 \<longrightarrow>
     dns_read_loop dns_loop_msg 64 False 0
       \<lparr> dn_p = 12, dn_jumps = j, dn_used = u, dn_out = [], dn_jumped = k, dn_off = 16 \<rparr> =
     dns_read_loop dns_loop_msg 64 False 0
       \<lparr> dn_p = 12, dn_jumps = j + 1, dn_used = u + 4, dn_out = [], dn_jumped = True, dn_off = 16 \<rparr>) \<and>
   dns_read_name dns_loop_msg 64 12 False 0 = None"
proof
  have b: "byte_at dns_loop_msg 12 = 1" "byte_at dns_loop_msg 13 = 97" "byte_at dns_loop_msg 14 = 0xC0"
    "byte_at dns_loop_msg 15 = 12"
    by code_simp+
  show "\<forall>j < 8. \<forall>u. u + 4 \<le> 64 \<longrightarrow>
     dns_read_loop dns_loop_msg 64 False 0
       \<lparr> dn_p = 12, dn_jumps = j, dn_used = u, dn_out = [], dn_jumped = k, dn_off = 16 \<rparr> =
     dns_read_loop dns_loop_msg 64 False 0
       \<lparr> dn_p = 12, dn_jumps = j + 1, dn_used = u + 4, dn_out = [], dn_jumped = True, dn_off = 16 \<rparr>"
  proof (intro allI impI)
    fix j u :: nat assume j: "j < 8" and u: "u + 4 \<le> 64"
    let ?c = "\<lambda>p j u k. \<lparr> dn_p = p, dn_jumps = j, dn_used = u, dn_out = [], dn_jumped = k, dn_off = 16 \<rparr>"
    have 1: "dns_read_step dns_loop_msg 64 False 0 (?c 12 j u k) = Inr (?c 14 j (u + 2) k)"
      using u b by (simp add: dns_read_step_def Let_def)
    have 2: "dns_read_step dns_loop_msg 64 False 0 (?c 14 j (u + 2) k) = Inr (?c 12 (j + 1) (u + 4) True)"
      using j u b by (simp add: dns_read_step_def Let_def)
    show "dns_read_loop dns_loop_msg 64 False 0 (?c 12 j u k) = dns_read_loop dns_loop_msg 64 False 0 (?c 12 (j + 1) (u + 4) True)"
      by (subst dns_read_loop.simps, simp only: 1 sum.case, subst dns_read_loop.simps, simp only: 2 sum.case)
  qed
  show "dns_read_name dns_loop_msg 64 12 False 0 = None" by code_simp
qed

theorem dns_pointer_cycle_witness:
  "dns_read_loop dns_loop_msg 64 False 0
     \<lparr> dn_p = 12, dn_jumps = 0, dn_used = 0, dn_out = [], dn_jumped = False, dn_off = 16 \<rparr> =
   dns_read_loop dns_loop_msg 64 False 0
     \<lparr> dn_p = 12, dn_jumps = 1, dn_used = 4, dn_out = [], dn_jumped = True, dn_off = 16 \<rparr>"
  using dns_pointer_cycle [of False] by simp

end
