(* ===== verification/NetStack.thy ===== *)
theory NetStack
  imports TcpTable Dns
begin

text \<open>
  The composition of the stack, \<^verbatim>\<open>src/net/net.c\<close>: dispatch of a received frame to ARP or
  to IP and from there to ICMP, UDP or TCP, the socket calls shared by UDP and TCP, the
  poll loop body and initialisation.
\<close>

section \<open>Input\<close>

text \<open>\<open>p\<close> is the memory from the IP header on.  \<open>seglen\<close> is computed in 32 bits, so a header
  whose total length is below 20 gives a value near \<open>2^32\<close>: ICMP then sums that many bytes,
  which is the fault \<open>None\<close>.\<close>

definition icmp_input :: "bytes \<Rightarrow> u32 \<Rightarrow> u32 \<Rightarrow> 'a icmpst_scheme \<Rightarrow> 'a icmpst_scheme option" where
  "icmp_input seg seglen src_ip s =
    (if unat seglen > length seg \<and> seglen \<ge> 8 then None else Some (icmp_handle (take (unat seglen) seg) src_ip s))"

definition ip_handle :: "bytes \<Rightarrow> u32 \<Rightarrow> 'a tcpst_scheme \<Rightarrow> 'a tcpst_scheme option" where
  "ip_handle p len s =
    (if len < 20 then Some s
     else if length p < 20 then None
     else if ip_checksum (take 20 p) \<noteq> 0 then Some (NETSTAT_INC ip_csum_err_update s)
     else (let h = ip_hdr_at p; dst = ih_dst h in
       if dst \<noteq> g_ip s \<and> dst \<noteq> 0xFFFFFFFF then Some s
       else (let plen0 = ucast (ntoh16 (tot_len h)) :: u32;
                 pl = (if plen0 > len then len else plen0);
                 seg = drop 20 p; seglen = pl - 20 in
         if proto h = IP_PROTO_ICMP then icmp_input seg seglen (ih_src h) s
         else if proto h = IP_PROTO_UDP then udp_handle seg seglen (ih_src h) s
         else if proto h = IP_PROTO_TCP then tcp_handle seg seglen (ih_src h) s
         else Some s)))"

definition net_handle_packet :: "bytes \<Rightarrow> u32 \<Rightarrow> 'a tcpst_scheme \<Rightarrow> 'a tcpst_scheme option" where
  "net_handle_packet p len s =
    (if len < 14 then Some s
     else (let type = (byte_at p 12, byte_at p 13) in
       if type = (0x08, 0x06) then Some (arp_handle p len s)
       else if type = (0x08, 0x00) then ip_handle (drop 14 p) (len - 14) s
       else Some s))"

definition net_poll :: "'a tcpst_scheme \<Rightarrow> 'a tcpst_scheme option" where
  "net_poll s =
    (case e1000_poll net_handle_packet s of
       None \<Rightarrow> None
     | Some s1 \<Rightarrow> Some (dhcp_tick (arp_poll (tcp_tick s1))))"

section \<open>Sockets\<close>

definition tcp_bind_init :: "u16 \<Rightarrow> tcp_conn \<Rightarrow> tcp_conn" where
  "tcp_bind_init port c =
    tcp_cc_init (tcp_tx_reset (c\<lparr> c_state := TCP_LISTEN, c_backlog := 1, c_lport := port, peer_ip := 0, peer_port := 0,
      c_accepted := False, rxb := [], snd_used := 0, snd_isn := 0, snd_nxt := 0, snd_una := 0, rto_deadline := 0,
      rto_backoff := 0, rto_attempts := 0, tw_until := 0, persist_deadline := 0, persist_backoff := 0 \<rparr>))"

text \<open>The calls return the handle as they leave it.\<close>

definition net_socket_bind :: "socket \<Rightarrow> u16 \<Rightarrow> 'a tcpst_scheme \<Rightarrow> int \<times> socket \<times> 'a tcpst_scheme" where
  "net_socket_bind h port s =
    (if port = 0 then (- 22, h, s)
     else if so_type h = SOCK_UDP_UNBOUND then
       (let i = so_slot h; u = udp_socks s ! i in
        if \<not> us_used u \<or> \<not> us_owned u \<or> udp_sock_by_port port s \<noteq> None then (- 98, h, s)
        else (0, h\<lparr> so_type := SOCK_UDP, so_lport := port \<rparr>,
              s\<lparr> udp_socks := (udp_socks s)[i := u\<lparr> us_bound := True, us_lport := port, us_head := 0, us_n := 0 \<rparr>] \<rparr>))
     else if so_type h = SOCK_TCP_UNBOUND then
       (if tcp_conn_find_listen port s \<noteq> None then (- 98, h, s)
        else (let i = the (so_conn h) in
          (0, h\<lparr> so_type := SOCK_TCP_LISTEN \<rparr>, set_conn i (tcp_bind_init port (tcp_conns s ! i)) s)))
     else (- 22, h, s))"

definition net_socket_close :: "socket \<Rightarrow> 'a tcpst_scheme \<Rightarrow> int \<times> socket \<times> 'a tcpst_scheme" where
  "net_socket_close h s =
    (let closed = h\<lparr> so_type := SOCK_CLOSED \<rparr>;
         release = (\<lambda>t. case so_conn h of None \<Rightarrow> t | Some i \<Rightarrow> set_conn i ((tcp_conns t ! i)\<lparr> c_used := False \<rparr>) t) in
     case so_type h of
       SOCK_CLOSED \<Rightarrow> (- 9, h, s)
     | SOCK_TCP_ESTAB \<Rightarrow> (case tcp_close h s of (h1, s1) \<Rightarrow> (0, h1, s1))
     | SOCK_TCP_UNBOUND \<Rightarrow> (0, closed, release s)
     | SOCK_TCP_LISTEN \<Rightarrow>
         (0, closed, case so_conn h of None \<Rightarrow> s | Some i \<Rightarrow> release (tcp_drop_pending (c_lport (tcp_conns s ! i)) s))
     | _ \<Rightarrow>
         (0, closed, if so_owned h then s\<lparr> udp_socks := (udp_socks s)[so_slot h := (udp_socks s ! so_slot h)
               \<lparr> us_used := False, us_bound := False \<rparr>] \<rparr> else s))"

definition net_socket_poll :: "socket option \<Rightarrow> u16 \<Rightarrow> 'a tcpst_scheme \<Rightarrow> u16" where
  "net_socket_poll h events s =
    (case h of None \<Rightarrow> NET_POLLNVAL
     | Some k \<Rightarrow>
        if so_type k = SOCK_TCP_LISTEN \<or> so_type k = SOCK_TCP_ESTAB then tcp_socket_poll h events s
        else if so_type k = SOCK_UDP \<or> so_type k = SOCK_UDP_UNBOUND then udp_socket_poll k events s
        else NET_POLLNVAL)"

definition net_socket_peer :: "socket option \<Rightarrow> 'a tcpst_scheme \<Rightarrow> u32 \<times> u16" where
  "net_socket_peer h s =
    (case h of None \<Rightarrow> (0, 0)
     | Some k \<Rightarrow> (case so_conn k of
          None \<Rightarrow> (0, 0)
        | Some i \<Rightarrow> if so_type k = SOCK_TCP_ESTAB then (peer_ip (tcp_conns s ! i), peer_port (tcp_conns s ! i)) else (0, 0)))"

text \<open>The index of the handle, in \<open>udp_handles\<close> for type 2 and in \<open>tcp_handles\<close> for type 1.\<close>

definition net_socket_open :: "u32 \<Rightarrow> 'a tcpst_scheme \<Rightarrow> nat option \<times> 'a tcpst_scheme" where
  "net_socket_open type s =
    (if type = 2 then
       (case udp_sock_find_free s of
          None \<Rightarrow> (None, s)
        | Some i \<Rightarrow> (Some i, s\<lparr> udp_socks := (udp_socks s)[i := udp_sock0\<lparr> us_used := True, us_owned := True \<rparr>],
            udp_handles := (udp_handles s)[i := socket0\<lparr> so_type := SOCK_UDP_UNBOUND, so_slot := i, so_owned := True \<rparr>] \<rparr>))
     else if type = 1 then
       (case tcp_conn_find_free s of
          None \<Rightarrow> (None, s)
        | Some i \<Rightarrow> (Some i, (set_conn i (tcp_conn0\<lparr> c_used := True \<rparr>) s)
            \<lparr> tcp_handles := (tcp_handles s)[i := socket0\<lparr> so_type := SOCK_TCP_UNBOUND, so_conn := Some i \<rparr>] \<rparr>))
     else (None, s))"

text \<open>\<open>mac\<close> is what \<open>e1000_get_mac\<close> reads from the device.\<close>

definition net_init :: "bytes \<Rightarrow> 'a tcpst_scheme \<Rightarrow> 'a tcpst_scheme" where
  "net_init mac s =
    (let s1 = (net_set_subnet 0 (net_set_gateway 0 (net_set_ip 0 (s\<lparr> g_mac := mac \<rparr>))))\<lparr> g_dns := 0 \<rparr>
     in snd (udp_open 7 (snd (tcp_listen 81 (dhcp_start s1)))))"

end
