(* ===== verification/TcpFlow.thy ===== *)
theory TcpFlow
  imports TcpTable
begin

text \<open>
  Flow control, congestion window, scoreboard and retransmission timer of a TCP
  connection.
\<close>

section \<open>The window-filling loop\<close>

lemma tcp_xmit_loop_bound:
  "tcp_in_flight (fst (tcp_xmit_loop w c s)) \<le> max (tcp_in_flight c) (min (unat w) (snd_used c)) \<and>
   tcp_in_flight c \<le> tcp_in_flight (fst (tcp_xmit_loop w c s)) \<and> tx_effect s (snd (tcp_xmit_loop w c s))"
proof (induction w c s rule: tcp_xmit_loop.induct)
  case (1 w c s)
  show ?case
  proof (cases "tcp_in_flight c \<ge> unat w \<or> snd_used c \<le> tcp_in_flight c")
    case True
    then show ?thesis by (simp add: tcp_xmit_loop.simps [of w c s])
  next
    case go: False
    define n where "n = tcp_xmit_size w c"
    obtain ok c1 s1 where p: "tcp_put_pkt TCP_FLAG_ACKPSH (snd_nxt c) (rcv_nxt c) (sndb_at c (tcp_in_flight c) n) c s = (ok, c1, s1)"
      by (metis prod_cases3)
    note pr = tcp_xmit_progress(1-4) [OF n_def _ _ p] tcp_xmit_progress(5) [OF n_def _ _ p, where now = "ticks s1"]
    have eff: "tx_effect s s1" using tcp_put_pkt_conn [OF p] by simp
    have fl: "tcp_in_flight c1 = tcp_in_flight c" by (simp add: tcp_in_flight_def tcp_put_pkt_fields [OF p])
    show ?thesis
    proof (cases ok)
      case False
      then have "tcp_xmit_loop w c s = (c1, s1)"
        using go p by (simp add: tcp_xmit_loop.simps [of w c s] Let_def n_def [symmetric])
      then show ?thesis using eff fl by simp
    next
      case True
      let ?d = "tcp_xmit_sent (ticks s1) n c1"
      have r: "tcp_xmit_loop w c s = tcp_xmit_loop w ?d s1"
        using go p True by (simp add: tcp_xmit_loop.simps [of w c s] Let_def n_def [symmetric])
      have ih: "tcp_in_flight (fst (tcp_xmit_loop w ?d s1)) \<le> max (tcp_in_flight ?d) (min (unat w) (snd_used ?d)) \<and>
          tcp_in_flight ?d \<le> tcp_in_flight (fst (tcp_xmit_loop w ?d s1)) \<and> tx_effect s1 (snd (tcp_xmit_loop w ?d s1))"
        using 1 [OF go n_def p [symmetric] refl True] by simp
      have b: "tcp_in_flight ?d \<le> min (unat w) (snd_used c)" "tcp_in_flight c \<le> tcp_in_flight ?d"
        using pr go by simp_all
      have u: "snd_used ?d = snd_used c" by (simp add: tcp_put_pkt_fields [OF p])
      show ?thesis unfolding r using ih b u tx_effect_trans [OF eff] by auto
    qed
  qed
qed

lemma tcp_send_win_min: "unat (tcp_send_win c) = min (unat (peer_win c)) (unat (cwnd c))"
  by (auto simp: tcp_send_win_def word_less_nat_alt unat_ucast_16_32)

text \<open>Property C21: the sender respects both windows.  Whatever \<open>tcp_xmit_pending\<close> sends,
  the bytes in flight afterwards are at most the peer's advertised window, the congestion
  window and the bytes in the send buffer, or as many as were in flight before.\<close>

theorem tcp_xmit_window:
  "tcp_in_flight (fst (tcp_xmit_pending c s)) \<le>
     max (tcp_in_flight c) (min (min (unat (peer_win c)) (unat (cwnd c))) (snd_used c)) \<and>
   tcp_in_flight c \<le> tcp_in_flight (fst (tcp_xmit_pending c s))"
proof -
  have "tcp_in_flight (tcp_persist_arm n c) = tcp_in_flight c" for n
    by (simp add: tcp_persist_arm_def tcp_in_flight_def)
  then show ?thesis
    using tcp_xmit_loop_bound [of "tcp_send_win c" c s] by (simp add: tcp_xmit_pending_def tcp_send_win_min)
qed

section \<open>The sender's invariant\<close>

text \<open>The scoreboard entries, as ranges, tile the sequence space from \<open>a\<close> to \<open>b\<close>.\<close>

definition tx_shape :: "tcp_conn \<Rightarrow> (u32 \<times> nat) list" where
  "tx_shape c = map (\<lambda>e. (tx_seq e, tx_len e)) (tx c)"

fun tx_chain :: "u32 \<Rightarrow> (u32 \<times> nat) list \<Rightarrow> u32 \<Rightarrow> bool" where
  "tx_chain a [] b \<longleftrightarrow> a = b"
| "tx_chain a ((q, l) # es) b \<longleftrightarrow> q = a \<and> 0 < l \<and> tx_chain (a + of_nat l) es b"

definition tx_total :: "(u32 \<times> nat) list \<Rightarrow> nat" where
  "tx_total es = sum_list (map snd es)"

text \<open>\<open>T\<close> is the byte stream the application writes.  The send buffer holds it from
  \<open>snd_una\<close> on, and the scoreboard tiles what is in flight.\<close>

definition snd_inv :: "(u32 \<Rightarrow> u8) \<Rightarrow> tcp_conn \<Rightarrow> bool" where
  "snd_inv T c \<longleftrightarrow> length (sndb c) = TCP_BUF_SIZE \<and> snd_used c \<le> TCP_BUF_SIZE \<and>
     frag T (snd_una c) (take (snd_used c) (sndb c)) \<and> length (tx c) \<le> TCP_TX_SEG_MAX \<and>
     tx_chain (snd_una c) (tx_shape c) (snd_nxt c) \<and> tx_total (tx_shape c) = tcp_in_flight c \<and>
     tcp_in_flight c \<le> snd_used c"

lemma snd_inv_cong:
  assumes "sndb c' = sndb c" "snd_used c' = snd_used c" "snd_una c' = snd_una c" "snd_nxt c' = snd_nxt c"
    "tx_shape c' = tx_shape c"
  shows "snd_inv T c' = snd_inv T c"
proof -
  have "length (tx c') = length (tx c)" using assms(5) by (metis length_map tx_shape_def)
  then show ?thesis using assms by (simp add: snd_inv_def tcp_in_flight_def)
qed

lemma tx_chain_append: "tx_chain a (xs @ ys) b \<longleftrightarrow> (\<exists>m. tx_chain a xs m \<and> tx_chain m ys b)"
  by (induction xs arbitrary: a) auto

lemma tx_chain_end: "tx_chain a xs b \<Longrightarrow> b = a + of_nat (tx_total xs)"
proof (induction xs arbitrary: a)
  case (Cons x xs)
  obtain q l where x: "x = (q, l)" by (cases x)
  show ?case using Cons.IH [of "a + of_nat l"] Cons.prems by (simp add: x tx_total_def add.assoc)
qed (simp add: tx_total_def)

lemma tx_total_append [simp]: "tx_total (xs @ ys) = tx_total xs + tx_total ys"
  by (simp add: tx_total_def)

lemma tx_total_Cons [simp]: "tx_total ((q, l) # es) = l + tx_total es" "tx_total [] = 0"
  by (simp_all add: tx_total_def)

section \<open>Adding to the scoreboard\<close>

lemma tcp_tx_add_chain:
  assumes ch: "tx_chain a (tx_shape c) b" and len: "length (tx c) \<le> TCP_TX_SEG_MAX"
    and n: "0 < n" "n \<le> TCP_MSS" and tot: "tx_total (tx_shape c) + n \<le> TCP_BUF_SIZE"
  shows "tx_chain a (tx_shape (tcp_tx_add b n c)) (b + of_nat n) \<and> length (tx (tcp_tx_add b n c)) \<le> TCP_TX_SEG_MAX \<and>
    tx_total (tx_shape (tcp_tx_add b n c)) = tx_total (tx_shape c) + n"
proof (cases "length (tx c) \<ge> TCP_TX_SEG_MAX")
  case False
  then show ?thesis using ch n len by (simp add: tcp_tx_add_def tx_shape_def tx_chain_append)
next
  case True
  define k where "k = length (tx c) - 1"
  define e where "e = tx c ! k"
  have k: "k = TCP_TX_SEG_MAX - 1" "k < length (tx c)" using True len by (simp_all add: k_def)
  have txs: "tx c = take k (tx c) @ [e]"
    using k by (metis Suc_diff_1 k_def e_def less_zeroE neq0_conv take_Suc_conv_app_nth take_all_iff order_refl diff_0_eq_0)
  define pre where "pre = map (\<lambda>e. (tx_seq e, tx_len e)) (take k (tx c))"
  have sh: "tx_shape c = pre @ [(tx_seq e, tx_len e)]"
    unfolding tx_shape_def pre_def by (subst txs) simp
  have c1: "tx_chain a pre (tx_seq e)" "b = tx_end e" "0 < tx_len e"
    using ch by (auto simp: sh tx_chain_append tx_end_def)
  have "tx_len e + n \<le> TCP_BUF_SIZE" using tot by (simp add: sh)
  then have add: "tcp_tx_add b n c = c\<lparr> tx := (tx c)[k := e\<lparr> tx_len := tx_len e + n \<rparr>] \<rparr>"
    using n True c1(2) k by (simp add: tcp_tx_add_def Let_def e_def)
  have "(tx c)[k := e\<lparr> tx_len := tx_len e + n \<rparr>] = take k (tx c) @ [e\<lparr> tx_len := tx_len e + n \<rparr>]"
    using k(2) by (subst txs) (simp add: list_update_append min_def)
  then have "tx_shape (tcp_tx_add b n c) = pre @ [(tx_seq e, tx_len e + n)]"
    by (simp add: add tx_shape_def pre_def)
  moreover have "length (tx (tcp_tx_add b n c)) \<le> TCP_TX_SEG_MAX" using len by (simp add: add)
  ultimately show ?thesis using c1 by (simp add: tx_chain_append sh tx_end_def add.assoc)
qed

section \<open>Acknowledging the scoreboard\<close>

text \<open>Sequence comparison of two points at small distances from a common base.\<close>

lemma seq_diff_small:
  assumes "x < 65536" "y < 65536"
  shows "tick_diff (a + of_nat x) (a + of_nat y) = int x - int y"
proof -
  have "a + of_nat x - (a + of_nat y) = (word_of_int (int x - int y) :: u32)" by simp
  then show ?thesis unfolding tick_diff_def
    using assms by (simp only:) (rule sint_u32_of_int; simp)
qed

lemma seq_after_small: "x < 65536 \<Longrightarrow> y < 65536 \<Longrightarrow> tcp_seq_after (a + of_nat x) (a + of_nat y) \<longleftrightarrow> y < x"
  by (simp add: tcp_seq_after_def seq_diff_small)

lemma seq_before_small: "x < 65536 \<Longrightarrow> y < 65536 \<Longrightarrow> tcp_seq_before (a + of_nat x) (a + of_nat y) \<longleftrightarrow> x < y"
  by (simp add: tcp_seq_before_def seq_diff_small)

definition tx_ack_list :: "u32 \<Rightarrow> tx_seg list \<Rightarrow> tx_seg list" where
  "tx_ack_list ack es = map (tx_ack_seg ack) (filter (\<lambda>e. tcp_seq_after (tx_end e) ack) es)"

abbreviation (input) shape :: "tx_seg list \<Rightarrow> (u32 \<times> nat) list" where
  "shape es \<equiv> map (\<lambda>e. (tx_seq e, tx_len e)) es"

lemma tx_ack_list_beyond:
  "tx_chain (ack + of_nat d) (shape es) b \<Longrightarrow> d + tx_total (shape es) < 65536 \<Longrightarrow> tx_ack_list ack es = es"
proof (induction es arbitrary: d)
  case Nil
  show ?case by (simp add: tx_ack_list_def)
next
  case (Cons e es)
  have q: "tx_seq e = ack + of_nat d" "0 < tx_len e" "tx_chain (ack + of_nat (d + tx_len e)) (shape es) b"
    using Cons.prems by (auto simp: add.assoc)
  have sm: "d < 65536" "d + tx_len e < 65536" using Cons.prems(2) by simp_all
  have a: "tcp_seq_after (tx_end e) ack"
    using seq_after_small [of "d + tx_len e" 0 ack] sm(2) q(2) by (simp add: tx_end_def q(1) add.assoc)
  have nb: "\<not> tcp_seq_before (tx_seq e) ack"
    using seq_before_small [of d 0 ack] sm(1) by (simp add: q(1))
  have "tx_ack_list ack es = es" by (rule Cons.IH [OF q(3)]) (use Cons.prems(2) in simp)
  then show ?case using a nb by (simp add: tx_ack_list_def tx_ack_seg_def)
qed

lemma tx_ack_list_chain:
  "tx_chain a (shape es) b \<Longrightarrow> tx_total (shape es) < 65536 \<Longrightarrow> k \<le> tx_total (shape es) \<Longrightarrow>
   tx_chain (a + of_nat k) (shape (tx_ack_list (a + of_nat k) es)) b \<and>
   tx_total (shape (tx_ack_list (a + of_nat k) es)) = tx_total (shape es) - k"
proof (induction es arbitrary: a k)
  case Nil
  then show ?case by (simp add: tx_ack_list_def)
next
  case (Cons e es)
  let ?l = "tx_len e"
  let ?ack = "a + of_nat k"
  have q: "tx_seq e = a" "0 < ?l" "tx_chain (a + of_nat ?l) (shape es) b" using Cons.prems(1) by auto
  have sm: "?l < 65536" "k < 65536" using Cons.prems(2,3) by simp_all
  have af: "tcp_seq_after (tx_end e) ?ack \<longleftrightarrow> k < ?l"
    using seq_after_small [OF sm] by (simp add: tx_end_def q(1))
  show ?case
  proof (cases "k < ?l")
    case False
    have e: "a + of_nat ?l + of_nat (k - ?l) = ?ack" using False by (simp add: of_nat_diff)
    have "tx_ack_list ?ack (e # es) = tx_ack_list ?ack es" using af False by (simp add: tx_ack_list_def)
    then show ?thesis using Cons.IH [OF q(3), of "k - ?l", unfolded e] Cons.prems(2,3) False by simp
  next
    case True
    have rest: "tx_ack_list ?ack es = es"
    proof (rule tx_ack_list_beyond)
      have "?ack + of_nat (?l - k) = a + of_nat ?l" using True by (simp add: of_nat_diff)
      then show "tx_chain (?ack + of_nat (?l - k)) (shape es) b" using q(3) by (simp only:)
    qed (use Cons.prems(2) True in simp)
    have bf: "tcp_seq_before (tx_seq e) ?ack \<longleftrightarrow> 0 < k"
      using seq_before_small [of 0 k a] sm by (simp add: q(1))
    have "tx_end e - ?ack = of_nat (?l - k)" using True by (simp add: tx_end_def q(1) of_nat_diff)
    then have len: "unat (ucast (tx_end e - ?ack) :: u16) = ?l - k"
      using sm by (simp only:) (simp add: unsigned_ucast_eq take_bit_eq_mod unat_of_nat)
    have "(tx_seq (tx_ack_seg ?ack e), tx_len (tx_ack_seg ?ack e)) = (?ack, ?l - k)"
      using bf len by (auto simp: tx_ack_seg_def q(1))
    then have "shape (tx_ack_list ?ack (e # es)) = (?ack, ?l - k) # shape es"
      using af True rest by (simp add: tx_ack_list_def)
    then show ?thesis using q(3) True by (simp add: of_nat_diff)
  qed
qed

section \<open>Preservation\<close>

lemma tcp_put_pkt_snd_inv:
  "tcp_put_pkt fl sq ack d c s = (ok, c', s') \<Longrightarrow> snd_inv T c' = snd_inv T c"
  by (rule snd_inv_cong) (simp_all add: tcp_put_pkt_fields tx_shape_def)

lemma tcp_xmit_sent_inv:
  assumes inv: "snd_inv T c" and n: "0 < n" "n \<le> TCP_MSS" "tcp_in_flight c + n \<le> snd_used c"
  shows "snd_inv T (tcp_xmit_sent now n c)"
proof -
  let ?c2 = "(if \<not> rtt_pending c then c\<lparr> rtt_stamp := now, rtt_seq := snd_nxt c + of_nat n, rtt_pending := True,
                  rtt_retransmitted := False \<rparr> else c)\<lparr> snd_nxt := snd_nxt c + of_nat n \<rparr>"
  have sh: "tx_shape ?c2 = tx_shape c" "tx ?c2 = tx c" by (auto simp: tx_shape_def)
  have i: "tx_chain (snd_una c) (tx_shape c) (snd_nxt c)" "length (tx c) \<le> TCP_TX_SEG_MAX"
      "tx_total (tx_shape c) = tcp_in_flight c" "snd_used c \<le> TCP_BUF_SIZE"
    using inv by (simp_all add: snd_inv_def)
  have e: "tcp_xmit_sent now n c = tcp_persist_clear (tcp_rto_rearm now (tcp_tx_add (snd_nxt c) n ?c2))"
    by (simp add: tcp_xmit_sent_def Let_def)
  have tx: "tx (tcp_xmit_sent now n c) = tx (tcp_tx_add (snd_nxt c) n ?c2)"
    unfolding e by (simp add: tcp_persist_clear_def tcp_rto_rearm_def)
  note a = tcp_tx_add_chain [where c = ?c2 and a = "snd_una c" and b = "snd_nxt c", unfolded sh, OF i(1,2) n(1,2)]
  have fl: "tcp_in_flight (tcp_xmit_sent now n c) = tcp_in_flight c + n"
    by (rule tcp_in_flight_add) (use n(3) i(4) in simp_all)
  show ?thesis
    using inv a i(3,4) n(3) fl tx by (simp add: snd_inv_def tx_shape_def)
qed

lemma tcp_xmit_loop_inv: "snd_inv T c \<Longrightarrow> snd_inv T (fst (tcp_xmit_loop w c s))"
proof (induction w c s rule: tcp_xmit_loop.induct)
  case (1 w c s)
  show ?case
  proof (cases "tcp_in_flight c \<ge> unat w \<or> snd_used c \<le> tcp_in_flight c")
    case True
    then show ?thesis using 1(2) by (simp add: tcp_xmit_loop.simps [of w c s])
  next
    case go: False
    define n where "n = tcp_xmit_size w c"
    obtain ok c1 s1 where p: "tcp_put_pkt TCP_FLAG_ACKPSH (snd_nxt c) (rcv_nxt c) (sndb_at c (tcp_in_flight c) n) c s = (ok, c1, s1)"
      by (metis prod_cases3)
    have inv1: "snd_inv T c1" using 1(2) tcp_put_pkt_snd_inv [OF p] by simp
    have fl: "tcp_in_flight c1 = tcp_in_flight c" "snd_used c1 = snd_used c"
      by (simp_all add: tcp_in_flight_def tcp_put_pkt_fields [OF p])
    have "snd_inv T (tcp_xmit_sent (ticks s1) n c1)"
      by (rule tcp_xmit_sent_inv [OF inv1])
        (use tcp_xmit_progress(1,2,4) [OF n_def _ _ p] tcp_eff_mss_bounds [of c] go fl in auto)
    then have "ok \<Longrightarrow> snd_inv T (fst (tcp_xmit_loop w (tcp_xmit_sent (ticks s1) n c1) s1))"
      using 1(1) [OF go n_def p [symmetric] refl] by simp
    then show ?thesis
      using go p inv1 by (simp add: tcp_xmit_loop.simps [of w c s] Let_def n_def [symmetric])
  qed
qed

lemma tcp_xmit_pending_inv: "snd_inv T c \<Longrightarrow> snd_inv T (fst (tcp_xmit_pending c s))"
proof -
  assume i: "snd_inv T c"
  have "snd_inv T (tcp_persist_arm now c)" for now
    by (rule snd_inv_cong [THEN iffD2, OF _ _ _ _ _ i]) (simp_all add: tcp_persist_arm_def tx_shape_def)
  then show ?thesis using i tcp_xmit_loop_inv [OF i, of "tcp_send_win c" s] by (simp add: tcp_xmit_pending_def)
qed

lemma tcp_retransmit_inv: "snd_inv T (fst (snd (tcp_retransmit_from i c s))) = snd_inv T c"
proof (induction i c s rule: tcp_retransmit_from.induct)
  case (1 i c s)
  show ?case
  proof (cases "i < length (tx c)")
    case False
    then show ?thesis by (simp add: tcp_retransmit_from.simps [of i c s])
  next
    case True
    define e where "e = tx c ! i"
    define off where "off = tx_seq e - snd_una c"
    obtain ok c1 s1 where p: "tcp_put_pkt TCP_FLAG_ACKPSH (tx_seq e) (rcv_nxt c) (sndb_at c (unat off) (tx_len e)) c s = (ok, c1, s1)"
      by (metis prod_cases3)
    have inv1: "snd_inv T c1 = snd_inv T c" by (rule tcp_put_pkt_snd_inv [OF p])
    have "shape ((tx c1)[i := (tx c1 ! i)\<lparr> tx_retransmitted := True \<rparr>]) = shape (tx c1)"
      by (rule map_update_same) simp
    then have "snd_inv T (tcp_rto_rearm (ticks s1) (c1\<lparr> tx := (tx c1)[i := (tx c1 ! i)\<lparr> tx_retransmitted := True \<rparr>],
        rtt_retransmitted := True \<rparr>)) = snd_inv T c1"
      by (intro snd_inv_cong) (simp_all add: tcp_rto_rearm_def tx_shape_def)
    then show ?thesis
      using 1 [OF _ e_def off_def] True p inv1
      by (simp add: tcp_retransmit_from.simps [of i c s] Let_def e_def [symmetric] off_def [symmetric] split: prod.splits)
  qed
qed

lemma tcp_tx_retransmit_lost_inv:
  "tcp_tx_retransmit_lost c s = (r, c', s') \<Longrightarrow> snd_inv T c' = snd_inv T c"
  using tcp_retransmit_inv [of T 0 c s] by (simp add: tcp_tx_retransmit_lost_def)

lemma acceptable_ack:
  assumes "tcp_seq_after ack una" "\<not> tcp_seq_after ack nxt" "unat (nxt - una) < 65536"
  shows "unat (ack - una) \<le> unat (nxt - una)"
proof -
  define d where "d = unat (nxt - una)"
  define k where "k = nat (tick_diff ack una)"
  have n: "nxt = una + of_nat d" by (simp add: d_def)
  have kp: "0 < tick_diff ack una" "tick_diff ack una < 2147483648"
    using assms(1) sint_lt [of "ack - una"] by (simp_all add: tcp_seq_after_def tick_diff_def)
  have a: "ack = una + of_nat k"
    using kp by (simp add: k_def tick_diff_def)
  have "ack - nxt = word_of_int (int k - int d)" by (simp add: a n)
  moreover have "int k < 2147483648" using kp by (simp add: k_def)
  moreover have "d < 65536" using assms(3) by (simp add: d_def)
  ultimately have "tick_diff ack nxt = int k - int d"
    unfolding tick_diff_def by (simp only:) (rule sint_u32_of_int; linarith)
  then have "k \<le> d" using assms(2) by (simp add: tcp_seq_after_def)
  moreover have "ack - una = of_nat k" by (subst a) simp
  moreover have "k < 2 ^ 32" using kp by (simp add: k_def)
  ultimately have "k \<le> d" "unat (ack - una) = k" by (simp_all only: unat_of_nat) simp
  then show ?thesis by (simp add: d_def)
qed

text \<open>Only the sequence variables, the buffer and the scoreboard matter.\<close>

definition snd_core :: "tcp_conn \<Rightarrow> u32 \<times> u32 \<times> nat \<times> bytes \<times> (u32 \<times> nat) list" where
  "snd_core c = (snd_una c, snd_nxt c, snd_used c, sndb c, tx_shape c)"

lemma snd_core_inv: "snd_inv T c \<Longrightarrow> snd_core c' = snd_core c \<Longrightarrow> snd_inv T c'"
  using snd_inv_cong [of c' c T] by (simp add: snd_core_def)

lemma tcp_ack_buf_core:
  "snd_core (tcp_ack_buf ack x d) = (ack, snd_nxt d, snd_used d - unat x,
     take (snd_used d - unat x) (drop (unat x) (sndb d)) @ drop (snd_used d - unat x) (sndb d), shape (tx_ack_list ack (tx d)))"
  by (cases "x = 0") (simp_all add: tcp_ack_buf_def Let_def snd_core_def tx_shape_def tcp_tx_ack_def tx_ack_list_def)

lemma tcp_ack_advance_core:
  assumes k: "unat (ack - snd_una c) \<le> snd_used c" and kd: "k = unat (ack - snd_una c)"
  shows "snd_core (tcp_ack_advance ack now c) =
    (ack, snd_nxt c, snd_used c - k, take (snd_used c - k) (drop k (sndb c)) @ drop (snd_used c - k) (sndb c),
     shape (tx_ack_list ack (tx c)))"
proof -
  have rtt: "snd_core (tcp_ack_rtt ack now c) = snd_core c" "tx (tcp_ack_rtt ack now c) = tx c"
    by (simp_all add: tcp_ack_rtt_def tcp_rtt_sample_def Let_def snd_core_def tx_shape_def)
  have same: "snd_core (tcp_ack_recovered ack d) = snd_core d" "snd_core (tcp_ack_cwnd x d) = snd_core d" for x d
    by (simp_all add: tcp_ack_recovered_def tcp_ack_cwnd_def snd_core_def tx_shape_def Let_def)
  have acked: "tcp_acked ack c = ack - snd_una c" using k by (simp add: tcp_acked_def Let_def)
  have "snd_core (tcp_ack_advance ack now c) = snd_core (tcp_ack_buf ack (ack - snd_una c) (tcp_ack_rtt ack now c))"
    by (simp add: tcp_ack_advance_def Let_def same acked)
  then show ?thesis
    using rtt by (simp add: tcp_ack_buf_core kd) (simp add: snd_core_def)
qed

lemma tcp_ack_advance_inv:
  assumes inv: "snd_inv T c" and k: "unat (ack - snd_una c) \<le> tcp_in_flight c"
  shows "snd_inv T (tcp_ack_advance ack now c)"
proof -
  define k where "k = unat (ack - snd_una c)"
  let ?d = "tcp_ack_advance ack now c"
  have i: "length (sndb c) = TCP_BUF_SIZE" "snd_used c \<le> TCP_BUF_SIZE" "frag T (snd_una c) (take (snd_used c) (sndb c))"
    "tx_chain (snd_una c) (shape (tx c)) (snd_nxt c)" "tx_total (shape (tx c)) = tcp_in_flight c" "tcp_in_flight c \<le> snd_used c"
    "length (tx c) \<le> TCP_TX_SEG_MAX"
    using inv by (simp_all add: snd_inv_def tx_shape_def)
  have ack: "ack = snd_una c + of_nat k" by (simp add: k_def)
  have kf: "k \<le> tcp_in_flight c" "k \<le> snd_used c" using k i(6) by (simp_all add: k_def)
  note core = tcp_ack_advance_core [OF kf(2) [unfolded k_def] k_def, of now]
  have ch: "tx_chain ack (shape (tx_ack_list ack (tx c))) (snd_nxt c)"
      "tx_total (shape (tx_ack_list ack (tx c))) = tcp_in_flight c - k"
    using tx_ack_list_chain [OF i(4), of k] i(2,5,6) kf unfolding ack by simp_all
  have f: "snd_una ?d = ack" "snd_nxt ?d = snd_nxt c" "snd_used ?d = snd_used c - k"
    "sndb ?d = take (snd_used c - k) (drop k (sndb c)) @ drop (snd_used c - k) (sndb c)"
    "tx_shape ?d = shape (tx_ack_list ack (tx c))"
    using core by (simp_all add: snd_core_def)
  have "length (tx ?d) = length (tx_ack_list ack (tx c))" using f(5) by (metis length_map tx_shape_def)
  then have l8: "length (tx ?d) \<le> TCP_TX_SEG_MAX"
    using le_trans [OF length_filter_le i(7)] by (simp add: tx_ack_list_def)
  have fl: "tcp_in_flight ?d = tcp_in_flight c - k"
  proof -
    have "snd_nxt c - ack = of_nat (tcp_in_flight c - k)"
      using kf(1) by (simp add: ack tcp_in_flight_def of_nat_diff)
    then show ?thesis using i(2,6) unfolding tcp_in_flight_def [of ?d] f by (simp only:) (simp add: unat_of_nat)
  qed
  have "take (snd_used c - k) (sndb ?d) = drop k (take (snd_used c) (sndb c))"
    using i(1,2) kf by (simp add: f drop_take)
  then have fr: "frag T ack (take (snd_used c - k) (sndb ?d))"
    unfolding ack using frag_drop [OF i(3), of k] by (simp only:)
  have ln: "length (sndb ?d) = TCP_BUF_SIZE" using i(1,2) kf by (simp add: f)
  have bd: "snd_used c - k \<le> TCP_BUF_SIZE" "tcp_in_flight c - k \<le> snd_used c - k" using i(2,6) by simp_all
  show ?thesis
    unfolding snd_inv_def f(1-3,5) fl using fr ln bd l8 ch by (simp only:)
qed

lemma tcp_in_newack_inv:
  assumes inv: "snd_inv T c" and a: "tcp_seq_after ack (snd_una c)" "\<not> tcp_seq_after ack (snd_nxt c)"
  shows "snd_inv T (fst (tcp_in_newack ack c s))"
proof -
  let ?c1 = "tcp_ack_advance ack (ticks s) c"
  have "tcp_in_flight c < 65536" using inv by (simp add: snd_inv_def)
  then have i1: "snd_inv T ?c1"
    using tcp_ack_advance_inv [OF inv] acceptable_ack [OF a] by (simp add: tcp_in_flight_def)
  obtain r c2 s2 where p: "(if sacks ?c1 = [] then (False, ?c1, s) else tcp_tx_retransmit_lost ?c1 s) = (r, c2, s2)"
    by (metis prod_cases3)
  have i2: "snd_inv T c2" using p i1 tcp_tx_retransmit_lost_inv [of ?c1 s r c2 s2 T] by (auto split: if_splits)
  obtain c3 s3 where q: "(if r then (c2, s2) else tcp_xmit_pending c2 s2) = (c3, s3)" by fastforce
  have i3: "snd_inv T c3" using q i2 tcp_xmit_pending_inv [OF i2, of s2] by (auto split: if_splits)
  have "snd_inv T (c3\<lparr> rto_deadline := 0 \<rparr>)" "snd_inv T (tcp_rto_rearm now c3)" for now
    by (rule snd_core_inv [OF i3]; simp add: snd_core_def tx_shape_def tcp_rto_rearm_def)+
  then show ?thesis using i3 by (simp add: tcp_in_newack_def Let_def p q)
qed

lemma tcp_fast_retransmit_inv:
  assumes inv: "snd_inv T c"
  shows "snd_inv T (fst (tcp_fast_retransmit fl retx c s))"
proof -
  let ?c1 = "(tcp_loss_window fl c)\<lparr> dupacks := 3 \<rparr>"
  let ?c2 = "?c1\<lparr> cwnd := ssthresh ?c1 + 3 * of_nat TCP_MSS, fast_recovery := True, recover_seq := snd_nxt ?c1 \<rparr>"
  have i2: "snd_inv T ?c2"
    by (rule snd_core_inv [OF inv]) (simp add: snd_core_def tx_shape_def tcp_loss_window_def Let_def)
  obtain r c3 s3 where p: "(if \<not> retx \<and> sacks ?c2 \<noteq> [] then tcp_tx_retransmit_lost ?c2 s else (retx, ?c2, s)) = (r, c3, s3)"
    by (metis prod_cases3)
  have i3: "snd_inv T c3"
    using p i2 tcp_tx_retransmit_lost_inv [of ?c2 s r c3 s3 T] by (auto split: if_splits)
  define d where "d = sndb_at c3 0 (if unat fl > TCP_MSS then TCP_MSS else unat fl)"
  obtain ok c4 s4 where q: "tcp_put_pkt TCP_FLAG_ACKPSH (snd_una c3) (rcv_nxt c3) d c3 s3 = (ok, c4, s4)"
    by (metis prod_cases3)
  have i4: "snd_inv T c4" using i3 tcp_put_pkt_snd_inv [OF q] by simp
  have "snd_inv T (tcp_rto_rearm now (c4\<lparr> rtt_retransmitted := True \<rparr>))"
       "snd_inv T (tcp_rto_rearm now (c4\<lparr> fast_recovery := False \<rparr>))" for now
    by (rule snd_core_inv [OF i4]; simp add: snd_core_def tx_shape_def tcp_rto_rearm_def)+
  then show ?thesis
    unfolding tcp_fast_retransmit_def Let_def p prod.case d_def [symmetric] q using i3 by simp
qed

lemma tcp_in_dupack_inv:
  assumes inv: "snd_inv T c"
  shows "snd_inv T (fst (tcp_in_dupack fl c s))"
proof -
  let ?c1 = "c\<lparr> dupacks := dupacks c + 1 \<rparr>"
  have i1: "snd_inv T ?c1" by (rule snd_core_inv [OF inv]) (simp add: snd_core_def tx_shape_def)
  obtain r c2 s2 where p: "(if sacks ?c1 \<noteq> [] then tcp_tx_retransmit_lost ?c1 s else (False, ?c1, s)) = (r, c2, s2)"
    by (metis prod_cases3)
  have i2: "snd_inv T c2" using p i1 tcp_tx_retransmit_lost_inv [of ?c1 s r c2 s2 T] by (auto split: if_splits)
  have i3: "snd_inv T (c2\<lparr> cwnd := cwnd c2 + of_nat TCP_MSS \<rparr>)"
    by (rule snd_core_inv [OF i2]) (simp add: snd_core_def tx_shape_def)
  show ?thesis
    unfolding tcp_in_dupack_def Let_def p prod.case
    using i2 tcp_fast_retransmit_inv [OF i2, of fl r s2] tcp_xmit_pending_inv [OF i3, of s2] by simp
qed

text \<open>Property C2: acknowledgement processing keeps the sender's books.  For an arbitrary
  incoming segment (duplicate, stale, future or partial acknowledgement, any SACK blocks) the
  send buffer still holds the application's stream from the new \<open>snd_una\<close> on, and the
  scoreboard of at most eight entries still tiles exactly the range from \<open>snd_una\<close> to
  \<open>snd_nxt\<close>, retransmissions and new transmissions included.\<close>

theorem tcp_ack_keeps_sender:
  assumes inv: "snd_inv T c"
  shows "snd_inv T (fst (tcp_in_ack m w c s))"
proof -
  let ?c1 = "if sacks c \<noteq> [] then tcp_tx_sack c else c"
  have i1: "snd_inv T ?c1" "snd_inv T (?c1\<lparr> dupacks := 0 \<rparr>)"
    by (rule snd_core_inv [OF inv]; simp add: snd_core_def tx_shape_def tcp_tx_sack_def)+
  show ?thesis
    unfolding tcp_in_ack_def Let_def
    using inv i1(1) tcp_in_dupack_inv [OF i1(1), of "snd_nxt c - snd_una c" s] tcp_xmit_pending_inv [OF i1(2), of s] tcp_in_newack_inv [OF i1(1), of "ti_ack m" s]
    by (simp split: if_splits)
qed

definition snd_demo :: tcp_conn where
  "snd_demo = tcp_conn0\<lparr> snd_una := 0xFFFFFFFF, snd_nxt := 1, snd_used := 3, c_state := TCP_ESTABLISHED,
     tx := [\<lparr> tx_seq = 0xFFFFFFFF, tx_len = 2, tx_sacked = False, tx_lost = False, tx_retransmitted = False \<rparr>] \<rparr>"

definition snd_demo_ack :: tcp_in where
  "snd_demo_ack = \<lparr> ti_src = 1, ti_sport = 2, ti_dport = 3, ti_flags = TCP_FLAG_ACK, ti_seq = 0, ti_ack = 0, ti_win = 9,
     ti_opts = [], ti_data = [], ti_dlen = 0 \<rparr>"

lemma snd_demo_inv: "snd_inv (\<lambda>_. 0) snd_demo"
  by (simp add: snd_inv_def snd_demo_def tcp_conn0_def tcp_in_flight_def tx_shape_def frag_def)

theorem tcp_ack_keeps_sender_witness:
  "snd_inv (\<lambda>_. 0) snd_demo \<and> snd_inv (\<lambda>_. 0) (fst (tcp_in_ack snd_demo_ack 9 snd_demo arp_boot))"
  using tcp_ack_keeps_sender [OF snd_demo_inv, of snd_demo_ack 9 arp_boot] snd_demo_inv by simp

section \<open>Writing\<close>

definition tcp_write_len :: "nat \<Rightarrow> tcp_conn \<Rightarrow> nat" where
  "tcp_write_len n c = min (min n 1460) (TCP_BUF_SIZE - snd_used c)"

lemma tcp_write_inv:
  assumes inv: "snd_inv T c" and d: "frag T (snd_una c + of_nat (snd_used c)) data" and n: "n \<le> length data" "snd_used c + n \<le> TCP_BUF_SIZE"
  shows "snd_inv T (c\<lparr> sndb := take (snd_used c) (sndb c) @ take n data @ drop (snd_used c + n) (sndb c), snd_used := snd_used c + n \<rparr>)"
proof -
  have l: "length (sndb c) = TCP_BUF_SIZE" "snd_used c \<le> TCP_BUF_SIZE" using inv by (simp_all add: snd_inv_def)
  have "take (snd_used c + n) (take (snd_used c) (sndb c) @ take n data @ drop (snd_used c + n) (sndb c)) =
      take (snd_used c) (sndb c) @ take n data"
    using l n by simp
  then show ?thesis
    using inv frag_take [OF d, of n] l n by (simp add: snd_inv_def frag_append tx_shape_def tcp_in_flight_def)
qed

text \<open>Writing.  On an open connection \<open>tcp_send\<close> takes exactly the bytes that
  fit (at most 1460, at most the room left), reports that number, appends those bytes to
  the buffered stream and transmits within the windows; a full buffer gives \<open>-EAGAIN\<close>, and
  nothing is taken.\<close>

theorem tcp_send_appends:
  assumes inv: "snd_inv T c" and st: "\<not> dead c" "c_state c = TCP_ESTABLISHED" "data \<noteq> []"
    and d: "frag T (snd_una c + of_nat (snd_used c)) data" and r: "tcp_send_conn data c s = (n, c', s')"
  shows "snd_inv T c' \<and>
    (if tcp_write_len (length data) c = 0 then n = - CATOS_EAGAIN \<and> c' = c
     else n = int (tcp_write_len (length data) c) \<and> snd_used c' = snd_used c + tcp_write_len (length data) c)"
proof -
  define k where "k = tcp_write_len (length data) c"
  define c1 where "c1 = c\<lparr> sndb := take (snd_used c) (sndb c) @ take k data @ drop (snd_used c + k) (sndb c), snd_used := snd_used c + k \<rparr>"
  have k: "(if (if length data > 1460 then 1460 else length data) > TCP_BUF_SIZE - snd_used c then TCP_BUF_SIZE - snd_used c
      else (if length data > 1460 then 1460 else length data)) = k"
    by (auto simp: k_def tcp_write_len_def min_def)
  have u: "snd_used c \<le> TCP_BUF_SIZE" using inv by (simp add: snd_inv_def)
  then have kb: "k \<le> length data" "snd_used c + k \<le> TCP_BUF_SIZE" by (auto simp: k_def tcp_write_len_def)
  have e: "tcp_send_conn data c s = (if k = 0 then (- CATOS_EAGAIN, c, s) else (int k, tcp_xmit_pending c1 s))"
    unfolding tcp_send_conn_def Let_def k c1_def [symmetric] using st by simp
  have "snd_inv T c1" unfolding c1_def by (rule tcp_write_inv [OF inv d kb])
  then have x: "snd_inv T (fst (tcp_xmit_pending c1 s))" by (rule tcp_xmit_pending_inv)
  have ul: "snd_used (fst (tcp_xmit_loop w a s)) = snd_used a" for w a
  proof (induction w a s rule: tcp_xmit_loop.induct)
    case (1 w a s)
    obtain ok a1 s1 where p: "tcp_put_pkt TCP_FLAG_ACKPSH (snd_nxt a) (rcv_nxt a) (sndb_at a (tcp_in_flight a) (tcp_xmit_size w a)) a s = (ok, a1, s1)"
      by (metis prod_cases3)
    show ?case
      using 1 [OF _ refl p [symmetric] refl] tcp_put_pkt_fields(3) [OF p]
      by (simp add: tcp_xmit_loop.simps [of w a s] Let_def p)
  qed
  have "snd_used (fst (tcp_xmit_pending c1 s)) = snd_used c + k"
    by (simp add: tcp_xmit_pending_def ul tcp_persist_arm_def) (simp add: c1_def)
  then show ?thesis unfolding k_def [symmetric] using r e x inv by (cases "k = 0") auto
qed

theorem tcp_send_appends_witness:
  "tcp_write_len 2 snd_demo = 2 \<and> (\<exists>c' s'. tcp_send_conn [0, 0] snd_demo arp_boot = (2, c', s') \<and> snd_inv (\<lambda>_. 0) c' \<and> snd_used c' = 5)"
proof -
  obtain n c' s' where r: "tcp_send_conn [0, 0] snd_demo arp_boot = (n, c', s')" by (metis prod_cases3)
  have w: "tcp_write_len 2 snd_demo = 2" by (simp add: tcp_write_len_def snd_demo_def)
  have "frag (\<lambda>_. 0) (snd_una snd_demo + of_nat (snd_used snd_demo)) [0, 0]" by (simp add: frag_Cons)
  moreover have st: "\<not> dead snd_demo" "c_state snd_demo = TCP_ESTABLISHED" "snd_used snd_demo = 3" "[0, 0 :: u8] \<noteq> []"
    "length [0, 0 :: u8] = 2"
    by (simp_all add: snd_demo_def tcp_conn0_def)
  ultimately show ?thesis
    using tcp_send_appends [OF snd_demo_inv st(1,2,4) _ r, unfolded st(3,5) w] r w by simp
qed

end
