(* ===== verification/TcpFsm.thy ===== *)
theory TcpFsm
  imports TcpFlow
begin

text \<open>
  The TCP state machine: what closes a connection, validation of resets, the retransmission limit, and the bound on half-open connections.
\<close>

section \<open>What data transfer leaves alone\<close>

definition fsm :: "tcp_conn \<Rightarrow> tcp_state \<times> bool \<times> bool \<times> bool \<times> u16 \<times> u32 \<times> u16" where
  "fsm c = (c_state c, c_used c, dead c, c_accepted c, c_lport c, peer_ip c, peer_port c)"

named_theorems fsm_simps

lemma fsm_state: "fsm c = fsm d \<Longrightarrow> c_state c = c_state d"
  by (simp add: fsm_def)

lemma tcp_put_pkt_fsm: "tcp_put_pkt fl sq ack d c s = (ok, c', s') \<Longrightarrow> fsm c' = fsm c"
  using tcp_put_pkt_conn [of fl sq ack d c s ok c' s'] by (auto simp: fsm_def)

lemma tcp_put_pkt_fst [fsm_simps]: "fsm (fst (snd (tcp_put_pkt fl sq ack d c s))) = fsm c"
  using tcp_put_pkt_fsm [of fl sq ack d c s] by (metis prod.collapse)

lemma tcp_timers_fsm [fsm_simps]:
  "fsm (tcp_persist_arm n c) = fsm c" "fsm (tcp_persist_clear c) = fsm c" "fsm (tcp_persist_retry n c) = fsm c"
  "fsm (tcp_rto_arm n c) = fsm c" "fsm (tcp_rto_rearm n c) = fsm c" "fsm (tcp_rto_retry n c) = fsm c"
  "fsm (tcp_tx_add sq k c) = fsm c" "fsm (tcp_tx_ack sq c) = fsm c" "fsm (tcp_tx_sack c) = fsm c"
  "fsm (tcp_tx_clear_marks c) = fsm c" "fsm (tcp_loss_window n c) = fsm c" "fsm (tcp_rtt_sample n c) = fsm c"
  "fsm (tcp_xmit_sent n k c) = fsm c"
  by (simp_all add: fsm_def tcp_persist_arm_def tcp_persist_clear_def tcp_persist_retry_def tcp_rto_arm_def
      tcp_rto_rearm_def tcp_rto_retry_def tcp_tx_add_def tcp_tx_ack_def tcp_tx_sack_def tcp_tx_clear_marks_def
      tcp_loss_window_def tcp_rtt_sample_def tcp_xmit_sent_def Let_def)

lemma tcp_opt_apply_fsm [fsm_simps]: "fsm (tcp_opt_apply opt syn c) = fsm c"
  by (simp add: tcp_opt_apply_def fsm_def Let_def)

lemma tcp_parse_opts_fsm [fsm_simps]: "fsm (tcp_parse_opts opt syn c) = fsm c"
  by (induction opt syn c rule: tcp_parse_opts.induct) (subst tcp_parse_opts.simps, simp add: tcp_opt_apply_fsm)

lemma fsm_upd [fsm_simps]:
  "fsm (c\<lparr> ooo_bytes := b \<rparr>) = fsm c" "fsm (c\<lparr> ooo := sl \<rparr>) = fsm c" "fsm (c\<lparr> rcv_nxt := q \<rparr>) = fsm c"
  "fsm (c\<lparr> snd_nxt := q \<rparr>) = fsm c" "fsm (c\<lparr> rxb := d \<rparr>) = fsm c" "fsm (c\<lparr> tx := es \<rparr>) = fsm c"
  "fsm (c\<lparr> dupacks := q \<rparr>) = fsm c" "fsm (c\<lparr> cwnd := q \<rparr>) = fsm c" "fsm (c\<lparr> rtt_retransmitted := f \<rparr>) = fsm c"
  "fsm (c\<lparr> fast_recovery := f \<rparr>) = fsm c" "fsm (c\<lparr> sacks := ss \<rparr>) = fsm c" "fsm (c\<lparr> peer_win := w \<rparr>) = fsm c"
  "fsm (c\<lparr> rto_deadline := q \<rparr>) = fsm c" "fsm (c\<lparr> recover_seq := q \<rparr>) = fsm c" "fsm (tcp_rx_append d c) = fsm c"
  by (simp_all add: fsm_def tcp_rx_append_def)

lemma tcp_merge_slot_fsm: "fsm (snd (tcp_merge_slot i st)) = fsm (snd st)"
proof (cases st)
  case (Pair a c)
  show ?thesis
  proof (cases "ooo c ! i")
    case (Some e)
    obtain sq d where e: "e = (sq, d)" by (cases e)
    show ?thesis
      unfolding tcp_merge_slot_def Pair prod.case Some e option.case Let_def
      by (simp only: if_distrib [of snd] if_distrib [of fsm] snd_conv fsm_simps if_cancel)
  qed (simp add: Pair tcp_merge_slot_def)
qed

lemma tcp_merge_fold_fsm: "fsm (snd (fold tcp_merge_slot is st)) = fsm (snd st)"
  by (induction "is" arbitrary: st) (simp_all add: tcp_merge_slot_fsm)

lemma tcp_merge_ooo_fsm: "fsm (tcp_merge_ooo c) = fsm c"
proof (induction c rule: tcp_merge_ooo.induct)
  case (1 c)
  obtain a c1 where p: "tcp_merge_pass c = (a, c1)" by (cases "tcp_merge_pass c")
  have "fsm c1 = fsm c"
    using tcp_merge_fold_fsm [of "[0..<length (ooo c)]" "(False, c)"] p by (simp add: tcp_merge_pass_def)
  then show ?case using 1 [OF p [symmetric]] p by (simp add: tcp_merge_ooo.simps [of c])
qed

lemma tcp_accept_data_fsm [fsm_simps]: "fsm (snd (tcp_accept_data sq d n c)) = fsm c"
proof -
  have "fsm (snd (tcp_queue_ooo sq d n c)) = fsm c"
    by (simp add: tcp_queue_ooo_def Let_def fsm_def split: option.splits)
  moreover have "fsm (tcp_rx_append x c\<lparr> rcv_nxt := y \<rparr>) = fsm c" for x y by (simp add: tcp_rx_append_def fsm_def)
  ultimately show ?thesis by (simp add: tcp_accept_data_def tcp_merge_ooo_fsm)
qed

lemma tcp_xmit_loop_fsm: "fsm (fst (tcp_xmit_loop w c s)) = fsm c"
proof (induction w c s rule: tcp_xmit_loop.induct)
  case (1 w c s)
  obtain ok c1 s1 where p: "tcp_put_pkt TCP_FLAG_ACKPSH (snd_nxt c) (rcv_nxt c) (sndb_at c (tcp_in_flight c) (tcp_xmit_size w c)) c s = (ok, c1, s1)"
    by (metis prod_cases3)
  show ?case
    using 1 [OF _ refl p [symmetric] refl] tcp_put_pkt_fsm [OF p]
    by (simp add: tcp_xmit_loop.simps [of w c s] Let_def p fsm_simps)
qed

lemma tcp_xmit_pending_fsm [fsm_simps]: "fsm (fst (tcp_xmit_pending c s)) = fsm c"
  by (simp add: tcp_xmit_pending_def tcp_xmit_loop_fsm fsm_simps)

lemma tcp_retransmit_from_fsm: "fsm (fst (snd (tcp_retransmit_from i c s))) = fsm c"
proof (induction i c s rule: tcp_retransmit_from.induct)
  case (1 i c s)
  define e where "e = tx c ! i"
  define off where "off = tx_seq e - snd_una c"
  obtain ok c1 s1 where p: "tcp_put_pkt TCP_FLAG_ACKPSH (tx_seq e) (rcv_nxt c) (sndb_at c (unat off) (tx_len e)) c s = (ok, c1, s1)"
    by (metis prod_cases3)
  have "fsm (tcp_rto_rearm n (c1\<lparr> tx := x, rtt_retransmitted := True \<rparr>)) = fsm c" for n x
    using tcp_put_pkt_fsm [OF p] by (simp add: fsm_simps)
  then show ?case
    using 1 [OF _ e_def off_def] p tcp_put_pkt_fsm [OF p]
    by (simp add: tcp_retransmit_from.simps [of i c s] Let_def e_def [symmetric] off_def [symmetric] split: prod.splits)
qed

lemma tcp_tx_retransmit_lost_fsm: "tcp_tx_retransmit_lost c s = (r, c', s') \<Longrightarrow> fsm c' = fsm c"
  using tcp_retransmit_from_fsm [of 0 c s] by (simp add: tcp_tx_retransmit_lost_def)

lemma tcp_ack_advance_fsm [fsm_simps]: "fsm (tcp_ack_advance ack now c) = fsm c"
proof -
  have "fsm (tcp_ack_recovered ack d) = fsm d" "fsm (tcp_ack_cwnd x d) = fsm d" "fsm (tcp_ack_buf ack x d) = fsm d" for x d
    by (simp_all add: fsm_def tcp_ack_recovered_def tcp_ack_cwnd_def tcp_ack_buf_def tcp_tx_ack_def Let_def)
  moreover have "fsm (tcp_ack_rtt ack now c) = fsm c"
    by (simp add: tcp_ack_rtt_def tcp_rtt_sample_def fsm_def Let_def)
  ultimately show ?thesis by (simp add: tcp_ack_advance_def Let_def)
qed

lemma tcp_in_newack_fsm [fsm_simps]: "fsm (fst (tcp_in_newack ack c s)) = fsm c"
proof -
  let ?c1 = "tcp_ack_advance ack (ticks s) c"
  obtain r c2 s2 where p: "(if sacks ?c1 = [] then (False, ?c1, s) else tcp_tx_retransmit_lost ?c1 s) = (r, c2, s2)"
    by (metis prod_cases3)
  have i2: "fsm c2 = fsm c" using p tcp_tx_retransmit_lost_fsm [of ?c1 s r c2 s2] by (auto simp: fsm_simps split: if_splits)
  obtain c3 s3 where q: "(if r then (c2, s2) else tcp_xmit_pending c2 s2) = (c3, s3)" by fastforce
  have i3: "fsm c3 = fsm c" using q i2 tcp_xmit_pending_fsm [of c2 s2] by (auto split: if_splits)
  have "fsm (c3\<lparr> rto_deadline := 0 \<rparr>) = fsm c3" by (simp add: fsm_def)
  then show ?thesis using i3 by (simp add: tcp_in_newack_def Let_def p q fsm_simps)
qed

lemma tcp_fast_retransmit_fsm [fsm_simps]: "fsm (fst (tcp_fast_retransmit fl retx c s)) = fsm c"
proof -
  let ?c1 = "(tcp_loss_window fl c)\<lparr> dupacks := 3 \<rparr>"
  let ?c2 = "?c1\<lparr> cwnd := ssthresh ?c1 + 3 * of_nat TCP_MSS, fast_recovery := True, recover_seq := snd_nxt ?c1 \<rparr>"
  have i2: "fsm ?c2 = fsm c" by (simp add: fsm_def tcp_loss_window_def Let_def)
  obtain r c3 s3 where p: "(if \<not> retx \<and> sacks ?c2 \<noteq> [] then tcp_tx_retransmit_lost ?c2 s else (retx, ?c2, s)) = (r, c3, s3)"
    by (metis prod_cases3)
  have i3: "fsm c3 = fsm c"
    using p i2 tcp_tx_retransmit_lost_fsm [of ?c2 s r c3 s3] by (auto split: if_splits)
  define d where "d = sndb_at c3 0 (if unat fl > TCP_MSS then TCP_MSS else unat fl)"
  obtain ok c4 s4 where q: "tcp_put_pkt TCP_FLAG_ACKPSH (snd_una c3) (rcv_nxt c3) d c3 s3 = (ok, c4, s4)"
    by (metis prod_cases3)
  have "fsm (c4\<lparr> rtt_retransmitted := True \<rparr>) = fsm c" "fsm (c4\<lparr> fast_recovery := False \<rparr>) = fsm c"
    using i3 tcp_put_pkt_fsm [OF q] by (simp_all add: fsm_def)
  then show ?thesis
    unfolding tcp_fast_retransmit_def Let_def p prod.case d_def [symmetric] q using i3 by (simp add: fsm_simps)
qed

lemma tcp_in_dupack_fsm [fsm_simps]: "fsm (fst (tcp_in_dupack fl c s)) = fsm c"
proof -
  let ?c1 = "c\<lparr> dupacks := dupacks c + 1 \<rparr>"
  obtain r c2 s2 where p: "(if sacks ?c1 \<noteq> [] then tcp_tx_retransmit_lost ?c1 s else (False, ?c1, s)) = (r, c2, s2)"
    by (metis prod_cases3)
  have "fsm ?c1 = fsm c" by (simp add: fsm_def)
  then have i2: "fsm c2 = fsm c" using p tcp_tx_retransmit_lost_fsm [of ?c1 s r c2 s2] by (auto split: if_splits)
  have "fsm (c2\<lparr> cwnd := x \<rparr>) = fsm c2" for x by (simp add: fsm_def)
  then show ?thesis
    unfolding tcp_in_dupack_def Let_def p prod.case using i2 by (simp add: fsm_simps)
qed

lemma tcp_in_ack_fsm [fsm_simps]: "fsm (fst (tcp_in_ack m w c s)) = fsm c"
proof -
  have "fsm (d\<lparr> dupacks := 0 \<rparr>) = fsm d" for d by (simp add: fsm_def)
  then show ?thesis by (simp add: tcp_in_ack_def Let_def fsm_simps)
qed

lemma tcp_in_window_fsm [fsm_simps]: "fsm (tcp_in_window m now c) = fsm c"
proof -
  have "fsm (d\<lparr> sacks := [] \<rparr>) = fsm d" "fsm (d\<lparr> peer_win := w \<rparr>) = fsm d" for d w by (simp_all add: fsm_def)
  then show ?thesis by (simp add: tcp_in_window_def Let_def fsm_simps)
qed

lemma tcp_ack_now_fsm [fsm_simps]: "fsm (fst (tcp_ack_now c s)) = fsm c"
  by (simp add: tcp_ack_now_def fsm_simps)

lemma tcp_in_data_fsm [fsm_simps]: "fsm (fst (tcp_in_data m c s)) = fsm c"
  by (simp add: tcp_in_data_def fsm_simps)

section \<open>Closing\<close>

lemma tcp_ack_now_conn:
  assumes "tcp_ack_now c s = (c', s')"
  shows "c_state c' = c_state c \<and> rcv_nxt c' = rcv_nxt c \<and> snd_una c' = snd_una c \<and> snd_nxt c' = snd_nxt c"
proof -
  obtain ok c1 s1 where p: "tcp_put_pkt TCP_FLAG_ACK (snd_nxt c) (rcv_nxt c) [] c s = (ok, c1, s1)" by (metis prod_cases3)
  then have "c1 = c'" using assms by (simp add: tcp_ack_now_def)
  then show ?thesis using tcp_put_pkt_fields [OF p] by simp
qed

text \<open>What an in-order FIN may do, and what the acknowledgement of our own FIN may do.\<close>

definition fin_moves :: "tcp_conn \<Rightarrow> tcp_state \<Rightarrow> tcp_state \<Rightarrow> bool" where
  "fin_moves c' p q \<longleftrightarrow>
     p = TCP_ESTABLISHED \<and> q = TCP_LAST_ACK \<or>
     p = TCP_FIN_WAIT_1 \<and> q = TCP_TIME_WAIT \<and> snd_nxt c' \<le> snd_una c' \<or>
     p = TCP_FIN_WAIT_1 \<and> q = TCP_CLOSING \<and> snd_una c' < snd_nxt c' \<or>
     p \<in> {TCP_FIN_WAIT_2, TCP_CLOSING} \<and> q = TCP_TIME_WAIT"

definition ack_moves :: "tcp_state \<Rightarrow> tcp_state \<Rightarrow> bool" where
  "ack_moves p q \<longleftrightarrow> p = TCP_FIN_WAIT_1 \<and> q = TCP_FIN_WAIT_2 \<or> p = TCP_CLOSING \<and> q = TCP_TIME_WAIT"

lemma tcp_in_fin_moves:
  assumes "tcp_in_fin c s = (c', s')" "c_state c \<in> {TCP_ESTABLISHED, TCP_FIN_WAIT_1, TCP_FIN_WAIT_2, TCP_CLOSE_WAIT, TCP_CLOSING}"
  shows "rcv_nxt c' = rcv_nxt c \<and> (c_state c' = c_state c \<or> fin_moves c' (c_state c) (c_state c'))"
proof (cases "c_state c = TCP_ESTABLISHED")
  case True
  obtain ok c1 s1 where p: "tcp_put_pkt TCP_FLAG_FINACK (snd_nxt c) (rcv_nxt c) [] (c\<lparr> c_state := TCP_CLOSE_WAIT \<rparr>) s = (ok, c1, s1)"
    by (metis prod_cases3)
  show ?thesis
    using assms(1) True p tcp_put_pkt_fields(10) [OF p]
    by (auto simp: tcp_in_fin_def fin_moves_def tcp_rto_arm_def)
next
  case False
  then show ?thesis
    using assms by (auto simp: tcp_in_fin_def fin_moves_def tcp_time_wait_def split: if_splits)
qed

lemma tcp_active_close_moves:
  assumes "c' = tcp_active_close m now c"
  shows "c_state c' = c_state c \<or>
    flag_set m TCP_FLAG_ACK \<and> snd_nxt c' \<le> snd_una c' \<and> ack_moves (c_state c) (c_state c')"
  using assms by (auto simp: tcp_active_close_def tcp_time_wait_def ack_moves_def Let_def)

lemma tcp_in_synchronized_moves:
  assumes "tcp_in_synchronized m c s = (c', s')"
    "c_state c \<in> {TCP_ESTABLISHED, TCP_FIN_WAIT_1, TCP_FIN_WAIT_2, TCP_CLOSE_WAIT, TCP_CLOSING}"
  shows "c_state c' = c_state c \<or>
    flag_set m TCP_FLAG_FIN \<and> rcv_nxt c' = ti_seq m + ti_dlen m + 1 \<and> fin_moves c' (c_state c) (c_state c') \<or>
    flag_set m TCP_FLAG_ACK \<and> snd_nxt c' \<le> snd_una c' \<and> ack_moves (c_state c) (c_state c')"
proof -
  obtain c1 s1 where d: "tcp_in_data m c s = (c1, s1)" by fastforce
  have s1: "c_state c1 = c_state c" using tcp_in_data_fsm [of m c s] d by (simp add: fsm_def)
  obtain c2 s2 where f: "tcp_ack_now (c1\<lparr> rcv_nxt := rcv_nxt c1 + 1 \<rparr>) s1 = (c2, s2)" by fastforce
  have s2: "c_state c2 = c_state c" "rcv_nxt c2 = rcv_nxt c1 + 1" using tcp_ack_now_conn [OF f] s1 by simp_all
  obtain c3 s3 where g: "(if flag_set m TCP_FLAG_FIN then tcp_ack_now c1 s1 else (c1, s1)) = (c3, s3)" by fastforce
  have s3: "c_state c3 = c_state c" using tcp_ack_now_conn [of c1 s1 c3 s3] g s1 by (auto split: if_splits)
  show ?thesis
  proof (cases "flag_set m TCP_FLAG_FIN \<and> ti_seq m + ti_dlen m = rcv_nxt c1")
    case True
    then have "tcp_in_fin c2 s2 = (c', s')" using assms(1) by (simp add: tcp_in_synchronized_def d f)
    then show ?thesis using tcp_in_fin_moves [of c2 s2 c' s'] s2 True assms(2) by auto
  next
    case False
    then have "c' = tcp_active_close m (ticks s3) c3" using assms(1) unfolding tcp_in_synchronized_def d prod.case if_not_P [OF False] g by auto
    then show ?thesis using tcp_active_close_moves [of c' m "ticks s3" c3] s3 by auto
  qed
qed

text \<open>Property C26: a connection is closed only in order.  When a segment other than a reset
  moves a synchronized connection to another state, then either the segment carries a FIN
  whose sequence number was the next one expected once the segment's data was taken (the
  receiver now expects the number after the FIN, so no byte before it is missing), or it
  carries an acknowledgement and everything sent, our FIN included, has been acknowledged by
  the code's comparison.  The first moves \<open>ESTABLISHED\<close> to \<open>LAST_ACK\<close>, \<open>FIN_WAIT_1\<close> to
  \<open>TIME_WAIT\<close> or \<open>CLOSING\<close> according to whether our FIN is acknowledged, and \<open>FIN_WAIT_2\<close> or
  \<open>CLOSING\<close> to \<open>TIME_WAIT\<close>; the second \<open>FIN_WAIT_1\<close> to \<open>FIN_WAIT_2\<close> and \<open>CLOSING\<close> to
  \<open>TIME_WAIT\<close>.\<close>

theorem tcp_close_in_order:
  assumes "c_state c \<in> {TCP_ESTABLISHED, TCP_FIN_WAIT_1, TCP_FIN_WAIT_2, TCP_CLOSE_WAIT, TCP_CLOSING}"
    "\<not> flag_set m TCP_FLAG_RST" "tcp_conn_input m c s = (c', s')" "c_state c' \<noteq> c_state c"
  shows "flag_set m TCP_FLAG_FIN \<and> rcv_nxt c' = ti_seq m + ti_dlen m + 1 \<and>
      (c_state c = TCP_ESTABLISHED \<and> c_state c' = TCP_LAST_ACK \<or>
       c_state c = TCP_FIN_WAIT_1 \<and> c_state c' = (if snd_nxt c' \<le> snd_una c' then TCP_TIME_WAIT else TCP_CLOSING) \<or>
       c_state c \<in> {TCP_FIN_WAIT_2, TCP_CLOSING} \<and> c_state c' = TCP_TIME_WAIT) \<or>
    flag_set m TCP_FLAG_ACK \<and> snd_nxt c' \<le> snd_una c' \<and>
      (c_state c = TCP_FIN_WAIT_1 \<and> c_state c' = TCP_FIN_WAIT_2 \<or> c_state c = TCP_CLOSING \<and> c_state c' = TCP_TIME_WAIT)"
proof -
  obtain c2 s2 where q: "tcp_in_ack m (peer_win c) (tcp_in_window m (ticks s) c) s = (c2, s2)" by fastforce
  have "fsm c2 = fsm c"
    using tcp_in_ack_fsm [of m "peer_win c" "tcp_in_window m (ticks s) c" s] q by (simp add: fsm_simps)
  then have e: "c_state c2 = c_state c" by (simp add: fsm_def)
  have "tcp_in_synchronized m c2 s2 = (c', s')"
    using assms(1,2,3) e q by (auto simp: tcp_conn_input_def tcp_in_state_def)
  then show ?thesis
    using tcp_in_synchronized_moves [of m c2 s2 c' s'] assms(1,4) e
    by (auto simp: fin_moves_def ack_moves_def)
qed

definition fin_demo :: tcp_in where
  "fin_demo = snd_demo_ack\<lparr> ti_flags := TCP_FLAG_FIN \<rparr>"

definition fin_conn :: tcp_conn where
  "fin_conn = tcp_conn0\<lparr> c_state := TCP_ESTABLISHED \<rparr>"

lemma fin_demo_taken: "c_state (fst (tcp_conn_input fin_demo fin_conn arp_boot)) \<noteq> TCP_ESTABLISHED"
proof -
  define c where "c = tcp_in_window fin_demo (ticks arp_boot) fin_conn"
  have c: "c_state c = TCP_ESTABLISHED" "rcv_nxt c = 0"
    by (simp_all add: c_def tcp_in_window_def fin_demo_def fin_conn_def snd_demo_ack_def tcp_conn0_def flag_set_def
        tcp_parse_opts.simps tcp_persist_clear_def Let_def)
  obtain c2 s2 where f: "tcp_ack_now (c\<lparr> rcv_nxt := 1 \<rparr>) arp_boot = (c2, s2)" by fastforce
  have s2: "c_state c2 = TCP_ESTABLISHED" using tcp_ack_now_conn [OF f] c by simp
  have d: "flag_set fin_demo TCP_FLAG_FIN" "\<not> flag_set fin_demo TCP_FLAG_ACK" "\<not> flag_set fin_demo TCP_FLAG_SYN"
    "\<not> flag_set fin_demo TCP_FLAG_RST" "ti_seq fin_demo = 0" "ti_dlen fin_demo = 0"
    by (simp_all add: fin_demo_def snd_demo_ack_def flag_set_def)
  have "tcp_conn_input fin_demo fin_conn arp_boot = tcp_in_synchronized fin_demo c arp_boot"
    using c d(2-4) by (simp add: tcp_conn_input_def tcp_in_ack_def c_def [symmetric] tcp_in_state_def)
  also have "\<dots> = tcp_in_fin c2 s2"
    using c f d by (simp add: tcp_in_synchronized_def tcp_in_data_def)
  finally have "tcp_conn_input fin_demo fin_conn arp_boot = tcp_in_fin c2 s2" .
  then show ?thesis using s2 by (simp add: tcp_in_fin_def tcp_rto_arm_def split: prod.splits)
qed

theorem tcp_close_in_order_witness:
  "c_state (fst (tcp_conn_input fin_demo fin_conn arp_boot)) = TCP_LAST_ACK \<and>
   rcv_nxt (fst (tcp_conn_input fin_demo fin_conn arp_boot)) = 1"
proof -
  let ?r = "tcp_conn_input fin_demo fin_conn arp_boot"
  have h: "c_state fin_conn = TCP_ESTABLISHED" "\<not> flag_set fin_demo TCP_FLAG_RST" "ti_seq fin_demo + ti_dlen fin_demo = 0"
    by (simp_all add: fin_demo_def flag_set_def fin_conn_def snd_demo_ack_def tcp_conn0_def)
  show ?thesis
    using tcp_close_in_order [of fin_conn fin_demo arp_boot "fst ?r" "snd ?r"] h fin_demo_taken by auto
qed

section \<open>Resets\<close>

text \<open>Property C22: blind resets do not tear a connection down.  A RST aborts the connection
  exactly when its sequence number is the next expected one; any other RST leaves every
  field except the last advertised window as it was, and only one inside the receive window
  is answered, with a challenge ACK.\<close>

theorem tcp_rst_validated:
  assumes rst: "flag_set m TCP_FLAG_RST" "c_state c \<noteq> TCP_SYN_RECEIVED \<or> \<not> flag_set m TCP_FLAG_SYN"
    and r: "tcp_conn_input m c s = (c', s')"
  shows "if ti_seq m = rcv_nxt c then c_state c' = TCP_CLOSED \<and> \<not> c_used c' \<and> dead c' \<and> s' = s
     else (c'\<lparr> adv_win := adv_win c \<rparr> = c \<and>
           (tcp_seq_after (ti_seq m) (rcv_nxt c) \<and>
            tcp_seq_before (ti_seq m) (rcv_nxt c + of_nat (TCP_BUF_SIZE - length (rxb c))) \<or> s' = s))"
proof -
  have e: "tcp_in_rst m c s = (c', s')" using rst r by (auto simp: tcp_conn_input_def)
  obtain ok c1 s1 where p: "tcp_put_pkt TCP_FLAG_ACK (snd_nxt c) (rcv_nxt c) [] c s = (ok, c1, s1)" by (metis prod_cases3)
  have "c1\<lparr> adv_win := adv_win c \<rparr> = c" using tcp_put_pkt_conn [OF p] by auto
  then show ?thesis using e p by (auto simp: tcp_in_rst_def Let_def split: if_splits)
qed

definition rst_demo :: tcp_in where
  "rst_demo = snd_demo_ack\<lparr> ti_flags := TCP_FLAG_RST, ti_seq := 7 \<rparr>"

theorem tcp_rst_validated_witness:
  "flag_set rst_demo TCP_FLAG_RST \<and> c_state snd_demo \<noteq> TCP_SYN_RECEIVED \<and> rcv_nxt snd_demo \<noteq> ti_seq rst_demo \<and>
   (fst (tcp_conn_input rst_demo snd_demo arp_boot))\<lparr> adv_win := adv_win snd_demo \<rparr> = snd_demo"
proof -
  have h: "flag_set rst_demo TCP_FLAG_RST" "c_state snd_demo \<noteq> TCP_SYN_RECEIVED" "ti_seq rst_demo \<noteq> rcv_nxt snd_demo"
    by (simp_all add: rst_demo_def flag_set_def snd_demo_def snd_demo_ack_def tcp_conn0_def)
  show ?thesis
    using tcp_rst_validated [of rst_demo snd_demo arp_boot "fst (tcp_conn_input rst_demo snd_demo arp_boot)"
        "snd (tcp_conn_input rst_demo snd_demo arp_boot)"] h by simp
qed

section \<open>The retransmission limit\<close>

lemma rto_base_bounds: "TCP_RTO_INIT \<le> rto_base c \<and> rto_base c \<le> TCP_RTO_MAX"
  by (auto simp: rto_base_def Let_def not_less)

text \<open>A backoff of at most six never overflows the shift, so the timeout lies between 300 ms
  and 2.4 s.\<close>

lemma rto_now_bounds:
  assumes "rto_backoff c \<le> 6"
  shows "TCP_RTO_INIT \<le> rto_now c \<and> rto_now c \<le> TCP_RTO_MAX"
proof -
  define b where "b = unat (rto_base c)"
  define k where "k = unat (rto_backoff c)"
  have b: "30 \<le> b" "b \<le> 240" using rto_base_bounds [of c] by (simp_all add: b_def word_le_nat_alt)
  have k: "k \<le> 6" using assms by (simp add: k_def word_le_nat_alt)
  have "unat (push_bit k (rto_base c)) = push_bit k b mod 2 ^ 32"
    by (simp add: b_def unsigned_push_bit_eq take_bit_eq_mod)
  moreover have "push_bit k b = b * 2 ^ k" by (simp add: push_bit_eq_mult)
  moreover have "(2 :: nat) ^ k \<le> 2 ^ 6" using k by (intro power_increasing) simp_all
  then have "b * 2 ^ k \<le> 240 * 64" using b by (intro mult_mono) simp_all
  ultimately have u: "unat (push_bit k (rto_base c)) = b * 2 ^ k" by simp
  have "b * 1 \<le> b * 2 ^ k" by (intro mult_le_mono) simp_all
  then have "30 \<le> unat (push_bit k (rto_base c))" using b(1) u by linarith
  then show ?thesis by (simp add: rto_now_def Let_def k_def [symmetric] word_le_nat_alt not_less)
qed

text \<open>Connections with something to retransmit.\<close>

definition rto_waiting :: "tcp_conn \<Rightarrow> bool" where
  "rto_waiting c \<longleftrightarrow> c_state c \<in> {TCP_SYN_RECEIVED, TCP_LAST_ACK} \<or>
     c_state c \<in> {TCP_FIN_WAIT_1, TCP_CLOSING} \<and> snd_used c = 0 \<or> snd_used c \<noteq> 0"

lemma tcp_rto_resend_fields:
  assumes "tcp_rto_resend fl sq d c s = (c', s')"
  shows "rto_attempts c' = rto_attempts c + 1 \<and> c_state c' = c_state c \<and> snd_used c' = snd_used c \<and>
    (rto_backoff c \<le> 6 \<longrightarrow> rto_backoff c' \<le> 6) \<and> rto_deadline c' = ticks s + rto_now c'"
proof -
  obtain ok c1 s1 where p: "tcp_put_pkt fl sq (rcv_nxt c) d c (NETSTAT_INC tcp_rto_rexmit_update s) = (ok, c1, s1)"
    by (metis prod_cases3)
  have t: "ticks s1 = ticks s"
    using tcp_put_pkt_conn [OF p] tx_effect_core [of "NETSTAT_INC tcp_rto_rexmit_update s" s1] by (simp add: NETSTAT_INC_def)
  have b: "rto_backoff c1 = rto_backoff c" using tcp_put_pkt_conn [OF p] by auto
  have st: "x < 6 \<Longrightarrow> x + 1 \<le> 6" for x :: u8
    by (metis inc_le)
  have c': "c' = tcp_rto_retry (ticks s) c1" using assms p t by (simp add: tcp_rto_resend_def)
  show ?thesis
    using tcp_put_pkt_fields [OF p] b st
    by (simp add: c' tcp_rto_retry_def Let_def rto_now_def rto_base_def)
qed

text \<open>One expiry of the timer, at the tick \<open>now\<close>.\<close>

definition rto_fire :: "u32 \<Rightarrow> tcp_conn \<times> 'a arpst_scheme \<Rightarrow> tcp_conn \<times> 'a arpst_scheme" where
  "rto_fire now st = tcp_tick_rto (fst st) ((snd st)\<lparr> ticks := now \<rparr>)"

lemma rto_fire_step:
  assumes due: "timer_due now (rto_deadline c)" and w: "rto_waiting c" and a: "rto_attempts c < tcp_r2 c" and b: "rto_backoff c \<le> 6"
    and r: "rto_fire now (c, s) = (c', s')"
  shows "rto_waiting c' \<and> tcp_r2 c' = tcp_r2 c \<and> rto_attempts c' = rto_attempts c + 1 \<and> rto_backoff c' \<le> 6 \<and>
    (\<exists>d. TCP_RTO_INIT \<le> d \<and> d \<le> TCP_RTO_MAX \<and> rto_deadline c' = now + d)"
proof -
  obtain fl sq d c1 where c1: "rto_attempts c1 = rto_attempts c" "c_state c1 = c_state c" "snd_used c1 = snd_used c" "rto_backoff c1 = rto_backoff c"
    and e: "tcp_rto_resend fl sq d c1 (s\<lparr> ticks := now \<rparr>) = (c', s')"
  proof -
    let ?k = "if tcp_in_flight c > snd_used c then snd_used c else tcp_in_flight c"
    let ?c1 = "(tcp_loss_window (of_nat ?k) (tcp_tx_clear_marks c))\<lparr> rtt_retransmitted := True \<rparr>"
    have f: "rto_attempts ?c1 = rto_attempts c" "c_state ?c1 = c_state c" "snd_used ?c1 = snd_used c" "rto_backoff ?c1 = rto_backoff c"
      by (simp_all add: tcp_loss_window_def tcp_tx_clear_marks_def Let_def)
    have "\<exists>fl sq d c1. c1 \<in> {c, ?c1} \<and> tcp_rto_resend fl sq d c1 (s\<lparr> ticks := now \<rparr>) = (c', s')"
      using r due w a unfolding rto_fire_def tcp_tick_rto_def rto_waiting_def Let_def
      by (auto simp: not_le split: if_splits)
    then show ?thesis using f that by blast
  qed
  note q = tcp_rto_resend_fields [OF e]
  have "TCP_RTO_INIT \<le> rto_now c' \<and> rto_now c' \<le> TCP_RTO_MAX" using q c1 b rto_now_bounds by simp
  then show ?thesis using q c1 w b by (auto simp: rto_waiting_def tcp_r2_def)
qed

text \<open>A run of expiries, each at a tick where the timer is due, with no acknowledgement in
  between.\<close>

fun rto_silence :: "u32 list \<Rightarrow> tcp_conn \<times> 'a arpst_scheme \<Rightarrow> bool" where
  "rto_silence [] st = True"
| "rto_silence (t # ts) st = (timer_due t (rto_deadline (fst st)) \<and> rto_silence ts (rto_fire t st))"

definition rto_runs :: "u32 list \<Rightarrow> tcp_conn \<times> 'a arpst_scheme \<Rightarrow> tcp_conn \<times> 'a arpst_scheme" where
  "rto_runs ts st = fold rto_fire ts st"

text \<open>Property C25: a silent peer is given up.  A connection with something to retransmit
  that hears nothing is released after the retransmissions that remain to its limit (three
  for a half-open connection, five otherwise) and one more expiry, whatever its state; the
  slot is then free again.\<close>

theorem tcp_rto_gives_up:
  assumes "rto_waiting c" "rto_backoff c \<le> 6" "rto_attempts c \<le> tcp_r2 c" "rto_silence ts (c, s)"
    "length ts = unat (tcp_r2 c) - unat (rto_attempts c) + 1"
  shows "\<not> c_used (fst (rto_runs ts (c, s))) \<and> c_state (fst (rto_runs ts (c, s))) = TCP_CLOSED"
  using assms
proof (induction ts arbitrary: c s)
  case (Cons t ts)
  obtain c' s' where f: "rto_fire t (c, s) = (c', s')" by fastforce
  have due: "timer_due t (rto_deadline c)" using Cons.prems(4) by simp
  show ?case
  proof (cases "rto_attempts c = tcp_r2 c")
    case True
    then have "ts = []" using Cons.prems(5) by simp
    moreover have "rto_fire t (c, s) = (c\<lparr> c_used := False, c_state := TCP_CLOSED, rto_deadline := 0, persist_deadline := 0, tw_until := 0 \<rparr>, s\<lparr> ticks := t \<rparr>)"
      using True due by (simp add: rto_fire_def tcp_tick_rto_def)
    ultimately show ?thesis by (simp add: rto_runs_def)
  next
    case False
    then have lt: "rto_attempts c < tcp_r2 c" using Cons.prems(3) by simp
    note st = rto_fire_step [OF due Cons.prems(1) lt Cons.prems(2) f]
    have lt': "unat (rto_attempts c) < unat (tcp_r2 c)" using lt by (simp add: word_less_nat_alt)
    have r5: "unat (tcp_r2 c) \<le> 5" by (simp add: tcp_r2_def)
    have u: "unat (rto_attempts c') = unat (rto_attempts c) + 1"
      using st lt' r5 by (simp add: unat_word_ariths)
    have "\<not> c_used (fst (rto_runs ts (c', s'))) \<and> c_state (fst (rto_runs ts (c', s'))) = TCP_CLOSED"
      by (rule Cons.IH) (use st u lt' Cons.prems f in \<open>simp_all add: word_le_nat_alt\<close>)
    then show ?thesis by (simp add: rto_runs_def f)
  qed
qed simp

text \<open>The retransmission on timeout is not cut to the segment size: with more than 4042 bytes in
  flight the frame handed to the controller is longer than the 4096-byte page it was built
  in.  The model keeps the frame on the wire list at its full length, so that the overrun
  shows there.\<close>

theorem tcp_rto_overlong:
  assumes due: "timer_due (ticks s) (rto_deadline c)" "rto_attempts c < tcp_r2 c" "c_state c = TCP_ESTABLISHED"
    and fl: "tcp_in_flight c \<le> snd_used c" "snd_used c \<le> length (sndb c)" "4042 < tcp_in_flight c" "tcp_in_flight c \<le> 4096"
    and arp: "arp_resolve (peer_ip c) (NETSTAT_INC tcp_rto_rexmit_update s) = (Some dmac, s1)"
    and l: "length dmac = 6" "length (g_mac s1) = 6" "e1000_tx_alloc s1" "\<not> sack_ok c"
    and r: "tcp_tick_rto c s = (c', s')"
  shows "\<exists>fr. tx_wire s' = tx_wire s1 @ [fr] \<and> PAGE_BYTES < length fr"
proof -
  let ?k = "tcp_in_flight c"
  let ?c1 = "(tcp_loss_window (of_nat ?k) (tcp_tx_clear_marks c))\<lparr> rtt_retransmitted := True \<rparr>"
  have c1: "peer_ip ?c1 = peer_ip c" "sndb ?c1 = sndb c" by (simp_all add: tcp_loss_window_def tcp_tx_clear_marks_def Let_def)
  have e: "tcp_rto_resend TCP_FLAG_ACKPSH (snd_una ?c1) (sndb_at ?c1 0 ?k) ?c1 s = (c', s')"
  proof -
    have "\<not> tcp_r2 c \<le> rto_attempts c" "\<not> snd_used c < ?k" "snd_used c \<noteq> 0" using due(2) fl by auto
    then show ?thesis using due(1,3) r by (simp add: tcp_tick_rto_def Let_def)
  qed
  define d where "d = sndb_at ?c1 0 ?k"
  have d: "length d = ?k" using fl by (simp add: d_def sndb_at_def c1)
  define seg where "seg = tcp_segment (g_ip s1) ?c1 TCP_FLAG_ACKPSH (snd_una ?c1) (rcv_nxt ?c1) d"
  have "\<not> sack_ok ?c1" using l(4) by (simp add: tcp_loss_window_def tcp_tx_clear_marks_def Let_def)
  then have "tcp_build_opts ?c1 TCP_FLAG_ACKPSH = []" by (simp add: tcp_build_opts_def)
  then have seg: "length seg = 20 + ?k"
    using d by (simp add: seg_def tcp_segment_def tcp_csummed_def tcp_hdr_pre_def le16_def le32_def Let_def)
  obtain f s2 where b: "begin_ip (peer_ip c) IP_PROTO_TCP dmac s1 = (Some f, s2)" "length (fst f) = 14"
    "tx_wire s2 = tx_wire s1" "g_ip s2 = g_ip s1" "tx_dd s2 = tx_dd s1" "tx_next s2 = tx_next s1"
    using l(1-3) by (simp add: begin_ip_def)
  define q where "q = fst f @ ip_hdr_bytes (ip_hdr_finish (snd f) (length seg)) @ seg"
  have q: "length q = 54 + ?k" using b(2) seg by (simp add: q_def)
  have "s' = snd (end_ip f seg s2)"
    using e arp b c1 by (simp add: tcp_rto_resend_def tcp_put_pkt_def d_def [symmetric] seg_def split_beta)
  moreover have "tx_dd s2 ! tx_next s2" using l(3) b(5,6) by (simp add: e1000_tx_alloc_def)
  then have "tx_wire (snd (end_ip f seg s2)) = tx_wire s1 @ [q]"
    using q fl b(3) by (simp add: end_ip_def split_beta q_def [symmetric] e1000_tx_submit_def pad60_def unat_of_nat Let_def)
  ultimately show ?thesis using q fl by auto
qed

definition rto_demo :: tcp_conn where
  "rto_demo = snd_demo\<lparr> c_used := True, rto_attempts := 4, rto_deadline := 100 \<rparr>"

lemma timer_due_within:
  assumes "30 \<le> d" "d \<le> 240"
  shows "timer_due (100 + 240) (100 + d :: u32)"
proof -
  define k where "k = unat d"
  have k: "30 \<le> k" "k \<le> 240" using assms by (simp_all add: k_def word_le_nat_alt)
  have d: "d = of_nat k" by (simp add: k_def)
  have "tick_diff (100 + of_nat 240) (100 + of_nat k) = int 240 - int k" by (rule seq_diff_small) (use k in simp_all)
  moreover have "unat (100 + d) = 100 + k" using k by (simp add: k_def unat_word_ariths)
  then have "100 + d \<noteq> 0" by (metis add_is_0 unat_0 zero_neq_numeral)
  ultimately show ?thesis using k by (simp add: timer_due_def d)
qed

theorem tcp_rto_gives_up_witness:
  "rto_waiting rto_demo \<and> c_used rto_demo \<and> \<not> c_used (fst (rto_runs [100, 340] (rto_demo, arp_boot)))"
proof -
  have h: "rto_waiting rto_demo" "rto_backoff rto_demo \<le> 6" "rto_attempts rto_demo < tcp_r2 rto_demo" "timer_due 100 (rto_deadline rto_demo)"
    "c_used rto_demo" "length [100, 340 :: u32] = unat (tcp_r2 rto_demo) - unat (rto_attempts rto_demo) + 1"
    by (simp_all add: rto_demo_def snd_demo_def tcp_conn0_def rto_waiting_def tcp_r2_def timer_due_def tick_diff_def)
  obtain c' s' where f: "rto_fire 100 (rto_demo, arp_boot) = (c', s')" by fastforce
  obtain d where "30 \<le> d" "d \<le> 240" "rto_deadline c' = 100 + d"
    using rto_fire_step [OF h(4,1,3,2) f] by blast
  then have "timer_due 340 (rto_deadline c')" using timer_due_within by simp
  then have "rto_silence [100, 340] (rto_demo, arp_boot)" using h(4) f by simp
  from tcp_rto_gives_up [OF h(1,2) _ this h(6)] show ?thesis using h by simp
qed

section \<open>The backlog\<close>

lemma filter_update_le:
  "length (filter P (xs[i := x])) \<le> Suc (length (filter P xs))"
proof (induction xs arbitrary: i)
  case (Cons y ys)
  show ?case
  proof (cases i)
    case (Suc j)
    then show ?thesis using Cons.IH [of j] by simp
  qed simp
qed simp

lemma tcp_conns_effect: "tx_effect s t \<Longrightarrow> tcp_conns (t :: 'a tcpst_scheme) = tcp_conns s"
  by (auto simp: tx_effect_def)

lemma tcp_send_rst_ack_effect: "tx_effect s (tcp_send_rst_ack ip sp dp sq fl dl s)"
proof -
  obtain r s1 where r: "arp_resolve ip s = (r, s1)" by fastforce
  have e1: "tx_effect s s1" using arp_resolve_effect [of s ip] r by simp
  show ?thesis
  proof (cases r)
    case (Some m)
    obtain f s2 where b: "begin_ip ip IP_PROTO_TCP m s1 = (f, s2)" by fastforce
    have "tx_effect s s2" using begin_ip_effect [of s1 ip IP_PROTO_TCP m] b tx_effect_trans [OF e1] by simp
    then show ?thesis
      using r Some b tx_effect_trans [OF _ end_ip_effect, of s s2]
      by (cases f) (simp_all add: tcp_send_rst_ack_def)
  qed (use r e1 in \<open>simp add: tcp_send_rst_ack_def\<close>)
qed

lemma tcp_reject_conns: "tcp_conns (tcp_reject m s) = tcp_conns s"
  using tcp_conns_effect [OF tx_effect_trans [OF tcp_send_rst_ack_effect NETSTAT_INC_effect]] by (simp add: tcp_reject_def)

text \<open>SYN floods are bounded.  A segment for no existing connection never makes
  the half-open and unaccepted connections of a port exceed the listener's backlog, and
  never touches a slot in use: at most one free slot becomes a connection.\<close>

theorem tcp_backlog_bounded:
  assumes l: "tcp_conn_find_listen (ti_dport m) s = Some l"
  shows "tcp_pending_count (ti_dport m) (tcp_no_conn m s) \<le>
      max (tcp_pending_count (ti_dport m) s) (unat (c_backlog (tcp_conns s ! l))) \<and>
    (\<forall>i < length (tcp_conns s). c_used (tcp_conns s ! i) \<longrightarrow> tcp_conns (tcp_no_conn m s) ! i = tcp_conns s ! i)"
proof (cases "flag_set m TCP_FLAG_SYN \<and> tcp_pending_count (ti_dport m) s < unat (c_backlog (tcp_conns s ! l)) \<and> tcp_conn_find_free s \<noteq> None")
  case False
  then have "tcp_no_conn m s = tcp_reject m s" using l by (auto simp: tcp_no_conn_def not_less)
  then show ?thesis by (simp add: tcp_pending_count_def tcp_reject_conns)
next
  case True
  then obtain k where k: "tcp_conn_find_free s = Some k" by auto
  define s1 where "s1 = set_conn k (tcp_syn_init m (seq_gen s) (tcp_conns s ! k)) (s\<lparr> seq_gen := seq_gen s + 1 \<rparr>)"
  define c1 where "c1 = tcp_conns s1 ! k"
  obtain ok c2 s2 where p: "tcp_put_pkt TCP_FLAG_SYNACK (snd_isn c1) (rcv_nxt c1) [] c1 s1 = (ok, c2, s2)" by (metis prod_cases3)
  have "tcp_no_conn m s = set_conn k (tcp_rto_arm (ticks s2) c2) s2"
    using l True k p by (simp add: tcp_no_conn_def Let_def s1_def [symmetric] on_conn_def c1_def [symmetric])
  moreover have "tcp_conns s2 = tcp_conns s1" using tcp_put_pkt_conn [OF p] by (simp add: tcp_conns_effect)
  ultimately have cs: "tcp_conns (tcp_no_conn m s) = (tcp_conns s)[k := tcp_rto_arm (ticks s2) c2]"
    by (simp add: set_conn_def s1_def)
  have free: "\<not> c_used (tcp_conns s ! k)" "k < length (tcp_conns s)"
    using k find_idx_sat find_idx_lt unfolding tcp_conn_find_free_def by fastforce+
  have "tcp_pending_count (ti_dport m) (tcp_no_conn m s) \<le> Suc (tcp_pending_count (ti_dport m) s)"
    unfolding tcp_pending_count_def cs by (rule filter_update_le)
  then show ?thesis using True free cs by (auto simp: nth_list_update)
qed

end
