(* ===== verification/NetSafety.thy ===== *)
theory NetSafety
  imports NetStack TcpFsm
begin

text \<open>
  Properties of the composed stack: no received frame with sane length fields makes the
  stack read outside the receive buffer, and two places where the socket layer loses data or
  handles.
\<close>

section \<open>Memory safety of input\<close>

lemma dhcp_opts_loop_total: "n \<le> length d \<Longrightarrow> dhcp_opts_loop d n i a \<noteq> None"
proof (induction d n i a rule: dhcp_opts_loop.induct)
  case (1 d n i a)
  show ?case
  proof (cases "i < n \<and> d ! i \<noteq> 255 \<and> d ! i \<noteq> 0 \<and> i + 1 < n \<and> i + 2 + unat (d ! (i + 1)) \<le> n")
    case False
    then show ?thesis
      using 1(1) 1(3) by (subst dhcp_opts_loop.simps) (auto simp: Let_def)
  next
    case True
    define l where "l = unat (d ! (i + 1))"
    have l: "i + 2 + l \<le> length d" using True 1(3) by (simp add: l_def)
    have "\<exists>a'. dhcp_opt_apply d i (d ! i) l a = Some a'"
      using l by (auto simp: dhcp_opt_apply_def Let_def)
    then obtain a' where a': "dhcp_opt_apply d i (d ! i) l a = Some a'" ..
    have "dhcp_opts_loop d n (i + 2 + l) a' \<noteq> None"
      by (rule 1(2) [of l a']) (use True 1(3) a' in \<open>simp_all add: l_def\<close>)
    then show ?thesis
      using True 1(3) a' by (subst dhcp_opts_loop.simps) (auto simp: Let_def l_def)
  qed
qed

lemma dhcp_handle_total: "n \<le> length d \<Longrightarrow> dhcp_handle d n s \<noteq> None"
  by (auto simp: dhcp_handle_def simp del: not_None_eq dest: dhcp_opts_loop_total split: option.splits)

lemma udp_deliver_total:
  assumes inv: "udp_inv s" and d: "unat dlen \<le> length data" "unat dlen \<le> 65527"
  shows "udp_deliver dport sport data dlen src s \<noteq> None"
proof (cases "udp_sock_by_port dport s")
  case None
  then show ?thesis using dhcp_handle_total [OF d(1), of s] by (simp add: udp_deliver_def)
next
  case (Some i)
  let ?s1 = "if dport = 7 then snd (udp_send src sport 7 (take (unat dlen) data) s) else s"
  let ?u = "udp_socks ?s1 ! i"
  have u: "?u = udp_socks s ! i" by simp
  have "i < length (udp_socks s)" using Some find_idx_lt unfolding udp_sock_by_port_def by blast
  then have uq: "uq_inv ?u" using inv u by (simp add: udp_inv_def)
  have "of_nat (length (take (unat dlen) data)) = dlen" using d(1) by simp
  then have "us_n ?u + 4 + 4 + 2 + dlen \<le> of_nat UDP_RXBUF \<Longrightarrow> unat (us_n ?u) + 10 + unat dlen \<le> UDP_RXBUF"
    using uq uq_room(1) [of ?u 0 0 "take (unat dlen) data"] d by (simp add: uq_inv_def dg_ok_def)
  then have "us_n ?u + 4 + 4 + 2 + dlen \<le> of_nat UDP_RXBUF \<Longrightarrow> udp_enqueue src sport data dlen ?u \<noteq> None"
    using uq d(1) by (auto simp: udp_enqueue_def uq_inv_def)
  then show ?thesis
    using Some d(1) dhcp_handle_total [OF d(1), of s] unfolding udp_deliver_def Let_def by auto
qed

text \<open>The length fields a receiver relies on: the IP total length covers the IP header, and
  the UDP length covers the UDP header.\<close>

definition frame_lengths_ok :: "bytes \<Rightarrow> bool" where
  "frame_lengths_ok p \<longleftrightarrow>
     (byte_at p 12 = 0x08 \<and> byte_at p 13 = 0x00 \<longrightarrow>
       20 \<le> ntoh16 (tot_len (ip_hdr_at (drop 14 p))) \<and>
       (proto (ip_hdr_at (drop 14 p)) = IP_PROTO_UDP \<longrightarrow> 8 \<le> ntoh16 (rd16 (drop 34 p) 4)))"

lemma udp_handle_total:
  assumes inv: "udp_inv s" and l: "unat seglen \<le> length seg" and u: "8 \<le> ntoh16 (rd16 seg 4)"
  shows "udp_handle seg seglen src s \<noteq> None"
proof (cases "seglen < 8")
  case True
  then show ?thesis by (simp add: udp_handle_def)
next
  case False
  then have s8: "8 \<le> unat seglen" by (simp add: word_less_nat_alt)
  define q where "q = (ucast (ntoh16 (rd16 seg 4)) :: u32)"
  have q: "8 \<le> unat q" "unat q < 65536"
    using u unat_u16_lt [of "ntoh16 (rd16 seg 4)"] by (simp_all add: q_def word_le_nat_alt)
  define pl where "pl = (if q > seglen then seglen else q)"
  have pl: "8 \<le> unat pl" "unat pl \<le> unat seglen" "unat pl < 65536"
    using q s8 by (auto simp: pl_def word_less_nat_alt)
  then have sub: "unat (pl - 8) = unat pl - 8" by (simp add: unat_sub word_le_nat_alt)
  have "udp_deliver (ntoh16 (rd16 seg 2)) (ntoh16 (rd16 seg 0)) (drop 8 seg) (pl - 8) src s \<noteq> None"
    by (rule udp_deliver_total [OF inv]) (use pl sub l in simp_all)
  then show ?thesis
    using False s8 l by (simp add: udp_handle_def Let_def q_def [symmetric] pl_def [symmetric])
qed

lemma tcp_handle_total: "unat seglen \<le> length seg \<Longrightarrow> tcp_handle seg seglen src s \<noteq> None"
  by (auto simp: tcp_handle_def word_less_nat_alt)

lemma ip_handle_total:
  assumes inv: "udp_inv s" and l: "unat len \<le> length p" and t: "20 \<le> ntoh16 (tot_len (ip_hdr_at p))"
    and u: "proto (ip_hdr_at p) = IP_PROTO_UDP \<Longrightarrow> 8 \<le> ntoh16 (rd16 (drop 20 p) 4)"
  shows "ip_handle p len s \<noteq> None"
proof (cases "len < 20")
  case True
  then show ?thesis by (simp add: ip_handle_def)
next
  case False
  then have l20: "20 \<le> unat len" by (simp add: word_less_nat_alt)
  define q where "q = (ucast (ntoh16 (tot_len (ip_hdr_at p))) :: u32)"
  define pl where "pl = (if q > len then len else q)"
  have "20 \<le> unat q" using t by (simp add: q_def word_le_nat_alt)
  then have pl: "20 \<le> unat pl" "unat pl \<le> unat len" using l20 by (auto simp: pl_def word_less_nat_alt)
  then have "unat (pl - 20) = unat pl - 20" by (simp add: unat_sub word_le_nat_alt)
  then have seg: "unat (pl - 20) \<le> length (drop 20 p)" using pl l by simp
  show ?thesis
    using False l20 l udp_handle_total [OF inv seg u] tcp_handle_total [OF seg, of "ih_src (ip_hdr_at p)" s] seg
    by (simp add: ip_handle_def Let_def q_def [symmetric] pl_def [symmetric] icmp_input_def not_less)
qed

text \<open>A received frame never makes the stack read outside the receive buffer,
  nor write outside a socket's queue, as long as its IP total length and its UDP length
  cover their own headers; every other field of the frame is arbitrary.\<close>

theorem net_input_in_bounds:
  assumes "udp_inv s" "unat len \<le> length p" "frame_lengths_ok p"
  shows "net_handle_packet p len s \<noteq> None"
proof (cases "byte_at p 12 = 0x08 \<and> byte_at p 13 = 0x00 \<and> \<not> len < 14")
  case True
  have e: "unat (len - 14) = unat len - 14" using True by (simp add: unat_sub word_less_nat_alt word_le_nat_alt)
  have "ip_handle (drop 14 p) (len - 14) s \<noteq> None"
    by (rule ip_handle_total [OF assms(1)]) (use True assms(2,3) e in \<open>auto simp: frame_lengths_ok_def\<close>)
  then show ?thesis using True by (simp add: net_handle_packet_def Let_def)
qed (auto simp: net_handle_packet_def Let_def)

section \<open>Concrete states\<close>

definition tcp_boot :: tcpst where
  "tcp_boot = icmpst.extend (udpst.extend udp_boot (icmpst.fields False False 0 0 0 0 0 0 0))
     (tcpst.fields 0x12340000 [tcp_listen_init 81 tcp_conn0, tcp_conn0] [socket0] [socket0])"

lemma tcp_boot_fields [simp]:
  "udp_socks tcp_boot = replicate UDP_SLOTS udp_sock0" "tcp_conns tcp_boot = [tcp_listen_init 81 tcp_conn0, tcp_conn0]"
  "tcp_handles tcp_boot = [socket0]"
  by (simp_all add: tcp_boot_def icmpst.defs udpst.defs tcpst.defs udp_boot_def dhcpst.defs)

lemma tcp_boot_udp_inv: "udp_inv tcp_boot"
proof -
  have "uq_inv udp_sock0" by (rule uq_inv_empty [OF _ refl]) (simp_all add: udp_sock0_def)
  then show ?thesis by (simp add: udp_inv_def)
qed

definition short_ip_frame :: bytes where
  "short_ip_frame = replicate 12 0 @ [0x08, 0x00, 0x45, 0, 0, 20] @ replicate 20 0"

theorem net_input_in_bounds_witness:
  "frame_lengths_ok short_ip_frame \<and> net_handle_packet short_ip_frame 38 tcp_boot \<noteq> None"
proof -
  have f: "frame_lengths_ok short_ip_frame" "length short_ip_frame = 38"
    by code_simp+
  show ?thesis using net_input_in_bounds [OF tcp_boot_udp_inv _ f(1), of 38] f by simp
qed

theorem tcp_backlog_bounded_witness:
  "tcp_conn_find_listen 81 tcp_boot = Some 0 \<and>
   tcp_pending_count 81 (tcp_no_conn (snd_demo_ack\<lparr> ti_dport := 81, ti_flags := TCP_FLAG_SYN \<rparr>) tcp_boot) \<le> 64"
proof -
  have l: "tcp_conn_find_listen 81 tcp_boot = Some 0"
    by (simp add: tcp_conn_find_listen_def find_idx_def tcp_listen_init_def tcp_cc_init_def tcp_tx_reset_def Let_def)
  have z: "tcp_pending_count 81 tcp_boot = 0" "c_backlog (tcp_conns tcp_boot ! 0) = 64"
    by (simp_all add: tcp_pending_count_def tcp_pending_def tcp_listen_init_def tcp_cc_init_def tcp_tx_reset_def Let_def tcp_conn0_def)
  show ?thesis
    using tcp_backlog_bounded [of "snd_demo_ack\<lparr> ti_dport := 81, ti_flags := TCP_FLAG_SYN \<rparr>" tcp_boot 0] l z by simp
qed

section \<open>Two losses in the socket layer\<close>

text \<open>Closing drops unsent data.  \<open>tcp_close\<close> on an open connection sends its
  FIN at once, with the sequence number of the first unsent byte: that byte counts as in
  flight although it was never sent, and what is sent afterwards starts behind it.\<close>

theorem tcp_close_skips_unsent:
  assumes st: "c_state c = TCP_ESTABLISHED" and u: "tcp_in_flight c < snd_used c" "snd_used c \<le> TCP_BUF_SIZE"
    and r: "tcp_close_conn c s = (c', s')"
  shows "c_state c' = TCP_FIN_WAIT_1 \<and> snd_nxt c' = snd_nxt c + 1 \<and> tcp_in_flight c' = tcp_in_flight c + 1 \<and>
    snd_used c' = snd_used c \<and> sndb_at c' (tcp_in_flight c') n = drop 1 (sndb_at c (tcp_in_flight c) (Suc n))"
proof -
  obtain ok c1 s1 where p: "tcp_put_pkt TCP_FLAG_FINACK (snd_nxt c) (rcv_nxt c) [] c s = (ok, c1, s1)" by (metis prod_cases3)
  have e: "c' = (tcp_rto_arm (ticks s1) (c1\<lparr> snd_nxt := snd_nxt c1 + 1, c_state := TCP_FIN_WAIT_1 \<rparr>))\<lparr> c_accepted := False \<rparr>"
    using r st p by (auto simp: tcp_close_conn_def)
  have fl: "tcp_in_flight c' = tcp_in_flight c + 1"
    by (rule tcp_in_flight_add) (use u tcp_put_pkt_fields [OF p] in \<open>simp_all add: e tcp_rto_arm_def\<close>)
  have "sndb c' = sndb c" using tcp_put_pkt_fields [OF p] by (simp add: e tcp_rto_arm_def)
  then have "sndb_at c' (tcp_in_flight c') n = drop 1 (sndb_at c (tcp_in_flight c) (Suc n))"
    by (simp add: sndb_at_def fl drop_take add.commute)
  then show ?thesis using fl tcp_put_pkt_fields [OF p] by (simp add: e tcp_rto_arm_def)
qed

theorem tcp_close_skips_unsent_witness:
  "tcp_in_flight snd_demo < snd_used snd_demo \<and> tcp_in_flight (fst (tcp_close_conn snd_demo arp_boot)) = 3"
proof -
  have h: "c_state snd_demo = TCP_ESTABLISHED" "tcp_in_flight snd_demo = 2" "snd_used snd_demo = 3"
    by (simp_all add: snd_demo_def tcp_conn0_def tcp_in_flight_def)
  show ?thesis
    using tcp_close_skips_unsent [of snd_demo arp_boot "fst (tcp_close_conn snd_demo arp_boot)" "snd (tcp_close_conn snd_demo arp_boot)"] h
    by simp
qed

text \<open>Opening a TCP socket can take over a live handle.  \<open>net_socket_open\<close> uses
  the handle with the index of the free connection it found, without looking at it, while
  \<open>tcp_accept_socket\<close> gives an accepted connection any closed handle; a handle in use for
  another connection is then overwritten and refers to the new one.\<close>

theorem net_socket_open_overwrites:
  assumes f: "tcp_conn_find_free s = Some i" and i: "i < length (tcp_handles s)" and h: "so_conn (tcp_handles s ! i) = Some j" "j \<noteq> i"
  shows "fst (net_socket_open 1 s) = Some i \<and> so_conn (tcp_handles (snd (net_socket_open 1 s)) ! i) = Some i \<and>
    so_type (tcp_handles (snd (net_socket_open 1 s)) ! i) = SOCK_TCP_UNBOUND"
  using assms by (simp add: net_socket_open_def set_conn_def)

definition open_demo :: tcpst where
  "open_demo = tcp_boot\<lparr> tcp_conns := [tcp_conn0, tcp_conn0\<lparr> c_used := True, c_state := TCP_ESTABLISHED, c_accepted := True \<rparr>],
     tcp_handles := [socket0\<lparr> so_type := SOCK_TCP_ESTAB, so_conn := Some 1 \<rparr>, socket0] \<rparr>"

theorem net_socket_open_overwrites_witness:
  "so_type (tcp_handles open_demo ! 0) = SOCK_TCP_ESTAB \<and> so_conn (tcp_handles open_demo ! 0) = Some 1 \<and>
   so_conn (tcp_handles (snd (net_socket_open 1 open_demo)) ! 0) = Some 0"
proof -
  have "tcp_conn_find_free open_demo = Some 0" "0 < length (tcp_handles open_demo)" "so_conn (tcp_handles open_demo ! 0) = Some 1" "(1 :: nat) \<noteq> 0"
    "so_type (tcp_handles open_demo ! 0) = SOCK_TCP_ESTAB"
    by (simp_all add: open_demo_def tcp_conn_find_free_def find_idx_def tcp_conn0_def)
  then show ?thesis using net_socket_open_overwrites [of open_demo 0 1] by simp
qed

end
