(* ===== verification/NetRun.thy ===== *)
theory NetRun
  imports NetSafety
begin

text \<open>
  Runs of the network stack: the timer interrupt, the controller writing frames into the
  receive ring, and the polls in between.  What a poll leaves alone, the invariant of a run,
  and its safety.
\<close>

section \<open>What the TCP functions change outside their connection\<close>

lemma eff_case3:
  assumes "tx_effect s (snd (snd x))" "\<And>a b c. x = (a, b, c) \<Longrightarrow> tx_effect c (snd (F a b c))"
  shows "tx_effect s (snd (case x of (a, b, c) \<Rightarrow> F a b c))"
  using assms by (cases x) (auto intro: tx_effect_trans)

lemma eff_case3':
  assumes "tx_effect s (snd (snd x))" "\<And>a b c. x = (a, b, c) \<Longrightarrow> tx_effect c (snd (snd (F a b c)))"
  shows "tx_effect s (snd (snd (case x of (a, b, c) \<Rightarrow> F a b c)))"
  using assms by (cases x) (auto intro: tx_effect_trans)

lemma eff_case2:
  assumes "tx_effect s (snd x)" "\<And>a b. x = (a, b) \<Longrightarrow> tx_effect b (snd (F a b))"
  shows "tx_effect s (snd (case x of (a, b) \<Rightarrow> F a b))"
  using assms by (cases x) (auto intro: tx_effect_trans)

lemma eff_if:
  "(P \<Longrightarrow> tx_effect s (snd A)) \<Longrightarrow> (\<not> P \<Longrightarrow> tx_effect s (snd B)) \<Longrightarrow> tx_effect s (snd (if P then A else B))"
  "(P \<Longrightarrow> tx_effect s (snd (snd C))) \<Longrightarrow> (\<not> P \<Longrightarrow> tx_effect s (snd (snd D))) \<Longrightarrow> tx_effect s (snd (snd (if P then C else D)))"
  by simp_all

lemma eff_pair: "tx_effect s (snd (c, s))" "tx_effect s (snd (snd (r, c, s)))"
  by simp_all

lemma tcp_put_pkt_eff: "tx_effect s (snd (snd (tcp_put_pkt fl sq ack d c s)))"
  by (cases "tcp_put_pkt fl sq ack d c s") (auto dest: tcp_put_pkt_conn)

lemmas eff_intros = eff_case3 eff_case3' eff_case2 eff_if eff_pair tcp_put_pkt_eff NETSTAT_INC_effect

lemma tcp_xmit_loop_eff: "tx_effect s (snd (tcp_xmit_loop w c s))"
proof (induction w c s rule: tcp_xmit_loop.induct)
  case (1 w c s)
  show ?case
    by (subst tcp_xmit_loop.simps, unfold Let_def) (intro eff_intros; (rule 1)?; simp)
qed

lemma tcp_xmit_pending_eff: "tx_effect s (snd (tcp_xmit_pending c s))"
  by (simp add: tcp_xmit_pending_def tcp_xmit_loop_eff)

lemma tcp_retransmit_eff: "tx_effect s (snd (snd (tcp_retransmit_from i c s)))"
proof (induction "length (tx c) - i" arbitrary: i c s rule: less_induct)
  case less
  have ih: "tx_effect t (snd (snd (tcp_retransmit_from (Suc i) d t)))" if "\<not> length (tx c) \<le> i" "tx d = tx c" for d and t :: "'a arpst_scheme"
    using less [of d "Suc i" t] that by simp
  show ?case
    by (subst tcp_retransmit_from.simps, unfold Let_def)
      (intro eff_intros ih; simp add: NETSTAT_INC_effect tcp_put_pkt_fields)
qed

lemma tcp_retransmit_lost_eff: "tx_effect s (snd (snd (tcp_tx_retransmit_lost c s)))"
  by (simp add: tcp_tx_retransmit_lost_def tcp_retransmit_eff)

lemmas eff_tx = tcp_xmit_pending_eff tcp_retransmit_lost_eff

lemma tcp_in_rst_eff: "tx_effect s (snd (tcp_in_rst m c s))"
  unfolding tcp_in_rst_def Let_def by (intro eff_intros)

lemma tcp_fast_retransmit_eff: "tx_effect s (snd (tcp_fast_retransmit n r c s))"
  unfolding tcp_fast_retransmit_def Let_def by (intro eff_intros eff_tx)

lemma tcp_in_dupack_eff: "tx_effect s (snd (tcp_in_dupack n c s))"
  unfolding tcp_in_dupack_def Let_def by (intro eff_intros eff_tx tcp_fast_retransmit_eff)

lemma tcp_in_newack_eff: "tx_effect s (snd (tcp_in_newack ack c s))"
  unfolding tcp_in_newack_def Let_def by (intro eff_intros eff_tx)

lemma tcp_in_ack_eff: "tx_effect s (snd (tcp_in_ack m w c s))"
  unfolding tcp_in_ack_def Let_def by (intro eff_intros eff_tx tcp_in_dupack_eff tcp_in_newack_eff)

lemma tcp_ack_now_eff: "tx_effect s (snd (tcp_ack_now c s))"
  unfolding tcp_ack_now_def by (rule tcp_put_pkt_eff)

lemma tcp_in_data_eff: "tx_effect s (snd (tcp_in_data m c s))"
  unfolding tcp_in_data_def by (intro eff_intros tcp_ack_now_eff)

lemma tcp_in_fin_eff: "tx_effect s (snd (tcp_in_fin c s))"
  unfolding tcp_in_fin_def by (intro eff_intros)

lemma tcp_in_synchronized_eff: "tx_effect s (snd (tcp_in_synchronized m c s))"
  unfolding tcp_in_synchronized_def by (intro eff_intros tcp_in_data_eff tcp_ack_now_eff tcp_in_fin_eff)

lemma tcp_in_last_ack_eff: "tx_effect s (snd (tcp_in_last_ack m c s))"
  unfolding tcp_in_last_ack_def by (intro eff_intros tcp_ack_now_eff)

lemma tcp_in_state_eff: "tx_effect s (snd (tcp_in_state m c s))"
  unfolding tcp_in_state_def
  by (cases "c_state c")
    (simp_all add: tcp_in_syn_received_def tcp_in_data_eff tcp_in_synchronized_eff tcp_in_last_ack_eff tcp_ack_now_eff)

lemma tcp_conn_input_eff: "tx_effect s (snd (tcp_conn_input m c s))"
  unfolding tcp_conn_input_def by (intro eff_intros tcp_in_rst_eff tcp_in_ack_eff tcp_in_state_eff)

lemma tcp_send_conn_eff: "tx_effect s (snd (snd (tcp_send_conn d c s)))"
  unfolding tcp_send_conn_def Let_def by (intro eff_intros) (simp add: tcp_xmit_pending_eff)

lemma tcp_close_conn_eff: "tx_effect s (snd (tcp_close_conn c s))"
  unfolding tcp_close_conn_def by (intro eff_intros)

lemma tcp_test_send_eff: "tx_effect s (snd (tcp_test_send ks c s))"
proof (induction ks arbitrary: c s)
  case (Cons k ks)
  show ?case unfolding tcp_test_send.simps by (intro eff_intros tcp_send_conn_eff Cons)
qed simp

lemma tcp_tick_conn_eff: "tx_effect s (snd (tcp_tick_conn c s))"
proof -
  have t: "tx_effect s (snd (tcp_tick_test c s))" for c and s :: "'a arpst_scheme"
    unfolding tcp_tick_test_def by (intro eff_intros tcp_test_send_eff tcp_close_conn_eff)
  have p: "tx_effect s (snd (tcp_tick_persist c s))" for c and s :: "'a arpst_scheme"
    unfolding tcp_tick_persist_def Let_def by (intro eff_intros) (simp add: NETSTAT_INC_effect)
  have rs: "tx_effect s (snd (tcp_rto_resend fl sq d c s))" for fl sq d c and s :: "'a arpst_scheme"
    unfolding tcp_rto_resend_def
    by (intro eff_case3 tx_effect_trans [OF NETSTAT_INC_effect tcp_put_pkt_eff]) simp
  have r: "tx_effect s (snd (tcp_tick_rto c s))" for c and s :: "'a arpst_scheme"
    unfolding tcp_tick_rto_def Let_def by (intro eff_intros rs)
  show ?thesis unfolding tcp_tick_conn_def by (intro eff_intros t p r)
qed

section \<open>What a handler leaves alone\<close>

text \<open>The clock, the receive ring and the UDP queues.\<close>

definition core :: "'a udpst_scheme \<Rightarrow> u32 \<times> bool \<times> bool list \<times> bytes list \<times> u16 list \<times> nat \<times> nat" where
  "core s = (ticks s, mmio s, rx_dd s, rx_buf s, rx_len s, rx_last s, rx_rdt s)"

definition same :: "'a udpst_scheme \<Rightarrow> 'a udpst_scheme \<Rightarrow> bool" where
  "same s t \<longleftrightarrow> core t = core s \<and> udp_socks t = udp_socks s"

lemma same_refl [simp]: "same s s"
  by (simp add: same_def)

lemma same_trans: "same s t \<Longrightarrow> same t u \<Longrightarrow> same s u"
  by (simp add: same_def)

lemma tx_same: "tx_effect s t \<Longrightarrow> same s t"
  by (auto simp: tx_effect_def same_def core_def)

lemma arp_cache_add_same: "same s (arp_cache_add ip mac s)"
  by (simp add: same_def core_def arp_cache_add_def arp_cache_fill_def split: option.splits)

lemma arp_handle_same: "same s (arp_handle p len s)"
  unfolding arp_handle_def Let_def
  by (auto intro: arp_cache_add_same same_trans [OF arp_cache_add_same tx_same] e1000_tx_submit_effect NETSTAT_INC_effect)

lemma arp_poll_same: "same s (arp_poll s)"
proof -
  have "same s (fold (\<lambda>i s. if arp_dead (ticks s) (arp_cache s ! i)
       then arp_cache_del i (NETSTAT_INC arp_entry_expired_update s) else s) is s)" for "is" and s :: "'a udpst_scheme"
  proof (induction "is" arbitrary: s)
    case (Cons i "is")
    let ?t = "if arp_dead (ticks s) (arp_cache s ! i) then arp_cache_del i (NETSTAT_INC arp_entry_expired_update s) else s"
    have "same s ?t" by (simp add: same_def core_def arp_cache_del_def NETSTAT_INC_def)
    from same_trans [OF this Cons [of ?t]] show ?case by simp
  qed simp
  moreover have "same s (s\<lparr> arp_scan_deadline := d \<rparr>)" for d by (simp add: same_def core_def)
  ultimately show ?thesis unfolding arp_poll_def arp_tick_def by (auto intro: same_trans)
qed

lemma dhcp_upd_same [simp]:
  "same s (dhcp_rexid s)" "core (dhcp_rexid s) = core s" "udp_socks (dhcp_rexid s) = udp_socks s"
  by (simp_all add: dhcp_rexid_def same_def core_def)

lemma dhcp_send_same: "same s (dhcp_send ty m s)"
  by (rule tx_same [OF dhcp_send_effect(2)])

lemma dhcp_send_same': "same s u \<Longrightarrow> same s (dhcp_send ty m u)"
  by (rule same_trans [OF _ dhcp_send_same])

lemma dhcp_expired_same: "same s (dhcp_lease_expired s)"
  unfolding dhcp_lease_expired_def by (rule dhcp_send_same') (simp add: same_def core_def)

lemma dhcp_tick_same: "same s (dhcp_tick s)"
proof -
  have l: "same s (dhcp_tick_lease s)" for s :: "'a udpst_scheme"
  proof -
    have a: "same s (s1\<lparr> dhcp_state := x, dhcp_retries := 0, dhcp_wait := y, dhcp_last := z \<rparr>)" if "same s s1" for s1 x y z
      using that by (simp add: same_def core_def)
    have b: "same s (s\<lparr> dhcp_wait := y, dhcp_last := z \<rparr>)" for y z by (simp add: same_def core_def)
    show ?thesis unfolding dhcp_tick_lease_def Let_def
      by (cases "dhcp_state s")
        (auto intro!: dhcp_expired_same dhcp_send_same' same_trans [OF a dhcp_upd_same(1)] a b tx_same [OF arp_resolve_effect])
  qed
  have "same s (dhcp_tick_boot s)" for s :: "'a udpst_scheme"
  proof -
    have d: "same s (dhcp_send ty m (dhcp_rexid (s\<lparr> dhcp_retries := x \<rparr>)))" for ty m x
      by (rule dhcp_send_same') (simp add: same_def, simp add: core_def)
    show ?thesis unfolding dhcp_tick_boot_def using d by (simp add: same_def core_def)
  qed
  then show ?thesis unfolding dhcp_tick_def by (blast intro: same_trans l)
qed

lemma dhcp_handle_same: "dhcp_handle d n s = Some t \<Longrightarrow> same s t"
proof -
  have x: "same s (dhcp_react d o1 u)" if "same s u" for o1 and u :: "'a udpst_scheme"
  proof -
    have "same u (dhcp_react d o1 u)"
    proof -
      have 1: "same u (dhcp_send ty m (u\<lparr> dhcp_offer := y, dhcp_state := z \<rparr>))" for ty m y z
        by (rule dhcp_send_same') (simp add: same_def core_def)
      have 2: "same u (dhcp_arm_lease a b c (u\<lparr> dhcp_offer := y, dhcp_ciaddr := z, g_ip := i, g_gw := gw, g_mask := k \<rparr>))" for a b c y z i gw k
        by (simp add: dhcp_arm_lease_def same_def core_def Let_def)
      show ?thesis unfolding dhcp_react_def Let_def using dhcp_expired_same [of u] 1 2
        by (auto simp: same_def core_def)
    qed
    then show ?thesis using that by (rule same_trans [rotated])
  qed
  have y: "same s (s\<lparr>dhcp_server := a, dhcp_mask := b, dhcp_gw := c, g_dns := e\<rparr>)" for a b c e by (simp add: same_def core_def)
  assume "dhcp_handle d n s = Some t"
  then show ?thesis by (auto simp: dhcp_handle_def split: if_splits option.splits intro!: x [OF y])
qed

section \<open>The handlers\<close>

definition stays :: "'a udpst_scheme \<Rightarrow> 'a udpst_scheme \<Rightarrow> bool" where
  "stays s t \<longleftrightarrow> core t = core s \<and> (udp_inv s \<longrightarrow> udp_inv t)"

lemma same_stays: "same s t \<Longrightarrow> stays s t"
  by (simp add: same_def stays_def udp_inv_def)

lemma stays_trans: "stays s t \<Longrightarrow> stays t u \<Longrightarrow> stays s u"
  by (simp add: stays_def)

lemmas tx_stays = same_stays [OF tx_same]

lemma udp_deliver_stays:
  assumes inv: "udp_inv s" and d: "unat dlen \<le> length data" "unat dlen \<le> 65527"
    and r: "udp_deliver dport sport data dlen src s = Some t"
  shows "stays s t"
proof (cases "dport = 68 \<and> sport = 67")
  case True
  then show ?thesis using r by (simp add: udp_deliver_def dhcp_handle_same same_stays)
next
  case False
  show ?thesis
  proof (cases "udp_sock_by_port dport s")
    case None
    then have "t = NETSTAT_INC udp_no_listener_update s" using r False by (auto simp: udp_deliver_def split: if_splits)
    then show ?thesis by (simp add: tx_stays NETSTAT_INC_effect)
  next
    case (Some i)
    define s1 where "s1 = (if dport = 7 then snd (udp_send src sport 7 (take (unat dlen) data) s) else s)"
    define u where "u = udp_socks s ! i"
    have s1: "same s s1" by (simp add: s1_def tx_same [OF udp_send_effect])
    have so: "udp_socks s1 = udp_socks s" using s1 by (simp add: same_def)
    have cs: "core s1 = core s" using s1 by (simp add: same_def)
    show ?thesis
    proof (cases "us_n u + 4 + 4 + 2 + dlen \<le> of_nat UDP_RXBUF")
      case room: True
      then obtain u' where u': "udp_enqueue src sport data dlen u = Some u'" and t: "t = s1\<lparr>udp_socks := (udp_socks s)[i := u']\<rparr>"
        using r False Some so unfolding udp_deliver_def Let_def s1_def [symmetric]
        by (auto simp: u_def split: if_splits option.splits)
      have dd: "of_nat (length (take (unat dlen) data)) = dlen" using d by simp
      have "uq_push (src, sport, take (unat dlen) data) u = Some u'"
        using u' room d dd by (simp add: uq_push_def udp_enqueue_def split: if_splits)
      moreover have "uq_inv u" using udp_inv_nth [OF inv udp_by_port_lt [OF inv Some]] by (simp add: u_def)
      ultimately have "uq_inv u'" using uq_push_spec by blast
      moreover have "udp_socks t = (udp_socks s)[i := u']" by (simp add: t)
      ultimately have "udp_inv t" using udp_inv_update [OF inv] by blast
      then show ?thesis using cs by (simp add: stays_def t core_def)
    next
      case False
      then have "t = NETSTAT_INC rx_drop_full_update s1"
        using r \<open>\<not> (dport = 68 \<and> sport = 67)\<close> Some so unfolding udp_deliver_def Let_def s1_def [symmetric]
        by (auto simp: u_def split: if_splits option.splits)
      then show ?thesis using same_stays [OF same_trans [OF s1 tx_same [OF NETSTAT_INC_effect]]] by simp
    qed
  qed
qed

lemma icmp_handle_stays: "stays s (icmp_handle seg src s)"
proof -
  have w: "stays s (s\<lparr>ping_source := a, ping_rx_tick := b, ping_received := c\<rparr>)" for a b c
    by (simp add: stays_def core_def udp_inv_def)
  obtain m s1 where r: "arp_resolve src s = (m, s1)" by fastforce
  have e1: "tx_effect s s1" using arp_resolve_effect [of s src] r by simp
  have reply: "stays s (case arp_resolve src s of (None, s1) \<Rightarrow> s1
      | (Some dmac, s1) \<Rightarrow> (case begin_ip src IP_PROTO_ICMP dmac s1 of (None, s2) \<Rightarrow> s2
          | (Some f, s2) \<Rightarrow> (case end_ip f (icmp_reply seg) s2 of
              (ok, s3) \<Rightarrow> if ok then NETSTAT_INC icmp_echo_out_update s3 else s3)))"
  proof (cases m)
    case None
    then show ?thesis using r e1 by (simp add: tx_stays)
  next
    case (Some dmac)
    obtain f s2 where b: "begin_ip src IP_PROTO_ICMP dmac s1 = (f, s2)" by fastforce
    have e2: "tx_effect s s2" using tx_effect_trans [OF e1] begin_ip_effect [of s1 src IP_PROTO_ICMP dmac] b by simp
    show ?thesis
    proof (cases f)
      case None
      then show ?thesis using r Some b e2 by (simp add: tx_stays)
    next
      case (Some g)
      obtain ok s3 where e: "end_ip g (icmp_reply seg) s2 = (ok, s3)" by fastforce
      have e3: "tx_effect s s3" using tx_effect_trans [OF e2] end_ip_effect [of s2 g "icmp_reply seg"] e by simp
      have "tx_effect s (NETSTAT_INC icmp_echo_out_update s3)" by (rule tx_effect_trans [OF e3 NETSTAT_INC_effect])
      then show ?thesis using r \<open>m = Some dmac\<close> b Some e e3 by (simp add: tx_stays)
    qed
  qed
  have id: "stays s s" by (simp add: stays_def)
  show ?thesis unfolding icmp_handle_def using w reply id by simp
qed

lemma set_conn_same: "same s (set_conn i c s)"
  by (simp add: set_conn_def same_def core_def)

lemma on_conn_same:
  fixes s :: "'a tcpst_scheme"
  assumes "\<And>c (s :: 'a tcpst_scheme). tx_effect s (snd (f c s))"
  shows "same s (on_conn i f s)"
proof -
  obtain c t where f: "f (tcp_conns s ! i) s = (c, t)" by fastforce
  have "same s t" using assms [of s "tcp_conns s ! i"] f by (simp add: tx_same)
  from same_trans [OF this set_conn_same] show ?thesis by (simp add: on_conn_def f)
qed

lemma tcp_reject_same: "same s (tcp_reject m s)"
  unfolding tcp_reject_def by (rule tx_same [OF tx_effect_trans [OF tcp_send_rst_ack_effect NETSTAT_INC_effect]])

lemma tcp_no_conn_same: "same s (tcp_no_conn m s)"
proof -
  have o: "same t (on_conn i (\<lambda>c s. case tcp_put_pkt fl (snd_isn c) (rcv_nxt c) [] c s of
      (ok, c1, s2) \<Rightarrow> (tcp_rto_arm (ticks s2) c1, s2)) t)" for t :: "'a tcpst_scheme" and i fl
    by (rule on_conn_same) (intro eff_intros)
  have "same s (s\<lparr>seq_gen := x\<rparr>)" for x by (simp add: same_def core_def)
  from same_trans [OF same_trans [OF this set_conn_same] o]
  show ?thesis unfolding tcp_no_conn_def Let_def by (auto simp: tcp_reject_same split: option.splits)
qed

lemma tcp_handle_same: "tcp_handle seg len src s = Some t \<Longrightarrow> same s t"
proof -
  have "same s (tcp_dispatch m s)" for m
    unfolding tcp_dispatch_def
    using tcp_no_conn_same [of s m] same_trans [OF set_conn_same tcp_no_conn_same, of s]
      on_conn_same [of "tcp_conn_input m" s, OF tcp_conn_input_eff] by (auto split: option.splits)
  then show "tcp_handle seg len src s = Some t \<Longrightarrow> ?thesis" by (auto simp: tcp_handle_def split: if_splits)
qed

lemma tcp_tick_same: "same s (tcp_tick s)"
proof -
  have "same s (fold (\<lambda>i. on_conn i tcp_tick_conn) is s)" for "is" and s :: "'a tcpst_scheme"
  proof (induction "is" arbitrary: s)
    case (Cons i "is")
    from same_trans [OF on_conn_same [OF tcp_tick_conn_eff] Cons] show ?case by simp
  qed simp
  then show ?thesis by (simp add: tcp_tick_def)
qed

lemma udp_handle_stays:
  assumes inv: "udp_inv s" and l: "unat seglen \<le> length seg" and u: "8 \<le> ntoh16 (rd16 seg 4)"
    and r: "udp_handle seg seglen src s = Some t"
  shows "stays s t"
proof (cases "seglen < 8")
  case True
  then show ?thesis using r by (simp add: udp_handle_def stays_def)
next
  case False
  then have s8: "8 \<le> unat seglen" by (simp add: word_less_nat_alt)
  define q where "q = (ucast (ntoh16 (rd16 seg 4)) :: u32)"
  have q: "8 \<le> unat q" "unat q < 65536"
    using u unat_u16_lt [of "ntoh16 (rd16 seg 4)"] by (simp_all add: q_def word_le_nat_alt)
  define pl where "pl = (if q > seglen then seglen else q)"
  have pl: "8 \<le> unat pl" "unat pl \<le> unat seglen" "unat pl < 65536"
    using q s8 by (auto simp: pl_def word_less_nat_alt)
  then have sub: "unat (pl - 8) = unat pl - 8" by (simp add: unat_sub word_le_nat_alt)
  have "udp_deliver (ntoh16 (rd16 seg 2)) (ntoh16 (rd16 seg 0)) (drop 8 seg) (pl - 8) src s = Some t"
    using r False s8 l by (simp add: udp_handle_def Let_def q_def [symmetric] pl_def [symmetric] split: if_splits)
  then show ?thesis by (rule udp_deliver_stays [OF inv, rotated -1]) (use pl sub l in simp_all)
qed

lemma ip_handle_stays:
  assumes inv: "udp_inv s" and l: "unat len \<le> length p" and t: "20 \<le> ntoh16 (tot_len (ip_hdr_at p))"
    and u: "proto (ip_hdr_at p) = IP_PROTO_UDP \<Longrightarrow> 8 \<le> ntoh16 (rd16 (drop 20 p) 4)"
    and r: "ip_handle p len s = Some t'"
  shows "stays s t'"
proof (cases "len < 20")
  case True
  then show ?thesis using r by (simp add: ip_handle_def stays_def)
next
  case False
  then have l20: "20 \<le> unat len" by (simp add: word_less_nat_alt)
  define q where "q = (ucast (ntoh16 (tot_len (ip_hdr_at p))) :: u32)"
  define pl where "pl = (if q > len then len else q)"
  have "20 \<le> unat q" using t by (simp add: q_def word_le_nat_alt)
  then have pl: "20 \<le> unat pl" "unat pl \<le> unat len" using l20 by (auto simp: pl_def word_less_nat_alt)
  then have "unat (pl - 20) = unat pl - 20" by (simp add: unat_sub word_le_nat_alt)
  then have seg: "unat (pl - 20) \<le> length (drop 20 p)" using pl l by simp
  have id: "stays s s" by (simp add: stays_def)
  define pr where "pr = proto (ip_hdr_at p)"
  define bad where "bad = (ip_checksum (take 20 p) \<noteq> 0)"
  define other where "other = (ih_dst (ip_hdr_at p) \<noteq> g_ip s \<and> ih_dst (ip_hdr_at p) \<noteq> 0xFFFFFFFF)"
  define src where "src = ih_src (ip_hdr_at p)"
  have l20': "\<not> length p < 20" using l l20 by simp
  have r': "(if bad then Some (NETSTAT_INC ip_csum_err_update s) else if other then Some s
      else if pr = IP_PROTO_ICMP then icmp_input (drop 20 p) (pl - 20) src s
      else if pr = IP_PROTO_UDP then udp_handle (drop 20 p) (pl - 20) src s
      else if pr = IP_PROTO_TCP then tcp_handle (drop 20 p) (pl - 20) src s else Some s) = Some t'"
    using r unfolding ip_handle_def Let_def if_not_P [OF False] if_not_P [OF l20']
      pr_def bad_def other_def src_def pl_def q_def by simp
  have 1: "stays s t'" if "icmp_input (drop 20 p) (pl - 20) src s = Some t'"
    using that icmp_handle_stays [of s "take (unat (pl - 20)) (drop 20 p)" src] by (simp add: icmp_input_def split: if_splits)
  have 2: "stays s t'" if "pr = IP_PROTO_UDP" "udp_handle (drop 20 p) (pl - 20) src s = Some t'"
    using udp_handle_stays [OF inv seg u] that by (simp add: pr_def)
  have 3: "stays s t'" if "tcp_handle (drop 20 p) (pl - 20) src s = Some t'"
    using same_stays [OF tcp_handle_same [OF that]] .
  have 4: "stays s (NETSTAT_INC ip_csum_err_update s)" by (rule tx_stays [OF NETSTAT_INC_effect])
  show ?thesis using r' 1 2 3 4 id by (simp split: if_split_asm)
qed

lemma net_handle_packet_stays:
  assumes "udp_inv s" "unat len \<le> length p" "frame_lengths_ok p" "net_handle_packet p len s = Some t"
  shows "stays s t"
proof (cases "byte_at p 12 = 0x08 \<and> byte_at p 13 = 0x00 \<and> \<not> len < 14")
  case True
  have e: "unat (len - 14) = unat len - 14" using True by (simp add: unat_sub word_less_nat_alt word_le_nat_alt)
  have "ip_handle (drop 14 p) (len - 14) s = Some t" using True assms(4) by (simp add: net_handle_packet_def Let_def)
  then show ?thesis
    by (rule ip_handle_stays [OF assms(1), rotated -1]) (use True assms(2,3) e in \<open>auto simp: frame_lengths_ok_def\<close>)
next
  case False
  then have "t = s \<or> t = arp_handle p len s" using assms(4) by (auto simp: net_handle_packet_def Let_def split: if_splits)
  then show ?thesis using same_stays [OF arp_handle_same] by (auto simp: stays_def)
qed

section \<open>Runs\<close>

text \<open>The timer interrupt, a poll from the main loop or a system call, and the controller writing a frame and its length into a receive
  descriptor.\<close>

definition timer_handler :: "'a tcpst_scheme \<Rightarrow> 'a tcpst_scheme option" where
  "timer_handler s = net_poll (s\<lparr>ticks := ticks s + 1\<rparr>)"

datatype nev = Tick | Poll | Dma nat bytes u16

fun nev_step :: "nev \<Rightarrow> 'a tcpst_scheme \<Rightarrow> 'a tcpst_scheme option" where
  "nev_step Tick s = timer_handler s"
| "nev_step Poll s = net_poll s"
| "nev_step (Dma i b l) s = Some (s\<lparr>rx_dd := (rx_dd s)[i := True], rx_buf := (rx_buf s)[i := b], rx_len := (rx_len s)[i := l]\<rparr>)"

fun nev_run :: "nev list \<Rightarrow> 'a tcpst_scheme \<Rightarrow> 'a tcpst_scheme option" where
  "nev_run [] s = Some s"
| "nev_run (e # es) s = (case nev_step e s of None \<Rightarrow> None | Some t \<Rightarrow> nev_run es t)"

definition nev_ok :: "nev \<Rightarrow> bool" where
  "nev_ok e = (case e of Tick \<Rightarrow> True | Poll \<Rightarrow> True | Dma i b l \<Rightarrow> unat l \<le> length b \<and> frame_lengths_ok b)"

definition ring_ok :: "'a e1000_scheme \<Rightarrow> bool" where
  "ring_ok s \<longleftrightarrow> length (rx_dd s) = RX_N \<and> length (rx_buf s) = RX_N \<and> length (rx_len s) = RX_N \<and> rx_last s < RX_N \<and>
     (\<forall>i < RX_N. rx_dd s ! i \<longrightarrow> unat (rx_len s ! i) \<le> length (rx_buf s ! i) \<and> frame_lengths_ok (rx_buf s ! i))"

definition net_ok :: "'a tcpst_scheme \<Rightarrow> bool" where
  "net_ok s \<longleftrightarrow> udp_inv s \<and> ring_ok s"

lemma upd_nth: "j < length xs \<Longrightarrow> xs[i := x] ! j = (if j = i then x else xs ! j)"
  by (auto simp: nth_list_update)

lemma stays_ok: "stays s t \<Longrightarrow> net_ok s \<Longrightarrow> net_ok t \<and> ticks t = ticks s"
  by (simp add: stays_def net_ok_def ring_ok_def core_def)

lemma poll_loop_ok:
  "net_ok s \<Longrightarrow> \<exists>k j t. e1000_poll_loop net_handle_packet b p l s = Some (k, j, t) \<and> net_ok t \<and> ticks t = ticks s"
proof (induction b arbitrary: p l s)
  case (Suc b)
  let ?i = "rx_last s"
  show ?case
  proof (cases "rx_dd s ! ?i")
    case False
    then show ?thesis using Suc.prems by (simp add: Let_def)
  next
    case True
    have inv: "udp_inv s" and f: "unat (rx_len s ! ?i) \<le> length (rx_buf s ! ?i)" "frame_lengths_ok (rx_buf s ! ?i)"
      using Suc.prems True by (auto simp: net_ok_def ring_ok_def)
    have f1: "unat (ucast (rx_len s ! ?i) :: u32) \<le> length (rx_buf s ! ?i)" using f(1) by simp
    obtain t where t: "net_handle_packet (rx_buf s ! ?i) (ucast (rx_len s ! ?i)) s = Some t"
      using net_input_in_bounds [OF inv f1 f(2)] by blast
    define u where "u = t\<lparr>rx_dd := (rx_dd t)[?i := False], rx_last := (?i + 1) mod RX_N\<rparr>"
    have ok: "net_ok t" "ticks t = ticks s" using stays_ok [OF net_handle_packet_stays [OF inv f1 f(2) t] Suc.prems] by auto
    then have "net_ok u" by (auto simp: u_def net_ok_def ring_ok_def udp_inv_def upd_nth)
    then obtain k j v where "e1000_poll_loop net_handle_packet b (Suc p) ?i u = Some (k, j, v)" "net_ok v" "ticks v = ticks u"
      using Suc.IH by blast
    moreover have "ticks u = ticks s" using ok(2) by (simp add: u_def)
    ultimately show ?thesis using True t by (simp add: Let_def u_def)
  qed
qed simp

lemma net_poll_ok: "net_ok s \<Longrightarrow> \<exists>t. net_poll s = Some t \<and> net_ok t \<and> ticks t = ticks s"
proof -
  assume ok: "net_ok s"
  have "\<exists>u. e1000_poll net_handle_packet s = Some u \<and> net_ok u \<and> ticks u = ticks s"
  proof (cases "mmio s")
    case True
    obtain k j t where t: "e1000_poll_loop net_handle_packet 32 0 0 s = Some (k, j, t)" "net_ok t" "ticks t = ticks s"
      using poll_loop_ok [OF ok] by blast
    have "net_ok (t\<lparr>rx_rdt := j\<rparr>)" using t(2) by (simp add: net_ok_def ring_ok_def udp_inv_def)
    then show ?thesis using True t by (simp add: e1000_poll_def)
  qed (use ok in \<open>simp add: e1000_poll_def\<close>)
  then obtain u where u: "e1000_poll net_handle_packet s = Some u" "net_ok u" "ticks u = ticks s" by blast
  have "same u (dhcp_tick (arp_poll (tcp_tick u)))"
    by (rule same_trans [OF same_trans [OF tcp_tick_same arp_poll_same] dhcp_tick_same])
  from stays_ok [OF same_stays [OF this] u(2)] show ?thesis using u(1,3) by (simp add: net_poll_def)
qed

definition ticks_in :: "nev list \<Rightarrow> nat" where
  "ticks_in es = length (filter (\<lambda>e. e = Tick) es)"

lemma nev_step_ok:
  assumes ok: "net_ok s" and e: "nev_ok e"
  shows "\<exists>t. nev_step e s = Some t \<and> net_ok t \<and> ticks t = ticks s + (if e = Tick then 1 else 0)"
proof (cases e)
  case Tick
  have "net_ok (s\<lparr>ticks := ticks s + 1\<rparr>)" using ok by (simp add: net_ok_def ring_ok_def udp_inv_def)
  then show ?thesis using net_poll_ok Tick by (fastforce simp: timer_handler_def)
next
  case Poll
  then show ?thesis using net_poll_ok [OF ok] by auto
next
  case (Dma i b l)
  then show ?thesis using ok e by (auto simp: net_ok_def ring_ok_def udp_inv_def nev_ok_def upd_nth)
qed

lemma nev_run_ok:
  "net_ok s \<Longrightarrow> \<forall>e \<in> set es. nev_ok e \<Longrightarrow>
    \<exists>t. nev_run es s = Some t \<and> net_ok t \<and> ticks t = ticks s + of_nat (ticks_in es)"
proof (induction es arbitrary: s)
  case Nil
  then show ?case by (simp add: ticks_in_def)
next
  case (Cons e es)
  obtain u where u: "nev_step e s = Some u" "net_ok u" "ticks u = ticks s + (if e = Tick then 1 else 0)"
    using nev_step_ok [OF Cons.prems(1), of e] Cons.prems(2) by auto
  then obtain t where "nev_run es u = Some t" "net_ok t" "ticks t = ticks u + of_nat (ticks_in es)"
    using Cons.IH [of u] Cons.prems(2) by auto
  then show ?case using u by (auto simp: ticks_in_def)
qed


lemma net_ok_boot: "udp_inv s \<Longrightarrow> net_ok (e1000_init_rings s)"
  by (simp add: net_ok_def ring_ok_def udp_inv_def e1000_init_rings_def)


end
