(* ===== verification/NetWait.thy ===== *)
theory NetWait
  imports NetRun "HOL-Library.Monad_Syntax"
begin

text \<open>
  The two system services that wait for the network: \<open>net_ping\<close> of \<^verbatim>\<open>src/net/net_icmp.c\<close> and
  \<open>net_dns_resolve\<close> of \<^verbatim>\<open>src/net/net_dns.c\<close>.  Both loop with interrupts enabled until an answer
  arrives or 300 ticks have passed.  Every turn of a loop ends with \<open>net_poll\<close> and then the
  events (timer interrupts, frames written by the controller) that occur before the next
  turn; a run that is out of events while the loop still waits is \<open>None\<close>.
\<close>

section \<open>Waiting for an address\<close>

fun wait_ip :: "u32 \<Rightarrow> nev list list \<Rightarrow> 'a tcpst_scheme \<Rightarrow> (nev list list \<times> 'a tcpst_scheme) option" where
  "wait_ip start [] s = (if g_ip s = 0 \<and> ticks s - start < 300 then None else Some ([], s))"
| "wait_ip start (es # rs) s =
     (if g_ip s = 0 \<and> ticks s - start < 300 then do { s \<leftarrow> nev_run (Poll # es) s; wait_ip start rs s }
      else Some (es # rs, s))"

section \<open>Ping\<close>

definition ping_try :: "u32 \<Rightarrow> bytes \<Rightarrow> u32 \<Rightarrow> bool \<Rightarrow> 'a tcpst_scheme \<Rightarrow> u32 \<times> bool \<times> 'a tcpst_scheme" where
  "ping_try dst packet last_send sent s =
     (if \<not> sent \<and> (last_send = 0xFFFFFFFF \<or> ticks s - last_send \<ge> 25) then
        (case ip_send dst IP_PROTO_ICMP packet s of (ok, t) \<Rightarrow>
           (ticks t, ok, if ok then t\<lparr>ping_sent_count := ping_sent_count t + 1\<rparr> else t))
      else (last_send, sent, s))"

text \<open>The texts are written into the caller's memory \<open>out\<close>, of which the first \<open>cap\<close> bytes are the buffer.\<close>

definition ping_reply_text :: "string \<Rightarrow> nat \<Rightarrow> u32 \<Rightarrow> u16 \<Rightarrow> u32 \<Rightarrow> string \<times> nat" where
  "ping_reply_text out cap src sq elapsed =
     ping_finish (ping_puts ''ms
'' (ping_putdec (elapsed * 10) (ping_puts '' time='' (ping_putdec (ucast sq) (ping_puts '' seq=''
       (ping_putip src (ping_puts ''ping reply from '' (out, cap, 0))))))))"

definition ping_timeout_text :: "string \<Rightarrow> nat \<Rightarrow> u16 \<Rightarrow> string \<times> nat" where
  "ping_timeout_text out cap sq =
     ping_finish (ping_puts ''
'' (ping_putdec (ucast sq) (ping_puts ''ping timeout seq='' (out, cap, 0))))"

text \<open>The result is the text with its length, and the state.\<close>

fun ping_loop ::
  "u32 \<Rightarrow> u32 \<Rightarrow> u16 \<Rightarrow> bytes \<Rightarrow> string \<Rightarrow> nat \<Rightarrow> nev list list \<Rightarrow> u32 \<Rightarrow> bool \<Rightarrow> 'a tcpst_scheme \<Rightarrow> ((string \<times> nat) \<times> 'a tcpst_scheme) option" where
  "ping_loop start dst sq packet out cap rs last_send sent s =
     (if \<not> ticks s - start < 300 then Some (ping_timeout_text out cap sq, s\<lparr>ping_wait := False\<rparr>)
      else (case ping_try dst packet last_send sent s of (last_send, sent, s) \<Rightarrow>
        if ping_received s
        then Some (ping_reply_text out cap (ping_source s) sq (ping_rx_tick s - start),
                   s\<lparr>ping_received_count := ping_received_count s + 1, ping_wait := False\<rparr>)
        else (case rs of [] \<Rightarrow> None
          | es # rs \<Rightarrow> do { s \<leftarrow> nev_run (Poll # es) s; ping_loop start dst sq packet out cap rs last_send sent s })))"

declare ping_loop.simps [simp del]

definition net_ping ::
  "u32 \<Rightarrow> u16 \<Rightarrow> u16 \<Rightarrow> string \<Rightarrow> nat \<Rightarrow> nev list list \<Rightarrow> 'a tcpst_scheme \<Rightarrow> ((string \<times> nat) \<times> 'a tcpst_scheme) option" where
  "net_ping dst i sq out cap rs s = do {
     let out = map (\<lambda>_. CHR 0x00) (take cap out) @ drop cap out;
     (rs, s) \<leftarrow> wait_ip (ticks s) rs s;
     ping_loop (ticks s) dst sq (icmp_request i sq) out cap rs 0xFFFFFFFF False
       (s\<lparr>ping_wait := True, ping_received := False, ping_dst := dst, ping_id := i, ping_seq := sq\<rparr>) }"

section \<open>The resolver\<close>

text \<open>The replies waiting in the queue, up to the first one that decides something.\<close>

partial_function (option) dns_drain ::
  "socket \<Rightarrow> u16 \<Rightarrow> nat \<Rightarrow> 'a tcpst_scheme \<Rightarrow> (dns_verdict \<times> 'a tcpst_scheme) option" where
  "dns_drain ts txid hops s =
     (case udp_recvfrom ts 512 s of
        (None, s) \<Rightarrow> Some (DnsIgnore, s)
      | (Some (_, _, d), s) \<Rightarrow>
          (case dns_response d (length d) txid hops of
             DnsIgnore \<Rightarrow> dns_drain ts txid hops s
           | v \<Rightarrow> Some (v, s)))"

definition next_txid :: "'a tcpst_scheme \<Rightarrow> u16 \<times> 'a tcpst_scheme" where
  "next_txid s = (let g = seq_gen s + 0x9e3779b9 in (ucast (drop_bit 16 g), s\<lparr>seq_gen := g\<rparr>))"

fun dns_loop ::
  "u32 \<Rightarrow> socket \<Rightarrow> nev list list \<Rightarrow> bytes \<Rightarrow> u16 \<Rightarrow> nat \<Rightarrow> u32 \<Rightarrow> 'a tcpst_scheme \<Rightarrow> ((dns_cause + u32) \<times> 'a tcpst_scheme) option" where
  "dns_loop start ts rs pkt txid hops last_send s =
     (if \<not> ticks s - start < 300 then Some (Inl DNS_TO, s)
      else
        let due = (last_send = 0xFFFFFFFF \<or> ticks s - last_send \<ge> 25);
            s = (if due then snd (udp_send (g_dns s) 53 (so_lport ts) pkt s) else s);
            last_send = (if due then ticks s else last_send)
        in (case dns_drain ts txid hops s of None \<Rightarrow> None
          | Some (v, s) \<Rightarrow>
              (case v of
                 DnsGot ip \<Rightarrow> Some (Inr ip, s)
               | DnsFail c \<Rightarrow> Some (Inl c, s)
               | DnsRequery q \<Rightarrow>
                   (case next_txid s of (txid, s) \<Rightarrow>
                      (case rs of [] \<Rightarrow> None
                       | es # rs \<Rightarrow> (case nev_run (Poll # es) s of None \<Rightarrow> None
                          | Some s \<Rightarrow> dns_loop start ts rs (dns_query_pkt txid q) txid (Suc hops) 0xFFFFFFFF s)))
               | _ \<Rightarrow>
                   (case rs of [] \<Rightarrow> None
                    | es # rs \<Rightarrow> (case nev_run (Poll # es) s of None \<Rightarrow> None
                       | Some s \<Rightarrow> dns_loop start ts rs pkt txid hops last_send s)))))"

declare dns_loop.simps [simp del]

definition dns_release :: "nat \<Rightarrow> 'a udpst_scheme \<Rightarrow> 'a udpst_scheme" where
  "dns_release i s = s\<lparr>udp_socks := (udp_socks s)[i := (udp_socks s ! i)\<lparr>us_used := False, us_bound := False\<rparr>]\<rparr>"

abbreviation (input) "NETDNS_EARGS \<equiv> (- 22 :: int)"
abbreviation (input) "NETDNS_ENORESOLVER \<equiv> (- 101 :: int)"

text \<open>The result is the return value and the address stored for the caller.\<close>

definition net_dns_resolve :: "string \<Rightarrow> nev list list \<Rightarrow> 'a tcpst_scheme \<Rightarrow> (int \<times> u32 option \<times> 'a tcpst_scheme) option" where
  "net_dns_resolve name rs s =
     (if g_dns s = 0 then Some (NETDNS_ENORESOLVER, None, s)
      else (case next_txid s of (txid, s) \<Rightarrow>
        (case dns_encode_name name of None \<Rightarrow> Some (NETDNS_EARGS, None, s)
         | Some qname \<Rightarrow>
             (case dns_alloc_port 4 0 txid s of
                (None, s) \<Rightarrow> Some (NETDNS_ENORESOLVER, None, s)
              | (Some (i, lport), s) \<Rightarrow> do {
                  (rs, s) \<leftarrow> wait_ip (ticks s) rs s;
                  (r, s) \<leftarrow> dns_loop (ticks s)
                    \<lparr>so_type = SOCK_UDP, so_lport = lport, so_slot = i, so_owned = False, so_conn = None\<rparr>
                    rs (dns_query_pkt txid qname) txid 0 0xFFFFFFFF s;
                  Some (case r of Inr ip \<Rightarrow> (0, Some ip, dns_release i s) | Inl c \<Rightarrow> (dns_errno c, None, dns_release i s)) }))))"

section \<open>The waits end\<close>

text \<open>What may happen before a turn: well-formed frames (\<open>nev_ok\<close>), and fewer than \<open>2^31\<close>
  timer interrupts, possibly none.  A wait is bounded by the turns before which the clock
  has advanced.\<close>

definition round_ok :: "nev list \<Rightarrow> bool" where
  "round_ok es \<longleftrightarrow> (\<forall>e \<in> set es. nev_ok e) \<and> ticks_in es < 2 ^ 31"

definition ticking :: "nev list list \<Rightarrow> nat" where
  "ticking rs = length (filter (\<lambda>es. 0 < ticks_in es) rs)"

lemma ticking_simps [simp]:
  "ticking [] = 0" "ticking (es # rs) = ticking rs + (if ticks_in es = 0 then 0 else 1)"
  by (simp_all add: ticking_def)

lemma round_step:
  assumes ok: "net_ok s" and r: "round_ok es" and w: "ticks s - start < 300"
  shows "\<exists>t. nev_run (Poll # es) s = Some t \<and> net_ok t \<and> unat (ticks t - start) = unat (ticks s - start) + ticks_in es"
proof -
  have "\<forall>e \<in> set (Poll # es). nev_ok e" using r by (auto simp: round_ok_def nev_ok_def)
  from nev_run_ok [OF ok this] obtain t where t: "nev_run (Poll # es) s = Some t" "net_ok t"
    "ticks t = ticks s + of_nat (ticks_in es)" by (auto simp: ticks_in_def)
  have u: "unat (ticks s - start) < 300" using w by (simp add: word_less_nat_alt)
  have n: "unat (of_nat (ticks_in es) :: u32) = ticks_in es" using r by (simp add: round_ok_def unat_of_nat)
  have "ticks t - start = (ticks s - start) + of_nat (ticks_in es)" using t(3) by simp
  then have "unat (ticks t - start) = (unat (ticks s - start) + unat (of_nat (ticks_in es) :: u32)) mod 2 ^ 32"
    by (simp only: unat_word_ariths) simp
  then have "unat (ticks t - start) = (unat (ticks s - start) + ticks_in es) mod 2 ^ 32" unfolding n .
  also have "\<dots> = unat (ticks s - start) + ticks_in es" using u r by (simp add: round_ok_def)
  finally show ?thesis using t(1,2) by blast
qed

lemma wait_ip_ends:
  assumes "net_ok s" "\<forall>es \<in> set rs. round_ok es" "300 \<le> ticking rs + unat (ticks s - start)"
  shows "\<exists>qs t. wait_ip start rs s = Some (qs, t) \<and> net_ok t \<and> (\<forall>es \<in> set qs. round_ok es) \<and>
    ticking rs \<le> ticking qs + (300 - unat (ticks s - start))"
  using assms
proof (induction rs arbitrary: s)
  case Nil
  then show ?case by (simp add: word_less_nat_alt)
next
  case (Cons es rs)
  show ?case
  proof (cases "g_ip s = 0 \<and> ticks s - start < 300")
    case True
    obtain u where u: "nev_run (Poll # es) s = Some u" "net_ok u" "unat (ticks u - start) = unat (ticks s - start) + ticks_in es"
      using round_step [OF Cons.prems(1), of es start] Cons.prems(2) True by auto
    have "\<exists>qs t. wait_ip start rs u = Some (qs, t) \<and> net_ok t \<and> (\<forall>es \<in> set qs. round_ok es) \<and>
        ticking rs \<le> ticking qs + (300 - unat (ticks u - start))"
      by (rule Cons.IH) (use u Cons.prems in \<open>auto split: if_splits\<close>)
    then obtain qs t where t: "wait_ip start rs u = Some (qs, t)" "net_ok t" "\<forall>es \<in> set qs. round_ok es"
      "ticking rs \<le> ticking qs + (300 - unat (ticks u - start))" by blast
    have "unat (ticks s - start) < 300" using True by (simp add: word_less_nat_alt)
    then have "ticking (es # rs) \<le> ticking qs + (300 - unat (ticks s - start))" using t(4) u(3) by auto
    then show ?thesis using True u(1) t by (simp del: nev_run.simps)
  next
    case False
    then show ?thesis using Cons.prems by (simp add: if_not_P)
  qed
qed

lemma ip_send_same: "ip_send d p b s = (ok, t) \<Longrightarrow> same s t"
  using tx_same [OF ip_send_effect, of s d p b] by simp

lemma ping_try_ok:
  assumes "net_ok s" "ping_try dst p l b s = (l', b', t)"
  shows "net_ok t \<and> ticks t = ticks s"
proof (cases "\<not> b \<and> (l = 0xFFFFFFFF \<or> ticks s - l \<ge> 25)")
  case True
  obtain ok u where r: "ip_send dst IP_PROTO_ICMP p s = (ok, u)" by fastforce
  have "net_ok u \<and> ticks u = ticks s" using stays_ok [OF same_stays [OF ip_send_same [OF r]] assms(1)] .
  then show ?thesis using assms(2) True r
    by (auto simp: ping_try_def net_ok_def ring_ok_def udp_inv_def split: if_splits)
next
  case False
  then have "t = s" using assms(2) by (auto simp: ping_try_def split: if_splits)
  then show ?thesis using assms(1) by simp
qed

lemma ping_loop_ends:
  assumes "net_ok s" "\<forall>es \<in> set rs. round_ok es" "300 \<le> ticking rs + unat (ticks s - start)"
  shows "\<exists>x t. ping_loop start dst sq p out cap rs l b s = Some (x, t) \<and> net_ok t \<and> \<not> ping_wait t"
  using assms
proof (induction rs arbitrary: s l b)
  case Nil
  have "net_ok (s\<lparr>ping_wait := False\<rparr>)" using Nil by (simp add: net_ok_def ring_ok_def udp_inv_def)
  then show ?case using Nil by (subst ping_loop.simps) (simp add: word_less_nat_alt)
next
  case (Cons es rs)
  have fl: "net_ok (u\<lparr>ping_wait := False\<rparr>)" "net_ok (u\<lparr>ping_received_count := n, ping_wait := False\<rparr>)" if "net_ok u" for u :: "'a tcpst_scheme" and n
    using that by (simp_all add: net_ok_def ring_ok_def udp_inv_def)
  show ?case
  proof (cases "ticks s - start < 300")
    case False
    then show ?thesis using fl(1) [OF Cons.prems(1)] by (subst ping_loop.simps) simp
  next
    case True
    obtain l' b' u where t: "ping_try dst p l b s = (l', b', u)" by (metis prod_cases3)
    have u: "net_ok u" "ticks u = ticks s" using ping_try_ok [OF Cons.prems(1) t] by auto
    show ?thesis
    proof (cases "ping_received u")
      case rc: True
      then show ?thesis using True t fl(2) [OF u(1)] by (subst ping_loop.simps) simp
    next
      case False
      obtain v where v: "nev_run (Poll # es) u = Some v" "net_ok v" "unat (ticks v - start) = unat (ticks u - start) + ticks_in es"
        using round_step [OF u(1), of es start] Cons.prems(2) True u(2) by auto
      have "\<exists>x t. ping_loop start dst sq p out cap rs l' b' v = Some (x, t) \<and> net_ok t \<and> \<not> ping_wait t"
        by (rule Cons.IH) (use v u(2) Cons.prems in \<open>auto split: if_splits\<close>)
      then show ?thesis using True t False v(1) by (subst ping_loop.simps) (simp del: nev_run.simps)
    qed
  qed
qed

text \<open>The text never leaves the caller's buffer: the memory \<open>m\<close> behind its first \<open>cap\<close> bytes
  is as before.\<close>

definition text_ok :: "string \<Rightarrow> nat \<Rightarrow> string \<times> nat \<times> nat \<Rightarrow> bool" where
  "text_ok m cap x \<longleftrightarrow> length (fst x) = length m \<and> drop cap (fst x) = drop cap m \<and> fst (snd x) = cap"

lemma ping_putc_ok: "text_ok m cap x \<Longrightarrow> text_ok m cap (ping_putc c x)"
  by (auto simp: text_ok_def ping_putc_def split: prod.splits)

lemma fold_putc_ok: "text_ok m cap x \<Longrightarrow> text_ok m cap (fold ping_putc cs x)"
  by (induction cs arbitrary: x) (simp_all add: ping_putc_ok)

lemma ping_out_ok:
  "text_ok m cap x \<Longrightarrow> text_ok m cap (ping_puts cs x)" "text_ok m cap x \<Longrightarrow> text_ok m cap (ping_putdec v x)"
  "text_ok m cap x \<Longrightarrow> text_ok m cap (ping_putip ip x)"
proof -
  show p: "text_ok m cap x \<Longrightarrow> text_ok m cap (ping_puts cs x)" for cs x by (simp add: ping_puts_def fold_putc_ok)
  show d: "text_ok m cap x \<Longrightarrow> text_ok m cap (ping_putdec v x)" for v x by (simp add: ping_putdec_def fold_putc_ok ping_putc_ok)
  show "text_ok m cap x \<Longrightarrow> text_ok m cap (ping_putip ip x)" by (simp add: ping_putip_def Let_def d ping_putc_ok)
qed

definition fits :: "string \<Rightarrow> nat \<Rightarrow> string \<times> nat \<Rightarrow> bool" where
  "fits m cap x \<longleftrightarrow> length (fst x) = length m \<and> drop cap (fst x) = drop cap m \<and> snd x \<le> cap - 1 \<and>
     (0 < cap \<and> cap \<le> length m \<longrightarrow> fst x ! snd x = CHR 0x00)"

lemma ping_finish_ok: "text_ok m cap x \<Longrightarrow> fits m cap (ping_finish x)"
  by (auto simp: fits_def text_ok_def ping_finish_def Let_def split: prod.splits)

lemma ping_text_ok:
  "text_ok m cap (out, cap, 0) \<Longrightarrow> fits m cap (ping_reply_text out cap src sq e)"
  "text_ok m cap (out, cap, 0) \<Longrightarrow> fits m cap (ping_timeout_text out cap sq)"
  unfolding ping_reply_text_def ping_timeout_text_def by (intro ping_finish_ok ping_out_ok; assumption)+

lemma ping_loop_text:
  "text_ok m cap (out, cap, 0) \<Longrightarrow> ping_loop start dst sq p out cap rs l b s = Some (x, t) \<Longrightarrow> fits m cap x"
proof (induction rs arbitrary: s l b)
  case Nil
  from Nil(2) show ?case
    by (subst (asm) ping_loop.simps) (auto simp: ping_text_ok [OF Nil(1)] split: if_splits prod.splits)
next
  case (Cons es rs)
  from Cons.prems(2) Cons.IH [OF Cons.prems(1)] show ?case
    by (subst (asm) ping_loop.simps)
      (auto simp: ping_text_ok [OF Cons.prems(1)] simp del: nev_run.simps split: if_splits prod.splits Option.bind_splits)
qed

lemma zeroed_ok: "text_ok m cap (map (\<lambda>_. CHR 0x00) (take cap m) @ drop cap m, cap, 0)"
  by (cases "cap \<le> length m") (auto simp: text_ok_def)

lemma net_ping_text: "net_ping dst i sq m cap rs s = Some (x, t) \<Longrightarrow> fits m cap x"
  by (auto simp: net_ping_def Let_def intro: ping_loop_text [OF zeroed_ok] split: Option.bind_splits)

text \<open>Property C18: \<open>net_ping\<close> returns if the clock keeps running: at the latest once the timer
  has ticked before 600 turns of its loops, however many other turns lie between them and
  whatever well-formed frames arrive.  It leaves the stack sound and no ping outstanding.
  Of the memory \<open>m\<close> at the caller's pointer it changes only the first \<open>cap\<close> bytes, and the
  text it leaves there ends with a zero byte at the position it returns.\<close>

theorem net_ping_returns:
  assumes ok: "net_ok s" and rs: "\<forall>es \<in> set rs. round_ok es" "600 \<le> ticking rs" and m: "cap \<le> length m"
  shows "\<exists>out n t. net_ping dst i sq m cap rs s = Some ((out, n), t) \<and> net_ok t \<and> \<not> ping_wait t \<and>
    length out = length m \<and> drop cap out = drop cap m \<and> n \<le> cap - 1 \<and> (0 < cap \<longrightarrow> out ! n = CHR 0x00)"
proof -
  obtain qs u where u: "wait_ip (ticks s) rs s = Some (qs, u)" "net_ok u" "\<forall>es \<in> set qs. round_ok es"
    "ticking rs \<le> ticking qs + 300"
    using wait_ip_ends [OF ok rs(1), of "ticks s"] rs(2) by auto
  define v where "v = u\<lparr>ping_wait := True, ping_received := False, ping_dst := dst, ping_id := i, ping_seq := sq\<rparr>"
  define o0 where "o0 = map (\<lambda>_. CHR 0x00) (take cap m) @ drop cap m"
  have v: "net_ok v" "ticks v = ticks u" using u(2) by (simp_all add: v_def net_ok_def ring_ok_def udp_inv_def)
  obtain x t where x: "ping_loop (ticks u) dst sq (icmp_request i sq) o0 cap qs 0xFFFFFFFF False v = Some (x, t)"
    "net_ok t" "\<not> ping_wait t"
    using ping_loop_ends [OF v(1) u(3), where start = "ticks u" and dst = dst and sq = sq and p = "icmp_request i sq" and cap = cap
        and l = "0xFFFFFFFF" and b = False and out = o0] u(4) rs(2) v(2) by auto
  have e: "net_ping dst i sq m cap rs s = Some (x, t)" using u(1) x(1) by (simp add: net_ping_def Let_def v_def o0_def)
  show ?thesis using net_ping_text [OF e] e x(2,3) m by (cases x) (auto simp: fits_def)
qed

theorem net_ping_returns_witness:
  "\<exists>out n t. net_ping 0x0100007F 1 2 (replicate 50 CHR ''x'') 40 ([] # replicate 600 [Tick]) (e1000_init_rings tcp_boot) =
     Some ((out, n), t) \<and> n \<le> 39 \<and> drop 40 out = replicate 10 CHR ''x''"
proof -
  have "\<forall>es \<in> set ([] # replicate 600 [Tick]). round_ok es" "600 \<le> ticking ([] # replicate 600 [Tick])"
    by (simp_all add: round_ok_def nev_ok_def ticks_in_def ticking_def)
  from net_ping_returns [OF net_ok_boot [OF tcp_boot_udp_inv] this, of 40 "replicate 50 CHR ''x''" "0x0100007F" 1 2]
  show ?thesis by auto
qed

section \<open>The resolver ends\<close>

definition queued :: "'a udpst_scheme \<Rightarrow> nat" where
  "queued s = sum_list (map (length \<circ> uq_abs) (udp_socks s))"

lemma udp_dequeue_state: "snd (udp_dequeue m u) = snd (udp_dequeue k u)"
  by (simp add: udp_dequeue_def Let_def)

lemma recv_less:
  assumes inv: "udp_inv s" and r: "udp_recvfrom ts m s = (Some d, t)" and ow: "\<not> so_owned ts"
  shows "udp_inv t \<and> core t = core s \<and> queued t < queued s"
proof -
  obtain i u where i: "udp_sock_by_port (so_lport ts) s = Some i" and nz: "us_n (udp_socks s ! i) \<noteq> 0"
    and u: "udp_dequeue m (udp_socks s ! i) = (d, u)" and t: "t = s\<lparr>udp_socks := (udp_socks s)[i := u]\<rparr>"
    using r ow by (auto simp: udp_recvfrom_def split: if_splits option.splits prod.splits)
  have lt: "i < UDP_SLOTS" by (rule udp_by_port_lt [OF inv i])
  have ui: "uq_inv (udp_socks s ! i)" by (rule udp_inv_nth [OF inv lt])
  obtain p where "uq_pop (udp_socks s ! i) = Some (p, u)"
    using nz udp_dequeue_state [of m "udp_socks s ! i" UDP_RXBUF] u
    by (cases "udp_dequeue UDP_RXBUF (udp_socks s ! i)") (simp add: uq_pop_def)
  then have pop: "uq_inv u" "uq_abs (udp_socks s ! i) = p # uq_abs u" using uq_pop_spec [OF ui] by auto
  have "udp_inv t" by (rule udp_inv_update [OF inv pop(1)]) (simp add: t)
  moreover have "core t = core s" by (simp add: t core_def)
  moreover have "queued t < queued s"
  proof -
    have l: "i < length (udp_socks s)" using lt inv by (simp add: udp_inv_def)
    let ?xs = "map (length \<circ> uq_abs) (udp_socks s)"
    have x: "?xs ! i = Suc (length (uq_abs u))" using l pop(2) by simp
    have "?xs ! i \<le> sum_list ?xs" using l by (intro member_le_sum_list) simp_all
    moreover have "queued t = sum_list (?xs[i := length (uq_abs u)])" by (simp add: queued_def t map_update)
    moreover have "sum_list (?xs[i := length (uq_abs u)]) = sum_list ?xs + length (uq_abs u) - ?xs ! i"
      using l by (intro sum_list_update) simp
    ultimately show ?thesis using x by (simp add: queued_def)
  qed
  ultimately show ?thesis by blast
qed

lemma recv_none: "udp_recvfrom ts m s = (None, t) \<Longrightarrow> t = s"
  by (auto simp: udp_recvfrom_def split: if_splits option.splits prod.splits)

lemma core_ok: "core t = core s \<Longrightarrow> udp_inv t \<Longrightarrow> net_ok s \<Longrightarrow> net_ok t \<and> ticks t = ticks s"
  by (simp add: net_ok_def ring_ok_def core_def)

lemma dns_drain_ends:
  "net_ok s \<Longrightarrow> \<not> so_owned ts \<Longrightarrow> \<exists>v t. dns_drain ts txid hops s = Some (v, t) \<and> net_ok t \<and> ticks t = ticks s"
proof (induction "queued s" arbitrary: s rule: less_induct)
  case less
  obtain d u where r: "udp_recvfrom ts 512 s = (d, u)" by fastforce
  show ?case
  proof (cases d)
    case None
    then have "u = s" using recv_none r by blast
    then show ?thesis using r None less.prems by (subst dns_drain.simps) simp
  next
    case (Some p)
    obtain a b m where p: "p = (a, b, m)" by (metis prod_cases3)
    have inv: "udp_inv s" using less.prems by (simp add: net_ok_def)
    have q: "udp_inv u" "core u = core s" "queued u < queued s"
      using recv_less [OF inv _ less.prems(2), of 512 p u] r Some by auto
    have ok: "net_ok u" "ticks u = ticks s" using core_ok [OF q(2,1) less.prems(1)] by auto
    show ?thesis
    proof (cases "dns_response m (length m) txid hops = DnsIgnore")
      case True
      then have "dns_drain ts txid hops s = dns_drain ts txid hops u" using r Some p by (subst dns_drain.simps) simp
      then show ?thesis using less.hyps [OF q(3) ok(1) less.prems(2)] ok(2) by auto
    next
      case False
      then show ?thesis using r Some p ok
        by (subst dns_drain.simps) (cases "dns_response m (length m) txid hops"; simp)
    qed
  qed
qed

lemma net_ok_sock:
  "net_ok s \<Longrightarrow> uq_inv u \<Longrightarrow> net_ok (s\<lparr>udp_socks := (udp_socks s)[i := u]\<rparr>)"
proof -
  assume ok: "net_ok s" and u: "uq_inv u"
  have "udp_inv (s\<lparr>udp_socks := (udp_socks s)[i := u]\<rparr>)"
    by (rule udp_inv_update [OF _ u]) (use ok in \<open>simp_all add: net_ok_def\<close>)
  then show ?thesis using ok by (simp add: net_ok_def ring_ok_def)
qed

lemma net_ok_seq: "net_ok s \<Longrightarrow> next_txid s = (x, t) \<Longrightarrow> net_ok t \<and> ticks t = ticks s"
  by (auto simp: next_txid_def Let_def net_ok_def ring_ok_def udp_inv_def)

lemma uq_inv_fresh: "uq_inv u \<Longrightarrow> uq_inv (u\<lparr>us_used := a, us_bound := b, us_owned := c, us_lport := p, us_head := 0, us_n := 0\<rparr>)"
  by (auto simp: uq_inv_def intro: exI [of _ "[]"])

lemma dns_alloc_ok:
  "net_ok s \<Longrightarrow> dns_alloc_port k j txid s = (r, t) \<Longrightarrow> net_ok t \<and> ticks t = ticks s \<and> (\<forall>i p. r = Some (i, p) \<longrightarrow> i < UDP_SLOTS)"
proof (induction k arbitrary: j)
  case 0
  then show ?case by simp
next
  case (Suc k)
  have inv: "udp_inv s" using Suc.prems by (simp add: net_ok_def)
  have lt: "i < UDP_SLOTS" if "udp_sock_find_free s = Some i" for i
    using that find_idx_lt inv by (fastforce simp: udp_sock_find_free_def udp_inv_def)
  show ?case
    using Suc.prems(2) Suc.IH [OF Suc.prems(1), of "j + 1"] lt
      net_ok_sock [OF Suc.prems(1) uq_inv_fresh [OF udp_inv_nth [OF inv lt]]]
    by (fastforce simp: Let_def split: if_splits option.splits)
qed

lemma dns_release_ok:
  assumes ok: "net_ok s" and i: "i < UDP_SLOTS"
  shows "net_ok (dns_release i s)" "\<not> us_used (udp_socks (dns_release i s) ! i)"
proof -
  have inv: "udp_inv s" using ok by (simp add: net_ok_def)
  have "uq_inv ((udp_socks s ! i)\<lparr>us_used := False, us_bound := False\<rparr>)"
    using udp_inv_nth [OF inv i] by (simp add: uq_inv_def)
  from net_ok_sock [OF ok this, of i] show "net_ok (dns_release i s)" by (simp add: dns_release_def)
  show "\<not> us_used (udp_socks (dns_release i s) ! i)" using i inv by (simp add: dns_release_def udp_inv_def)
qed

lemma udp_send_ok: "net_ok s \<Longrightarrow> net_ok (snd (udp_send ip dp sp d s)) \<and> ticks (snd (udp_send ip dp sp d s)) = ticks s"
  by (rule stays_ok [OF same_stays [OF tx_same [OF udp_send_effect]]])

lemma dns_loop_ends:
  assumes "net_ok s" "\<forall>es \<in> set rs. round_ok es" "300 \<le> ticking rs + unat (ticks s - start)" "\<not> so_owned ts"
  shows "\<exists>r t. dns_loop start ts rs pkt txid hops l s = Some (r, t) \<and> net_ok t"
  using assms
proof (induction rs arbitrary: s pkt txid hops l)
  case Nil
  then show ?case by (subst dns_loop.simps) (simp add: word_less_nat_alt)
next
  case (Cons es rs)
  show ?case
  proof (cases "ticks s - start < 300")
    case False
    then show ?thesis using Cons.prems(1) by (subst dns_loop.simps) simp
  next
    case True
    define due where "due \<longleftrightarrow> l = 0xFFFFFFFF \<or> ticks s - l \<ge> 25"
    define u where "u = (if due then snd (udp_send (g_dns s) 53 (so_lport ts) pkt s) else s)"
    have u: "net_ok u" "ticks u = ticks s" using udp_send_ok [OF Cons.prems(1)] Cons.prems(1) by (auto simp: u_def)
    obtain v w where v: "dns_drain ts txid hops u = Some (v, w)" "net_ok w" "ticks w = ticks s"
      using dns_drain_ends [OF u(1) Cons.prems(4), of txid hops] u(2) by auto
    have step: "\<exists>x. nev_run (Poll # es) z = Some x \<and> (\<exists>r t. dns_loop start ts rs pkt' txid' hops' l' x = Some (r, t) \<and> net_ok t)"
      if z: "net_ok z" "ticks z = ticks s" for z :: "'a tcpst_scheme" and pkt' txid' hops' l'
    proof -
      obtain x where x: "nev_run (Poll # es) z = Some x" "net_ok x" "unat (ticks x - start) = unat (ticks z - start) + ticks_in es"
        using round_step [OF z(1), of es start] Cons.prems(2) True z(2) by auto
      have "\<exists>r t. dns_loop start ts rs pkt' txid' hops' l' x = Some (r, t) \<and> net_ok t"
        by (rule Cons.IH) (use x z(2) Cons.prems in \<open>auto split: if_splits\<close>)
      then show ?thesis using x(1) by blast
    qed
    have eq: "dns_loop start ts (es # rs) pkt txid hops l s =
      (case v of DnsGot ip \<Rightarrow> Some (Inr ip, w) | DnsFail c \<Rightarrow> Some (Inl c, w)
       | DnsRequery q \<Rightarrow> (case next_txid w of (txid, w) \<Rightarrow> (case nev_run (Poll # es) w of None \<Rightarrow> None
            | Some x \<Rightarrow> dns_loop start ts rs (dns_query_pkt txid q) txid (Suc hops) 0xFFFFFFFF x))
       | _ \<Rightarrow> (case nev_run (Poll # es) w of None \<Rightarrow> None
            | Some x \<Rightarrow> dns_loop start ts rs pkt txid hops (if due then ticks u else l) x))"
      using True v(1) unfolding u_def due_def by (subst dns_loop.simps) (cases v; simp add: Let_def del: nev_run.simps split del: if_split)
    obtain i x where n: "next_txid w = (i, x)" by fastforce
    have x: "net_ok x" "ticks x = ticks s" using net_ok_seq [OF v(2) n] v(3) by auto
    show ?thesis
    proof (cases v)
      case (DnsRequery q)
      then show ?thesis unfolding eq using step [OF x, of "dns_query_pkt i q" i "Suc hops" "0xFFFFFFFF"] n
        by (auto simp del: nev_run.simps)
    qed (use eq step [OF v(2,3), of pkt txid hops "if due then ticks u else l"] v(2) in \<open>auto simp del: nev_run.simps\<close>)
  qed
qed

text \<open>Property C17: \<open>net_dns_resolve\<close> returns if the clock keeps running, whatever well-formed
  frames arrive: at the latest once the timer has ticked before 600 turns of its loops,
  however many other turns lie between them.  The inner loop that drains the socket
  ends because each datagram it takes is removed from the queue.  The call leaves the stack sound,
  reports one of its documented codes, and stores an address exactly when it returns 0.\<close>

theorem dns_resolve_returns:
  assumes ok: "net_ok s" and rs: "\<forall>es \<in> set rs. round_ok es" "600 \<le> ticking rs"
  shows "\<exists>c ip t. net_dns_resolve name rs s = Some (c, ip, t) \<and> net_ok t \<and> (c = 0 \<longleftrightarrow> ip \<noteq> None) \<and>
    c \<in> {0, - 22, - 101, - 110, - 111}"
proof -
  obtain x a where a: "next_txid s = (x, a)" by fastforce
  have a': "net_ok a" using net_ok_seq [OF ok a] by simp
  obtain y b where b: "dns_alloc_port 4 0 x a = (y, b)" by fastforce
  have b': "net_ok b" "\<And>i p. y = Some (i, p) \<Longrightarrow> i < UDP_SLOTS" using dns_alloc_ok [OF a' b] by auto
  show ?thesis
  proof (cases "g_dns s = 0 \<or> dns_encode_name name = None \<or> y = None")
    case True
    then show ?thesis using ok a a' b b'
      by (auto simp: net_dns_resolve_def split: option.splits)
  next
    case False
    then obtain q i p where q: "dns_encode_name name = Some q" and y: "y = Some (i, p)" by fastforce
    let ?ts = "\<lparr>so_type = SOCK_UDP, so_lport = p, so_slot = i, so_owned = False, so_conn = None\<rparr>"
    obtain qs u where u: "wait_ip (ticks b) rs b = Some (qs, u)" "net_ok u" "\<forall>es \<in> set qs. round_ok es"
      "ticking rs \<le> ticking qs + 300"
      using wait_ip_ends [OF b'(1) rs(1), of "ticks b"] rs(2) by auto
    obtain r t where t: "dns_loop (ticks u) ?ts qs (dns_query_pkt x q) x 0 0xFFFFFFFF u = Some (r, t)" "net_ok t"
      using dns_loop_ends [OF u(2,3), of "ticks u" ?ts "dns_query_pkt x q" x 0 "0xFFFFFFFF"] u(4) rs(2) by auto
    have "net_dns_resolve name rs s =
      Some (case r of Inr ip \<Rightarrow> (0, Some ip, dns_release i t) | Inl c \<Rightarrow> (dns_errno c, None, dns_release i t))"
      using False a b q y u(1) t(1) by (simp add: net_dns_resolve_def)
    then show ?thesis using dns_release_ok(1) [OF t(2) b'(2) [OF y]]
      by (cases r) (auto simp: dns_errno_def)
  qed
qed

theorem dns_resolve_returns_witness:
  "\<exists>c ip t. net_dns_resolve ''a.b'' ([] # replicate 600 [Tick]) (e1000_init_rings (tcp_boot\<lparr>g_dns := 0x0302000A\<rparr>)) = Some (c, ip, t) \<and>
    c \<in> {0, - 22, - 101, - 110, - 111}"
proof -
  have "udp_inv (tcp_boot\<lparr>g_dns := 0x0302000A\<rparr>)" using tcp_boot_udp_inv by (simp add: udp_inv_def)
  from dns_resolve_returns [OF net_ok_boot [OF this], of "[] # replicate 600 [Tick]" "''a.b''"] show ?thesis
    by (auto simp: round_ok_def nev_ok_def ticks_in_def ticking_def)
qed

end
