(* ===== verification/Pmm.thy ===== *)
theory Pmm
  imports CatPrelude
begin

text \<open>
  The physical memory manager of \<^verbatim>\<open>src/kernel/paging.c\<close>: the page bitmap, the
  reference counts of copy-on-write pages, the two allocators, and the boot-time
  initialisation from the multiboot information.

  A frame is named by its index, its physical address divided by 4096.  The
  bitmap and the counters are arrays, modelled as functions of the index; the
  invariant \<open>pmm_inv\<close> bounds every index the code uses by the array sizes.  The
  boot loader's tables are read from physical memory with 32-bit loads
  (argument \<open>ld\<close>), and the addresses of the kernel image, which the linker
  provides, are arguments of \<open>pmm_init\<close>.  Console messages are omitted.
\<close>

named_theorems pmm_simps \<open>rewrite rules of the physical memory manager\<close>

section \<open>Constants\<close>

abbreviation (input) "KERNEL_VIRT_BASE \<equiv> (0xC0000000 :: u32)"
abbreviation (input) "KERNEL_PHYS_LOAD \<equiv> (0x00100000 :: u32)"
abbreviation (input) "PAGE_SIZE \<equiv> (0x1000 :: u32)"
abbreviation (input) "PDE_SIZE \<equiv> (0x400000 :: u32)"
abbreviation (input) "IOREMAP_BASE \<equiv> (0xF0000000 :: u32)"
abbreviation (input) "IOREMAP_SIZE \<equiv> (0x08000000 :: u32)"
abbreviation (input) "ISA_DMA_LIMIT \<equiv> (0x01000000 :: u32)"
abbreviation (input) "MAX_DIRECT_MAP_PHYS \<equiv> (0x30000000 :: u32)"
abbreviation (input) "MAX_MANAGED_PAGES \<equiv> (0x30000 :: u32)"
abbreviation (input) "MEM_TOP_FALLBACK_KB \<equiv> (0x20000 :: u32)"
abbreviation (input) "MULTIBOOT_INFO_MEMORY \<equiv> (0x1 :: u32)"
abbreviation (input) "MULTIBOOT_INFO_MEM_MAP \<equiv> (0x40 :: u32)"
abbreviation (input) "MULTIBOOT_MEMORY_AVAILABLE \<equiv> (1 :: u32)"

section \<open>State\<close>

record pmm =
  pmm_bitmap :: "nat \<Rightarrow> u32"
  page_refcnt :: "nat \<Rightarrow> u8"
  managed_pages :: u32
  free_page_count :: u32
  next_page_idx :: u32
  next_dma_page_idx :: u32
  managed_limit_phys :: u32
  direct_map_limit_phys :: u32
  mem_top_kb :: u32
  refcnt_overflow_warned :: bool

record multiboot_info =
  mb_flags :: u32
  mem_lower :: u32
  mem_upper :: u32
  mmap_length :: u32
  mmap_addr :: u32

record multiboot_mmap_entry =
  me_size :: u32
  addr_low :: u32
  addr_high :: u32
  len_low :: u32
  len_high :: u32
  me_type :: u32

section \<open>Alignment and the bitmap\<close>

definition align_up :: "u32 \<Rightarrow> u32 \<Rightarrow> u32" where
  "align_up value align = (value + align - 1) AND NOT (align - 1)"

definition align_down :: "u32 \<Rightarrow> u32 \<Rightarrow> u32" where
  "align_down value align = value AND NOT (align - 1)"

definition bitmap_set :: "u32 \<Rightarrow> 'a pmm_scheme \<Rightarrow> 'a pmm_scheme" where
  "bitmap_set idx s = s\<lparr>pmm_bitmap := (pmm_bitmap s)(unat (idx div 32) :=
     pmm_bitmap s (unat (idx div 32)) OR push_bit (unat (idx mod 32)) 1)\<rparr>"

definition bitmap_clear :: "u32 \<Rightarrow> 'a pmm_scheme \<Rightarrow> 'a pmm_scheme" where
  "bitmap_clear idx s = s\<lparr>pmm_bitmap := (pmm_bitmap s)(unat (idx div 32) :=
     pmm_bitmap s (unat (idx div 32)) AND NOT (push_bit (unat (idx mod 32)) 1))\<rparr>"

definition bitmap_test :: "u32 \<Rightarrow> 'a pmm_scheme \<Rightarrow> bool" where
  "bitmap_test idx s =
     ((pmm_bitmap s (unat (idx div 32)) AND push_bit (unat (idx mod 32)) 1) \<noteq> 0)"

definition mark_page_free :: "u32 \<Rightarrow> 'a pmm_scheme \<Rightarrow> 'a pmm_scheme" where
  "mark_page_free idx s =
     (if managed_pages s \<le> idx then s
      else if bitmap_test idx s then
        (bitmap_clear idx s)\<lparr>free_page_count := free_page_count s + 1,
          page_refcnt := (page_refcnt s)(unat idx := 0)\<rparr>
      else s)"

definition mark_page_used :: "u32 \<Rightarrow> 'a pmm_scheme \<Rightarrow> 'a pmm_scheme" where
  "mark_page_used idx s =
     (if managed_pages s \<le> idx then s
      else if \<not> bitmap_test idx s then
        (bitmap_set idx s)\<lparr>free_page_count := free_page_count s - 1,
          page_refcnt := (page_refcnt s)(unat idx := 1)\<rparr>
      else s)"

text \<open>The addresses \<open>p, p + 4096, \<dots>\<close> below \<open>e\<close> that a page loop visits.  The loops
  below run with \<open>e\<close> at most the managed limit, so \<open>p\<close> never wraps.\<close>

definition page_steps :: "u32 \<Rightarrow> u32 \<Rightarrow> u32 list" where
  "page_steps p e = (if p < e
     then map (\<lambda>k. p + of_nat k * PAGE_SIZE) [0..<(unat (e - p) + 4095) div 4096] else [])"

definition mark_range_free :: "u32 \<Rightarrow> u32 \<Rightarrow> 'a pmm_scheme \<Rightarrow> 'a pmm_scheme" where
  "mark_range_free start stop s =
     (let start = align_up start PAGE_SIZE; stop = align_down stop PAGE_SIZE in
      if stop \<le> start then s
      else fold (\<lambda>p. mark_page_free (drop_bit 12 p))
             (page_steps start (if managed_limit_phys s < stop then managed_limit_phys s else stop)) s)"

definition mark_range_used :: "u32 \<Rightarrow> u32 \<Rightarrow> 'a pmm_scheme \<Rightarrow> 'a pmm_scheme" where
  "mark_range_used start stop s =
     (let start = align_down start PAGE_SIZE; stop = align_up stop PAGE_SIZE in
      if stop \<le> start then s
      else fold (\<lambda>p. mark_page_used (drop_bit 12 p))
             (page_steps start (if managed_limit_phys s < stop then managed_limit_phys s else stop)) s)"

section \<open>Memory discovery and initialisation\<close>

definition mmap_entry_at :: "(u32 \<Rightarrow> u32) \<Rightarrow> u32 \<Rightarrow> multiboot_mmap_entry" where
  "mmap_entry_at ld p = \<lparr>me_size = ld p, addr_low = ld (p + 4), addr_high = ld (p + 8),
     len_low = ld (p + 12), len_high = ld (p + 16), me_type = ld (p + 20)\<rparr>"

definition mmap_entry_end32 :: "multiboot_mmap_entry \<Rightarrow> u32" where
  "mmap_entry_end32 e =
     (if addr_high e \<noteq> 0 then 0
      else if len_high e \<noteq> 0 \<or> addr_low e + len_low e < addr_low e then 0xFFFFFFFF
      else addr_low e + len_low e)"

text \<open>The scan for the highest end of an available region.  The step is the entry
  size plus 4, which may wrap; \<open>None\<close> is a scan that does not end.\<close>

partial_function (option) mmap_best_end ::
  "(u32 \<Rightarrow> u32) \<Rightarrow> u32 \<Rightarrow> u32 \<Rightarrow> u32 \<Rightarrow> u32 option" where
  "mmap_best_end ld p mmap_end best =
     (if p + 24 \<le> mmap_end then
        (if me_size (mmap_entry_at ld p) < 20 then Some best
         else mmap_best_end ld (p + (me_size (mmap_entry_at ld p) + 4)) mmap_end
           (if me_type (mmap_entry_at ld p) = MULTIBOOT_MEMORY_AVAILABLE
               \<and> best < mmap_entry_end32 (mmap_entry_at ld p)
            then mmap_entry_end32 (mmap_entry_at ld p) else best))
      else Some best)"

definition kb_round_up :: "u32 \<Rightarrow> u32" where
  "kb_round_up best_end = (drop_bit 10 best_end + (if best_end AND 0x3FF \<noteq> 0 then 1 else 0))"

definition clamp_memory_limit :: "u32 \<Rightarrow> u32" where
  "clamp_memory_limit top_kb =
     (let top_kb = (if top_kb > drop_bit 10 MAX_DIRECT_MAP_PHYS
                    then drop_bit 10 MAX_DIRECT_MAP_PHYS else top_kb);
          limit = push_bit 10 top_kb;
          limit = (if limit > MAX_DIRECT_MAP_PHYS then MAX_DIRECT_MAP_PHYS else limit);
          limit = (if limit < 0x400000 then 0x400000 else limit)
      in align_down limit PAGE_SIZE)"

definition mem_upper_kb :: "multiboot_info \<Rightarrow> u32" where
  "mem_upper_kb mbi =
     (if (mb_flags mbi AND MULTIBOOT_INFO_MEMORY) \<noteq> 0 \<and> mem_upper mbi \<noteq> 0
      then mem_upper mbi + 1024 else MEM_TOP_FALLBACK_KB)"

definition discover_memory_limit :: "(u32 \<Rightarrow> u32) \<Rightarrow> multiboot_info \<Rightarrow> u32 option" where
  "discover_memory_limit ld mbi =
     (case (if (mb_flags mbi AND MULTIBOOT_INFO_MEM_MAP) \<noteq> 0 \<and> 24 \<le> mmap_length mbi
            then mmap_best_end ld (mmap_addr mbi) (mmap_addr mbi + mmap_length mbi) 0
            else Some 0) of
        None \<Rightarrow> None
      | Some best_end \<Rightarrow> Some (clamp_memory_limit
          (if best_end \<noteq> 0 then kb_round_up best_end else mem_upper_kb mbi)))"

text \<open>The second scan, which frees the available regions; its step is not checked
  for a minimal entry size.\<close>

definition mmap_free_entry :: "multiboot_mmap_entry \<Rightarrow> 'a pmm_scheme \<Rightarrow> 'a pmm_scheme" where
  "mmap_free_entry e s =
     (let start = (if addr_high e \<noteq> 0 then 0xFFFFFFFF else addr_low e);
          stop = mmap_entry_end32 e in
      if me_type e = MULTIBOOT_MEMORY_AVAILABLE \<and> stop > start
      then mark_range_free start stop s else s)"

partial_function (option) mmap_free_loop ::
  "(u32 \<Rightarrow> u32) \<Rightarrow> u32 \<Rightarrow> u32 \<Rightarrow> 'a pmm_scheme \<Rightarrow> 'a pmm_scheme option" where
  "mmap_free_loop ld p mmap_end s =
     (if p < mmap_end
      then mmap_free_loop ld (p + (me_size (mmap_entry_at ld p) + 4)) mmap_end
             (mmap_free_entry (mmap_entry_at ld p) s)
      else Some s)"

definition pmm_reset :: "u32 \<Rightarrow> 'a pmm_scheme \<Rightarrow> 'a pmm_scheme" where
  "pmm_reset limit s = s\<lparr>managed_limit_phys := limit, managed_pages := drop_bit 12 limit,
     free_page_count := 0, next_page_idx := 0,
     next_dma_page_idx := drop_bit 12 KERNEL_PHYS_LOAD,
     pmm_bitmap := (\<lambda>_. 0xFFFFFFFF), page_refcnt := (\<lambda>_. 0),
     mem_top_kb := drop_bit 10 limit\<rparr>"

definition pmm_reserve :: "multiboot_info \<Rightarrow> u32 \<Rightarrow> u32 \<Rightarrow> u32 \<Rightarrow> 'a pmm_scheme \<Rightarrow> 'a pmm_scheme" where
  "pmm_reserve mbi mbi_phys kstart kend s =
     (let s = mark_range_used 0 0x00100000 s;
          s = mark_range_used kstart kend s;
          s = mark_range_used mbi_phys (mbi_phys + PAGE_SIZE) s
      in if (mb_flags mbi AND MULTIBOOT_INFO_MEM_MAP) \<noteq> 0
         then mark_range_used (mmap_addr mbi) (mmap_addr mbi + mmap_length mbi) s else s)"

definition PDE_ALIGN_UP :: "u32 \<Rightarrow> u32" where
  "PDE_ALIGN_UP x = (x + PDE_SIZE - 1) AND NOT (PDE_SIZE - 1)"

definition pmm_free_regions :: "(u32 \<Rightarrow> u32) \<Rightarrow> multiboot_info \<Rightarrow> 'a pmm_scheme \<Rightarrow> 'a pmm_scheme option" where
  "pmm_free_regions ld mbi s =
     (if (mb_flags mbi AND MULTIBOOT_INFO_MEM_MAP) \<noteq> 0
      then mmap_free_loop ld (mmap_addr mbi) (mmap_addr mbi + mmap_length mbi) s
      else if (mb_flags mbi AND MULTIBOOT_INFO_MEMORY) \<noteq> 0
      then Some (mark_range_free 0x00100000 (managed_limit_phys s) s)
      else Some s)"

definition pmm_init ::
  "(u32 \<Rightarrow> u32) \<Rightarrow> multiboot_info \<Rightarrow> u32 \<Rightarrow> u32 \<Rightarrow> u32 \<Rightarrow> 'a pmm_scheme \<Rightarrow> 'a pmm_scheme option" where
  "pmm_init ld mbi mbi_phys kstart kend s =
     (case discover_memory_limit ld mbi of None \<Rightarrow> None
      | Some limit \<Rightarrow>
          (case pmm_free_regions ld mbi (pmm_reset limit s) of None \<Rightarrow> None
           | Some t \<Rightarrow> Some ((pmm_reserve mbi mbi_phys kstart kend t)
               \<lparr>direct_map_limit_phys := (if PDE_ALIGN_UP limit > MAX_DIRECT_MAP_PHYS
                  then MAX_DIRECT_MAP_PHYS else PDE_ALIGN_UP limit)\<rparr>)))"

section \<open>Allocation, release and reference counts\<close>

function pmm_scan :: "'a pmm_scheme \<Rightarrow> u32 \<Rightarrow> u32 \<Rightarrow> u32 \<Rightarrow> u32 \<Rightarrow> u32 option" where
  "pmm_scan s start beg span n =
     (if n < span then
        (let idx = start + ((beg - start + n) mod span) in
         if \<not> bitmap_test idx s then Some idx else pmm_scan s start beg span (n + 1))
      else None)"
  by pat_completeness auto

termination pmm_scan
  by (relation "measure (\<lambda>(s, start, beg, span, n). unat (span - n))")
     (simp_all add: unat_diff_Suc_less)

definition pmm_cursor_next :: "u32 \<Rightarrow> u32 \<Rightarrow> u32 \<Rightarrow> u32" where
  "pmm_cursor_next start stop idx = (if idx + 1 \<ge> stop then start else idx + 1)"

text \<open>The cursor is passed by reference: the result carries its new value.\<close>

definition pmm_alloc_from :: "u32 \<Rightarrow> u32 \<Rightarrow> u32 \<Rightarrow> 'a pmm_scheme \<Rightarrow> u32 \<times> u32 \<times> 'a pmm_scheme" where
  "pmm_alloc_from start_idx end_idx cursor s =
     (let end_idx = (if end_idx > managed_pages s then managed_pages s else end_idx) in
      if start_idx \<ge> end_idx then (0, cursor, s)
      else
        (case pmm_scan s start_idx
            (if cursor < start_idx \<or> cursor \<ge> end_idx then start_idx else cursor)
            (end_idx - start_idx) 0 of
           None \<Rightarrow> (0, cursor, s)
         | Some idx \<Rightarrow> (push_bit 12 idx, pmm_cursor_next start_idx end_idx idx, mark_page_used idx s)))"

definition pmm_alloc_page :: "'a pmm_scheme \<Rightarrow> u32 \<times> 'a pmm_scheme" where
  "pmm_alloc_page s =
     (case pmm_alloc_from (drop_bit 12 KERNEL_PHYS_LOAD) (managed_pages s) (next_page_idx s) s of
        (p, c, t) \<Rightarrow> (p, t\<lparr>next_page_idx := c\<rparr>))"

definition pmm_alloc_dma_page :: "'a pmm_scheme \<Rightarrow> u32 \<times> 'a pmm_scheme" where
  "pmm_alloc_dma_page s =
     (case pmm_alloc_from (drop_bit 12 KERNEL_PHYS_LOAD) (drop_bit 12 ISA_DMA_LIMIT) (next_dma_page_idx s) s of
        (p, c, t) \<Rightarrow> (p, t\<lparr>next_dma_page_idx := c\<rparr>))"

definition pmm_free_page :: "u32 \<Rightarrow> 'a pmm_scheme \<Rightarrow> 'a pmm_scheme" where
  "pmm_free_page phys s =
     (if (phys AND (PAGE_SIZE - 1)) \<noteq> 0 \<or> phys \<ge> managed_limit_phys s then s
      else mark_page_free (drop_bit 12 phys) s)"

definition page_ref_ok :: "u32 \<Rightarrow> 'a pmm_scheme \<Rightarrow> bool" where
  "page_ref_ok phys s = (\<not> ((phys AND (PAGE_SIZE - 1)) \<noteq> 0 \<or> drop_bit 12 phys \<ge> managed_pages s))"

definition page_ref_get :: "u32 \<Rightarrow> 'a pmm_scheme \<Rightarrow> u32" where
  "page_ref_get phys s =
     (if page_ref_ok phys s then ucast (page_refcnt s (unat (drop_bit 12 phys))) else 0)"

definition page_ref_inc :: "u32 \<Rightarrow> 'a pmm_scheme \<Rightarrow> 'a pmm_scheme" where
  "page_ref_inc phys s =
     (let idx = unat (drop_bit 12 phys) in
      if \<not> page_ref_ok phys s then s
      else if page_refcnt s idx \<ge> 250 then s\<lparr>refcnt_overflow_warned := True\<rparr>
      else s\<lparr>page_refcnt := (page_refcnt s)(idx := page_refcnt s idx + 1)\<rparr>)"

definition page_ref_dec :: "u32 \<Rightarrow> 'a pmm_scheme \<Rightarrow> u32 \<times> 'a pmm_scheme" where
  "page_ref_dec phys s =
     (let idx = unat (drop_bit 12 phys) in
      if \<not> page_ref_ok phys s then (0, s)
      else if page_refcnt s idx = 0 then (0, s\<lparr>refcnt_overflow_warned := True\<rparr>)
      else (ucast (page_refcnt s idx - 1),
            s\<lparr>page_refcnt := (page_refcnt s)(idx := page_refcnt s idx - 1)\<rparr>))"

section \<open>Arithmetic of page addresses\<close>

lemma and_not_fff: "(v :: u32) AND - 4096 = push_bit 12 (drop_bit 12 v)"
proof -
  have "v AND - 4096 = v AND NOT (mask 12)" by (simp add: mask_eq_exp_minus_1)
  also have "\<dots> = push_bit 12 (drop_bit 12 v)"
    by (rule bit_word_eqI) (auto simp: bit_simps)
  finally show ?thesis .
qed

lemma unat_eqI: "unat a = unat b \<Longrightarrow> a = b" for a b :: u32
  by (rule unsigned_word_eqI)

lemma unat_frame: "unat (drop_bit 12 (v :: u32)) = unat v div 4096"
  by (simp add: drop_bit_eq_div unat_div_distrib)

lemma unat_frame_addr: "unat i < 0x100000 \<Longrightarrow> unat (push_bit 12 (i :: u32)) = unat i * 4096"
  by (simp add: push_bit_eq_mult unat_word_ariths)

lemma frame_of_addr [simp]: "unat i < 0x100000 \<Longrightarrow> drop_bit 12 (push_bit 12 (i :: u32)) = i"
  by (rule unat_eqI) (simp add: unat_frame unat_frame_addr)

lemma page_offset_of_frame [simp]: "push_bit 12 (i :: u32) AND 0xFFF = 0"
proof -
  have "push_bit 12 i AND 0xFFF = push_bit 12 i AND mask 12" by (simp add: mask_eq_exp_minus_1)
  also have "\<dots> = 0" by (rule bit_word_eqI) (auto simp: bit_simps)
  finally show ?thesis .
qed

lemma aligned_frame: "(p :: u32) AND 0xFFF = 0 \<Longrightarrow> push_bit 12 (drop_bit 12 p) = p"
proof -
  assume a: "p AND 0xFFF = 0"
  have "p = (p AND 0xFFF) OR (p AND NOT 0xFFF)"
    by (rule bit_word_eqI) (auto simp: bit_simps)
  then have "p = p AND - 4096" using a by simp
  then show ?thesis by (simp add: and_not_fff)
qed

lemma unat_align_down [pmm_simps]: "unat (align_down v 0x1000) = unat v div 4096 * 4096"
proof -
  have "unat v div 4096 < 0x100000" using unat_u32_lt [of v] by simp
  then show ?thesis
    by (simp add: align_down_def and_not_fff unat_frame_addr unat_frame)
qed

lemma align_up_eq: "align_up v 0x1000 = align_down (v + 0xFFF) 0x1000"
  by (simp add: align_up_def align_down_def add.commute)

lemma unat_align_up [pmm_simps]:
  "unat v + 4095 < 0x100000000 \<Longrightarrow> unat (align_up v 0x1000) = (unat v + 4095) div 4096 * 4096"
proof -
  assume "unat v + 4095 < 0x100000000"
  then have "unat (v + 0xFFF) = unat v + 4095"
    by (subst unat_add_lem [THEN iffD1]) simp_all
  then show ?thesis by (simp only: align_up_eq unat_align_down)
qed

section \<open>Lemmas on the bitmap\<close>

lemma bitmap_test_bit:
  "bitmap_test i s = bit (pmm_bitmap s (unat i div 32)) (unat i mod 32)"
  by (simp only: bitmap_test_def bit_iff_and_push_bit_not_eq_0)
     (simp add: unat_div_distrib unat_mod_distrib)

lemma same_bit_slot:
  "unat i div 32 = unat j div 32 \<Longrightarrow> unat i mod 32 = unat j mod 32 \<Longrightarrow> i = j" for i j :: u32
proof -
  assume "unat i div 32 = unat j div 32" "unat i mod 32 = unat j mod 32"
  then have "unat i = unat j"
    by (metis div_mult_mod_eq)
  then show "i = j" by (rule unat_eqI)
qed

lemma bit_one_at: "bit (2 ^ (k mod 32) :: u32) n \<longleftrightarrow> n = k mod 32"
  by (auto simp: bit_exp_iff possible_bit_word)

lemma bitmap_test_set [pmm_simps]: "bitmap_test i (bitmap_set j s) = (i = j \<or> bitmap_test i s)"
proof -
  have "unat j mod 32 < 32" by simp
  then show ?thesis
    using same_bit_slot [of i j]
    by (cases "unat i div 32 = unat j div 32")
       (auto simp: bitmap_test_bit bitmap_set_def bit_or_iff bit_one_at unat_div_distrib
         unat_mod_distrib)
qed

lemma bitmap_test_clear [pmm_simps]: "bitmap_test i (bitmap_clear j s) = (i \<noteq> j \<and> bitmap_test i s)"
proof -
  have "unat j mod 32 < 32" by simp
  moreover have "unat i mod 32 < LENGTH(32)" by simp
  ultimately show ?thesis
    using same_bit_slot [of i j]
    by (cases "unat i div 32 = unat j div 32")
       (auto simp: bitmap_test_bit bitmap_clear_def bit_and_iff bit_not_iff_eq bit_one_at
         unat_div_distrib unat_mod_distrib)
qed

lemma bitmap_test_upd [simp]:
  "bitmap_test i (s\<lparr>free_page_count := c\<rparr>) = bitmap_test i s"
  "bitmap_test i (s\<lparr>page_refcnt := r\<rparr>) = bitmap_test i s"
  "bitmap_test i (s\<lparr>next_page_idx := c\<rparr>) = bitmap_test i s"
  "bitmap_test i (s\<lparr>next_dma_page_idx := c\<rparr>) = bitmap_test i s"
  "bitmap_test i (s\<lparr>refcnt_overflow_warned := w\<rparr>) = bitmap_test i s"
  "bitmap_test i (s\<lparr>direct_map_limit_phys := c\<rparr>) = bitmap_test i s"
  by (simp_all add: bitmap_test_def)

lemma bitmap_fields [simp]:
  "managed_pages (bitmap_set j s) = managed_pages s"
  "managed_pages (bitmap_clear j s) = managed_pages s"
  "managed_limit_phys (bitmap_set j s) = managed_limit_phys s"
  "managed_limit_phys (bitmap_clear j s) = managed_limit_phys s"
  "page_refcnt (bitmap_set j s) = page_refcnt s"
  "page_refcnt (bitmap_clear j s) = page_refcnt s"
  "free_page_count (bitmap_set j s) = free_page_count s"
  "free_page_count (bitmap_clear j s) = free_page_count s"
  "pmm.more (bitmap_set j s) = pmm.more s"
  "pmm.more (bitmap_clear j s) = pmm.more s"
  by (simp_all add: bitmap_set_def bitmap_clear_def)

section \<open>The set of free frames and the invariant\<close>

text \<open>\<open>frees\<close> is what the bitmap means; \<open>pmm_inv\<close> ties the counter, the
  reference counts and the two limits to it.\<close>

definition frees :: "'a pmm_scheme \<Rightarrow> u32 set" where
  "frees s = {i. i < managed_pages s \<and> \<not> bitmap_test i s}"

definition pmm_inv :: "'a pmm_scheme \<Rightarrow> bool" where
  "pmm_inv s \<longleftrightarrow> managed_pages s \<le> MAX_MANAGED_PAGES
     \<and> managed_limit_phys s = push_bit 12 (managed_pages s)
     \<and> unat (free_page_count s) = card (frees s)
     \<and> (\<forall>i \<in> frees s. page_refcnt s (unat i) = 0)"

lemma pmm_inv_pages: "pmm_inv s \<Longrightarrow> unat (managed_pages s) \<le> 196608"
  by (simp add: pmm_inv_def word_le_nat_alt)

lemma pmm_limit_pages: "pmm_inv s \<Longrightarrow> unat (managed_limit_phys s) = unat (managed_pages s) * 4096"
  using pmm_inv_pages [of s] unat_frame_addr [of "managed_pages s"] by (simp add: pmm_inv_def)

lemma frees_lt: "pmm_inv s \<Longrightarrow> i \<in> frees s \<Longrightarrow> unat i < 196608"
  using pmm_inv_pages [of s] by (simp add: frees_def word_less_nat_alt)

lemma card_frees: "pmm_inv s \<Longrightarrow> card (frees s) \<le> 196608"
proof -
  assume "pmm_inv s"
  then have "unat ` frees s \<subseteq> {..<196608}" by (auto dest: frees_lt)
  then have "card (unat ` frees s) \<le> card {..<196608 :: nat}" by (rule card_mono [rotated]) simp
  moreover have "card (unat ` frees s) = card (frees s)" by (rule card_image) (auto intro: inj_onI unat_eqI)
  ultimately show ?thesis by simp
qed

lemma frees_mark_free [pmm_simps]:
  "frees (mark_page_free i s) = (if i < managed_pages s then insert i (frees s) else frees s)"
  by (auto simp: frees_def mark_page_free_def pmm_simps)

lemma frees_mark_used [pmm_simps]: "frees (mark_page_used i s) = frees s - {i}"
  by (auto simp: frees_def mark_page_used_def pmm_simps)

lemma mark_fields [simp]:
  "managed_pages (mark_page_free i s) = managed_pages s"
  "managed_pages (mark_page_used i s) = managed_pages s"
  "managed_limit_phys (mark_page_free i s) = managed_limit_phys s"
  "managed_limit_phys (mark_page_used i s) = managed_limit_phys s"
  "pmm.more (mark_page_free i s) = pmm.more s"
  "pmm.more (mark_page_used i s) = pmm.more s"
  by (simp_all add: mark_page_free_def mark_page_used_def)

lemma pmm_inv_mark_free [inv_intros]: "pmm_inv s \<Longrightarrow> pmm_inv (mark_page_free i s)"
proof (cases "i < managed_pages s \<and> bitmap_test i s")
  case True
  assume inv: "pmm_inv s"
  from True have ni: "i \<notin> frees s" by (simp add: frees_def)
  have "unat (free_page_count s + 1) = Suc (card (frees s))"
  proof -
    have "unat (free_page_count s) = card (frees s)" using inv by (simp add: pmm_inv_def)
    with card_frees [OF inv] show ?thesis by (simp add: unat_word_ariths)
  qed
  moreover have "free_page_count (mark_page_free i s) = free_page_count s + 1"
    "page_refcnt (mark_page_free i s) = (page_refcnt s)(unat i := 0)"
    using True leD [of "managed_pages s" i] by (auto simp: mark_page_free_def)
  moreover have "card (insert i (frees s)) = Suc (card (frees s))" using ni by simp
  ultimately show ?thesis using inv True
    by (simp add: pmm_inv_def frees_mark_free)
next
  case False
  assume "pmm_inv s"
  with False show ?thesis by (simp add: mark_page_free_def)
qed

lemma pmm_inv_mark_used [inv_intros]: "pmm_inv s \<Longrightarrow> pmm_inv (mark_page_used i s)"
proof (cases "i \<in> frees s")
  case True
  assume inv: "pmm_inv s"
  have fields: "free_page_count (mark_page_used i s) = free_page_count s - 1"
    "page_refcnt (mark_page_used i s) = (page_refcnt s)(unat i := 1)"
    using True leD [of "managed_pages s" i] by (auto simp: mark_page_used_def frees_def)
  have pos: "0 < card (frees s)" using True by (auto simp: card_gt_0_iff)
  have cnt: "unat (free_page_count s) = card (frees s)" using inv by (simp add: pmm_inv_def)
  then have "1 \<le> free_page_count s" using pos by (simp add: word_le_nat_alt)
  then have "unat (free_page_count s - 1) = card (frees s) - 1"
    using cnt by (simp add: unat_sub)
  then show ?thesis using inv True fields
    by (auto simp: pmm_inv_def frees_mark_used dest: unat_eqI)
next
  case False
  assume "pmm_inv s"
  with False show ?thesis by (auto simp: mark_page_used_def frees_def)
qed

lemma pmm_inv_upd [simp]:
  "pmm_inv (s\<lparr>next_page_idx := c\<rparr>) = pmm_inv s"
  "pmm_inv (s\<lparr>next_dma_page_idx := c\<rparr>) = pmm_inv s"
  "pmm_inv (s\<lparr>refcnt_overflow_warned := w\<rparr>) = pmm_inv s"
  "pmm_inv (s\<lparr>direct_map_limit_phys := c\<rparr>) = pmm_inv s"
  by (simp_all add: pmm_inv_def frees_def)

lemma frees_upd [simp]:
  "frees (s\<lparr>next_page_idx := c\<rparr>) = frees s"
  "frees (s\<lparr>next_dma_page_idx := c\<rparr>) = frees s"
  "frees (s\<lparr>refcnt_overflow_warned := w\<rparr>) = frees s"
  "frees (s\<lparr>direct_map_limit_phys := c\<rparr>) = frees s"
  "frees (s\<lparr>page_refcnt := r\<rparr>) = frees s"
  by (simp_all add: frees_def)

section \<open>Ranges\<close>

lemma page_round_up: "(b :: nat) \<le> (b + 4095) div 4096 * 4096"
  using div_mult_mod_eq [of "b + 4095" 4096] mod_less_divisor [of 4096 "b + 4095"] by linarith

lemma page_round_down: "(x :: nat) div 4096 * 4096 \<le> x"
  by simp

lemma fold_mark_free:
  "frees (fold (\<lambda>p. mark_page_free (drop_bit 12 p)) ps s)
     = frees s \<union> {i \<in> drop_bit 12 ` set ps. i < managed_pages s}
   \<and> managed_pages (fold (\<lambda>p. mark_page_free (drop_bit 12 p)) ps s) = managed_pages s
   \<and> managed_limit_phys (fold (\<lambda>p. mark_page_free (drop_bit 12 p)) ps s) = managed_limit_phys s"
  by (induction ps arbitrary: s) (auto simp: pmm_simps)

lemma fold_mark_used:
  "frees (fold (\<lambda>p. mark_page_used (drop_bit 12 p)) ps s) = frees s - drop_bit 12 ` set ps
   \<and> managed_pages (fold (\<lambda>p. mark_page_used (drop_bit 12 p)) ps s) = managed_pages s
   \<and> managed_limit_phys (fold (\<lambda>p. mark_page_used (drop_bit 12 p)) ps s) = managed_limit_phys s"
  by (induction ps arbitrary: s) (auto simp: pmm_simps)

lemma fold_mark_inv:
  "pmm_inv s \<Longrightarrow> pmm_inv (fold (\<lambda>p. mark_page_free (drop_bit 12 p)) ps s)"
  "pmm_inv s \<Longrightarrow> pmm_inv (fold (\<lambda>p. mark_page_used (drop_bit 12 p)) ps s)"
  by (induction ps arbitrary: s) (auto intro: inv_intros)

lemma range_fields [simp]:
  "managed_pages (mark_range_free a b s) = managed_pages s"
  "managed_pages (mark_range_used a b s) = managed_pages s"
  "managed_limit_phys (mark_range_free a b s) = managed_limit_phys s"
  "managed_limit_phys (mark_range_used a b s) = managed_limit_phys s"
  by (simp_all add: mark_range_free_def mark_range_used_def Let_def fold_mark_free fold_mark_used)

lemma pmm_inv_range [inv_intros]:
  "pmm_inv s \<Longrightarrow> pmm_inv (mark_range_free a b s)"
  "pmm_inv s \<Longrightarrow> pmm_inv (mark_range_used a b s)"
  by (simp_all add: mark_range_free_def mark_range_used_def Let_def fold_mark_inv)

lemma unat_step: "unat p + k * 4096 < 0x100000000 \<Longrightarrow> unat ((p :: u32) + of_nat k * 0x1000) = unat p + k * 4096"
proof -
  assume b: "unat p + k * 4096 < 0x100000000"
  have "p + of_nat k * 0x1000 = of_nat (unat p + k * 4096)" by simp
  then have "unat (p + of_nat k * 0x1000) = (unat p + k * 4096) mod 0x100000000"
    by (simp only: unat_of_nat) simp
  then show ?thesis using b by simp
qed

text \<open>The frames a page loop visits are those from its first address up to its end.\<close>

lemma page_steps_frames:
  assumes a: "unat p mod 4096 = 0" and e: "unat e \<le> 0x30000000"
  shows "i \<in> drop_bit 12 ` set (page_steps p e) \<longleftrightarrow> unat p \<le> unat i * 4096 \<and> unat i * 4096 < unat e"
proof (cases "p < e")
  case True
  then have lt: "unat p < unat e" by (simp add: word_less_nat_alt)
  then have d: "unat (e - p) = unat e - unat p" by (simp add: unat_sub word_le_nat_alt)
  have k: "k < (unat (e - p) + 4095) div 4096 \<longleftrightarrow> unat p + k * 4096 < unat e" for k
    using d lt by auto
  have s: "unat (drop_bit 12 (p + of_nat k * 0x1000)) = unat p div 4096 + k"
    if "unat p + k * 4096 < unat e" for k
    using unat_step [of p k] that e by (simp add: unat_frame)
  have p: "unat p = unat p div 4096 * 4096" using a by auto
  show ?thesis
  proof
    assume "i \<in> drop_bit 12 ` set (page_steps p e)"
    then obtain k where "unat p + k * 4096 < unat e" "i = drop_bit 12 (p + of_nat k * 0x1000)"
      using True k by (auto simp: page_steps_def)
    then show "unat p \<le> unat i * 4096 \<and> unat i * 4096 < unat e"
      using s [of k] p by (simp add: algebra_simps)
  next
    assume r: "unat p \<le> unat i * 4096 \<and> unat i * 4096 < unat e"
    define k where "k = unat i - unat p div 4096"
    have ge: "unat p div 4096 \<le> unat i" using r p by linarith
    then have ik: "unat i = unat p div 4096 + k" by (simp add: k_def)
    then have b: "unat p + k * 4096 < unat e" using r p by (simp add: algebra_simps)
    then have "i = drop_bit 12 (p + of_nat k * 0x1000)" using s [OF b] ik by (simp add: unat_eqI)
    then show "i \<in> drop_bit 12 ` set (page_steps p e)"
      using True k b by (auto simp: page_steps_def)
  qed
next
  case False
  then show ?thesis by (auto simp: page_steps_def word_less_nat_alt)
qed

lemma frees_range_used:
  assumes lim: "unat (managed_limit_phys s) \<le> 0x30000000" and b: "unat b + 4095 < 0x100000000"
    and x: "a \<le> x" "x < b" "x < managed_limit_phys s"
  shows "drop_bit 12 x \<notin> frees (mark_range_used a b s)"
proof -
  define lo where "lo = align_down a 0x1000"
  define hi where "hi = align_up b 0x1000"
  define e where "e = (if managed_limit_phys s < hi then managed_limit_phys s else hi)"
  have lo: "unat lo = unat a div 4096 * 4096" by (simp add: lo_def unat_align_down)
  have hi: "unat hi = (unat b + 4095) div 4096 * 4096" using b by (simp add: hi_def unat_align_up)
  have xs: "unat a \<le> unat x" "unat x < unat b" "unat x < unat (managed_limit_phys s)"
    using x by (simp_all add: word_le_nat_alt word_less_nat_alt)
  have "unat x < unat hi" using xs hi page_round_up [of "unat b"] by linarith
  then have xe: "unat x < unat e" using xs by (simp add: e_def)
  have ele: "unat e \<le> 0x30000000" using lim by (auto simp: e_def word_less_nat_alt)
  have "\<not> hi \<le> lo"
    unfolding word_le_nat_alt
    using xs lo \<open>unat x < unat hi\<close> page_round_down [of "unat a"] by linarith
  then have m: "mark_range_used a b s = fold (\<lambda>p. mark_page_used (drop_bit 12 p)) (page_steps lo e) s"
    by (simp add: mark_range_used_def lo_def hi_def e_def Let_def)
  have "unat lo mod 4096 = 0" using lo by simp
  moreover have "unat lo \<le> unat x div 4096 * 4096" using lo xs by (simp add: div_le_mono)
  moreover have "unat x div 4096 * 4096 < unat e" using xe page_round_down [of "unat x"] by linarith
  ultimately have "drop_bit 12 x \<in> drop_bit 12 ` set (page_steps lo e)"
    using page_steps_frames [OF _ ele, of lo "drop_bit 12 x"] by (simp add: unat_frame)
  then show ?thesis by (simp add: m fold_mark_used)
qed

lemma frees_range_used_mono: "frees (mark_range_used a b s) \<subseteq> frees s"
  by (auto simp: mark_range_used_def Let_def fold_mark_used)

section \<open>Initialisation\<close>

lemma clamp_memory_limit_bounds:
  "unat (clamp_memory_limit t) mod 4096 = 0 \<and> 0x400000 \<le> unat (clamp_memory_limit t)
   \<and> unat (clamp_memory_limit t) \<le> 0x30000000"
proof -
  define l where "l = (let top_kb = (if t > drop_bit 10 MAX_DIRECT_MAP_PHYS
                    then drop_bit 10 MAX_DIRECT_MAP_PHYS else t);
          limit = push_bit 10 top_kb;
          limit = (if limit > MAX_DIRECT_MAP_PHYS then MAX_DIRECT_MAP_PHYS else limit)
      in (if limit < 0x400000 then 0x400000 else limit))"
  have c: "clamp_memory_limit t = align_down l 0x1000"
    by (simp add: clamp_memory_limit_def l_def Let_def)
  have l: "0x400000 \<le> unat l" "unat l \<le> 0x30000000"
    by (auto simp: l_def Let_def word_less_nat_alt not_less)
  have "1024 \<le> unat l div 4096" using div_le_mono [OF l(1), of 4096] by simp
  moreover have "unat l div 4096 \<le> 196608" using div_le_mono [OF l(2), of 4096] by simp
  ultimately show ?thesis by (simp add: c unat_align_down)
qed

lemma discover_memory_limit_bounds:
  "discover_memory_limit ld mbi = Some l \<Longrightarrow>
     unat l mod 4096 = 0 \<and> 0x400000 \<le> unat l \<and> unat l \<le> 0x30000000"
  using clamp_memory_limit_bounds
  by (auto simp: discover_memory_limit_def split: option.splits)

lemma bit_all_ones: "k < 32 \<Longrightarrow> bit (0xFFFFFFFF :: int) k"
proof -
  assume k: "k < 32"
  have e: "(0xFFFFFFFF :: int) = mask 32" by (simp add: mask_eq_exp_minus_1)
  show ?thesis unfolding e bit_mask_iff using k by simp
qed

lemma pmm_inv_reset:
  assumes "unat l mod 4096 = 0" "unat l \<le> 0x30000000"
  shows "pmm_inv (pmm_reset l s)" "frees (pmm_reset l s) = {}"
proof -
  show f: "frees (pmm_reset l s) = {}"
    by (auto simp: frees_def pmm_reset_def bitmap_test_bit intro: bit_all_ones)
  have "unat l div 4096 \<le> 196608" using div_le_mono [OF assms(2), of 4096] by simp
  moreover have "push_bit 12 (drop_bit 12 l) = l"
  proof (rule unat_eqI)
    have "unat (drop_bit 12 l) < 0x100000" using unat_u32_lt [of l] by (simp add: unat_frame)
    then show "unat (push_bit 12 (drop_bit 12 l)) = unat l"
      using assms(1) by (auto simp: unat_frame_addr unat_frame)
  qed
  ultimately show "pmm_inv (pmm_reset l s)"
    by (simp add: pmm_inv_def f) (simp add: pmm_reset_def word_le_nat_alt unat_frame)
qed

lemma pmm_reset_fields [simp]:
  "managed_limit_phys (pmm_reset l s) = l" "managed_pages (pmm_reset l s) = drop_bit 12 l"
  by (simp_all add: pmm_reset_def)

definition pmm_kept :: "'a pmm_scheme \<Rightarrow> 'a pmm_scheme \<Rightarrow> bool" where
  "pmm_kept s t \<longleftrightarrow> pmm_inv t \<and> managed_limit_phys t = managed_limit_phys s
     \<and> managed_pages t = managed_pages s"

lemma mmap_free_entry_kept: "pmm_inv s \<Longrightarrow> pmm_kept s (mmap_free_entry e s)"
  by (simp add: pmm_kept_def mmap_free_entry_def Let_def pmm_inv_range)

lemma mmap_free_loop_kept:
  assumes "mmap_free_loop ld p e s = Some t"
  shows "pmm_inv s \<longrightarrow> pmm_kept s t"
proof (rule mmap_free_loop.raw_induct [of "\<lambda>ld p e s t. pmm_inv s \<longrightarrow> pmm_kept s t", OF _ assms], goal_cases)
  case (1 loop ld p e s t)
  show ?case
  proof (intro impI, cases "p < e")
    assume inv: "pmm_inv s"
    then have k: "pmm_kept s (mmap_free_entry (mmap_entry_at ld p) s)"
      by (rule mmap_free_entry_kept)
    assume "p < e"
    then have "loop ld (p + (me_size (mmap_entry_at ld p) + 4)) e (mmap_free_entry (mmap_entry_at ld p) s) = Some t"
      using 1(2) by simp
    then have "pmm_inv (mmap_free_entry (mmap_entry_at ld p) s) \<longrightarrow>
        pmm_kept (mmap_free_entry (mmap_entry_at ld p) s) t" by (rule 1(1))
    with k show "pmm_kept s t" by (simp add: pmm_kept_def)
  next
    assume "pmm_inv s" "\<not> p < e"
    then show "pmm_kept s t" using 1(2) by (simp add: pmm_kept_def)
  qed
qed

lemma pmm_free_regions_kept:
  "pmm_free_regions ld mbi s = Some t \<Longrightarrow> pmm_inv s \<Longrightarrow> pmm_kept s t"
  using mmap_free_loop_kept [of ld _ _ s t]
  by (auto simp: pmm_free_regions_def pmm_kept_def pmm_inv_range split: if_splits)

lemma pmm_init_cases:
  assumes "pmm_init ld mbi mbi_phys kstart kend s = Some t"
  obtains l u where "discover_memory_limit ld mbi = Some l"
    "pmm_kept (pmm_reset l s) u" "frees t = frees (pmm_reserve mbi mbi_phys kstart kend u)"
    "pmm_inv t = pmm_inv (pmm_reserve mbi mbi_phys kstart kend u)"
    "managed_limit_phys t = managed_limit_phys (pmm_reserve mbi mbi_phys kstart kend u)"
proof -
  obtain l u where l: "discover_memory_limit ld mbi = Some l"
    and u: "pmm_free_regions ld mbi (pmm_reset l s) = Some u"
    and t: "t = (pmm_reserve mbi mbi_phys kstart kend u)
               \<lparr>direct_map_limit_phys := (if PDE_ALIGN_UP l > MAX_DIRECT_MAP_PHYS
                  then MAX_DIRECT_MAP_PHYS else PDE_ALIGN_UP l)\<rparr>"
    using assms by (auto simp: pmm_init_def split: option.splits)
  have "pmm_inv (pmm_reset l s)"
    using discover_memory_limit_bounds [OF l] by (simp add: pmm_inv_reset)
  then show thesis
    using that [OF l pmm_free_regions_kept [OF u]] t by simp
qed

lemma pmm_reserve_fields:
  "managed_limit_phys (pmm_reserve mbi mbi_phys kstart kend s) = managed_limit_phys s"
  "managed_pages (pmm_reserve mbi mbi_phys kstart kend s) = managed_pages s"
  "pmm_inv s \<Longrightarrow> pmm_inv (pmm_reserve mbi mbi_phys kstart kend s)"
  by (simp_all add: pmm_reserve_def Let_def pmm_inv_range)

section \<open>Allocation\<close>

lemma word_le_step: "n \<le> k \<Longrightarrow> k \<noteq> n \<Longrightarrow> k < m \<Longrightarrow> n + 1 \<le> k" for n k m :: u32
  using unat_Suc_below [of n m] by (simp add: word_le_nat_alt word_less_nat_alt) (metis Suc_leI le_neq_implies_less unat_eqI)

declare pmm_scan.simps [simp del]

lemma pmm_scan_Some:
  "pmm_scan s a b sp n = Some i \<Longrightarrow>
     \<exists>k. k < sp \<and> i = a + ((b - a + k) mod sp) \<and> \<not> bitmap_test i s"
proof (induction s a b sp n rule: pmm_scan.induct)
  case (1 s a b sp n)
  have n: "n < sp" using 1(2) by (simp add: pmm_scan.simps split: if_splits)
  show ?case
  proof (cases "bitmap_test (a + ((b - a + n) mod sp)) s")
    case True
    then have "pmm_scan s a b sp (n + 1) = Some i"
      using 1(2) n by (simp add: pmm_scan.simps [of s a b sp n] Let_def)
    then show ?thesis using 1(1) [OF n refl] True by simp
  next
    case False
    then have "i = a + ((b - a + n) mod sp)"
      using 1(2) n by (simp add: pmm_scan.simps [of s a b sp n] Let_def)
    then show ?thesis using n False by blast
  qed
qed

lemma pmm_scan_None:
  "pmm_scan s a b sp n = None \<Longrightarrow> n \<le> k \<Longrightarrow> k < sp \<Longrightarrow> bitmap_test (a + ((b - a + k) mod sp)) s"
proof (induction s a b sp n rule: pmm_scan.induct)
  case (1 s a b sp n)
  have n: "n < sp" using 1(3,4) by simp
  then have t: "bitmap_test (a + ((b - a + n) mod sp)) s" "pmm_scan s a b sp (n + 1) = None"
    using 1(2) by (auto simp: pmm_scan.simps [of s a b sp n] Let_def split: if_splits)
  show ?case
  proof (cases "k = n")
    case True
    then show ?thesis using t(1) by simp
  next
    case False
    then show ?thesis using 1(1) [OF n refl] t 1(3,4) word_le_step [of n k sp] by simp
  qed
qed

lemma scan_covers:
  fixes x y sp :: u32
  assumes "unat sp \<le> 196608" "y < sp" "x < sp"
  shows "\<exists>k. k < sp \<and> (y + k) mod sp = x"
proof -
  have lt: "unat y < unat sp" "unat x < unat sp" using assms by (simp_all add: word_less_nat_alt)
  define k where "k = (unat x + (unat sp - unat y)) mod unat sp"
  have k: "k < unat sp" using lt by (simp add: k_def)
  have uk: "unat (of_nat k :: u32) = k" using k assms(1) by (simp add: unat_of_nat)
  have "unat (y + of_nat k) = unat y + k"
    using lt k assms(1) by (simp add: unat_word_ariths uk)
  then have "unat ((y + of_nat k) mod sp) = (unat y + k) mod unat sp"
    by (simp add: unat_mod_distrib)
  also have "\<dots> = unat x"
    using lt unfolding k_def mod_add_right_eq by simp
  finally have "(y + of_nat k) mod sp = x" by (rule unat_eqI)
  moreover have "of_nat k < sp" using k uk by (simp add: word_less_nat_alt)
  ultimately show ?thesis by blast
qed

lemma unat_min: "a \<le> b \<Longrightarrow> unat (b - a) = unat b - unat a" for a b :: u32
  by (simp add: unat_sub)

lemma pmm_alloc_from_spec:
  assumes inv: "pmm_inv s" and r: "pmm_alloc_from a e c0 s = (p, c, t)"
  shows "(p = 0 \<and> c = c0 \<and> t = s \<and> frees s \<inter> {i. a \<le> i \<and> i < e} = {})
    \<or> (\<exists>i \<in> frees s. a \<le> i \<and> i < e \<and> p = push_bit 12 i \<and> t = mark_page_used i s)"
proof -
  define e' where "e' = (if e > managed_pages s then managed_pages s else e)"
  have e'e: "i \<in> frees s \<Longrightarrow> i < e \<Longrightarrow> i < e'" for i by (simp add: frees_def e'_def)
  show ?thesis
  proof (cases "e' \<le> a")
    case True
    then have "(p, c, t) = (0, c0, s)" using r by (simp add: pmm_alloc_from_def e'_def)
    moreover have "frees s \<inter> {i. a \<le> i \<and> i < e} = {}"
    proof -
      { fix i assume "i \<in> frees s" "i < e" "a \<le> i"
        then have "i < a" using e'e [of i] True by simp
        with \<open>a \<le> i\<close> have False by simp }
      then show ?thesis by blast
    qed
    ultimately show ?thesis by simp
  next
    case False
    define b where "b = (if c0 < a \<or> c0 \<ge> e' then a else c0)"
    have ae: "a < e'" using False by simp
    have m: "e' \<le> managed_pages s" by (auto simp: e'_def)
    have sp: "unat (e' - a) = unat e' - unat a" using ae by (simp add: unat_sub)
    have b: "b - a < e' - a"
      using ae by (auto simp: b_def word_less_nat_alt unat_sub not_less word_le_nat_alt)
    have r': "pmm_alloc_from a e c0 s = (case pmm_scan s a b (e' - a) 0 of None \<Rightarrow> (0, c0, s)
         | Some idx \<Rightarrow> (push_bit 12 idx, pmm_cursor_next a e' idx, mark_page_used idx s))"
      unfolding pmm_alloc_from_def Let_def e'_def [symmetric] b_def [symmetric] using False by simp
    show ?thesis
    proof (cases "pmm_scan s a b (e' - a) 0")
      case None
      have "frees s \<inter> {i. a \<le> i \<and> i < e} = {}"
      proof -
        { fix i assume i: "i \<in> frees s" "a \<le> i" "i < e"
          have "i - a < e' - a" using e'e [OF i(1) i(3)] i(2) ae
            by (simp add: word_less_nat_alt unat_sub word_le_nat_alt)
          moreover have "unat (e' - a) \<le> 196608"
            using sp m pmm_inv_pages [OF inv] by (simp add: word_le_nat_alt)
          ultimately obtain k where "k < e' - a" "(b - a + k) mod (e' - a) = i - a"
            using scan_covers [OF _ b] by blast
          then have "bitmap_test i s" using pmm_scan_None [OF None, of k] by simp
          with i(1) have False by (simp add: frees_def) }
        then show ?thesis by blast
      qed
      then show ?thesis using r r' None by simp
    next
      case (Some i)
      then obtain k where k: "k < e' - a" "i = a + ((b - a + k) mod (e' - a))" "\<not> bitmap_test i s"
        using pmm_scan_Some by blast
      have "unat ((b - a + k) mod (e' - a)) < unat e' - unat a"
        using k(1) sp by (simp add: unat_mod_distrib word_less_nat_alt)
      then have ui: "unat i = unat a + unat ((b - a + k) mod (e' - a))" "unat i < unat e'"
        using k(2) unat_u32_lt [of e'] by (simp_all add: unat_word_ariths)
      have "i \<in> frees s" "a \<le> i" "i < e"
        using ui k(3) m by (auto simp: frees_def word_less_nat_alt word_le_nat_alt e'_def split: if_splits)
      then show ?thesis using r r' Some by auto
    qed
  qed
qed

section \<open>The allocator interface\<close>

text \<open>What the clients of the allocator (page tables, process table, drivers) rely
  on: the available frames form a finite set without 0, an allocation takes one
  of them or returns 0 when there is none, and a release puts the frame back.\<close>

fun alloc_many :: "('s \<Rightarrow> u32 \<times> 's) \<Rightarrow> nat \<Rightarrow> 's \<Rightarrow> u32 list \<times> 's" where
  "alloc_many alloc 0 s = ([], s)"
| "alloc_many alloc (Suc n) s =
     (case alloc s of (p, t) \<Rightarrow> (case alloc_many alloc n t of (ps, u) \<Rightarrow> (p # ps, u)))"

locale frame_allocator =
  fixes alloc :: "'s \<Rightarrow> u32 \<times> 's" and release :: "u32 \<Rightarrow> 's \<Rightarrow> 's"
    and avail :: "'s \<Rightarrow> u32 set" and frame :: "'s \<Rightarrow> u32 \<Rightarrow> bool" and inv :: "'s \<Rightarrow> bool"
  assumes no_zero: "0 \<notin> avail s"
    and avail_frame: "p \<in> avail s \<Longrightarrow> frame s p"
    and alloc_inv: "inv s \<Longrightarrow> alloc s = (p, t) \<Longrightarrow> inv t"
    and alloc_frame: "inv s \<Longrightarrow> alloc s = (p, t) \<Longrightarrow> frame t = frame s"
    and alloc_hit: "inv s \<Longrightarrow> alloc s = (p, t) \<Longrightarrow> avail s \<noteq> {} \<Longrightarrow>
      p \<in> avail s \<and> avail t = avail s - {p}"
    and alloc_miss: "inv s \<Longrightarrow> avail s = {} \<Longrightarrow> alloc s = (0, s)"
    and release_inv: "inv s \<Longrightarrow> inv (release p s)"
    and release_avail: "inv s \<Longrightarrow> frame s p \<Longrightarrow> avail (release p s) = insert p (avail s)"
begin

lemma alloc_many_spec:
  "inv s \<Longrightarrow> alloc_many alloc n s = (ps, t) \<Longrightarrow> k = min n (card (avail s)) \<Longrightarrow>
     distinct (take k ps) \<and> set (take k ps) \<subseteq> avail s \<and> drop k ps = replicate (n - k) 0
     \<and> length ps = n \<and> avail t = avail s - set (take k ps) \<and> inv t"
proof (induction n arbitrary: s ps t k)
  case 0
  then show ?case by simp
next
  case (Suc n)
  obtain p u where a: "alloc s = (p, u)" by fastforce
  obtain qs where q: "alloc_many alloc n u = (qs, t)" "ps = p # qs"
    using Suc.prems(2) a by (auto split: prod.splits)
  have inv: "inv u" using alloc_inv [OF Suc.prems(1) a] .
  show ?case
  proof (cases "avail s = {}")
    case True
    then have e: "p = 0" "u = s" using alloc_miss [OF Suc.prems(1)] a by auto
    then have "qs = replicate n 0 \<and> avail t = {} \<and> inv t"
      using Suc.IH [OF Suc.prems(1), of qs t 0] q(1) True by simp
    then show ?thesis using q(2) e True Suc.prems(3) by simp
  next
    case False
    then have h: "p \<in> avail s" "avail u = avail s - {p}" using alloc_hit [OF Suc.prems(1) a] by auto
    have "card (avail s) = Suc (card (avail u))" using card_Suc_Diff1 [of "avail s" p] h by simp
    then have k: "k = Suc (min n (card (avail u)))" using Suc.prems(3) by simp
    show ?thesis
      using Suc.IH [OF inv q(1) refl] h by (auto simp: k q(2) dest: in_set_takeD)
  qed
qed

lemma release_undoes_alloc:
  "inv s \<Longrightarrow> alloc s = (p, t) \<Longrightarrow> p \<noteq> 0 \<Longrightarrow> avail (release p t) = avail s"
proof (cases "avail s = {}")
  case True
  assume "inv s" "alloc s = (p, t)" "p \<noteq> 0"
  with alloc_miss True have False by simp
  then show ?thesis ..
next
  case False
  assume a: "inv s" "alloc s = (p, t)"
  have h: "p \<in> avail s" "avail t = avail s - {p}" using alloc_hit [OF a False] by auto
  have "frame t p" using avail_frame [OF h(1)] alloc_frame [OF a] by simp
  then show ?thesis using release_avail [OF alloc_inv [OF a]] h by auto
qed

end

definition usable :: "'a pmm_scheme \<Rightarrow> u32 set" where
  "usable s = push_bit 12 ` (frees s \<inter> {i. 0x100 \<le> i \<and> i < 0x30000})"

definition managed_frame :: "'a pmm_scheme \<Rightarrow> u32 \<Rightarrow> bool" where
  "managed_frame s p \<longleftrightarrow> p AND 0xFFF = 0 \<and> 0x100 \<le> drop_bit 12 p
     \<and> drop_bit 12 p < managed_pages s \<and> drop_bit 12 p < 0x30000"

lemma frame_addr_inj: "inj_on (push_bit 12) {i :: u32. i < 0x30000}"
  by (rule inj_on_inverseI [where g = "drop_bit 12"]) (simp add: word_less_nat_alt)

lemma usable_frame: "push_bit 12 (drop_bit 12 x) \<in> usable s \<Longrightarrow> drop_bit 12 x \<in> frees s"
proof -
  assume "push_bit 12 (drop_bit 12 x) \<in> usable s"
  then obtain i where i: "push_bit 12 (drop_bit 12 x) = push_bit 12 i" "i \<in> frees s" "i < 0x30000"
    by (auto simp: usable_def)
  have "unat (drop_bit 12 x) < 0x100000" using unat_u32_lt [of x] by (simp add: unat_frame)
  then have "drop_bit 12 x = drop_bit 12 (push_bit 12 (drop_bit 12 x))" by simp
  also have "\<dots> = i" unfolding i(1) using i(3) by (simp add: word_less_nat_alt)
  finally show ?thesis using i(2) by simp
qed

lemma managed_frame_addr:
  "i < 0x30000 \<Longrightarrow> managed_frame s (push_bit 12 i) \<longleftrightarrow> 0x100 \<le> i \<and> i < managed_pages s"
  by (simp add: managed_frame_def word_less_nat_alt)

lemma pmm_alloc_page_cases:
  assumes inv: "pmm_inv s" and r: "pmm_alloc_page s = (p, t)"
  obtains (miss) "p = 0" "t = s" "usable s = {}"
  | (hit) i c where "i \<in> frees s" "0x100 \<le> i" "i < 0x30000" "p = push_bit 12 i"
      "t = (mark_page_used i s)\<lparr>next_page_idx := c\<rparr>" "p \<in> usable s" "usable t = usable s - {p}"
proof -
  obtain c u where a: "pmm_alloc_from 0x100 (managed_pages s) (next_page_idx s) s = (p, c, u)"
      "t = u\<lparr>next_page_idx := c\<rparr>"
    using r by (auto simp: pmm_alloc_page_def split: prod.splits)
  from pmm_alloc_from_spec [OF inv a(1)] show thesis
  proof (elim disjE conjE bexE)
    assume "p = 0" "c = next_page_idx s" "u = s"
      and e: "frees s \<inter> {i. 0x100 \<le> i \<and> i < managed_pages s} = {}"
    moreover have "usable s = {}" using e by (auto simp: usable_def frees_def)
    ultimately show thesis using miss a(2) by simp
  next
    fix i assume i: "i \<in> frees s" "0x100 \<le> i" "p = push_bit 12 i" "u = mark_page_used i s"
    have lt: "i < 0x30000" using frees_lt [OF inv i(1)] by (simp add: word_less_nat_alt)
    have "usable t = usable s - {p}"
      using inj_on_image_set_diff [OF frame_addr_inj, of "frees s \<inter> {i. 0x100 \<le> i \<and> i < 0x30000}" "{i}"] lt
      by (simp add: a(2) i usable_def frees_mark_used Diff_Int_distrib2 Int_Diff Int_commute)
         (simp add: Int_Diff Diff_Int_distrib2 subset_iff)
    moreover have "p \<in> usable s" using i lt by (auto simp: usable_def)
    ultimately show thesis using hit i lt a(2) by blast
  qed
qed

lemma pmm_inv_alloc [inv_intros]: "pmm_inv s \<Longrightarrow> pmm_alloc_page s = (p, t) \<Longrightarrow> pmm_inv t"
  by (frule (1) pmm_alloc_page_cases) (simp_all add: pmm_inv_mark_used)

lemma pmm_inv_free [inv_intros]: "pmm_inv s \<Longrightarrow> pmm_inv (pmm_free_page p s)"
  by (simp add: pmm_free_page_def pmm_inv_mark_free)

lemma usable_free_page:
  assumes inv: "pmm_inv s" and f: "managed_frame s p"
  shows "usable (pmm_free_page p s) = insert p (usable s)"
proof -
  define i where "i = drop_bit 12 p"
  have i: "i < managed_pages s" "0x100 \<le> i" "i < 0x30000" "p = push_bit 12 i"
    using f by (simp_all add: managed_frame_def i_def aligned_frame)
  have ui: "unat i < 196608" using i(3) by (simp add: word_less_nat_alt)
  have "unat p < unat (managed_limit_phys s)"
    using inv i(1) pmm_inv_pages [OF inv] ui
    by (simp add: pmm_inv_def i(4) unat_frame_addr word_less_nat_alt)
  then have "pmm_free_page p s = mark_page_free i s"
    using ui by (simp add: pmm_free_page_def i(4) word_le_nat_alt)
  then show ?thesis using i by (auto simp: usable_def frees_mark_free)
qed

interpretation pages: frame_allocator pmm_alloc_page pmm_free_page usable managed_frame pmm_inv
proof (unfold_locales, goal_cases)
  case (1 s)
  { fix i :: u32 assume "0x100 \<le> i" "i < 0x30000"
    then have "unat (push_bit 12 i) \<noteq> 0" by (simp add: unat_frame_addr word_less_nat_alt word_le_nat_alt)
    then have "push_bit 12 i \<noteq> 0" by auto }
  then show ?case by (force simp: usable_def)
next
  case (2 p s)
  then show ?case by (auto simp: usable_def managed_frame_addr frees_def)
next
  case (3 s p t)
  then show ?case by (rule pmm_inv_alloc)
next
  case (4 s p t)
  then show ?case
    by (rule pmm_alloc_page_cases) (auto simp: fun_eq_iff managed_frame_def)
next
  case (5 s p t)
  then show ?case by (auto elim: pmm_alloc_page_cases)
next
  case (6 s)
  obtain p t where a: "pmm_alloc_page s = (p, t)" by fastforce
  then show ?case using 6 by (auto elim: pmm_alloc_page_cases)
next
  case (7 s p)
  then show ?case by (rule pmm_inv_free)
next
  case (8 s p)
  then show ?case by (rule usable_free_page)
qed

section \<open>Reference counts\<close>

lemma page_ref_fields [simp]:
  "frees (page_ref_inc p s) = frees s" "managed_pages (page_ref_inc p s) = managed_pages s"
  "managed_limit_phys (page_ref_inc p s) = managed_limit_phys s"
  "free_page_count (page_ref_inc p s) = free_page_count s"
  by (simp_all add: page_ref_inc_def Let_def)

lemma page_ref_dec_fields:
  "page_ref_dec p s = (r, t) \<Longrightarrow> frees t = frees s \<and> managed_pages t = managed_pages s
     \<and> managed_limit_phys t = managed_limit_phys s \<and> free_page_count t = free_page_count s"
  by (auto simp: page_ref_dec_def Let_def split: if_splits)

text \<open>Counting a reference keeps the invariant when the page is in use: a free page
  has count 0 and must not be counted.\<close>

lemma pmm_inv_ref_inc [inv_intros]:
  "pmm_inv s \<Longrightarrow> drop_bit 12 p \<notin> frees s \<Longrightarrow> pmm_inv (page_ref_inc p s)"
  unfolding pmm_inv_def page_ref_fields
  by (auto simp: page_ref_inc_def Let_def dest: unat_eqI)

lemma page_ref_dec_zero: "page_ref_dec p s = (r, t) \<Longrightarrow> page_refcnt s i = 0 \<Longrightarrow> page_refcnt t i = 0"
  by (auto simp: page_ref_dec_def Let_def split: if_splits)

lemma pmm_inv_ref_dec [inv_intros]: "pmm_inv s \<Longrightarrow> page_ref_dec p s = (r, t) \<Longrightarrow> pmm_inv t"
  using page_ref_dec_fields [of p s r t] page_ref_dec_zero [of p s r t]
  by (simp add: pmm_inv_def)

lemma page_ref_dec_inc:
  assumes ok: "page_ref_ok p s" and b: "page_refcnt s (unat (drop_bit 12 p)) < 250"
  shows "page_ref_dec p (page_ref_inc p s) = (page_ref_get p s, s)"
proof -
  define c where "c = page_refcnt s (unat (drop_bit 12 p))"
  have "unat (c + 1) = unat c + 1"
    using b by (simp add: c_def word_less_nat_alt unat_word_ariths)
  then have "c + 1 \<noteq> 0" by force
  moreover have "\<not> 250 \<le> c" using b by (simp add: c_def)
  ultimately show ?thesis using ok
    by (simp add: page_ref_dec_def page_ref_inc_def page_ref_get_def page_ref_ok_def Let_def c_def)
qed

section \<open>Properties\<close>

text \<open>Property C7: repeated allocation hands out the free frames from 1 MiB upward,
  each at most once, and returns 0 exactly when none is left: of \<open>n\<close> calls the first
  \<open>min n (number of free frames)\<close> return pairwise distinct free frames, the remaining
  ones return 0, and what stays free is what was not handed out.\<close>

theorem pmm_allocs_distinct:
  assumes "pmm_inv s" "alloc_many pmm_alloc_page n s = (ps, t)" "k = min n (card (usable s))"
  shows "distinct (take k ps) \<and> set (take k ps) \<subseteq> usable s \<and> drop k ps = replicate (n - k) 0
     \<and> length ps = n \<and> usable t = usable s - set (take k ps) \<and> pmm_inv t"
  by (rule pages.alloc_many_spec [OF assms])

definition pmm_blank :: pmm where
  "pmm_blank = \<lparr>pmm_bitmap = (\<lambda>_. 0), page_refcnt = (\<lambda>_. 0), managed_pages = 0, free_page_count = 0,
     next_page_idx = 0, next_dma_page_idx = 0, managed_limit_phys = 0, direct_map_limit_phys = 0,
     mem_top_kb = 0, refcnt_overflow_warned = False\<rparr>"

definition pmm_demo :: pmm where
  "pmm_demo = mark_page_free 0x101 (mark_page_free 0x100 (pmm_reset 0x400000 pmm_blank))"

lemma pmm_demo_inv: "pmm_inv pmm_demo"
  by (simp add: pmm_demo_def pmm_inv_mark_free pmm_inv_reset)

lemma pmm_demo_usable: "usable pmm_demo = {0x100000, 0x101000}"
  by (simp add: usable_def pmm_demo_def frees_mark_free pmm_inv_reset) auto

theorem pmm_allocs_distinct_witness:
  "\<exists>p q t. alloc_many pmm_alloc_page 3 pmm_demo = ([p, q, 0], t) \<and> p \<noteq> q
     \<and> {p, q} \<subseteq> {0x100000, 0x101000} \<and> usable t = {}"
proof -
  obtain ps t where r: "alloc_many pmm_alloc_page 3 pmm_demo = (ps, t)" by fastforce
  from pmm_allocs_distinct [OF pmm_demo_inv r refl]
  have d: "distinct (take (Suc (Suc 0)) ps)" "set (take (Suc (Suc 0)) ps) \<subseteq> {0x100000, 0x101000}"
    "drop (Suc (Suc 0)) ps = [0]" "length ps = 3"
    "usable t = {0x100000, 0x101000} - set (take (Suc (Suc 0)) ps)"
    by (simp_all add: pmm_demo_usable)
  then obtain p q where "ps = [p, q, 0]"
    by (auto simp: numeral_3_eq_3 length_Suc_conv)
  with d r show ?thesis by auto
qed

definition boot_reserved :: "multiboot_info \<Rightarrow> u32 \<Rightarrow> u32 \<Rightarrow> u32 \<Rightarrow> u32 \<Rightarrow> bool" where
  "boot_reserved mbi mbi_phys kstart kend x \<longleftrightarrow>
     x < 0x100000 \<or> kstart \<le> x \<and> x < kend \<or> mbi_phys \<le> x \<and> x < mbi_phys + 0x1000
     \<or> (mb_flags mbi AND MULTIBOOT_INFO_MEM_MAP) \<noteq> 0 \<and> mmap_addr mbi \<le> x
       \<and> x < mmap_addr mbi + mmap_length mbi"

lemma range_used_excludes:
  assumes "unat (managed_limit_phys s) \<le> 0x30000000" "b \<le> 0xFFFFF000"
    and "a \<le> x" "x < b" "x < managed_limit_phys s" "frees u \<subseteq> frees (mark_range_used a b s)"
  shows "drop_bit 12 x \<notin> frees u"
proof -
  have "unat b + 4095 < 0x100000000" using assms(2) by (simp add: word_le_nat_alt)
  then show ?thesis using frees_range_used [OF assms(1) _ assms(3-5)] assms(6) by blast
qed

lemma pmm_reserve_excludes:
  assumes lim: "unat (managed_limit_phys s) \<le> 0x30000000"
    and fit: "kend \<le> 0xFFFFF000" "mbi_phys + 0x1000 \<le> 0xFFFFF000"
      "mmap_addr mbi + mmap_length mbi \<le> 0xFFFFF000"
    and x: "boot_reserved mbi mbi_phys kstart kend x" and xl: "x < managed_limit_phys s"
  shows "drop_bit 12 x \<notin> frees (pmm_reserve mbi mbi_phys kstart kend s)" (is "_ \<notin> frees ?r")
proof -
  define v where "v = mark_range_used 0 0x00100000 s"
  define w where "w = mark_range_used kstart kend v"
  define y where "y = mark_range_used mbi_phys (mbi_phys + 0x1000) w"
  have r: "?r = (if (mb_flags mbi AND MULTIBOOT_INFO_MEM_MAP) \<noteq> 0
         then mark_range_used (mmap_addr mbi) (mmap_addr mbi + mmap_length mbi) y else y)"
    by (simp add: pmm_reserve_def v_def w_def y_def Let_def)
  have m: "frees w \<subseteq> frees v" "frees y \<subseteq> frees w" "frees ?r \<subseteq> frees y"
    using frees_range_used_mono unfolding r by (auto simp: w_def y_def)
  have l: "managed_limit_phys v = managed_limit_phys s" "managed_limit_phys w = managed_limit_phys s"
    "managed_limit_phys y = managed_limit_phys s"
    by (simp_all add: v_def w_def y_def)
  from x [unfolded boot_reserved_def] show ?thesis
  proof (elim disjE conjE)
    assume "x < 0x100000"
    then show ?thesis
      using range_used_excludes [of s "0x100000" 0 x ?r] lim xl m v_def by auto
  next
    assume "kstart \<le> x" "x < kend"
    then show ?thesis using range_used_excludes [of v kend kstart x ?r] lim xl m l fit w_def by auto
  next
    assume "mbi_phys \<le> x" "x < mbi_phys + 0x1000"
    then show ?thesis
      using range_used_excludes [of w "mbi_phys + 0x1000" mbi_phys x ?r] lim xl m l fit y_def by auto
  next
    assume "(mb_flags mbi AND MULTIBOOT_INFO_MEM_MAP) \<noteq> 0" "mmap_addr mbi \<le> x"
      "x < mmap_addr mbi + mmap_length mbi"
    then show ?thesis
      using range_used_excludes [of y "mmap_addr mbi + mmap_length mbi" "mmap_addr mbi" x ?r]
        lim xl l fit r by auto
  qed
qed

text \<open>Property C28: after boot initialisation no usable frame contains an address of
  the first megabyte, of the kernel image, of the page of the boot information or of
  the boot loader's memory map, whatever regions that map calls available.\<close>

theorem pmm_init_reserves:
  assumes init: "pmm_init ld mbi mbi_phys kstart kend s = Some t"
    and fit: "kend \<le> 0xFFFFF000" "mbi_phys + 0x1000 \<le> 0xFFFFF000"
      "mmap_addr mbi + mmap_length mbi \<le> 0xFFFFF000"
    and x: "boot_reserved mbi mbi_phys kstart kend x"
  shows "push_bit 12 (drop_bit 12 x) \<notin> usable t"
proof -
  obtain l u where l: "discover_memory_limit ld mbi = Some l" and k: "pmm_kept (pmm_reset l s) u"
    and f: "frees t = frees (pmm_reserve mbi mbi_phys kstart kend u)"
    using pmm_init_cases [OF init] by blast
  have lim: "unat (managed_limit_phys u) \<le> 0x30000000"
    using k discover_memory_limit_bounds [OF l] by (simp add: pmm_kept_def)
  have "drop_bit 12 x \<notin> frees t" if "x < managed_limit_phys u"
    unfolding f by (rule pmm_reserve_excludes [OF lim fit x that])
  moreover have "x < managed_limit_phys u" if i: "drop_bit 12 x \<in> frees t"
  proof -
    have "unat x div 4096 < unat (managed_pages u)"
      using i k unfolding f by (simp add: frees_def pmm_reserve_fields word_less_nat_alt unat_frame)
    moreover have "unat (managed_limit_phys u) = unat (managed_pages u) * 4096"
      using k pmm_limit_pages [of u] by (simp add: pmm_kept_def)
    ultimately show ?thesis
      using div_mult_mod_eq [of "unat x" 4096] mod_less_divisor [of 4096 "unat x"]
      unfolding word_less_nat_alt by linarith
  qed
  ultimately have "drop_bit 12 x \<notin> frees t" by blast
  then show ?thesis using usable_frame [of x t] by blast
qed

theorem pmm_init_reserves_witness:
  "\<exists>t. pmm_init (\<lambda>_. 0) \<lparr>mb_flags = 1, mem_lower = 640, mem_upper = 31744, mmap_length = 0, mmap_addr = 0\<rparr>
        0x9000 0x100000 0x180000 pmm_blank = Some t \<and> 0x150000 \<notin> usable t"
proof -
  define mbi where "mbi = \<lparr>mb_flags = 1, mem_lower = 640, mem_upper = 31744, mmap_length = 0, mmap_addr = 0\<rparr>"
  obtain t where t: "pmm_init (\<lambda>_. 0) mbi 0x9000 0x100000 0x180000 pmm_blank = Some t"
    by (simp add: pmm_init_def mbi_def discover_memory_limit_def pmm_free_regions_def)
  have "push_bit 12 (drop_bit 12 0x150000) \<notin> usable t"
    by (rule pmm_init_reserves [OF t]) (simp_all add: boot_reserved_def mbi_def)
  with t show ?thesis by (auto simp: mbi_def)
qed

end
