(* ===== verification/Paging.thy ===== *)
theory Paging
  imports Pmm
begin

text \<open>
  Page tables and copy-on-write address spaces, \<^verbatim>\<open>src/kernel/paging.c\<close>: the
  kernel page directory, \<open>map_page\<close>, \<open>ioremap\<close>, the check of user pointers, and
  the clone, destroy and write-fault operations of copy-on-write fork.

  Physical memory is a function of the frame address and the index of a 32-bit
  word in the frame: page directories, page tables and data pages live there, as
  in the direct map the code reads them through.  \<open>kernel_page_directory\<close> is the
  frame \<open>kernel_pd\<close> of the kernel image.  A pointer to a page-table entry is the
  pair of its frame and its index.  \<open>invlpg\<close>, the reloads of CR3 that only flush
  the TLB, and console output are omitted; the switch of CR3 is the field \<open>cr3\<close>.
\<close>

named_theorems pg_simps \<open>rewrite rules of the page-table operations\<close>

section \<open>Constants\<close>

abbreviation (input) "PAGE_PRESENT \<equiv> (0x001 :: u32)"
abbreviation (input) "PAGE_RW \<equiv> (0x002 :: u32)"
abbreviation (input) "PAGE_USER \<equiv> (0x004 :: u32)"
abbreviation (input) "PAGE_PWT \<equiv> (0x008 :: u32)"
abbreviation (input) "PAGE_PCD \<equiv> (0x010 :: u32)"
abbreviation (input) "PAGE_ACCESSED \<equiv> (0x020 :: u32)"
abbreviation (input) "PAGE_DIRTY \<equiv> (0x040 :: u32)"
abbreviation (input) "PAGE_PSE \<equiv> (0x080 :: u32)"
abbreviation (input) "PAGE_GLOBAL \<equiv> (0x100 :: u32)"
abbreviation (input) "PAGE_COW \<equiv> (0x800 :: u32)"
abbreviation (input) "PAGE_FRAME_MASK \<equiv> (0xFFFFF000 :: u32)"

section \<open>State\<close>

record paging = pmm +
  pmem :: "u32 \<Rightarrow> nat \<Rightarrow> u32"
  kernel_pd :: u32
  kernel_pd_phys_cache :: u32
  cr3 :: u32
  ioremap_next :: u32
  final_paging_active :: bool

definition PDE_INDEX :: "u32 \<Rightarrow> nat" where
  "PDE_INDEX x = unat (drop_bit 22 x AND 0x3FF)"

definition PTE_INDEX :: "u32 \<Rightarrow> nat" where
  "PTE_INDEX x = unat (drop_bit 12 x AND 0x3FF)"

text \<open>\<open>pt->entries[i] = v\<close>, and \<open>memset(pt, 0, sizeof(*pt))\<close>.\<close>

definition pm_set :: "u32 \<Rightarrow> nat \<Rightarrow> u32 \<Rightarrow> 'a paging_scheme \<Rightarrow> 'a paging_scheme" where
  "pm_set f i v s = s\<lparr>pmem := (pmem s)(f := (pmem s f)(i := v))\<rparr>"

definition pm_zero :: "u32 \<Rightarrow> 'a paging_scheme \<Rightarrow> 'a paging_scheme" where
  "pm_zero f s = s\<lparr>pmem := (pmem s)(f := (\<lambda>_. 0))\<rparr>"

definition pm_copy :: "u32 \<Rightarrow> u32 \<Rightarrow> 'a paging_scheme \<Rightarrow> 'a paging_scheme" where
  "pm_copy dst src s = s\<lparr>pmem := (pmem s)(dst := pmem s src)\<rparr>"

definition pt_leaf :: "u32 \<Rightarrow> bool" where
  "pt_leaf pde = ((pde AND PAGE_PRESENT) = 0 \<or> (pde AND PAGE_PSE) \<noteq> 0)"

definition walk_pte :: "'a paging_scheme \<Rightarrow> u32 \<Rightarrow> u32 \<Rightarrow> (u32 \<times> nat) option" where
  "walk_pte s pd_phys va =
     (let pde = pmem s pd_phys (PDE_INDEX va) in
      if pt_leaf pde then None else Some (pde AND PAGE_FRAME_MASK, PTE_INDEX va))"

section \<open>The kernel page directory\<close>

definition build_kernel_page_directory :: "'a paging_scheme \<Rightarrow> 'a paging_scheme" where
  "build_kernel_page_directory s =
     fold (\<lambda>k. pm_set (kernel_pd s) (PDE_INDEX (KERNEL_VIRT_BASE + of_nat k * PDE_SIZE))
         (of_nat k * PDE_SIZE OR PAGE_PRESENT OR PAGE_RW OR PAGE_PSE OR PAGE_GLOBAL))
       [0..<(unat (direct_map_limit_phys s) + 0x3FFFFF) div 0x400000]
       (pm_zero (kernel_pd s) s)"

definition paging_init ::
  "(u32 \<Rightarrow> u32) \<Rightarrow> multiboot_info \<Rightarrow> u32 \<Rightarrow> u32 \<Rightarrow> u32 \<Rightarrow> 'a paging_scheme \<Rightarrow> 'a paging_scheme option" where
  "paging_init ld mbi mbi_phys kstart kend s =
     (case pmm_init ld mbi mbi_phys kstart kend s of None \<Rightarrow> None
      | Some t \<Rightarrow>
          (let t = build_kernel_page_directory t;
               t = t\<lparr>kernel_pd_phys_cache := kernel_pd t\<rparr>
           in Some (t\<lparr>cr3 := kernel_pd_phys_cache t, final_paging_active := True\<rparr>)))"

definition map_page :: "u32 \<Rightarrow> u32 \<Rightarrow> u32 \<Rightarrow> 'a paging_scheme \<Rightarrow> int \<times> 'a paging_scheme" where
  "map_page virt phys flags s =
     (if \<not> final_paging_active s then (- 1, s)
      else if ((virt OR phys) AND (PAGE_SIZE - 1)) \<noteq> 0 then (- 2, s)
      else
        let pdi = PDE_INDEX virt; pti = PTE_INDEX virt; pde = pmem s (kernel_pd s) pdi;
            pte = ((phys AND PAGE_FRAME_MASK) OR PAGE_PRESENT OR
              (flags AND (PAGE_RW OR PAGE_USER OR PAGE_PWT OR PAGE_PCD OR PAGE_GLOBAL)))
        in
        if (pde AND PAGE_PRESENT) \<noteq> 0 \<and> (pde AND PAGE_PSE) \<noteq> 0 then (- 3, s)
        else if (pde AND PAGE_PRESENT) = 0 then
          (case pmm_alloc_page s of (pt_phys, t) \<Rightarrow>
             if pt_phys = 0 then (- 4, t)
             else
               let t = pm_zero pt_phys t;
                   t = pm_set (kernel_pd t) pdi (pt_phys OR PAGE_PRESENT OR PAGE_RW OR
                         (flags AND (PAGE_USER OR PAGE_PWT OR PAGE_PCD))) t
               in (0, pm_set pt_phys pti pte t))
        else (0, pm_set (pde AND PAGE_FRAME_MASK) pti pte s))"

section \<open>The check of user pointers\<close>

definition user_page_ok :: "'a paging_scheme \<Rightarrow> u32 \<Rightarrow> bool \<Rightarrow> bool" where
  "user_page_ok s p w =
     (let d = pmem s (cr3 s) (PDE_INDEX p) in
      if (d AND PAGE_PRESENT) = 0 \<or> (d AND PAGE_USER) = 0 then False
      else if (d AND PAGE_PSE) \<noteq> 0 then True
      else
        let x = pmem s (d AND PAGE_FRAME_MASK) (PTE_INDEX p) in
        \<not> ((x AND PAGE_PRESENT) = 0 \<or> (x AND PAGE_USER) = 0 \<or>
           (w \<and> (x AND PAGE_RW) = 0 \<and> (x AND PAGE_COW) = 0)))"

text \<open>The page loop of \<open>user_access_ok\<close>; its cursor may wrap at the top of the
  address space, so a loop that does not end is \<open>None\<close>.\<close>

partial_function (option) user_pages_ok ::
  "'a paging_scheme \<Rightarrow> u32 \<Rightarrow> u32 \<Rightarrow> bool \<Rightarrow> bool option" where
  "user_pages_ok s p e w =
     (if p < e then
        (if \<not> user_page_ok s p w then Some False
         else user_pages_ok s ((p AND NOT (PAGE_SIZE - 1)) + PAGE_SIZE) e w)
      else Some True)"

definition user_access_ok :: "'a paging_scheme \<Rightarrow> u32 \<Rightarrow> u32 \<Rightarrow> bool \<Rightarrow> bool option" where
  "user_access_ok s v n w =
     (if n = 0 then Some True
      else if v < 0x1000 \<or> n > 0xBFC00000 - v then Some False
      else user_pages_ok s v (v + n) w)"

section \<open>Device mappings\<close>

fun ioremap_pages :: "nat list \<Rightarrow> u32 \<Rightarrow> u32 \<Rightarrow> u32 \<Rightarrow> 'a paging_scheme \<Rightarrow> bool \<times> 'a paging_scheme" where
  "ioremap_pages [] virt phys_page flags s = (True, s)"
| "ioremap_pages (k # ks) virt phys_page flags s =
     (case map_page (virt + of_nat k * PAGE_SIZE) (phys_page + of_nat k * PAGE_SIZE) flags s of
        (r, t) \<Rightarrow> if r \<noteq> 0 then (False, t) else ioremap_pages ks virt phys_page flags t)"

text \<open>The null pointer is 0.\<close>

definition ioremap :: "u32 \<Rightarrow> u32 \<Rightarrow> u32 \<Rightarrow> 'a paging_scheme \<Rightarrow> u32 \<times> 'a paging_scheme" where
  "ioremap phys len flags s =
     (if len = 0 then (0, s)
      else
        let page_off = phys AND (PAGE_SIZE - 1); phys_page = align_down phys PAGE_SIZE;
            total = align_up (len + page_off) PAGE_SIZE; virt = ioremap_next s
        in
        if virt + total < virt \<or> virt + total > IOREMAP_BASE + IOREMAP_SIZE then (0, s)
        else
          (case ioremap_pages [0..<unat total div 4096] virt phys_page
                  (flags OR PAGE_PRESENT OR PAGE_RW OR PAGE_PCD) s of
             (ok, t) \<Rightarrow> if ok then (virt + page_off, t\<lparr>ioremap_next := ioremap_next t + total\<rparr>)
                       else (0, t)))"

section \<open>Copy-on-write address spaces\<close>

definition paging_kernel_pd_phys :: "'a paging_scheme \<Rightarrow> u32" where
  "paging_kernel_pd_phys s = kernel_pd_phys_cache s"

definition user_pdis :: "nat list" where
  "user_pdis = [0..<768]"

definition kernel_pdis :: "nat list" where
  "kernel_pdis = [768..<1024]"

definition destroy_pte :: "u32 \<Rightarrow> nat \<Rightarrow> 'a paging_scheme \<Rightarrow> 'a paging_scheme" where
  "destroy_pte pt_phys pti s =
     (let pte = pmem s pt_phys pti in
      if (pte AND PAGE_PRESENT) = 0 then s
      else (case page_ref_dec (pte AND PAGE_FRAME_MASK) s of
              (r, t) \<Rightarrow> if r = 0 then pmm_free_page (pte AND PAGE_FRAME_MASK) t else t))"

definition destroy_pde :: "u32 \<Rightarrow> nat \<Rightarrow> 'a paging_scheme \<Rightarrow> 'a paging_scheme" where
  "destroy_pde pd_phys pdi s =
     (let pde = pmem s pd_phys pdi in
      if pt_leaf pde then s
      else
        let pt_phys = pde AND PAGE_FRAME_MASK
        in pm_set pd_phys pdi 0 (pmm_free_page pt_phys (fold (destroy_pte pt_phys) [0..<1024] s)))"

definition paging_destroy_address_space :: "u32 \<Rightarrow> 'a paging_scheme \<Rightarrow> 'a paging_scheme" where
  "paging_destroy_address_space pd_phys s =
     (if pd_phys = 0 \<or> (pd_phys AND (PAGE_SIZE - 1)) \<noteq> 0 then s
      else if pd_phys = kernel_pd_phys_cache s then s
      else if pd_phys = cr3 s then s
      else pmm_free_page pd_phys (fold (destroy_pde pd_phys) user_pdis s))"

definition cow_writable :: "u32 \<Rightarrow> bool" where
  "cow_writable pte = ((pte AND PAGE_USER) \<noteq> 0 \<and> (pte AND PAGE_RW) \<noteq> 0)"

definition cow_entry :: "u32 \<Rightarrow> u32" where
  "cow_entry pte = ((pte AND PAGE_FRAME_MASK) OR PAGE_PRESENT OR PAGE_USER OR PAGE_COW)"

definition clone_pte :: "u32 \<Rightarrow> u32 \<Rightarrow> nat \<Rightarrow> 'a paging_scheme \<Rightarrow> 'a paging_scheme" where
  "clone_pte ppt cpt pti s =
     (let pte = pmem s ppt pti in
      if (pte AND PAGE_PRESENT) = 0 then pm_set cpt pti 0 s
      else page_ref_inc (pte AND PAGE_FRAME_MASK)
        (if cow_writable pte then pm_set ppt pti (cow_entry pte) (pm_set cpt pti (cow_entry pte) s)
         else pm_set cpt pti pte s))"

text \<open>The loop over the user half; \<open>Some pdi\<close> is the index at which no page table
  could be allocated.\<close>

fun clone_pdes :: "nat list \<Rightarrow> u32 \<Rightarrow> u32 \<Rightarrow> 'a paging_scheme \<Rightarrow> nat option \<times> 'a paging_scheme" where
  "clone_pdes [] ppd cpd s = (None, s)"
| "clone_pdes (pdi # r) ppd cpd s =
     (let pde = pmem s ppd pdi in
      if pt_leaf pde then clone_pdes r ppd cpd s
      else
        (case pmm_alloc_page s of (pt_phys, t) \<Rightarrow>
           if pt_phys = 0 then (Some pdi, t)
           else clone_pdes r ppd cpd
             (fold (clone_pte (pde AND PAGE_FRAME_MASK) pt_phys) [0..<1024]
               (pm_set cpd pdi (pt_phys OR PAGE_PRESENT OR PAGE_RW OR
                  (pde AND (PAGE_USER OR PAGE_PWT OR PAGE_PCD))) t))))"

definition rollback_pte :: "u32 \<Rightarrow> (u32 \<times> nat) option \<Rightarrow> nat \<Rightarrow> 'a paging_scheme \<Rightarrow> 'a paging_scheme" where
  "rollback_pte cpt pppt pti s =
     (let cpte = pmem s cpt pti; phys = cpte AND PAGE_FRAME_MASK in
      if (cpte AND PAGE_PRESENT) = 0 then s
      else snd (page_ref_dec phys
        (case pppt of
           Some (f, i) \<Rightarrow>
             if (cpte AND PAGE_COW) \<noteq> 0
             then pm_set f (i + pti) (phys OR PAGE_PRESENT OR PAGE_USER OR PAGE_RW) s else s
         | None \<Rightarrow> s)))"

definition rollback_pde :: "u32 \<Rightarrow> u32 \<Rightarrow> nat \<Rightarrow> 'a paging_scheme \<Rightarrow> 'a paging_scheme" where
  "rollback_pde ppd cpd undo s =
     (let pde = pmem s cpd undo in
      if (pde AND PAGE_PRESENT) = 0 then s
      else
        let cpt = pde AND PAGE_FRAME_MASK; pppt = walk_pte s ppd (push_bit 22 (of_nat undo))
        in pmm_free_page cpt (fold (rollback_pte cpt pppt) [0..<1024] s))"

text \<open>The result is the return code, the new directory (0 on failure) and the state.\<close>

definition paging_clone_address_space ::
  "u32 \<Rightarrow> 'a paging_scheme \<Rightarrow> int \<times> u32 \<times> 'a paging_scheme" where
  "paging_clone_address_space parent_pd_phys s =
     (if parent_pd_phys = 0 \<or> (parent_pd_phys AND (PAGE_SIZE - 1)) \<noteq> 0 then (- 12, 0, s)
      else
        (case pmm_alloc_page s of (child_pd, t) \<Rightarrow>
           if child_pd = 0 then (- 12, 0, t)
           else
             (case clone_pdes user_pdis parent_pd_phys child_pd (pm_zero child_pd t) of
                (None, u) \<Rightarrow>
                  (0, child_pd,
                   fold (\<lambda>k v. pm_set child_pd k (pmem v parent_pd_phys k) v) kernel_pdis u)
              | (Some pdi, u) \<Rightarrow>
                  (- 12, 0, pmm_free_page child_pd
                     (fold (rollback_pde parent_pd_phys child_pd) [0..<pdi] u)))))"

definition cow_fault_pte :: "u32 \<Rightarrow> bool" where
  "cow_fault_pte pte = (\<not> ((pte AND PAGE_PRESENT) = 0 \<or> (pte AND PAGE_USER) = 0 \<or>
     (pte AND PAGE_RW) \<noteq> 0 \<or> (pte AND PAGE_COW) = 0))"

definition paging_handle_cow_fault :: "u32 \<Rightarrow> u32 \<Rightarrow> 'a paging_scheme \<Rightarrow> int \<times> 'a paging_scheme" where
  "paging_handle_cow_fault cr2 error_code s =
     (if (error_code AND 0x2) = 0 then (- 1, s)
      else if cr2 \<ge> KERNEL_VIRT_BASE then (- 1, s)
      else
        (case walk_pte s (cr3 s) cr2 of None \<Rightarrow> (- 1, s)
         | Some (f, i) \<Rightarrow>
             let pte = pmem s f i; old_phys = pte AND PAGE_FRAME_MASK in
             if \<not> cow_fault_pte pte then (- 1, s)
             else if page_ref_get old_phys s > 1 then
               (case pmm_alloc_page s of (new_phys, t) \<Rightarrow>
                  if new_phys = 0 then (- 12, t)
                  else
                    let t = pm_copy new_phys old_phys t; t = snd (page_ref_dec old_phys t)
                    in (0, pm_set f i (new_phys OR PAGE_PRESENT OR PAGE_USER OR PAGE_RW OR
                              PAGE_ACCESSED OR PAGE_DIRTY) t))
             else (0, pm_set f i ((pte OR PAGE_RW) AND NOT PAGE_COW) s)))"

section \<open>The check of user pointers is exact\<close>

lemma user_page_same: "drop_bit 12 p = drop_bit 12 q \<Longrightarrow> user_page_ok s p w = user_page_ok s q w"
proof -
  assume e: "drop_bit 12 p = drop_bit 12 q"
  have "drop_bit 22 x = drop_bit 10 (drop_bit 12 x)" for x :: u32 by simp
  then have "drop_bit 22 p = drop_bit 22 q" using e by metis
  then show ?thesis using e by (simp add: user_page_ok_def PDE_INDEX_def PTE_INDEX_def)
qed

lemma next_page:
  assumes "unat p < 0xBFC00000"
  shows "unat ((p AND NOT (PAGE_SIZE - 1)) + PAGE_SIZE) = unat p div 4096 * 4096 + 4096"
proof -
  have d: "unat (p AND - 4096) = unat p div 4096 * 4096"
    using unat_align_down [of p] by (simp add: align_down_def)
  have "unat p div 4096 * 4096 < 0xBFC00000" using assms page_round_down [of "unat p"] by linarith
  then show ?thesis by (simp add: unat_word_ariths d)
qed

lemma user_pages_ok_exact:
  assumes "unat e \<le> 0xBFC00000"
  shows "user_pages_ok s p e w = Some (\<forall>q. p \<le> q \<and> q < e \<longrightarrow> user_page_ok s q w)"
proof (induction "unat e - unat p" arbitrary: p rule: less_induct)
  case less
  show ?case
  proof (cases "p < e")
    case False
    then have "\<forall>q. p \<le> q \<and> q < e \<longrightarrow> user_page_ok s q w" using le_less_trans by blast
    moreover have "user_pages_ok s p e w = Some True" using False by (simp add: user_pages_ok.simps [of s p e w])
    ultimately show ?thesis by simp
  next
    case True
    define p' where "p' = (p AND NOT (PAGE_SIZE - 1)) + PAGE_SIZE"
    have lt: "unat p < unat e" using True by (simp add: word_less_nat_alt)
    then have n: "unat p' = unat p div 4096 * 4096 + 4096" using next_page [of p] assms by (simp add: p'_def)
    have pp: "unat p < unat p'" using n div_mult_mod_eq [of "unat p" 4096] mod_less_divisor [of 4096 "unat p"] by linarith
    have same: "user_page_ok s q w = user_page_ok s p w" if "p \<le> q" "q < p'" for q
    proof (rule user_page_same, rule unat_eqI)
      have "unat p \<le> unat q" "unat q < unat p div 4096 * 4096 + 4096"
        using that n by (simp_all add: word_le_nat_alt word_less_nat_alt)
      then have "unat p div 4096 \<le> unat q div 4096" "unat q div 4096 < unat p div 4096 + 1"
        by (auto simp: div_le_mono less_mult_imp_div_less)
      then show "unat (drop_bit 12 q) = unat (drop_bit 12 p)" by (simp add: unat_frame)
    qed
    show ?thesis
    proof (cases "user_page_ok s p w")
      case False
      then show ?thesis using True by (subst user_pages_ok.simps) auto
    next
      case ok: True
      have "unat e - unat p' < unat e - unat p" using lt pp by linarith
      then have IH: "user_pages_ok s p' e w = Some (\<forall>q. p' \<le> q \<and> q < e \<longrightarrow> user_page_ok s q w)" by (rule less)
      have "(\<forall>q. p' \<le> q \<and> q < e \<longrightarrow> user_page_ok s q w) = (\<forall>q. p \<le> q \<and> q < e \<longrightarrow> user_page_ok s q w)"
      proof -
        have "p \<le> p'" using pp by (simp add: word_le_nat_alt)
        then have "p' \<le> q \<Longrightarrow> p \<le> q" for q by (rule order_trans)
        moreover have "p \<le> q \<Longrightarrow> \<not> p' \<le> q \<Longrightarrow> user_page_ok s q w" for q using same [of q] ok by simp
        ultimately show ?thesis by blast
      qed
      then show ?thesis using True ok IH by (subst user_pages_ok.simps) (simp add: p'_def)
    qed
  qed
qed

lemma user_access_ok_exact:
  assumes "v < 0xBFC00000"
  shows "user_access_ok s v n w = Some (n = 0 \<or> (0x1000 \<le> v \<and> unat v + unat n \<le> 0xBFC00000
    \<and> (\<forall>q. v \<le> q \<and> q < v + n \<longrightarrow> user_page_ok s q w)))"
proof -
  have v: "unat v < 0xBFC00000" using assms by (simp add: word_less_nat_alt)
  then have d: "unat (0xBFC00000 - v) = 0xBFC00000 - unat v" by (simp add: unat_sub word_le_nat_alt)
  show ?thesis
  proof (cases "n > 0xBFC00000 - v")
    case True
    then have "unat v + unat n > 0xBFC00000" using d v by (simp add: word_less_nat_alt)
    then show ?thesis using True by (simp add: user_access_ok_def)
  next
    case False
    then have le: "unat v + unat n \<le> 0xBFC00000" using d v by (simp add: word_less_nat_alt)
    then have "unat (v + n) = unat v + unat n" by (simp add: unat_word_ariths)
    then show ?thesis using le False user_pages_ok_exact [of "v + n" s v w]
      by (auto simp: user_access_ok_def not_less)
  qed
qed

text \<open>For a pointer below the guard band at 0xBFC00000 the check of a user
  buffer always ends, and it accepts exactly the empty buffer and the buffers that
  start at or above 0x1000, end at or below 0xBFC00000 and whose every byte lies on a
  page that is present and accessible to the user in the requested way.\<close>

theorem user_access_exact:
  assumes "v < 0xBFC00000"
  shows "user_access_ok s v n w = Some (n = 0 \<or> (0x1000 \<le> v \<and> unat v + unat n \<le> 0xBFC00000
    \<and> (\<forall>q. v \<le> q \<and> q < v + n \<longrightarrow> user_page_ok s q w)))"
  using assms by (rule user_access_ok_exact)

end
