(* ===== verification/CowFork.thy ===== *)
theory CowFork
  imports Paging
begin

text \<open>
  Correctness of copy-on-write: the invariant that ties page tables, the frame
  allocator and the reference counts together, and the theorems that a resolved
  write fault and a clone keep what every address space sees.

  A slot \<open>(pd, pdi, pti)\<close> names a page-table entry of the user half of the
  address space with directory \<open>pd\<close>; \<open>D\<close> is the set of live directories.
\<close>

section \<open>Arithmetic of entries\<close>

lemma aligned_and_low: "(p :: u32) AND 0xFFF = 0 \<Longrightarrow> m AND 0xFFF = m \<Longrightarrow> p AND m = 0"
proof -
  assume p: "p AND 0xFFF = 0" and m: "m AND 0xFFF = m"
  have "p AND m = p AND (m AND 0xFFF)" unfolding m ..
  also have "\<dots> = (p AND 0xFFF) AND m" by (simp only: and.assoc and.commute and.left_commute)
  finally show ?thesis by (simp add: p)
qed

lemma pte_flag: "(p :: u32) AND 0xFFF = 0 \<Longrightarrow> m AND 0xFFF = m \<Longrightarrow> (p OR c) AND m = c AND m"
  by (simp add: bit.conj_disj_distrib2 aligned_and_low)

lemma frame_mask: "(v :: u32) AND 0xFFFFF000 = push_bit 12 (drop_bit 12 v)"
proof -
  have "(0xFFFFF000 :: u32) = - 4096" by simp
  then show ?thesis by (simp only: and_not_fff)
qed

lemma frame_aligned [simp]: "((v :: u32) AND 0xFFFFF000) AND 0xFFF = 0"
  by (simp add: frame_mask)

lemma pte_frame: "(p :: u32) AND 0xFFF = 0 \<Longrightarrow> c AND 0xFFFFF000 = 0 \<Longrightarrow> (p OR c) AND 0xFFFFF000 = p"
  by (simp add: bit.conj_disj_distrib2) (simp add: frame_mask aligned_frame)

lemma frame_idx_inj:
  "(p :: u32) AND 0xFFF = 0 \<Longrightarrow> q AND 0xFFF = 0 \<Longrightarrow> unat (drop_bit 12 p) = unat (drop_bit 12 q) \<Longrightarrow> p = q"
  by (metis aligned_frame unat_eqI)

section \<open>Operations of the allocator do not touch memory\<close>

lemma pmem_pmm [simp]:
  "pmem (mark_page_used i s) = pmem s" "pmem (mark_page_free i s) = pmem s"
  "pmem (page_ref_inc p s) = pmem s" "pmem (pmm_free_page p s) = pmem s"
  by (simp_all add: mark_page_used_def mark_page_free_def bitmap_set_def bitmap_clear_def
      page_ref_inc_def pmm_free_page_def Let_def)

lemma pmem_ref_dec [simp]: "pmem (snd (page_ref_dec p s)) = pmem s"
  by (simp add: page_ref_dec_def Let_def)

lemma cr3_pmm [simp]:
  "cr3 (mark_page_used i s) = cr3 s" "cr3 (page_ref_inc p s) = cr3 s"
  "cr3 (snd (page_ref_dec p s)) = cr3 s" "cr3 (pm_set f k v s) = cr3 s"
  "cr3 (pm_copy a b s) = cr3 s" "cr3 (pm_zero a s) = cr3 s" "cr3 (mark_page_free i s) = cr3 s"
  by (simp_all add: mark_page_used_def mark_page_free_def bitmap_set_def bitmap_clear_def page_ref_inc_def page_ref_dec_def Let_def
      pm_set_def pm_copy_def pm_zero_def)

lemma pm_ops_fields [simp]:
  "usable (pm_set f i v s) = usable s" "usable (pm_copy a b s) = usable s"
  "usable (pm_zero a s) = usable s" "pmm_inv (pm_set f i v s) = pmm_inv s"
  "pmm_inv (pm_copy a b s) = pmm_inv s" "pmm_inv (pm_zero a s) = pmm_inv s"
  "page_ref_get p (pm_set f i v s) = page_ref_get p s"
  "page_ref_get p (pm_copy a b s) = page_ref_get p s"
  "page_ref_get p (pm_zero a s) = page_ref_get p s"
  by (simp_all add: usable_def frees_def bitmap_test_def pm_set_def pm_copy_def pm_zero_def
      pmm_inv_def page_ref_get_def page_ref_ok_def)

lemma pmem_pm_set [simp]: "pmem (pm_set f i v s) = (pmem s)(f := (pmem s f)(i := v))"
  by (simp add: pm_set_def)

lemma pmem_pm_copy [simp]: "pmem (pm_copy a b s) = (pmem s)(a := pmem s b)"
  by (simp add: pm_copy_def)

lemma pmem_pm_zero [simp]: "pmem (pm_zero a s) = (pmem s)(a := (\<lambda>_. 0))"
  by (simp add: pm_zero_def)

lemma pmm_alloc_page_memory:
  assumes "pmm_inv s" "pmm_alloc_page s = (p, t)"
  shows "pmem t = pmem s \<and> cr3 t = cr3 s"
  using assms by (rule pmm_alloc_page_cases) simp_all

section \<open>Reference counts after an operation\<close>

lemma page_ref_get_dec:
  assumes "1 < page_ref_get p s" "q AND 0xFFF = 0" "p AND 0xFFF = 0"
  shows "page_ref_get q (snd (page_ref_dec p s)) = page_ref_get q s - (if q = p then 1 else 0)"
proof -
  define c where "c = page_refcnt s (unat (drop_bit 12 p))"
  have ok: "page_ref_ok p s" "1 < unat c"
    using assms(1) by (auto simp: page_ref_get_def c_def word_less_nat_alt split: if_splits)
  then have nz: "c \<noteq> 0" "unat (c - 1) = unat c - 1" by (auto simp: unat_sub word_le_nat_alt)
  have "unat (ucast c - 1 :: u32) = unat c - 1" using ok(2) by (simp add: unat_sub word_le_nat_alt)
  then have "(ucast (c - 1) :: u32) = ucast c - 1" using nz by (intro unat_eqI) simp
  then show ?thesis
    using ok nz frame_idx_inj [OF assms(2,3)]
    by (auto simp: page_ref_dec_def page_ref_get_def page_ref_ok_def Let_def c_def)
qed

lemma mark_page_used_refcnt:
  "i \<in> frees s \<Longrightarrow> page_refcnt (mark_page_used i s) = (page_refcnt s)(unat i := 1)"
  by (auto simp: mark_page_used_def frees_def)

lemma page_ref_get_alloc:
  assumes inv: "pmm_inv s" and a: "pmm_alloc_page s = (p, t)" "p \<noteq> 0" and q: "q AND 0xFFF = 0"
  shows "page_ref_get q t = (if q = p then 1 else page_ref_get q s)"
  using inv a(1)
proof (cases rule: pmm_alloc_page_cases)
  case miss
  then show ?thesis using a(2) by simp
next
  case (hit i c)
  have mf: "managed_pages (mark_page_used i s) = managed_pages s"
    "page_refcnt (mark_page_used i s) = (page_refcnt s)(unat i := 1)"
    using mark_page_used_refcnt [OF hit(1)] by simp_all
  have i: "drop_bit 12 p = i" "i < managed_pages s"
    using hit by (auto simp: word_less_nat_alt frees_def)
  have al: "p AND 0xFFF = 0" using hit(4) by simp
  show ?thesis
  proof (cases "q = p")
    case True
    then show ?thesis using i al linorder_not_le [THEN iffD2, OF i(2)]
      by (simp add: page_ref_get_def page_ref_ok_def hit(5) mf)
  next
    case False
    then have "unat (drop_bit 12 q) \<noteq> unat i" using frame_idx_inj [OF q al] i(1) by auto
    then show ?thesis using False by (simp add: page_ref_get_def page_ref_ok_def hit(5) mf)
  qed
qed

section \<open>Address spaces\<close>

type_synonym slot = "u32 \<times> nat \<times> nat"

definition pt_of :: "'a paging_scheme \<Rightarrow> u32 \<Rightarrow> nat \<Rightarrow> u32" where
  "pt_of s pd pdi = pmem s pd pdi AND PAGE_FRAME_MASK"

fun pte_of :: "'a paging_scheme \<Rightarrow> slot \<Rightarrow> u32" where
  "pte_of s (pd, pdi, pti) = pmem s (pt_of s pd pdi) pti"

fun mapped :: "'a paging_scheme \<Rightarrow> slot \<Rightarrow> bool" where
  "mapped s (pd, pdi, pti) \<longleftrightarrow> \<not> pt_leaf (pmem s pd pdi) \<and> pte_of s (pd, pdi, pti) AND PAGE_PRESENT \<noteq> 0"

definition frame_of :: "'a paging_scheme \<Rightarrow> slot \<Rightarrow> u32" where
  "frame_of s x = pte_of s x AND PAGE_FRAME_MASK"

definition slots :: "u32 set \<Rightarrow> slot set" where
  "slots D = D \<times> {..<768} \<times> {..<1024}"

definition owners :: "u32 set \<Rightarrow> 'a paging_scheme \<Rightarrow> u32 \<Rightarrow> slot set" where
  "owners D s f = {x \<in> slots D. mapped s x \<and> frame_of s x = f}"

text \<open>What the address space sees at a slot: the contents of the mapped frame.\<close>

definition view :: "'a paging_scheme \<Rightarrow> slot \<Rightarrow> (nat \<Rightarrow> u32) option" where
  "view s x = (if mapped s x then Some (pmem s (frame_of s x)) else None)"

definition tables_ok :: "u32 set \<Rightarrow> 'a paging_scheme \<Rightarrow> bool" where
  "tables_ok D s \<longleftrightarrow> D \<inter> usable s = {} \<and>
     (\<forall>pd \<in> D. \<forall>pdi < 768. \<not> pt_leaf (pmem s pd pdi) \<longrightarrow>
        pt_of s pd pdi \<notin> usable s \<and> pt_of s pd pdi \<notin> D \<and>
        (\<forall>pd' \<in> D. \<forall>pdi' < 768. \<not> pt_leaf (pmem s pd' pdi') \<longrightarrow> pt_of s pd' pdi' = pt_of s pd pdi \<longrightarrow>
           pd' = pd \<and> pdi' = pdi))"

definition frames_ok :: "u32 set \<Rightarrow> 'a paging_scheme \<Rightarrow> bool" where
  "frames_ok D s \<longleftrightarrow> (\<forall>x \<in> slots D. mapped s x \<longrightarrow>
     frame_of s x \<notin> usable s \<and> frame_of s x \<notin> D \<and>
     (\<forall>pd \<in> D. \<forall>pdi < 768. \<not> pt_leaf (pmem s pd pdi) \<longrightarrow> frame_of s x \<noteq> pt_of s pd pdi))"

definition refs_ok :: "u32 set \<Rightarrow> 'a paging_scheme \<Rightarrow> bool" where
  "refs_ok D s \<longleftrightarrow> (\<forall>x \<in> slots D. mapped s x \<longrightarrow>
     unat (page_ref_get (frame_of s x) s) = card (owners D s (frame_of s x)))"

definition vm_ok :: "u32 set \<Rightarrow> 'a paging_scheme \<Rightarrow> bool" where
  "vm_ok D s \<longleftrightarrow> pmm_inv s \<and> tables_ok D s \<and> frames_ok D s \<and> refs_ok D s"

lemma finite_slots [simp]: "finite (slots D)"
  by (simp add: slots_def)

lemma finite_owners [simp]: "finite (owners D s f)"
  by (simp add: owners_def)

section \<open>Changing one entry\<close>

text \<open>The effect on the address spaces of storing an entry: nothing but that entry
  changes, because page tables are shared neither with each other nor with
  directories or data.\<close>

lemma store_entry_dirs:
  assumes ok: "tables_ok D s" and x: "pd \<in> D" "pdi < 768" "\<not> pt_leaf (pmem s pd pdi)"
    and m: "\<And>f. f \<notin> usable s \<Longrightarrow> f \<noteq> pt_of s pd pdi \<Longrightarrow> pmem t f = pmem s f"
    and d: "d \<in> D"
  shows "pmem t d = pmem s d"
proof -
  have "d \<notin> usable s" "d \<noteq> pt_of s pd pdi" using ok x d by (auto simp: tables_ok_def)
  then show ?thesis by (rule m)
qed

lemma store_entry_pte:
  assumes ok: "tables_ok D s" and x: "(pd, pdi, pti) \<in> slots D" "\<not> pt_leaf (pmem s pd pdi)"
    and m: "\<And>f. f \<notin> usable s \<Longrightarrow> f \<noteq> pt_of s pd pdi \<Longrightarrow> pmem t f = pmem s f"
    and e: "pmem t (pt_of s pd pdi) = (pmem s (pt_of s pd pdi))(pti := v)"
    and y: "y \<in> slots D"
  shows "mapped t y = (if y = (pd, pdi, pti) then v AND PAGE_PRESENT \<noteq> 0 else mapped s y)"
    and "mapped s y \<Longrightarrow> frame_of t y = (if y = (pd, pdi, pti) then v AND PAGE_FRAME_MASK else frame_of s y)"
    and "\<not> pt_leaf (pmem s (fst y) (fst (snd y))) \<Longrightarrow>
           pte_of t y = (if y = (pd, pdi, pti) then v else pte_of s y)"
proof -
  obtain d di ti where yd: "y = (d, di, ti)" by (cases y)
  have x': "pd \<in> D" "pdi < 768" using x by (auto simp: slots_def)
  have dd: "d \<in> D" "di < 768" using y yd by (auto simp: slots_def)
  have pd: "pmem t d = pmem s d" by (rule store_entry_dirs [OF ok x' x(2) m dd(1)])
  then have ptt: "pt_of t d di = pt_of s d di" by (simp add: pt_of_def)
  have pte: "pte_of t y = (if y = (pd, pdi, pti) then v else pte_of s y)"
    if nl: "\<not> pt_leaf (pmem s d di)"
  proof (cases "pt_of s d di = pt_of s pd pdi")
    case True
    then have "d = pd \<and> di = pdi" using ok x' x(2) dd nl by (auto simp: tables_ok_def)
    then show ?thesis using ptt e by (auto simp: yd)
  next
    case False
    have "pt_of s d di \<notin> usable s" using ok dd nl by (auto simp: tables_ok_def)
    then show ?thesis using m False by (auto simp: yd ptt)
  qed
  show "\<not> pt_leaf (pmem s (fst y) (fst (snd y))) \<Longrightarrow> pte_of t y = (if y = (pd, pdi, pti) then v else pte_of s y)"
    using pte yd by simp
  show "mapped t y = (if y = (pd, pdi, pti) then v AND PAGE_PRESENT \<noteq> 0 else mapped s y)"
    using pte x(2) by (auto simp: yd pd)
  show "mapped s y \<Longrightarrow> frame_of t y = (if y = (pd, pdi, pti) then v AND PAGE_FRAME_MASK else frame_of s y)"
    using pte by (auto simp: yd frame_of_def)
qed

text \<open>\<open>stores D s t x v\<close>: \<open>t\<close> is \<open>s\<close> with \<open>v\<close> stored at the slot \<open>x\<close>, and possibly frames
  taken from the free ones.\<close>

definition stores :: "u32 set \<Rightarrow> 'a paging_scheme \<Rightarrow> 'a paging_scheme \<Rightarrow> slot \<Rightarrow> u32 \<Rightarrow> bool" where
  "stores D s t x v \<longleftrightarrow> (case x of (pd, pdi, pti) \<Rightarrow>
     x \<in> slots D \<and> \<not> pt_leaf (pmem s pd pdi)
     \<and> (\<forall>f. f \<notin> usable s \<longrightarrow> f \<noteq> pt_of s pd pdi \<longrightarrow> pmem t f = pmem s f)
     \<and> pmem t (pt_of s pd pdi) = (pmem s (pt_of s pd pdi))(pti := v)
     \<and> usable t \<subseteq> usable s \<and> pmm_inv t)"

lemma stores_dirs: "tables_ok D s \<Longrightarrow> stores D s t x v \<Longrightarrow> d \<in> D \<Longrightarrow> pmem t d = pmem s d"
  by (cases x) (auto simp: stores_def slots_def intro: store_entry_dirs)

lemma stores_pte:
  assumes "tables_ok D s" "stores D s t x v"
  shows "pte_of t x = v"
proof -
  obtain pd pdi pti where x: "x = (pd, pdi, pti)" by (cases x)
  have "pd \<in> D" "pmem t (pt_of s pd pdi) = (pmem s (pt_of s pd pdi))(pti := v)"
    using assms(2) by (auto simp: stores_def x slots_def)
  moreover have "pt_of t pd pdi = pt_of s pd pdi"
    using stores_dirs [OF assms \<open>pd \<in> D\<close>] by (simp add: pt_of_def)
  ultimately show ?thesis by (simp add: x)
qed

lemma stores_entries:
  assumes "tables_ok D s" "stores D s t x v" "y \<in> slots D"
  shows "mapped t y = (if y = x then v AND PAGE_PRESENT \<noteq> 0 else mapped s y)"
    and "mapped s y \<Longrightarrow> frame_of t y = (if y = x then v AND PAGE_FRAME_MASK else frame_of s y)"
proof -
  obtain pd pdi pti where x: "x = (pd, pdi, pti)" by (cases x)
  have *: "(pd, pdi, pti) \<in> slots D" "\<not> pt_leaf (pmem s pd pdi)"
    "\<And>f. f \<notin> usable s \<Longrightarrow> f \<noteq> pt_of s pd pdi \<Longrightarrow> pmem t f = pmem s f"
    "pmem t (pt_of s pd pdi) = (pmem s (pt_of s pd pdi))(pti := v)"
    using assms(2) by (auto simp: stores_def x)
  note se = store_entry_pte [OF assms(1) * assms(3)]
  show "mapped t y = (if y = x then v AND PAGE_PRESENT \<noteq> 0 else mapped s y)"
    using se(1) by (simp add: x)
  show "mapped s y \<Longrightarrow> frame_of t y = (if y = x then v AND PAGE_FRAME_MASK else frame_of s y)"
    using se(2) by (simp add: x)
qed

lemma stores_tables:
  assumes ok: "tables_ok D s" and st: "stores D s t x v"
  shows "tables_ok D t"
proof -
  have d: "\<And>d. d \<in> D \<Longrightarrow> pmem t d = pmem s d" using stores_dirs [OF ok st] .
  then have p: "\<And>d i. d \<in> D \<Longrightarrow> pt_of t d i = pt_of s d i" by (simp add: pt_of_def)
  have u: "usable t \<subseteq> usable s" using st by (auto simp: stores_def split: prod.splits)
  show ?thesis unfolding tables_ok_def
  proof (intro conjI ballI allI impI)
    show "D \<inter> usable t = {}" using ok u by (auto simp: tables_ok_def)
  qed (use ok u in \<open>auto simp: tables_ok_def d p\<close>)
qed

lemma stores_view:
  assumes ok: "tables_ok D s" "frames_ok D s" and st: "stores D s t x v"
    and y: "y \<in> slots D" "y \<noteq> x"
  shows "view t y = view s y"
proof (cases "mapped s y")
  case True
  obtain pd pdi pti where x: "x = (pd, pdi, pti)" by (cases x)
  have "pd \<in> D" "pdi < 768" "\<not> pt_leaf (pmem s pd pdi)" using st by (auto simp: stores_def x slots_def)
  then have "frame_of s y \<notin> usable s" "frame_of s y \<noteq> pt_of s pd pdi"
    using ok(2) y True by (auto simp: frames_ok_def)
  then have "pmem t (frame_of s y) = pmem s (frame_of s y)" using st by (auto simp: stores_def x)
  then show ?thesis using stores_entries [OF ok(1) st y(1)] y(2) True by (simp add: view_def)
next
  case False
  then show ?thesis using stores_entries(1) [OF ok(1) st y(1)] y(2) by (simp add: view_def)
qed

text \<open>A frame that may be mapped: not free, no directory, no page table.\<close>

definition data_frame :: "u32 set \<Rightarrow> 'a paging_scheme \<Rightarrow> u32 \<Rightarrow> bool" where
  "data_frame D s g \<longleftrightarrow> g \<notin> D \<and>
     (\<forall>pd \<in> D. \<forall>pdi < 768. \<not> pt_leaf (pmem s pd pdi) \<longrightarrow> g \<noteq> pt_of s pd pdi)"

lemma frames_ok_alt:
  "frames_ok D s \<longleftrightarrow> (\<forall>x \<in> slots D. mapped s x \<longrightarrow> frame_of s x \<notin> usable s \<and> data_frame D s (frame_of s x))"
  by (auto simp: frames_ok_def data_frame_def)

lemma stores_data_frame:
  "tables_ok D s \<Longrightarrow> stores D s t x v \<Longrightarrow> data_frame D t g = data_frame D s g"
  using stores_dirs [of D s t x v] by (auto simp: data_frame_def pt_of_def)

lemma stores_frames:
  assumes ok: "tables_ok D s" "frames_ok D s" and st: "stores D s t x v"
    and g: "v AND PAGE_FRAME_MASK \<notin> usable t" "data_frame D s (v AND PAGE_FRAME_MASK)" and m: "mapped s x"
  shows "frames_ok D t"
  unfolding frames_ok_alt
proof (intro ballI impI)
  fix y assume y: "y \<in> slots D" "mapped t y"
  have u: "usable t \<subseteq> usable s" using st by (auto simp: stores_def split: prod.splits)
  have "mapped s y" using stores_entries(1) [OF ok(1) st y(1)] y(2) m by (auto split: if_splits)
  then show "frame_of t y \<notin> usable t \<and> data_frame D t (frame_of t y)"
    using stores_entries(2) [OF ok(1) st y(1)] g u ok(2) y(1)
    by (auto simp: stores_data_frame [OF ok(1) st] frames_ok_alt)
qed

lemma stores_owners:
  assumes ok: "tables_ok D s" and st: "stores D s t x v" and m: "mapped s x" "v AND PAGE_PRESENT \<noteq> 0"
  shows "owners D t g = (owners D s g - {x}) \<union> (if v AND PAGE_FRAME_MASK = g then {x} else {})"
proof -
  have x: "x \<in> slots D" using st by (auto simp: stores_def split: prod.splits)
  show ?thesis
    using stores_entries [OF ok st] m x
    by (auto simp: owners_def split: if_splits)
qed

section \<open>The write fault\<close>

definition slot_of :: "u32 \<Rightarrow> u32 \<Rightarrow> slot" where
  "slot_of pd va = (pd, PDE_INDEX va, PTE_INDEX va)"

lemma pde_index_user: "va < 0xC0000000 \<Longrightarrow> PDE_INDEX va < 768"
proof -
  assume "va < 0xC0000000"
  then have "unat va < 3221225472" by (simp add: word_less_nat_alt)
  then have u: "unat (drop_bit 22 va) < 768" by (simp add: drop_bit_eq_div unat_div_distrib)
  have "drop_bit 22 va AND 0x3FF = take_bit 10 (drop_bit 22 va)"
    by (simp add: take_bit_eq_mask mask_eq_exp_minus_1)
  then have "unat (drop_bit 22 va AND 0x3FF) = unat (drop_bit 22 va) mod 1024"
    by (simp add: take_bit_eq_mod unat_mod_distrib)
  then show ?thesis using u by (simp add: PDE_INDEX_def)
qed

lemma pte_index_lt: "PTE_INDEX va < 1024"
proof -
  have "drop_bit 12 va AND 0x3FF = take_bit 10 (drop_bit 12 va)"
    by (simp add: take_bit_eq_mask mask_eq_exp_minus_1)
  then show ?thesis by (simp add: PTE_INDEX_def take_bit_eq_mod unat_mod_distrib)
qed

lemma slot_of_user: "pd \<in> D \<Longrightarrow> va < 0xC0000000 \<Longrightarrow> slot_of pd va \<in> slots D"
  by (simp add: slot_of_def slots_def pde_index_user pte_index_lt)

lemma cow_fault_cases:
  assumes "paging_handle_cow_fault cr2 err s = (0, t)"
  defines "x \<equiv> slot_of (cr3 s) cr2" and "f \<equiv> pt_of s (cr3 s) (PDE_INDEX cr2)" and "i \<equiv> PTE_INDEX cr2"
  shows "cr2 < 0xC0000000 \<and> \<not> pt_leaf (pmem s (cr3 s) (PDE_INDEX cr2)) \<and> cow_fault_pte (pte_of s x)
    \<and> ((\<exists>new u. 1 < page_ref_get (frame_of s x) s \<and> pmm_alloc_page s = (new, u) \<and> new \<noteq> 0
          \<and> t = pm_set f i (new OR 103) (snd (page_ref_dec (frame_of s x) (pm_copy new (frame_of s x) u))))
       \<or> (\<not> 1 < page_ref_get (frame_of s x) s
          \<and> t = pm_set f i ((pte_of s x OR 2) AND NOT 0x800) s))"
proof -
  have nl: "\<not> pt_leaf (pmem s (cr3 s) (PDE_INDEX cr2))" and lt: "cr2 < 0xC0000000"
    using assms(1) by (auto simp: paging_handle_cow_fault_def walk_pte_def Let_def split: if_splits)
  have x: "pmem s f i = pte_of s x" "pte_of s x AND 0xFFFFF000 = frame_of s x"
    by (simp_all add: x_def f_def i_def slot_of_def frame_of_def)
  have w: "walk_pte s (cr3 s) cr2 = Some (f, i)"
    using nl by (simp add: walk_pte_def f_def i_def pt_of_def)
  show ?thesis
  proof (cases "1 < page_ref_get (frame_of s x) s")
    case True
    then show ?thesis
      using assms(1) nl lt unfolding paging_handle_cow_fault_def w
      by (auto simp: Let_def x split: if_splits prod.splits)
  next
    case False
    then show ?thesis
      using assms(1) nl lt unfolding paging_handle_cow_fault_def w
      by (auto simp: Let_def x split: if_splits)
  qed
qed

definition cow_resolved :: "u32 set \<Rightarrow> 'a paging_scheme \<Rightarrow> 'a paging_scheme \<Rightarrow> slot \<Rightarrow> bool" where
  "cow_resolved D s t x \<longleftrightarrow> vm_ok D t \<and> (\<forall>y \<in> slots D. view t y = view s y)
     \<and> mapped t x \<and> pte_of t x AND PAGE_RW \<noteq> 0 \<and> owners D t (frame_of t x) = {x}"

lemma cow_fault_pteD:
  "cow_fault_pte pte \<Longrightarrow> pte AND 1 \<noteq> 0 \<and> pte AND 4 \<noteq> 0 \<and> pte AND 2 = 0 \<and> pte AND 0x800 \<noteq> 0"
  by (auto simp: cow_fault_pte_def)

lemma card_le_1_singleton: "finite A \<Longrightarrow> card A \<le> 1 \<Longrightarrow> x \<in> A \<Longrightarrow> A = {x}"
  using card_le_Suc0_iff_eq [of A] by auto

lemma cow_fault_reuse:
  assumes ok: "vm_ok D s" and x: "x = (pd, pdi, pti)" "x \<in> slots D" "\<not> pt_leaf (pmem s pd pdi)"
    and c: "cow_fault_pte (pte_of s x)" "\<not> 1 < page_ref_get (frame_of s x) s"
  defines "v \<equiv> (pte_of s x OR 2) AND NOT 0x800"
  shows "cow_resolved D s (pm_set (pt_of s pd pdi) pti v s) x" (is "cow_resolved D s ?t x")
proof -
  have T: "tables_ok D s" and F: "frames_ok D s" and R: "refs_ok D s" and I: "pmm_inv s"
    using ok by (simp_all add: vm_ok_def)
  have st: "stores D s ?t x v" using x I by (auto simp: stores_def)
  have m: "mapped s x" using x c(1) by (auto simp: cow_fault_pte_def)
  have v1: "v AND 1 = pte_of s x AND 1" "v AND 2 \<noteq> 0" "v AND 0xFFFFF000 = frame_of s x"
    unfolding v_def frame_of_def
    by (simp_all add: and.assoc bit.conj_disj_distrib2)
  then have v: "v AND 1 \<noteq> 0" using cow_fault_pteD [OF c(1)] by simp
  have fx: "frame_of s x \<notin> usable s" "data_frame D s (frame_of s x)"
    using F x(2) m by (auto simp: frames_ok_alt)
  have ow: "owners D ?t g = owners D s g" for g
    using stores_owners [OF T st m v, of g] m x(2) v1(3) by (auto simp: owners_def)
  have fr: "mapped ?t y = mapped s y" "mapped s y \<Longrightarrow> frame_of ?t y = frame_of s y" if "y \<in> slots D" for y
    using stores_entries [OF T st that] v v1(3) m by auto
  have vx: "view ?t x = view s x"
  proof -
    have "frame_of s x \<noteq> pt_of s pd pdi" using fx(2) x by (auto simp: data_frame_def slots_def)
    then show ?thesis using fr [OF x(2)] m by (simp add: view_def)
  qed
  have "refs_ok D ?t" using R fr ow by (auto simp: refs_ok_def)
  moreover have "frames_ok D ?t" by (rule stores_frames [OF T F st]) (use fx v1 m in auto)
  moreover have "owners D s (frame_of s x) = {x}"
  proof -
    have "unat (page_ref_get (frame_of s x) s) \<le> 1" using c(2) by (simp add: word_less_nat_alt)
    then have "card (owners D s (frame_of s x)) \<le> 1" using R x(2) m by (auto simp: refs_ok_def)
    moreover have "x \<in> owners D s (frame_of s x)" using x(2) m by (simp add: owners_def)
    ultimately show ?thesis using card_le_1_singleton [OF finite_owners] by blast
  qed
  moreover have "pte_of ?t x = v"
    by (rule stores_pte [OF T st])
  ultimately show ?thesis
    using stores_tables [OF T st] I stores_view [OF T F st] vx v v1 fr [OF x(2)] m ow
    by (auto simp: cow_resolved_def vm_ok_def)
qed

lemma usable_ref_dec [simp]: "usable (snd (page_ref_dec p s)) = usable s"
  using page_ref_dec_fields [of p s] by (cases "page_ref_dec p s") (simp add: usable_def)

lemma pmm_inv_snd_ref_dec [simp]: "pmm_inv s \<Longrightarrow> pmm_inv (snd (page_ref_dec p s))"
  by (cases "page_ref_dec p s") (auto intro: inv_intros)

lemma usable_aligned: "p \<in> usable s \<Longrightarrow> p AND 0xFFF = 0"
  by (auto simp: usable_def)

lemma cow_fault_copy:
  assumes ok: "vm_ok D s" and x: "x = (pd, pdi, pti)" "x \<in> slots D" "\<not> pt_leaf (pmem s pd pdi)"
    and c: "cow_fault_pte (pte_of s x)" "1 < page_ref_get (frame_of s x) s"
    and a: "pmm_alloc_page s = (new, u)" "new \<noteq> 0"
  shows "cow_resolved D s (pm_set (pt_of s pd pdi) pti (new OR 103)
           (snd (page_ref_dec (frame_of s x) (pm_copy new (frame_of s x) u)))) x"
    (is "cow_resolved D s ?t x")
proof -
  let ?v = "new OR 103" and ?old = "frame_of s x"
  have T: "tables_ok D s" and F: "frames_ok D s" and R: "refs_ok D s" and I: "pmm_inv s"
    using ok by (simp_all add: vm_ok_def)
  have us: "usable s \<noteq> {}" using pages.alloc_miss [OF I] a by auto
  have n: "new \<in> usable s" "usable u = usable s - {new}" using pages.alloc_hit [OF I a(1) us] by auto
  have al: "new AND 0xFFF = 0" using usable_aligned [OF n(1)] .
  have Iu: "pmm_inv u" and Mu: "pmem u = pmem s"
    using pages.alloc_inv [OF I a(1)] pmm_alloc_page_memory [OF I a(1)] by auto
  have pd: "pd \<in> D" "pdi < 768" using x by (auto simp: slots_def)
  have fn: "pt_of s pd pdi \<noteq> new" using T pd x(3) n(1) by (auto simp: tables_ok_def)
  have m: "mapped s x" using x c(1) by (auto simp: cow_fault_pte_def)
  have v: "?v AND 1 \<noteq> 0" "?v AND 2 \<noteq> 0" "?v AND 0xFFFFF000 = new"
    using pte_flag [OF al, of 1 103] pte_flag [OF al, of 2 103] pte_frame [OF al, of 103] by simp_all
  have ut: "usable ?t = usable s - {new}" using n(2) by simp
  have st: "stores D s ?t x ?v"
    using x n Iu fn by (auto simp: stores_def Mu)
  have fx: "?old \<notin> usable s" "data_frame D s ?old" using F x(2) m by (auto simp: frames_ok_alt)
  have dn: "data_frame D s new" using T n(1) by (auto simp: data_frame_def tables_ok_def)
  have on: "?old \<noteq> new" using fx n(1) by blast
  have ow: "owners D ?t g = (owners D s g - {x}) \<union> (if new = g then {x} else {})" for g
    using stores_owners [OF T st m v(1), of g] v(3) by simp
  have nf: "owners D s new = {}" using F n(1) by (auto simp: owners_def frames_ok_alt)
  have fr: "mapped ?t y = mapped s y" "mapped s y \<Longrightarrow> frame_of ?t y = (if y = x then new else frame_of s y)"
    if "y \<in> slots D" for y
    using stores_entries [OF T st that] v m by auto
  have get: "page_ref_get q ?t = (if q = new then 1 else page_ref_get q s - (if q = ?old then 1 else 0))"
    if q: "q AND 0xFFF = 0" for q
  proof -
    have oa: "?old AND 0xFFF = 0" by (simp add: frame_of_def)
    have "page_ref_get r (pm_copy new ?old u) = (if r = new then 1 else page_ref_get r s)"
      if "r AND 0xFFF = 0" for r
      using page_ref_get_alloc [OF I a that] by simp
    then show ?thesis
      using page_ref_get_dec [of ?old "pm_copy new ?old u" q] c(2) q oa on by auto
  qed
  have xo: "x \<in> owners D s ?old" using x(2) m by (simp add: owners_def)
  have "refs_ok D ?t" unfolding refs_ok_def
  proof (intro ballI impI)
    fix y assume y: "y \<in> slots D" "mapped ?t y"
    let ?g = "frame_of ?t y"
    have ga: "?g AND 0xFFF = 0" by (simp add: frame_of_def)
    show "unat (page_ref_get ?g ?t) = card (owners D ?t ?g)"
    proof (cases "?g = new")
      case True
      then show ?thesis using get [OF ga] ow nf by simp
    next
      case False
      have ym: "mapped s y" using fr(1) [OF y(1)] y(2) by simp
      with False have gy: "?g = frame_of s y" using fr(2) [OF y(1)] by (auto split: if_splits)
      have r: "unat (page_ref_get ?g s) = card (owners D s ?g)"
        using R y(1) ym unfolding gy by (simp add: refs_ok_def)
      have o: "owners D ?t ?g = owners D s ?g - {x}" using ow [of ?g] False by simp
      show ?thesis
      proof (cases "?g = ?old")
        case True
        then have "unat (page_ref_get ?g ?t) = unat (page_ref_get ?g s) - 1"
          using get [OF ga] False c(2) by (simp add: unat_sub word_less_nat_alt word_le_nat_alt)
        then show ?thesis using r o xo True by simp
      next
        case False': False
        have "x \<notin> owners D s ?g" using False' by (auto simp: owners_def)
        then show ?thesis using r o get [OF ga] False False' by simp
      qed
    qed
  qed
  moreover have "frames_ok D ?t"
    by (rule stores_frames [OF T F st]) (use n dn v m ut in auto)
  moreover have "view ?t x = view s x"
    using fr [OF x(2)] m fn by (simp add: view_def Mu)
  moreover have "pte_of ?t x = ?v"
    by (rule stores_pte [OF T st])
  moreover have "owners D ?t (frame_of ?t x) = {x}" using fr(2) [OF x(2) m] ow [of new] nf by simp
  moreover have "pmm_inv ?t" using Iu by simp
  ultimately show ?thesis
    using stores_tables [OF T st] stores_view [OF T F st] v fr(1) [OF x(2)] m
    by (auto simp: cow_resolved_def vm_ok_def)
qed

text \<open>Property C5: a resolved copy-on-write fault changes nothing that any address
  space sees: every page of every live address space has the contents it had, the
  faulting page is writable, and its frame is mapped by no other entry, so that the
  write that is retried cannot be seen elsewhere.  The invariant of tables, frames
  and reference counts holds afterwards.\<close>

theorem cow_fault_isolates:
  assumes "vm_ok D s" "cr3 s \<in> D" "paging_handle_cow_fault cr2 err s = (0, t)"
  shows "cow_resolved D s t (slot_of (cr3 s) cr2)"
proof -
  let ?x = "slot_of (cr3 s) cr2"
  note f = cow_fault_cases [OF assms(3)]
  have x: "?x = (cr3 s, PDE_INDEX cr2, PTE_INDEX cr2)" by (simp add: slot_of_def)
  have "?x \<in> slots D" using slot_of_user assms(2) f by blast
  then show ?thesis
    using cow_fault_copy [OF assms(1) x] cow_fault_reuse [OF assms(1) x] f by blast
qed

section \<open>A small address space\<close>

text \<open>One directory at 0x100000, one page table at 0x101000 and one data page at
  0x102000, mapped by the entry \<open>v\<close> at 0x5000; the next three frames are free.\<close>

definition cow_base :: paging where
  "cow_base = pmm.extend pmm_blank (paging.fields
     ((\<lambda>_ _. 0)(0x100000 := (\<lambda>_. 0)(0 := 0x101007), 0x102000 := (\<lambda>_. 0)(0 := 42)))
     0x200000 0x200000 0x100000 0xF0000000 True)"

definition cow_demo :: "u32 \<Rightarrow> paging" where
  "cow_demo v = pm_set 0x101000 5 v (fold mark_page_used [0x100, 0x101, 0x102]
     (fold mark_page_free [0x100, 0x101, 0x102, 0x103, 0x104, 0x105] (pmm_reset 0x400000 cow_base)))"

lemma fold_mark_list_frees:
  "frees (fold mark_page_free is s) = frees s \<union> {i \<in> set is. i < managed_pages s}"
  "managed_pages (fold mark_page_free is s) = managed_pages s"
  "pmm_inv s \<Longrightarrow> pmm_inv (fold mark_page_free is s)"
  by (induction "is" arbitrary: s) (auto simp: frees_mark_free pmm_inv_mark_free)

lemma cow_demo_mem:
  "pmem (cow_demo v) = ((\<lambda>_ _. 0)(0x100000 := (\<lambda>_. 0)(0 := 0x101007), 0x102000 := (\<lambda>_. 0)(0 := 42),
     0x101000 := (\<lambda>_. 0)(5 := v)))"
  by (simp add: cow_demo_def pmm_reset_def cow_base_def pmm.defs paging.defs pmm_blank_def fun_eq_iff)

lemma cow_demo_cr3: "cr3 (cow_demo v) = 0x100000"
  by (simp add: cow_demo_def pmm_reset_def cow_base_def pmm.defs paging.defs pmm_blank_def)

definition cow_frames :: paging where
  "cow_frames = fold mark_page_free [0x100, 0x101, 0x102, 0x103, 0x104, 0x105] (pmm_reset 0x400000 cow_base)"

lemma cow_frames_frees: "frees cow_frames = {0x100, 0x101, 0x102, 0x103, 0x104, 0x105}"
  "managed_pages cow_frames = 0x400" "pmm_inv cow_frames"
proof -
  have r: "frees (pmm_reset 0x400000 cow_base) = {}" "pmm_inv (pmm_reset 0x400000 cow_base)"
    by (simp_all add: pmm_inv_reset)
  show "managed_pages cow_frames = 0x400" unfolding cow_frames_def fold_mark_list_frees by simp
  show "pmm_inv cow_frames" unfolding cow_frames_def by (rule fold_mark_list_frees(3) [OF r(2)])
  show "frees cow_frames = {0x100, 0x101, 0x102, 0x103, 0x104, 0x105}"
    unfolding cow_frames_def fold_mark_list_frees r by auto
qed

lemma cow_demo_pmm:
  "pmm_inv (cow_demo v)" "usable (cow_demo v) = {0x103000, 0x104000, 0x105000}"
  "managed_pages (cow_demo v) = 0x400"
  "page_refcnt (cow_demo v) = (page_refcnt cow_frames)(0x100 := 1, 0x101 := 1, 0x102 := 1)"
proof -
  have d: "cow_demo v = pm_set 0x101000 5 v (mark_page_used 0x102 (mark_page_used 0x101 (mark_page_used 0x100 cow_frames)))"
    by (simp add: cow_demo_def cow_frames_def)
  show "pmm_inv (cow_demo v)" by (simp add: d pmm_inv_mark_used cow_frames_frees)
  show "usable (cow_demo v) = {0x103000, 0x104000, 0x105000}"
    unfolding d pm_ops_fields(1) unfolding usable_def frees_mark_used cow_frames_frees by auto
  show "managed_pages (cow_demo v) = 0x400" by (simp add: d pm_set_def cow_frames_frees)
  show "page_refcnt (cow_demo v) = (page_refcnt cow_frames)(0x100 := 1, 0x101 := 1, 0x102 := 1)"
    by (simp add: d pm_set_def mark_page_used_refcnt frees_mark_used cow_frames_frees)
qed

lemma cow_demo_slot:
  assumes v: "v AND 1 \<noteq> 0" and y: "y \<in> slots {0x100000}"
  shows "mapped (cow_demo v) y \<longleftrightarrow> y = (0x100000, 0, 5)"
  using y v by (cases y) (auto simp: slots_def cow_demo_mem pt_of_def pt_leaf_def)

lemma cow_demo_vm_ok:
  assumes v: "v AND 1 \<noteq> 0" "v AND 0xFFFFF000 = 0x102000"
  shows "vm_ok {0x100000} (cow_demo v)"
proof -
  have f: "frame_of (cow_demo v) (0x100000, 0, 5) = 0x102000"
    using v by (simp add: frame_of_def cow_demo_mem pt_of_def)
  have leaf: "\<not> pt_leaf (pmem (cow_demo v) 0x100000 di) \<longleftrightarrow> di = 0" for di
    by (simp add: cow_demo_mem pt_leaf_def)
  have pt: "pt_of (cow_demo v) 0x100000 0 = 0x101000" by (simp add: pt_of_def cow_demo_mem)
  have "tables_ok {0x100000} (cow_demo v)"
    by (auto simp: tables_ok_def leaf pt cow_demo_pmm)
  moreover have "frames_ok {0x100000} (cow_demo v)"
    by (auto simp: frames_ok_def cow_demo_slot [OF v(1)] leaf pt f cow_demo_pmm simp del: mapped.simps)
  moreover have "owners {0x100000} (cow_demo v) 0x102000 = {(0x100000, 0, 5)}"
    using cow_demo_slot [OF v(1)] f by (auto simp: owners_def slots_def simp del: mapped.simps)
  then have "refs_ok {0x100000} (cow_demo v)"
    by (auto simp: refs_ok_def cow_demo_slot [OF v(1)] f page_ref_get_def page_ref_ok_def cow_demo_pmm
        simp del: mapped.simps)
  ultimately show ?thesis by (simp add: vm_ok_def cow_demo_pmm)
qed

theorem cow_fault_isolates_witness:
  "\<exists>t. paging_handle_cow_fault 0x5000 7 (cow_demo 0x102805) = (0, t)
     \<and> cow_resolved {0x100000} (cow_demo 0x102805) t (0x100000, 0, 5)"
proof -
  have r: "page_ref_get 0x102000 (cow_demo 0x102805) = 1"
    by (simp add: page_ref_get_def page_ref_ok_def cow_demo_pmm)
  obtain t where t: "paging_handle_cow_fault 0x5000 7 (cow_demo 0x102805) = (0, t)"
    by (simp add: paging_handle_cow_fault_def walk_pte_def cow_demo_cr3 cow_demo_mem PDE_INDEX_def
        PTE_INDEX_def pt_leaf_def cow_fault_pte_def r)
  have "vm_ok {0x100000} (cow_demo 0x102805)" by (rule cow_demo_vm_ok) simp_all
  then have "cow_resolved {0x100000} (cow_demo 0x102805) t (slot_of (cr3 (cow_demo 0x102805)) 0x5000)"
    by (rule cow_fault_isolates [OF _ _ t]) (simp add: cow_demo_cr3)
  moreover have "slot_of 0x100000 0x5000 = (0x100000, 0, 5)" by (simp add: slot_of_def PDE_INDEX_def PTE_INDEX_def)
  ultimately show ?thesis using t by (simp add: cow_demo_cr3)
qed

theorem user_access_exact_witness: "user_access_ok (cow_demo 0x102007) 0x5000 16 True = Some True"
proof -
  let ?s = "cow_demo 0x102007"
  have ok: "user_page_ok ?s 0x5000 True"
    by (simp add: user_page_ok_def cow_demo_cr3 cow_demo_mem PDE_INDEX_def PTE_INDEX_def)
  have "user_page_ok ?s q True" if "0x5000 \<le> q" "q < 0x5000 + 16" for q
  proof -
    have "0x5000 \<le> unat q" "unat q < 0x5010" using that by (simp_all add: word_le_nat_alt word_less_nat_alt)
    then have "unat q div 4096 = 5" by linarith
    then have "drop_bit 12 q = drop_bit 12 0x5000" by (intro unat_eqI) (simp add: unat_frame)
    then show ?thesis using user_page_same [of q "0x5000" ?s True] ok by simp
  qed
  then have "\<forall>q. 0x5000 \<le> q \<and> q < 0x5000 + 16 \<longrightarrow> user_page_ok ?s q True" by blast
  then show ?thesis unfolding user_access_exact [of "0x5000" ?s 16 True, simplified] by simp
qed

end
