(* ===== verification/Elf.thy ===== *)
theory Elf
  imports CowFork "HOL-Library.Monad_Syntax"
begin

text \<open>
  The program loader, \<^verbatim>\<open>src/kernel/elf.c\<close>: an ELF32 image is checked, its loadable
  segments are copied page by page into fresh user pages, and a stack page is mapped.

  The image is a byte list.  A read at an offset outside it, and a copy that leaves the
  page it fills, have the value \<open>None\<close>: a loader that trusted a malformed header would
  return \<open>None\<close>.  Bytes of a frame are the bytes of its little-endian words.  Console
  output is omitted.
\<close>

section \<open>Reading the image\<close>

definition img8 :: "u8 list \<Rightarrow> nat \<Rightarrow> u8 option" where
  "img8 img i = (if i < length img then Some (img ! i) else None)"

definition img16 :: "u8 list \<Rightarrow> nat \<Rightarrow> u16 option" where
  "img16 img i = do { a \<leftarrow> img8 img i; b \<leftarrow> img8 img (i + 1); Some (ucast a OR push_bit 8 (ucast b)) }"

definition img32 :: "u8 list \<Rightarrow> nat \<Rightarrow> u32 option" where
  "img32 img i = do { a \<leftarrow> img16 img i; b \<leftarrow> img16 img (i + 2); Some (ucast a OR push_bit 16 (ucast b)) }"

definition img_slice :: "u8 list \<Rightarrow> nat \<Rightarrow> nat \<Rightarrow> u8 list option" where
  "img_slice img i n = (if i + n \<le> length img then Some (take n (drop i img)) else None)"

record elf32_ehdr =
  e_ident :: "u8 list"
  e_type :: u16
  e_machine :: u16
  e_version :: u32
  e_entry :: u32
  e_phoff :: u32
  e_shoff :: u32
  e_flags :: u32
  e_ehsize :: u16
  e_phentsize :: u16
  e_phnum :: u16
  e_shentsize :: u16
  e_shnum :: u16
  e_shstrndx :: u16

record elf32_phdr =
  p_type :: u32
  p_offset :: u32
  p_vaddr :: u32
  p_paddr :: u32
  p_filesz :: u32
  p_memsz :: u32
  p_flags :: u32
  p_align :: u32

definition ehdr_at :: "u8 list \<Rightarrow> elf32_ehdr option" where
  "ehdr_at img = do {
     ident \<leftarrow> img_slice img 0 16; ty \<leftarrow> img16 img 16; mach \<leftarrow> img16 img 18;
     ver \<leftarrow> img32 img 20; ent \<leftarrow> img32 img 24; phoff \<leftarrow> img32 img 28; shoff \<leftarrow> img32 img 32;
     flags \<leftarrow> img32 img 36; ehsize \<leftarrow> img16 img 40; phentsize \<leftarrow> img16 img 42; phnum \<leftarrow> img16 img 44;
     shentsize \<leftarrow> img16 img 46; shnum \<leftarrow> img16 img 48; shstrndx \<leftarrow> img16 img 50;
     Some \<lparr>e_ident = ident, e_type = ty, e_machine = mach, e_version = ver, e_entry = ent, e_phoff = phoff,
       e_shoff = shoff, e_flags = flags, e_ehsize = ehsize, e_phentsize = phentsize, e_phnum = phnum,
       e_shentsize = shentsize, e_shnum = shnum, e_shstrndx = shstrndx\<rparr> }"

definition phdr_at :: "u8 list \<Rightarrow> nat \<Rightarrow> elf32_phdr option" where
  "phdr_at img i = do {
     ty \<leftarrow> img32 img i; off \<leftarrow> img32 img (i + 4); va \<leftarrow> img32 img (i + 8); pa \<leftarrow> img32 img (i + 12);
     fs \<leftarrow> img32 img (i + 16); ms \<leftarrow> img32 img (i + 20); fl \<leftarrow> img32 img (i + 24); al \<leftarrow> img32 img (i + 28);
     Some \<lparr>p_type = ty, p_offset = off, p_vaddr = va, p_paddr = pa, p_filesz = fs, p_memsz = ms,
       p_flags = fl, p_align = al\<rparr> }"

section \<open>The loader\<close>

abbreviation (input) "ENOMEM \<equiv> (12 :: int)"
abbreviation (input) "EFAULT \<equiv> (14 :: int)"
abbreviation (input) "ENOEXEC \<equiv> (8 :: int)"
abbreviation (input) "ELF_EINVAL \<equiv> (22 :: int)"
abbreviation (input) "CATOS_USER_LIMIT \<equiv> (0xBFC00000 :: u32)"
abbreviation (input) "ELF_USER_STACK_BASE \<equiv> (0x700000 :: u32)"

definition pm_byte :: "'a paging_scheme \<Rightarrow> u32 \<Rightarrow> nat \<Rightarrow> u8" where
  "pm_byte s f k = ucast (drop_bit (8 * (k mod 4)) (pmem s f (k div 4)))"

definition pm_put_byte :: "u32 \<Rightarrow> nat \<Rightarrow> u8 \<Rightarrow> 'a paging_scheme \<Rightarrow> 'a paging_scheme" where
  "pm_put_byte f k b s =
     pm_set f (k div 4) ((pmem s f (k div 4) AND NOT (push_bit (8 * (k mod 4)) 0xFF))
       OR push_bit (8 * (k mod 4)) (ucast b)) s"

fun pm_put_bytes :: "u32 \<Rightarrow> nat \<Rightarrow> u8 list \<Rightarrow> 'a paging_scheme \<Rightarrow> 'a paging_scheme" where
  "pm_put_bytes f k [] s = s"
| "pm_put_bytes f k (b # bs) s = pm_put_bytes f (Suc k) bs (pm_put_byte f k b s)"

definition fill_page :: "u32 \<Rightarrow> nat \<Rightarrow> u8 list \<Rightarrow> 'a paging_scheme \<Rightarrow> 'a paging_scheme option" where
  "fill_page f k bs s = (if k + length bs \<le> 4096 then Some (pm_put_bytes f k bs s) else None)"

definition map_user_page :: "u32 \<Rightarrow> 'a paging_scheme \<Rightarrow> int \<times> u32 \<times> 'a paging_scheme" where
  "map_user_page virt s =
     (case pmm_alloc_page s of (phys, t) \<Rightarrow>
        if phys = 0 then (- ENOMEM, 0, t)
        else
          (case map_page virt phys (PAGE_PRESENT OR PAGE_RW OR PAGE_USER) (pm_zero phys t) of (r, u) \<Rightarrow>
             if r \<noteq> 0 then (- ENOMEM, 0, pmm_free_page phys u) else (0, phys, u)))"

definition ident_ok :: "elf32_ehdr \<Rightarrow> bool" where
  "ident_ok eh = (take 4 (e_ident eh) = [0x7F, 0x45, 0x4C, 0x46] \<and> e_ident eh ! 4 = 1 \<and> e_ident eh ! 5 = 1
     \<and> e_ident eh ! 6 = 1 \<and> e_type eh = 2 \<and> e_machine eh = 3 \<and> e_phentsize eh = 32)"

text \<open>The end of the program header table, computed in 64 bits.\<close>

definition table_end :: "elf32_ehdr \<Rightarrow> nat" where
  "table_end eh = unat (e_phoff eh) + unat (e_phnum eh) * unat (e_phentsize eh)"

definition seg_ok :: "nat \<Rightarrow> elf32_phdr \<Rightarrow> bool" where
  "seg_ok len ph \<longleftrightarrow>
     \<not> (p_memsz ph < p_filesz ph \<or> unat (p_offset ph) > len \<or> unat (p_offset ph) + unat (p_filesz ph) > len)
     \<and> \<not> (p_vaddr ph < 0x1000 \<or> unat (p_vaddr ph) + unat (p_memsz ph) > unat CATOS_USER_LIMIT)"

definition seg_pages :: "elf32_phdr \<Rightarrow> u32 list" where
  "seg_pages ph = page_steps (align_down (p_vaddr ph) PAGE_SIZE) (align_up (p_vaddr ph + p_memsz ph) PAGE_SIZE)"

definition copy_lo :: "elf32_phdr \<Rightarrow> u32 \<Rightarrow> u32" where
  "copy_lo ph vpage = max vpage (p_vaddr ph)"

definition copy_hi :: "elf32_phdr \<Rightarrow> u32 \<Rightarrow> u32" where
  "copy_hi ph vpage = min (vpage + PAGE_SIZE) (p_vaddr ph + p_filesz ph)"

definition elf_page :: "u8 list \<Rightarrow> elf32_phdr \<Rightarrow> u32 \<Rightarrow> 'a paging_scheme \<Rightarrow> (int \<times> 'a paging_scheme) option" where
  "elf_page img ph vpage s =
     (case map_user_page vpage s of (rc, frame, t) \<Rightarrow>
        if rc \<noteq> 0 then Some (rc, t)
        else if copy_lo ph vpage < copy_hi ph vpage then do {
          bs \<leftarrow> img_slice img (unat (p_offset ph) + unat (copy_lo ph vpage - p_vaddr ph))
                 (unat (copy_hi ph vpage - copy_lo ph vpage));
          u \<leftarrow> fill_page frame (unat (copy_lo ph vpage - vpage)) bs t;
          Some (0, u) }
        else Some (0, t))"

fun elf_seg_load :: "u8 list \<Rightarrow> elf32_phdr \<Rightarrow> u32 list \<Rightarrow> 'a paging_scheme \<Rightarrow> (int \<times> 'a paging_scheme) option" where
  "elf_seg_load img ph [] s = Some (0, s)"
| "elf_seg_load img ph (v # vs) s =
     do { (rc, t) \<leftarrow> elf_page img ph v s; if rc \<noteq> 0 then Some (rc, t) else elf_seg_load img ph vs t }"

text \<open>The loop over the program headers; the first component of the result is an error
  code or the number of segments loaded.\<close>

fun elf_segs :: "u8 list \<Rightarrow> elf32_ehdr \<Rightarrow> nat list \<Rightarrow> int \<Rightarrow> 'a paging_scheme \<Rightarrow> (int \<times> 'a paging_scheme) option" where
  "elf_segs img eh [] segs s = Some (segs, s)"
| "elf_segs img eh (i # is) segs s = do {
     ph \<leftarrow> phdr_at img (unat (e_phoff eh) + i * 32);
     if p_type ph \<noteq> 1 then elf_segs img eh is segs s
     else if \<not> seg_ok (length img) ph then Some (- EFAULT, s)
     else do {
       (rc, t) \<leftarrow> elf_seg_load img ph (seg_pages ph) s;
       if rc \<noteq> 0 then Some (rc, t) else elf_segs img eh is (segs + 1) t } }"

definition elf_load_ex ::
  "u8 list \<Rightarrow> u32 \<Rightarrow> 'a paging_scheme \<Rightarrow> (int \<times> u32 option \<times> 'a paging_scheme) option" where
  "elf_load_ex img stack_base s =
     (if length img < 52 then Some (- ENOEXEC, None, s)
      else if (stack_base AND (PAGE_SIZE - 1)) \<noteq> 0 \<or> stack_base < PAGE_SIZE \<or> stack_base > CATOS_USER_LIMIT - PAGE_SIZE
      then Some (- ELF_EINVAL, None, s)
      else do {
        eh \<leftarrow> ehdr_at img;
        if \<not> ident_ok eh then Some (- ENOEXEC, None, s)
        else if table_end eh > length img then Some (- EFAULT, None, s)
        else do {
          (segs, t) \<leftarrow> elf_segs img eh [0..<unat (e_phnum eh)] 0 s;
          if segs < 0 then Some (segs, None, t)
          else if segs = 0 then Some (- ENOEXEC, None, t)
          else (case map_user_page stack_base t of (rc, frame, u) \<Rightarrow>
                  if rc \<noteq> 0 then Some (- ENOMEM, None, u) else Some (segs, Some (e_entry eh), u)) } })"

definition elf_load :: "u8 list \<Rightarrow> 'a paging_scheme \<Rightarrow> (int \<times> u32 option \<times> 'a paging_scheme) option" where
  "elf_load img s = elf_load_ex img ELF_USER_STACK_BASE s"

section \<open>Bounds\<close>

lemma img8_in: "i < length img \<Longrightarrow> \<exists>v. img8 img i = Some v"
  by (simp add: img8_def)

lemma img16_in: "i + 1 < length img \<Longrightarrow> \<exists>v. img16 img i = Some v"
  using img8_in [of i img] img8_in [of "i + 1" img] by (auto simp: img16_def)

lemma img32_in: "i + 3 < length img \<Longrightarrow> \<exists>v. img32 img i = Some v"
  using img16_in [of i img] img16_in [of "i + 2" img] by (auto simp: img32_def)

lemma phdr_in: "i + 32 \<le> length img \<Longrightarrow> \<exists>ph. phdr_at img i = Some ph"
  using img32_in [of i img] img32_in [of "i + 4" img] img32_in [of "i + 8" img] img32_in [of "i + 12" img]
    img32_in [of "i + 16" img] img32_in [of "i + 20" img] img32_in [of "i + 24" img] img32_in [of "i + 28" img]
  by (auto simp: phdr_at_def)

lemma ehdr_in: "52 \<le> length img \<Longrightarrow> \<exists>eh. ehdr_at img = Some eh"
  using img16_in [of 16 img] img16_in [of 18 img] img32_in [of 20 img] img32_in [of 24 img] img32_in [of 28 img]
    img32_in [of 32 img] img32_in [of 36 img] img16_in [of 40 img] img16_in [of 42 img] img16_in [of 44 img]
    img16_in [of 46 img] img16_in [of 48 img] img16_in [of 50 img]
  by (auto simp: ehdr_at_def img_slice_def)

text \<open>The pages of an accepted segment are aligned and lie between the page at 0x1000 and
  the limit of user memory.\<close>

lemma page_steps_mem:
  assumes a: "unat p mod 4096 = 0" and v: "v \<in> set (page_steps p e)"
  shows "unat p \<le> unat v" "unat v < unat e" "unat v mod 4096 = 0"
proof -
  have lt: "unat p < unat e" using v by (auto simp: page_steps_def word_less_nat_alt split: if_splits)
  then have d: "unat (e - p) = unat e - unat p" by (simp add: unat_sub word_le_nat_alt)
  obtain k where k: "k < (unat (e - p) + 4095) div 4096" "v = p + of_nat k * 0x1000"
    using v by (auto simp: page_steps_def split: if_splits)
  have b: "unat p + k * 4096 < unat e" using k(1) d lt by auto
  then have u: "unat v = unat p + k * 4096" using unat_step [of p k] unat_u32_lt [of e] k(2) by simp
  show "unat p \<le> unat v" "unat v < unat e" "unat v mod 4096 = 0" using u b a by simp_all
qed

lemma seg_okD:
  assumes "seg_ok len ph"
  shows "unat (p_filesz ph) \<le> unat (p_memsz ph)" "unat (p_offset ph) + unat (p_filesz ph) \<le> len"
    "4096 \<le> unat (p_vaddr ph)" "unat (p_vaddr ph) + unat (p_memsz ph) \<le> 0xBFC00000"
    "unat (p_vaddr ph + p_memsz ph) = unat (p_vaddr ph) + unat (p_memsz ph)"
    "unat (p_vaddr ph + p_filesz ph) = unat (p_vaddr ph) + unat (p_filesz ph)"
proof -
  show a: "unat (p_filesz ph) \<le> unat (p_memsz ph)" "unat (p_offset ph) + unat (p_filesz ph) \<le> len"
    "4096 \<le> unat (p_vaddr ph)" "unat (p_vaddr ph) + unat (p_memsz ph) \<le> 0xBFC00000"
    using assms by (simp_all add: seg_ok_def word_less_nat_alt not_less)
  show "unat (p_vaddr ph + p_memsz ph) = unat (p_vaddr ph) + unat (p_memsz ph)"
    "unat (p_vaddr ph + p_filesz ph) = unat (p_vaddr ph) + unat (p_filesz ph)"
    using a by (simp_all add: unat_word_ariths)
qed

lemma seg_pages_user:
  assumes s: "seg_ok len ph" and v: "v \<in> set (seg_pages ph)"
  shows "unat v mod 4096 = 0" "4096 \<le> unat v" "unat v + 4096 \<le> 0xBFC00000"
proof -
  note o = seg_okD [OF s]
  have d: "unat (align_down (p_vaddr ph) 0x1000) = unat (p_vaddr ph) div 4096 * 4096"
    by (simp add: unat_align_down)
  have u: "unat (align_up (p_vaddr ph + p_memsz ph) 0x1000)
      = (unat (p_vaddr ph) + unat (p_memsz ph) + 4095) div 4096 * 4096"
    using o by (simp add: unat_align_up)
  have m: "unat (align_down (p_vaddr ph) 0x1000) mod 4096 = 0" by (simp add: d)
  note b = page_steps_mem [OF m v [unfolded seg_pages_def]]
  show "unat v mod 4096 = 0" by (rule b(3))
  have "1 \<le> unat (p_vaddr ph) div 4096" using o(3) by simp
  then show "4096 \<le> unat v" using b(1) unfolding d by linarith
  have "(unat (p_vaddr ph) + unat (p_memsz ph) + 4095) div 4096 \<le> (0xBFC00000 + 4095) div 4096"
    using o(4) by (intro div_le_mono) simp
  then have "unat v < 0xBFC00000" using b(2) unfolding u by simp
  moreover obtain q where "unat v = 4096 * q" using b(3) by (auto simp: mod_eq_0_iff_dvd)
  ultimately show "unat v + 4096 \<le> 0xBFC00000" by simp
qed

lemma copy_bounds:
  assumes s: "seg_ok len ph" and v: "unat v + 4096 \<le> 0xBFC00000" and c: "copy_lo ph v < copy_hi ph v"
  shows "unat (copy_lo ph v) = max (unat v) (unat (p_vaddr ph))"
    "unat (copy_hi ph v) = min (unat v + 4096) (unat (p_vaddr ph) + unat (p_filesz ph))"
    "unat (copy_lo ph v - p_vaddr ph) = unat (copy_lo ph v) - unat (p_vaddr ph)"
    "unat (copy_lo ph v - v) = unat (copy_lo ph v) - unat v"
    "unat (copy_hi ph v - copy_lo ph v) = unat (copy_hi ph v) - unat (copy_lo ph v)"
    "unat (copy_lo ph v) < unat (copy_hi ph v)"
proof -
  note o = seg_okD [OF s]
  have v4: "unat (v + 0x1000) = unat v + 4096" using v by (simp add: unat_word_ariths)
  show a: "unat (copy_lo ph v) = max (unat v) (unat (p_vaddr ph))"
    "unat (copy_hi ph v) = min (unat v + 4096) (unat (p_vaddr ph) + unat (p_filesz ph))"
    using v4 o(6) by (auto simp: copy_lo_def copy_hi_def max_def min_def word_le_nat_alt)
  show "unat (copy_lo ph v - p_vaddr ph) = unat (copy_lo ph v) - unat (p_vaddr ph)"
    "unat (copy_lo ph v - v) = unat (copy_lo ph v) - unat v"
    by (rule unat_sub, simp add: word_le_nat_alt a)+
  show "unat (copy_hi ph v - copy_lo ph v) = unat (copy_hi ph v) - unat (copy_lo ph v)"
    using c by (simp add: unat_sub)
  show "unat (copy_lo ph v) < unat (copy_hi ph v)" using c by (simp add: word_less_nat_alt)
qed

lemma elf_page_in:
  assumes s: "seg_ok (length img) ph" and v: "v \<in> set (seg_pages ph)"
  shows "\<exists>rc t. elf_page img ph v s0 = Some (rc, t)"
proof (cases "map_user_page v s0")
  case (fields rc f t)
  show ?thesis
  proof (cases "rc = 0 \<and> copy_lo ph v < copy_hi ph v")
    case True
    note b = copy_bounds [OF s seg_pages_user(3) [OF s v] conjunct2 [OF True]]
    have "unat (p_offset ph) + unat (copy_lo ph v - p_vaddr ph) + unat (copy_hi ph v - copy_lo ph v) \<le> length img"
      using b seg_okD(2) [OF s] by linarith
    moreover have "unat (copy_lo ph v - v) + unat (copy_hi ph v - copy_lo ph v) \<le> 4096"
      using b by linarith
    ultimately show ?thesis using True fields by (simp add: elf_page_def img_slice_def fill_page_def)
  next
    case False
    then show ?thesis using fields by (cases "rc = 0") (simp_all add: elf_page_def)
  qed
qed

lemma elf_seg_load_in:
  assumes "seg_ok (length img) ph" "set vs \<subseteq> set (seg_pages ph)"
  shows "\<exists>rc t. elf_seg_load img ph vs s = Some (rc, t)"
  using assms(2)
proof (induction vs arbitrary: s)
  case (Cons v vs)
  then show ?case using elf_page_in [OF assms(1), of v s] by auto
qed simp

lemma elf_segs_in:
  assumes "\<forall>i \<in> set is. unat (e_phoff eh) + i * 32 + 32 \<le> length img"
  shows "\<exists>r t. elf_segs img eh is n s = Some (r, t)"
  using assms
proof (induction "is" arbitrary: n s)
  case (Cons i "is")
  obtain ph where p: "phdr_at img (unat (e_phoff eh) + i * 32) = Some ph"
    using phdr_in [of "unat (e_phoff eh) + i * 32" img] Cons.prems by auto
  have "\<forall>i \<in> set is. unat (e_phoff eh) + i * 32 + 32 \<le> length img" using Cons.prems by simp
  note IH = Cons.IH [OF this]
  show ?case
  proof (cases "seg_ok (length img) ph")
    case True
    then obtain rc t where "elf_seg_load img ph (seg_pages ph) s = Some (rc, t)"
      using elf_seg_load_in by blast
    then show ?thesis using p IH by simp
  qed (use p IH in simp)
qed simp

text \<open>Property C11: whatever the bytes of the image are, the loader never reads outside the
  image and never writes outside the page it is filling; every load ends with an error
  code or a loaded program.\<close>

theorem elf_load_in_bounds: "\<exists>rc entry t. elf_load_ex img stack_base s = Some (rc, entry, t)"
proof (cases "52 \<le> length img")
  case True
  then obtain eh where e: "ehdr_at img = Some eh" using ehdr_in by blast
  show ?thesis
  proof (cases "ident_ok eh \<and> table_end eh \<le> length img")
    case True
    have "unat (e_phoff eh) + i * 32 + 32 \<le> length img" if "i < unat (e_phnum eh)" for i
    proof -
      have "i * 32 + 32 \<le> unat (e_phnum eh) * 32" using that by simp
      moreover have "unat (e_phentsize eh) = 32" using True by (simp add: ident_ok_def)
      ultimately show ?thesis using True by (simp add: table_end_def)
    qed
    then obtain r t where "elf_segs img eh [0..<unat (e_phnum eh)] 0 s = Some (r, t)"
      using elf_segs_in [of "[0..<unat (e_phnum eh)]" eh img 0 s] by auto
    then show ?thesis using e by (simp add: elf_load_ex_def split: prod.splits)
  qed (use e in \<open>auto simp: elf_load_ex_def\<close>)
qed (simp add: elf_load_ex_def)

end
