(* ===== verification/Keyboard.thy ===== *)
theory Keyboard
  imports Fifo
begin

text \<open>
  The keyboard driver, \<^verbatim>\<open>src/drivers/keyboard.c\<close>, and the blocking read of
  \<^verbatim>\<open>src/drivers/kbdwait.c\<close>: a decoder of set-1 scan codes run by the interrupt
  handler, and a ring of 256 characters between the handler and the readers.  The
  scan code the handler reads from port 0x60 is its argument.  The programming of the
  controller in \<open>keyboard_init\<close> is port access and is left out.
\<close>

section \<open>State\<close>

datatype kbstate = KS_BASE | KS_E0 | KS_E1

record kbd =
  kq :: "u8 list"
  kb_h :: u8
  kb_t :: u8
  kb_shift :: bool
  kb_ctrl :: bool
  ks :: kbstate
  e1_left :: u8

definition kbd_boot :: kbd where
  "kbd_boot = \<lparr>kq = replicate 256 0, kb_h = 0, kb_t = 0, kb_shift = False, kb_ctrl = False, ks = KS_BASE, e1_left = 0\<rparr>"

section \<open>The ring\<close>

definition putc_q :: "u8 \<Rightarrow> kbd \<Rightarrow> kbd" where
  "putc_q c k = (let n = kb_h k + 1 in
     if n = kb_t k then k else k\<lparr>kq := (kq k)[unat (kb_h k) := c], kb_h := n\<rparr>)"

definition putc_q_str :: "u8 list \<Rightarrow> kbd \<Rightarrow> kbd" where
  "putc_q_str s k = fold putc_q s k"

text \<open>A \<open>char\<close> is signed: the value returned for a byte above 127 would be negative.\<close>

definition keyboard_getchar :: "kbd \<Rightarrow> int \<times> kbd" where
  "keyboard_getchar k =
     (if kb_t k = kb_h k then (- 1, k) else (sint (kq k ! unat (kb_t k)), k\<lparr>kb_t := kb_t k + 1\<rparr>))"

section \<open>The scan code tables\<close>

definition lo_tab :: "u8 list" where
  "lo_tab =
    [0, 0, 0x31, 0x32, 0x33, 0x34, 0x35, 0x36, 0x37, 0x38, 0x39, 0x30, 0x2D, 0x3D, 0x08, 0x09,
     0x71, 0x77, 0x65, 0x72, 0x74, 0x79, 0x75, 0x69, 0x6F, 0x70, 0x5B, 0x5D, 0x0A, 0, 0x61, 0x73,
     0x64, 0x66, 0x67, 0x68, 0x6A, 0x6B, 0x6C, 0x3B, 0x27, 0x60, 0, 0x5C, 0x7A, 0x78, 0x63, 0x76,
     0x62, 0x6E, 0x6D, 0x2C, 0x2E, 0x2F, 0, 0, 0, 0x20, 0, 0, 0, 0, 0, 0]"

definition hi_tab :: "u8 list" where
  "hi_tab =
    [0, 0, 0x21, 0x40, 0x23, 0x24, 0x25, 0x5E, 0x26, 0x2A, 0x28, 0x29, 0x5F, 0x2B, 0x08, 0x09,
     0x51, 0x57, 0x45, 0x52, 0x54, 0x59, 0x55, 0x49, 0x4F, 0x50, 0x7B, 0x7D, 0x0A, 0, 0x41, 0x53,
     0x44, 0x46, 0x47, 0x48, 0x4A, 0x4B, 0x4C, 0x3A, 0x22, 0x7E, 0, 0x7C, 0x5A, 0x58, 0x43, 0x56,
     0x42, 0x4E, 0x4D, 0x3C, 0x3E, 0x3F, 0, 0, 0, 0x20, 0, 0, 0, 0, 0, 0]"

definition ext_map :: "(u8 \<times> u8 list) list" where
  "ext_map =
    [(0x48, [0x1B, 0x5B, 0x41]), (0x50, [0x1B, 0x5B, 0x42]), (0x4D, [0x1B, 0x5B, 0x43]),
     (0x4B, [0x1B, 0x5B, 0x44]), (0x47, [0x1B, 0x5B, 0x48]), (0x4F, [0x1B, 0x5B, 0x46]),
     (0x53, [0x7F]), (0x1C, [0x0A]), (0x35, [0x2F])]"

abbreviation (input) "SC_LCTRL \<equiv> (0x1D :: u8)"
abbreviation (input) "SC_LALT \<equiv> (0x38 :: u8)"
abbreviation (input) "SC_LSHIFT \<equiv> (0x2A :: u8)"
abbreviation (input) "SC_RSHIFT \<equiv> (0x36 :: u8)"

section \<open>The interrupt handler\<close>

text \<open>The character of a key with control pressed; \<open>None\<close> is no character.\<close>

definition ctrl_char :: "u8 \<Rightarrow> u8 option" where
  "ctrl_char c =
     (if 0x61 \<le> c \<and> c \<le> 0x7A then Some (c - 0x61 + 1)
      else if 0x41 \<le> c \<and> c \<le> 0x5A then Some (c - 0x41 + 1)
      else if c = 0x5B then Some 0x1B
      else None)"

definition kh_make :: "u8 \<Rightarrow> kbd \<Rightarrow> kbd" where
  "kh_make s k =
     (if s = SC_LSHIFT \<or> s = SC_RSHIFT then k\<lparr>kb_shift := True\<rparr>
      else if s = SC_LCTRL then k\<lparr>kb_ctrl := True\<rparr>
      else if s = SC_LALT then k
      else if s < 0x40 then
        let c = (if kb_shift k then hi_tab else lo_tab) ! unat s in
        if c = 0 then k
        else if kb_ctrl k then (case ctrl_char c of None \<Rightarrow> k | Some c \<Rightarrow> putc_q c k)
        else putc_q c k
      else k)"

definition kh :: "u8 \<Rightarrow> kbd \<Rightarrow> kbd" where
  "kh s k =
     (case ks k of
        KS_E1 \<Rightarrow>
          let k = k\<lparr>e1_left := e1_left k - 1\<rparr> in if e1_left k = 0 then k\<lparr>ks := KS_BASE\<rparr> else k
      | KS_E0 \<Rightarrow>
          let k = k\<lparr>ks := KS_BASE\<rparr> in
          if s AND 0x80 \<noteq> 0 then (if s AND 0x7F = SC_LCTRL then k\<lparr>kb_ctrl := False\<rparr> else k)
          else (case map_of ext_map s of None \<Rightarrow> k | Some cs \<Rightarrow> putc_q_str cs k)
      | KS_BASE \<Rightarrow>
          if s = 0xE0 then k\<lparr>ks := KS_E0\<rparr>
          else if s = 0xE1 then k\<lparr>ks := KS_E1, e1_left := 7\<rparr>
          else if s AND 0x80 \<noteq> 0 then
            let code = s AND 0x7F in
            if code = SC_LSHIFT \<or> code = SC_RSHIFT then k\<lparr>kb_shift := False\<rparr>
            else if code = SC_LCTRL then k\<lparr>kb_ctrl := False\<rparr> else k
          else kh_make s k)"

section \<open>The blocking read\<close>

text \<open>Each \<open>hlt\<close> ends with an interrupt.  The list holds, for every wake-up, the scan
  codes the keyboard interrupts have delivered since the last poll and the tick count then;
  \<open>None\<close> is a reader that is still waiting.\<close>

fun kbd_wait :: "(u8 list \<times> u32) list \<Rightarrow> u32 \<Rightarrow> u32 \<Rightarrow> u32 \<Rightarrow> kbd \<Rightarrow> (int \<times> kbd) option" where
  "kbd_wait wakes start budget now k =
     (case keyboard_getchar k of (c, k) \<Rightarrow>
        if c \<ge> 0 then Some (c, k)
        else if now - start \<ge> budget then Some (- 1, k)
        else (case wakes of [] \<Rightarrow> None
              | (ss, tick) # wakes \<Rightarrow> kbd_wait wakes start budget tick (fold kh ss k)))"

definition keyboard_getchar_blocking ::
  "u32 \<Rightarrow> (u8 list \<times> u32) list \<Rightarrow> u32 \<Rightarrow> kbd \<Rightarrow> (int \<times> kbd) option" where
  "keyboard_getchar_blocking timeout_ms wakes ticks k =
     (if timeout_ms = 0 then Some (keyboard_getchar k)
      else let budget = timeout_ms div 10 in
        kbd_wait wakes ticks (if budget = 0 then 1 else budget) ticks k)"

section \<open>The ring as a bounded queue\<close>

definition kb_len :: "kbd \<Rightarrow> nat" where
  "kb_len k = unat (kb_h k - kb_t k)"

definition kb_abs :: "kbd \<Rightarrow> u8 list" where
  "kb_abs k = map (\<lambda>i. kq k ! unat (kb_t k + of_nat i)) [0..<kb_len k]"

text \<open>The characters in the ring are below 128, so no character reads as the value \<open>-1\<close>
  that reports an empty ring.\<close>

definition kb_inv :: "kbd \<Rightarrow> bool" where
  "kb_inv k \<longleftrightarrow> length (kq k) = 256 \<and> (\<forall>c \<in> set (kb_abs k). c < 0x80) \<and> (ks k = KS_E1 \<longrightarrow> 0 < e1_left k)"

definition kb_push :: "u8 \<Rightarrow> kbd \<Rightarrow> kbd option" where
  "kb_push c k = (if kb_h k + 1 = kb_t k \<or> 0x80 \<le> c then None else Some (putc_q c k))"

definition kb_pop :: "kbd \<Rightarrow> (u8 \<times> kbd) option" where
  "kb_pop k = (case keyboard_getchar k of (c, k') \<Rightarrow> if c < 0 then None else Some (word_of_int c, k'))"

lemma of_nat_len: "of_nat (kb_len k) = kb_h k - kb_t k"
  by (simp add: kb_len_def)

lemma kb_len_lt: "kb_len k < 256"
  using unat_u8_lt [of "kb_h k - kb_t k"] by (simp add: kb_len_def)

lemma kb_full_iff: "kb_h k + 1 = kb_t k \<longleftrightarrow> kb_len k = 255"
proof -
  have "kb_h k - t = 255 \<longleftrightarrow> kb_h k + 1 = t" for t
  proof
    assume "kb_h k - t = 255"
    then have "kb_h k = 255 + t" by (simp add: diff_eq_eq)
    then show "kb_h k + 1 = t" by simp
  next
    assume t: "kb_h k + 1 = t"
    show "kb_h k - t = 255" unfolding t [symmetric] by simp
  qed
  then have "kb_h k + 1 = kb_t k \<longleftrightarrow> kb_h k - kb_t k = 255" by blast
  also have "\<dots> \<longleftrightarrow> kb_len k = 255" by (simp add: kb_len_def word_unat_eq_iff)
  finally show ?thesis .
qed

lemma length_kb_abs [simp]: "length (kb_abs k) = kb_len k"
  by (simp add: kb_abs_def)

lemma kb_put:
  assumes q: "length (kq k) = 256" and f: "kb_len k \<noteq> 255"
  shows "kb_abs (putc_q c k) = kb_abs k @ [c]"
proof -
  have r: "putc_q c k = k\<lparr>kq := (kq k)[unat (kb_h k) := c], kb_h := kb_h k + 1\<rparr>"
    using f kb_full_iff [of k] by (simp add: putc_q_def Let_def)
  have l: "kb_len (putc_q c k) = Suc (kb_len k)"
  proof -
    have "kb_h k + 1 - kb_t k = of_nat (Suc (kb_len k))" using of_nat_len [of k] by simp
    then have "unat (kb_h k + 1 - kb_t k) = Suc (kb_len k)"
      using kb_len_lt [of k] f by (simp only: unat_of_nat) simp
    then show ?thesis by (simp add: r kb_len_def)
  qed
  have old: "(kq k)[unat (kb_h k) := c] ! unat (kb_t k + of_nat i) = kq k ! unat (kb_t k + of_nat i)"
    if "i < kb_len k" for i
  proof -
    have "kb_t k + of_nat i \<noteq> kb_h k"
    proof
      assume "kb_t k + of_nat i = kb_h k"
      then have "of_nat i = (of_nat (kb_len k) :: u8)" using of_nat_len [of k] by (metis add_diff_cancel_left')
      then have "unat (of_nat i :: u8) = unat (of_nat (kb_len k) :: u8)" by simp
      then show False using that kb_len_lt [of k] by (simp add: unat_of_nat)
    qed
    then have "unat (kb_h k) \<noteq> unat (kb_t k + of_nat i)" by (metis word_unat_eq_iff)
    then show ?thesis by (rule nth_list_update_neq)
  qed
  have "kb_t k + of_nat (kb_len k) = kb_h k" using of_nat_len [of k] by simp
  moreover have "unat (kb_h k) < 256" using unat_u8_lt [of "kb_h k"] by simp
  ultimately show ?thesis
    using q old unfolding kb_abs_def l by (simp add: r)
qed

lemma kb_put_full: "kb_len k = 255 \<Longrightarrow> putc_q c k = k"
  using kb_full_iff [of k] by (simp add: putc_q_def)

lemma kb_len_0: "kb_t k = kb_h k \<longleftrightarrow> kb_len k = 0"
  by (auto simp: kb_len_def unsigned_eq_0_iff)

lemma kb_take:
  assumes "kb_len k \<noteq> 0"
  shows "kb_abs k = kq k ! unat (kb_t k) # kb_abs (k\<lparr>kb_t := kb_t k + 1\<rparr>)"
proof -
  have "kb_h k - (kb_t k + 1) = of_nat (kb_len k - 1)"
    using of_nat_len [of k] assms by (simp add: of_nat_diff)
  then have l: "kb_len (k\<lparr>kb_t := kb_t k + 1\<rparr>) = kb_len k - 1"
    using kb_len_lt [of k] by (simp add: kb_len_def) (simp add: unat_of_nat kb_len_def)
  have "[0..<kb_len k] = 0 # map Suc [0..<kb_len k - 1]"
    using assms by (metis Suc_pred' bot_nat_0.not_eq_extremum map_Suc_upt upt_conv_Cons)
  then show ?thesis by (simp add: kb_abs_def l add.assoc)
qed

lemma putc_q_fields [simp]:
  "kb_shift (putc_q c k) = kb_shift k" "kb_ctrl (putc_q c k) = kb_ctrl k" "ks (putc_q c k) = ks k"
  "e1_left (putc_q c k) = e1_left k" "length (kq (putc_q c k)) = length (kq k)"
  by (simp_all add: putc_q_def Let_def)

lemma kb_inv_put: "kb_inv k \<Longrightarrow> c < 0x80 \<Longrightarrow> kb_inv (putc_q c k)"
  by (cases "kb_len k = 255") (auto simp: kb_inv_def kb_put_full kb_put)

lemma sint_ascii: "(c :: u8) < 0x80 \<Longrightarrow> sint c = uint c"
proof -
  assume "c < 0x80"
  then have "uint c < 0x80" by (simp add: word_less_def)
  then show ?thesis by (simp add: sint_uint signed_take_bit_eq_if_positive bit_iff_odd take_bit_int_eq_self)
qed

lemma kb_getchar:
  assumes "kb_inv k"
  shows "keyboard_getchar k = (case kb_abs k of [] \<Rightarrow> (- 1, k) | c # _ \<Rightarrow> (uint c, k\<lparr>kb_t := kb_t k + 1\<rparr>))"
proof (cases "kb_len k = 0")
  case True
  then show ?thesis by (simp add: keyboard_getchar_def kb_len_0 kb_abs_def)
next
  case False
  then have "kq k ! unat (kb_t k) < 0x80"
    using assms kb_take [OF False] by (auto simp: kb_inv_def)
  then show ?thesis using False kb_take [OF False] by (simp add: keyboard_getchar_def kb_len_0 sint_ascii)
qed

lemma kb_inv_take: "kb_inv k \<Longrightarrow> kb_len k \<noteq> 0 \<Longrightarrow> kb_inv (k\<lparr>kb_t := kb_t k + 1\<rparr>)"
  using kb_take [of k] by (auto simp: kb_inv_def)

interpretation kbring: bounded_fifo kb_inv kb_abs kb_push kb_pop
proof (unfold_locales, goal_cases)
  case (1 s x s')
  then show ?case by (auto simp: kb_push_def kb_inv_put not_le split: if_splits)
next
  case (2 s x s')
  then show ?case by (auto simp: kb_push_def kb_full_iff kb_inv_def kb_put split: if_splits)
next
  case (3 s x s')
  then show ?case
    using kb_inv_take [of s] by (auto simp: kb_pop_def kb_getchar split: list.splits if_splits dest: arg_cong [where f = length])
next
  case (4 s x s')
  then show ?case
    using kb_take [of s] by (auto simp: kb_pop_def kb_getchar split: list.splits if_splits dest: arg_cong [where f = length])
next
  case (5 s)
  then show ?case by (auto simp: kb_pop_def kb_getchar split: list.splits)
qed

section \<open>The decoder\<close>

text \<open>What the handler does to its mode and which characters it produces, without the ring.\<close>

type_synonym kmode = "kbstate \<times> bool \<times> bool \<times> u8"

definition kb_mode :: "kbd \<Rightarrow> kmode" where
  "kb_mode k = (ks k, kb_shift k, kb_ctrl k, e1_left k)"

definition key_chars :: "bool \<Rightarrow> bool \<Rightarrow> u8 \<Rightarrow> u8 list" where
  "key_chars sh ct s =
     (let c = (if sh then hi_tab else lo_tab) ! unat s in
      if s \<in> {SC_LSHIFT, SC_RSHIFT, SC_LCTRL, SC_LALT} \<or> 0x40 \<le> s \<or> c = 0 then []
      else if ct then (case ctrl_char c of None \<Rightarrow> [] | Some c \<Rightarrow> [c]) else [c])"

fun decode :: "kmode \<Rightarrow> u8 \<Rightarrow> kmode \<times> u8 list" where
  "decode (KS_E1, sh, ct, n) s = ((if n = 1 then KS_BASE else KS_E1, sh, ct, n - 1), [])"
| "decode (KS_E0, sh, ct, n) s =
     ((KS_BASE, sh, ct \<and> s \<noteq> 0x9D, n),
      if s < 0x80 then (case map_of ext_map s of None \<Rightarrow> [] | Some cs \<Rightarrow> cs) else [])"
| "decode (KS_BASE, sh, ct, n) s =
     (if s = 0xE0 then ((KS_E0, sh, ct, n), [])
      else if s = 0xE1 then ((KS_E1, sh, ct, 7), [])
      else ((KS_BASE, (sh \<or> s \<in> {SC_LSHIFT, SC_RSHIFT}) \<and> s \<notin> {0xAA, 0xB6},
             (ct \<or> s = SC_LCTRL) \<and> s \<noteq> 0x9D, n),
            if s < 0x80 then key_chars sh ct s else []))"

definition fill :: "u8 list \<Rightarrow> u8 list \<Rightarrow> u8 list" where
  "fill cs q = take 255 (q @ cs)"

datatype kev = Scan u8 | Read

fun kb_run :: "kev list \<Rightarrow> kbd \<Rightarrow> int list" where
  "kb_run [] k = []"
| "kb_run (Scan s # es) k = kb_run es (kh s k)"
| "kb_run (Read # es) k = (case keyboard_getchar k of (c, k) \<Rightarrow> c # kb_run es k)"

fun kb_spec :: "kev list \<Rightarrow> kmode \<Rightarrow> u8 list \<Rightarrow> int list" where
  "kb_spec [] m q = []"
| "kb_spec (Scan s # es) m q = (case decode m s of (m, cs) \<Rightarrow> kb_spec es m (fill cs q))"
| "kb_spec (Read # es) m q = (case q of [] \<Rightarrow> - 1 # kb_spec es m [] | c # q \<Rightarrow> uint c # kb_spec es m q)"

lemma u8_all: "(\<forall>s :: u8. P s) \<longleftrightarrow> list_all P (map of_nat [0..<256])"
proof -
  have "P s" if "\<forall>n<256. P (of_nat n)" for s :: u8
    using that [rule_format, of "unat s"] unat_u8_lt [of s] by simp
  then show ?thesis by (auto simp: list_all_iff)
qed

lemma break_codes:
  "\<forall>s :: u8. (s AND 0x80 \<noteq> 0 \<longleftrightarrow> 0x80 \<le> s) \<and> (0x80 \<le> s \<longrightarrow>
     (s AND 0x7F = 0x1D \<longleftrightarrow> s = 0x9D) \<and> (s AND 0x7F = 0x2A \<longleftrightarrow> s = 0xAA) \<and> (s AND 0x7F = 0x36 \<longleftrightarrow> s = 0xB6))"
  unfolding u8_all by code_simp

lemma ctrl_char_ascii: "\<forall>c. case ctrl_char c of None \<Rightarrow> True | Some d \<Rightarrow> d < 0x80"
  unfolding u8_all by code_simp

lemma tables_ascii: "list_all (\<lambda>c. c < 0x80) (lo_tab @ hi_tab @ concat (map snd ext_map))"
  "length lo_tab = 64" "length hi_tab = 64"
  by code_simp+

lemma tab_char: "s < 0x40 \<Longrightarrow> (if sh then hi_tab else lo_tab) ! unat (s :: u8) < 0x80"
  using tables_ascii by (auto simp: list_all_iff word_less_nat_alt)

lemma ext_chars: "map_of ext_map s = Some cs \<Longrightarrow> c \<in> set cs \<Longrightarrow> c < 0x80"
  using tables_ascii(1) by (fastforce simp: list_all_iff dest!: map_of_SomeD)

lemma fill_one: "kb_inv k \<Longrightarrow> kb_abs (putc_q c k) = fill [c] (kb_abs k)"
  using kb_len_lt [of k] by (cases "kb_len k = 255") (simp_all add: kb_put_full kb_put kb_inv_def fill_def)

lemma fill_Cons: "length q \<le> 255 \<Longrightarrow> fill cs (fill [c] q) = fill (c # cs) q"
  by (cases "length q = 255") (simp_all add: fill_def)

lemma putc_q_str_fields:
  "ks (putc_q_str cs k) = ks k" "kb_shift (putc_q_str cs k) = kb_shift k" "kb_ctrl (putc_q_str cs k) = kb_ctrl k"
  "e1_left (putc_q_str cs k) = e1_left k"
  by (induction cs arbitrary: k) (simp_all add: putc_q_str_def)

lemma putc_q_str_abs:
  "kb_inv k \<Longrightarrow> \<forall>c \<in> set cs. c < 0x80 \<Longrightarrow>
     kb_inv (putc_q_str cs k) \<and> kb_abs (putc_q_str cs k) = fill cs (kb_abs k)"
proof (induction cs arbitrary: k)
  case Nil
  then show ?case using kb_len_lt [of k] by (simp add: putc_q_str_def fill_def)
next
  case (Cons c cs)
  then have "kb_inv (putc_q c k)" by (simp add: kb_inv_put)
  then show ?case
    using Cons.IH [of "putc_q c k"] Cons.prems fill_one [of k c] fill_Cons [of "kb_abs k" cs c] kb_len_lt [of k]
    by (simp add: putc_q_str_def)
qed

lemma fill_Nil: "fill [] (kb_abs k) = kb_abs k"
  using kb_len_lt [of k] by (simp add: fill_def)

text \<open>Changes of the mode fields keep the ring.\<close>

lemma kb_abs_mode [simp]:
  "kb_abs (k\<lparr>ks := a\<rparr>) = kb_abs k" "kb_abs (k\<lparr>kb_shift := b\<rparr>) = kb_abs k" "kb_abs (k\<lparr>kb_ctrl := b\<rparr>) = kb_abs k"
  "kb_abs (k\<lparr>e1_left := n\<rparr>) = kb_abs k"
  by (simp_all add: kb_abs_def kb_len_def)

lemma kh_make_decode:
  assumes k: "kb_inv k" and s: "s < 0x80"
  shows "kb_inv (kh_make s k) \<and> kb_abs (kh_make s k) = fill (key_chars (kb_shift k) (kb_ctrl k) s) (kb_abs k)
    \<and> kb_mode (kh_make s k) = (ks k, kb_shift k \<or> s \<in> {SC_LSHIFT, SC_RSHIFT}, kb_ctrl k \<or> s = SC_LCTRL, e1_left k)"
proof (cases "s \<in> {SC_LSHIFT, SC_RSHIFT, SC_LCTRL, SC_LALT} \<or> 0x40 \<le> s")
  case True
  then show ?thesis using k by (auto simp: kh_make_def key_chars_def kb_mode_def kb_inv_def fill_Nil)
next
  case False
  define c where "c = (if kb_shift k then hi_tab else lo_tab) ! unat s"
  have c: "c < 0x80" using tab_char [of s "kb_shift k"] False by (simp add: c_def not_le)
  have one: "kb_inv (putc_q d k) \<and> kb_abs (putc_q d k) = fill [d] (kb_abs k) \<and> kb_mode (putc_q d k) = kb_mode k"
    if "d < 0x80" for d
    using k that by (simp add: kb_inv_put fill_one kb_mode_def)
  have m: "kh_make s k = (if c = 0 then k
      else if kb_ctrl k then (case ctrl_char c of None \<Rightarrow> k | Some c \<Rightarrow> putc_q c k) else putc_q c k)"
    using False by (auto simp: kh_make_def c_def not_le)
  have ch: "key_chars (kb_shift k) (kb_ctrl k) s = (if c = 0 then []
      else if kb_ctrl k then (case ctrl_char c of None \<Rightarrow> [] | Some c \<Rightarrow> [c]) else [c])"
    using False unfolding key_chars_def c_def Let_def by auto
  have mode: "(ks k, kb_shift k \<or> s \<in> {SC_LSHIFT, SC_RSHIFT}, kb_ctrl k \<or> s = SC_LCTRL, e1_left k) = kb_mode k"
    using False by (auto simp: kb_mode_def)
  show ?thesis
    unfolding mode unfolding m ch
    using k one [OF c] one ctrl_char_ascii [rule_format, of c]
    by (auto simp: fill_Nil split: option.splits)
qed

lemma kh_decode:
  assumes k: "kb_inv k"
  shows "kb_inv (kh s k) \<and> kb_abs (kh s k) = fill (snd (decode (kb_mode k) s)) (kb_abs k)
    \<and> kb_mode (kh s k) = fst (decode (kb_mode k) s)"
proof (cases "ks k")
  case KS_E1
  have "e1_left k - 1 = 0 \<longleftrightarrow> e1_left k = 1" by simp
  moreover have "e1_left k \<noteq> 1 \<Longrightarrow> 0 < e1_left k - 1" by (simp add: word_gt_0)
  ultimately show ?thesis
    using k KS_E1 by (auto simp: kh_def kb_mode_def kb_inv_def fill_Nil Let_def)
next
  case KS_E0
  define k0 where "k0 = k\<lparr>ks := KS_BASE\<rparr>"
  have k0: "kb_inv k0" "kb_abs k0 = kb_abs k" using k by (auto simp: k0_def kb_inv_def)
  show ?thesis
  proof (cases "0x80 \<le> s")
    case True
    then show ?thesis
      using k KS_E0 break_codes [rule_format, of s]
      by (auto simp: kh_def kb_mode_def kb_inv_def fill_Nil Let_def)
  next
    case False
    then have h: "kh s k = (case map_of ext_map s of None \<Rightarrow> k0 | Some cs \<Rightarrow> putc_q_str cs k0)"
      using KS_E0 break_codes [rule_format, of s] unfolding k0_def by (simp add: kh_def Let_def)
    have "s \<noteq> 0x9D" using False by auto
    then have d: "decode (kb_mode k) s = ((KS_BASE, kb_shift k, kb_ctrl k, e1_left k),
        case map_of ext_map s of None \<Rightarrow> [] | Some cs \<Rightarrow> cs)"
      using KS_E0 False by (simp add: kb_mode_def not_le)
    have m: "ks k0 = KS_BASE" "kb_shift k0 = kb_shift k" "kb_ctrl k0 = kb_ctrl k" "e1_left k0 = e1_left k"
      by (simp_all add: k0_def)
    show ?thesis
    proof (cases "map_of ext_map s")
      case None
      then show ?thesis using k0 m fill_Nil [of k] unfolding h d by (simp add: kb_mode_def)
    next
      case (Some cs)
      have "\<forall>c \<in> set cs. c < 0x80" using ext_chars [OF Some] by blast
      then show ?thesis
        using putc_q_str_abs [OF k0(1), of cs] k0(2) m Some unfolding h d
        by (simp add: kb_mode_def putc_q_str_fields)
    qed
  qed
next
  case KS_BASE
  show ?thesis
  proof (cases "s = 0xE0 \<or> s = 0xE1 \<or> 0x80 \<le> s")
    case True
    then show ?thesis
      using k KS_BASE break_codes [rule_format, of s]
      by (auto simp: kh_def kb_mode_def kb_inv_def fill_Nil Let_def)
  next
    case False
    then have s: "s < 0x80" "s \<notin> {0xE0, 0xE1, 0xAA, 0xB6, 0x9D}" by (auto simp: not_le)
    then have h: "kh s k = kh_make s k"
      using False KS_BASE break_codes [rule_format, of s] by (simp add: kh_def)
    show ?thesis using kh_make_decode [OF k s(1)] s KS_BASE unfolding h by (simp add: kb_mode_def)
  qed
qed

lemma kb_run_spec: "kb_inv k \<Longrightarrow> kb_run es k = kb_spec es (kb_mode k) (kb_abs k)"
proof (induction es arbitrary: k)
  case (Cons e es)
  show ?case
  proof (cases e)
    case (Scan s)
    then show ?thesis using Cons kh_decode [OF Cons.prems, of s] by (simp add: split_beta)
  next
    case Read
    show ?thesis
    proof (cases "kb_abs k")
      case Nil
      then show ?thesis using Read Cons kb_getchar [OF Cons.prems] by simp
    next
      case (Cons c q)
      then have "kb_len k \<noteq> 0" using length_kb_abs [of k] by auto
      then have "kb_abs (k\<lparr>kb_t := kb_t k + 1\<rparr>) = q" "kb_inv (k\<lparr>kb_t := kb_t k + 1\<rparr>)"
        using Cons kb_take [of k] kb_inv_take \<open>kb_inv k\<close> by simp_all
      moreover have "kb_mode (k\<lparr>kb_t := kb_t k + 1\<rparr>) = kb_mode k" by (simp add: kb_mode_def)
      ultimately show ?thesis
        using Read Cons kb_getchar [OF \<open>kb_inv k\<close>] Cons.IH by simp
    qed
  qed
qed simp

text \<open>Property C16: from boot on, whatever the interleaving of key interrupts and reads, the
  values the readers get are those of a queue of 255 characters fed by the scan code
  decoder: characters arrive in order, each once, and only what exceeds the capacity is
  lost; \<open>-1\<close> is returned exactly when the queue is empty.\<close>

theorem keyboard_refines: "kb_run es kbd_boot = kb_spec es (KS_BASE, False, False, 0) []"
proof -
  have "kb_inv kbd_boot" by (simp add: kb_inv_def kbd_boot_def kb_abs_def kb_len_def)
  moreover have "kb_abs kbd_boot = []" by (simp add: kbd_boot_def kb_abs_def kb_len_def)
  moreover have "kb_mode kbd_boot = (KS_BASE, False, False, 0)" by (simp add: kbd_boot_def kb_mode_def)
  ultimately show ?thesis using kb_run_spec [of kbd_boot es] by simp
qed

text \<open>A blocking read returns at the latest when its budget of ticks is used up.\<close>

lemma kbd_wait_returns:
  "\<exists>(ss, tick) \<in> set wakes. budget \<le> tick - start \<Longrightarrow> \<exists>r. kbd_wait wakes start budget now k = Some r"
proof (induction wakes arbitrary: now k)
  case (Cons w wakes)
  obtain ss tick where w: "w = (ss, tick)" by (cases w)
  obtain c k' where g: "keyboard_getchar k = (c, k')" by (cases "keyboard_getchar k")
  show ?case
  proof (cases "budget \<le> tick - start")
    case True
    obtain c2 k2 where "keyboard_getchar (fold kh ss k') = (c2, k2)" by fastforce
    then have "\<exists>r. kbd_wait wakes start budget tick (fold kh ss k') = Some r"
      using True by (subst kbd_wait.simps) simp
    then show ?thesis using g w by (subst kbd_wait.simps) simp
  next
    case False
    then have "\<exists>r. kbd_wait wakes start budget tick (fold kh ss k') = Some r"
      using Cons w by (intro Cons.IH) auto
    then show ?thesis using g w by (subst kbd_wait.simps) simp
  qed
qed simp

end
