(* ===== verification/Fat16.thy ===== *)
theory Fat16
  imports CatPrelude "HOL-Library.Monad_Syntax"
begin

text \<open>
  The read-only FAT16 file system, \<^verbatim>\<open>src/fs/fat16.c\<close>: mounting, the cache of table
  sectors, cluster chains, directories, path lookup and file reads.

  The block device is a parameter: reading one sector at an address takes the buffer's
  old contents and gives a return code and the new contents.  The mount descriptor, the
  cache and the two static sector buffers are the state.  A scan of a directory or of a
  path follows what the disk says and is a partial function.  Names are byte lists
  without their terminator; the multi-byte fields of the disk are read with \<open>rd16\<close> and
  \<open>rd32\<close>, which are \<open>le16\<close> and \<open>le32\<close> of the source.
\<close>

section \<open>State\<close>

type_synonym blk = "u32 \<Rightarrow> u8 list \<Rightarrow> int \<times> u8 list"

record fat16_dirent =
  d_name :: "u8 list"
  d_attr :: u8
  d_size :: u32
  d_cluster :: u32

record fat16_mnt =
  m_base :: u32
  m_bps :: u16
  m_spc :: u8
  m_reserved :: u16
  m_nfats :: u16
  m_fatsz :: u16
  m_rootents :: u16
  m_totsec :: u32
  m_fat_lba :: u32
  m_root_lba :: u32
  m_data_lba :: u32
  m_nclusters :: u32
  m_label :: "u8 list"
  m_nfiles :: u32
  m_first :: "fat16_dirent option"

record fcent =
  fc_sec :: u32
  fc_tick :: u32
  fc_valid :: bool
  fc_data :: "u8 list"

record fatst =
  mnt :: fat16_mnt
  fcache :: "fcent list"
  ftick :: u32
  dir_sec :: "u8 list"
  bounce :: "u8 list"

abbreviation (input) "FAT16_EOD \<equiv> (0 :: u8)"
abbreviation (input) "FAT16_DEL \<equiv> (0xE5 :: u8)"
abbreviation (input) "ATTR_LFN \<equiv> (0x0F :: u8)"
abbreviation (input) "ATTR_VOLUME \<equiv> (0x08 :: u8)"
abbreviation (input) "ATTR_DIR \<equiv> (0x10 :: u8)"
abbreviation (input) "FAT_EOF_MIN \<equiv> (0xFFF8 :: u32)"
abbreviation (input) "FAT_BAD \<equiv> (0xFFF7 :: u32)"

definition rd_sec :: "blk \<Rightarrow> u32 \<Rightarrow> u8 list \<Rightarrow> fatst \<Rightarrow> int \<times> u8 list" where
  "rd_sec dev lba buf s = dev (m_base (mnt s) + lba) buf"

section \<open>The cache of table sectors\<close>

datatype fc_slot = FcHit nat | FcVictim nat

text \<open>The scan: a hit, else the first empty slot, else the slot with the oldest tick.\<close>

fun fc_scan :: "u32 \<Rightarrow> fcent list \<Rightarrow> nat \<Rightarrow> u32 \<Rightarrow> nat \<Rightarrow> fc_slot" where
  "fc_scan rel [] i oldest victim = FcVictim victim"
| "fc_scan rel (c # cs) i oldest victim =
     (if fc_valid c \<and> fc_sec c = rel then FcHit i
      else if \<not> fc_valid c then FcVictim i
      else if fc_tick c < oldest then fc_scan rel cs (Suc i) (fc_tick c) i
      else fc_scan rel cs (Suc i) oldest victim)"

definition fat_sector :: "blk \<Rightarrow> u32 \<Rightarrow> fatst \<Rightarrow> u8 list option \<times> fatst" where
  "fat_sector dev rel s =
     (case fc_scan rel (fcache s) 0 0xFFFFFFFF 0 of
        FcHit i \<Rightarrow>
          (Some (fc_data (fcache s ! i)),
           s\<lparr>ftick := ftick s + 1, fcache := (fcache s)[i := (fcache s ! i)\<lparr>fc_tick := ftick s + 1\<rparr>]\<rparr>)
      | FcVictim i \<Rightarrow>
          (case dev (m_base (mnt s) + m_fat_lba (mnt s) + rel) (fc_data (fcache s ! i)) of (rc, b) \<Rightarrow>
             if rc \<noteq> 0 then (None, s\<lparr>fcache := (fcache s)[i := (fcache s ! i)\<lparr>fc_data := b\<rparr>]\<rparr>)
             else (Some b, s\<lparr>ftick := ftick s + 1,
               fcache := (fcache s)[i := \<lparr>fc_sec = rel, fc_tick = ftick s + 1, fc_valid = True, fc_data = b\<rparr>]\<rparr>)))"

definition fat_next :: "blk \<Rightarrow> u32 \<Rightarrow> fatst \<Rightarrow> u32 \<times> fatst" where
  "fat_next dev clu s =
     (if clu < 2 \<or> clu = FAT_BAD \<or> clu \<ge> FAT_EOF_MIN then (FAT_EOF_MIN, s)
      else
        let fo = clu * 2; rel = drop_bit 9 fo; off = fo AND 511 in
        (case fat_sector dev rel s of (r, s) \<Rightarrow>
           (case r of None \<Rightarrow> (FAT_EOF_MIN, s) | Some b \<Rightarrow> (ucast (rd16 b (unat off)), s))))"

text \<open>The loops that follow a chain for a number of steps and stop at its end.\<close>

fun chain_walk :: "blk \<Rightarrow> nat \<Rightarrow> u32 \<Rightarrow> fatst \<Rightarrow> u32 option \<times> fatst" where
  "chain_walk dev 0 c s = (Some c, s)"
| "chain_walk dev (Suc n) c s =
     (case fat_next dev c s of (c, s) \<Rightarrow>
        if c < 2 \<or> c \<ge> FAT_EOF_MIN then (None, s) else chain_walk dev n c s)"

section \<open>Directory entries\<close>

definition dir_fetch :: "blk \<Rightarrow> u32 \<Rightarrow> u32 \<Rightarrow> fatst \<Rightarrow> int \<times> u8 list \<times> fatst" where
  "dir_fetch dev lba off s =
     (case rd_sec dev lba (dir_sec s) s of (rc, b) \<Rightarrow>
        if rc \<noteq> 0 then (- 1, [], s\<lparr>dir_sec := b\<rparr>)
        else (1, take 32 (drop (unat off) b), s\<lparr>dir_sec := b\<rparr>))"

definition dir_raw :: "blk \<Rightarrow> u32 \<Rightarrow> bool \<Rightarrow> u32 \<Rightarrow> fatst \<Rightarrow> int \<times> u8 list \<times> fatst" where
  "dir_raw dev dclu isroot idx s =
     (let m = mnt s in
      if isroot then
        (if idx \<ge> ucast (m_rootents m) then (0, [], s)
         else dir_fetch dev (m_root_lba m + idx div 16) ((idx AND 15) * 32) s)
      else
        let per = ucast (m_spc m) * 16 in
        if dclu < 2 then (0, [], s)
        else
          (case chain_walk dev (unat (idx div per)) dclu s of
             (None, s) \<Rightarrow> (0, [], s)
           | (Some c, s) \<Rightarrow>
               dir_fetch dev (m_data_lba m + (c - 2) * ucast (m_spc m) + (idx mod per) * 32 div 512)
                 ((idx mod per) * 32 AND 511) s))"

definition fmt83 :: "u8 list \<Rightarrow> u8 list" where
  "fmt83 r =
     takeWhile (\<lambda>c. c \<noteq> 0x20) (take 8 r) @
     (if r ! 8 \<noteq> 0x20 then 0x2E # takeWhile (\<lambda>c. c \<noteq> 0x20) (take 3 (drop 8 r)) else [])"

definition up :: "u8 \<Rightarrow> u8" where
  "up c = (if 0x61 \<le> c \<and> c \<le> 0x7A then c - 32 else c)"

fun nameq :: "u8 list \<Rightarrow> u8 list \<Rightarrow> bool" where
  "nameq [] [] = True"
| "nameq (x # a) [] = (x = 0)"
| "nameq [] (y # b) = (y = 0)"
| "nameq (x # a) (y # b) = (if x = 0 \<and> y = 0 then True else if up x \<noteq> up y then False else nameq a b)"

definition de_fill :: "u8 list \<Rightarrow> fat16_dirent \<times> bool" where
  "de_fill r =
     (\<lparr>d_name = fmt83 r, d_attr = r ! 11, d_size = rd32 r 28, d_cluster = ucast (rd16 r 26)\<rparr>,
      \<not> (r ! 0 = FAT16_DEL \<or> r ! 11 = ATTR_LFN))"

section \<open>Mounting\<close>

definition bpb_ok :: "u8 list \<Rightarrow> bool" where
  "bpb_ok bs =
     (let spc = bs ! 13; nfats = bs ! 16; reserved = rd16 bs 14; rootents = rd16 bs 17; fatsz = rd16 bs 22;
          totsec = (if rd16 bs 19 \<noteq> 0 then ucast (rd16 bs 19) else rd32 bs 32) :: u32;
          rootsecs = (ucast rootents * 32 + 511) div 512 :: u32;
          data_lba = ucast reserved + ucast nfats * ucast fatsz + rootsecs;
          nclusters = (totsec - data_lba) div ucast spc
      in bs ! 510 = 0x55 \<and> bs ! 511 = 0xAA \<and> rd16 bs 11 = 512 \<and>
         \<not> (spc = 0 \<or> spc > 128 \<or> spc AND (spc - 1) \<noteq> 0) \<and>
         \<not> (reserved < 1 \<or> nfats < 1 \<or> nfats > 4 \<or> fatsz = 0) \<and>
         rootents \<noteq> 0 \<and> totsec \<noteq> 0 \<and> \<not> totsec \<le> data_lba \<and> \<not> (nclusters < 1 \<or> nclusters \<ge> 65525))"

definition bpb_mnt :: "u32 \<Rightarrow> u8 list \<Rightarrow> fat16_mnt" where
  "bpb_mnt part_lba bs =
     (let spc = bs ! 13; nfats = bs ! 16; reserved = rd16 bs 14; rootents = rd16 bs 17; fatsz = rd16 bs 22;
          totsec = (if rd16 bs 19 \<noteq> 0 then ucast (rd16 bs 19) else rd32 bs 32);
          rootsecs = (ucast rootents * 32 + 511) div 512;
          data_lba = ucast reserved + ucast nfats * ucast fatsz + rootsecs
      in \<lparr>m_base = part_lba, m_bps = rd16 bs 11, m_spc = spc, m_reserved = reserved, m_nfats = ucast nfats,
          m_fatsz = fatsz, m_rootents = rootents, m_totsec = totsec, m_fat_lba = ucast reserved,
          m_root_lba = ucast reserved + ucast nfats * ucast fatsz, m_data_lba = data_lba,
          m_nclusters = (totsec - data_lba) div ucast spc, m_label = [], m_nfiles = 0, m_first = None\<rparr>)"

definition mnt_upd :: "(fat16_mnt \<Rightarrow> fat16_mnt) \<Rightarrow> fatst \<Rightarrow> fatst" where
  "mnt_upd f s = s\<lparr>mnt := f (mnt s)\<rparr>"

text \<open>What the census of the root directory does with one entry that is neither the end
  nor deleted.\<close>

definition census_entry :: "u8 list \<Rightarrow> fat16_mnt \<Rightarrow> fat16_mnt" where
  "census_entry r m =
     (if r ! 0 = FAT16_DEL \<or> r ! 11 = ATTR_LFN then m
      else if r ! 11 AND ATTR_VOLUME \<noteq> 0 then m\<lparr>m_label := filter (\<lambda>c. c \<noteq> 0x20) (take 11 r)\<rparr>
      else if r ! 11 AND ATTR_DIR \<noteq> 0 then m
      else m\<lparr>m_nfiles := m_nfiles m + 1,
             m_first := (case m_first m of None \<Rightarrow> Some (fst (de_fill r)) | Some d \<Rightarrow> Some d)\<rparr>)"

text \<open>The root directory ends at the latest at index \<open>rootents\<close>, where \<open>dir_raw\<close> yields 0.\<close>

fun census :: "blk \<Rightarrow> nat list \<Rightarrow> fatst \<Rightarrow> bool \<times> fatst" where
  "census dev [] s = (True, s)"
| "census dev (i # is) s =
     (case dir_raw dev 0 True (of_nat i) s of (rc, r, s) \<Rightarrow>
        if rc < 0 then (False, s)
        else if rc = 0 \<or> r ! 0 = FAT16_EOD then (True, s)
        else census dev is (mnt_upd (census_entry r) s))"

definition root_indices :: "fatst \<Rightarrow> nat list" where
  "root_indices s = [0..<Suc (unat (m_rootents (mnt s)))]"

definition cold_cache :: "fcent list" where
  "cold_cache = replicate 64 \<lparr>fc_sec = 0, fc_tick = 0, fc_valid = False, fc_data = replicate 512 0\<rparr>"

text \<open>\<open>junk\<close> is the uninitialised boot sector buffer on the stack.\<close>

definition fat16_mount :: "blk \<Rightarrow> u32 \<Rightarrow> u8 list \<Rightarrow> fatst \<Rightarrow> bool \<times> fatst" where
  "fat16_mount dev part_lba junk s =
     (case dev part_lba junk of (rc, bs) \<Rightarrow>
        if rc \<noteq> 0 then (False, s)
        else if \<not> bpb_ok bs then (False, s)
        else
          (let s = s\<lparr>mnt := bpb_mnt part_lba bs, fcache := cold_cache, ftick := 0\<rparr> in
           (case census dev (root_indices s) s of (ok, s) \<Rightarrow>
              if \<not> ok then (False, s)
              else (True, mnt_upd (\<lambda>m. if m_label m = [] \<or> hd (m_label m) = 0
                then m\<lparr>m_label := filter (\<lambda>c. c \<noteq> 0x20) (take 11 (drop 43 bs))\<rparr> else m) s))))"

section \<open>Enumeration and lookup\<close>

fun root_enum_loop :: "blk \<Rightarrow> nat list \<Rightarrow> u32 \<Rightarrow> u32 \<Rightarrow> fatst \<Rightarrow> (int + fat16_dirent) \<times> fatst" where
  "root_enum_loop dev [] want hit s = (Inl (- 2), s)"
| "root_enum_loop dev (i # is) want hit s =
     (case dir_raw dev 0 True (of_nat i) s of (rc, r, s) \<Rightarrow>
        if rc < 0 then (Inl (- 1), s)
        else if rc = 0 \<or> r ! 0 = FAT16_EOD then (Inl (- 2), s)
        else (case de_fill r of (d, keep) \<Rightarrow>
          if \<not> keep then root_enum_loop dev is want hit s
          else if d_attr d AND ATTR_VOLUME \<noteq> 0 then root_enum_loop dev is want hit s
          else if d_attr d AND ATTR_DIR \<noteq> 0 then root_enum_loop dev is want hit s
          else if hit = want then (Inr d, s)
          else root_enum_loop dev is want (hit + 1) s))"

definition fat16_root_enum :: "blk \<Rightarrow> int \<Rightarrow> fatst \<Rightarrow> (int + fat16_dirent) \<times> fatst" where
  "fat16_root_enum dev idx s =
     (if idx < 0 then (Inl (- 1), s) else root_enum_loop dev (root_indices s) (word_of_int idx) 0 s)"

text \<open>The search of one directory for a name: an error, nothing, or the first entry.\<close>

partial_function (option) dir_find ::
  "blk \<Rightarrow> u32 \<Rightarrow> bool \<Rightarrow> u8 list \<Rightarrow> u32 \<Rightarrow> fatst \<Rightarrow> ((int + fat16_dirent option) \<times> fatst) option" where
  "dir_find dev dclu isroot seg i s =
     (case dir_raw dev dclu isroot i s of (rc, r, s) \<Rightarrow>
        if rc < 0 then Some (Inl (- 1), s)
        else if rc = 0 \<or> r ! 0 = FAT16_EOD then Some (Inr None, s)
        else (case de_fill r of (d, keep) \<Rightarrow>
          if \<not> keep then dir_find dev dclu isroot seg (i + 1) s
          else if d_attr d AND ATTR_VOLUME \<noteq> 0 then dir_find dev dclu isroot seg (i + 1) s
          else if nameq seg (d_name d) then Some (Inr (Some d), s)
          else dir_find dev dclu isroot seg (i + 1) s))"

partial_function (option) lookup_path ::
  "blk \<Rightarrow> bool \<Rightarrow> u32 \<Rightarrow> u8 list \<Rightarrow> fatst \<Rightarrow> ((int + fat16_dirent) \<times> fatst) option" where
  "lookup_path dev isroot dclu path s =
     (let p = dropWhile (\<lambda>c. c = 0x2F) path in
      if p = [] then Some (Inl (- 2), s)
      else
        let seg = takeWhile (\<lambda>c. c \<noteq> 0x2F) p; p = dropWhile (\<lambda>c. c \<noteq> 0x2F) p;
            rest = dropWhile (\<lambda>c. c = 0x2F) p
        in
        if length seg > 12 then Some (Inl (- 4), s)
        else do {
          (r, s) \<leftarrow> dir_find dev dclu isroot seg 0 s;
          case r of Inl e \<Rightarrow> Some (Inl e, s)
          | Inr None \<Rightarrow> Some (Inl (- 2), s)
          | Inr (Some d) \<Rightarrow>
              if rest \<noteq> [] then
                (if d_attr d AND ATTR_DIR = 0 then Some (Inl (- 3), s)
                 else lookup_path dev False (d_cluster d) rest s)
              else if p \<noteq> [] \<and> d_attr d AND ATTR_DIR = 0 then Some (Inl (- 3), s)
              else Some (Inr d, s) })"

definition fat16_lookup :: "blk \<Rightarrow> u8 list \<Rightarrow> fatst \<Rightarrow> ((int + fat16_dirent) \<times> fatst) option" where
  "fat16_lookup dev path s = lookup_path dev True 0 path s"

section \<open>Reading a file\<close>

definition put_at :: "nat \<Rightarrow> u8 list \<Rightarrow> u8 list \<Rightarrow> u8 list" where
  "put_at d bs buf = take d buf @ bs @ drop (d + length bs) buf"

definition chunk :: "u32 \<Rightarrow> u32 \<Rightarrow> u32" where
  "chunk rem pin = (let n = 512 - (pin AND 511) in if n > rem then rem else n)"

text \<open>One pass of the inner loop: the return code and the new buffer and state.\<close>

definition read_chunk :: "blk \<Rightarrow> u32 \<Rightarrow> u32 \<Rightarrow> u32 \<Rightarrow> nat \<Rightarrow> u8 list \<Rightarrow> fatst \<Rightarrow> int \<times> u8 list \<times> fatst" where
  "read_chunk dev clba rem pin d buf s =
     (let sidx = drop_bit 9 pin; soff = pin AND 511; n = chunk rem pin in
      if soff = 0 \<and> n = 512 then
        (case dev (m_base (mnt s) + clba + sidx) (take 512 (drop d buf)) of (rc, b) \<Rightarrow> (rc, put_at d b buf, s))
      else
        (case rd_sec dev (clba + sidx) (bounce s) s of (rc, b) \<Rightarrow>
           if rc \<noteq> 0 then (rc, buf, s\<lparr>bounce := b\<rparr>)
           else (0, put_at d (take (unat n) (drop (unat soff) b)) buf, s\<lparr>bounce := b\<rparr>)))"

lemma chunk_pos: "rem \<noteq> 0 \<Longrightarrow> 0 < unat (chunk rem pin) \<and> unat (chunk rem pin) \<le> unat rem"
proof -
  assume "rem \<noteq> 0"
  moreover have "unat (pin AND 511) < 512"
    using word_and_le1 [of pin 511] by (simp add: word_le_nat_alt)
  then have "unat (512 - (pin AND 511)) = 512 - unat (pin AND 511)" by (simp add: unat_sub word_le_nat_alt)
  ultimately show ?thesis
    using \<open>unat (pin AND 511) < 512\<close>
    by (auto simp: chunk_def Let_def word_less_nat_alt unat_gt_0)
qed

lemma chunk_less: "rem \<noteq> 0 \<Longrightarrow> unat (rem - chunk rem pin) < unat rem"
  using chunk_pos [of rem pin] by (simp add: unat_sub word_le_nat_alt)

function read_inner ::
  "blk \<Rightarrow> u32 \<Rightarrow> u32 \<Rightarrow> u32 \<Rightarrow> u32 \<Rightarrow> nat \<Rightarrow> u8 list \<Rightarrow> fatst \<Rightarrow> bool \<times> u32 \<times> nat \<times> u8 list \<times> fatst" where
  "read_inner dev clba cbytes rem pin d buf s =
     (if rem \<noteq> 0 \<and> pin < cbytes then
        let n = chunk rem pin in
        (case read_chunk dev clba rem pin d buf s of (rc, buf, s) \<Rightarrow>
           if rc \<noteq> 0 then (False, rem, d, buf, s)
           else read_inner dev clba cbytes (rem - n) (if pin + n \<ge> cbytes then 0 else pin + n) (d + unat n) buf s)
      else (True, rem, d, buf, s))"
  by pat_completeness auto

termination read_inner
  by (relation "measure (\<lambda>(_, _, _, rem, _). unat rem)") (auto simp: chunk_less)

declare read_inner.simps [simp del]

partial_function (option) read_outer ::
  "blk \<Rightarrow> u32 \<Rightarrow> u32 \<Rightarrow> u32 \<Rightarrow> u32 \<Rightarrow> u32 \<Rightarrow> nat \<Rightarrow> u8 list \<Rightarrow> fatst \<Rightarrow> (int \<times> u8 list \<times> fatst) option" where
  "read_outer dev len cbytes c rem pin d buf s =
     (if rem = 0 then Some (sint len, buf, s)
      else if c < 2 \<or> c \<ge> FAT_EOF_MIN \<or> c = FAT_BAD then
        Some (if rem < len then - 1 else sint (len - rem), buf, s)
      else
        (case read_inner dev (m_data_lba (mnt s) + (c - 2) * ucast (m_spc (mnt s))) cbytes rem pin d buf s of
           (ok, rem, d, buf, s) \<Rightarrow>
             if \<not> ok then Some (- 1, buf, s)
             else (case fat_next dev c s of (c, s) \<Rightarrow> read_outer dev len cbytes c rem 0 d buf s)))"

text \<open>The result: return value, the caller's buffer, the state.\<close>

definition fat16_read_file ::
  "blk \<Rightarrow> fat16_dirent \<Rightarrow> u32 \<Rightarrow> u8 list \<Rightarrow> u32 \<Rightarrow> fatst \<Rightarrow> (int \<times> u8 list \<times> fatst) option" where
  "fat16_read_file dev de off buf len s =
     (if d_attr de AND ATTR_DIR \<noteq> 0 then Some (- 1, buf, s)
      else if off \<ge> d_size de \<or> len = 0 then Some (0, buf, s)
      else
        let len = (if len > d_size de - off then d_size de - off else len);
            cbytes = ucast (m_spc (mnt s)) * 512
        in (case chain_walk dev (unat (off div cbytes)) (d_cluster de) s of
              (None, s) \<Rightarrow> Some (- 1, buf, s)
            | (Some c, s) \<Rightarrow> read_outer dev len cbytes c len (off mod cbytes) 0 buf s))"

section \<open>What the disk says\<close>

text \<open>A device that either reads a sector or fails and leaves the buffer alone.  The disk is
  the map of readable sectors.\<close>

type_synonym disk = "u32 \<Rightarrow> u8 list option"

definition blk_ok :: "blk \<Rightarrow> disk \<Rightarrow> bool" where
  "blk_ok dev disk \<longleftrightarrow>
     (\<forall>lba buf. case disk lba of Some d \<Rightarrow> length d = 512 \<and> dev lba buf = (0, d)
        | None \<Rightarrow> fst (dev lba buf) \<noteq> 0 \<and> snd (dev lba buf) = buf)"

definition fat_inv :: "disk \<Rightarrow> fatst \<Rightarrow> bool" where
  "fat_inv disk s \<longleftrightarrow> length (fcache s) = 64 \<and>
     (\<forall>e \<in> set (fcache s). fc_valid e \<longrightarrow>
        disk (m_base (mnt s) + m_fat_lba (mnt s) + fc_sec e) = Some (fc_data e))"

definition fat_entry :: "disk \<Rightarrow> fat16_mnt \<Rightarrow> u32 \<Rightarrow> u32" where
  "fat_entry disk m clu =
     (if clu < 2 \<or> clu = FAT_BAD \<or> clu \<ge> FAT_EOF_MIN then FAT_EOF_MIN
      else (case disk (m_base m + m_fat_lba m + drop_bit 9 (clu * 2)) of
          None \<Rightarrow> FAT_EOF_MIN | Some b \<Rightarrow> ucast (rd16 b (unat (clu * 2 AND 511)))))"

fun chain :: "disk \<Rightarrow> fat16_mnt \<Rightarrow> nat \<Rightarrow> u32 \<Rightarrow> u32 option" where
  "chain disk m 0 c = Some c"
| "chain disk m (Suc n) c =
     (let c = fat_entry disk m c in if c < 2 \<or> c \<ge> FAT_EOF_MIN then None else chain disk m n c)"

definition cluster_sector :: "fat16_mnt \<Rightarrow> u32 \<Rightarrow> nat \<Rightarrow> u32" where
  "cluster_sector m c k = m_base m + (m_data_lba m + (c - 2) * ucast (m_spc m)) + of_nat k"

definition cluster_byte :: "disk \<Rightarrow> fat16_mnt \<Rightarrow> u32 \<Rightarrow> nat \<Rightarrow> u8" where
  "cluster_byte disk m c j = the (disk (cluster_sector m c (j div 512))) ! (j mod 512)"

definition cluster_bytes :: "fat16_mnt \<Rightarrow> nat" where
  "cluster_bytes m = unat (m_spc m) * 512"

text \<open>The contents of a file: byte \<open>j\<close> is in the cluster that \<open>j\<close> falls into along the chain.\<close>

definition file_byte :: "disk \<Rightarrow> fat16_mnt \<Rightarrow> fat16_dirent \<Rightarrow> nat \<Rightarrow> u8" where
  "file_byte disk m de j =
     cluster_byte disk m (the (chain disk m (j div cluster_bytes m) (d_cluster de))) (j mod cluster_bytes m)"

section \<open>The cache\<close>

lemma blk_ok_read: "blk_ok dev disk \<Longrightarrow> disk lba = Some d \<Longrightarrow> dev lba buf = (0, d) \<and> length d = 512"
  by (auto simp: blk_ok_def split: option.splits dest: spec [of _ lba])

lemma blk_ok_fail: "blk_ok dev disk \<Longrightarrow> disk lba = None \<Longrightarrow> \<exists>e. e \<noteq> 0 \<and> dev lba buf = (e, buf)"
  by (drule blk_ok_def [THEN iffD1, rule_format, of _ _ lba buf]) (cases "dev lba buf"; simp)

lemma fc_scan_hit: "fc_scan rel cs i oldest v = FcHit j \<Longrightarrow> \<exists>k < length cs. j = i + k \<and> fc_valid (cs ! k) \<and> fc_sec (cs ! k) = rel"
proof (induction cs arbitrary: i oldest v)
  case (Cons c cs)
  show ?case
  proof (cases "fc_valid c \<and> fc_sec c = rel")
    case True
    then show ?thesis using Cons.prems by auto
  next
    case False
    then obtain o' v' where "fc_scan rel cs (Suc i) o' v' = FcHit j"
      using Cons.prems by (auto split: if_splits)
    from Cons.IH [OF this] show ?thesis by force
  qed
qed simp

lemma fc_scan_victim: "fc_scan rel cs i oldest v = FcVictim j \<Longrightarrow> j = v \<or> j < i + length cs"
  by (induction cs arbitrary: i oldest v) (fastforce split: if_splits)+

lemma fat_sector_refines:
  assumes d: "blk_ok dev disk" and inv: "fat_inv disk s"
  shows "fst (fat_sector dev rel s) = disk (m_base (mnt s) + m_fat_lba (mnt s) + rel)
    \<and> fat_inv disk (snd (fat_sector dev rel s)) \<and> mnt (snd (fat_sector dev rel s)) = mnt s"
proof (cases "fc_scan rel (fcache s) 0 0xFFFFFFFF 0")
  case (FcHit i)
  from fc_scan_hit [OF this] have i: "i < length (fcache s)" "fc_valid (fcache s ! i)" "fc_sec (fcache s ! i) = rel"
    by auto
  then have "disk (m_base (mnt s) + m_fat_lba (mnt s) + rel) = Some (fc_data (fcache s ! i))"
    using inv nth_mem [OF i(1)] by (auto simp: fat_inv_def)
  then show ?thesis
    using FcHit inv i by (auto simp: fat_sector_def fat_inv_def dest!: set_update_subset_insert [THEN subsetD])
next
  case (FcVictim i)
  then have i: "i < length (fcache s)" using inv fc_scan_victim [OF FcVictim] by (auto simp: fat_inv_def)
  define lba where "lba = m_base (mnt s) + m_fat_lba (mnt s) + rel"
  show ?thesis
  proof (cases "disk lba")
    case None
    then obtain e where "e \<noteq> 0" "dev lba (fc_data (fcache s ! i)) = (e, fc_data (fcache s ! i))"
      using blk_ok_fail [OF d] by blast
    then show ?thesis using FcVictim None inv by (simp add: fat_sector_def lba_def)
  next
    case (Some b)
    then have "dev lba (fc_data (fcache s ! i)) = (0, b)" using blk_ok_read [OF d] by blast
    then show ?thesis
      using FcVictim Some inv
      by (auto simp: fat_sector_def fat_inv_def lba_def dest!: set_update_subset_insert [THEN subsetD])
  qed
qed

lemma fat_next_refines:
  assumes d: "blk_ok dev disk" and inv: "fat_inv disk s" and r: "fat_next dev c s = (c', t)"
  shows "c' = fat_entry disk (mnt s) c \<and> fat_inv disk t \<and> mnt t = mnt s"
proof (cases "c < 2 \<or> c = FAT_BAD \<or> c \<ge> FAT_EOF_MIN")
  case True
  then show ?thesis using r inv by (auto simp: fat_next_def fat_entry_def)
next
  case False
  obtain b u where f: "fat_sector dev (drop_bit 9 (c * 2)) s = (b, u)" by fastforce
  note s = fat_sector_refines [OF d inv, of "drop_bit 9 (c * 2)", unfolded f fst_conv snd_conv]
  have "(c', t) = (case b of None \<Rightarrow> FAT_EOF_MIN | Some b \<Rightarrow> ucast (rd16 b (unat (c * 2 AND 511))), u)"
    using r False f by (cases b) (simp_all only: fat_next_def Let_def if_False prod.case option.case)
  moreover have "fat_entry disk (mnt s) c = (case b of None \<Rightarrow> FAT_EOF_MIN | Some b \<Rightarrow> ucast (rd16 b (unat (c * 2 AND 511))))"
    unfolding fat_entry_def if_not_P [OF False] using s by (simp only:)
  ultimately show ?thesis using s by (simp only: prod.inject)
qed

lemma chain_walk_refines:
  assumes d: "blk_ok dev disk"
  shows "fat_inv disk s \<Longrightarrow> chain_walk dev n c s = (r, t) \<Longrightarrow>
    r = chain disk (mnt s) n c \<and> fat_inv disk t \<and> mnt t = mnt s"
proof (induction n arbitrary: c s)
  case (Suc n)
  obtain c' s' where f: "fat_next dev c s = (c', s')" by (cases "fat_next dev c s")
  note n = fat_next_refines [OF d Suc.prems(1) f]
  show ?case
  proof (cases "c' < 2 \<or> c' \<ge> FAT_EOF_MIN")
    case True
    then show ?thesis using Suc.prems f n by (auto simp: Let_def)
  next
    case False
    then have "chain_walk dev n c' s' = (r, t)" using Suc.prems(2) f by simp
    then show ?thesis using Suc.IH [of s' c'] n False by (auto simp: Let_def)
  qed
qed simp

section \<open>File reads\<close>

lemma put_at_append:
  "d + length xs \<le> length buf \<Longrightarrow> put_at (d + length xs) ys (put_at d xs buf) = put_at d (xs @ ys) buf"
  by (cases xs) (auto simp: put_at_def min_def add_ac)

lemma length_put_at [simp]: "d + length xs \<le> length buf \<Longrightarrow> length (put_at d xs buf) = length buf"
  by (simp add: put_at_def)

lemma unat_and_511: "unat ((pin :: u32) AND 511) = unat pin mod 512"
proof -
  have "pin AND 511 = take_bit 9 pin" by (simp add: take_bit_eq_mask mask_eq_exp_minus_1)
  then show ?thesis by (simp add: unat_mod take_bit_eq_mod)
qed

lemma unat_drop_9: "unat (drop_bit 9 (pin :: u32)) = unat pin div 512"
  by (simp add: drop_bit_eq_div unat_div)

lemma unat_chunk: "unat (chunk rem pin) = min (unat rem) (512 - unat pin mod 512)"
proof -
  have "unat (512 - (pin AND 511)) = 512 - unat pin mod 512"
    by (simp add: unat_sub word_le_nat_alt unat_and_511)
  then show ?thesis by (auto simp: chunk_def Let_def word_less_nat_alt min_def)
qed

lemma read_chunk_spec:
  assumes d: "blk_ok dev disk" and b: "disk (m_base (mnt s) + clba + drop_bit 9 pin) = Some b"
  shows "\<exists>x. read_chunk dev clba rem pin p buf s =
    (0, put_at p (take (unat (chunk rem pin)) (drop (unat pin mod 512) b)) buf, s\<lparr>bounce := x\<rparr>)"
proof (cases "pin AND 511 = 0 \<and> chunk rem pin = 512")
  case True
  have "dev (m_base (mnt s) + clba + drop_bit 9 pin) (take 512 (drop p buf)) = (0, b)" "length b = 512"
    using blk_ok_read [OF d b] by blast+
  moreover have "unat pin mod 512 = 0" using True unat_and_511 [of pin] by simp
  ultimately have "read_chunk dev clba rem pin p buf s
      = (0, put_at p (take (unat (chunk rem pin)) (drop (unat pin mod 512) b)) buf, s)"
    using True by (simp add: read_chunk_def Let_def)
  then show ?thesis by (intro exI [of _ "bounce s"]) simp
next
  case False
  have "rd_sec dev (clba + drop_bit 9 pin) (bounce s) s = (0, b)"
    using blk_ok_read [OF d b, of "bounce s"] by (simp add: rd_sec_def add.assoc)
  then show ?thesis using False by (auto simp: read_chunk_def Let_def unat_and_511)
qed

text \<open>The loop over the bytes of a cluster: it never leaves the cluster, since its cursor
  returns to 0 at the end of the cluster, and ends when nothing remains.\<close>

lemma chunk_map:
  assumes "length b = 512" "n \<le> 512 - pin mod 512"
  shows "take n (drop (pin mod 512) b) = map (\<lambda>i. b ! (pin mod 512 + i)) [0..<n]"
  using assms by (intro nth_equalityI) simp_all

lemma cursor_step:
  assumes "pin < spc * 512" "n \<le> 512 - pin mod (512 :: nat)"
  shows "pin div 512 < spc" "pin + n \<le> spc * 512"
proof -
  show l: "pin div 512 < spc" using assms(1) by (simp add: less_mult_imp_div_less)
  have "pin + n \<le> (pin div 512) * 512 + 512" using assms(2) mult_div_mod_eq [of 512 pin] by linarith
  also have "\<dots> \<le> spc * 512" using l by simp
  finally show "pin + n \<le> spc * 512" .
qed

definition ring_byte :: "nat \<Rightarrow> (nat \<Rightarrow> u8 list) \<Rightarrow> nat \<Rightarrow> u8" where
  "ring_byte spc b i = b (i mod (spc * 512) div 512) ! (i mod (spc * 512) mod 512)"

lemma ring_chunk:
  assumes "pin < spc * 512" "n \<le> 512 - pin mod 512" "length (b (pin div 512)) = 512"
  shows "take n (drop (pin mod 512) (b (pin div 512))) = map (\<lambda>i. ring_byte spc b (pin + i)) [0..<n]"
proof -
  have "ring_byte spc b (pin + i) = b (pin div 512) ! (pin mod 512 + i)" if "i < n" for i
  proof -
    have "pin + i < spc * 512" using cursor_step(2) [OF assms(1,2)] that by linarith
    moreover have m: "pin mod 512 + i < 512" using that assms(2) by linarith
    have "pin + i = (pin mod 512 + i) + 512 * (pin div 512)" by simp
    then have "(pin + i) div 512 = pin div 512" "(pin + i) mod 512 = pin mod 512 + i"
      using m by (metis add.commute add_cancel_right_left div_less div_mult_self2 zero_neq_numeral,
        metis m mod_less mod_mult_self2)
    ultimately show ?thesis by (simp add: ring_byte_def)
  qed
  then show ?thesis using chunk_map [OF assms(3,2)] by simp
qed

lemma read_inner_spec:
  assumes d: "blk_ok dev disk" and cb: "unat cbytes = spc * 512"
    and secs: "\<forall>k < spc. disk (base + of_nat k) = Some (b k)"
  shows "unat pin < spc * 512 \<Longrightarrow> p + unat rem \<le> length buf \<Longrightarrow> m_base (mnt s) + clba = base \<Longrightarrow>
    \<exists>x. read_inner dev clba cbytes rem pin p buf s =
      (True, 0, p + unat rem, put_at p (map (\<lambda>i. ring_byte spc b (unat pin + i)) [0..<unat rem]) buf, s\<lparr>bounce := x\<rparr>)"
proof (induction "unat rem" arbitrary: rem pin p buf s rule: less_induct)
  case less
  show ?case
  proof (cases "rem = 0")
    case True
    then show ?thesis by (intro exI [of _ "bounce s"]) (simp add: read_inner.simps put_at_def)
  next
    case False
    define n where "n = unat (chunk rem pin)"
    define xs where "xs = map (\<lambda>i. ring_byte spc b (unat pin + i)) [0..<n]"
    define pin' where "pin' = (if pin + chunk rem pin \<ge> cbytes then 0 else pin + chunk rem pin)"
    have n: "n = min (unat rem) (512 - unat pin mod 512)" by (simp add: n_def unat_chunk)
    then have n_pos: "0 < n" and n_le: "n \<le> unat rem" "n \<le> 512 - unat pin mod 512"
      using chunk_pos [OF False, of pin] by (simp_all add: n_def)
    note st = cursor_step [OF less.prems(1) n_le(2)]
    have sec: "disk (m_base (mnt s) + clba + drop_bit 9 pin) = Some (b (unat pin div 512))"
      using secs [rule_format, OF st(1)] less.prems(3) unfolding unat_drop_9 [symmetric] by simp
    then have "length (b (unat pin div 512)) = 512" using blk_ok_read [OF d] by blast
    then have xs: "take n (drop (unat pin mod 512) (b (unat pin div 512))) = xs"
      using ring_chunk [OF less.prems(1) n_le(2)] by (simp add: xs_def)
    obtain x where rc: "read_chunk dev clba rem pin p buf s = (0, put_at p xs buf, s\<lparr>bounce := x\<rparr>)"
      using read_chunk_spec [OF d sec, of rem p buf] xs by (auto simp: n_def)
    have up: "unat (pin + chunk rem pin) = unat pin + n"
      using st(2) unat_u32_lt [of cbytes] cb by (simp add: unat_word_ariths n_def)
    have pin': "unat pin' = (unat pin + n) mod (spc * 512)"
      using up st(2) cb by (cases "unat pin + n = spc * 512") (simp_all add: pin'_def word_le_nat_alt)
    have r: "unat (rem - chunk rem pin) = unat rem - n"
      using n_le(1) by (simp add: unat_sub word_le_nat_alt n_def)
    have lx: "length xs = n" by (simp add: xs_def)
    have "\<exists>y. read_inner dev clba cbytes (rem - chunk rem pin) pin' (p + n) (put_at p xs buf) (s\<lparr>bounce := x\<rparr>) =
        (True, 0, p + n + unat (rem - chunk rem pin),
         put_at (p + n) (map (\<lambda>i. ring_byte spc b (unat pin' + i)) [0..<unat (rem - chunk rem pin)]) (put_at p xs buf),
         s\<lparr>bounce := x\<rparr>\<lparr>bounce := y\<rparr>)"
      using less.prems n_pos n_le(1) r lx pin' st(1) by (intro less.hyps) simp_all
    moreover have "map (\<lambda>i. ring_byte spc b (unat pin' + i)) [0..<unat rem - n]
        = map (\<lambda>i. ring_byte spc b (unat pin + i)) [n..<unat rem]"
      using n_le(1) by (intro nth_equalityI) (simp_all add: ring_byte_def pin' mod_add_left_eq add.assoc)
    moreover have "xs @ map (\<lambda>i. ring_byte spc b (unat pin + i)) [n..<unat rem]
        = map (\<lambda>i. ring_byte spc b (unat pin + i)) [0..<unat rem]"
      using n_le(1) upt_add_eq_append [of 0 n "unat rem - n"] by (simp add: xs_def)
    moreover have "read_inner dev clba cbytes rem pin p buf s =
        read_inner dev clba cbytes (rem - chunk rem pin) pin' (p + n) (put_at p xs buf) (s\<lparr>bounce := x\<rparr>)"
      using False less.prems(1) cb rc
      by (subst read_inner.simps) (simp add: word_less_nat_alt pin'_def n_def Let_def)
    ultimately show ?thesis
      using put_at_append [of p xs buf "map (\<lambda>i. ring_byte spc b (unat pin + i)) [n..<unat rem]"]
        less.prems(2) n_le(1) r lx by simp
  qed
qed

lemma unat_cbytes: "unat (ucast (spc :: u8) * 512 :: u32) = unat spc * 512"
proof -
  have "unat spc * 512 < 4294967296" using unat_u8_lt [of spc] by simp
  then show ?thesis by (simp add: unat_word_ariths unat_ucast_8_32)
qed

lemma fat_inv_bounce [simp]: "fat_inv disk (s\<lparr>bounce := x\<rparr>) = fat_inv disk s"
  by (simp add: fat_inv_def)

lemma ring_byte_cluster:
  "ring_byte (unat (m_spc m)) (\<lambda>k. the (disk (cluster_sector m c k))) i = cluster_byte disk m c (i mod cluster_bytes m)"
  by (simp add: ring_byte_def cluster_byte_def cluster_bytes_def)

lemma read_outer_spec:
  assumes d: "blk_ok dev disk" and inv: "fat_inv disk s" and c: "2 \<le> c" "c < FAT_BAD"
    and secs: "\<forall>k < unat (m_spc (mnt s)). disk (cluster_sector (mnt s) c k) \<noteq> None"
    and pin: "unat pin < cluster_bytes (mnt s)" and buf: "unat len \<le> length buf" and len: "len \<noteq> 0"
  shows "\<exists>t. read_outer dev len (ucast (m_spc (mnt s)) * 512) c len pin 0 buf s =
      Some (sint len, map (\<lambda>i. cluster_byte disk (mnt s) c ((unat pin + i) mod cluster_bytes (mnt s))) [0..<unat len]
        @ drop (unat len) buf, t) \<and> fat_inv disk t \<and> mnt t = mnt s"
proof -
  define m where "m = mnt s"
  define clba where "clba = m_data_lba m + (c - 2) * ucast (m_spc m)"
  define xs where "xs = map (\<lambda>i. cluster_byte disk m c ((unat pin + i) mod cluster_bytes m)) [0..<unat len]"
  have "\<forall>k < unat (m_spc m). disk (m_base m + clba + of_nat k) = Some (the (disk (cluster_sector m c k)))"
    using secs by (simp add: cluster_sector_def m_def clba_def)
  note ri = read_inner_spec [OF d unat_cbytes this, of pin 0 len buf s clba]
  have "unat pin < unat (m_spc m) * 512" "m_base (mnt s) + clba = m_base m + clba" "0 + unat len \<le> length buf"
    using pin buf by (simp_all add: cluster_bytes_def m_def)
  from ri [OF this(1,3,2)] obtain x where "read_inner dev clba (ucast (m_spc m) * 512) len pin 0 buf s =
      (True, 0, 0 + unat len, put_at 0 xs buf, s\<lparr>bounce := x\<rparr>)"
    unfolding ring_byte_cluster xs_def by blast
  moreover obtain c' t where f: "fat_next dev c (s\<lparr>bounce := x\<rparr>) = (c', t)" by fastforce
  moreover have "fat_inv disk t \<and> mnt t = m"
    using fat_next_refines [OF d _ f] inv by (simp add: m_def)
  moreover have "put_at 0 xs buf = xs @ drop (unat len) buf" by (simp add: put_at_def xs_def)
  moreover have "\<not> (c < 2 \<or> c \<ge> FAT_EOF_MIN \<or> c = FAT_BAD)" using c by (auto simp: word_less_nat_alt word_le_nat_alt)
  ultimately show ?thesis
    using len by (subst read_outer.simps) (simp add: m_def [symmetric] clba_def [symmetric] xs_def read_outer.simps)
qed

text \<open>What a read returns, exactly: every byte comes from the cluster in which the read
  starts.\<close>

lemma fat16_read_exact:
  assumes d: "blk_ok dev disk" and inv: "fat_inv disk s" and spc: "m_spc (mnt s) \<noteq> 0"
    and de: "d_attr de AND ATTR_DIR = 0" "off < d_size de" and len: "len \<noteq> 0"
    and n: "n = min (unat len) (unat (d_size de) - unat off)"
    and ch: "chain disk (mnt s) (unat off div cluster_bytes (mnt s)) (d_cluster de) = Some c" "2 \<le> c" "c < FAT_BAD"
    and secs: "\<forall>k < unat (m_spc (mnt s)). disk (cluster_sector (mnt s) c k) \<noteq> None"
    and buf: "n \<le> length buf"
  shows "\<exists>t. fat16_read_file dev de off buf len s = Some (sint (of_nat n :: u32),
      map (\<lambda>i. cluster_byte disk (mnt s) c ((unat off + i) mod cluster_bytes (mnt s))) [0..<n] @ drop n buf, t)
      \<and> fat_inv disk t \<and> mnt t = mnt s"
proof -
  define cb where "cb = (ucast (m_spc (mnt s)) * 512 :: u32)"
  define l where "l = (if len > d_size de - off then d_size de - off else len)"
  have cb: "unat cb = cluster_bytes (mnt s)" by (simp add: cb_def unat_cbytes cluster_bytes_def)
  have pos: "0 < cluster_bytes (mnt s)" using spc by (simp add: cluster_bytes_def unat_gt_0)
  have so: "unat (d_size de - off) = unat (d_size de) - unat off"
    using de(2) by (simp add: unat_sub word_less_nat_alt word_le_nat_alt)
  have l: "unat l = n" using so by (auto simp: l_def n word_less_nat_alt min_def)
  have "0 < n" using n len de(2) by (simp add: word_less_nat_alt unat_gt_0)
  then have l0: "l \<noteq> 0" using l by auto
  have lw: "l = of_nat n" using l by auto
  obtain r s1 where w: "chain_walk dev (unat (off div cb)) (d_cluster de) s = (r, s1)" by fastforce
  from chain_walk_refines [OF d inv w] have r: "r = Some c" "fat_inv disk s1" "mnt s1 = mnt s"
    using ch(1) cb by (simp_all add: unat_div)
  have pin: "unat (off mod cb) = unat off mod cluster_bytes (mnt s)" by (simp add: unat_mod cb)
  have "\<exists>t. read_outer dev l cb c l (off mod cb) 0 buf s1 =
      Some (sint l, map (\<lambda>i. cluster_byte disk (mnt s) c ((unat (off mod cb) + i) mod cluster_bytes (mnt s))) [0..<unat l]
        @ drop (unat l) buf, t) \<and> fat_inv disk t \<and> mnt t = mnt s"
    using read_outer_spec [OF d r(2) ch(2,3), of "off mod cb" l buf] r(3) secs pin pos buf l l0 by (simp add: cb_def)
  then obtain t where t: "read_outer dev l cb c l (off mod cb) 0 buf s1 =
      Some (sint l, map (\<lambda>i. cluster_byte disk (mnt s) c ((unat off + i) mod cluster_bytes (mnt s))) [0..<n]
        @ drop n buf, t)" "fat_inv disk t" "mnt t = mnt s"
    unfolding pin l by (auto simp: mod_add_left_eq)
  have "\<not> (off \<ge> d_size de \<or> len = 0)" using de(2) len by auto
  then have "fat16_read_file dev de off buf len s = read_outer dev l cb c l (off mod cb) 0 buf s1"
    using de(1) w r(1) by (simp add: fat16_read_file_def Let_def l_def [symmetric] cb_def [symmetric])
  then show ?thesis using t lw by simp
qed

text \<open>A read that stays inside one cluster returns the bytes of the file from its offset on,
  cut at the end of the file, and keeps the file system state sound.\<close>

lemma fat16_read_bytes:
  assumes "blk_ok dev disk" "fat_inv disk s" "m_spc (mnt s) \<noteq> 0"
    and "d_attr de AND ATTR_DIR = 0" "off < d_size de" "len \<noteq> 0"
    and "n = min (unat len) (unat (d_size de) - unat off)"
    and "chain disk (mnt s) (unat off div cluster_bytes (mnt s)) (d_cluster de) = Some c" "2 \<le> c" "c < FAT_BAD"
    and "\<forall>k < unat (m_spc (mnt s)). disk (cluster_sector (mnt s) c k) \<noteq> None" "n \<le> length buf"
    and one: "unat off mod cluster_bytes (mnt s) + n \<le> cluster_bytes (mnt s)"
  shows "\<exists>t. fat16_read_file dev de off buf len s = Some (sint (of_nat n :: u32),
      map (\<lambda>i. file_byte disk (mnt s) de (unat off + i)) [0..<n] @ drop n buf, t)
      \<and> fat_inv disk t \<and> mnt t = mnt s"
proof -
  have "file_byte disk (mnt s) de (unat off + i) = cluster_byte disk (mnt s) c ((unat off + i) mod cluster_bytes (mnt s))"
    if "i < n" for i
  proof -
    have "unat off mod cluster_bytes (mnt s) + i < cluster_bytes (mnt s)" using that one by simp
    then have "(unat off + i) div cluster_bytes (mnt s) = unat off div cluster_bytes (mnt s)"
      by (simp add: div_add1_eq [of "unat off" i])
    then show ?thesis using assms(8) by (simp add: file_byte_def)
  qed
  then have eq: "map (\<lambda>i. file_byte disk (mnt s) de (unat off + i)) [0..<n]
      = map (\<lambda>i. cluster_byte disk (mnt s) c ((unat off + i) mod cluster_bytes (mnt s))) [0..<n]" by simp
  show ?thesis unfolding eq by (rule fat16_read_exact [OF assms(1-12)])
qed

text \<open>Property C38: a read from the start of a file that is longer than a cluster does not
  return the file: after the first cluster the same cluster is delivered again, up to the
  full length, which is reported as read.\<close>

theorem fat16_read_repeats:
  assumes "blk_ok dev disk" "fat_inv disk s" "m_spc (mnt s) \<noteq> 0"
    and "d_attr de AND ATTR_DIR = 0" "0 < d_size de" "len \<noteq> 0"
    and "n = min (unat len) (unat (d_size de))"
    and "2 \<le> d_cluster de" "d_cluster de < FAT_BAD"
    and "\<forall>k < unat (m_spc (mnt s)). disk (cluster_sector (mnt s) (d_cluster de) k) \<noteq> None" "n \<le> length buf"
  shows "\<exists>t. fat16_read_file dev de 0 buf len s = Some (sint (of_nat n :: u32),
      map (\<lambda>i. file_byte disk (mnt s) de (i mod cluster_bytes (mnt s))) [0..<n] @ drop n buf, t)"
proof -
  have "0 < cluster_bytes (mnt s)" using assms(3) by (simp add: cluster_bytes_def unat_gt_0)
  then have "file_byte disk (mnt s) de (i mod cluster_bytes (mnt s))
      = cluster_byte disk (mnt s) (d_cluster de) (i mod cluster_bytes (mnt s))" for i
    by (simp add: file_byte_def)
  then show ?thesis
    using fat16_read_exact [OF assms(1-6), of n "d_cluster de" buf] assms(7-11) by auto
qed

end
