(* ===== verification/Vfs.thy ===== *)
theory Vfs
  imports Keyboard Fat16 Paging
begin

text \<open>
  The virtual file system, \<^verbatim>\<open>src/fs/vfs.c\<close>: the descriptor table shared by files and
  sockets, the device nodes, the block device registry, files of the FAT16 volume and
  the calls on descriptors.

  A descriptor is a pointer into the array \<open>fs\<close> of open files; the model keeps the
  indirection, because \<open>vfs_dup2\<close> makes two descriptors share a slot.  The private
  pointer of a file is null, a FAT handle or a socket; the type of sockets is a
  parameter.  User memory appears as the bytes a call reads or delivers; the check of user
  pointers is \<open>user_access_ok\<close> on the page tables.  Kernel log messages are omitted.
  A call that does not return has the value \<open>None\<close>.
\<close>

section \<open>State\<close>

datatype inode_type = VFS_REG | VFS_CHR | VFS_DIR | VFS_BLK

datatype file_kind = FILE_VFS | FILE_SOCKET

text \<open>The tables of operations: which of \<open>read\<close>, \<open>write\<close> and \<open>close\<close> they have.\<close>

datatype fops = OpsNull | OpsCon | OpsKbd | OpsZero | OpsUrandom | OpsBlk | OpsFat

definition can_read :: "fops \<Rightarrow> bool" where
  "can_read ops = (ops \<noteq> OpsCon)"

definition can_write :: "fops \<Rightarrow> bool" where
  "can_write ops = (ops = OpsNull \<or> ops = OpsCon)"

definition has_close :: "fops \<Rightarrow> bool" where
  "has_close ops = (ops = OpsFat)"

record inode =
  i_type :: inode_type
  i_size :: u32
  i_name :: "u8 list"
  i_ops :: fops

datatype 'k priv = PNull | PFat nat | PSock 'k

record 'k file_t =
  f_inode :: "inode option"
  f_pos :: u32
  f_flags :: u32
  f_kind :: file_kind
  f_private :: "'k priv"

record fatfh =
  h_used :: bool
  h_de :: fat16_dirent

record 'k vfs =
  fds :: "nat option list"
  fs_slots :: "'k file_t list"
  rnd :: u32
  g_blks :: "(u8 list \<times> blk) list"
  fat_handles :: "fatfh list"
  g_fatmnt :: bool
  fat_blk :: blk
  vfat :: fatst
  vkbd :: kbd
  con :: "u8 list"

abbreviation (input) "VFS_MAX_FD \<equiv> (32 :: nat)"
abbreviation (input) "VFS_BLK_MAX \<equiv> (8 :: nat)"
abbreviation (input) "O_RDONLY \<equiv> (0 :: u32)"
abbreviation (input) "O_WRONLY \<equiv> (1 :: u32)"
abbreviation (input) "O_RDWR \<equiv> (2 :: u32)"
abbreviation (input) "O_NONBLOCK \<equiv> (0x800 :: u32)"

definition asc :: "string \<Rightarrow> u8 list" where
  "asc s = map of_char s"

definition nodes :: "inode list" where
  "nodes = map (\<lambda>(n, ops). \<lparr>i_type = VFS_CHR, i_size = 0, i_name = asc n, i_ops = ops\<rparr>)
     [(''/dev/null'', OpsNull), (''/dev/console'', OpsCon), (''/dev/kbd'', OpsKbd), (''/dev/zero'', OpsZero),
      (''/dev/urandom'', OpsUrandom)]"

definition fattpl :: inode where
  "fattpl = \<lparr>i_type = VFS_REG, i_size = 0, i_name = asc ''/mnt/fat'', i_ops = OpsFat\<rparr>"

definition blk_inode :: "u8 list \<Rightarrow> inode" where
  "blk_inode name = \<lparr>i_type = VFS_BLK, i_size = 0, i_name = name, i_ops = OpsBlk\<rparr>"

section \<open>Block devices\<close>

definition vfs_blk_register :: "u8 list \<Rightarrow> blk \<Rightarrow> 'k vfs \<Rightarrow> int \<times> 'k vfs" where
  "vfs_blk_register name ops s =
     (if length (g_blks s) \<ge> VFS_BLK_MAX then (- 1, s)
      else (int (length (g_blks s)), s\<lparr>g_blks := g_blks s @ [(name, ops)]\<rparr>))"

definition vfs_blk_count :: "'k vfs \<Rightarrow> int" where
  "vfs_blk_count s = int (length (g_blks s))"

definition vfs_blk_get :: "int \<Rightarrow> 'k vfs \<Rightarrow> inode option" where
  "vfs_blk_get i s =
     (if i \<ge> 0 \<and> i < int (length (g_blks s)) then Some (blk_inode (fst (g_blks s ! nat i))) else None)"

section \<open>Descriptors\<close>

definition fd_slot :: "int \<Rightarrow> 'k vfs \<Rightarrow> nat option" where
  "fd_slot fd s = (if fd < 0 \<or> fd \<ge> int VFS_MAX_FD then None else fds s ! nat fd)"

definition fd_file :: "int \<Rightarrow> 'k vfs \<Rightarrow> 'k file_t option" where
  "fd_file fd s = map_option ((!) (fs_slots s)) (fd_slot fd s)"

definition upd_file :: "int \<Rightarrow> ('k file_t \<Rightarrow> 'k file_t) \<Rightarrow> 'k vfs \<Rightarrow> 'k vfs" where
  "upd_file fd f s =
     (case fd_slot fd s of None \<Rightarrow> s | Some k \<Rightarrow> s\<lparr>fs_slots := (fs_slots s)[k := f (fs_slots s ! k)]\<rparr>)"

definition clear_fd :: "int \<Rightarrow> 'k vfs \<Rightarrow> 'k vfs" where
  "clear_fd fd s = s\<lparr>fds := (fds s)[nat fd := None]\<rparr>"

definition vfs_fd_alloc :: "file_kind \<Rightarrow> u32 \<Rightarrow> inode option \<Rightarrow> 'k priv \<Rightarrow> 'k vfs \<Rightarrow> int \<times> 'k vfs" where
  "vfs_fd_alloc kind fl ino priv s =
     (case find_idx (\<lambda>x. x = None) (fds s) of None \<Rightarrow> (- 1, s)
      | Some fd \<Rightarrow> (int fd,
          s\<lparr>fs_slots := (fs_slots s)[fd := \<lparr>f_inode = ino, f_pos = 0, f_flags = fl, f_kind = kind, f_private = priv\<rparr>],
            fds := (fds s)[fd := Some fd]\<rparr>))"

definition mnt_prefix :: "u8 list" where
  "mnt_prefix = asc ''/mnt/fat/''"

definition open_fat :: "u8 list \<Rightarrow> u32 \<Rightarrow> 'k vfs \<Rightarrow> (int \<times> 'k vfs) option" where
  "open_fat path fl s =
     (case find_idx (\<lambda>h. \<not> h_used h) (fat_handles s) of None \<Rightarrow> Some (- 1, s)
      | Some h \<Rightarrow> do {
          (r, fat) \<leftarrow> fat16_lookup (fat_blk s) path (vfat s);
          let s = s\<lparr>vfat := fat\<rparr>;
          case r of Inl e \<Rightarrow> Some (- 1, s)
          | Inr de \<Rightarrow>
              (case vfs_fd_alloc FILE_VFS fl (Some fattpl) (PFat h)
                  (s\<lparr>fat_handles := (fat_handles s)[h := \<lparr>h_used = True, h_de = de\<rparr>]\<rparr>) of (fd, s) \<Rightarrow>
                 if fd \<ge> 0 then Some (fd, s)
                 else Some (- 1, s\<lparr>fat_handles := (fat_handles s)[h := (fat_handles s ! h)\<lparr>h_used := False\<rparr>]\<rparr>)) })"

definition vfs_open :: "u8 list \<Rightarrow> u32 \<Rightarrow> 'k vfs \<Rightarrow> (int \<times> 'k vfs) option" where
  "vfs_open p fl s =
     (case find (\<lambda>n. i_name n = p) nodes of
        Some n \<Rightarrow> Some (vfs_fd_alloc FILE_VFS fl (Some n) PNull s)
      | None \<Rightarrow>
          (case find (\<lambda>(name, _). name = p) (g_blks s) of
             Some (name, _) \<Rightarrow> Some (vfs_fd_alloc FILE_VFS fl (Some (blk_inode name)) PNull s)
           | None \<Rightarrow>
               if g_fatmnt s \<and> take 9 p = mnt_prefix then open_fat (drop 9 p) fl s
               else Some (- 1, s)))"

section \<open>Reading and writing\<close>

fun kread_more :: "nat \<Rightarrow> kbd \<Rightarrow> u8 list \<times> kbd" where
  "kread_more 0 k = ([], k)"
| "kread_more (Suc n) k =
     (case keyboard_getchar k of (c, k) \<Rightarrow>
        if c < 0 then ([], k) else (case kread_more n k of (cs, k) \<Rightarrow> (word_of_int c # cs, k)))"

text \<open>The arguments of the reads are the flags, the wake-ups of a blocking read, the tick
  count and the length; the result is the return value with the bytes delivered.\<close>

definition kread :: "u32 \<Rightarrow> (u8 list \<times> u32) list \<Rightarrow> u32 \<Rightarrow> u32 \<Rightarrow> kbd \<Rightarrow> (int \<times> u8 list \<times> kbd) option" where
  "kread flags wakes ticks n k =
     (if n = 0 then Some (0, [], k)
      else do {
        (c, k) \<leftarrow> (if flags AND O_NONBLOCK \<noteq> 0 then Some (keyboard_getchar k)
                   else keyboard_getchar_blocking 5000 wakes ticks k);
        if c < 0 then Some (0, [], k)
        else (case kread_more (unat n - 1) k of (cs, k) \<Rightarrow> Some (int (Suc (length cs)), word_of_int c # cs, k)) })"

fun urread :: "nat \<Rightarrow> u32 \<Rightarrow> u8 list \<times> u32" where
  "urread 0 r = ([], r)"
| "urread (Suc n) r =
     (let r = r * 1664525 + 1013904223 in case urread n r of (bs, r') \<Rightarrow> (ucast (drop_bit 24 r) # bs, r'))"

definition fat_read :: "int \<Rightarrow> 'k file_t \<Rightarrow> u8 list \<Rightarrow> u32 \<Rightarrow> 'k vfs \<Rightarrow> (int \<times> u8 list \<times> 'k vfs) option" where
  "fat_read fd f buf n s =
     (case f_private f of
        PFat h \<Rightarrow> do {
          (r, buf, fat) \<leftarrow> fat16_read_file (fat_blk s) (h_de (fat_handles s ! h)) (f_pos f) buf n (vfat s);
          let s = s\<lparr>vfat := fat\<rparr>;
          Some (r, buf, if r > 0 then upd_file fd (\<lambda>f. f\<lparr>f_pos := f_pos f + word_of_int r\<rparr>) s else s) }
      | _ \<Rightarrow> Some (- 9, buf, s))"

text \<open>\<open>buf\<close> is the user's buffer of length \<open>n\<close> before the call; the result holds it after.\<close>

definition read_op ::
  "(u8 list \<times> u32) list \<Rightarrow> u32 \<Rightarrow> int \<Rightarrow> 'k file_t \<Rightarrow> fops \<Rightarrow> u8 list \<Rightarrow> u32 \<Rightarrow> 'k vfs \<Rightarrow> (int \<times> u8 list \<times> 'k vfs) option" where
  "read_op wakes ticks fd f ops buf n s =
     (case ops of
        OpsKbd \<Rightarrow> do {
          (r, cs, k) \<leftarrow> kread (f_flags f) wakes ticks n (vkbd s);
          Some (r, put_at 0 cs buf, s\<lparr>vkbd := k\<rparr>) }
      | OpsZero \<Rightarrow> Some (sint n, put_at 0 (replicate (unat n) 0) buf, s)
      | OpsUrandom \<Rightarrow> (case urread (unat n) (rnd s) of (bs, r) \<Rightarrow> Some (sint n, put_at 0 bs buf, s\<lparr>rnd := r\<rparr>))
      | OpsFat \<Rightarrow> fat_read fd f buf n s
      | _ \<Rightarrow> Some (0, buf, s))"

definition vfs_read ::
  "'p paging_scheme \<Rightarrow> (u8 list \<times> u32) list \<Rightarrow> u32 \<Rightarrow> int \<Rightarrow> u32 \<Rightarrow> u8 list \<Rightarrow> u32 \<Rightarrow> 'k vfs \<Rightarrow> (int \<times> u8 list \<times> 'k vfs) option" where
  "vfs_read pg wakes ticks fd b buf n s =
     (case fd_file fd s of None \<Rightarrow> Some (- 9, buf, s)
      | Some f \<Rightarrow>
          if f_kind f \<noteq> FILE_VFS \<or> \<not> can_read (i_ops (the (f_inode f))) then Some (- 9, buf, s)
          else do {
            ok \<leftarrow> user_access_ok pg b n True;
            if \<not> ok then Some (- 14, buf, s)
            else read_op wakes ticks fd f (i_ops (the (f_inode f))) buf n s })"

definition write_op :: "fops \<Rightarrow> u8 list \<Rightarrow> 'k vfs \<Rightarrow> 'k vfs" where
  "write_op ops data s = (if ops = OpsCon then s\<lparr>con := con s @ filter (\<lambda>c. c \<noteq> 0) data\<rparr> else s)"

text \<open>\<open>data\<close> is the \<open>n\<close> bytes at the user address \<open>b\<close>.\<close>

definition vfs_write :: "'p paging_scheme \<Rightarrow> int \<Rightarrow> u32 \<Rightarrow> u8 list \<Rightarrow> u32 \<Rightarrow> 'k vfs \<Rightarrow> (int \<times> 'k vfs) option" where
  "vfs_write pg fd b data n s = do {
     ok \<leftarrow> user_access_ok pg b n False;
     if \<not> ok then Some (- 14, s)
     else (case fd_file fd s of None \<Rightarrow> Some (- 9, s)
       | Some f \<Rightarrow>
           if f_kind f \<noteq> FILE_VFS \<or> \<not> can_write (i_ops (the (f_inode f))) then Some (- 9, s)
           else Some (sint n, write_op (i_ops (the (f_inode f))) data s)) }"

section \<open>Closing and sockets\<close>

definition fat_close :: "'k file_t \<Rightarrow> 'k vfs \<Rightarrow> 'k vfs" where
  "fat_close f s =
     (case f_private f of PFat h \<Rightarrow> s\<lparr>fat_handles := (fat_handles s)[h := (fat_handles s ! h)\<lparr>h_used := False\<rparr>]\<rparr>
      | _ \<Rightarrow> s)"

definition close_hook :: "'k file_t \<Rightarrow> 'k vfs \<Rightarrow> 'k vfs" where
  "close_hook f s = (case f_inode f of Some n \<Rightarrow> if has_close (i_ops n) then fat_close f s else s | None \<Rightarrow> s)"

definition vfs_close :: "int \<Rightarrow> 'k vfs \<Rightarrow> int \<times> 'k vfs" where
  "vfs_close fd s =
     (case fd_file fd s of None \<Rightarrow> (- 9, s)
      | Some f \<Rightarrow> if f_kind f \<noteq> FILE_VFS then (- 9, s) else (0, clear_fd fd (close_hook f s)))"

definition vfs_socket_install :: "'k \<Rightarrow> 'k vfs \<Rightarrow> int \<times> 'k vfs" where
  "vfs_socket_install sock s =
     (case vfs_fd_alloc FILE_SOCKET O_RDWR None (PSock sock) s of (fd, s) \<Rightarrow> (if fd < 0 then - 24 else fd, s))"

definition vfs_socket_get :: "int \<Rightarrow> 'k vfs \<Rightarrow> 'k option" where
  "vfs_socket_get fd s =
     (case fd_file fd s of None \<Rightarrow> None
      | Some f \<Rightarrow> if f_kind f \<noteq> FILE_SOCKET then None else (case f_private f of PSock k \<Rightarrow> Some k | _ \<Rightarrow> None))"

definition vfs_socket_close :: "int \<Rightarrow> 'k vfs \<Rightarrow> int \<times> 'k vfs" where
  "vfs_socket_close fd s = (if vfs_socket_get fd s = None then (- 9, s) else (0, clear_fd fd s))"

definition vfs_fd_exists :: "int \<Rightarrow> 'k vfs \<Rightarrow> bool" where
  "vfs_fd_exists fd s = (fd_slot fd s \<noteq> None)"

section \<open>The other calls on descriptors\<close>

record catos_stat =
  st_dev :: u32
  st_ino :: u32
  st_mode :: u32
  st_nlink :: u32
  st_uid :: u32
  st_gid :: u32
  st_rdev :: u32
  st_size :: u32
  st_blksize :: u32
  st_blocks :: u32

definition stat_file :: "'k file_t \<Rightarrow> 'k vfs \<Rightarrow> catos_stat" where
  "stat_file f s =
     (let de = (case f_private f of PFat h \<Rightarrow> Some (h_de (fat_handles s ! h)) | _ \<Rightarrow> None);
          st = \<lparr>st_dev = 0, st_ino = 0, st_mode = 0, st_nlink = 1, st_uid = 0, st_gid = 0, st_rdev = 0, st_size = 0,
                st_blksize = 0, st_blocks = 0\<rparr>
      in if f_kind f = FILE_SOCKET then st\<lparr>st_mode := 0xC000\<rparr>
         else (case f_inode f of None \<Rightarrow> st
           | Some n \<Rightarrow>
               st\<lparr>st_mode := (if i_type n = VFS_CHR then 0x2000
                   else (case de of Some d \<Rightarrow> if d_attr d AND ATTR_DIR \<noteq> 0 then 0x4000 else 0x8000 | None \<Rightarrow> 0x8000)),
                  st_size := (case de of Some d \<Rightarrow> if i_size n = 0 then d_size d else i_size n | None \<Rightarrow> i_size n)\<rparr>))"

text \<open>The result is the return value and the structure stored at the user address.\<close>

definition vfs_fstat :: "'p paging_scheme \<Rightarrow> int \<Rightarrow> u32 \<Rightarrow> 'k vfs \<Rightarrow> (int \<times> catos_stat option) option" where
  "vfs_fstat pg fd ust s =
     (case fd_file fd s of None \<Rightarrow> Some (- 9, None)
      | Some f \<Rightarrow> do {
          ok \<leftarrow> user_access_ok pg ust 40 True;
          if \<not> ok then Some (- 14, None) else Some (0, Some (stat_file f s)) })"

definition vfs_lseek :: "int \<Rightarrow> u32 \<Rightarrow> int \<Rightarrow> 'k vfs \<Rightarrow> int \<times> 'k vfs" where
  "vfs_lseek fd offset whence s =
     (case fd_file fd s of None \<Rightarrow> (- 9, s)
      | Some f \<Rightarrow>
          if f_kind f = FILE_SOCKET then (- 29, s)
          else (case f_inode f of None \<Rightarrow> (- 9, s)
            | Some n \<Rightarrow>
                if i_type n = VFS_CHR then (- 29, s)
                else if whence \<noteq> 0 \<and> whence \<noteq> 1 \<and> whence \<noteq> 2 then (- 22, s)
                else
                  let newpos = (if whence = 0 then offset else if whence = 1 then f_pos f + offset else i_size n + offset) in
                  if whence \<noteq> 2 \<and> sint newpos < 0 then (- 22, s)
                  else (sint newpos, upd_file fd (\<lambda>f. f\<lparr>f_pos := newpos\<rparr>) s)))"

definition vfs_dup2 :: "int \<Rightarrow> int \<Rightarrow> 'k vfs \<Rightarrow> int \<times> 'k vfs" where
  "vfs_dup2 oldfd newfd s =
     (if fd_slot oldfd s = None then (- 9, s)
      else if newfd < 0 \<or> newfd \<ge> int VFS_MAX_FD then (- 9, s)
      else if oldfd = newfd then (newfd, s)
      else
        let s = (case fd_file newfd s of None \<Rightarrow> s
                 | Some f \<Rightarrow> clear_fd newfd (if f_kind f = FILE_VFS then close_hook f s else s))
        in (newfd, s\<lparr>fds := (fds s)[nat newfd := fds s ! nat oldfd]\<rparr>))"

definition vfs_fcntl :: "int \<Rightarrow> int \<Rightarrow> u32 \<Rightarrow> 'k vfs \<Rightarrow> int \<times> 'k vfs" where
  "vfs_fcntl fd cmd arg s =
     (case fd_file fd s of None \<Rightarrow> (- 9, s)
      | Some f \<Rightarrow>
          if cmd = 1 \<or> cmd = 2 then (0, s)
          else if cmd = 3 then (sint (f_flags f), s)
          else if cmd = 4 then (0, upd_file fd (\<lambda>f. f\<lparr>f_flags := arg\<rparr>) s)
          else (- 22, s))"

text \<open>The result is the return value and the 16-bit values stored at the user address.\<close>

definition vfs_ioctl :: "'p paging_scheme \<Rightarrow> int \<Rightarrow> u32 \<Rightarrow> u32 \<Rightarrow> 'k vfs \<Rightarrow> (int \<times> u16 list) option" where
  "vfs_ioctl pg fd cmd arg s =
     (if fd_slot fd s = None then Some (- 9, [])
      else if cmd = 0x5413 then do {
        ok \<leftarrow> user_access_ok pg arg 8 True;
        if \<not> ok then Some (- 14, []) else Some (0, [24, 80, 0, 0]) }
      else if cmd = 0x541B then Some (0, [])
      else Some (- 25, []))"

text \<open>User memory is a function from addresses to bytes.\<close>

definition um_bytes :: "(u32 \<Rightarrow> u8) \<Rightarrow> u32 \<Rightarrow> nat \<Rightarrow> u8 list" where
  "um_bytes um a n = map (\<lambda>i. um (a + of_nat i)) [0..<n]"

fun writev_loop ::
  "'p paging_scheme \<Rightarrow> (u32 \<Rightarrow> u8) \<Rightarrow> int \<Rightarrow> u32 \<Rightarrow> nat list \<Rightarrow> u32 \<Rightarrow> 'k vfs \<Rightarrow> (int \<times> 'k vfs) option" where
  "writev_loop pg um fd iov [] tot s = Some (sint tot, s)"
| "writev_loop pg um fd iov (i # is) tot s = do {
     ok \<leftarrow> user_access_ok pg (iov + of_nat i * 8) 8 False;
     if \<not> ok then Some (- 14, s)
     else
       let e = um_bytes um (iov + of_nat i * 8) 8; base = rd32 e 0; len = rd32 e 4 in
       if len = 0 then writev_loop pg um fd iov is tot s
       else do {
         ok \<leftarrow> user_access_ok pg base len False;
         if \<not> ok then Some (- 14, s)
         else do {
           (r, s) \<leftarrow> vfs_write pg fd base (um_bytes um base (unat len)) len s;
           if r < 0 then Some (r, s)
           else if (word_of_int r :: u32) < len then Some (sint (tot + word_of_int r), s)
           else writev_loop pg um fd iov is (tot + word_of_int r) s } } }"

definition vfs_writev :: "'p paging_scheme \<Rightarrow> (u32 \<Rightarrow> u8) \<Rightarrow> int \<Rightarrow> u32 \<Rightarrow> int \<Rightarrow> 'k vfs \<Rightarrow> (int \<times> 'k vfs) option" where
  "vfs_writev pg um fd iov iovcnt s =
     (if fd_slot fd s = None then Some (- 9, s)
      else if iovcnt < 0 \<or> iovcnt > 16 then Some (- 22, s)
      else writev_loop pg um fd iov [0..<nat iovcnt] 0 s)"

definition vfs_fd_readable :: "int \<Rightarrow> 'k vfs \<Rightarrow> bool" where
  "vfs_fd_readable fd s =
     (case fd_file fd s of None \<Rightarrow> False
      | Some f \<Rightarrow> f_kind f = FILE_VFS \<and>
          (case f_inode f of None \<Rightarrow> False
           | Some n \<Rightarrow> (i_type n = VFS_CHR \<and> can_read (i_ops n)) \<or> i_type n = VFS_REG))"

definition vfs_fd_writable :: "int \<Rightarrow> 'k vfs \<Rightarrow> bool" where
  "vfs_fd_writable fd s =
     (case fd_file fd s of None \<Rightarrow> False
      | Some f \<Rightarrow> f_kind f = FILE_VFS \<and>
          (case f_inode f of None \<Rightarrow> False
           | Some n \<Rightarrow> (i_type n = VFS_CHR \<and> can_write (i_ops n)) \<or> i_type n = VFS_REG))"

section \<open>Start-up\<close>

text \<open>The self check of a mounted volume prints what it reads; what remains is its effect
  on the cache and the buffers.\<close>

definition fs_selfcheck :: "blk \<Rightarrow> fatst \<Rightarrow> fatst option" where
  "fs_selfcheck dev fat =
     (case fat16_root_enum dev 0 fat of
        (Inl e, fat) \<Rightarrow> Some fat
      | (Inr d, fat) \<Rightarrow> do {
          (r, b, fat) \<leftarrow> fat16_read_file dev d 0 (replicate 17 0) 16 fat;
          (r, fat) \<leftarrow> fat16_lookup dev (asc ''SUBDIR/INNER.TXT'') fat;
          case r of Inl e \<Rightarrow> Some fat
          | Inr d \<Rightarrow> do { (r, b, fat) \<leftarrow> fat16_read_file dev d 0 (replicate 9 0) 8 fat; Some fat } })"

fun autoprobe_loop :: "u8 list \<Rightarrow> (u8 list \<times> blk) list \<Rightarrow> 'k vfs \<Rightarrow> 'k vfs option" where
  "autoprobe_loop junk [] s = Some s"
| "autoprobe_loop junk ((name, dev) # ds) s =
     (case fat16_mount dev 0 junk (vfat s) of (ok, fat) \<Rightarrow>
        if \<not> ok then autoprobe_loop junk ds (s\<lparr>vfat := fat\<rparr>)
        else do { fat \<leftarrow> fs_selfcheck dev fat; Some (s\<lparr>vfat := fat, g_fatmnt := True, fat_blk := dev\<rparr>) })"

definition fs_autoprobe :: "u8 list \<Rightarrow> 'k vfs \<Rightarrow> 'k vfs option" where
  "fs_autoprobe junk s = autoprobe_loop junk (g_blks s) s"

definition open_test :: "inode \<Rightarrow> 'k vfs \<Rightarrow> 'k vfs option" where
  "open_test n s = do { (fd, s) \<leftarrow> vfs_open (i_name n) O_RDWR s; Some (if fd \<ge> 0 then snd (vfs_close fd s) else s) }"

text \<open>The self test of the descriptor table; \<open>one\<close> is the dummy socket pointer.\<close>

definition fd_selftest :: "'k \<Rightarrow> 'k vfs \<Rightarrow> (bool \<times> 'k vfs) option" where
  "fd_selftest one s = do {
     (a, s) \<leftarrow> vfs_open (asc ''/dev/null'') O_RDWR s;
     (b, s) \<leftarrow> vfs_open (asc ''/dev/null'') O_RDWR s;
     (c, s) \<leftarrow> vfs_open (asc ''/dev/null'') O_RDWR s;
     let (r1, s) = vfs_close b s;
     (d, s) \<leftarrow> vfs_open (asc ''/dev/console'') O_WRONLY s;
     let (e, s) = vfs_socket_install one s;
     let (r2, s) = (if e = 6 then vfs_close e s else (- 9, s));
     let (r3, s) = vfs_socket_close e s;
     let (r4, s) = vfs_close a s;
     (f, s) \<leftarrow> vfs_open (asc ''/dev/null'') O_RDWR s;
     let (r5, s) = vfs_close c s;
     let (r6, s) = (if r5 = 0 then vfs_close d s else (r5, s));
     let (r7, s) = (if r5 = 0 \<and> r6 = 0 then vfs_close f s else (r6, s));
     let (r8, s) = vfs_close (- 1) s;
     let (r9, s) = (if r8 = - 9 then vfs_close (int VFS_MAX_FD) s else (r8, s));
     let (r10, s) = (if r8 = - 9 \<and> r9 = - 9 then vfs_close f s else (r9, s));
     Some (a = 3 \<and> b = 4 \<and> c = 5 \<and> r1 = 0 \<and> d = 4 \<and> e = 6 \<and> r2 = - 9 \<and> r3 = 0 \<and> r4 = 0 \<and> f = 3 \<and>
       r5 = 0 \<and> r6 = 0 \<and> r7 = 0 \<and> r8 = - 9 \<and> r9 = - 9 \<and> r10 = - 9, s) }"

definition vfs_init :: "'k \<Rightarrow> u8 list \<Rightarrow> 'k vfs \<Rightarrow> (bool \<times> 'k vfs) option" where
  "vfs_init one junk s = do {
     (si, s) \<leftarrow> vfs_open (asc ''/dev/kbd'') O_RDONLY s;
     (so, s) \<leftarrow> vfs_open (asc ''/dev/console'') O_WRONLY s;
     (se, s) \<leftarrow> vfs_open (asc ''/dev/console'') O_WRONLY s;
     s \<leftarrow> open_test (nodes ! 0) s;
     s \<leftarrow> open_test (nodes ! 1) s;
     s \<leftarrow> open_test (nodes ! 2) s;
     (ok, s) \<leftarrow> fd_selftest one s;
     s \<leftarrow> fs_autoprobe junk s;
     Some (ok, s) }"

section \<open>System calls of the file layer\<close>

text \<open>A C string in user memory.\<close>

partial_function (option) cstr_at :: "(u32 \<Rightarrow> u8) \<Rightarrow> u32 \<Rightarrow> u8 list option" where
  "cstr_at um a = (if um a = 0 then Some [] else do { cs \<leftarrow> cstr_at um (a + 1); Some (um a # cs) })"

text \<open>The scan of the path from its second byte on; the first argument is the number of
  bytes left to the limit of 256.\<close>

fun path_scan :: "nat \<Rightarrow> 'p paging_scheme \<Rightarrow> (u32 \<Rightarrow> u8) \<Rightarrow> u32 \<Rightarrow> nat \<Rightarrow> nat option" where
  "path_scan 0 pg um a sl = Some sl"
| "path_scan (Suc n) pg um a sl = do {
     ok \<leftarrow> user_access_ok pg (a + of_nat sl) 1 False;
     if ok \<and> um (a + of_nat sl) \<noteq> 0 then path_scan n pg um a (Suc sl) else Some sl }"

text \<open>The result is the return value, what is stored in user memory, and the state.  The
  arguments are the registers \<open>a0\<close> to \<open>a2\<close>.  A read stores as many bytes as it returns; one
  that returns no positive count is recorded as a store if it left the buffer changed.\<close>

definition vfs_syscall ::
  "'p paging_scheme \<Rightarrow> (u32 \<Rightarrow> u8) \<Rightarrow> (u8 list \<times> u32) list \<Rightarrow> u32 \<Rightarrow> u32 \<Rightarrow> u32 list \<Rightarrow> 'k vfs
    \<Rightarrow> (int \<times> (u32 \<times> u8 list) list \<times> 'k vfs) option" where
  "vfs_syscall pg um wakes ticks nr a s =
     (if nr = 5 then do {
        ok \<leftarrow> user_access_ok pg (a ! 0) 1 False;
        if \<not> ok then Some (- 14, [], s)
        else do {
          sl \<leftarrow> path_scan 255 pg um (a ! 0) 1;
          if sl \<ge> 256 then Some (- 14, [], s)
          else do {
            path \<leftarrow> cstr_at um (a ! 0);
            (r, s) \<leftarrow> vfs_open path (a ! 1) s;
            Some (r, [], s) } } }
      else if nr = 6 then (case vfs_close (sint (a ! 0)) s of (r, s) \<Rightarrow> Some (r, [], s))
      else if nr = 0 \<or> nr = 3 then do {
        let buf = um_bytes um (a ! 1) (unat (a ! 2));
        (r, buf', s) \<leftarrow> vfs_read pg wakes ticks (sint (a ! 0)) (a ! 1) buf (a ! 2) s;
        Some (r, if r > 0 then [(a ! 1, take (nat r) buf')] else if buf' = buf then [] else [(a ! 1, buf')], s) }
      else if nr = 1 then do {
        (r, s) \<leftarrow> vfs_write pg (sint (a ! 0)) (a ! 1) (um_bytes um (a ! 1) (unat (a ! 2))) (a ! 2) s;
        Some (r, [], s) }
      else Some (- 38, [], s))"

end
