(* ===== verification/Fat16Dir.thy ===== *)
theory Fat16Dir
  imports Fat16
begin

text \<open>
  The directory side of \<^verbatim>\<open>src/fs/fat16.c\<close>: mounting yields a sound state, the census
  taken at mount time agrees with the enumeration of the root directory, and a lookup
  in the root directory finds the first entry of that name.
\<close>

section \<open>The entries of the root directory\<close>

text \<open>The raw entries from the given indices on, up to the end mark; \<open>None\<close> is a sector
  that cannot be read.\<close>

definition root_sector :: "fat16_mnt \<Rightarrow> nat \<Rightarrow> u32" where
  "root_sector m i = m_base m + (m_root_lba m + of_nat (i div 16))"

fun root_entries :: "disk \<Rightarrow> fat16_mnt \<Rightarrow> nat list \<Rightarrow> u8 list list option" where
  "root_entries disk m [] = Some []"
| "root_entries disk m (i # is) =
     (if unat (m_rootents m) \<le> i then Some []
      else (case disk (root_sector m i) of None \<Rightarrow> None
        | Some b \<Rightarrow> (let r = take 32 (drop (i mod 16 * 32) b) in
            if r ! 0 = FAT16_EOD then Some [] else map_option ((#) r) (root_entries disk m is))))"

definition ordinary :: "u8 list \<Rightarrow> bool" where
  "ordinary r \<longleftrightarrow> snd (de_fill r) \<and> r ! 11 AND ATTR_VOLUME = 0 \<and> r ! 11 AND ATTR_DIR = 0"

definition files :: "u8 list list \<Rightarrow> fat16_dirent list" where
  "files rs = map (fst \<circ> de_fill) (filter ordinary rs)"

text \<open>The part of the mount descriptor that the census does not touch.\<close>

definition geom :: "fat16_mnt \<Rightarrow> fat16_mnt" where
  "geom m = m\<lparr>m_label := [], m_nfiles := 0, m_first := None\<rparr>"

lemma geom_fields:
  assumes "geom m = geom m'"
  shows "m_base m = m_base m'" "m_fat_lba m = m_fat_lba m'" "m_root_lba m = m_root_lba m'"
    "m_rootents m = m_rootents m'" "m_spc m = m_spc m'" "m_nclusters m = m_nclusters m'"
    "m_data_lba m = m_data_lba m'" "m_totsec m = m_totsec m'"
  using assms by (cases m; cases m'; simp add: geom_def)+

lemma geom_census [simp]: "geom (census_entry r m) = geom m"
  by (simp add: census_entry_def geom_def)

lemma root_entries_cong: "geom m = geom m' \<Longrightarrow> root_entries disk m is = root_entries disk m' is"
  by (induction "is") (simp_all add: root_sector_def geom_fields [of m m'] Let_def split: option.splits)

lemma root_index:
  assumes "i \<le> 65535"
  shows "(of_nat i :: u32) div 16 = of_nat (i div 16)" "unat (((of_nat i :: u32) AND 15) * 32) = i mod 16 * 32"
    "(of_nat i :: u32) \<ge> ucast (n :: u16) \<longleftrightarrow> unat n \<le> i"
proof -
  have u: "unat (of_nat i :: u32) = i" using assms by (simp add: unat_of_nat)
  have "i div 16 < 4294967296" using assms by simp
  then have "unat (of_nat (i div 16) :: u32) = i div 16" by (simp add: unat_of_nat)
  then show "(of_nat i :: u32) div 16 = of_nat (i div 16)"
    using u by (simp add: word_unat_eq_iff unat_div)
  have "(of_nat i :: u32) AND 15 = take_bit 4 (of_nat i)" by (simp add: take_bit_eq_mask mask_eq_exp_minus_1)
  then have "unat ((of_nat i :: u32) AND 15) = i mod 16" using u by (simp add: unat_mod take_bit_eq_mod)
  then show "unat (((of_nat i :: u32) AND 15) * 32) = i mod 16 * 32" by (simp add: unat_word_ariths)
  show "(of_nat i :: u32) \<ge> ucast (n :: u16) \<longleftrightarrow> unat n \<le> i" using u by (simp add: word_le_nat_alt)
qed

lemma dir_raw_root:
  assumes d: "blk_ok dev disk" and i: "i \<le> 65535"
  shows "dir_raw dev c True (of_nat i) s =
    (if unat (m_rootents (mnt s)) \<le> i then (0, [], s)
     else (case disk (root_sector (mnt s) i) of None \<Rightarrow> (- 1, [], s)
       | Some b \<Rightarrow> (1, take 32 (drop (i mod 16 * 32) b), s\<lparr>dir_sec := b\<rparr>)))"
proof (cases "unat (m_rootents (mnt s)) \<le> i")
  case True
  then show ?thesis using root_index(3) [OF i] by (simp add: dir_raw_def)
next
  case False
  then have f: "dir_raw dev c True (of_nat i) s =
      dir_fetch dev (m_root_lba (mnt s) + of_nat (i div 16)) ((of_nat i AND 15) * 32) s"
    using root_index [OF i] by (simp add: dir_raw_def)
  show ?thesis
  proof (cases "disk (root_sector (mnt s) i)")
    case None
    then obtain e where "e \<noteq> 0" "dev (root_sector (mnt s) i) (dir_sec s) = (e, dir_sec s)"
      using blk_ok_fail [OF d] by blast
    then show ?thesis using False None f by (simp add: dir_fetch_def rd_sec_def root_sector_def)
  next
    case (Some b)
    then have "dev (root_sector (mnt s) i) (dir_sec s) = (0, b)" using blk_ok_read [OF d] by blast
    then show ?thesis
      using False Some f root_index(2) [OF i] by (simp add: dir_fetch_def rd_sec_def root_sector_def)
  qed
qed

lemma mnt_dir_sec [simp]: "mnt (s\<lparr>dir_sec := b\<rparr>) = mnt s" "fcache (s\<lparr>dir_sec := b\<rparr>) = fcache s"
  by simp_all

lemma mnt_upd_fields [simp]: "mnt (mnt_upd f s) = f (mnt s)" "fcache (mnt_upd f s) = fcache s"
  by (simp_all add: mnt_upd_def)

section \<open>Census and enumeration\<close>

lemma census_spec:
  assumes d: "blk_ok dev disk"
  shows "\<forall>i \<in> set is. i \<le> 65535 \<Longrightarrow> census dev is s = (ok, t) \<Longrightarrow>
    fcache t = fcache s \<and> (case root_entries disk (mnt s) is of
      None \<Rightarrow> \<not> ok | Some rs \<Rightarrow> ok \<and> mnt t = fold census_entry rs (mnt s))"
proof (induction "is" arbitrary: s)
  case (Cons i "is")
  then have i: "i \<le> 65535" by simp
  note raw = dir_raw_root [OF d i, of 0 s]
  show ?case
  proof (cases "unat (m_rootents (mnt s)) \<le> i")
    case True
    then show ?thesis using Cons.prems(2) raw by auto
  next
    case False
    show ?thesis
    proof (cases "disk (root_sector (mnt s) i)")
      case None
      then show ?thesis using Cons.prems(2) raw False by auto
    next
      case (Some b)
      define r where "r = take 32 (drop (i mod 16 * 32) b)"
      define s' where "s' = mnt_upd (census_entry r) (s\<lparr>dir_sec := b\<rparr>)"
      have raw': "dir_raw dev 0 True (of_nat i) s = (1, r, s\<lparr>dir_sec := b\<rparr>)"
        using raw False Some by (simp add: r_def)
      show ?thesis
      proof (cases "r ! 0 = FAT16_EOD")
        case True
        then show ?thesis using Cons.prems(2) raw' False Some by (auto simp: r_def [symmetric])
      next
        case nz: False
        then have "census dev is s' = (ok, t)" using Cons.prems(2) raw' by (simp add: s'_def)
        moreover have "root_entries disk (mnt s') is = root_entries disk (mnt s) is"
          by (rule root_entries_cong) (simp add: s'_def)
        ultimately show ?thesis
          using Cons.IH [of s'] Cons.prems(1) False Some nz
          by (auto simp: s'_def r_def [symmetric] Let_def split: option.splits)
      qed
    qed
  qed
qed simp

lemma fold_census:
  "geom (fold census_entry rs m) = geom m \<and>
   m_nfiles (fold census_entry rs m) = m_nfiles m + of_nat (length (files rs))"
proof (induction rs arbitrary: m)
  case (Cons r rs)
  have "m_nfiles (census_entry r m) = m_nfiles m + of_nat (if ordinary r then 1 else 0)"
    by (auto simp: census_entry_def ordinary_def de_fill_def)
  then show ?case using Cons.IH [of "census_entry r m"] by (simp add: files_def)
qed (simp add: files_def)

lemma enum_spec:
  assumes d: "blk_ok dev disk"
  shows "\<forall>i \<in> set is. i \<le> 65535 \<Longrightarrow> root_entries disk (mnt s) is = Some rs \<Longrightarrow>
    unat hit + length is < 0x100000000 \<Longrightarrow> hit \<le> want \<Longrightarrow>
    fst (root_enum_loop dev is want hit s) =
      (let k = unat want - unat hit in if k < length (files rs) then Inr (files rs ! k) else Inl (- 2))"
proof (induction "is" arbitrary: s rs hit)
  case Nil
  then show ?case by (simp add: files_def)
next
  case (Cons i "is")
  then have i: "i \<le> 65535" by simp
  note raw = dir_raw_root [OF d i, of 0 s]
  show ?case
  proof (cases "unat (m_rootents (mnt s)) \<le> i")
    case True
    then show ?thesis using Cons.prems(2) raw by (auto simp: files_def)
  next
    case False
    then obtain b where b: "disk (root_sector (mnt s) i) = Some b"
      using Cons.prems(2) by (auto split: option.splits)
    define r where "r = take 32 (drop (i mod 16 * 32) b)"
    have raw': "dir_raw dev 0 True (of_nat i) s = (1, r, s\<lparr>dir_sec := b\<rparr>)"
      using raw False b by (simp add: r_def)
    show ?thesis
    proof (cases "r ! 0 = FAT16_EOD")
      case True
      then show ?thesis using Cons.prems(2) raw' False b by (auto simp: r_def [symmetric] files_def)
    next
      case nz: False
      then obtain rs' where rs: "rs = r # rs'" "root_entries disk (mnt s) is = Some rs'"
        using Cons.prems(2) False b by (auto simp: r_def [symmetric])
      have IH: "fst (root_enum_loop dev is want h (s\<lparr>dir_sec := b\<rparr>)) =
          (let k = unat want - unat h in if k < length (files rs') then Inr (files rs' ! k) else Inl (- 2))"
        if "unat h + length is < 0x100000000" "h \<le> want" for h
        using Cons.IH [of "s\<lparr>dir_sec := b\<rparr>" rs' h] Cons.prems(1) rs(2) that by simp
      show ?thesis
      proof (cases "ordinary r")
        case True
        then have f: "files rs = fst (de_fill r) # files rs'" by (simp add: files_def rs(1))
        have o: "root_enum_loop dev (i # is) want hit s =
            (if hit = want then (Inr (fst (de_fill r)), s\<lparr>dir_sec := b\<rparr>) else root_enum_loop dev is want (hit + 1) (s\<lparr>dir_sec := b\<rparr>))"
          using raw' nz True by (simp add: ordinary_def de_fill_def)
        show ?thesis
        proof (cases "hit = want")
          case True
          then show ?thesis using o f by simp
        next
          case ne: False
          have "unat (hit + 1) = unat hit + 1" using Cons.prems(3) by (simp add: unat_word_ariths)
          moreover have "unat hit < unat want" using ne Cons.prems(4) by (simp add: word_le_nat_alt nat_less_le word_unat_eq_iff)
          ultimately have k: "unat want - unat hit = Suc (unat want - unat (hit + 1))" "hit + 1 \<le> want"
            by (simp_all add: word_le_nat_alt)
          have "unat (hit + 1) + length is < 0x100000000" using \<open>unat (hit + 1) = unat hit + 1\<close> Cons.prems(3) by simp
          then show ?thesis using o f ne IH [OF _ k(2)] unfolding k(1) by (simp add: Let_def)
        qed
      next
        case no: False
        then have f: "files rs = files rs'" by (simp add: files_def rs(1))
        have o: "root_enum_loop dev (i # is) want hit s = root_enum_loop dev is want hit (s\<lparr>dir_sec := b\<rparr>)"
          using raw' nz no by (auto simp: ordinary_def de_fill_def)
        show ?thesis unfolding f o using Cons.prems(3,4) by (intro IH) simp_all
      qed
    qed
  qed
qed

lemma root_entries_length: "root_entries disk m is = Some rs \<Longrightarrow> length rs \<le> length is"
  by (induction "is" arbitrary: rs) (auto simp: Let_def split: if_splits option.splits)

lemma root_indices_bound: "i \<in> set (root_indices s) \<Longrightarrow> i \<le> 65535"
  using unat_u16_lt [of "m_rootents (mnt s)"] by (auto simp: root_indices_def)

lemma root_indices_cong: "geom (mnt s) = geom (mnt t) \<Longrightarrow> root_indices s = root_indices t"
  by (simp add: root_indices_def geom_fields [of "mnt s" "mnt t"])

lemma mount_cases:
  assumes d: "blk_ok dev disk" and r: "fat16_mount dev p junk s = (True, t)"
  obtains bs rs where "disk p = Some bs" "bpb_ok bs" "geom (mnt t) = geom (bpb_mnt p bs)" "fcache t = cold_cache"
    "root_entries disk (mnt t) (root_indices t) = Some rs" "m_nfiles (mnt t) = of_nat (length (files rs))"
proof -
  obtain bs where bs: "disk p = Some bs"
    using r blk_ok_fail [OF d, of p junk] by (cases "disk p") (auto simp: fat16_mount_def)
  then have dev: "dev p junk = (0, bs)" using blk_ok_read [OF d] by blast
  have ok: "bpb_ok bs" using r dev by (auto simp: fat16_mount_def split: if_splits)
  define s1 where "s1 = s\<lparr>mnt := bpb_mnt p bs, fcache := cold_cache, ftick := 0\<rparr>"
  obtain ok2 s2 where c: "census dev (root_indices s1) s1 = (ok2, s2)" by fastforce
  have t: "ok2" "t = mnt_upd (\<lambda>m. if m_label m = [] \<or> hd (m_label m) = 0
      then m\<lparr>m_label := filter (\<lambda>c. c \<noteq> 0x20) (take 11 (drop 43 bs))\<rparr> else m) s2"
    using r dev ok c by (auto simp: fat16_mount_def Let_def s1_def [symmetric] split: if_splits)
  have "\<forall>i \<in> set (root_indices s1). i \<le> 65535" using root_indices_bound by blast
  from census_spec [OF d this c] t(1) obtain rs where
    rs: "fcache s2 = fcache s1" "root_entries disk (mnt s1) (root_indices s1) = Some rs" "mnt s2 = fold census_entry rs (mnt s1)"
    by (auto split: option.splits)
  have gt: "geom (mnt t) = geom (mnt s2)" "m_nfiles (mnt t) = m_nfiles (mnt s2)" "fcache t = fcache s2"
    using t(2) by (simp_all add: geom_def)
  have g: "geom (mnt t) = geom (mnt s1)" "m_nfiles (mnt t) = m_nfiles (mnt s1) + of_nat (length (files rs))"
    using gt rs(3) fold_census [of rs "mnt s1"] by simp_all
  show thesis
  proof (rule that [OF bs ok])
    show "geom (mnt t) = geom (bpb_mnt p bs)" using g(1) by (simp add: s1_def)
    show "fcache t = cold_cache" using gt(3) rs(1) by (simp add: s1_def)
    show "root_entries disk (mnt t) (root_indices t) = Some rs"
      using rs(2) root_entries_cong [OF g(1)] root_indices_cong [OF g(1)] by simp
    show "m_nfiles (mnt t) = of_nat (length (files rs))" using g(2) by (simp add: s1_def bpb_mnt_def Let_def)
  qed
qed

text \<open>Property C15: a mount that succeeds yields a sound file system: the cache holds only
  sectors of the disk, a cluster has at least one sector, the data area lies inside the
  volume, there are fewer clusters than reserved numbers, and the file count taken at
  mount time is exactly the number of files the enumeration of the root delivers.\<close>

theorem fat16_mount_sound:
  assumes "blk_ok dev disk" "fat16_mount dev p junk s = (True, t)"
  shows "fat_inv disk t \<and> m_spc (mnt t) \<noteq> 0 \<and> m_data_lba (mnt t) < m_totsec (mnt t)
    \<and> 0 < m_nclusters (mnt t) \<and> m_nclusters (mnt t) < 65525
    \<and> (\<forall>i. 0 \<le> i \<and> i < 2 ^ 31 \<longrightarrow>
         (\<exists>d. fst (fat16_root_enum dev i t) = Inr d) \<longleftrightarrow> i < uint (m_nfiles (mnt t)))"
proof -
  from mount_cases [OF assms] obtain bs rs where
    b: "disk p = Some bs" "bpb_ok bs" "geom (mnt t) = geom (bpb_mnt p bs)" "fcache t = cold_cache"
      "root_entries disk (mnt t) (root_indices t) = Some rs" "m_nfiles (mnt t) = of_nat (length (files rs))" .
  note g = geom_fields [OF b(3)]
  have "length (files rs) \<le> length rs" by (simp add: files_def)
  also have "\<dots> \<le> length (root_indices t)" by (rule root_entries_length [OF b(5)])
  also have "\<dots> \<le> 65536" using unat_u16_lt [of "m_rootents (mnt t)"] by (simp add: root_indices_def)
  finally have len: "length (files rs) \<le> 65536" .
  have li: "length (root_indices t) \<le> 65536"
    using unat_u16_lt [of "m_rootents (mnt t)"] by (simp add: root_indices_def)
  have bd: "\<forall>j \<in> set (root_indices t). j \<le> 65535" using root_indices_bound by blast
  have "unat (m_nfiles (mnt t)) = length (files rs)" using len b(6) by (simp add: unat_of_nat)
  then have n: "uint (m_nfiles (mnt t)) = int (length (files rs))" by (metis uint_nat)
  have "(\<exists>d. fst (fat16_root_enum dev i t) = Inr d) \<longleftrightarrow> i < uint (m_nfiles (mnt t))"
    if i: "0 \<le> i \<and> i < 2 ^ 31" for i
  proof -
    have "(word_of_int i :: u32) = of_nat (nat i)" using i by simp
    then have u: "unat (word_of_int i :: u32) = nat i"
      using i by (simp only: unat_of_nat) (simp add: nat_less_iff)
    have "fst (fat16_root_enum dev i t) = fst (root_enum_loop dev (root_indices t) (word_of_int i) 0 t)"
      using i by (simp add: fat16_root_enum_def)
    also have "\<dots> = (if nat i < length (files rs) then Inr (files rs ! nat i) else Inl (- 2))"
      using enum_spec [OF assms(1) bd b(5), of 0 "word_of_int i"] li u by (simp add: Let_def)
    finally show ?thesis using i n by auto
  qed
  moreover have "fat_inv disk t" using b(4) by (auto simp: fat_inv_def cold_cache_def)
  moreover have "m_spc (mnt t) \<noteq> 0 \<and> m_data_lba (mnt t) < m_totsec (mnt t)
      \<and> 0 < m_nclusters (mnt t) \<and> m_nclusters (mnt t) < 65525"
    using b(2) g by (auto simp: bpb_ok_def bpb_mnt_def Let_def word_gt_0 not_le not_less)
  ultimately show ?thesis by blast
qed

section \<open>Lookup in the root directory\<close>

definition named :: "u8 list \<Rightarrow> u8 list \<Rightarrow> bool" where
  "named seg r \<longleftrightarrow> snd (de_fill r) \<and> r ! 11 AND ATTR_VOLUME = 0 \<and> nameq seg (fmt83 r)"

lemma dir_find_root:
  assumes d: "blk_ok dev disk"
  shows "root_entries disk (mnt s) [i..<Suc (unat (m_rootents (mnt s)))] = Some rs \<Longrightarrow>
    i \<le> unat (m_rootents (mnt s)) \<Longrightarrow>
    \<exists>t. dir_find dev c True seg (of_nat i) s = Some (Inr (map_option (fst \<circ> de_fill) (find (named seg) rs)), t)
      \<and> mnt t = mnt s \<and> fcache t = fcache s"
proof (induction "unat (m_rootents (mnt s)) - i" arbitrary: i s rs)
  case 0
  then have i: "unat (m_rootents (mnt s)) = i" by simp
  then have "i \<le> 65535" using unat_u16_lt [of "m_rootents (mnt s)"] by simp
  from dir_raw_root [OF d this] i have "dir_raw dev c True (of_nat i) s = (0, [], s)" by simp
  moreover have "rs = []" using 0 i by simp
  ultimately show ?case by (subst dir_find.simps) simp
next
  case (Suc n)
  define R where "R = unat (m_rootents (mnt s))"
  have i: "i < R" "i \<le> 65535" using Suc.hyps(2) unat_u16_lt [of "m_rootents (mnt s)"] by (simp_all add: R_def)
  have up: "[i..<Suc R] = i # [Suc i..<Suc R]" using i(1) by (simp add: upt_conv_Cons)
  obtain b where b: "disk (root_sector (mnt s) i) = Some b"
    using Suc.prems(1) i(1) unfolding up [unfolded R_def] by (auto simp: R_def split: option.splits)
  define r where "r = take 32 (drop (i mod 16 * 32) b)"
  define s' where "s' = s\<lparr>dir_sec := b\<rparr>"
  have raw: "dir_raw dev c True (of_nat i) s = (1, r, s')"
    using dir_raw_root [OF d i(2), of c s] i(1) b by (simp add: r_def s'_def R_def)
  have s': "mnt s' = mnt s" "fcache s' = fcache s" by (simp_all add: s'_def)
  show ?case
  proof (cases "r ! 0 = FAT16_EOD")
    case True
    then have "rs = []" using Suc.prems(1) i(1) b unfolding up [unfolded R_def] by (simp add: R_def r_def)
    then show ?thesis using raw True s' by (subst dir_find.simps) simp
  next
    case False
    then obtain rs' where rs: "rs = r # rs'" "root_entries disk (mnt s') [Suc i..<Suc (unat (m_rootents (mnt s')))] = Some rs'"
      using Suc.prems(1) i(1) b unfolding up [unfolded R_def] by (auto simp: R_def r_def s')
    have IH: "\<exists>t. dir_find dev c True seg (of_nat (Suc i)) s' =
        Some (Inr (map_option (fst \<circ> de_fill) (find (named seg) rs')), t) \<and> mnt t = mnt s' \<and> fcache t = fcache s'"
      using Suc.hyps(2) i(1) by (intro Suc.hyps(1) rs(2)) (simp_all add: s' R_def)
    have "dir_find dev c True seg (of_nat i) s =
        (if named seg r then Some (Inr (Some (fst (de_fill r))), s') else dir_find dev c True seg (of_nat i + 1) s')"
      using raw False by (subst dir_find.simps) (auto simp: named_def de_fill_def)
    then show ?thesis using IH s' rs(1) by (auto simp: add.commute)
  qed
qed

text \<open>Looking up a name in the root directory always returns, and returns the
  first entry of that name, compared without regard to case, or that there is none.\<close>

theorem fat16_lookup_root:
  assumes d: "blk_ok dev disk" and rs: "root_entries disk (mnt s) (root_indices s) = Some rs"
    and path: "path \<noteq> []" "0x2F \<notin> set path" "length path \<le> 12"
  shows "\<exists>t. fat16_lookup dev path s =
    Some (case find (named path) rs of None \<Rightarrow> Inl (- 2) | Some r \<Rightarrow> Inr (fst (de_fill r)), t)
      \<and> mnt t = mnt s \<and> fcache t = fcache s"
proof -
  obtain t where t: "dir_find dev 0 True path 0 s =
      Some (Inr (map_option (fst \<circ> de_fill) (find (named path) rs)), t)" "mnt t = mnt s" "fcache t = fcache s"
    using dir_find_root [OF d, of s 0 rs 0 path] rs by (auto simp: root_indices_def)
  have h: "hd path \<noteq> 0x2F" using path(1,2) by (metis list.set_sel(1))
  have p: "dropWhile (\<lambda>c. c = 0x2F) path = path" using path(1) h by (cases path) simp_all
  have q: "takeWhile (\<lambda>c. c \<noteq> 0x2F) path = path" "dropWhile (\<lambda>c. c \<noteq> 0x2F) path = []"
    using path(2) by (auto simp: takeWhile_eq_all_conv)
  show ?thesis
    unfolding fat16_lookup_def using t path(1,3)
    by (subst lookup_path.simps) (simp add: p q split: option.splits)
qed

section \<open>A small volume\<close>

text \<open>A volume with one sector per cluster and one file of 600 bytes in two clusters.\<close>

definition demo_boot :: "u8 list" where
  "demo_boot = (replicate 512 0)[12 := 2, 13 := 1, 14 := 1, 16 := 1, 17 := 16, 19 := 100, 22 := 1, 510 := 0x55, 511 := 0xAA]"

definition demo_fat :: "u8 list" where
  "demo_fat = (replicate 512 0)[4 := 3, 6 := 0xFF, 7 := 0xFF]"

definition demo_root :: "u8 list" where
  "demo_root = [0x41, 0x20, 0x20, 0x20, 0x20, 0x20, 0x20, 0x20, 0x54, 0x58, 0x54, 0x20, 0, 0, 0, 0,
     0, 0, 0, 0, 0, 0, 0, 0, 0, 0, 2, 0, 0x58, 2, 0, 0] @ replicate 480 0"

definition demo_disk :: disk where
  "demo_disk lba = Some (if lba = 0 then demo_boot else if lba = 1 then demo_fat else if lba = 2 then demo_root
     else replicate 512 (ucast lba))"

definition demo_dev :: blk where
  "demo_dev lba buf = (0, the (demo_disk lba))"

definition demo_fs :: fatst where
  "demo_fs = \<lparr>mnt = bpb_mnt 0 demo_boot, fcache = cold_cache, ftick = 0, dir_sec = [], bounce = []\<rparr>"

definition demo_file :: fat16_dirent where
  "demo_file = \<lparr>d_name = [0x41, 0x2E, 0x54, 0x58, 0x54], d_attr = 0x20, d_size = 600, d_cluster = 2\<rparr>"

lemma demo_ok: "blk_ok demo_dev demo_disk"
proof -
  have "length demo_boot = 512" "length demo_fat = 512" "length demo_root = 512"
    by (simp_all add: demo_boot_def demo_fat_def demo_root_def)
  then show ?thesis by (simp add: blk_ok_def demo_dev_def demo_disk_def)
qed

lemma demo_bpb: "bpb_ok demo_boot"
  unfolding demo_boot_def by code_simp

lemma demo_mnt:
  "m_base (mnt demo_fs) = 0" "m_spc (mnt demo_fs) = 1" "m_fat_lba (mnt demo_fs) = 1" "m_root_lba (mnt demo_fs) = 2"
  "m_data_lba (mnt demo_fs) = 3" "m_rootents (mnt demo_fs) = 16"
  by code_simp+

lemma root_entries_total: "(\<And>lba. disk lba \<noteq> None) \<Longrightarrow> \<exists>rs. root_entries disk m is = Some rs"
proof (induction "is")
  case (Cons i "is")
  then obtain b where "disk (root_sector m i) = Some b" by blast
  then show ?case using Cons by (auto simp: Let_def)
qed simp

text \<open>A readable volume with a valid boot sector is mounted.\<close>

lemma mount_total:
  assumes d: "blk_ok dev disk" and all: "\<And>lba. disk lba \<noteq> None" and bs: "disk p = Some bs" "bpb_ok bs"
  shows "\<exists>t. fat16_mount dev p junk s = (True, t)"
proof -
  have dev: "dev p junk = (0, bs)" using blk_ok_read [OF d bs(1)] by blast
  define s1 where "s1 = s\<lparr>mnt := bpb_mnt p bs, fcache := cold_cache, ftick := 0\<rparr>"
  obtain ok s2 where c: "census dev (root_indices s1) s1 = (ok, s2)" by fastforce
  obtain rs where "root_entries disk (mnt s1) (root_indices s1) = Some rs" using root_entries_total [of disk, OF all] by blast
  moreover have "\<forall>i \<in> set (root_indices s1). i \<le> 65535" using root_indices_bound by blast
  ultimately have ok using census_spec [OF d _ c] by simp
  then show ?thesis using dev bs(2) c by (simp add: fat16_mount_def s1_def [symmetric])
qed

theorem fat16_mount_sound_witness:
  "\<exists>t. fat16_mount demo_dev 0 [] demo_fs = (True, t) \<and> fat_inv demo_disk t \<and> m_spc (mnt t) \<noteq> 0"
proof -
  obtain t where "fat16_mount demo_dev 0 [] demo_fs = (True, t)"
    using mount_total [OF demo_ok _ _ demo_bpb, of 0 "[]" demo_fs] by (auto simp: demo_disk_def)
  then show ?thesis using fat16_mount_sound [OF demo_ok] by blast
qed

lemma demo_inv: "fat_inv demo_disk demo_fs"
  by (auto simp: fat_inv_def demo_fs_def cold_cache_def)

lemma demo_cluster_bytes: "cluster_bytes (mnt demo_fs) = 512"
  by (simp add: cluster_bytes_def demo_mnt)

lemma demo_chain: "chain demo_disk (mnt demo_fs) 1 2 = Some 3"
proof -
  have "fat_entry demo_disk (mnt demo_fs) 2 = ucast (rd16 demo_fat 4)"
    by (simp add: fat_entry_def demo_mnt demo_disk_def)
  also have "\<dots> = 3" by (simp add: demo_fat_def rd16_def byte_at_def)
  finally show ?thesis by simp
qed

theorem fat16_read_repeats_witness:
  "\<exists>t. fat16_read_file demo_dev demo_file 0 (replicate 600 0) 600 demo_fs =
     Some (600, map (\<lambda>i. file_byte demo_disk (mnt demo_fs) demo_file (i mod 512)) [0..<600], t)"
proof -
  have "\<exists>t. fat16_read_file demo_dev demo_file 0 (replicate 600 0) 600 demo_fs = Some (sint (of_nat 600 :: u32),
      map (\<lambda>i. file_byte demo_disk (mnt demo_fs) demo_file (i mod cluster_bytes (mnt demo_fs))) [0..<600]
        @ drop 600 (replicate 600 0), t)"
    by (intro fat16_read_repeats [OF demo_ok demo_inv])
      (simp_all add: demo_mnt demo_file_def demo_disk_def)
  then show ?thesis by (auto simp: demo_cluster_bytes simp del: upt_rec_numeral)
qed

lemma demo_entries: "root_entries demo_disk (mnt demo_fs) (root_indices demo_fs) = Some [take 32 demo_root]"
proof -
  have "root_indices demo_fs = 0 # 1 # [2..<17]" by (simp add: root_indices_def demo_mnt upt_rec)
  moreover have "root_sector (mnt demo_fs) 0 = 2" "root_sector (mnt demo_fs) 1 = 2"
    by (simp_all add: root_sector_def demo_mnt)
  moreover have "take 32 (drop 32 demo_root) ! 0 = 0" "take 32 demo_root ! 0 = 0x41" by (simp_all add: demo_root_def)
  ultimately show ?thesis by (simp add: demo_mnt demo_disk_def)
qed

theorem fat16_lookup_root_witness:
  "\<exists>t. fat16_lookup demo_dev [0x61, 0x2E, 0x74, 0x78, 0x74] demo_fs = Some (Inr demo_file, t)"
proof -
  have "find (named [0x61, 0x2E, 0x74, 0x78, 0x74]) [take 32 demo_root] = Some (take 32 demo_root)"
    unfolding demo_root_def by code_simp
  moreover have "fst (de_fill (take 32 demo_root)) = demo_file"
    unfolding demo_root_def demo_file_def by code_simp
  ultimately show ?thesis
    using fat16_lookup_root [OF demo_ok demo_entries, of "[0x61, 0x2E, 0x74, 0x78, 0x74]"] by auto
qed

end
