(* ===== verification/VfsProps.thy ===== *)
theory VfsProps
  imports Vfs Fat16Dir
begin

text \<open>
  The descriptor table of \<^verbatim>\<open>src/fs/vfs.c\<close>: as long as no descriptor is duplicated, every
  descriptor has a slot and, for a file of the FAT volume, a handle of its own, so a
  call on one descriptor never changes what another one refers to.  With \<open>vfs_dup2\<close>
  this fails.
\<close>

section \<open>The invariant\<close>

definition own_slots :: "'k vfs \<Rightarrow> bool" where
  "own_slots s \<longleftrightarrow> length (fds s) = 32 \<and> length (fs_slots s) = 32 \<and> length (fat_handles s) = 8 \<and>
     (\<forall>i < 32. fds s ! i = None \<or> fds s ! i = Some i)"

text \<open>A socket has a socket behind it and no inode, a file has an inode, and it has a FAT
  handle exactly when it is a file of the FAT volume.\<close>

definition file_ok :: "'k file_t \<Rightarrow> bool" where
  "file_ok f \<longleftrightarrow>
     (case f_kind f of
        FILE_SOCKET \<Rightarrow> f_inode f = None \<and> (\<exists>k. f_private f = PSock k)
      | FILE_VFS \<Rightarrow> (\<exists>n. f_inode f = Some n \<and>
          (if i_ops n = OpsFat then \<exists>h < 8. f_private f = PFat h else f_private f = PNull)))"

text \<open>The handles in use are those of the open files, each of one file.\<close>

definition handle_of :: "int \<Rightarrow> 'k vfs \<Rightarrow> nat option" where
  "handle_of fd s = (case fd_file fd s of None \<Rightarrow> None
     | Some f \<Rightarrow> (case f_private f of PFat h \<Rightarrow> Some h | _ \<Rightarrow> None))"

definition vfs_inv :: "'k vfs \<Rightarrow> bool" where
  "vfs_inv s \<longleftrightarrow> own_slots s \<and> (\<forall>fd f. fd_file fd s = Some f \<longrightarrow> file_ok f) \<and>
     (\<forall>fd h. handle_of fd s = Some h \<longrightarrow> h_used (fat_handles s ! h)) \<and>
     (\<forall>fd fd' h. handle_of fd s = Some h \<and> handle_of fd' s = Some h \<longrightarrow> fd = fd')"

text \<open>What a descriptor refers to: the file and, for a FAT file, its directory entry.\<close>

definition view :: "int \<Rightarrow> 'k vfs \<Rightarrow> ('k file_t \<times> fat16_dirent option) option" where
  "view fd s = map_option (\<lambda>f. (f, map_option (\<lambda>h. h_de (fat_handles s ! h)) (handle_of fd s))) (fd_file fd s)"

section \<open>Lookups after updates\<close>

lemma fd_slot_own: "own_slots s \<Longrightarrow> fd_slot fd s = None \<or> (fd_slot fd s = Some (nat fd) \<and> 0 \<le> fd \<and> fd < 32)"
  by (auto simp: fd_slot_def own_slots_def not_less nat_less_iff)

lemma fd_file_cong: "fds t = fds s \<Longrightarrow> fs_slots t = fs_slots s \<Longrightarrow> fd_file fd t = fd_file fd s"
  by (simp add: fd_file_def fd_slot_def)

lemma handle_of_cong: "fd_file fd t = fd_file fd s \<Longrightarrow> handle_of fd t = handle_of fd s"
  by (simp add: handle_of_def)

lemma fd_file_clear:
  "own_slots s \<Longrightarrow> 0 \<le> fd \<Longrightarrow> fd < 32 \<Longrightarrow> fd_file fd' (clear_fd fd s) = (if fd' = fd then None else fd_file fd' s)"
  by (auto simp: fd_file_def fd_slot_def clear_fd_def own_slots_def nth_list_update nat_eq_iff)

lemma fd_file_upd:
  assumes "own_slots s"
  shows "fd_file fd' (upd_file fd g s) = (if fd' = fd then map_option g (fd_file fd s) else fd_file fd' s)"
proof (cases "fd_slot fd s")
  case None
  then show ?thesis by (auto simp: upd_file_def fd_file_def)
next
  case (Some k)
  then have k: "k = nat fd" "0 \<le> fd" "fd < 32" using fd_slot_own [OF assms, of fd] by auto
  have "fd_slot fd' (upd_file fd g s) = fd_slot fd' s" unfolding upd_file_def Some by (simp add: fd_slot_def)
  moreover have "fs_slots (upd_file fd g s) = (fs_slots s)[nat fd := g (fs_slots s ! nat fd)]"
    using Some k(1) by (simp add: upd_file_def)
  ultimately show ?thesis
    using Some k fd_slot_own [OF assms, of fd'] assms
    by (auto simp: fd_file_def nth_list_update own_slots_def nat_eq_iff)
qed

lemma alloc_spec:
  assumes own: "own_slots s" and r: "vfs_fd_alloc kind fl ino p s = (fd, t)"
  obtains (full) "fd = - 1" "t = s" "\<forall>i < 32. fds s ! i \<noteq> None"
  | (hit) "0 \<le> fd" "fd < 32" "fd_file fd s = None" "\<forall>i < nat fd. fds s ! i \<noteq> None" "own_slots t"
      "fat_handles t = fat_handles s"
      "\<And>fd'. fd_file fd' t = (if fd' = fd
         then Some \<lparr>f_inode = ino, f_pos = 0, f_flags = fl, f_kind = kind, f_private = p\<rparr> else fd_file fd' s)"
proof (cases "find_idx (\<lambda>x. x = None) (fds s)")
  case None
  then have "\<forall>i < 32. fds s ! i \<noteq> None" using own find_idx_None [of "\<lambda>x. x = None" "fds s"]
    by (auto simp: own_slots_def)
  then show ?thesis using full r None by (simp add: vfs_fd_alloc_def)
next
  case (Some i)
  from find_idx_Some [THEN iffD1, OF this] have i: "i < 32" "fds s ! i = None" "\<forall>j < i. fds s ! j \<noteq> None"
    using own by (auto simp: own_slots_def)
  have e: "fd = int i" "t = s\<lparr>fs_slots := (fs_slots s)[i := \<lparr>f_inode = ino, f_pos = 0, f_flags = fl, f_kind = kind, f_private = p\<rparr>],
      fds := (fds s)[i := Some i]\<rparr>"
    using r Some by (simp_all add: vfs_fd_alloc_def)
  show ?thesis
  proof (rule hit)
    show "0 \<le> fd" "fd < 32" "\<forall>j < nat fd. fds s ! j \<noteq> None" "fat_handles t = fat_handles s"
      using e i by simp_all
    show "fd_file fd s = None" using e i by (simp add: fd_file_def fd_slot_def)
    show "own_slots t" using own e i by (auto simp: own_slots_def nth_list_update)
    show "fd_file fd' t = (if fd' = fd
         then Some \<lparr>f_inode = ino, f_pos = 0, f_flags = fl, f_kind = kind, f_private = p\<rparr> else fd_file fd' s)" for fd'
    proof (cases "fd' = fd")
      case True
      then show ?thesis using own e i by (simp add: fd_file_def fd_slot_def own_slots_def)
    next
      case False
      then have "fd_slot fd' t = fd_slot fd' s"
        using e own i by (auto simp: fd_slot_def own_slots_def nth_list_update nat_eq_iff)
      moreover have "k \<noteq> i" if "fd_slot fd' s = Some k" for k
        using that fd_slot_own [OF own, of fd'] False e by auto
      ultimately show ?thesis using False e by (auto simp: fd_file_def map_option_case split: option.splits)
    qed
  qed
qed

section \<open>Calls that touch one descriptor\<close>

definition touches :: "int \<Rightarrow> 'k vfs \<Rightarrow> 'k vfs \<Rightarrow> bool" where
  "touches fd s t \<longleftrightarrow> own_slots t \<and> (\<forall>fd'. fd' \<noteq> fd \<longrightarrow> fd_file fd' t = fd_file fd' s \<and>
     (\<forall>h. handle_of fd' s = Some h \<longrightarrow> fat_handles t ! h = fat_handles s ! h))"

lemma touches_view: "touches fd s t \<Longrightarrow> fd' \<noteq> fd \<Longrightarrow> view fd' t = view fd' s"
  by (cases "handle_of fd' s") (auto simp: touches_def view_def handle_of_cong [of fd' t s])

lemma touches_handle: "touches fd s t \<Longrightarrow> fd' \<noteq> fd \<Longrightarrow> handle_of fd' t = handle_of fd' s"
  by (rule handle_of_cong) (simp add: touches_def)

text \<open>A step that touches one descriptor keeps the invariant when the file it leaves there is
  well formed and its handle is nobody else's.\<close>

lemma vfs_inv_touch:
  assumes inv: "vfs_inv s" and tc: "touches fd s t"
    and f: "\<And>f. fd_file fd t = Some f \<Longrightarrow> file_ok f"
    and h: "\<And>h. handle_of fd t = Some h \<Longrightarrow> h_used (fat_handles t ! h) \<and> (\<forall>fd'. fd' \<noteq> fd \<longrightarrow> handle_of fd' s \<noteq> Some h)"
  shows "vfs_inv t"
  unfolding vfs_inv_def
proof (intro conjI allI impI)
  show "own_slots t" using tc by (simp add: touches_def)
next
  fix d g assume "fd_file d t = Some g"
  then show "file_ok g" using f inv tc by (cases "d = fd") (auto simp: touches_def vfs_inv_def)
next
  fix d k assume k: "handle_of d t = Some k"
  show "h_used (fat_handles t ! k)"
  proof (cases "d = fd")
    case False
    then have "handle_of d s = Some k" using k touches_handle [OF tc] by simp
    then show ?thesis using inv tc False by (auto simp: touches_def vfs_inv_def)
  qed (use h k in blast)
next
  fix d e k assume k: "handle_of d t = Some k \<and> handle_of e t = Some k"
  have o: "handle_of x s = Some k" if "x \<noteq> fd" "handle_of x t = Some k" for x
    using that touches_handle [OF tc] by simp
  show "d = e"
  proof (cases "d = fd \<or> e = fd")
    case True
    then have "handle_of fd t = Some k" using k by blast
    then have n: "\<forall>x. x \<noteq> fd \<longrightarrow> handle_of x s \<noteq> Some k" using h by blast
    then have "x = fd" if "handle_of x t = Some k" for x using o that by blast
    then show ?thesis using k by blast
  next
    case False
    then show ?thesis using k o inv by (auto simp: vfs_inv_def)
  qed
qed

lemma vfs_inv_own: "vfs_inv s \<Longrightarrow> own_slots s"
  by (simp add: vfs_inv_def)

lemma inv_same:
  assumes "vfs_inv s" "fds t = fds s" "fs_slots t = fs_slots s" "fat_handles t = fat_handles s"
  shows "touches fd s t \<and> vfs_inv t"
proof -
  have "fd_file d t = fd_file d s" for d by (rule fd_file_cong) (use assms in simp_all)
  moreover from this have "handle_of d t = handle_of d s" for d by (rule handle_of_cong)
  moreover have "own_slots t" using assms by (simp add: vfs_inv_def own_slots_def)
  ultimately show ?thesis using assms(1,4) by (simp add: touches_def vfs_inv_def)
qed

lemma inv_upd_file:
  assumes inv: "vfs_inv s" and g: "\<And>f. f_inode (g f) = f_inode f \<and> f_kind (g f) = f_kind f \<and> f_private (g f) = f_private f"
  shows "touches fd s (upd_file fd g s) \<and> vfs_inv (upd_file fd g s)"
proof -
  have fh: "fat_handles (upd_file fd g s) = fat_handles s" by (simp add: upd_file_def split: option.splits)
  have own: "own_slots (upd_file fd g s)"
    using vfs_inv_own [OF inv] by (auto simp: upd_file_def own_slots_def split: option.splits)
  note ff = fd_file_upd [OF vfs_inv_own [OF inv], of _ fd g]
  have tc: "touches fd s (upd_file fd g s)" using own by (simp add: touches_def ff fh)
  have hd: "handle_of d (upd_file fd g s) = handle_of d s" for d
    using g by (auto simp: handle_of_def ff split: option.splits)
  have "vfs_inv (upd_file fd g s)"
  proof (rule vfs_inv_touch [OF inv tc])
    fix f assume "fd_file fd (upd_file fd g s) = Some f"
    then obtain f0 where f0: "fd_file fd s = Some f0" "f = g f0" by (auto simp: ff)
    then have e: "f_inode f = f_inode f0" "f_kind f = f_kind f0" "f_private f = f_private f0" using g by simp_all
    have "file_ok f0" using inv f0(1) by (auto simp: vfs_inv_def)
    then show "file_ok f" unfolding file_ok_def e .
  next
    fix h assume "handle_of fd (upd_file fd g s) = Some h"
    then show "h_used (fat_handles (upd_file fd g s) ! h) \<and> (\<forall>fd'. fd' \<noteq> fd \<longrightarrow> handle_of fd' s \<noteq> Some h)"
      using inv unfolding hd fh by (auto simp: vfs_inv_def)
  qed
  then show ?thesis using tc by blast
qed

lemma inv_alloc:
  assumes inv: "vfs_inv s" and r: "vfs_fd_alloc kind fl ino p s = (fd, t)"
    and ok: "file_ok \<lparr>f_inode = ino, f_pos = 0, f_flags = fl, f_kind = kind, f_private = p\<rparr>"
    and p: "\<And>h. p = PFat h \<Longrightarrow> h_used (fat_handles s ! h) \<and> (\<forall>d. handle_of d s \<noteq> Some h)"
  shows "touches fd s t \<and> vfs_inv t"
  using vfs_inv_own [OF inv] r
proof (cases rule: alloc_spec)
  case full
  then show ?thesis using inv_same [OF inv, of t fd] by simp
next
  case hit
  have tc: "touches fd s t" using hit by (simp add: touches_def)
  have "vfs_inv t"
  proof (rule vfs_inv_touch [OF inv tc])
    fix h assume "handle_of fd t = Some h"
    then have "p = PFat h" by (auto simp: handle_of_def hit(7) split: priv.splits)
    then show "h_used (fat_handles t ! h) \<and> (\<forall>fd'. fd' \<noteq> fd \<longrightarrow> handle_of fd' s \<noteq> Some h)" using p hit(6) by simp
  qed (use hit(7) ok in auto)
  then show ?thesis using tc by blast
qed

lemma inv_clear:
  assumes inv: "vfs_inv s" and fd: "0 \<le> fd" "fd < 32"
  shows "touches fd s (clear_fd fd s) \<and> vfs_inv (clear_fd fd s)"
proof -
  note ff = fd_file_clear [OF vfs_inv_own [OF inv] fd]
  have "own_slots (clear_fd fd s)"
    using vfs_inv_own [OF inv] fd unfolding own_slots_def clear_fd_def
    by (simp add: nth_list_update)
  moreover have "fat_handles (clear_fd fd s) = fat_handles s" by (simp add: clear_fd_def)
  ultimately have tc: "touches fd s (clear_fd fd s)" by (simp add: touches_def ff)
  have "vfs_inv (clear_fd fd s)"
    by (rule vfs_inv_touch [OF inv tc]) (simp_all add: ff handle_of_def)
  then show ?thesis using tc by blast
qed

section \<open>Every call but dup2 touches its own descriptor only\<close>

lemma inv_open_fat:
  assumes inv: "vfs_inv s" and r: "open_fat p fl s = Some (fd, t)"
  shows "touches fd s t \<and> vfs_inv t"
proof (cases "find_idx (\<lambda>h. \<not> h_used h) (fat_handles s)")
  case None
  then have "t = s" using r by (simp add: open_fat_def)
  then show ?thesis using inv_same [OF inv, of t fd] by simp
next
  case (Some h)
  from find_idx_Some [THEN iffD1, OF this] have h: "h < 8" "\<not> h_used (fat_handles s ! h)"
    using vfs_inv_own [OF inv] by (auto simp: own_slots_def)
  then have free: "handle_of d s \<noteq> Some h" for d using inv by (auto simp: vfs_inv_def)
  obtain q fat where l: "fat16_lookup (fat_blk s) p (vfat s) = Some (q, fat)"
    using r Some by (auto simp: open_fat_def split: Option.bind_splits)
  show ?thesis
  proof (cases q)
    case (Inl e)
    then have "t = s\<lparr>vfat := fat\<rparr>" using r Some l by (simp add: open_fat_def)
    then show ?thesis using inv_same [OF inv, of t fd] by simp
  next
    case (Inr de)
    define u where "u = s\<lparr>vfat := fat, fat_handles := (fat_handles s)[h := \<lparr>h_used = True, h_de = de\<rparr>]\<rparr>"
    obtain fd2 v where al: "vfs_fd_alloc FILE_VFS fl (Some fattpl) (PFat h) u = (fd2, v)" by fastforce
    have t: "(fd, t) = (if fd2 \<ge> 0 then (fd2, v)
        else (- 1, v\<lparr>fat_handles := (fat_handles v)[h := (fat_handles v ! h)\<lparr>h_used := False\<rparr>]\<rparr>))"
      using r Some l Inr al by (simp add: open_fat_def u_def split: if_splits)
    have fu: "fd_file d u = fd_file d s" for d by (rule fd_file_cong) (simp_all add: u_def)
    have hu: "handle_of d u = handle_of d s" for d by (rule handle_of_cong) (rule fu)
    have ou: "own_slots u" using vfs_inv_own [OF inv] by (simp add: own_slots_def u_def)
    have hk: "fat_handles u ! k = fat_handles s ! k" if "handle_of d s = Some k" for d k
      using free [of d] that unfolding u_def by (cases "k = h") simp_all
    have keep: "touches d s u" for d unfolding touches_def using ou fu hk by simp
    have iu: "vfs_inv u" by (rule vfs_inv_touch [OF inv keep [of "- 1"]]) (auto simp: fd_file_def fd_slot_def handle_of_def)
    have ok: "touches fd2 u v \<and> vfs_inv v"
    proof (rule inv_alloc [OF iu al])
      show "h_used (fat_handles u ! k) \<and> (\<forall>d. handle_of d u \<noteq> Some k)" if "PFat h = PFat k" for k
        using that free hu h vfs_inv_own [OF inv] by (simp add: u_def own_slots_def)
    qed (use h in \<open>simp add: file_ok_def fattpl_def\<close>)
    show ?thesis
    proof (cases "fd2 \<ge> 0")
      case True
      then have "fd = fd2" "t = v" using t by simp_all
      moreover have "touches fd2 s v" using ok keep [of fd2] hu unfolding touches_def by metis
      ultimately show ?thesis using ok by simp
    next
      case False
      have "v = u" using ou al by (cases rule: alloc_spec) (use False in simp_all)
      then have t2: "fd = - 1" "t = u\<lparr>fat_handles := (fat_handles u)[h := (fat_handles u ! h)\<lparr>h_used := False\<rparr>]\<rparr>"
        using t False by simp_all
      have ft: "fd_file d t = fd_file d s" for d unfolding fu [symmetric] by (rule fd_file_cong) (simp_all add: t2)
      have "fat_handles t ! k = fat_handles s ! k" if "handle_of d s = Some k" for d k
        using free [of d] that hk unfolding t2 by (cases "k = h") simp_all
      moreover have "own_slots t" using ou unfolding t2 by (simp add: own_slots_def)
      ultimately have tc: "touches d s t" for d unfolding touches_def using ft by simp
      have "vfs_inv t" by (rule vfs_inv_touch [OF inv tc [of "- 1"]]) (auto simp: fd_file_def fd_slot_def handle_of_def)
      then show ?thesis using tc by blast
    qed
  qed
qed

lemma open_cases:
  assumes r: "vfs_open p fl s = Some (fd, t)"
  obtains (dev) n where "i_ops n \<noteq> OpsFat" "vfs_fd_alloc FILE_VFS fl (Some n) PNull s = (fd, t)"
  | (fat) "open_fat (drop 9 p) fl s = Some (fd, t)"
  | (none) "fd = - 1" "t = s"
proof (cases "find (\<lambda>n. i_name n = p) nodes")
  case (Some n)
  then have "n \<in> set nodes" by (auto simp: find_Some_iff)
  then have "i_ops n \<noteq> OpsFat" by (auto simp: nodes_def)
  then show ?thesis by (rule dev) (use r Some in \<open>simp add: vfs_open_def\<close>)
next
  case None
  show ?thesis
  proof (cases "find (\<lambda>(name, _). name = p) (g_blks s)")
    case (Some b)
    then have "vfs_fd_alloc FILE_VFS fl (Some (blk_inode (fst b))) PNull s = (fd, t)"
      using r None by (cases b) (simp add: vfs_open_def)
    moreover have "i_ops (blk_inode (fst b)) \<noteq> OpsFat" by (simp add: blk_inode_def)
    ultimately show ?thesis by (rule dev [rotated])
  next
    case None2: None
    show ?thesis
    proof (cases "g_fatmnt s \<and> take 9 p = mnt_prefix")
      case True
      then show ?thesis using r None None2 by (intro fat) (simp add: vfs_open_def)
    next
      case False
      then have "Some (- 1, s) = Some (fd, t)" using r None None2 by (simp add: vfs_open_def split: if_splits)
      then show ?thesis by (intro none) simp_all
    qed
  qed
qed

lemma inv_open:
  assumes inv: "vfs_inv s" and r: "vfs_open p fl s = Some (fd, t)"
  shows "touches fd s t \<and> vfs_inv t"
  using r
proof (cases rule: open_cases)
  case (dev n)
  show ?thesis by (rule inv_alloc [OF inv dev(2)]) (simp_all add: file_ok_def dev(1))
next
  case fat
  then show ?thesis by (rule inv_open_fat [OF inv])
next
  case none
  then show ?thesis using inv_same [OF inv, of t fd] by simp
qed

lemma inv_close:
  assumes inv: "vfs_inv s" and r: "vfs_close fd s = (x, t)"
  shows "touches fd s t \<and> vfs_inv t"
proof (cases "t = s")
  case True
  then show ?thesis using inv_same [OF inv, of t fd] by simp
next
  case False
  then obtain f where f: "fd_file fd s = Some f" and t: "t = clear_fd fd (close_hook f s)"
    using r by (auto simp: vfs_close_def split: option.splits if_splits)
  have fd: "0 \<le> fd" "fd < 32" using f fd_slot_own [OF vfs_inv_own [OF inv], of fd] by (auto simp: fd_file_def)
  have cl: "touches fd s (clear_fd fd s)" "vfs_inv (clear_fd fd s)" using inv_clear [OF inv fd] by auto
  show ?thesis
  proof (cases "close_hook f s = s")
    case True
    then show ?thesis using cl t by simp
  next
    case False
    then obtain h where h: "f_private f = PFat h"
      and c: "close_hook f s = s\<lparr>fat_handles := (fat_handles s)[h := (fat_handles s ! h)\<lparr>h_used := False\<rparr>]\<rparr>"
      by (auto simp: close_hook_def fat_close_def split: option.splits if_splits priv.splits)
    have hf: "handle_of fd s = Some h" using f h by (simp add: handle_of_def)
    have oth: "handle_of d s \<noteq> Some h" if "d \<noteq> fd" for d using inv hf that by (auto simp: vfs_inv_def)
    define u where "u = clear_fd fd s"
    have tu: "fds t = fds u" "fs_slots t = fs_slots u" and th: "fat_handles t = (fat_handles s)[h := (fat_handles s ! h)\<lparr>h_used := False\<rparr>]"
      by (simp_all add: t c u_def clear_fd_def)
    have ft: "fd_file d t = fd_file d u" for d by (rule fd_file_cong) (use tu in simp_all)
    have tc: "touches fd s t" unfolding touches_def
    proof (intro conjI allI impI)
      show "own_slots t" using cl(1) tu th vfs_inv_own [OF inv] by (simp add: touches_def own_slots_def u_def)
    next
      fix d assume "d \<noteq> fd"
      then show "fd_file d t = fd_file d s" using cl(1) ft by (simp add: touches_def u_def)
    next
      fix d k assume "d \<noteq> fd" "handle_of d s = Some k"
      then show "fat_handles t ! k = fat_handles s ! k" using oth th by (metis nth_list_update_neq)
    qed
    have n: "fd_file fd t = None" using ft fd_file_clear [OF vfs_inv_own [OF inv] fd] by (simp add: u_def)
    have "vfs_inv t" by (rule vfs_inv_touch [OF inv tc]) (simp_all add: n handle_of_def)
    then show ?thesis using tc by blast
  qed
qed

lemma read_op_same:
  "read_op w tk fd f ops buf n s = Some (x, buf', t) \<Longrightarrow> ops \<noteq> OpsFat
    \<Longrightarrow> fds t = fds s \<and> fs_slots t = fs_slots s \<and> fat_handles t = fat_handles s"
  by (cases ops) (auto simp: read_op_def split: Option.bind_splits prod.splits)

lemma inv_read:
  assumes inv: "vfs_inv s" and r: "vfs_read pg w tk fd b buf n s = Some (x, buf', t)"
  shows "touches fd s t \<and> vfs_inv t"
proof -
  have fat: "touches fd s t \<and> vfs_inv t" if q: "fat_read fd f buf n s = Some (x, buf', t)" for f
  proof (cases "\<exists>h. f_private f = PFat h")
    case True
    have iv: "touches fd s (s\<lparr>vfat := fat'\<rparr>) \<and> vfs_inv (s\<lparr>vfat := fat'\<rparr>)" for fat' by (rule inv_same [OF inv]) simp_all
    from True obtain h where h: "f_private f = PFat h" by blast
    then obtain c fat' where "fat16_read_file (fat_blk s) (h_de (fat_handles s ! h)) (f_pos f) buf n (vfat s) = Some (x, c, fat')"
      using q by (auto simp: fat_read_def Let_def split: Option.bind_splits)
    then have "t = s\<lparr>vfat := fat'\<rparr> \<or> t = upd_file fd (\<lambda>f. f\<lparr>f_pos := f_pos f + word_of_int x\<rparr>) (s\<lparr>vfat := fat'\<rparr>)"
      using q h by (simp add: fat_read_def Let_def split: if_splits)
    then show ?thesis
    proof
      assume t: "t = upd_file fd (\<lambda>f. f\<lparr>f_pos := f_pos f + word_of_int x\<rparr>) (s\<lparr>vfat := fat'\<rparr>)"
      have ff: "fd_file d (s\<lparr>vfat := fat'\<rparr>) = fd_file d s" for d by (rule fd_file_cong) simp_all
      have "touches fd (s\<lparr>vfat := fat'\<rparr>) t \<and> vfs_inv t" unfolding t
        by (rule inv_upd_file) (use iv in simp_all)
      then show ?thesis using handle_of_cong [OF ff] unfolding touches_def ff by simp
    qed (use iv in simp)
  next
    case False
    then have "t = s" using q by (auto simp: fat_read_def split: priv.splits)
    then show ?thesis using inv_same [OF inv, of t fd] by simp
  qed
  have same: "touches fd s t \<and> vfs_inv t" if "fds t = fds s \<and> fs_slots t = fs_slots s \<and> fat_handles t = fat_handles s"
    using inv_same [OF inv] that by blast
  show ?thesis
  proof (cases "t = s")
    case False
    then obtain f where "read_op w tk fd f (i_ops (the (f_inode f))) buf n s = Some (x, buf', t)"
      using r unfolding vfs_read_def by (auto split: option.splits if_splits Option.bind_splits)
    then show ?thesis
      using fat same read_op_same by (cases "i_ops (the (f_inode f)) = OpsFat") (simp add: read_op_def, blast)
  qed (use same in simp)
qed

lemma inv_write:
  assumes "vfs_inv s" "vfs_write pg fd b data n s = Some (x, t)"
  shows "touches fd s t \<and> vfs_inv t"
  by (rule inv_same [OF assms(1)])
    (use assms(2) in \<open>auto simp: vfs_write_def write_op_def split: Option.bind_splits option.splits if_splits\<close>)

lemma inv_socket_install:
  assumes inv: "vfs_inv s" and r: "vfs_socket_install k s = (fd, t)"
  shows "touches fd s t \<and> vfs_inv t"
proof -
  obtain fd2 where a: "vfs_fd_alloc FILE_SOCKET O_RDWR None (PSock k) s = (fd2, t)" and fd: "fd = (if fd2 < 0 then - 24 else fd2)"
    using r by (auto simp: vfs_socket_install_def split: prod.splits)
  have "touches fd2 s t \<and> vfs_inv t" by (rule inv_alloc [OF inv a]) (simp_all add: file_ok_def)
  moreover have "t = s" if "fd2 < 0"
    using vfs_inv_own [OF inv] a by (cases rule: alloc_spec) (use that in simp_all)
  ultimately show ?thesis using fd inv_same [OF inv, of t fd] by (cases "fd2 < 0") simp_all
qed

lemma inv_socket_close:
  assumes inv: "vfs_inv s" and r: "vfs_socket_close fd s = (x, t)"
  shows "touches fd s t \<and> vfs_inv t"
proof (cases "vfs_socket_get fd s")
  case None
  then show ?thesis using r inv_same [OF inv, of t fd] by (simp add: vfs_socket_close_def)
next
  case (Some k)
  then have "0 \<le> fd" "fd < 32" using fd_slot_own [OF vfs_inv_own [OF inv], of fd]
    by (auto simp: vfs_socket_get_def fd_file_def)
  then show ?thesis using r Some inv_clear [OF inv, of fd] by (auto simp: vfs_socket_close_def)
qed

lemma inv_lseek:
  assumes inv: "vfs_inv s" and r: "vfs_lseek fd off wh s = (x, t)"
  shows "touches fd s t \<and> vfs_inv t"
proof -
  obtain p where "t = s \<or> t = upd_file fd (\<lambda>f. f\<lparr>f_pos := p\<rparr>) s"
    using r by (auto simp: vfs_lseek_def Let_def split: option.splits if_splits)
  then show ?thesis using inv_same [OF inv, of t fd] inv_upd_file [OF inv, of "\<lambda>f. f\<lparr>f_pos := p\<rparr>" fd] by auto
qed

lemma inv_fcntl:
  assumes inv: "vfs_inv s" and r: "vfs_fcntl fd cmd arg s = (x, t)"
  shows "touches fd s t \<and> vfs_inv t"
proof -
  have "t = s \<or> t = upd_file fd (\<lambda>f. f\<lparr>f_flags := arg\<rparr>) s"
    using r by (auto simp: vfs_fcntl_def split: option.splits if_splits)
  then show ?thesis using inv_same [OF inv, of t fd] inv_upd_file [OF inv, of "\<lambda>f. f\<lparr>f_flags := arg\<rparr>" fd] by auto
qed

lemmas inv_calls = inv_open inv_close inv_read inv_write inv_socket_install inv_socket_close inv_lseek inv_fcntl

section \<open>Runs\<close>

text \<open>\<open>vstep fd s t\<close> is a call that names or returns the descriptor \<open>fd\<close>, or a keyboard
  interrupt (with \<open>fd\<close> no descriptor at all).\<close>

inductive vstep :: "int \<Rightarrow> 'k vfs \<Rightarrow> 'k vfs \<Rightarrow> bool" where
  open_file: "vfs_open p fl s = Some (fd, t) \<Longrightarrow> vstep fd s t"
| close_file: "vfs_close fd s = (x, t) \<Longrightarrow> vstep fd s t"
| read_file: "vfs_read (pg :: paging) w tk fd b buf n s = Some (x, buf', t) \<Longrightarrow> vstep fd s t"
| write_file: "vfs_write (pg :: paging) fd b data n s = Some (x, t) \<Longrightarrow> vstep fd s t"
| socket_install: "vfs_socket_install k s = (fd, t) \<Longrightarrow> vstep fd s t"
| socket_close: "vfs_socket_close fd s = (x, t) \<Longrightarrow> vstep fd s t"
| seek: "vfs_lseek fd off wh s = (x, t) \<Longrightarrow> vstep fd s t"
| control: "vfs_fcntl fd cmd arg s = (x, t) \<Longrightarrow> vstep fd s t"
| key_irq: "vstep (- 1) s (s\<lparr>vkbd := k\<rparr>)"

definition vfs_boot :: "'k vfs \<Rightarrow> bool" where
  "vfs_boot s \<longleftrightarrow> fds s = replicate 32 None \<and> length (fs_slots s) = 32 \<and> length (fat_handles s) = 8 \<and>
     (\<forall>h \<in> set (fat_handles s). \<not> h_used h)"

inductive vreach :: "'k vfs \<Rightarrow> bool" where
  boot: "vfs_boot s \<Longrightarrow> vreach s"
| step: "vreach s \<Longrightarrow> vstep fd s t \<Longrightarrow> vreach t"

lemma vfs_boot_inv: "vfs_boot s \<Longrightarrow> vfs_inv s"
  by (auto simp: vfs_boot_def vfs_inv_def own_slots_def fd_file_def fd_slot_def handle_of_def)

lemma vstep_touches:
  assumes "vstep fd s t" "vfs_inv s"
  shows "touches fd s t \<and> vfs_inv t"
  using assms(1)
proof cases
  case (key_irq k)
  then show ?thesis using inv_same [OF assms(2), of t fd] by simp
qed (erule inv_calls [OF assms(2)])+

lemma vreach_inv: "vreach s \<Longrightarrow> vfs_inv s"
  by (induction rule: vreach.induct) (auto simp: vfs_boot_inv dest: vstep_touches)

text \<open>Property C13: in every state reachable from the boot state by opening, closing, reading,
  writing, seeking and controlling files and by installing and closing sockets, a call on
  one descriptor leaves every other descriptor alone: it refers to the same file, at the
  same position, with the same flags and directory entry or socket.\<close>

theorem vfs_isolated:
  "vreach s \<Longrightarrow> vstep fd s t \<Longrightarrow> fd' \<noteq> fd \<Longrightarrow> view fd' t = view fd' s"
  using vstep_touches vreach_inv touches_view by blast

section \<open>The device nodes\<close>

lemma find_node: "n \<in> set nodes \<Longrightarrow> find (\<lambda>m. i_name m = i_name n) nodes = Some n"
proof -
  have "distinct (map i_name nodes)" by code_simp
  moreover have "find (\<lambda>m. i_name m = i_name n) ns = Some n" if "n \<in> set ns" "distinct (map i_name ns)" for ns :: "inode list"
    using that by (induction ns) auto
  ultimately show "n \<in> set nodes \<Longrightarrow> find (\<lambda>m. i_name m = i_name n) nodes = Some n" by blast
qed

lemma open_node: "n \<in> set nodes \<Longrightarrow> vfs_open (i_name n) fl s = Some (vfs_fd_alloc FILE_VFS fl (Some n) PNull s)"
  by (simp add: vfs_open_def find_node)

lemma alloc_lowest:
  assumes "own_slots s" "i < 32" "fds s ! i = None" "\<forall>j < i. fds s ! j \<noteq> None"
  shows "vfs_fd_alloc kind fl ino p s = (int i,
    s\<lparr>fs_slots := (fs_slots s)[i := \<lparr>f_inode = ino, f_pos = 0, f_flags = fl, f_kind = kind, f_private = p\<rparr>],
      fds := (fds s)[i := Some i]\<rparr>)"
proof -
  have "find_idx (\<lambda>x. x = None) (fds s) = Some i" using assms by (simp add: find_idx_Some own_slots_def)
  then show ?thesis by (simp add: vfs_fd_alloc_def)
qed

section \<open>Duplicated descriptors\<close>

text \<open>Property C39: a duplicated descriptor does not survive its original.  After
  \<open>vfs_dup2 old fd2\<close> and \<open>vfs_close old\<close> the next open takes the number \<open>old\<close> again (when the
  lower ones are in use), and with it the slot \<open>fd2\<close> still points to: \<open>fd2\<close> now is the file
  that was just opened.\<close>

theorem vfs_dup2_captured:
  assumes own: "own_slots s" and rng: "0 \<le> old" "old < 32" "0 \<le> fd2" "fd2 < 32" "old \<noteq> fd2"
    and f: "fd_file old s = Some f" "f_kind f = FILE_VFS"
    and low: "\<forall>i < nat old. fds s ! i \<noteq> None" and n: "n \<in> set nodes"
  shows "\<exists>s1 s2 t. vfs_dup2 old fd2 s = (fd2, s1) \<and> fd_file fd2 s1 = Some f \<and> vfs_close old s1 = (0, s2)
    \<and> vfs_open (i_name n) fl s2 = Some (old, t)
    \<and> fd_file fd2 t = Some \<lparr>f_inode = Some n, f_pos = 0, f_flags = fl, f_kind = FILE_VFS, f_private = PNull\<rparr>"
proof -
  define s0 where "s0 = (case fd_file fd2 s of None \<Rightarrow> s
    | Some g \<Rightarrow> clear_fd fd2 (if f_kind g = FILE_VFS then close_hook g s else s))"
  define s1 where "s1 = s0\<lparr>fds := (fds s0)[nat fd2 := fds s0 ! nat old]\<rparr>"
  define s2 where "s2 = clear_fd old (close_hook f s1)"
  have hook: "fds (close_hook g u) = fds u \<and> fs_slots (close_hook g u) = fs_slots u" for g and u :: "'a vfs"
    by (simp add: close_hook_def fat_close_def split: option.splits priv.splits)
  have so: "fd_slot old s = Some (nat old)" using f fd_slot_own [OF own, of old] by (auto simp: fd_file_def)
  have ne: "nat old \<noteq> nat fd2" "nat fd2 \<noteq> nat old" using rng by auto
  have len: "length (fds s) = 32" "length (fs_slots s) = 32" using own by (simp_all add: own_slots_def)
  have fo: "fds s ! nat old = Some (nat old)" using so rng by (simp add: fd_slot_def)
  have f0: "fs_slots s ! nat old = f" using f so by (simp add: fd_file_def)
  have s0: "fs_slots s0 = fs_slots s" "fds s0 = fds s \<or> fds s0 = (fds s)[nat fd2 := None]"
    by (simp_all add: s0_def hook clear_fd_def split: option.splits)
  then have "fds s0 ! nat old = Some (nat old)" "(fds s0)[nat fd2 := v] = (fds s)[nat fd2 := v]" for v
    using fo ne by auto
  then have s1: "fds s1 = (fds s)[nat fd2 := Some (nat old)]" "fs_slots s1 = fs_slots s"
    using s0(1) by (simp_all add: s1_def)
  have d: "vfs_dup2 old fd2 s = (fd2, s1)"
    using rng so by (simp add: vfs_dup2_def s0_def [symmetric] s1_def Let_def)
  have g1: "fd_file fd2 s1 = Some f" "fd_file old s1 = Some f"
    using rng len fo f0 ne by (simp_all add: fd_file_def fd_slot_def s1)
  have c: "vfs_close old s1 = (0, s2)" using g1(2) f(2) by (simp add: vfs_close_def s2_def)
  have s2: "fds s2 = (fds s)[nat fd2 := Some (nat old), nat old := None]" "fs_slots s2 = fs_slots s"
    by (simp_all add: s2_def clear_fd_def hook s1)
  have "\<forall>j < nat old. fds s2 ! j \<noteq> None" using low len rng by (auto simp: s2 nth_list_update)
  then have i: "find_idx (\<lambda>x. x = None) (fds s2) = Some (nat old)"
    using rng len by (simp add: find_idx_Some s2)
  show ?thesis using d g1(1) c open_node [OF n, of fl s2] i rng len ne
    by (simp add: vfs_fd_alloc_def fd_file_def fd_slot_def s2)
qed

section \<open>A mounted file layer\<close>

definition demo_vfs :: "nat vfs" where
  "demo_vfs = \<lparr>fds = replicate 32 None,
     fs_slots = replicate 32 \<lparr>f_inode = None, f_pos = 0, f_flags = 0, f_kind = FILE_VFS, f_private = PNull\<rparr>,
     rnd = 0, g_blks = [], fat_handles = replicate 8 \<lparr>h_used = False, h_de = demo_file\<rparr>, g_fatmnt = True,
     fat_blk = demo_dev, vfat = demo_fs, vkbd = kbd_boot, con = []\<rparr>"

lemma demo_vfs_boot: "vfs_boot demo_vfs"
  by (simp add: vfs_boot_def demo_vfs_def)

definition demo_open :: "nat vfs" where
  "demo_open = snd (vfs_fd_alloc FILE_VFS O_RDWR (Some (nodes ! 0)) PNull demo_vfs)"

lemma demo_open_eq: "demo_open = demo_vfs
    \<lparr>fs_slots := (fs_slots demo_vfs)[0 := \<lparr>f_inode = Some (nodes ! 0), f_pos = 0, f_flags = O_RDWR, f_kind = FILE_VFS, f_private = PNull\<rparr>],
     fds := (fds demo_vfs)[0 := Some 0]\<rparr>"
  "vfs_open (i_name (nodes ! 0)) O_RDWR demo_vfs = Some (0, demo_open)"
proof -
  have "vfs_fd_alloc FILE_VFS O_RDWR (Some (nodes ! 0)) PNull demo_vfs = (int 0, demo_vfs
    \<lparr>fs_slots := (fs_slots demo_vfs)[0 := \<lparr>f_inode = Some (nodes ! 0), f_pos = 0, f_flags = O_RDWR, f_kind = FILE_VFS, f_private = PNull\<rparr>],
     fds := (fds demo_vfs)[0 := Some 0]\<rparr>)"
    using vfs_inv_own [OF vfs_boot_inv [OF demo_vfs_boot]] by (intro alloc_lowest) (simp_all add: demo_vfs_def)
  then show "demo_open = demo_vfs
    \<lparr>fs_slots := (fs_slots demo_vfs)[0 := \<lparr>f_inode = Some (nodes ! 0), f_pos = 0, f_flags = O_RDWR, f_kind = FILE_VFS, f_private = PNull\<rparr>],
     fds := (fds demo_vfs)[0 := Some 0]\<rparr>"
    "vfs_open (i_name (nodes ! 0)) O_RDWR demo_vfs = Some (0, demo_open)"
    using open_node [of "nodes ! 0" O_RDWR demo_vfs] by (simp_all add: demo_open_def nodes_def)
qed

lemma demo_open_reach: "vreach demo_open"
  using demo_open_eq(2) by (blast intro: vreach.intros demo_vfs_boot vstep.open_file)

theorem vfs_isolated_witness:
  "view 0 (snd (vfs_socket_install 7 demo_open)) = view 0 demo_open \<and> view 0 demo_open \<noteq> None"
proof
  have own: "own_slots demo_open" by (rule vfs_inv_own [OF vreach_inv [OF demo_open_reach]])
  have "vfs_fd_alloc FILE_SOCKET O_RDWR None (PSock 7) demo_open = (int 1, demo_open
    \<lparr>fs_slots := (fs_slots demo_open)[1 := \<lparr>f_inode = None, f_pos = 0, f_flags = O_RDWR, f_kind = FILE_SOCKET, f_private = PSock 7\<rparr>],
     fds := (fds demo_open)[1 := Some 1]\<rparr>)"
    by (rule alloc_lowest [OF own]) (simp_all add: demo_open_eq(1) demo_vfs_def)
  then obtain t where t: "vfs_socket_install 7 demo_open = (1, t)" by (simp add: vfs_socket_install_def)
  then show "view 0 (snd (vfs_socket_install 7 demo_open)) = view 0 demo_open"
    using vfs_isolated [OF demo_open_reach vstep.socket_install [OF t], of 0] by simp
  show "view 0 demo_open \<noteq> None" by (simp add: view_def fd_file_def fd_slot_def demo_open_eq(1) demo_vfs_def)
qed

theorem vfs_dup2_captured_witness:
  "\<exists>s1 s2 t. vfs_dup2 0 5 demo_open = (5, s1) \<and> vfs_close 0 s1 = (0, s2)
    \<and> vfs_open (i_name (nodes ! 1)) 1 s2 = Some (0, t) \<and> map_option f_inode (fd_file 5 t) = Some (Some (nodes ! 1))"
proof -
  have own: "own_slots demo_open" by (rule vfs_inv_own [OF vreach_inv [OF demo_open_reach]])
  have f: "fd_file 0 demo_open = Some \<lparr>f_inode = Some (nodes ! 0), f_pos = 0, f_flags = O_RDWR, f_kind = FILE_VFS, f_private = PNull\<rparr>"
    by (simp add: fd_file_def fd_slot_def demo_open_eq(1) demo_vfs_def)
  have n: "nodes ! 1 \<in> set nodes" by (simp add: nodes_def)
  show ?thesis using vfs_dup2_captured [OF own _ _ _ _ _ f _ _ n, of 5 1] by auto
qed

end
