(* ===== verification/VfsInit.thy ===== *)
theory VfsInit
  imports VfsProps
begin

text \<open>
  The start of the file layer (\<open>vfs_init\<close> in \<^verbatim>\<open>src/fs/vfs.c\<close>): the standard streams and the
  self test of the descriptor table.
\<close>

lemma open_dev:
  "vfs_open (asc ''/dev/null'') fl s = Some (vfs_fd_alloc FILE_VFS fl (Some (nodes ! 0)) PNull s)"
  "vfs_open (asc ''/dev/console'') fl s = Some (vfs_fd_alloc FILE_VFS fl (Some (nodes ! 1)) PNull s)"
  "vfs_open (asc ''/dev/kbd'') fl s = Some (vfs_fd_alloc FILE_VFS fl (Some (nodes ! 2)) PNull s)"
proof -
  have "\<forall>n \<in> {nodes ! 0, nodes ! 1, nodes ! 2}. n \<in> set nodes" by (simp add: nodes_def)
  moreover have "i_name (nodes ! 0) = asc ''/dev/null''" "i_name (nodes ! 1) = asc ''/dev/console''"
    "i_name (nodes ! 2) = asc ''/dev/kbd''" by (simp_all add: nodes_def)
  ultimately show "vfs_open (asc ''/dev/null'') fl s = Some (vfs_fd_alloc FILE_VFS fl (Some (nodes ! 0)) PNull s)"
    "vfs_open (asc ''/dev/console'') fl s = Some (vfs_fd_alloc FILE_VFS fl (Some (nodes ! 1)) PNull s)"
    "vfs_open (asc ''/dev/kbd'') fl s = Some (vfs_fd_alloc FILE_VFS fl (Some (nodes ! 2)) PNull s)"
    using open_node by (metis insert_iff)+
qed

section \<open>The table a process sees\<close>

text \<open>Seen from outside, the table is a list of optional files: an open takes the first free
  place, a close frees the place of a file and a socket close that of a socket.\<close>

definition tbl :: "'k vfs \<Rightarrow> 'k file_t option list" where
  "tbl s = map (\<lambda>i. fd_file (int i) s) [0..<32]"

definition t_open :: "'k file_t \<Rightarrow> 'k file_t option list \<Rightarrow> int \<times> 'k file_t option list" where
  "t_open f xs = (case find_idx (\<lambda>x. x = None) xs of None \<Rightarrow> (- 1, xs) | Some i \<Rightarrow> (int i, xs[i := Some f]))"

definition t_close :: "file_kind \<Rightarrow> int \<Rightarrow> 'k file_t option list \<Rightarrow> int \<times> 'k file_t option list" where
  "t_close k fd xs =
     (if 0 \<le> fd \<and> fd < 32 \<and> map_option f_kind (xs ! nat fd) = Some k then (0, xs[nat fd := None]) else (- 9, xs))"

lemma length_tbl [simp]: "length (tbl s) = 32"
  by (simp add: tbl_def)

lemma nth_tbl: "i < 32 \<Longrightarrow> tbl s ! i = fd_file (int i) s"
  by (simp add: tbl_def)

lemma tbl_upd:
  assumes "0 \<le> fd" "fd < 32" "\<And>fd'. fd_file fd' t = (if fd' = fd then x else fd_file fd' s)"
  shows "tbl t = (tbl s)[nat fd := x]"
  by (rule nth_equalityI) (use assms in \<open>auto simp: nth_tbl nth_list_update\<close>)

lemma fd_file_range: "fd_file fd s \<noteq> None \<Longrightarrow> 0 \<le> fd \<and> fd < 32"
  by (auto simp: fd_file_def fd_slot_def split: if_splits)

lemma tbl_fd: "0 \<le> fd \<Longrightarrow> fd < 32 \<Longrightarrow> tbl s ! nat fd = fd_file fd s"
  by (simp add: nth_tbl)

lemma fd_file_slot: "own_slots s \<Longrightarrow> i < 32 \<Longrightarrow> fd_file (int i) s = None \<longleftrightarrow> fds s ! i = None"
  by (simp add: fd_file_def fd_slot_def)

lemma alloc_refines:
  assumes own: "own_slots s"
  shows "map_prod id tbl (vfs_fd_alloc k fl ino p s)
    = t_open \<lparr>f_inode = ino, f_pos = 0, f_flags = fl, f_kind = k, f_private = p\<rparr> (tbl s)"
proof -
  obtain fd t where r: "vfs_fd_alloc k fl ino p s = (fd, t)" by fastforce
  have e: "(tbl s ! i = None) = (fds s ! i = None)" if "i < 32" for i
    using fd_file_slot [OF own that] that by (simp add: nth_tbl)
  show ?thesis using own r
  proof (cases rule: alloc_spec)
    case full
    then have "\<forall>i < 32. tbl s ! i \<noteq> None" using e by blast
    then have "find_idx (\<lambda>x. x = None) (tbl s) = None"
      by (auto simp: find_idx_None in_set_conv_nth)
    then show ?thesis using r full by (simp add: t_open_def)
  next
    case hit
    have "find_idx (\<lambda>x. x = None) (tbl s) = Some (nat fd)"
      using hit(1-4) by (auto simp: find_idx_Some tbl_fd e)
    then show ?thesis using r hit(1,2) tbl_upd [OF hit(1,2,7)] by (simp add: t_open_def)
  qed
qed

lemma close_refines:
  assumes own: "own_slots s"
  shows "map_prod id tbl (vfs_close fd s) = t_close FILE_VFS fd (tbl s)"
proof (cases "fd_file fd s")
  case None
  then show ?thesis by (auto simp: vfs_close_def t_close_def tbl_fd)
next
  case (Some f)
  then have fd: "0 \<le> fd" "fd < 32" using fd_file_range [of fd s] by simp_all
  have hook: "fds (close_hook f s) = fds s" "fs_slots (close_hook f s) = fs_slots s"
    by (simp_all add: close_hook_def fat_close_def split: option.splits priv.splits)
  have "fd_file d (clear_fd fd (close_hook f s)) = fd_file d (clear_fd fd s)" for d
    by (rule fd_file_cong) (simp_all add: clear_fd_def hook)
  then have "tbl (clear_fd fd (close_hook f s)) = (tbl s)[nat fd := None]"
    by (intro tbl_upd fd) (simp add: fd_file_clear [OF own fd])
  then show ?thesis using Some fd by (simp add: vfs_close_def t_close_def tbl_fd)
qed

lemma socket_get_kind: "vfs_inv s \<Longrightarrow> vfs_socket_get fd s = None \<longleftrightarrow> map_option f_kind (fd_file fd s) \<noteq> Some FILE_SOCKET"
proof (cases "fd_file fd s")
  case (Some f)
  assume "vfs_inv s"
  then have "file_ok f" using Some by (auto simp: vfs_inv_def)
  then show ?thesis using Some by (auto simp: vfs_socket_get_def file_ok_def)
qed (simp add: vfs_socket_get_def)

lemma socket_close_refines:
  assumes inv: "vfs_inv s"
  shows "map_prod id tbl (vfs_socket_close fd s) = t_close FILE_SOCKET fd (tbl s)"
proof (cases "map_option f_kind (fd_file fd s) = Some FILE_SOCKET")
  case True
  then have fd: "0 \<le> fd" "fd < 32" using fd_file_range [of fd s] by auto
  have "tbl (clear_fd fd s) = (tbl s)[nat fd := None]"
    by (intro tbl_upd fd) (simp add: fd_file_clear [OF vfs_inv_own [OF inv] fd])
  then show ?thesis using True fd socket_get_kind [OF inv, of fd] by (simp add: vfs_socket_close_def t_close_def tbl_fd)
next
  case False
  then show ?thesis using socket_get_kind [OF inv, of fd] by (auto simp: vfs_socket_close_def t_close_def tbl_fd)
qed

lemma install_refines:
  assumes inv: "vfs_inv s"
  shows "map_prod id tbl (vfs_socket_install k s)
    = map_prod (\<lambda>fd. if fd < 0 then - 24 else fd) id
        (t_open \<lparr>f_inode = None, f_pos = 0, f_flags = O_RDWR, f_kind = FILE_SOCKET, f_private = PSock k\<rparr> (tbl s))"
  unfolding alloc_refines [OF vfs_inv_own [OF inv], symmetric]
  by (simp add: vfs_socket_install_def split: prod.splits)

text \<open>Whatever is opened, the call either fails and leaves the table alone or puts a new file,
  at position 0 and with the flags of the call, into the first free place.\<close>

definition t_opened :: "u32 \<Rightarrow> 'k file_t option list \<Rightarrow> int \<Rightarrow> 'k file_t option list \<Rightarrow> bool" where
  "t_opened fl xs fd ys \<longleftrightarrow> (if fd < 0 then ys = xs
     else \<exists>f. (fd, ys) = t_open f xs \<and> f_pos f = 0 \<and> f_flags f = fl \<and> f_kind f = FILE_VFS)"

lemma alloc_opened:
  assumes a: "vfs_fd_alloc FILE_VFS fl ino q u = (fd, t)" and u: "own_slots u" "tbl u = tbl s"
  shows "t_opened fl (tbl s) fd (tbl t)"
proof -
  define f where "f = \<lparr>f_inode = ino, f_pos = 0, f_flags = fl, f_kind = FILE_VFS, f_private = q\<rparr>"
  have "(fd, tbl t) = t_open f (tbl s)" using alloc_refines [OF u(1), of FILE_VFS fl ino q] a u(2) by (simp add: f_def)
  moreover from this have "tbl t = tbl s" if "fd < 0" using that by (auto simp: t_open_def split: option.splits)
  moreover have "f_pos f = 0" "f_flags f = fl" "f_kind f = FILE_VFS" by (simp_all add: f_def)
  ultimately show ?thesis unfolding t_opened_def by auto
qed

lemma tbl_cong: "fds t = fds s \<Longrightarrow> fs_slots t = fs_slots s \<Longrightarrow> tbl t = tbl s"
  using fd_file_cong [of t s] by (simp add: tbl_def)

lemma open_fat_opened:
  assumes own: "own_slots s" and r: "open_fat p fl s = Some (fd, t)"
  shows "t_opened fl (tbl s) fd (tbl t)"
proof (cases "find_idx (\<lambda>h. \<not> h_used h) (fat_handles s)")
  case None
  then show ?thesis using r by (simp add: open_fat_def t_opened_def)
next
  case (Some h)
  obtain q fat where l: "fat16_lookup (fat_blk s) p (vfat s) = Some (q, fat)"
    using r Some by (auto simp: open_fat_def split: Option.bind_splits)
  show ?thesis
  proof (cases q)
    case (Inl e)
    then have "fd = - 1" "t = s\<lparr>vfat := fat\<rparr>" using r Some l by (simp_all add: open_fat_def)
    then show ?thesis using tbl_cong [of t s] by (simp add: t_opened_def)
  next
    case (Inr de)
    define u where "u = s\<lparr>vfat := fat, fat_handles := (fat_handles s)[h := \<lparr>h_used = True, h_de = de\<rparr>]\<rparr>"
    obtain fd2 v where al: "vfs_fd_alloc FILE_VFS fl (Some fattpl) (PFat h) u = (fd2, v)" by fastforce
    have t: "fd = (if fd2 \<ge> 0 then fd2 else - 1)" "fds t = fds v" "fs_slots t = fs_slots v"
      using r Some l Inr al by (auto simp add: open_fat_def u_def split: if_splits)
    have "own_slots u" using own by (simp add: own_slots_def u_def)
    moreover have "tbl u = tbl s" by (rule tbl_cong) (simp_all add: u_def)
    ultimately have "t_opened fl (tbl s) fd2 (tbl v)" by (rule alloc_opened [OF al])
    then show ?thesis using t tbl_cong [of t v] by (auto simp: t_opened_def)
  qed
qed

lemma open_refines:
  assumes own: "own_slots s" and r: "vfs_open p fl s = Some (fd, t)"
  shows "t_opened fl (tbl s) fd (tbl t)"
  using r
proof (cases rule: open_cases)
  case (dev n)
  then show ?thesis using own by (intro alloc_opened) auto
next
  case fat
  then show ?thesis by (rule open_fat_opened [OF own])
qed (simp add: t_opened_def)

text \<open>Property C14: in every reachable state the two-level table of slots behaves as a plain
  list of optional files: opening puts the file into the lowest free descriptor and
  reports a full table, closing frees exactly the named one and refuses a free one, one of
  the wrong kind and a number outside the table.\<close>

theorem vfs_table_refines:
  assumes "vreach s"
  shows "map_prod id tbl (vfs_close fd s) = t_close FILE_VFS fd (tbl s) \<and>
    map_prod id tbl (vfs_socket_close fd s) = t_close FILE_SOCKET fd (tbl s) \<and>
    map_prod id tbl (vfs_socket_install k s) = map_prod (\<lambda>fd. if fd < 0 then - 24 else fd) id
      (t_open \<lparr>f_inode = None, f_pos = 0, f_flags = O_RDWR, f_kind = FILE_SOCKET, f_private = PSock k\<rparr> (tbl s)) \<and>
    (vfs_open p fl s = Some (fd2, t) \<longrightarrow> t_opened fl (tbl s) fd2 (tbl t))"
proof -
  have inv: "vfs_inv s" "own_slots s" using vreach_inv [OF assms] vfs_inv_own by auto
  show ?thesis
    using close_refines [OF inv(2)] socket_close_refines [OF inv(1)] install_refines [OF inv(1)] open_refines [OF inv(2)]
    by blast
qed

theorem vfs_table_refines_witness:
  "tbl (snd (vfs_close 0 demo_open)) = replicate 32 None \<and> t_opened O_RDWR (tbl demo_vfs) 0 (tbl demo_open)"
proof
  have e: "t_close FILE_VFS 0 (tbl demo_open) = (0, (tbl demo_open)[0 := None])"
    by (simp add: t_close_def nth_tbl fd_file_def fd_slot_def demo_open_eq(1) demo_vfs_def)
  have "tbl demo_open ! i = None" if "0 < i" "i < 32" for i
    using that by (simp add: nth_tbl fd_file_def fd_slot_def demo_open_eq(1) demo_vfs_def)
  then have "(tbl demo_open)[0 := None] = replicate 32 None"
    by (intro nth_equalityI) (auto simp: nth_list_update)
  moreover have "map_prod id tbl (vfs_close 0 demo_open) = t_close FILE_VFS 0 (tbl demo_open)"
    using vfs_table_refines [OF demo_open_reach] by blast
  ultimately show "tbl (snd (vfs_close 0 demo_open)) = replicate 32 None" unfolding e
    by (metis prod.collapse prod.inject map_prod_simp)
  show "t_opened O_RDWR (tbl demo_vfs) 0 (tbl demo_open)"
    using vfs_table_refines [OF vreach.boot [OF demo_vfs_boot]] demo_open_eq(2) by blast
qed

section \<open>The self test\<close>

definition dev_file :: "nat \<Rightarrow> u32 \<Rightarrow> 'k file_t" where
  "dev_file i fl = \<lparr>f_inode = Some (nodes ! i), f_pos = 0, f_flags = fl, f_kind = FILE_VFS, f_private = PNull\<rparr>"

definition sock_file :: "'k \<Rightarrow> 'k file_t" where
  "sock_file k = \<lparr>f_inode = None, f_pos = 0, f_flags = O_RDWR, f_kind = FILE_SOCKET, f_private = PSock k\<rparr>"

lemma t_open_first: "None \<notin> set ys \<Longrightarrow> t_open f (ys @ None # zs) = (int (length ys), ys @ Some f # zs)"
proof -
  assume "None \<notin> set ys"
  then have "find_idx (\<lambda>x. x = None) (ys @ None # zs) = Some (length ys)"
    by (auto simp: find_idx_Some nth_append) (metis not_Some_eq nth_mem)
  then show ?thesis by (simp add: t_open_def)
qed

lemma run_open:
  assumes "vfs_inv s" "i < 3" "tbl s = ys @ None # zs" "None \<notin> set ys"
  shows "\<exists>t. vfs_fd_alloc FILE_VFS fl (Some (nodes ! i)) PNull s = (int (length ys), t) \<and> vfs_inv t
    \<and> tbl t = ys @ Some (dev_file i fl) # zs"
proof -
  obtain fd t where r: "vfs_fd_alloc FILE_VFS fl (Some (nodes ! i)) PNull s = (fd, t)" by fastforce
  have "i_ops (nodes ! i) \<noteq> OpsFat" using assms(2) by (auto simp: nodes_def less_Suc_eq numeral_3_eq_3)
  then have "vfs_inv t" using inv_alloc [OF assms(1) r] by (simp add: file_ok_def)
  moreover have "(fd, tbl t) = (int (length ys), ys @ Some (dev_file i fl) # zs)"
    using alloc_refines [OF vfs_inv_own [OF assms(1)], of FILE_VFS fl "Some (nodes ! i)" PNull] r assms(3,4)
    by (simp add: t_open_first dev_file_def)
  ultimately show ?thesis using r by simp
qed

lemma run_close:
  assumes "vfs_inv s" "t_close FILE_VFS fd (tbl s) = (r, ys)"
  shows "\<exists>t. vfs_close fd s = (r, t) \<and> vfs_inv t \<and> tbl t = ys"
  using close_refines [OF vfs_inv_own [OF assms(1)], of fd] inv_close [OF assms(1), of fd] assms(2)
  by (cases "vfs_close fd s") auto

lemma run_install:
  assumes "vfs_inv s" "tbl s = ys @ None # zs" "None \<notin> set ys"
  shows "\<exists>t. vfs_socket_install k s = (int (length ys), t) \<and> vfs_inv t \<and> tbl t = ys @ Some (sock_file k) # zs"
  using install_refines [OF assms(1), of k] inv_socket_install [OF assms(1), of k] assms(2,3)
  by (cases "vfs_socket_install k s") (auto simp: t_open_first sock_file_def)

lemma run_socket_close:
  assumes "vfs_inv s" "t_close FILE_SOCKET fd (tbl s) = (r, ys)"
  shows "\<exists>t. vfs_socket_close fd s = (r, t) \<and> vfs_inv t \<and> tbl t = ys"
  using socket_close_refines [OF assms(1), of fd] inv_socket_close [OF assms(1), of fd] assms(2)
  by (cases "vfs_socket_close fd s") auto

lemmas t_close_eval = t_close_def dev_file_def sock_file_def eval_nat_numeral

lemma selftest_ok:
  assumes inv: "vfs_inv s" and T: "tbl s = Some x # Some y # Some z # None # None # None # None # R"
  shows "\<exists>t. fd_selftest one s = Some (True, t) \<and> vfs_inv t \<and> tbl t = tbl s"
proof -
  obtain s1 where 1: "vfs_fd_alloc FILE_VFS 2 (Some (nodes ! 0)) PNull s = (3, s1)" "vfs_inv s1"
    "tbl s1 = Some x # Some y # Some z # Some (dev_file 0 2) # None # None # None # R"
    using run_open [OF inv, of 0 "[Some x, Some y, Some z]" _ 2] T by auto
  obtain s2 where 2: "vfs_fd_alloc FILE_VFS 2 (Some (nodes ! 0)) PNull s1 = (4, s2)" "vfs_inv s2"
    "tbl s2 = Some x # Some y # Some z # Some (dev_file 0 2) # Some (dev_file 0 2) # None # None # R"
    using run_open [OF 1(2), of 0 "[Some x, Some y, Some z, Some (dev_file 0 2)]" _ 2] 1(3) by auto
  obtain s3 where 3: "vfs_fd_alloc FILE_VFS 2 (Some (nodes ! 0)) PNull s2 = (5, s3)" "vfs_inv s3"
    "tbl s3 = Some x # Some y # Some z # Some (dev_file 0 2) # Some (dev_file 0 2) # Some (dev_file 0 2) # None # R"
    using run_open [OF 2(2), of 0 "[Some x, Some y, Some z, Some (dev_file 0 2), Some (dev_file 0 2)]" _ 2] 2(3) by auto
  obtain s4 where 4: "vfs_close 4 s3 = (0, s4)" "vfs_inv s4"
    "tbl s4 = Some x # Some y # Some z # Some (dev_file 0 2) # None # Some (dev_file 0 2) # None # R"
    using run_close [OF 3(2), of 4] 3(3) by (auto simp: t_close_eval)
  obtain s5 where 5: "vfs_fd_alloc FILE_VFS 1 (Some (nodes ! 1)) PNull s4 = (4, s5)" "vfs_inv s5"
    "tbl s5 = Some x # Some y # Some z # Some (dev_file 0 2) # Some (dev_file 1 1) # Some (dev_file 0 2) # None # R"
    using run_open [OF 4(2), of 1 "[Some x, Some y, Some z, Some (dev_file 0 2)]" _ 1] 4(3) by auto
  obtain s6 where 6: "vfs_socket_install one s5 = (6, s6)" "vfs_inv s6"
    "tbl s6 = Some x # Some y # Some z # Some (dev_file 0 2) # Some (dev_file 1 1) # Some (dev_file 0 2) # Some (sock_file one) # R"
    using run_install [OF 5(2), of "[Some x, Some y, Some z, Some (dev_file 0 2), Some (dev_file 1 1), Some (dev_file 0 2)]" R one]
      5(3) by auto
  obtain s7 where 7: "vfs_close 6 s6 = (- 9, s7)" "vfs_inv s7" "tbl s7 = tbl s6"
    using run_close [OF 6(2), of 6] 6(3) by (auto simp: t_close_eval)
  obtain s8 where 8: "vfs_socket_close 6 s7 = (0, s8)" "vfs_inv s8"
    "tbl s8 = Some x # Some y # Some z # Some (dev_file 0 2) # Some (dev_file 1 1) # Some (dev_file 0 2) # None # R"
    using run_socket_close [OF 7(2), of 6] 6(3) 7(3) by (auto simp: t_close_eval)
  obtain s9 where 9: "vfs_close 3 s8 = (0, s9)" "vfs_inv s9"
    "tbl s9 = Some x # Some y # Some z # None # Some (dev_file 1 1) # Some (dev_file 0 2) # None # R"
    using run_close [OF 8(2), of 3] 8(3) by (auto simp: t_close_eval)
  obtain s10 where 10: "vfs_fd_alloc FILE_VFS 2 (Some (nodes ! 0)) PNull s9 = (3, s10)" "vfs_inv s10"
    "tbl s10 = Some x # Some y # Some z # Some (dev_file 0 2) # Some (dev_file 1 1) # Some (dev_file 0 2) # None # R"
    using run_open [OF 9(2), of 0 "[Some x, Some y, Some z]" _ 2] 9(3) by auto
  obtain s11 where 11: "vfs_close 5 s10 = (0, s11)" "vfs_inv s11"
    "tbl s11 = Some x # Some y # Some z # Some (dev_file 0 2) # Some (dev_file 1 1) # None # None # R"
    using run_close [OF 10(2), of 5] 10(3) by (auto simp: t_close_eval)
  obtain s12 where 12: "vfs_close 4 s11 = (0, s12)" "vfs_inv s12"
    "tbl s12 = Some x # Some y # Some z # Some (dev_file 0 2) # None # None # None # R"
    using run_close [OF 11(2), of 4] 11(3) by (auto simp: t_close_eval)
  obtain s13 where 13: "vfs_close 3 s12 = (0, s13)" "vfs_inv s13" "tbl s13 = tbl s"
    using run_close [OF 12(2), of 3] 12(3) T by (auto simp: t_close_eval)
  obtain s14 where 14: "vfs_close (- 1) s13 = (- 9, s14)" "vfs_inv s14" "tbl s14 = tbl s"
    using run_close [OF 13(2), of "- 1"] 13(3) by (auto simp: t_close_def)
  obtain s15 where 15: "vfs_close 32 s14 = (- 9, s15)" "vfs_inv s15" "tbl s15 = tbl s"
    using run_close [OF 14(2), of 32] 14(3) by (auto simp: t_close_def)
  obtain s16 where 16: "vfs_close 3 s15 = (- 9, s16)" "vfs_inv s16" "tbl s16 = tbl s"
    using run_close [OF 15(2), of 3] 15(3) T by (auto simp: t_close_eval)
  have "fd_selftest one s = Some (True, s16)"
    by (simp add: fd_selftest_def open_dev 1(1) 2(1) 3(1) 4(1) 5(1) 6(1) 7(1) 8(1) 9(1) 10(1) 11(1) 12(1) 13(1) 14(1) 15(1) 16(1) del: One_nat_def)
  then show ?thesis using 16(2,3) by blast
qed

lemma run_open_test:
  assumes "vfs_inv s" "i < 3" "tbl s = Some x # Some y # Some z # None # R"
  shows "\<exists>t. open_test (nodes ! i) s = Some t \<and> vfs_inv t \<and> tbl t = tbl s"
proof -
  obtain s1 where 1: "vfs_fd_alloc FILE_VFS 2 (Some (nodes ! i)) PNull s = (3, s1)" "vfs_inv s1"
    "tbl s1 = Some x # Some y # Some z # Some (dev_file i 2) # R"
    using run_open [OF assms(1,2), of "[Some x, Some y, Some z]" _ 2] assms(3) by auto
  obtain s2 where 2: "vfs_close 3 s1 = (0, s2)" "vfs_inv s2" "tbl s2 = tbl s"
    using run_close [OF 1(2), of 3] 1(3) assms(3) by (auto simp: t_close_eval)
  have "nodes ! i \<in> set nodes" using assms(2) by (intro nth_mem) (simp add: nodes_def)
  then show ?thesis using 1(1) 2 by (simp add: open_test_def open_node)
qed

text \<open>From the boot state the initialisation installs the keyboard and the
  console as descriptors 0, 1 and 2, its own test of the descriptor table passes and leaves
  all others free; what remains is the probing of the disks.\<close>

theorem vfs_init_selftest:
  assumes "vfs_boot s"
  shows "\<exists>t. vfs_init one junk s = map_option (Pair True) (fs_autoprobe junk t) \<and> vfs_inv t \<and>
    tbl t = Some (dev_file 2 O_RDONLY) # Some (dev_file 1 O_WRONLY) # Some (dev_file 1 O_WRONLY) # replicate 29 None"
proof -
  have inv: "vfs_inv s" by (rule vfs_boot_inv [OF assms])
  have T: "tbl s = None # None # None # replicate 29 None"
  proof -
    have "tbl s = replicate 32 None" using assms
      by (intro nth_equalityI) (simp_all add: nth_tbl vfs_boot_def fd_file_def fd_slot_def)
    then show ?thesis by (simp add: eval_nat_numeral)
  qed
  obtain s1 where 1: "vfs_fd_alloc FILE_VFS 0 (Some (nodes ! 2)) PNull s = (0, s1)" "vfs_inv s1"
    "tbl s1 = Some (dev_file 2 0) # None # None # replicate 29 None"
    using run_open [OF inv, of 2 "[]" _ 0] T by auto
  obtain s2 where 2: "vfs_fd_alloc FILE_VFS 1 (Some (nodes ! 1)) PNull s1 = (1, s2)" "vfs_inv s2"
    "tbl s2 = Some (dev_file 2 0) # Some (dev_file 1 1) # None # replicate 29 None"
    using run_open [OF 1(2), of 1 "[Some (dev_file 2 0)]" _ 1] 1(3) by auto
  obtain s3 where 3: "vfs_fd_alloc FILE_VFS 1 (Some (nodes ! 1)) PNull s2 = (2, s3)" "vfs_inv s3"
    "tbl s3 = Some (dev_file 2 0) # Some (dev_file 1 1) # Some (dev_file 1 1) # replicate 29 None"
    using run_open [OF 2(2), of 1 "[Some (dev_file 2 0), Some (dev_file 1 1)]" _ 1] 2(3) by auto
  have R: "replicate 29 None = None # None # None # None # replicate 25 (None :: 'a file_t option)"
    by (simp add: eval_nat_numeral)
  note ot = run_open_test [where x = "dev_file 2 0" and y = "dev_file 1 1" and z = "dev_file 1 1"
      and R = "None # None # None # replicate 25 None"]
  obtain s4 where 4: "open_test (nodes ! 0) s3 = Some s4" "vfs_inv s4" "tbl s4 = tbl s3"
    using ot [OF 3(2), of 0] 3(3) R by auto
  obtain s5 where 5: "open_test (nodes ! 1) s4 = Some s5" "vfs_inv s5" "tbl s5 = tbl s3"
    using ot [OF 4(2), of 1] 4(3) 3(3) R by auto
  obtain s6 where 6: "open_test (nodes ! 2) s5 = Some s6" "vfs_inv s6" "tbl s6 = tbl s3"
    using ot [OF 5(2), of 2] 5(3) 3(3) R by auto
  obtain s7 where 7: "fd_selftest one s6 = Some (True, s7)" "vfs_inv s7" "tbl s7 = tbl s3"
    using selftest_ok [OF 6(2)] 6(3) 3(3) R by metis
  have "vfs_init one junk s = map_option (Pair True) (fs_autoprobe junk s7)"
    by (cases "fs_autoprobe junk s7") (simp_all add: vfs_init_def open_dev 1(1) 2(1) 3(1) 4(1) 5(1) 6(1) 7(1) del: One_nat_def)
  then show ?thesis using 7(2,3) 3(3) by auto
qed

theorem vfs_init_selftest_witness:
  "\<exists>t. vfs_init 1 [] demo_vfs = map_option (Pair True) (fs_autoprobe [] t) \<and> tbl t ! 0 = Some (dev_file 2 O_RDONLY)"
  using vfs_init_selftest [OF demo_vfs_boot, of 1 "[]"] by (metis nth_Cons_0)

end
