(* ===== verification/Process.thy ===== *)
theory Process
  imports Paging
begin

text \<open>
  Processes and the scheduler, \<^verbatim>\<open>src/kernel/process.c\<close> and
  \<^verbatim>\<open>src/kernel/process.h\<close>: the process table, the linked ready queue, dispatch,
  preemption, creation, the two forks, exit, wait and kill.

  A pointer to a process is its index in \<open>pcb\<close>.  Kernel stacks are frames of
  physical memory, written word by word.  The machine parts are explicit: the
  stack pointer that \<open>context_switch\<close> saves is the argument \<open>esp\<close> of the operations
  that may switch, the descriptor of the TSS and the memory it points to are
  fields, and the addresses of assembly stubs, fixed at link time, are fields as
  well.  A switch is the change of \<open>current\<close>, of \<open>cr3\<close> and of the saved stack
  pointers.  Console messages are omitted.
\<close>

named_theorems proc_simps \<open>rewrite rules of the process table\<close>

section \<open>State\<close>

datatype proc_state = PROC_CREATED | PROC_READY | PROC_RUNNING | PROC_BLOCKED | PROC_TERMINATED

datatype proc_ctx = PROC_CTX_KERNEL | PROC_CTX_USER

record process =
  pid :: u32
  pstate :: proc_state
  page_dir :: u32
  heap_base :: u32
  stack_top :: u32
  ctx_type :: proc_ctx
  entry :: u32
  user_entry :: u32
  user_esp :: u32
  kstack_phys :: u32
  ksp :: u32
  next_ready :: "nat option"
  ppid :: u32
  exit_code :: int
  sig_pending :: u32
  wait_target :: u32

record procst = paging +
  pcb :: "process list"
  ready_head :: "nat option"
  ready_tail :: "nat option"
  current :: nat
  preempt_tick_cnt :: u32
  gdt_tss_lo :: u32
  gdt_tss_hi :: u32
  tss_mem :: "u32 \<Rightarrow> u32"
  trampoline_addr :: u32
  idle_addr :: u32
  fork_stub :: u32
  fork_user_stub :: u32

abbreviation (input) "MAX_PROCESSES \<equiv> (32 :: nat)"
abbreviation (input) "EFLAGS_IF_SET \<equiv> (0x202 :: u32)"
abbreviation (input) "USER_CS \<equiv> (0x1B :: u32)"
abbreviation (input) "USER_DS \<equiv> (0x23 :: u32)"
abbreviation (input) "CATOS_EINVAL \<equiv> (22 :: int)"
abbreviation (input) "CATOS_ESRCH \<equiv> (3 :: int)"
abbreviation (input) "CATOS_ECHILD \<equiv> (10 :: int)"
abbreviation (input) "SCHED_PREEMPT_QUANTUM_TICKS \<equiv> (100 :: u32)"

definition phys_to_virt :: "u32 \<Rightarrow> u32" where
  "phys_to_virt phys = phys + KERNEL_VIRT_BASE"

definition virt_to_phys :: "u32 \<Rightarrow> u32" where
  "virt_to_phys virt = virt - KERNEL_VIRT_BASE"

text \<open>The slot after \<open>memset(p, 0, sizeof(*p))\<close>.\<close>

definition proc_zero :: process where
  "proc_zero = \<lparr>pid = 0, pstate = PROC_CREATED, page_dir = 0, heap_base = 0, stack_top = 0,
     ctx_type = PROC_CTX_KERNEL, entry = 0, user_entry = 0, user_esp = 0, kstack_phys = 0, ksp = 0,
     next_ready = None, ppid = 0, exit_code = 0, sig_pending = 0, wait_target = 0\<rparr>"

definition proc :: "'a procst_scheme \<Rightarrow> nat \<Rightarrow> process" where
  "proc s i = (if i < length (pcb s) then pcb s ! i else proc_zero)"

definition proc_upd :: "nat \<Rightarrow> (process \<Rightarrow> process) \<Rightarrow> 'a procst_scheme \<Rightarrow> 'a procst_scheme" where
  "proc_upd i f s = s\<lparr>pcb := (pcb s)[i := f (proc s i)]\<rparr>"

text \<open>A word of a kernel stack: frame and index below the top of the page.\<close>

definition stack_put :: "u32 \<Rightarrow> nat \<Rightarrow> u32 \<Rightarrow> 'a procst_scheme \<Rightarrow> 'a procst_scheme" where
  "stack_put kstack k v s = pm_set kstack k v s"

fun stack_write :: "u32 \<Rightarrow> nat \<Rightarrow> u32 list \<Rightarrow> 'a procst_scheme \<Rightarrow> 'a procst_scheme" where
  "stack_write kstack k [] s = s"
| "stack_write kstack k (v # vs) s = stack_write kstack (Suc k) vs (stack_put kstack k v s)"

section \<open>Context switch\<close>

definition arch_set_tss_esp0 :: "u32 \<Rightarrow> 'a procst_scheme \<Rightarrow> 'a procst_scheme" where
  "arch_set_tss_esp0 esp0 s =
     (let lo = gdt_tss_lo s; hi = gdt_tss_hi s; tss_type = drop_bit 8 hi AND 0xFF in
      if tss_type \<noteq> 0x89 \<and> tss_type \<noteq> 0x8B then s
      else
        let tss_base = drop_bit 16 lo OR push_bit 16 (hi AND 0xFF) OR (hi AND 0xFF000000)
        in s\<lparr>tss_mem := (tss_mem s)(tss_base + 4 := esp0)\<rparr>)"

definition build_initial_frame :: "nat \<Rightarrow> 'a procst_scheme \<Rightarrow> 'a procst_scheme" where
  "build_initial_frame p s =
     (let k = kstack_phys (proc s p);
          s = stack_write k 1018 [0, 0, 0, 0, EFLAGS_IF_SET, trampoline_addr s] s
      in proc_upd p (\<lambda>q. q\<lparr>ksp := phys_to_virt k + PAGE_SIZE - 24\<rparr>) s)"

text \<open>What a process does when it first runs: a kernel routine at its entry, or the
  five words of the \<open>iret\<close> frame of a user program.\<close>

datatype proc_start = StartKernel u32 | StartUser "u32 list"

definition process_trampoline :: "'a procst_scheme \<Rightarrow> proc_start \<times> 'a procst_scheme" where
  "process_trampoline s =
     (let p = proc s (current s);
          s = arch_set_tss_esp0 (phys_to_virt (kstack_phys p) + PAGE_SIZE) s;
          s = (if page_dir p \<noteq> 0 then s\<lparr>cr3 := page_dir p\<rparr> else s)
      in (case ctx_type p of
            PROC_CTX_KERNEL \<Rightarrow> (StartKernel (entry p), s)
          | PROC_CTX_USER \<Rightarrow>
              (StartUser [USER_DS, user_esp p, EFLAGS_IF_SET, USER_CS, user_entry p], s)))"

section \<open>The ready queue\<close>

definition ready_enqueue :: "nat \<Rightarrow> 'a procst_scheme \<Rightarrow> 'a procst_scheme" where
  "ready_enqueue p s =
     (let s = proc_upd p (\<lambda>q. q\<lparr>next_ready := None\<rparr>) s;
          s = (case ready_tail s of
                 Some t \<Rightarrow> proc_upd t (\<lambda>q. q\<lparr>next_ready := Some p\<rparr>) s
               | None \<Rightarrow> s\<lparr>ready_head := Some p\<rparr>)
      in s\<lparr>ready_tail := Some p\<rparr>)"

definition pop_head :: "nat \<Rightarrow> 'a procst_scheme \<Rightarrow> 'a procst_scheme" where
  "pop_head p s =
     (let s = s\<lparr>ready_head := next_ready (proc s p)\<rparr>;
          s = (if ready_tail s = Some p then s\<lparr>ready_tail := None\<rparr> else s)
      in proc_upd p (\<lambda>q. q\<lparr>next_ready := None\<rparr>) s)"

definition reap_late :: "nat \<Rightarrow> 'a procst_scheme \<Rightarrow> 'a procst_scheme" where
  "reap_late p s =
     (if pstate (proc s p) = PROC_TERMINATED \<and> kstack_phys (proc s p) \<noteq> 0
      then proc_upd p (\<lambda>q. q\<lparr>kstack_phys := 0\<rparr>) (pmm_free_page (kstack_phys (proc s p)) s)
      else s)"

definition links :: "'a procst_scheme \<Rightarrow> nat" where
  "links s = length (filter (\<lambda>p. next_ready p \<noteq> None) (pcb s))"

lemma pcb_pmm [simp]: "pcb (pmm_free_page x s) = pcb s"
  by (simp add: pmm_free_page_def mark_page_free_def bitmap_clear_def)

lemma ready_head_pmm [simp]: "ready_head (pmm_free_page x s) = ready_head s"
  by (simp add: pmm_free_page_def mark_page_free_def bitmap_clear_def)

lemma links_update:
  "i < length xs \<Longrightarrow> length (filter P (xs[i := v])) + (if P (xs ! i) then 1 else 0)
     = length (filter P xs) + (if P v then 1 else 0)"
proof (induction xs arbitrary: i)
  case (Cons x xs)
  then show ?case by (cases i) auto
qed simp

lemma pop_head_decreases:
  assumes "ready_head s = Some p"
  defines "t \<equiv> reap_late p (pop_head p s)"
  shows "2 * links t + (if ready_head t = None then 0 else 1) < 2 * links s + 1"
proof -
  define q where "q = (proc s p)\<lparr>next_ready := None\<rparr>"
  have h: "ready_head t = next_ready (proc s p)"
    by (simp add: t_def reap_late_def pop_head_def proc_upd_def Let_def)
  have l: "links t = links (s\<lparr>pcb := (pcb s)[p := q]\<rparr>)"
  proof -
    have "links (proc_upd p (\<lambda>r. r\<lparr>kstack_phys := 0\<rparr>) u) = links u" for u :: "'a procst_scheme"
      using links_update [of p "pcb u" "\<lambda>p. next_ready p \<noteq> None" "(proc u p)\<lparr>kstack_phys := 0\<rparr>"]
      by (cases "p < length (pcb u)") (auto simp: links_def proc_upd_def proc_def list_update_beyond split: if_splits)
    then have "links t = links (pop_head p s)" by (simp add: t_def reap_late_def links_def)
    also have "\<dots> = links (s\<lparr>pcb := (pcb s)[p := q]\<rparr>)"
      by (simp add: links_def pop_head_def proc_upd_def Let_def q_def proc_def)
    finally show ?thesis .
  qed
  show ?thesis
  proof (cases "p < length (pcb s)")
    case True
    then show ?thesis unfolding l h
      using links_update [OF True, of "\<lambda>p. next_ready p \<noteq> None" q]
      by (auto simp: links_def q_def proc_def split: if_splits)
  next
    case False
    then show ?thesis unfolding l h by (simp add: links_def proc_def proc_zero_def list_update_beyond)
  qed
qed

function pick_next :: "'a procst_scheme \<Rightarrow> nat option \<times> 'a procst_scheme" where
  "pick_next s =
     (case ready_head s of None \<Rightarrow> (None, s)
      | Some p \<Rightarrow>
          if pstate (proc s p) = PROC_READY then (Some p, pop_head p s)
          else pick_next (reap_late p (pop_head p s)))"
  by pat_completeness auto

termination pick_next
proof (relation "measure (\<lambda>s. 2 * links s + (if ready_head s = None then 0 else 1))", goal_cases)
  case 1
  show ?case by simp
next
  case (2 s p)
  then show ?case using pop_head_decreases [of s p] by simp
qed

declare pick_next.simps [simp del]

section \<open>Dispatch\<close>

text \<open>\<open>schedule_next\<close>; \<open>esp\<close> is the stack pointer that \<open>context_switch\<close> stores for the
  process that leaves the processor.\<close>

definition switch_cr3 :: "nat \<Rightarrow> 'a procst_scheme \<Rightarrow> 'a procst_scheme" where
  "switch_cr3 next s =
     (let want_cr3 = (if page_dir (proc s next) \<noteq> 0 then page_dir (proc s next) else paging_kernel_pd_phys s)
      in if cr3 s \<noteq> want_cr3 then s\<lparr>cr3 := want_cr3\<rparr> else s)"

definition context_switch :: "u32 \<Rightarrow> nat \<Rightarrow> 'a procst_scheme \<Rightarrow> 'a procst_scheme" where
  "context_switch esp prev s = proc_upd prev (\<lambda>q. q\<lparr>ksp := esp\<rparr>) s"

definition dispatch_to :: "u32 \<Rightarrow> nat \<Rightarrow> 'a procst_scheme \<Rightarrow> 'a procst_scheme" where
  "dispatch_to esp next s =
     (let prev = current s;
          s = proc_upd next (\<lambda>q. q\<lparr>pstate := PROC_RUNNING\<rparr>) (s\<lparr>current := next\<rparr>);
          s = (if kstack_phys (proc s next) \<noteq> 0
               then arch_set_tss_esp0 (phys_to_virt (kstack_phys (proc s next)) + PAGE_SIZE) s else s);
          s = switch_cr3 next s;
          s = (if ksp (proc s next) = 0 then build_initial_frame next s else s)
      in context_switch esp prev s)"

definition schedule_next :: "u32 \<Rightarrow> 'a procst_scheme \<Rightarrow> 'a procst_scheme" where
  "schedule_next esp s =
     (case pick_next s of (r, s) \<Rightarrow>
        let next = (case r of Some p \<Rightarrow> p | None \<Rightarrow> 0) in
        if next = current s then
          (if pstate (proc s next) = PROC_READY then proc_upd next (\<lambda>q. q\<lparr>pstate := PROC_RUNNING\<rparr>) s else s)
        else dispatch_to esp next s)"

definition sched_yield :: "u32 \<Rightarrow> 'a procst_scheme \<Rightarrow> 'a procst_scheme" where
  "sched_yield esp s =
     (let prev = current s in
      if prev = 0 then s
      else if pstate (proc s prev) = PROC_RUNNING
      then schedule_next esp (ready_enqueue prev (proc_upd prev (\<lambda>q. q\<lparr>pstate := PROC_READY\<rparr>) s))
      else schedule_next esp s)"

definition sched_preempt_tick :: "u32 \<Rightarrow> 'a procst_scheme \<Rightarrow> 'a procst_scheme" where
  "sched_preempt_tick esp s =
     (let cnt = preempt_tick_cnt s + 1 in
      if cnt < SCHED_PREEMPT_QUANTUM_TICKS then s\<lparr>preempt_tick_cnt := cnt\<rparr>
      else
        let s = s\<lparr>preempt_tick_cnt := 0\<rparr>; prev = current s in
        if ready_head s = None then s
        else schedule_next esp
          (if pstate (proc s prev) = PROC_RUNNING
           then ready_enqueue prev (proc_upd prev (\<lambda>q. q\<lparr>pstate := PROC_READY\<rparr>) s) else s))"

definition sched_start :: "u32 \<Rightarrow> 'a procst_scheme \<Rightarrow> 'a procst_scheme" where
  "sched_start esp s = schedule_next esp s"

definition sched_launch :: "u32 \<Rightarrow> 'a procst_scheme \<Rightarrow> 'a procst_scheme" where
  "sched_launch esp s = schedule_next esp s"

section \<open>Creation\<close>

definition process_current_pid :: "'a procst_scheme \<Rightarrow> u32" where
  "process_current_pid s = pid (proc s (current s))"

definition slot_free :: "process \<Rightarrow> bool" where
  "slot_free p \<longleftrightarrow> pstate p = PROC_CREATED \<and> kstack_phys p = 0 \<and> pid p = 0"

text \<open>\<open>None\<close> is the return value -1.\<close>

definition process_alloc_slot :: "'a procst_scheme \<Rightarrow> nat option" where
  "process_alloc_slot s = List.find (\<lambda>i. slot_free (proc s i)) [1..<MAX_PROCESSES]"

definition process_init :: "'a procst_scheme \<Rightarrow> 'a procst_scheme" where
  "process_init s =
     (let s = s\<lparr>pcb := replicate MAX_PROCESSES proc_zero\<rparr>;
          s = proc_upd 0 (\<lambda>q. q\<lparr>pid := 0, pstate := PROC_RUNNING, ctx_type := PROC_CTX_KERNEL, page_dir := 0\<rparr>) s;
          s = (case pmm_alloc_page s of (idle_page, t) \<Rightarrow>
                 if idle_page \<noteq> 0
                 then build_initial_frame 0
                        (proc_upd 0 (\<lambda>q. q\<lparr>kstack_phys := idle_page, entry := idle_addr t, ksp := 0\<rparr>) t)
                 else t)
      in s\<lparr>current := 0, ready_head := None, ready_tail := None\<rparr>)"

definition create_process :: "u32 \<Rightarrow> u32 \<Rightarrow> 'a procst_scheme \<Rightarrow> int \<times> 'a procst_scheme" where
  "create_process ent pd s =
     (if ent = 0 then (- 1, s)
      else
        (case process_alloc_slot s of None \<Rightarrow> (- 1, s)
         | Some slot \<Rightarrow>
             (case pmm_alloc_page s of (stack_page, t) \<Rightarrow>
                if stack_page = 0 then (- 1, t)
                else
                  (int slot, ready_enqueue slot (proc_upd slot (\<lambda>_. proc_zero\<lparr>pid := of_nat slot,
                     pstate := PROC_READY, ctx_type := PROC_CTX_KERNEL, entry := ent, page_dir := pd,
                     stack_top := phys_to_virt stack_page + PAGE_SIZE, kstack_phys := stack_page,
                     ksp := 0\<rparr>) t)))))"

definition create_user_process :: "u32 \<Rightarrow> u32 \<Rightarrow> u32 \<Rightarrow> 'a procst_scheme \<Rightarrow> int \<times> 'a procst_scheme" where
  "create_user_process uentry pd uesp s =
     (if uentry = 0 \<or> uesp = 0 then (- 1, s)
      else
        (case process_alloc_slot s of None \<Rightarrow> (- 1, s)
         | Some slot \<Rightarrow>
             (case pmm_alloc_page s of (stack_page, t) \<Rightarrow>
                if stack_page = 0 then (- 1, t)
                else
                  (int slot, ready_enqueue slot (proc_upd slot (\<lambda>_. proc_zero\<lparr>pid := of_nat slot,
                     pstate := PROC_READY, ctx_type := PROC_CTX_USER, user_entry := uentry, user_esp := uesp,
                     page_dir := pd, stack_top := uesp, kstack_phys := stack_page, ksp := 0\<rparr>) t)))))"

section \<open>Fork\<close>

definition proc_clear :: "nat \<Rightarrow> 'a procst_scheme \<Rightarrow> 'a procst_scheme" where
  "proc_clear i s = proc_upd i (\<lambda>_. proc_zero) s"

text \<open>The fields of the child that differ from the copy of the parent's slot.\<close>

definition fork_child :: "nat \<Rightarrow> nat \<Rightarrow> u32 \<Rightarrow> u32 \<Rightarrow> u32 \<Rightarrow> 'a procst_scheme \<Rightarrow> 'a procst_scheme" where
  "fork_child parent slot child_pd kstack sp s =
     ready_enqueue slot (proc_upd slot (\<lambda>_. (proc s parent)\<lparr>ksp := sp, pid := of_nat slot,
       page_dir := child_pd, kstack_phys := kstack, next_ready := None, pstate := PROC_READY,
       ppid := pid (proc s parent), exit_code := 0, sig_pending := 0, wait_target := 0\<rparr>) s)"

text \<open>\<open>memcpy(c_top - len, p_tail, len)\<close> for a stack pointer that is 4-aligned: the last
  \<open>len / 4\<close> words of the parent's stack page.\<close>

definition copy_stack_tail :: "u32 \<Rightarrow> u32 \<Rightarrow> nat \<Rightarrow> 'a procst_scheme \<Rightarrow> 'a procst_scheme" where
  "copy_stack_tail dst src n s =
     s\<lparr>pmem := (pmem s)(dst := (\<lambda>i. if 1024 - n \<le> i \<and> i < 1024 then pmem s src i else pmem s dst i))\<rparr>"

text \<open>\<open>cap\<close> is the address of the captured registers and \<open>regs\<close> their five words.\<close>

definition process_fork_kernel :: "u32 \<Rightarrow> u32 list \<Rightarrow> 'a procst_scheme \<Rightarrow> int \<times> 'a procst_scheme" where
  "process_fork_kernel cap regs s =
     (let parent = current s; pk = kstack_phys (proc s parent) in
      if parent = 0 then (- 1, s)
      else if ctx_type (proc s parent) \<noteq> PROC_CTX_KERNEL \<or> pk = 0 then (- 1, s)
      else
        (case process_alloc_slot s of None \<Rightarrow> (- 1, s)
         | Some slot \<Rightarrow>
             (case pmm_alloc_page s of (kstack, t) \<Rightarrow>
                if kstack = 0 then (- 12, proc_clear slot t)
                else
                  (case paging_clone_address_space (cr3 t) t of (r, child_pd, u) \<Rightarrow>
                     if r \<noteq> 0 then (- 12, pmm_free_page kstack (proc_clear slot u))
                     else
                       let len = (phys_to_virt pk + PAGE_SIZE) - (cap + 20);
                           n = unat len div 4;
                           c_top = phys_to_virt kstack + PAGE_SIZE
                       in
                       if len = 0 \<or> len > PAGE_SIZE - 64
                       then (- 1, pmm_free_page kstack (proc_clear slot (paging_destroy_address_space child_pd u)))
                       else
                         (int slot, fork_child parent slot child_pd kstack (c_top - len - 28)
                            (stack_write kstack (1024 - n - 7) (regs @ [fork_stub u, c_top - len])
                              (copy_stack_tail kstack pk n u)))))))"

text \<open>A word of the direct map.\<close>

definition load32 :: "'a procst_scheme \<Rightarrow> u32 \<Rightarrow> u32" where
  "load32 s va = (let phys = virt_to_phys va in pmem s (phys AND PAGE_FRAME_MASK) (unat (phys AND 0xFFF) div 4))"

definition int80_frame_at :: "'a procst_scheme \<Rightarrow> u32 \<Rightarrow> u32 \<Rightarrow> bool" where
  "int80_frame_at s stack_base a =
     (load32 s a = 128 \<and> load32 s (a + 4) = 0 \<and>
      0x400000 \<le> load32 s (a + 8) \<and> load32 s (a + 8) < KERNEL_VIRT_BASE \<and>
      load32 s (a + 12) = 0x1B \<and> (load32 s (a + 16) AND 0x200) \<noteq> 0 \<and>
      0x1000 \<le> load32 s (a + 20) \<and> load32 s (a + 20) < KERNEL_VIRT_BASE \<and>
      load32 s (a + 24) = 0x23 \<and> a - 32 \<ge> stack_base)"

text \<open>The scan from the anchor to the top of the stack page, in steps of one word.\<close>

definition fork_locate_int80_frame :: "'a procst_scheme \<Rightarrow> u32 \<Rightarrow> u32 \<Rightarrow> u32 \<Rightarrow> u32 option" where
  "fork_locate_int80_frame s anchor stop base =
     (let a = anchor AND NOT 3 in
      if a + 28 \<le> stop
      then List.find (int80_frame_at s base) (map (\<lambda>k. a + 4 * of_nat k) [0..<unat (stop - (a + 28)) div 4 + 1])
      else None)"

text \<open>The image of the child's kernel stack: the registers that \<open>context_switch\<close>
  restores, the user registers with eax = 0, and the frame of \<open>iret\<close>.\<close>

definition fork_user_image :: "'a procst_scheme \<Rightarrow> u32 \<Rightarrow> u32 list" where
  "fork_user_image s fw =
     [load32 s (fw - 32), load32 s (fw - 28), load32 s (fw - 16), load32 s (fw - 24),
      EFLAGS_IF_SET, fork_user_stub s,
      load32 s (fw - 32), load32 s (fw - 28), load32 s (fw - 24), load32 s (fw - 16),
      load32 s (fw - 12), load32 s (fw - 8), 0,
      load32 s (fw + 8), USER_CS, load32 s (fw + 16) OR EFLAGS_IF_SET, load32 s (fw + 20), USER_DS]"

definition process_fork_user :: "u32 \<Rightarrow> 'a procst_scheme \<Rightarrow> int \<times> 'a procst_scheme" where
  "process_fork_user anchor s =
     (let parent = current s; pk = kstack_phys (proc s parent) in
      if parent = 0 then (- 1, s)
      else if ctx_type (proc s parent) \<noteq> PROC_CTX_USER \<or> pk = 0 then (- 1, s)
      else
        (case fork_locate_int80_frame s anchor (phys_to_virt pk + PAGE_SIZE) (phys_to_virt pk) of
           None \<Rightarrow> (- 1, s)
         | Some fw \<Rightarrow>
             (case process_alloc_slot s of None \<Rightarrow> (- 12, s)
              | Some slot \<Rightarrow>
                  (case pmm_alloc_page s of (kstack, t) \<Rightarrow>
                     if kstack = 0 then (- 12, proc_clear slot t)
                     else
                       (case paging_clone_address_space (cr3 t) t of (r, child_pd, u) \<Rightarrow>
                          if r \<noteq> 0 then (- 12, pmm_free_page kstack (proc_clear slot u))
                          else
                            (int slot, fork_child parent slot child_pd kstack
                               (phys_to_virt kstack + PAGE_SIZE - 72)
                               (stack_write kstack 1006 (fork_user_image u fw) u)))))))"

section \<open>Exit, wait and kill\<close>

definition private_dir :: "'a procst_scheme \<Rightarrow> nat \<Rightarrow> bool" where
  "private_dir s i \<longleftrightarrow> page_dir (proc s i) \<noteq> 0 \<and> page_dir (proc s i) \<noteq> paging_kernel_pd_phys s"

definition process_reap_slot :: "nat \<Rightarrow> 'a procst_scheme \<Rightarrow> 'a procst_scheme" where
  "process_reap_slot i s =
     (let s = (if private_dir s i
               then proc_upd i (\<lambda>q. q\<lparr>page_dir := 0\<rparr>) (paging_destroy_address_space (page_dir (proc s i)) s)
               else s);
          s = (if kstack_phys (proc s i) \<noteq> 0
               then proc_upd i (\<lambda>q. q\<lparr>kstack_phys := 0\<rparr>) (pmm_free_page (kstack_phys (proc s i)) s)
               else s)
      in proc_clear i s)"

definition wakes :: "nat \<Rightarrow> 'a procst_scheme \<Rightarrow> nat \<Rightarrow> bool" where
  "wakes p s i \<longleftrightarrow>
     (let b = proc s i in
      pstate b = PROC_BLOCKED \<and> pid b \<noteq> 0 \<and> (wait_target b = 0xFFFFFFFF \<or> wait_target b = of_nat p)
      \<and> ppid (proc s p) = pid b)"

definition wake_waiter :: "nat \<Rightarrow> nat \<Rightarrow> 'a procst_scheme \<Rightarrow> 'a procst_scheme" where
  "wake_waiter p i s =
     (if wakes p s i then ready_enqueue i (proc_upd i (\<lambda>q. q\<lparr>pstate := PROC_READY\<rparr>) s) else s)"

definition signal_parent :: "nat \<Rightarrow> 'a procst_scheme \<Rightarrow> 'a procst_scheme" where
  "signal_parent p s =
     (let pp = ppid (proc s p) in
      if pp \<noteq> 0 \<and> unat pp < MAX_PROCESSES \<and> pid (proc s (unat pp)) \<noteq> 0
      then proc_upd (unat pp) (\<lambda>q. q\<lparr>sig_pending := sig_pending q OR push_bit 17 1\<rparr>) s else s)"

definition orphan_child :: "nat \<Rightarrow> nat \<Rightarrow> 'a procst_scheme \<Rightarrow> 'a procst_scheme" where
  "orphan_child p i s =
     (let c = proc s i in
      if pid c \<noteq> 0 \<and> ppid c = of_nat p \<and> pstate c \<noteq> PROC_CREATED
      then (if pstate c = PROC_TERMINATED then process_reap_slot i s
            else proc_upd i (\<lambda>q. q\<lparr>ppid := 0\<rparr>) s)
      else s)"

definition release_space :: "nat \<Rightarrow> 'a procst_scheme \<Rightarrow> 'a procst_scheme" where
  "release_space p s =
     (if private_dir s p
      then
        let s = (if current s = p then s\<lparr>cr3 := paging_kernel_pd_phys s\<rparr> else s)
        in proc_upd p (\<lambda>q. q\<lparr>page_dir := 0\<rparr>) (paging_destroy_address_space (page_dir (proc s p)) s)
      else s)"

definition exit_process_code :: "u32 \<Rightarrow> int \<Rightarrow> int \<Rightarrow> 'a procst_scheme \<Rightarrow> 'a procst_scheme" where
  "exit_process_code esp pd code s =
     (if pd \<le> 0 \<or> pd \<ge> int MAX_PROCESSES then s
      else
        let p = nat pd in
        if pstate (proc s p) = PROC_TERMINATED \<or> pstate (proc s p) = PROC_CREATED \<or> pid (proc s p) = 0 then s
        else
          let s = proc_upd p (\<lambda>q. q\<lparr>exit_code := code, pstate := PROC_TERMINATED\<rparr>) s;
              s = fold (wake_waiter p) [1..<MAX_PROCESSES] s;
              s = signal_parent p s;
              s = fold (orphan_child p) [1..<MAX_PROCESSES] s;
              s = release_space p s
          in
          if current s \<noteq> p \<and> ppid (proc s p) = 0 \<and> pstate (proc s p) = PROC_TERMINATED then proc_clear p s
          else if current s \<noteq> p then
            (if kstack_phys (proc s p) \<noteq> 0
             then proc_upd p (\<lambda>q. q\<lparr>kstack_phys := 0\<rparr>) (pmm_free_page (kstack_phys (proc s p)) s)
             else s)
          else schedule_next esp s)"

definition exit_process :: "u32 \<Rightarrow> int \<Rightarrow> 'a procst_scheme \<Rightarrow> 'a procst_scheme" where
  "exit_process esp pd s = exit_process_code esp pd 0 s"

text \<open>The scan over the caller's children: the first zombie, or whether there is a
  matching child at all.  The result carries the exit code of a zombie.\<close>

definition my_child :: "'a procst_scheme \<Rightarrow> int \<Rightarrow> nat \<Rightarrow> bool" where
  "my_child s target i \<longleftrightarrow>
     (let p = proc s i in
      pid p \<noteq> 0 \<and> ppid p = pid (proc s (current s)) \<and> (target = - 1 \<or> word_of_int target = pid p))"

definition process_wait_scan :: "int \<Rightarrow> 'a procst_scheme \<Rightarrow> int \<times> int option" where
  "process_wait_scan target s =
     (if current s = 0 then (- CATOS_ECHILD, None)
      else
        (case List.find (\<lambda>i. my_child s target i \<and> pstate (proc s i) = PROC_TERMINATED) [1..<MAX_PROCESSES] of
           Some i \<Rightarrow> (int i, Some (exit_code (proc s i)))
         | None \<Rightarrow> (if List.find (my_child s target) [1..<MAX_PROCESSES] \<noteq> None then 0 else - CATOS_ECHILD, None)))"

definition process_wait_block :: "u32 \<Rightarrow> int \<Rightarrow> 'a procst_scheme \<Rightarrow> 'a procst_scheme" where
  "process_wait_block esp target s =
     (let p = current s in
      if p = 0 then s
      else sched_yield esp (proc_upd p (\<lambda>q. q\<lparr>wait_target := word_of_int target,
             pstate := (if pstate q = PROC_RUNNING then PROC_BLOCKED else pstate q)\<rparr>) s))"

definition process_wait_reap :: "int \<Rightarrow> 'a procst_scheme \<Rightarrow> 'a procst_scheme" where
  "process_wait_reap pd s =
     (if pd \<le> 0 \<or> pd \<ge> int MAX_PROCESSES then s
      else if pstate (proc s (nat pd)) \<noteq> PROC_TERMINATED \<or> pid (proc s (nat pd)) = 0 then s
      else process_reap_slot (nat pd) s)"

definition process_kill :: "u32 \<Rightarrow> u32 \<Rightarrow> u32 \<Rightarrow> 'a procst_scheme \<Rightarrow> int \<times> 'a procst_scheme" where
  "process_kill esp pd sig s =
     (if pd = 0 \<or> unat pd \<ge> MAX_PROCESSES then (- CATOS_EINVAL, s)
      else if sig \<noteq> 0 \<and> sig \<noteq> 9 \<and> sig \<noteq> 15 \<and> sig \<noteq> 17 then (- CATOS_EINVAL, s)
      else if pid (proc s (unat pd)) = 0 \<or> pstate (proc s (unat pd)) = PROC_CREATED then (- CATOS_ESRCH, s)
      else if sig = 0 then (0, s)
      else if sig = 9 then (0, exit_process_code esp (int (unat pd)) 9 s)
      else (0, proc_upd (unat pd) (\<lambda>q. q\<lparr>sig_pending := sig_pending q OR push_bit (unat sig) 1\<rparr>) s))"

end
