(* ===== verification/CowClone.thy ===== *)
theory CowClone
  imports CowFork
begin

text \<open>
  Correctness of \<open>paging_clone_address_space\<close>: the child sees what the parent sees,
  nobody's view changes, no user page of either is left writable, and the
  reference counts are those of the enlarged set of address spaces.
\<close>

section \<open>One page table\<close>

definition clone_child :: "u32 \<Rightarrow> u32" where
  "clone_child pte = (if pte AND PAGE_PRESENT = 0 then 0 else if cow_writable pte then cow_entry pte else pte)"

definition clone_parent :: "u32 \<Rightarrow> u32" where
  "clone_parent pte = (if pte AND PAGE_PRESENT = 0 then pte else if cow_writable pte then cow_entry pte else pte)"

lemma page_ref_get_inc:
  assumes "page_ref_get p s \<noteq> 0" "unat (page_ref_get p s) < 250" "q AND 0xFFF = 0" "p AND 0xFFF = 0"
  shows "unat (page_ref_get q (page_ref_inc p s)) = unat (page_ref_get q s) + (if q = p then 1 else 0)"
proof -
  define c where "c = page_refcnt s (unat (drop_bit 12 p))"
  have ok: "page_ref_ok p s" "unat c < 250"
    using assms(1,2) by (auto simp: page_ref_get_def c_def split: if_splits)
  then have nz: "\<not> 250 \<le> c" "unat (c + 1) = unat c + 1"
    by (auto simp: word_le_nat_alt unat_word_ariths)
  show ?thesis
    using ok nz frame_idx_inj [OF assms(3,4)]
    by (auto simp: page_ref_inc_def page_ref_get_def page_ref_ok_def Let_def c_def)
qed

lemma ref_not_free: "pmm_inv s \<Longrightarrow> page_ref_get p s \<noteq> 0 \<Longrightarrow> drop_bit 12 p \<notin> frees s"
  by (auto simp: pmm_inv_def page_ref_get_def split: if_splits)

lemma card_below_Suc:
  "card {i. i < Suc n \<and> P i} = card {i. i < n \<and> P i} + (if P n then 1 else 0)"
proof -
  have "{i. i < Suc n \<and> P i} = (if P n then insert n {i. i < n \<and> P i} else {i. i < n \<and> P i})"
    by (auto simp: less_Suc_eq)
  then show ?thesis by simp
qed

lemma usable_ref_inc [simp]: "usable (page_ref_inc p s) = usable s"
  by (simp add: usable_def)

text \<open>How many of the first \<open>n\<close> entries of a table map the frame \<open>f\<close>.\<close>

definition maps_below :: "(nat \<Rightarrow> u32) \<Rightarrow> nat \<Rightarrow> u32 \<Rightarrow> nat" where
  "maps_below tab n f = card {i. i < n \<and> (tab i AND PAGE_PRESENT \<noteq> 0 \<and> tab i AND PAGE_FRAME_MASK = f)}"

lemma maps_below_Suc:
  "maps_below tab (Suc n) f =
     maps_below tab n f + (if tab n AND PAGE_PRESENT \<noteq> 0 \<and> tab n AND PAGE_FRAME_MASK = f then 1 else 0)"
  unfolding maps_below_def by (rule card_below_Suc)

lemma maps_below_unaligned: "f AND 0xFFF \<noteq> 0 \<Longrightarrow> maps_below tab n f = 0"
  using frame_aligned unfolding maps_below_def by (metis (mono_tags, lifting) Collect_empty_eq card.empty)

definition table_cloned ::
  "nat \<Rightarrow> u32 \<Rightarrow> u32 \<Rightarrow> 'a paging_scheme \<Rightarrow> 'a paging_scheme \<Rightarrow> bool" where
  "table_cloned n ppt cpt s t \<longleftrightarrow>
     pmem t = (pmem s)(cpt := (\<lambda>i. if i < n then clone_child (pmem s ppt i) else pmem s cpt i),
                       ppt := (\<lambda>i. if i < n then clone_parent (pmem s ppt i) else pmem s ppt i))
     \<and> usable t = usable s \<and> pmm_inv t \<and> cr3 t = cr3 s
     \<and> (\<forall>f. f AND 0xFFF = 0 \<longrightarrow> unat (page_ref_get f t) = unat (page_ref_get f s) + maps_below (pmem s ppt) n f)"

lemma clone_pte_fold:
  assumes ne: "cpt \<noteq> ppt" and inv: "pmm_inv s"
    and room: "\<And>f. unat (page_ref_get f s) + maps_below (pmem s ppt) n f \<le> 250"
    and refd: "\<And>i. i < n \<Longrightarrow> pmem s ppt i AND PAGE_PRESENT \<noteq> 0 \<Longrightarrow> page_ref_get (pmem s ppt i AND PAGE_FRAME_MASK) s \<noteq> 0"
  shows "table_cloned n ppt cpt s (fold (clone_pte ppt cpt) [0..<n] s)"
  using room refd
proof (induction n)
  case 0
  then show ?case using inv by (simp add: table_cloned_def maps_below_def)
next
  case (Suc n)
  define t where "t = fold (clone_pte ppt cpt) [0..<n] s"
  have IH: "table_cloned n ppt cpt s t" unfolding t_def
  proof (rule Suc.IH)
    show "unat (page_ref_get f s) + maps_below (pmem s ppt) n f \<le> 250" for f
      using Suc.prems(1) [of f] by (simp add: maps_below_Suc split: if_splits)
  qed (use Suc.prems(2) in auto)
  define pte where "pte = pmem s ppt n"
  define fr where "fr = pte AND PAGE_FRAME_MASK"
  have p: "pmem t ppt n = pte" using IH by (simp add: table_cloned_def pte_def)
  have step: "fold (clone_pte ppt cpt) [0..<Suc n] s = clone_pte ppt cpt n t" by (simp add: t_def)
  show ?case
  proof (cases "pte AND PAGE_PRESENT = 0")
    case True
    then show ?thesis unfolding step using IH ne
      by (auto simp: table_cloned_def clone_pte_def p fun_eq_iff clone_child_def clone_parent_def
          maps_below_Suc pte_def less_Suc_eq)
  next
    case False
    have fa: "fr AND 0xFFF = 0" by (simp add: fr_def)
    define u where "u = (if cow_writable pte then pm_set ppt n (cow_entry pte) (pm_set cpt n (cow_entry pte) t)
         else pm_set cpt n pte t)"
    have c: "clone_pte ppt cpt n t = page_ref_inc fr u"
      using False by (simp add: clone_pte_def p u_def fr_def)
    have gu: "page_ref_get f u = page_ref_get f t" for f by (simp add: u_def)
    have gt: "unat (page_ref_get fr t) = unat (page_ref_get fr s) + maps_below (pmem s ppt) n fr"
      using IH fa by (simp add: table_cloned_def)
    have "page_ref_get fr s \<noteq> 0" using Suc.prems(2) [of n] False by (simp add: pte_def fr_def)
    then have nz: "page_ref_get fr u \<noteq> 0" using gt by (auto simp: gu unat_eq_zero)
    have lt: "unat (page_ref_get fr u) < 250"
      using Suc.prems(1) [of fr] False gt by (simp add: gu maps_below_Suc pte_def fr_def)
    have pu: "pmm_inv u" "usable u = usable s" "cr3 u = cr3 s"
      using IH by (auto simp: u_def table_cloned_def)
    have iu: "pmm_inv (page_ref_inc fr u)"
      by (rule pmm_inv_ref_inc [OF pu(1) ref_not_free [OF pu(1) nz]])
    have g: "unat (page_ref_get f (page_ref_inc fr u)) =
        unat (page_ref_get f s) + maps_below (pmem s ppt) (Suc n) f" if "f AND 0xFFF = 0" for f
      using page_ref_get_inc [OF nz lt that fa] IH that False
      by (auto simp: gu table_cloned_def maps_below_Suc pte_def fr_def)
    have m: "pmem (page_ref_inc fr u) =
        (pmem s)(cpt := (\<lambda>i. if i < Suc n then clone_child (pmem s ppt i) else pmem s cpt i),
                 ppt := (\<lambda>i. if i < Suc n then clone_parent (pmem s ppt i) else pmem s ppt i))"
      using IH ne False
      by (auto simp: table_cloned_def u_def fun_eq_iff clone_child_def clone_parent_def pte_def less_Suc_eq)
    show ?thesis unfolding step c table_cloned_def using m iu pu g by simp
  qed
qed

lemma clone_entry_flags:
  "clone_child pte AND 1 = 0 \<longleftrightarrow> pte AND 1 = 0"
  "clone_parent pte AND 1 = 0 \<longleftrightarrow> pte AND 1 = 0"
  "pte AND 1 \<noteq> 0 \<Longrightarrow> clone_child pte = clone_parent pte"
  "clone_parent pte AND 0xFFFFF000 = pte AND 0xFFFFF000"
  "pte AND 1 \<noteq> 0 \<Longrightarrow> \<not> cow_writable (clone_parent pte)"
proof -
  have c: "cow_entry pte = (pte AND 0xFFFFF000) OR 0x805" by (simp add: cow_entry_def)
  have f: "cow_entry pte AND 1 = 1" "cow_entry pte AND 2 = 0" "cow_entry pte AND 0xFFFFF000 = pte AND 0xFFFFF000"
    unfolding c using pte_flag [of "pte AND 0xFFFFF000" 1 "0x805"] pte_flag [of "pte AND 0xFFFFF000" 2 "0x805"]
      pte_frame [of "pte AND 0xFFFFF000" "0x805"] by simp_all
  show "clone_child pte AND 1 = 0 \<longleftrightarrow> pte AND 1 = 0" "clone_parent pte AND 1 = 0 \<longleftrightarrow> pte AND 1 = 0"
    "pte AND 1 \<noteq> 0 \<Longrightarrow> clone_child pte = clone_parent pte"
    "clone_parent pte AND 0xFFFFF000 = pte AND 0xFFFFF000"
    "pte AND 1 \<noteq> 0 \<Longrightarrow> \<not> cow_writable (clone_parent pte)"
    using f by (auto simp: clone_child_def clone_parent_def cow_writable_def)
qed

section \<open>One directory entry\<close>

text \<open>\<open>grafted\<close>: from \<open>s\<close> to \<open>t\<close> the directory \<open>child\<close> has got, at the indices \<open>R\<close>, what
  \<open>parent\<close> has there; all other slots map what they mapped.\<close>

definition graft :: "u32 \<Rightarrow> u32 \<Rightarrow> nat set \<Rightarrow> slot \<Rightarrow> slot" where
  "graft parent child R y = (if fst y = child \<and> fst (snd y) \<in> R then (parent, snd y) else y)"

definition grafted :: "u32 set \<Rightarrow> u32 \<Rightarrow> u32 \<Rightarrow> nat set \<Rightarrow> 'a paging_scheme \<Rightarrow> 'a paging_scheme \<Rightarrow> bool" where
  "grafted D parent child R s t \<longleftrightarrow> (\<forall>y \<in> slots (insert child D).
     mapped t y = mapped s (graft parent child R y) \<and> view t y = view s (graft parent child R y)
     \<and> (mapped t y \<longrightarrow> frame_of t y = frame_of s (graft parent child R y))
     \<and> (mapped t y \<longrightarrow> fst y \<in> {parent, child} \<longrightarrow> fst (snd y) \<in> R \<longrightarrow> \<not> cow_writable (pte_of t y))
     \<and> (mapped t y \<longrightarrow> fst (snd y) \<notin> R \<longrightarrow> pte_of t y = pte_of s y))"

text \<open>How often the parent's entries under the indices \<open>r\<close> map a frame.\<close>

definition maps_under :: "'a paging_scheme \<Rightarrow> u32 \<Rightarrow> nat list \<Rightarrow> u32 \<Rightarrow> nat" where
  "maps_under s pd r f = sum_list (map (\<lambda>pdi. if pt_leaf (pmem s pd pdi) then 0
     else maps_below (pmem s (pt_of s pd pdi)) 1024 f) r)"

lemma child_pde:
  assumes "p AND 0xFFF = 0"
  shows "\<not> pt_leaf (p OR 1 OR 2 OR (pde AND (4 OR 8 OR 16)))"
    "(p OR 1 OR 2 OR (pde AND (4 OR 8 OR 16))) AND 0xFFFFF000 = p"
proof -
  let ?c = "3 OR (pde AND 28)"
  have e: "p OR 1 OR 2 OR (pde AND (4 OR 8 OR 16)) = p OR ?c" by (simp flip: or.assoc)
  have "?c AND 1 = 1" "?c AND 0x80 = 0" "?c AND 0xFFFFF000 = 0"
    by (simp_all add: bit.conj_disj_distrib2 and.assoc)
  then show "\<not> pt_leaf (p OR 1 OR 2 OR (pde AND (4 OR 8 OR 16)))"
    "(p OR 1 OR 2 OR (pde AND (4 OR 8 OR 16))) AND 0xFFFFF000 = p"
    unfolding e pt_leaf_def
    using pte_flag [OF assms, of 1 ?c] pte_flag [OF assms, of "0x80" ?c] pte_frame [OF assms, of ?c] by simp_all
qed

text \<open>The state after one index, described by its memory and its counts.\<close>

definition pde_cloned ::
  "u32 set \<Rightarrow> u32 \<Rightarrow> u32 \<Rightarrow> u32 \<Rightarrow> nat \<Rightarrow> u32 \<Rightarrow> 'a paging_scheme \<Rightarrow> 'a paging_scheme \<Rightarrow> bool" where
  "pde_cloned D parent child cpt pdi e s t \<longleftrightarrow>
     vm_ok (insert child D) s \<and> parent \<in> D \<and> child \<notin> D \<and> pdi < 768
     \<and> pmem s child pdi = 0 \<and> \<not> pt_leaf (pmem s parent pdi)
     \<and> cpt \<in> usable s \<and> usable t = usable s - {cpt} \<and> pmm_inv t
     \<and> pmem t child = (pmem s child)(pdi := e) \<and> \<not> pt_leaf e \<and> e AND PAGE_FRAME_MASK = cpt
     \<and> (\<forall>j < 1024. pmem t cpt j = clone_child (pmem s (pt_of s parent pdi) j))
     \<and> (\<forall>j < 1024. pmem t (pt_of s parent pdi) j = clone_parent (pmem s (pt_of s parent pdi) j))
     \<and> (\<forall>f. f \<noteq> child \<longrightarrow> f \<noteq> cpt \<longrightarrow> f \<noteq> pt_of s parent pdi \<longrightarrow> pmem t f = pmem s f)
     \<and> (\<forall>f. f AND 0xFFF = 0 \<longrightarrow> f \<noteq> cpt \<longrightarrow> unat (page_ref_get f t) =
          unat (page_ref_get f s) + maps_below (pmem s (pt_of s parent pdi)) 1024 f)
     \<and> page_ref_get cpt t = 1"

lemma pde_cloned_frames:
  assumes c: "pde_cloned D parent child cpt pdi e s t"
  shows "pt_of s parent pdi \<notin> usable s" "pt_of s parent pdi \<notin> insert child D" "cpt \<notin> insert child D"
    "cpt \<noteq> pt_of s parent pdi"
  using c by (auto simp: pde_cloned_def vm_ok_def tables_ok_def)

lemma pde_cloned_dirs:
  assumes c: "pde_cloned D parent child cpt pdi e s t" and d: "d \<in> insert child D"
  shows "pmem t d = (if d = child then (pmem s child)(pdi := e) else pmem s d)"
    and "pt_leaf (pmem t d di) \<longleftrightarrow> \<not> (d = child \<and> di = pdi) \<and> pt_leaf (pmem s d di)"
    and "pt_of t d di = (if d = child \<and> di = pdi then cpt else pt_of s d di)"
proof -
  have "d \<noteq> cpt" "d \<noteq> pt_of s parent pdi" using pde_cloned_frames [OF c] d by auto
  then show p: "pmem t d = (if d = child then (pmem s child)(pdi := e) else pmem s d)"
    using c by (auto simp: pde_cloned_def)
  show "pt_leaf (pmem t d di) \<longleftrightarrow> \<not> (d = child \<and> di = pdi) \<and> pt_leaf (pmem s d di)"
    "pt_of t d di = (if d = child \<and> di = pdi then cpt else pt_of s d di)"
    using c p by (auto simp: pde_cloned_def pt_of_def)
qed

lemma pde_cloned_tables:
  assumes c: "pde_cloned D parent child cpt pdi e s t"
  shows "tables_ok (insert child D) t"
proof -
  have T: "tables_ok (insert child D) s" and u: "usable t = usable s - {cpt}" "cpt \<in> usable s"
    using c by (auto simp: pde_cloned_def vm_ok_def)
  note f = pde_cloned_frames [OF c] and d = pde_cloned_dirs [OF c]
  have pt: "pt_of s d di \<notin> usable s \<and> pt_of s d di \<notin> insert child D"
    if "d \<in> insert child D" "di < 768" "\<not> pt_leaf (pmem s d di)" for d di
    using T that by (auto simp: tables_ok_def)
  have inj: "d' = d \<and> di' = di"
    if "d \<in> insert child D" "di < 768" "\<not> pt_leaf (pmem s d di)"
      "d' \<in> insert child D" "di' < 768" "\<not> pt_leaf (pmem s d' di')" "pt_of s d' di' = pt_of s d di"
    for d di d' di' using T that by (auto simp: tables_ok_def)
  show ?thesis unfolding tables_ok_def
  proof (intro conjI ballI allI impI)
    show "insert child D \<inter> usable t = {}" using T u by (auto simp: tables_ok_def)
  next
    fix d di assume a: "d \<in> insert child D" "di < 768" "\<not> pt_leaf (pmem t d di)"
    show "pt_of t d di \<notin> usable t" "pt_of t d di \<notin> insert child D"
      using a pt [of d di] u f(3) by (auto simp: d(2) [OF a(1)] d(3) [OF a(1)])
    fix d' di' assume b: "d' \<in> insert child D" "di' < 768" "\<not> pt_leaf (pmem t d' di')"
      "pt_of t d' di' = pt_of t d di"
    have "d' = d \<and> di' = di"
    proof (cases "(d = child \<and> di = pdi) \<or> (d' = child \<and> di' = pdi)")
      case True
      then show ?thesis
        using a b pt [of d di] pt [of d' di'] u(2) d(2,3) [OF a(1), of di] d(2,3) [OF b(1), of di']
        by (metis (no_types, lifting))
    next
      case False
      then have "\<not> pt_leaf (pmem s d di)" "\<not> pt_leaf (pmem s d' di')" "pt_of s d' di' = pt_of s d di"
        using a(3) b(3,4) d(2,3) [OF a(1), of di] d(2,3) [OF b(1), of di'] by presburger+
      then show ?thesis using inj a b by blast
    qed
    then show "d' = d" "di' = di" by simp_all
  qed
qed

lemma pde_cloned_pte:
  assumes c: "pde_cloned D parent child cpt pdi e s t" and y: "(d, di, ti) \<in> slots (insert child D)"
  shows "\<not> pt_leaf (pmem t d di) \<Longrightarrow> pte_of t (d, di, ti) =
    (if d = child \<and> di = pdi then clone_child (pte_of s (parent, pdi, ti))
     else if d = parent \<and> di = pdi then clone_parent (pte_of s (parent, pdi, ti)) else pte_of s (d, di, ti))"
proof -
  assume nl: "\<not> pt_leaf (pmem t d di)"
  have y': "d \<in> insert child D" "di < 768" "ti < 1024" using y by (auto simp: slots_def)
  note dd = pde_cloned_dirs [OF c y'(1)] and f = pde_cloned_frames [OF c]
  have T: "tables_ok (insert child D) s" and C: "cpt \<in> usable s" "parent \<in> D" "child \<notin> D" "pdi < 768"
    "\<not> pt_leaf (pmem s parent pdi)"
    using c by (auto simp: pde_cloned_def vm_ok_def)
  consider "d = child \<and> di = pdi" | "d = parent \<and> di = pdi" | "\<not> (d = child \<and> di = pdi)" "\<not> (d = parent \<and> di = pdi)"
    by blast
  then show ?thesis
  proof cases
    case 1
    then show ?thesis using c dd(3) y' by (simp add: pde_cloned_def)
  next
    case 2
    then show ?thesis using c dd(3) y' C by (auto simp: pde_cloned_def)
  next
    case 3
    then have nls: "\<not> pt_leaf (pmem s d di)" using nl dd(2) by simp
    then have "pt_of s d di \<noteq> pt_of s parent pdi" "pt_of s d di \<noteq> cpt" "pt_of s d di \<noteq> child"
      using T y' C 3 unfolding tables_ok_def by blast+
    then have "pmem t (pt_of s d di) = pmem s (pt_of s d di)" using c by (auto simp: pde_cloned_def)
    moreover have "pt_of t d di = pt_of s d di" using dd(3) [of di] 3(1) by presburger
    ultimately have "pte_of t (d, di, ti) = pte_of s (d, di, ti)" by simp
    then show ?thesis using 3 by presburger
  qed
qed

lemma pde_cloned_grafted:
  assumes c: "pde_cloned D parent child cpt pdi e s t"
  shows "grafted D parent child {pdi} s t"
  unfolding grafted_def
proof (intro ballI)
  fix y assume y: "y \<in> slots (insert child D)"
  obtain d di ti where yd: "y = (d, di, ti)" by (cases y)
  have C: "frames_ok (insert child D) s" "parent \<in> D" "child \<notin> D" "cpt \<in> usable s" "pdi < 768"
    "\<not> pt_leaf (pmem s parent pdi)" "\<forall>f. f \<noteq> child \<longrightarrow> f \<noteq> cpt \<longrightarrow> f \<noteq> pt_of s parent pdi \<longrightarrow> pmem t f = pmem s f"
    using c by (auto simp: pde_cloned_def vm_ok_def)
  have y': "d \<in> insert child D" "di < 768" "ti < 1024" using y yd by (auto simp: slots_def)
  let ?g = "graft parent child {pdi} y"
  have g: "?g \<in> slots (insert child D)" using y C(2) yd by (auto simp: graft_def slots_def)
  note pte = pde_cloned_pte [OF c y [unfolded yd]] and dd = pde_cloned_dirs [OF c y'(1)]
  have lg: "pt_leaf (pmem t d di) = pt_leaf (pmem s (fst ?g) (fst (snd ?g)))"
    using dd(2) C(6) yd by (auto simp: graft_def)
  define q where "q = pte_of s ?g"
  have gq: "q = (if d = child \<and> di = pdi then pte_of s (parent, pdi, ti) else pte_of s (d, di, ti))"
    by (auto simp: q_def graft_def yd simp del: pte_of.simps)
  have pt: "pte_of t y = (if d = child \<and> di = pdi then clone_child q
      else if d = parent \<and> di = pdi then clone_parent q else q)" if "\<not> pt_leaf (pmem t d di)"
    unfolding yd pte [OF that] gq by (simp del: pte_of.simps)
  have fl: "pte_of t y AND 1 = 0 \<longleftrightarrow> q AND 1 = 0"
    "q AND 1 \<noteq> 0 \<Longrightarrow> pte_of t y AND 0xFFFFF000 = q AND 0xFFFFF000" if "\<not> pt_leaf (pmem t d di)"
    unfolding pt [OF that] using clone_entry_flags [of q] by presburger+
  have ms: "mapped t y \<longleftrightarrow> \<not> pt_leaf (pmem t d di) \<and> pte_of t y AND 1 \<noteq> 0"
    "mapped s ?g \<longleftrightarrow> \<not> pt_leaf (pmem t d di) \<and> q AND 1 \<noteq> 0"
    using lg by (simp add: yd, cases "?g", simp add: q_def)
  have m: "mapped t y = mapped s ?g" using ms fl(1) by blast
  have fr: "frame_of t y = frame_of s ?g" if "mapped t y"
    using that ms fl by (simp add: frame_of_def q_def)
  have v: "view t y = view s ?g"
  proof (cases "mapped t y")
    case True
    then have "frame_of s ?g \<notin> usable s" "data_frame (insert child D) s (frame_of s ?g)"
      using C(1) g m unfolding frames_ok_alt by blast+
    then have "pmem t (frame_of s ?g) = pmem s (frame_of s ?g)"
      using C by (auto simp: data_frame_def)
    then show ?thesis using True m fr by (simp add: view_def)
  qed (use m in \<open>simp add: view_def\<close>)
  have ro: "\<not> cow_writable (pte_of t y)" if "mapped t y" "fst y \<in> {parent, child}" "fst (snd y) \<in> {pdi}"
    using that ms fl(1) pt clone_entry_flags(3,5) [of q] unfolding yd by auto
  have keep: "pte_of t y = pte_of s y" if "mapped t y" "fst (snd y) \<notin> {pdi}"
    using that ms pt gq unfolding yd by auto
  show "mapped t y = mapped s ?g \<and> view t y = view s ?g \<and> (mapped t y \<longrightarrow> frame_of t y = frame_of s ?g)
     \<and> (mapped t y \<longrightarrow> fst y \<in> {parent, child} \<longrightarrow> fst (snd y) \<in> {pdi} \<longrightarrow> \<not> cow_writable (pte_of t y))
     \<and> (mapped t y \<longrightarrow> fst (snd y) \<notin> {pdi} \<longrightarrow> pte_of t y = pte_of s y)"
    using m v fr ro keep by blast
qed

lemma pt_leaf_0 [simp]: "pt_leaf 0"
  by (simp add: pt_leaf_def)

lemma pde_cloned_owners:
  assumes c: "pde_cloned D parent child cpt pdi e s t"
  shows "card (owners (insert child D) t f) =
    card (owners (insert child D) s f) + maps_below (pmem s (pt_of s parent pdi)) 1024 f"
proof -
  let ?J = "{j. j < 1024 \<and> (pmem s (pt_of s parent pdi) j AND 1 \<noteq> 0 \<and> pmem s (pt_of s parent pdi) j AND 0xFFFFF000 = f)}"
  let ?N = "(\<lambda>j. (child, pdi, j)) ` ?J"
  have C: "parent \<in> D" "child \<notin> D" "pdi < 768" "\<not> pt_leaf (pmem s parent pdi)" "pmem s child pdi = 0"
    using c by (auto simp: pde_cloned_def)
  have g: "mapped t y = mapped s (graft parent child {pdi} y)"
    "mapped t y \<Longrightarrow> frame_of t y = frame_of s (graft parent child {pdi} y)"
    if "y \<in> slots (insert child D)" for y
    using pde_cloned_grafted [OF c] that unfolding grafted_def by blast+
  have "y \<in> owners (insert child D) t f \<longleftrightarrow> y \<in> owners (insert child D) s f \<union> ?N" for y
  proof (cases "\<exists>j. y = (child, pdi, j)")
    case True
    then obtain j where y: "y = (child, pdi, j)" by blast
    have gy: "graft parent child {pdi} y = (parent, pdi, j)" by (simp add: graft_def y)
    have "\<not> mapped s y" using C by (simp add: y)
    moreover have "y \<in> ?N \<longleftrightarrow> y \<in> slots (insert child D) \<and> mapped s (parent, pdi, j) \<and> frame_of s (parent, pdi, j) = f"
      using C by (auto simp: y slots_def frame_of_def)
    ultimately show ?thesis using g [of y] by (auto simp: owners_def gy)
  next
    case False
    then have gy: "graft parent child {pdi} y = y" by (cases y) (auto simp: graft_def)
    have "y \<notin> ?N" using False by auto
    then show ?thesis using g [of y] by (auto simp: owners_def gy)
  qed
  then have e: "owners (insert child D) t f = owners (insert child D) s f \<union> ?N" by blast
  have "owners (insert child D) s f \<inter> ?N = {}" using C by (auto simp: owners_def)
  moreover have "card ?N = card ?J" by (rule card_image) (auto intro: inj_onI)
  ultimately show ?thesis unfolding e maps_below_def
    by (subst card_Un_disjoint) auto
qed

lemma pde_cloned_vm_ok:
  assumes c: "pde_cloned D parent child cpt pdi e s t"
  shows "vm_ok (insert child D) t"
proof -
  let ?D = "insert child D"
  have F: "frames_ok ?D s" and R: "refs_ok ?D s" and I: "pmm_inv t" and u: "cpt \<in> usable s"
    "usable t = usable s - {cpt}" and P: "parent \<in> D"
    using c by (auto simp: pde_cloned_def vm_ok_def)
  have g: "mapped t y = mapped s (graft parent child {pdi} y)"
    "mapped t y \<Longrightarrow> frame_of t y = frame_of s (graft parent child {pdi} y)"
    if "y \<in> slots ?D" for y
    using pde_cloned_grafted [OF c] that unfolding grafted_def by blast+
  have gs: "graft parent child {pdi} y \<in> slots ?D" if "y \<in> slots ?D" for y
    using that P by (auto simp: graft_def slots_def split: if_splits)
  have df: "frame_of t y \<notin> usable s" "data_frame ?D s (frame_of t y)" if "y \<in> slots ?D" "mapped t y" for y
    using F gs [OF that(1)] g [OF that(1)] that(2) unfolding frames_ok_alt by auto
  have "frames_ok ?D t" unfolding frames_ok_alt
  proof (intro ballI impI)
    fix y assume y: "y \<in> slots ?D" "mapped t y"
    have "frame_of t y \<noteq> cpt" using df [OF y] u by auto
    then have "data_frame ?D t (frame_of t y)"
      using df(2) [OF y] pde_cloned_dirs(2,3) [OF c] unfolding data_frame_def by auto
    then show "frame_of t y \<notin> usable t \<and> data_frame ?D t (frame_of t y)" using df [OF y] u by auto
  qed
  moreover have "refs_ok ?D t" unfolding refs_ok_def
  proof (intro ballI impI)
    fix y assume y: "y \<in> slots ?D" "mapped t y"
    let ?f = "frame_of t y"
    have "?f \<noteq> cpt" "?f AND 0xFFF = 0" using df [OF y] u by (auto simp: frame_of_def)
    then have "unat (page_ref_get ?f t) = unat (page_ref_get ?f s) + maps_below (pmem s (pt_of s parent pdi)) 1024 ?f"
      using c by (auto simp: pde_cloned_def)
    moreover have "unat (page_ref_get ?f s) = card (owners ?D s ?f)"
      using R gs [OF y(1)] g [OF y(1)] y(2) by (auto simp: refs_ok_def)
    ultimately show "unat (page_ref_get ?f t) = card (owners ?D t ?f)"
      by (simp add: pde_cloned_owners [OF c])
  qed
  ultimately show ?thesis using pde_cloned_tables [OF c] I by (simp add: vm_ok_def)
qed

lemma clone_pde_step:
  assumes ok: "vm_ok (insert child D) s" and P: "parent \<in> D" "child \<notin> D" "pdi < 768"
    and e: "pmem s child pdi = 0" "\<not> pt_leaf (pmem s parent pdi)"
    and a: "pmm_alloc_page s = (cpt, u)" "cpt \<noteq> 0"
    and room: "\<And>f. f AND 0xFFF = 0 \<Longrightarrow> unat (page_ref_get f s) + maps_below (pmem s (pt_of s parent pdi)) 1024 f \<le> 250"
  defines "w \<equiv> cpt OR PAGE_PRESENT OR PAGE_RW OR (pmem s parent pdi AND (PAGE_USER OR PAGE_PWT OR PAGE_PCD))"
  shows "pde_cloned D parent child cpt pdi w s
    (fold (clone_pte (pt_of s parent pdi) cpt) [0..<1024] (pm_set child pdi w u))" (is "pde_cloned _ _ _ _ _ _ _ ?t")
proof -
  let ?D = "insert child D" and ?ppt = "pt_of s parent pdi" and ?v = "pm_set child pdi w u"
  have T: "tables_ok ?D s" and F: "frames_ok ?D s" and R: "refs_ok ?D s" and I: "pmm_inv s"
    using ok by (simp_all add: vm_ok_def)
  have us: "usable s \<noteq> {}" using pages.alloc_miss [OF I] a by auto
  have n: "cpt \<in> usable s" "usable u = usable s - {cpt}" using pages.alloc_hit [OF I a(1) us] by auto
  have Iu: "pmm_inv u" and Mu: "pmem u = pmem s"
    using pages.alloc_inv [OF I a(1)] pmm_alloc_page_memory [OF I a(1)] by auto
  have pf: "?ppt \<notin> usable s" "?ppt \<notin> ?D" "cpt \<notin> ?D" using T P e n(1) by (auto simp: tables_ok_def)
  have tabv: "pmem ?v ?ppt = pmem s ?ppt" using pf by (simp add: Mu)
  have gv: "page_ref_get f ?v = (if f = cpt then 1 else page_ref_get f s)" if "f AND 0xFFF = 0" for f
    using page_ref_get_alloc [OF I a that] by simp
  have mapd: "mapped s (parent, pdi, j) \<longleftrightarrow> pmem s ?ppt j AND 1 \<noteq> 0" "frame_of s (parent, pdi, j) = pmem s ?ppt j AND 0xFFFFF000"
    for j using e by (simp_all add: frame_of_def)
  have sl: "(parent, pdi, j) \<in> slots ?D" if "j < 1024" for j using that P by (simp add: slots_def)
  have "pmem s ?ppt j AND 0xFFFFF000 \<noteq> cpt" if "j < 1024" "pmem s ?ppt j AND 1 \<noteq> 0" for j
    using F sl [OF that(1)] mapd [of j] that(2) n(1) unfolding frames_ok_alt by metis
  then have nocpt: "maps_below (pmem s ?ppt) 1024 cpt = 0" unfolding maps_below_def by auto
  have "table_cloned 1024 ?ppt cpt ?v ?t"
  proof (rule clone_pte_fold)
    show "cpt \<noteq> ?ppt" "pmm_inv ?v" using pf n(1) Iu by auto
    show "unat (page_ref_get f ?v) + maps_below (pmem ?v ?ppt) 1024 f \<le> 250" for f
    proof (cases "f AND 0xFFF = 0")
      case True
      then show ?thesis using gv [OF True] room [OF True] nocpt unfolding tabv by auto
    next
      case False
      then show ?thesis by (simp add: page_ref_get_def page_ref_ok_def maps_below_unaligned del: pmem_pm_set)
    qed
    fix j assume j: "j < 1024" "pmem ?v ?ppt j AND 1 \<noteq> 0"
    let ?f = "frame_of s (parent, pdi, j)"
    have m: "mapped s (parent, pdi, j)" using j(2) unfolding tabv mapd(1) .
    have "(parent, pdi, j) \<in> owners ?D s ?f" using m sl j by (simp add: owners_def del: mapped.simps)
    then have "0 < card (owners ?D s ?f)" using card_gt_0_iff finite_owners by blast
    then have "page_ref_get ?f s \<noteq> 0" using R sl [OF j(1)] m by (auto simp: refs_ok_def simp del: mapped.simps)
    moreover have "?f AND 0xFFF = 0" by (simp add: frame_of_def)
    moreover have "?f \<noteq> cpt" using F sl [OF j(1)] m n(1) unfolding frames_ok_alt by blast
    ultimately show "page_ref_get (pmem ?v ?ppt j AND 0xFFFFF000) ?v \<noteq> 0"
      using gv [of ?f] unfolding tabv mapd(2) [symmetric] by simp
  qed
  note tc = this [unfolded table_cloned_def tabv]
  have al: "cpt AND 0xFFF = 0" using usable_aligned [OF n(1)] .
  have pm: "pmem ?t f = (if f = ?ppt then (\<lambda>i. if i < 1024 then clone_parent (pmem s ?ppt i) else pmem s ?ppt i)
      else if f = cpt then (\<lambda>i. if i < 1024 then clone_child (pmem s ?ppt i) else pmem s cpt i)
      else if f = child then (pmem s child)(pdi := w) else pmem s f)" for f
    using tc pf n(1) by (auto simp: Mu fun_eq_iff)
  have "\<forall>f. f AND 0xFFF = 0 \<longrightarrow> f \<noteq> cpt \<longrightarrow> unat (page_ref_get f ?t) =
      unat (page_ref_get f s) + maps_below (pmem s ?ppt) 1024 f"
    using tc gv by auto
  moreover have "page_ref_get cpt ?t = 1" using tc gv [OF al] nocpt al by (auto intro: unat_eqI)
  moreover have "usable ?t = usable s - {cpt}" "pmm_inv ?t" using tc n(2) by auto
  moreover have "\<not> pt_leaf w" "w AND 0xFFFFF000 = cpt" unfolding w_def by (rule child_pde [OF al])+
  ultimately show ?thesis
    using ok P e n(1) pm pf unfolding pde_cloned_def by auto
qed

section \<open>The whole directory\<close>

lemma grafted_skip:
  assumes "pt_leaf (pmem s parent pdi)" "pmem s child pdi = 0"
  shows "grafted D parent child {pdi} s s"
  unfolding grafted_def
proof (intro ballI)
  fix y assume "y \<in> slots (insert child D)"
  obtain d di ti where y: "y = (d, di, ti)" by (cases y)
  show "mapped s y = mapped s (graft parent child {pdi} y) \<and> view s y = view s (graft parent child {pdi} y)
     \<and> (mapped s y \<longrightarrow> frame_of s y = frame_of s (graft parent child {pdi} y))
     \<and> (mapped s y \<longrightarrow> fst y \<in> {parent, child} \<longrightarrow> fst (snd y) \<in> {pdi} \<longrightarrow> \<not> cow_writable (pte_of s y))
     \<and> (mapped s y \<longrightarrow> fst (snd y) \<notin> {pdi} \<longrightarrow> pte_of s y = pte_of s y)"
    using assms by (auto simp: y graft_def view_def)
qed

lemma graft_slots: "parent \<in> D \<Longrightarrow> y \<in> slots (insert child D) \<Longrightarrow> graft parent child R y \<in> slots (insert child D)"
  by (auto simp: graft_def slots_def split: if_splits)

lemma grafted_trans:
  assumes a: "grafted D parent child R s t" and b: "grafted D parent child Q t u"
    and P: "parent \<in> D" "child \<notin> D" "R \<inter> Q = {}"
  shows "grafted D parent child (R \<union> Q) s u"
  unfolding grafted_def
proof (intro ballI)
  fix y assume y: "y \<in> slots (insert child D)"
  let ?h = "graft parent child Q y" and ?g = "graft parent child (R \<union> Q) y"
  have h: "?h \<in> slots (insert child D)" by (rule graft_slots [OF P(1) y])
  have g: "graft parent child R ?h = ?g" using P by (auto simp: graft_def)
  note A = a [unfolded grafted_def, rule_format, OF h, unfolded g]
    and A' = a [unfolded grafted_def, rule_format, OF y]
    and B = b [unfolded grafted_def, rule_format, OF y]
  have id: "?h = y" if "fst (snd y) \<notin> Q" using that by (simp add: graft_def)
  have ro: "\<not> cow_writable (pte_of u y)" if "mapped u y" "fst y \<in> {parent, child}" "fst (snd y) \<in> R \<union> Q"
  proof (cases "fst (snd y) \<in> Q")
    case True
    then show ?thesis using B that by blast
  next
    case False
    then have "mapped t y" "pte_of u y = pte_of t y" using B that id by simp_all
    then show ?thesis using A' that False by auto
  qed
  have keep: "pte_of u y = pte_of s y" if "mapped u y" "fst (snd y) \<notin> R \<union> Q"
  proof -
    have "mapped t y" "pte_of u y = pte_of t y" using B that id by simp_all
    then show ?thesis using A' that by simp
  qed
  show "mapped u y = mapped s ?g \<and> view u y = view s ?g \<and> (mapped u y \<longrightarrow> frame_of u y = frame_of s ?g)
     \<and> (mapped u y \<longrightarrow> fst y \<in> {parent, child} \<longrightarrow> fst (snd y) \<in> R \<union> Q \<longrightarrow> \<not> cow_writable (pte_of u y))
     \<and> (mapped u y \<longrightarrow> fst (snd y) \<notin> R \<union> Q \<longrightarrow> pte_of u y = pte_of s y)"
    using A B ro keep by auto
qed

lemma pde_cloned_maps_under:
  assumes c: "pde_cloned D parent child cpt pdi e s t" and r: "pdi \<notin> set r" "set r \<subseteq> {..<768}"
  shows "maps_under t parent r f = maps_under s parent r f"
  unfolding maps_under_def
proof (rule arg_cong [where f = sum_list], rule map_cong [OF refl])
  fix di assume di: "di \<in> set r"
  have P: "parent \<in> insert child D" "parent \<noteq> child" "parent \<in> D" and T: "tables_ok (insert child D) s"
    and C: "cpt \<in> usable s" "pdi < 768" "\<not> pt_leaf (pmem s parent pdi)"
    using c by (auto simp: pde_cloned_def vm_ok_def)
  note d = pde_cloned_dirs [OF c P(1)]
  have pp: "pmem t parent = pmem s parent" "pt_of t parent di = pt_of s parent di" using d P by auto
  have "pmem t (pt_of s parent di) = pmem s (pt_of s parent di)" if nl: "\<not> pt_leaf (pmem s parent di)"
  proof -
    have "di < 768" "di \<noteq> pdi" using di r by auto
    then have "pt_of s parent di \<noteq> pt_of s parent pdi" "pt_of s parent di \<noteq> cpt" "pt_of s parent di \<noteq> child"
      using T P(1) C nl unfolding tables_ok_def by blast+
    then show ?thesis using c by (auto simp: pde_cloned_def)
  qed
  then show "(if pt_leaf (pmem t parent di) then 0 else maps_below (pmem t (pt_of t parent di)) 1024 f) =
      (if pt_leaf (pmem s parent di) then 0 else maps_below (pmem s (pt_of s parent di)) 1024 f)"
    by (simp add: pp)
qed

lemma maps_under_usable:
  assumes F: "frames_ok D s" and P: "pd \<in> D" "set r \<subseteq> {..<768}" and f: "f \<in> usable s"
  shows "maps_under s pd r f = 0"
proof -
  have "maps_below (pmem s (pt_of s pd di)) 1024 f = 0" if di: "di \<in> set r" "\<not> pt_leaf (pmem s pd di)" for di
  proof -
    have "pmem s (pt_of s pd di) j AND 0xFFFFF000 \<noteq> f" if "j < 1024" "pmem s (pt_of s pd di) j AND 1 \<noteq> 0" for j
    proof -
      have "(pd, di, j) \<in> slots D" "mapped s (pd, di, j)" using that di P by (auto simp: slots_def)
      then have "frame_of s (pd, di, j) \<notin> usable s" using F unfolding frames_ok_alt by blast
      then show ?thesis using f by (auto simp: frame_of_def)
    qed
    then show ?thesis unfolding maps_below_def by auto
  qed
  then show ?thesis by (auto simp: maps_under_def)
qed

text \<open>What the loop needs of the indices \<open>r\<close> still to come: the child has nothing there,
  and no reference count can reach the saturation limit.\<close>

definition clone_pre :: "u32 set \<Rightarrow> u32 \<Rightarrow> u32 \<Rightarrow> nat list \<Rightarrow> 'a paging_scheme \<Rightarrow> bool" where
  "clone_pre D parent child r s \<longleftrightarrow> vm_ok (insert child D) s \<and> parent \<in> D \<and> child \<notin> D
     \<and> distinct r \<and> set r \<subseteq> {..<768} \<and> (\<forall>pdi \<in> set r. pmem s child pdi = 0)
     \<and> (\<forall>f. f AND 0xFFF = 0 \<longrightarrow> unat (page_ref_get f s) + maps_under s parent r f \<le> 250)"

lemma clone_pre_leaf:
  "clone_pre D parent child (pdi # r) s \<Longrightarrow> pt_leaf (pmem s parent pdi) \<Longrightarrow> clone_pre D parent child r s"
  by (simp add: clone_pre_def maps_under_def)

lemma clone_pre_step:
  assumes pre: "clone_pre D parent child (pdi # r) s" and nl: "\<not> pt_leaf (pmem s parent pdi)"
    and a: "pmm_alloc_page s = (cpt, u)" "cpt \<noteq> 0"
  obtains w v where "pde_cloned D parent child cpt pdi w s v" "clone_pre D parent child r v"
    "clone_pdes (pdi # r) parent child s = clone_pdes r parent child v"
proof -
  note p = pre [unfolded clone_pre_def]
  define w where "w = cpt OR PAGE_PRESENT OR PAGE_RW OR (pmem s parent pdi AND (PAGE_USER OR PAGE_PWT OR PAGE_PCD))"
  define v where "v = fold (clone_pte (pt_of s parent pdi) cpt) [0..<1024] (pm_set child pdi w u)"
  have un: "maps_under s parent (pdi # r) f = maps_below (pmem s (pt_of s parent pdi)) 1024 f + maps_under s parent r f"
    for f using nl by (simp add: maps_under_def)
  have room: "unat (page_ref_get f s) + (maps_below (pmem s (pt_of s parent pdi)) 1024 f + maps_under s parent r f) \<le> 250"
    if "f AND 0xFFF = 0" for f using p that unfolding un by blast
  have c: "pde_cloned D parent child cpt pdi w s v" unfolding v_def w_def
  proof (rule clone_pde_step)
    show "unat (page_ref_get f s) + maps_below (pmem s (pt_of s parent pdi)) 1024 f \<le> 250"
      if "f AND 0xFFF = 0" for f using room [OF that] by linarith
  qed (use p nl a in auto)
  have mu: "maps_under v parent r f = maps_under s parent r f" for f
    by (rule pde_cloned_maps_under [OF c]) (use p in auto)
  have "unat (page_ref_get f v) + maps_under v parent r f \<le> 250" if fa: "f AND 0xFFF = 0" for f
  proof (cases "f = cpt")
    case True
    have "maps_under s parent r cpt = 0"
      by (rule maps_under_usable [of "insert child D"]) (use c p in \<open>auto simp: pde_cloned_def vm_ok_def\<close>)
    then show ?thesis using c True by (simp add: mu pde_cloned_def)
  next
    case False
    then show ?thesis using c fa room [OF fa] by (auto simp: mu pde_cloned_def)
  qed
  moreover have "\<forall>di \<in> set r. pmem v child di = 0" using c p by (auto simp: pde_cloned_def)
  ultimately have "clone_pre D parent child r v"
    using p pde_cloned_vm_ok [OF c] by (simp add: clone_pre_def)
  moreover have "clone_pdes (pdi # r) parent child s = clone_pdes r parent child v"
    using nl a by (simp add: pt_of_def Let_def v_def w_def)
  ultimately show thesis using that c by blast
qed

lemma clone_pdes_grafts:
  assumes "clone_pdes r parent child s = (None, t)" "clone_pre D parent child r s"
  shows "vm_ok (insert child D) t \<and> grafted D parent child (set r) s t"
  using assms
proof (induction r arbitrary: s)
  case Nil
  then show ?case by (simp add: grafted_def graft_def clone_pre_def)
next
  case (Cons pdi r)
  note p = Cons.prems(2) [unfolded clone_pre_def]
  have P: "parent \<in> D" "child \<notin> D" "{pdi} \<inter> set r = {}" using p by auto
  show ?case
  proof (cases "pt_leaf (pmem s parent pdi)")
    case True
    have g: "grafted D parent child {pdi} s s" by (rule grafted_skip [OF True]) (use p in auto)
    have "vm_ok (insert child D) t \<and> grafted D parent child (set r) s t"
      using Cons.IH [of s] Cons.prems(1) clone_pre_leaf [OF Cons.prems(2) True] True by simp
    then show ?thesis using grafted_trans [OF g _ P] by auto
  next
    case False
    obtain cpt u where a: "pmm_alloc_page s = (cpt, u)" by fastforce
    have "cpt \<noteq> 0" using Cons.prems(1) False a by auto
    then obtain w v where c: "pde_cloned D parent child cpt pdi w s v" "clone_pre D parent child r v"
      "clone_pdes (pdi # r) parent child s = clone_pdes r parent child v"
      using clone_pre_step [OF Cons.prems(2) False a] by blast
    then have "vm_ok (insert child D) t \<and> grafted D parent child (set r) v t"
      using Cons.IH Cons.prems(1) by simp
    then show ?thesis using grafted_trans [OF pde_cloned_grafted [OF c(1)] _ P] by auto
  qed
qed

text \<open>The loop finds a page table for every present index as long as frames are free.\<close>

lemma clone_pdes_succeeds:
  assumes "clone_pre D parent child r s"
    and "length (filter (\<lambda>i. \<not> pt_leaf (pmem s parent i)) r) \<le> card (usable s)"
  shows "\<exists>t. clone_pdes r parent child s = (None, t)"
  using assms
proof (induction r arbitrary: s)
  case Nil
  then show ?case by simp
next
  case (Cons pdi r)
  note p = Cons.prems(1) [unfolded clone_pre_def]
  show ?case
  proof (cases "pt_leaf (pmem s parent pdi)")
    case True
    then show ?thesis using Cons.IH [of s] Cons.prems clone_pre_leaf [OF Cons.prems(1) True] by simp
  next
    case False
    have I: "pmm_inv s" using p by (simp add: vm_ok_def)
    obtain cpt u where a: "pmm_alloc_page s = (cpt, u)" by fastforce
    have "usable s \<noteq> {}" using Cons.prems(2) False by auto
    then have n: "cpt \<in> usable s" using pages.alloc_hit [OF I a] by blast
    then have "cpt \<noteq> 0" using pages.no_zero by metis
    then obtain w v where c: "pde_cloned D parent child cpt pdi w s v" "clone_pre D parent child r v"
      "clone_pdes (pdi # r) parent child s = clone_pdes r parent child v"
      using clone_pre_step [OF Cons.prems(1) False a] by blast
    have "pmem v parent = pmem s parent" using pde_cloned_dirs(1) [OF c(1), of parent] p by auto
    moreover have "usable v = usable s - {cpt}" using c(1) by (simp add: pde_cloned_def)
    ultimately show ?thesis using Cons.IH [OF c(2)] c(3) Cons.prems(2) False n by simp
  qed
qed

text \<open>The two states of the same address spaces: they may differ in the kernel half of
  the directories only.\<close>

definition same_user :: "u32 set \<Rightarrow> 'a paging_scheme \<Rightarrow> 'a paging_scheme \<Rightarrow> bool" where
  "same_user D s u \<longleftrightarrow> (\<forall>d \<in> D. \<forall>i < 768. pmem u d i = pmem s d i) \<and> (\<forall>f. f \<notin> D \<longrightarrow> pmem u f = pmem s f)
     \<and> usable u = usable s \<and> (pmm_inv u = pmm_inv s) \<and> (\<forall>f. page_ref_get f u = page_ref_get f s)"

lemma same_user_slots:
  assumes u: "same_user D s u" and T: "tables_ok D s" and y: "y \<in> slots D"
  shows "mapped u y = mapped s y" and "mapped s y \<Longrightarrow> pte_of u y = pte_of s y"
    and "frames_ok D s \<Longrightarrow> view u y = view s y"
proof -
  obtain d di ti where yd: "y = (d, di, ti)" by (cases y)
  have y': "d \<in> D" "di < 768" using y yd by (auto simp: slots_def)
  have e: "pmem u d di = pmem s d di" "pt_of u d di = pt_of s d di" using u y' by (auto simp: same_user_def pt_of_def)
  have p: "pte_of u y = pte_of s y" if "\<not> pt_leaf (pmem s d di)"
  proof -
    have "pt_of s d di \<notin> D" using T y' that by (auto simp: tables_ok_def)
    then show ?thesis using u e by (simp add: yd same_user_def)
  qed
  show m: "mapped u y = mapped s y" using e p by (auto simp: yd)
  show "mapped s y \<Longrightarrow> pte_of u y = pte_of s y" using p by (auto simp: yd)
  show "view u y = view s y" if F: "frames_ok D s"
  proof (cases "mapped s y")
    case True
    then have "frame_of u y = frame_of s y" using p by (auto simp: yd frame_of_def)
    moreover have "frame_of s y \<notin> D" using F y True by (auto simp: frames_ok_alt data_frame_def)
    ultimately show ?thesis using m True u by (simp add: view_def same_user_def)
  qed (use m in \<open>simp add: view_def\<close>)
qed

lemma same_user_vm_ok:
  assumes u: "same_user D s u" and ok: "vm_ok D s"
  shows "vm_ok D u"
proof -
  have T: "tables_ok D s" and F: "frames_ok D s" and R: "refs_ok D s" and I: "pmm_inv s"
    using ok by (simp_all add: vm_ok_def)
  have e: "pmem u d di = pmem s d di" "pt_of u d di = pt_of s d di" if "d \<in> D" "di < 768" for d di
    using u that by (auto simp: same_user_def pt_of_def)
  have us: "usable u = usable s" "pmm_inv u" "\<And>f. page_ref_get f u = page_ref_get f s"
    using u I by (auto simp: same_user_def)
  note sl = same_user_slots [OF u T]
  have fr: "frame_of u y = frame_of s y" if "y \<in> slots D" "mapped s y" for y
    using sl(2) [OF that] by (simp add: frame_of_def)
  have "tables_ok D u" using T unfolding tables_ok_def us by (simp add: e)
  moreover have df: "data_frame D u f = data_frame D s f" for f by (simp add: data_frame_def e)
  have "frames_ok D u" using F sl(1) fr unfolding frames_ok_alt us df by auto
  moreover have "owners D u f = owners D s f" for f using sl(1) fr by (auto simp: owners_def)
  then have "refs_ok D u" using R sl(1) fr us by (auto simp: refs_ok_def)
  ultimately show ?thesis using us by (simp add: vm_ok_def)
qed

section \<open>The clone\<close>

lemma kernel_half_copy:
  "pmem (fold (\<lambda>k v. pm_set c k (pmem v p k) v) ks s) f = (if f = c then
     (\<lambda>i. if i \<in> set ks then pmem s p i else pmem s c i) else pmem s f)
   \<and> usable (fold (\<lambda>k v. pm_set c k (pmem v p k) v) ks s) = usable s
   \<and> pmm_inv (fold (\<lambda>k v. pm_set c k (pmem v p k) v) ks s) = pmm_inv s
   \<and> page_ref_get g (fold (\<lambda>k v. pm_set c k (pmem v p k) v) ks s) = page_ref_get g s"
  if "p \<noteq> c"
  using that by (induction ks arbitrary: s) (auto simp: fun_eq_iff)

lemma new_directory:
  assumes ok: "vm_ok D s" and a: "pmm_alloc_page s = (child, u)" "child \<noteq> 0"
  shows "child \<notin> D" "vm_ok (insert child D) (pm_zero child u)"
    and "y \<in> slots D \<Longrightarrow> view (pm_zero child u) y = view s y"
    and "usable u = usable s - {child}" "child \<in> usable s"
    and "f AND 0xFFF = 0 \<Longrightarrow> page_ref_get f (pm_zero child u) = (if f = child then 1 else page_ref_get f s)"
    and "pmem (pm_zero child u) = (pmem s)(child := (\<lambda>_. 0))"
proof -
  let ?z = "pm_zero child u" and ?D = "insert child D"
  have T: "tables_ok D s" and F: "frames_ok D s" and R: "refs_ok D s" and I: "pmm_inv s"
    using ok by (simp_all add: vm_ok_def)
  have us: "usable s \<noteq> {}" using pages.alloc_miss [OF I] a by auto
  show n: "child \<in> usable s" and n2: "usable u = usable s - {child}" using pages.alloc_hit [OF I a(1) us] by auto
  have Iu: "pmm_inv u" and Mu: "pmem u = pmem s"
    using pages.alloc_inv [OF I a(1)] pmm_alloc_page_memory [OF I a(1)] by auto
  show cD: "child \<notin> D" using T n by (auto simp: tables_ok_def)
  show M: "pmem ?z = (pmem s)(child := (\<lambda>_. 0))" by (simp add: Mu)
  show g: "page_ref_get f ?z = (if f = child then 1 else page_ref_get f s)" if "f AND 0xFFF = 0" for f
    using page_ref_get_alloc [OF I a that] by simp
  have pt: "pt_of s d di \<notin> usable s" "pt_of s d di \<notin> D" if "d \<in> D" "di < 768" "\<not> pt_leaf (pmem s d di)" for d di
    using T that by (auto simp: tables_ok_def)
  have dirs: "pmem ?z d = pmem s d" "pt_of ?z d di = pt_of s d di" if "d \<in> D" for d di
    using that cD by (auto simp: Mu pt_of_def)
  have leafc: "pt_leaf (pmem ?z child di)" for di by (simp add: Mu)
  have sl: "pte_of ?z y = pte_of s y" if "y \<in> slots D" "mapped s y" for y
  proof -
    obtain d di ti where y: "y = (d, di, ti)" by (cases y)
    have "pt_of s d di \<noteq> child" using pt [of d di] that n by (auto simp: y slots_def)
    then show ?thesis using that dirs by (auto simp: y slots_def Mu)
  qed
  have mp: "mapped ?z y = mapped s y" if "y \<in> slots D" for y
  proof -
    obtain d di ti where y: "y = (d, di, ti)" by (cases y)
    have "pt_of s d di \<noteq> child" if "\<not> pt_leaf (pmem s d di)"
      using pt [of d di] that \<open>y \<in> slots D\<close> n by (auto simp: y slots_def)
    then show ?thesis using that dirs cD by (auto simp: y slots_def Mu pt_of_def)
  qed
  have fr: "frame_of ?z y = frame_of s y" if "y \<in> slots D" "mapped s y" for y
    using sl [OF that] by (simp add: frame_of_def)
  have cm: "y \<in> slots D" if "y \<in> slots ?D" "mapped ?z y" for y
    using that leafc by (cases y) (auto simp: slots_def)
  have Dz: "slots D \<subseteq> slots ?D" by (auto simp: slots_def)
  have fz: "frame_of s y \<notin> usable s" "data_frame D s (frame_of s y)" if "y \<in> slots D" "mapped s y" for y
    using F that unfolding frames_ok_alt by blast+
  show "view ?z y = view s y" if y: "y \<in> slots D" for y
  proof (cases "mapped s y")
    case True
    then have "frame_of s y \<noteq> child" using fz [OF y] n by auto
    then show ?thesis using mp [OF y] fr [OF y True] True by (simp add: view_def Mu)
  qed (use mp [OF y] in \<open>simp add: view_def\<close>)
  have "tables_ok ?D ?z"
  proof -
    have "d \<in> D" if "d \<in> ?D" "\<not> pt_leaf (pmem ?z d di)" for d di using that leafc by auto
    then show ?thesis using T n n2 pt dirs unfolding tables_ok_def
      by (auto simp: tables_ok_def)
  qed
  moreover have "frames_ok ?D ?z" unfolding frames_ok_alt
  proof (intro ballI impI)
    fix y assume y: "y \<in> slots ?D" "mapped ?z y"
    have s: "y \<in> slots D" "mapped s y" using cm [OF y] mp [OF cm [OF y]] y(2) by blast+
    show "frame_of ?z y \<notin> usable ?z \<and> data_frame ?D ?z (frame_of ?z y)"
      using fz [OF s] fr [OF s] n n2 leafc dirs by (auto simp: data_frame_def)
  qed
  moreover have "refs_ok ?D ?z" unfolding refs_ok_def
  proof (intro ballI impI)
    fix y assume y: "y \<in> slots ?D" "mapped ?z y"
    have s: "y \<in> slots D" "mapped s y" using cm [OF y] mp [OF cm [OF y]] y(2) by blast+
    have "x \<in> owners ?D ?z g \<longleftrightarrow> x \<in> owners D s g" for x g
    proof (cases "x \<in> slots D")
      case True
      then have "x \<in> slots ?D" using Dz by blast
      then show ?thesis using True mp [OF True] fr [OF True] unfolding owners_def mem_Collect_eq by metis
    next
      case False
      then show ?thesis using cm [of x] unfolding owners_def mem_Collect_eq by metis
    qed
    then have "owners ?D ?z g = owners D s g" for g by blast
    moreover have "frame_of s y \<noteq> child" using fz [OF s] n by auto
    ultimately show "unat (page_ref_get (frame_of ?z y) ?z) = card (owners ?D ?z (frame_of ?z y))"
      using R s fr [OF s] g [of "frame_of s y"] by (simp add: refs_ok_def frame_of_def del: pte_of.simps)
  qed
  ultimately show "vm_ok ?D ?z" using Iu by (simp add: vm_ok_def)
qed

lemma clone_pre_init:
  assumes ok: "vm_ok D s" and P: "parent \<in> D"
    and room: "\<And>f. f AND 0xFFF = 0 \<Longrightarrow> unat (page_ref_get f s) + maps_under s parent user_pdis f \<le> 250"
    and a: "pmm_alloc_page s = (child, u)" "child \<noteq> 0"
  shows "clone_pre D parent child user_pdis (pm_zero child u)"
proof -
  note n = new_directory [OF ok a]
  have T: "tables_ok D s" and F: "frames_ok D s" using ok by (simp_all add: vm_ok_def)
  have pd: "pmem (pm_zero child u) parent = pmem s parent" using n(1,7) P by auto
  have pt: "pmem (pm_zero child u) (pt_of s parent di) = pmem s (pt_of s parent di)"
    if "di \<in> set user_pdis" "\<not> pt_leaf (pmem s parent di)" for di
  proof -
    have "pt_of s parent di \<notin> usable s" using T P that by (auto simp: tables_ok_def user_pdis_def)
    then show ?thesis using n(5,7) by auto
  qed
  have "maps_under (pm_zero child u) parent user_pdis f = maps_under s parent user_pdis f" for f
    unfolding maps_under_def
    by (rule arg_cong [where f = sum_list], rule map_cong [OF refl]) (use pd pt in \<open>simp add: pt_of_def\<close>)
  moreover have "maps_under s parent user_pdis child = 0"
    by (rule maps_under_usable [OF F P]) (use n in \<open>auto simp: user_pdis_def\<close>)
  ultimately have "unat (page_ref_get f (pm_zero child u)) + maps_under (pm_zero child u) parent user_pdis f \<le> 250"
    if "f AND 0xFFF = 0" for f
    using n(6) [OF that] room [OF that] by (cases "f = child") auto
  then show ?thesis
    using n(1,2,7) P by (auto simp: clone_pre_def user_pdis_def)
qed

text \<open>Property C6: a successful copy-on-write clone gives a new address space that sees,
  page by page, what the parent sees; no view of any other address space changes,
  neither parent nor child keeps a writable user page, and the invariant of tables,
  frames and reference counts holds for the enlarged set of address spaces.  The
  hypothesis on the counts says that no count can reach its saturation limit of 250.\<close>

theorem clone_shares:
  assumes ok: "vm_ok D s" and P: "parent \<in> D"
    and room: "\<And>f. f AND 0xFFF = 0 \<Longrightarrow> unat (page_ref_get f s) + maps_under s parent user_pdis f \<le> 250"
    and r: "paging_clone_address_space parent s = (0, child, t)"
  shows "child \<notin> D \<and> vm_ok (insert child D) t \<and> (\<forall>y \<in> slots D. view t y = view s y)
    \<and> (\<forall>x \<in> {..<768} \<times> {..<1024}. view t (child, x) = view s (parent, x))
    \<and> (\<forall>y \<in> slots {parent, child}. mapped t y \<longrightarrow> \<not> cow_writable (pte_of t y))"
proof -
  obtain c u where a: "pmm_alloc_page s = (c, u)" by fastforce
  have nz: "c \<noteq> 0" using r a by (auto simp: paging_clone_address_space_def split: if_splits)
  obtain v where v: "clone_pdes user_pdis parent c (pm_zero c u) = (None, v)" "child = c"
      "t = fold (\<lambda>k v. pm_set c k (pmem v parent k) v) kernel_pdis v"
    using r a nz by (auto simp: paging_clone_address_space_def split: if_splits prod.splits option.splits)
  note n = new_directory [OF ok a nz]
  let ?D = "insert c D" and ?z = "pm_zero c u"
  have G: "vm_ok ?D v" "grafted D parent c (set user_pdis) ?z v"
    using clone_pdes_grafts [OF v(1) clone_pre_init [OF ok P room a nz]] by auto
  have pc: "parent \<noteq> c" using P n(1) by blast
  have su: "same_user ?D v t"
    unfolding v(3) same_user_def using kernel_half_copy [OF pc, of kernel_pdis v] by (auto simp: kernel_pdis_def simp del: upt_rec_numeral)
  have T: "tables_ok ?D v" "frames_ok ?D v" using G(1) by (simp_all add: vm_ok_def)
  note sl = same_user_slots [OF su T(1)]
  have vt: "view t y = view ?z (graft parent c (set user_pdis) y)" if "y \<in> slots ?D" for y
    using sl(3) [OF that T(2)] G(2) that unfolding grafted_def by simp
  have "view t y = view s y" if y: "y \<in> slots D" for y
  proof -
    have "graft parent c (set user_pdis) y = y" "y \<in> slots ?D" using y n(1) by (auto simp: graft_def slots_def)
    then show ?thesis using vt n(3) [OF y] by simp
  qed
  moreover have "view t (c, x) = view s (parent, x)" if x: "x \<in> {..<768} \<times> {..<1024}" for x
  proof -
    have "graft parent c (set user_pdis) (c, x) = (parent, x)" using x by (auto simp: graft_def user_pdis_def)
    moreover have "(c, x) \<in> slots ?D" "(parent, x) \<in> slots D" using x P by (auto simp: slots_def)
    ultimately show ?thesis using vt n(3) by simp
  qed
  moreover have "\<not> cow_writable (pte_of t y)" if y: "y \<in> slots {parent, c}" "mapped t y" for y
  proof -
    have yD: "y \<in> slots ?D" using y P by (auto simp: slots_def)
    have m: "mapped v y" using sl(1) [OF yD] y(2) by simp
    have "fst y \<in> {parent, c}" "fst (snd y) \<in> set user_pdis" using y(1) by (auto simp: slots_def user_pdis_def)
    then have "\<not> cow_writable (pte_of v y)" using G(2) yD m unfolding grafted_def by blast
    then show ?thesis using sl(2) [OF yD m] by simp
  qed
  ultimately show ?thesis
    using n(1) same_user_vm_ok [OF su G(1)] unfolding v(2) by blast
qed

lemma clone_succeeds:
  assumes "vm_ok D s" "parent \<in> D" "parent \<noteq> 0" "parent AND 0xFFF = 0"
    and "\<And>f. f AND 0xFFF = 0 \<Longrightarrow> unat (page_ref_get f s) + maps_under s parent user_pdis f \<le> 250"
    and "length (filter (\<lambda>i. \<not> pt_leaf (pmem s parent i)) user_pdis) < card (usable s)"
  shows "\<exists>child t. paging_clone_address_space parent s = (0, child, t)"
proof -
  have I: "pmm_inv s" using assms(1) by (simp add: vm_ok_def)
  obtain c u where a: "pmm_alloc_page s = (c, u)" by fastforce
  have "usable s \<noteq> {}" using assms(6) by auto
  then have n: "c \<in> usable s" "usable u = usable s - {c}" using pages.alloc_hit [OF I a] by auto
  then have nz: "c \<noteq> 0" using pages.no_zero by metis
  have "pmem (pm_zero c u) parent = pmem s parent"
    using new_directory(1,7) [OF assms(1) a nz] assms(2) by auto
  then have "length (filter (\<lambda>i. \<not> pt_leaf (pmem (pm_zero c u) parent i)) user_pdis) \<le> card (usable (pm_zero c u))"
    using assms(6) n by simp
  then obtain v where "clone_pdes user_pdis parent c (pm_zero c u) = (None, v)"
    using clone_pdes_succeeds [OF clone_pre_init [OF assms(1,2,5) a nz]] by blast
  then show ?thesis using a nz assms(3,4) by (simp add: paging_clone_address_space_def)
qed

lemma cow_frames_refcnt: "page_refcnt cow_frames = (\<lambda>_. 0)"
proof -
  have m: "page_refcnt (mark_page_free i s) = (\<lambda>_. 0)" if "page_refcnt s = (\<lambda>_. 0)" for i and s :: paging
    using that by (auto simp: mark_page_free_def fun_eq_iff)
  have f: "page_refcnt (fold mark_page_free is s) = (\<lambda>_. 0)" if "page_refcnt s = (\<lambda>_. 0)" for "is" and s :: paging
    using that by (induction "is" arbitrary: s) (auto simp: m)
  show ?thesis unfolding cow_frames_def by (rule f) (simp add: pmm_reset_def)
qed

lemma cow_demo_room:
  "unat (page_ref_get f (cow_demo 0x102007)) + maps_under (cow_demo 0x102007) 0x100000 user_pdis f \<le> 250"
proof -
  have "unat (page_ref_get f (cow_demo 0x102007)) \<le> 1"
    by (simp add: page_ref_get_def cow_demo_pmm cow_frames_refcnt)
  moreover have "maps_under (cow_demo 0x102007) 0x100000 user_pdis f \<le> 1"
  proof -
    have u: "user_pdis = 0 # [Suc 0..<768]" unfolding user_pdis_def by (subst upt_conv_Cons) simp_all
    have z: "(\<Sum>pdi\<leftarrow>[Suc 0..<768]. if pt_leaf (pmem (cow_demo 0x102007) 0x100000 pdi) then 0
        else maps_below (pmem (cow_demo 0x102007) (pt_of (cow_demo 0x102007) 0x100000 pdi)) 1024 f) = 0"
      by (auto simp: cow_demo_mem sum_list_eq_0_iff)
    have "maps_below (pmem (cow_demo 0x102007) 0x101000) 1024 f \<le> card {5 :: nat}"
      unfolding maps_below_def by (rule card_mono) (auto simp: cow_demo_mem split: if_splits)
    then show ?thesis
      unfolding maps_under_def u list.map sum_list.Cons z by (simp add: cow_demo_mem pt_of_def)
  qed
  ultimately show ?thesis by linarith
qed

theorem clone_shares_witness:
  "\<exists>child t. paging_clone_address_space 0x100000 (cow_demo 0x102007) = (0, child, t)
     \<and> view t (child, 0, 5) = view (cow_demo 0x102007) (0x100000, 0, 5)
     \<and> vm_ok {child, 0x100000} t"
proof -
  have ok: "vm_ok {0x100000} (cow_demo 0x102007)" by (rule cow_demo_vm_ok) simp_all
  have "{i. i < 768 \<and> \<not> pt_leaf (pmem (cow_demo 0x102007) 0x100000 i)} = {0}"
    by (auto simp: cow_demo_mem pt_leaf_def split: if_splits)
  then have "length (filter (\<lambda>i. \<not> pt_leaf (pmem (cow_demo 0x102007) 0x100000 i)) user_pdis) = 1"
    by (simp add: user_pdis_def length_filter_conv_card cong: conj_cong)
  then obtain child t where r: "paging_clone_address_space 0x100000 (cow_demo 0x102007) = (0, child, t)"
    using clone_succeeds [OF ok _ _ _ cow_demo_room] by (auto simp: cow_demo_pmm)
  from clone_shares [OF ok _ cow_demo_room r] r show ?thesis by auto
qed

end
