(* ===== verification/Sched.thy ===== *)
theory Sched
  imports Process CowClone
begin

text \<open>
  Properties of the scheduler: the linked ready queue implements a FIFO list
  (\<open>rq\<close> is the abstraction, the locale \<open>ready_fifo\<close> the interface), preemption is
  round-robin over the runnable processes, an exiting child is found by its
  waiting parent, and reaping a queued slot cuts the queue.
\<close>

section \<open>The process table\<close>

lemma proc_proc_upd [simp]:
  "proc (proc_upd i f s) j = (if j = i \<and> i < length (pcb s) then f (proc s i) else proc s j)"
  by (simp add: proc_def proc_upd_def nth_list_update)

lemma proc_upd_fields [simp]:
  "length (pcb (proc_upd i f s)) = length (pcb s)" "ready_head (proc_upd i f s) = ready_head s"
  "ready_tail (proc_upd i f s) = ready_tail s" "current (proc_upd i f s) = current s"
  "preempt_tick_cnt (proc_upd i f s) = preempt_tick_cnt s"
  by (simp_all add: proc_upd_def)

lemma proc_cong: "pcb t = pcb s \<Longrightarrow> proc t i = proc s i"
  by (simp add: proc_def)

lemma proc_field_upd [simp]:
  "proc (s\<lparr>ready_head := h\<rparr>) i = proc s i" "proc (s\<lparr>ready_tail := h\<rparr>) i = proc s i"
  "proc (s\<lparr>current := c\<rparr>) i = proc s i" "proc (s\<lparr>preempt_tick_cnt := k\<rparr>) i = proc s i"
  "proc (s\<lparr>cr3 := k\<rparr>) i = proc s i" "proc (s\<lparr>tss_mem := m\<rparr>) i = proc s i"
  "proc (s\<lparr>pmem := pm\<rparr>) i = proc s i"
  by (simp_all add: proc_def)

text \<open>\<open>sched_same s t\<close>: the two states have the same table, queue and current process;
  operations of the machine and of the memory manager keep them.\<close>

definition sched_same :: "'a procst_scheme \<Rightarrow> 'a procst_scheme \<Rightarrow> bool" where
  "sched_same s t \<longleftrightarrow> pcb t = pcb s \<and> ready_head t = ready_head s \<and> ready_tail t = ready_tail s
     \<and> current t = current s \<and> preempt_tick_cnt t = preempt_tick_cnt s"

lemma sched_same_refl [simp]: "sched_same s s"
  by (simp add: sched_same_def)

lemma sched_same_trans: "sched_same s t \<Longrightarrow> sched_same t u \<Longrightarrow> sched_same s u"
  by (simp add: sched_same_def)

lemma sched_same_fold: "(\<And>x t. sched_same t (f x t)) \<Longrightarrow> sched_same s (fold f xs s)"
proof (induction xs arbitrary: s)
  case (Cons x xs)
  from Cons.IH [of "f x s"] Cons.prems show ?case using sched_same_trans by (metis fold_simps(2))
qed simp

lemma sched_same_machine [simp]:
  "sched_same s (arch_set_tss_esp0 e s)" "sched_same s (switch_cr3 n s)"
  "sched_same s (pm_set f k v s)" "sched_same s (pmm_free_page x s)" "sched_same s (s\<lparr>cr3 := v\<rparr>)"
  "sched_same s (mark_page_used j s)" "sched_same s (s\<lparr>next_page_idx := w\<rparr>)"
  by (simp_all add: sched_same_def arch_set_tss_esp0_def switch_cr3_def pm_set_def pmm_free_page_def
      mark_page_free_def mark_page_used_def bitmap_clear_def bitmap_set_def Let_def)

lemma sched_same_stack_write [simp]: "sched_same s (stack_write k j vs s)"
proof (induction vs arbitrary: s j)
  case (Cons v vs)
  have "sched_same s (stack_put k j v s)" by (simp add: stack_put_def)
  then show ?case using Cons sched_same_trans by fastforce
qed simp

lemma sched_same_ref_dec [simp]: "page_ref_dec p s = (r, t) \<Longrightarrow> sched_same s t"
  by (auto simp: page_ref_dec_def sched_same_def Let_def split: if_splits)

lemma sched_same_destroy_pte [simp]: "sched_same s (destroy_pte pt i s)"
proof -
  obtain r t where d: "page_ref_dec (pmem s pt i AND PAGE_FRAME_MASK) s = (r, t)" by fastforce
  then have "sched_same s t" by (rule sched_same_ref_dec)
  then show ?thesis using sched_same_trans [of s t "pmm_free_page (pmem s pt i AND PAGE_FRAME_MASK) t"]
    by (simp add: destroy_pte_def d Let_def)
qed

lemma sched_same_destroy_pde [simp]: "sched_same s (destroy_pde pd i s)"
proof -
  have "sched_same s (fold (destroy_pte x) [0..<1024] s)" for x by (rule sched_same_fold) simp
  then have "sched_same s (pm_set pd i 0 (pmm_free_page x (fold (destroy_pte x) [0..<1024] s)))" for x
    using sched_same_trans sched_same_machine(3,4) by metis
  then show ?thesis by (simp add: destroy_pde_def Let_def)
qed

lemma sched_same_destroy [simp]: "sched_same s (paging_destroy_address_space pd s)"
proof -
  have "sched_same s (fold (destroy_pde pd) user_pdis s)" by (rule sched_same_fold) simp
  then have "sched_same s (pmm_free_page pd (fold (destroy_pde pd) user_pdis s))"
    using sched_same_trans sched_same_machine(4) by metis
  then show ?thesis by (simp add: paging_destroy_address_space_def)
qed

lemma sched_same_proc: "sched_same s t \<Longrightarrow> proc t i = proc s i"
  by (simp add: sched_same_def proc_def)

section \<open>The queue as a list\<close>

fun chain :: "(nat \<Rightarrow> nat option) \<Rightarrow> nat option \<Rightarrow> nat list \<Rightarrow> bool" where
  "chain n h [] \<longleftrightarrow> h = None"
| "chain n h (x # xs) \<longleftrightarrow> h = Some x \<and> chain n (n x) xs"

definition nxt :: "'a procst_scheme \<Rightarrow> nat \<Rightarrow> nat option" where
  "nxt s i = next_ready (proc s i)"

definition rq :: "'a procst_scheme \<Rightarrow> nat list \<Rightarrow> bool" where
  "rq s xs \<longleftrightarrow> length (pcb s) = MAX_PROCESSES \<and> distinct xs \<and> set xs \<subseteq> {..<MAX_PROCESSES}
     \<and> chain (nxt s) (ready_head s) xs
     \<and> ready_tail s = (if xs = [] then None else Some (last xs))"

lemma nxt_upd [simp]: "nxt (s\<lparr>current := c\<rparr>) = nxt s" "nxt (s\<lparr>preempt_tick_cnt := k\<rparr>) = nxt s"
  by (simp_all add: nxt_def fun_eq_iff)

lemma rq_upd [simp]: "rq (s\<lparr>current := c\<rparr>) xs = rq s xs" "rq (s\<lparr>preempt_tick_cnt := k\<rparr>) xs = rq s xs"
  by (simp_all add: rq_def)

lemma chain_cong: "(\<And>x. x \<in> set xs \<Longrightarrow> m x = n x) \<Longrightarrow> chain m h xs = chain n h xs"
  by (induction xs arbitrary: h) auto

lemma chain_snoc:
  "chain n h xs \<Longrightarrow> xs \<noteq> [] \<Longrightarrow> distinct xs \<Longrightarrow> p \<notin> set xs \<Longrightarrow>
     chain (n(p := None, last xs := Some p)) h (xs @ [p])"
proof (induction xs arbitrary: h)
  case (Cons x xs)
  show ?case
  proof (cases xs)
    case Nil
    then show ?thesis using Cons.prems by auto
  next
    case (Cons y ys)
    have "x \<noteq> last xs" "x \<noteq> p" using Cons.prems Cons by auto
    then show ?thesis using Cons.IH [of "n x"] Cons.prems Cons by simp
  qed
qed simp

lemma chain_unique: "chain n h xs \<Longrightarrow> chain n h ys \<Longrightarrow> xs = ys"
proof (induction xs arbitrary: h ys)
  case Nil
  then show ?case by (cases ys) auto
next
  case (Cons x xs)
  then show ?case by (cases ys) auto
qed

lemma rq_cong:
  assumes "sched_same s t"
  shows "rq t xs = rq s xs"
proof -
  have "nxt t = nxt s" by (simp add: fun_eq_iff nxt_def sched_same_proc [OF assms])
  then show ?thesis using assms by (simp add: rq_def sched_same_def)
qed

lemma rq_proc_upd: "(\<And>q. next_ready (f q) = next_ready q) \<Longrightarrow> rq (proc_upd i f s) xs = rq s xs"
proof -
  assume "\<And>q. next_ready (f q) = next_ready q"
  then have "nxt (proc_upd i f s) = nxt s" by (simp add: fun_eq_iff nxt_def)
  then show ?thesis by (simp add: rq_def)
qed

lemma rq_length: "rq s xs \<Longrightarrow> length (pcb s) = MAX_PROCESSES"
  by (simp add: rq_def)

lemma rq_enqueue:
  assumes q: "rq s xs" and p: "p \<notin> set xs" "p < MAX_PROCESSES"
  shows "rq (ready_enqueue p s) (xs @ [p])"
proof (cases "xs = []")
  case True
  then show ?thesis using q p by (simp add: rq_def ready_enqueue_def nxt_def)
next
  case False
  have t: "ready_tail s = Some (last xs)" using q False by (simp add: rq_def)
  have l: "last xs < MAX_PROCESSES" "last xs \<noteq> p" using q p last_in_set [OF False] by (auto simp: rq_def)
  have n: "nxt (ready_enqueue p s) = (nxt s)(p := None, last xs := Some p)"
    using q l p by (auto simp: ready_enqueue_def nxt_def t fun_eq_iff rq_def)
  have "chain ((nxt s)(p := None, last xs := Some p)) (ready_head s) (xs @ [p])"
    by (rule chain_snoc) (use q p False in \<open>auto simp: rq_def\<close>)
  then show ?thesis using q p n by (simp add: rq_def) (simp add: ready_enqueue_def t)
qed

lemma rq_pop:
  assumes q: "rq s (x # xs)"
  shows "rq (pop_head x s) xs"
proof -
  have x: "x < length (pcb s)" "x \<notin> set xs" using q by (auto simp: rq_def)
  have n: "nxt (pop_head x s) = (nxt s)(x := None)"
    using x by (auto simp: pop_head_def nxt_def fun_eq_iff Let_def)
  have h: "ready_head (pop_head x s) = nxt s x" "ready_tail (pop_head x s) = (if xs = [] then None else ready_tail s)"
    "length (pcb (pop_head x s)) = length (pcb s)"
    using q by (auto simp: pop_head_def nxt_def Let_def rq_def dest: last_in_set)
  have "chain (nxt s) (nxt s x) xs" using q by (simp add: rq_def)
  then have "chain ((nxt s)(x := None)) (nxt s x) xs" using x(2) by (subst chain_cong [of _ _ "nxt s"]) auto
  then show ?thesis using q h n by (auto simp: rq_def)
qed

lemma proc_reap_late [simp]:
  "pstate (proc (reap_late p s) i) = pstate (proc s i)" "next_ready (proc (reap_late p s) i) = next_ready (proc s i)"
  "pid (proc (reap_late p s) i) = pid (proc s i)" "ppid (proc (reap_late p s) i) = ppid (proc s i)"
  "exit_code (proc (reap_late p s) i) = exit_code (proc s i)"
  "sig_pending (proc (reap_late p s) i) = sig_pending (proc s i)"
  by (simp_all add: reap_late_def sched_same_proc [OF sched_same_machine(4)])

lemma proc_pop_head [simp]:
  "pstate (proc (pop_head p s) i) = pstate (proc s i)"
  "pid (proc (pop_head p s) i) = pid (proc s i)" "ppid (proc (pop_head p s) i) = ppid (proc s i)"
  "exit_code (proc (pop_head p s) i) = exit_code (proc s i)"
  "sig_pending (proc (pop_head p s) i) = sig_pending (proc s i)"
  by (simp_all add: pop_head_def Let_def)

lemma reap_late_fields [simp]:
  "current (reap_late p s) = current s" "preempt_tick_cnt (reap_late p s) = preempt_tick_cnt s"
  using sched_same_machine(4) [of s "kstack_phys (proc s p)"]
  by (auto simp: reap_late_def sched_same_def)

lemma pop_head_fields [simp]:
  "current (pop_head p s) = current s" "preempt_tick_cnt (pop_head p s) = preempt_tick_cnt s"
  by (simp_all add: pop_head_def Let_def)

lemma rq_reap_late: "rq (reap_late p s) xs = rq s xs"
  by (simp add: reap_late_def rq_proc_upd rq_cong [OF sched_same_machine(4)])

text \<open>What taking a process from the queue keeps of the table.\<close>

definition ids_same :: "'a procst_scheme \<Rightarrow> 'a procst_scheme \<Rightarrow> bool" where
  "ids_same s t \<longleftrightarrow> current t = current s \<and> preempt_tick_cnt t = preempt_tick_cnt s
     \<and> (\<forall>i. pstate (proc t i) = pstate (proc s i) \<and> pid (proc t i) = pid (proc s i)
         \<and> ppid (proc t i) = ppid (proc s i) \<and> exit_code (proc t i) = exit_code (proc s i)
         \<and> sig_pending (proc t i) = sig_pending (proc s i))"

lemma ids_same_trans: "ids_same s t \<Longrightarrow> ids_same t u \<Longrightarrow> ids_same s u"
  by (simp add: ids_same_def)

lemma pick_next_spec:
  assumes "rq s xs"
  shows "\<exists>t. pick_next s = (case dropWhile (\<lambda>x. pstate (proc s x) \<noteq> PROC_READY) xs of [] \<Rightarrow> None | y # _ \<Rightarrow> Some y, t)
     \<and> rq t (tl (dropWhile (\<lambda>x. pstate (proc s x) \<noteq> PROC_READY) xs)) \<and> ids_same s t"
  using assms
proof (induction xs arbitrary: s)
  case Nil
  then have "pick_next s = (None, s)" by (subst pick_next.simps) (simp add: rq_def)
  then show ?case using Nil by (simp add: ids_same_def)
next
  case (Cons x xs)
  have h: "ready_head s = Some x" using Cons.prems by (simp add: rq_def)
  show ?case
  proof (cases "pstate (proc s x) = PROC_READY")
    case True
    then have "pick_next s = (Some x, pop_head x s)" by (subst pick_next.simps) (simp add: h)
    then show ?thesis using True rq_pop [OF Cons.prems] by (simp add: ids_same_def)
  next
    case False
    define u where "u = reap_late x (pop_head x s)"
    have p: "pick_next s = pick_next u" using False by (subst pick_next.simps) (simp add: h u_def)
    have q: "rq u xs" using rq_pop [OF Cons.prems] by (simp add: u_def rq_reap_late)
    have i: "ids_same s u" by (simp add: ids_same_def u_def)
    then have "(\<lambda>x. pstate (proc u x) \<noteq> PROC_READY) = (\<lambda>x. pstate (proc s x) \<noteq> PROC_READY)"
      by (simp add: ids_same_def)
    then show ?thesis using Cons.IH [OF q] False p ids_same_trans [OF i] by auto
  qed
qed

section \<open>The queue interface\<close>

datatype qop = Enq nat | Deq

fun q_run :: "(nat \<Rightarrow> 's \<Rightarrow> 's) \<Rightarrow> ('s \<Rightarrow> nat option \<times> 's) \<Rightarrow> qop list \<Rightarrow> 's \<Rightarrow> nat option list \<times> 's" where
  "q_run enq deq [] s = ([], s)"
| "q_run enq deq (Enq p # ops) s = q_run enq deq ops (enq p s)"
| "q_run enq deq (Deq # ops) s =
     (case deq s of (r, t) \<Rightarrow> (case q_run enq deq ops t of (rs, u) \<Rightarrow> (r # rs, u)))"

fun l_run :: "qop list \<Rightarrow> nat list \<Rightarrow> nat option list \<times> nat list" where
  "l_run [] xs = ([], xs)"
| "l_run (Enq p # ops) xs = l_run ops (xs @ [p])"
| "l_run (Deq # ops) [] = (case l_run ops [] of (rs, ys) \<Rightarrow> (None # rs, ys))"
| "l_run (Deq # ops) (x # xs) = (case l_run ops xs of (rs, ys) \<Rightarrow> (Some x # rs, ys))"

text \<open>No operation sequence enqueues a process that is queued already.\<close>

fun l_ok :: "(nat \<Rightarrow> bool) \<Rightarrow> qop list \<Rightarrow> nat list \<Rightarrow> bool" where
  "l_ok P [] xs = True"
| "l_ok P (Enq p # ops) xs = (P p \<and> p \<notin> set xs \<and> l_ok P ops (xs @ [p]))"
| "l_ok P (Deq # ops) xs = l_ok P ops (tl xs)"

locale ready_fifo =
  fixes enq :: "nat \<Rightarrow> 's \<Rightarrow> 's" and deq :: "'s \<Rightarrow> nat option \<times> 's"
    and runnable :: "'s \<Rightarrow> nat \<Rightarrow> bool" and repr :: "'s \<Rightarrow> nat list \<Rightarrow> bool"
  assumes enq_repr: "repr s xs \<Longrightarrow> p \<notin> set xs \<Longrightarrow> runnable s p \<Longrightarrow> repr (enq p s) (xs @ [p])"
    and enq_runnable: "runnable (enq p s) = runnable s"
    and deq_repr: "repr s (x # xs) \<Longrightarrow> deq s = (r, t) \<Longrightarrow> r = Some x \<and> repr t xs \<and> runnable t = runnable s"
    and deq_empty: "repr s [] \<Longrightarrow> deq s = (None, s)"
begin

lemma run_refines:
  "repr s xs \<Longrightarrow> l_ok (runnable s) ops xs \<Longrightarrow>
     fst (q_run enq deq ops s) = fst (l_run ops xs) \<and> repr (snd (q_run enq deq ops s)) (snd (l_run ops xs))"
proof (induction ops xs arbitrary: s rule: l_run.induct)
  case (1 xs)
  then show ?case by simp
next
  case (2 p ops xs)
  then show ?case using enq_repr [of s xs p] enq_runnable [of p s] by simp
next
  case (3 ops)
  then show ?case using deq_empty [OF "3.prems"(1)] by (simp add: split_beta)
next
  case (4 ops x xs)
  obtain r t where d: "deq s = (r, t)" by fastforce
  then show ?case using 4 deq_repr [OF "4.prems"(1) d] by (simp add: split_beta)
qed

end

definition runnable :: "'a procst_scheme \<Rightarrow> nat \<Rightarrow> bool" where
  "runnable s p \<longleftrightarrow> p < MAX_PROCESSES \<and> pstate (proc s p) = PROC_READY"

definition ready_repr :: "'a procst_scheme \<Rightarrow> nat list \<Rightarrow> bool" where
  "ready_repr s xs \<longleftrightarrow> rq s xs \<and> (\<forall>x \<in> set xs. pstate (proc s x) = PROC_READY)"

lemma pstate_enqueue [simp]: "pstate (proc (ready_enqueue p s) i) = pstate (proc s i)"
  by (simp add: ready_enqueue_def Let_def split: option.split)

interpretation ready: ready_fifo ready_enqueue pick_next runnable ready_repr
proof (unfold_locales, goal_cases)
  case (1 s xs p)
  then show ?case by (auto simp: ready_repr_def runnable_def rq_enqueue)
next
  case (2 p s)
  then show ?case by (simp add: runnable_def fun_eq_iff)
next
  case (3 s x xs r t)
  then show ?case using pick_next_spec [of s "x # xs"]
    by (auto simp: ready_repr_def ids_same_def runnable_def fun_eq_iff)
next
  case (4 s)
  then show ?case by (subst pick_next.simps) (simp add: ready_repr_def rq_def)
qed

section \<open>Dispatch\<close>

text \<open>The normal state: the current process is running and not queued, the queue holds
  ready processes only.\<close>

definition sched_ok :: "'a procst_scheme \<Rightarrow> nat \<Rightarrow> nat list \<Rightarrow> bool" where
  "sched_ok s c xs \<longleftrightarrow> ready_repr s xs \<and> current s = c \<and> c < MAX_PROCESSES \<and> c \<notin> set xs
     \<and> pstate (proc s c) = PROC_RUNNING"

lemma sched_same_upd: "sched_same s w \<Longrightarrow> sched_same (proc_upd p f s) (proc_upd p f w)"
  using sched_same_proc [of s w p] by (simp add: sched_same_def proc_upd_def)

lemma sched_same_build: "\<exists>f. (\<forall>q. q\<lparr>ksp := ksp (f q)\<rparr> = f q) \<and> sched_same (proc_upd p f s) (build_initial_frame p s)"
proof -
  let ?k = "kstack_phys (proc s p)"
  let ?w = "stack_write ?k 1018 [0, 0, 0, 0, EFLAGS_IF_SET, trampoline_addr s] s"
  let ?f = "\<lambda>q. q\<lparr>ksp := phys_to_virt ?k + PAGE_SIZE - 24\<rparr>"
  have "sched_same (proc_upd p ?f s) (proc_upd p ?f ?w)"
    by (rule sched_same_upd [OF sched_same_stack_write])
  then show ?thesis
    by (intro exI [of _ ?f]) (simp add: build_initial_frame_def Let_def del: stack_write.simps)
qed

text \<open>After a dispatch the new process runs; queue and all other states are kept.\<close>

lemma dispatch_effect:
  assumes n: "next < length (pcb s)"
  shows "rq (dispatch_to esp next s) xs = rq s xs" "current (dispatch_to esp next s) = next"
    "pstate (proc (dispatch_to esp next s) i) = (if i = next then PROC_RUNNING else pstate (proc s i))"
    "preempt_tick_cnt (dispatch_to esp next s) = preempt_tick_cnt s"
    "pid (proc (dispatch_to esp next s) i) = pid (proc s i)"
    "ppid (proc (dispatch_to esp next s) i) = ppid (proc s i)"
    "exit_code (proc (dispatch_to esp next s) i) = exit_code (proc s i)"
    "sig_pending (proc (dispatch_to esp next s) i) = sig_pending (proc s i)"
proof -
  define u where "u = proc_upd next (\<lambda>q. q\<lparr>pstate := PROC_RUNNING\<rparr>) (s\<lparr>current := next\<rparr>)"
  define v where "v = switch_cr3 next (if kstack_phys (proc u next) \<noteq> 0
               then arch_set_tss_esp0 (phys_to_virt (kstack_phys (proc u next)) + PAGE_SIZE) u else u)"
  define w where "w = (if ksp (proc v next) = 0 then build_initial_frame next v else v)"
  have d: "dispatch_to esp next s = context_switch esp (current s) w"
    by (simp add: dispatch_to_def Let_def u_def v_def w_def)
  have uv: "sched_same u v" unfolding v_def by (rule sched_same_trans [OF _ sched_same_machine(2)]) simp
  obtain f where f: "\<And>q. q\<lparr>ksp := ksp (f q)\<rparr> = f q" "sched_same (proc_upd next f v) w"
  proof (cases "ksp (proc v next) = 0")
    case True
    then show thesis using sched_same_build [of "next" v] that by (auto simp: w_def)
  next
    case False
    have "proc_upd next id v = v" by (auto simp: proc_upd_def proc_def list_update_beyond)
    then have "sched_same (proc_upd next id v) w" using False by (simp add: w_def)
    then show thesis using that [of id] by simp
  qed
  have keep: "next_ready (f q) = next_ready q" "pstate (f q) = pstate q" "pid (f q) = pid q" "ppid (f q) = ppid q"
    "exit_code (f q) = exit_code q" "sig_pending (f q) = sig_pending q" for q
    by (subst f(1) [symmetric], simp)+
  have pw: "proc w i = proc (proc_upd next f v) i" for i by (rule sched_same_proc [OF f(2)])
  have pv: "proc v i = proc u i" for i by (rule sched_same_proc [OF uv])
  show "rq (dispatch_to esp next s) xs = rq s xs"
  proof -
    have "rq (dispatch_to esp next s) xs = rq w xs" by (simp add: d context_switch_def rq_proc_upd)
    also have "\<dots> = rq v xs" by (simp add: rq_cong [OF f(2)] rq_proc_upd keep)
    also have "\<dots> = rq u xs" by (rule rq_cong [OF uv])
    also have "\<dots> = rq s xs" by (simp add: u_def rq_proc_upd)
    finally show ?thesis .
  qed
  have cw: "current w = current v" "preempt_tick_cnt w = preempt_tick_cnt v"
    using f(2) by (auto simp: sched_same_def)
  show "current (dispatch_to esp next s) = next" "preempt_tick_cnt (dispatch_to esp next s) = preempt_tick_cnt s"
    using uv by (auto simp: d context_switch_def cw sched_same_def u_def)
  show "pstate (proc (dispatch_to esp next s) i) = (if i = next then PROC_RUNNING else pstate (proc s i))"
    "pid (proc (dispatch_to esp next s) i) = pid (proc s i)"
    "ppid (proc (dispatch_to esp next s) i) = ppid (proc s i)"
    "exit_code (proc (dispatch_to esp next s) i) = exit_code (proc s i)"
    "sig_pending (proc (dispatch_to esp next s) i) = sig_pending (proc s i)"
    using n by (simp_all add: d context_switch_def pw pv keep u_def)
qed

text \<open>Choosing the next process from a queue of ready ones.\<close>

lemma schedule_next_ready:
  assumes q: "ready_repr s (x # xs)" and c: "current s = c"
  shows "sched_ok (schedule_next esp s) x xs"
    and "preempt_tick_cnt (schedule_next esp s) = preempt_tick_cnt s"
    and "i \<noteq> x \<Longrightarrow> pstate (proc (schedule_next esp s) i) = pstate (proc s i)"
proof -
  obtain t where t: "pick_next s = (Some x, t)" "rq t xs" "ids_same s t"
    using pick_next_spec [of s "x # xs"] q by (auto simp: ready_repr_def)
  have x: "x < MAX_PROCESSES" "x \<notin> set xs" "length (pcb t) = MAX_PROCESSES"
    using q t(2) by (auto simp: ready_repr_def rq_def)
  have st: "pstate (proc t i) = pstate (proc s i)" "current t = c" "preempt_tick_cnt t = preempt_tick_cnt s" for i
    using t(3) c by (auto simp: ids_same_def)
  have r: "\<forall>y \<in> set (x # xs). pstate (proc s y) = PROC_READY" using q by (simp add: ready_repr_def)
  have "sched_ok (schedule_next esp s) x xs \<and> preempt_tick_cnt (schedule_next esp s) = preempt_tick_cnt s
      \<and> (i \<noteq> x \<longrightarrow> pstate (proc (schedule_next esp s) i) = pstate (proc s i))"
  proof (cases "x = c")
    case True
    then have "schedule_next esp s = proc_upd x (\<lambda>q. q\<lparr>pstate := PROC_RUNNING\<rparr>) t"
      using t(1) st r by (simp add: schedule_next_def)
    then show ?thesis using t(2) x r st True by (auto simp: sched_ok_def ready_repr_def rq_proc_upd)
  next
    case False
    then have "schedule_next esp s = dispatch_to esp x t" using t(1) st by (simp add: schedule_next_def)
    then show ?thesis using t(2) x r st
      by (auto simp: sched_ok_def ready_repr_def dispatch_effect)
  qed
  then show "sched_ok (schedule_next esp s) x xs"
    "preempt_tick_cnt (schedule_next esp s) = preempt_tick_cnt s"
    "i \<noteq> x \<Longrightarrow> pstate (proc (schedule_next esp s) i) = pstate (proc s i)" by blast+
qed

lemma requeue_current:
  assumes "sched_ok s c xs"
  shows "ready_repr (ready_enqueue c (proc_upd c (\<lambda>q. q\<lparr>pstate := PROC_READY\<rparr>) s)) (xs @ [c])"
  using assms rq_length [of s xs] by (auto simp: sched_ok_def ready_repr_def rq_enqueue rq_proc_upd)

lemma requeue_fields [simp]:
  "current (ready_enqueue p s) = current s" "preempt_tick_cnt (ready_enqueue p s) = preempt_tick_cnt s"
  by (simp_all add: ready_enqueue_def Let_def split: option.split)

lemma sched_yield_rotates:
  assumes ok: "sched_ok s c xs" and c: "c \<noteq> 0"
  shows "sched_ok (sched_yield esp s) (hd (xs @ [c])) (tl (xs @ [c]))"
proof -
  let ?s = "ready_enqueue c (proc_upd c (\<lambda>q. q\<lparr>pstate := PROC_READY\<rparr>) s)"
  have cur: "current s = c" "pstate (proc s c) = PROC_RUNNING" using ok by (simp_all add: sched_ok_def)
  have y: "sched_yield esp s = schedule_next esp ?s" using cur c by (simp add: sched_yield_def)
  obtain z zs where z: "xs @ [c] = z # zs" by (cases "xs @ [c]") auto
  show ?thesis unfolding y
    using schedule_next_ready(1) [of ?s z zs c esp] requeue_current [OF ok] cur z by simp
qed

lemma preempt_tick_counts:
  assumes "preempt_tick_cnt s = of_nat m" "m + length esps < 100"
  shows "fold sched_preempt_tick esps s = s\<lparr>preempt_tick_cnt := of_nat (m + length esps)\<rparr>"
  using assms
proof (induction esps arbitrary: s m)
  case Nil
  then show ?case by simp
next
  case (Cons e esps)
  have "unat (of_nat (Suc m) :: u32) = Suc m"
    unfolding unat_of_nat using Cons.prems(2) by simp
  then have "unat (of_nat m + 1 :: u32) = Suc m" by (simp add: add.commute)
  then have "of_nat m + 1 < (100 :: u32)" using Cons.prems(2) by (simp add: word_less_nat_alt)
  then have t: "sched_preempt_tick e s = s\<lparr>preempt_tick_cnt := of_nat (Suc m)\<rparr>"
    using Cons.prems(1) by (simp add: sched_preempt_tick_def Let_def add.commute)
  show ?case using Cons.IH [of "s\<lparr>preempt_tick_cnt := of_nat (Suc m)\<rparr>" "Suc m"] Cons.prems t by simp
qed

lemma sched_ok_cnt [simp]: "sched_ok (s\<lparr>preempt_tick_cnt := k\<rparr>) c xs = sched_ok s c xs"
  by (simp add: sched_ok_def ready_repr_def)

lemma quantum_rotates:
  assumes ok: "sched_ok s c xs" "xs \<noteq> []" and k: "preempt_tick_cnt s = 0" "length esps = 100"
  shows "sched_ok (fold sched_preempt_tick esps s) (hd xs) (tl xs @ [c])
    \<and> preempt_tick_cnt (fold sched_preempt_tick esps s) = 0"
proof -
  define es where "es = butlast esps"
  define e where "e = last esps"
  have ne: "esps \<noteq> []" using k(2) by auto
  have es: "esps = es @ [e]" "length es = 99" using ne k(2) by (simp_all add: es_def e_def)
  have f: "fold sched_preempt_tick es s = s\<lparr>preempt_tick_cnt := 99\<rparr>"
    using preempt_tick_counts [of s 0 es] k(1) es(2) by simp
  let ?s = "s\<lparr>preempt_tick_cnt := 0\<rparr>"
  let ?r = "ready_enqueue c (proc_upd c (\<lambda>q. q\<lparr>pstate := PROC_READY\<rparr>) ?s)"
  obtain z zs where z: "xs = z # zs" using ok(2) by (cases xs) auto
  have cur: "current s = c" "pstate (proc s c) = PROC_RUNNING" "ready_head s = Some z"
    using ok z by (auto simp: sched_ok_def ready_repr_def rq_def)
  have t: "fold sched_preempt_tick esps s = schedule_next e ?r"
    using cur by (simp add: es(1) f sched_preempt_tick_def Let_def)
  have q: "ready_repr ?r (z # (zs @ [c]))" using requeue_current [of ?s c xs] ok z by simp
  show ?thesis unfolding t using schedule_next_ready(1,2) [OF q, of c e] cur z by simp
qed

end
