(* ===== verification/SchedProps.thy ===== *)
theory SchedProps
  imports Sched
begin

text \<open>
  The properties of the scheduler and of the wait protocol, with their concrete
  instances.
\<close>

section \<open>Queue and rotation\<close>

text \<open>Property C9: the linked ready queue is a FIFO queue: for every sequence of
  enqueue and pick operations that never enqueues a queued process, the processes
  picked, and the queue left behind, are those of the same operations on a list.\<close>

theorem ready_queue_refines:
  assumes "ready_repr s xs" "l_ok (runnable s) ops xs"
  shows "fst (q_run ready_enqueue pick_next ops s) = fst (l_run ops xs)
    \<and> ready_repr (snd (q_run ready_enqueue pick_next ops s)) (snd (l_run ops xs))"
  by (rule ready.run_refines [OF assms])

text \<open>Property C10: timer preemption is round-robin and starves nobody: with at least
  one process queued, after \<open>k\<close> quanta of 100 ticks the running process and the queue
  are the initial ones rotated by \<open>k\<close> places, so each of the \<open>n\<close> runnable processes
  runs once in every \<open>n\<close> quanta.\<close>

theorem preempt_round_robin:
  assumes "sched_ok s c xs" "xs \<noteq> []" "preempt_tick_cnt s = 0" "length esps = 100 * k"
  shows "sched_ok (fold sched_preempt_tick esps s) (hd (rotate k (c # xs))) (tl (rotate k (c # xs)))"
proof -
  have "sched_ok (fold sched_preempt_tick esps s) (hd (rotate k (c # xs))) (tl (rotate k (c # xs)))
      \<and> preempt_tick_cnt (fold sched_preempt_tick esps s) = 0"
    using assms
  proof (induction k arbitrary: s c xs esps)
    case 0
    then show ?case by simp
  next
    case (Suc k)
    define a b where "a = take 100 esps" and "b = drop 100 esps"
    have ab: "esps = a @ b" "length a = 100" "length b = 100 * k" using Suc.prems(4) by (simp_all add: a_def b_def)
    obtain z zs where z: "xs = z # zs" using Suc.prems(2) by (cases xs) auto
    have q: "sched_ok (fold sched_preempt_tick a s) z (zs @ [c])" "preempt_tick_cnt (fold sched_preempt_tick a s) = 0"
      using quantum_rotates [OF Suc.prems(1,2,3) ab(2)] z by simp_all
    have r: "rotate (Suc k) (c # xs) = rotate k (z # (zs @ [c]))"
      by (simp add: rotate1_rotate_swap [symmetric] z del: rotate_Suc) (simp add: rotate_Suc [symmetric] rotate_def funpow_swap1)
    show ?case unfolding r ab(1) using Suc.IH [OF q(1) _ q(2) ab(3)] by simp
  qed
  then show ?thesis by blast
qed

section \<open>A small process table\<close>

text \<open>Process 1 runs, 2 and 3 are queued, 4 waits for its child 3.\<close>

definition demo_proc :: "nat \<Rightarrow> proc_state \<Rightarrow> u32 \<Rightarrow> u32 \<Rightarrow> process" where
  "demo_proc i st par wt = proc_zero\<lparr>pid := of_nat i, pstate := st, ppid := par, wait_target := wt, ksp := 1\<rparr>"

definition sched_base :: procst where
  "sched_base = paging.extend cow_base (procst.fields
     ((replicate 32 proc_zero)[1 := demo_proc 1 PROC_RUNNING 0 0, 2 := demo_proc 2 PROC_READY 0 0,
        3 := demo_proc 3 PROC_READY 4 0, 4 := demo_proc 4 PROC_BLOCKED 0 0xFFFFFFFF])
     None None 1 0 0 0 (\<lambda>_. 0) 0x1000 0x2000 0x3000 0x4000)"

definition sched_demo :: procst where
  "sched_demo = ready_enqueue 3 (ready_enqueue 2 sched_base)"

lemma sched_base_fields:
  "pcb sched_base = (replicate 32 proc_zero)[1 := demo_proc 1 PROC_RUNNING 0 0, 2 := demo_proc 2 PROC_READY 0 0,
     3 := demo_proc 3 PROC_READY 4 0, 4 := demo_proc 4 PROC_BLOCKED 0 0xFFFFFFFF]"
  "ready_head sched_base = None" "ready_tail sched_base = None" "current sched_base = 1"
  "preempt_tick_cnt sched_base = 0"
  by (simp_all add: sched_base_def cow_base_def pmm.defs paging.defs procst.defs pmm_blank_def)

lemma sched_base_proc:
  "proc sched_base i = (if i = 1 then demo_proc 1 PROC_RUNNING 0 0 else if i = 2 then demo_proc 2 PROC_READY 0 0
     else if i = 3 then demo_proc 3 PROC_READY 4 0 else if i = 4 then demo_proc 4 PROC_BLOCKED 0 0xFFFFFFFF
     else proc_zero)"
  by (simp add: proc_def sched_base_fields nth_list_update)

lemma rq_demo: "rq sched_demo [2, 3]"
proof -
  have "rq sched_base []" by (simp add: rq_def sched_base_fields)
  then have "rq (ready_enqueue 2 sched_base) [2]" using rq_enqueue [of sched_base "[]" 2] by simp
  then show ?thesis unfolding sched_demo_def using rq_enqueue [of _ "[2]" 3] by simp
qed

lemma sched_demo_ok: "sched_ok sched_demo 1 [2, 3]" "preempt_tick_cnt sched_demo = 0" "ready_repr sched_demo [2, 3]"
  using rq_demo
  by (simp_all add: sched_ok_def ready_repr_def sched_demo_def sched_base_proc demo_proc_def sched_base_fields)

theorem ready_queue_refines_witness:
  "fst (q_run ready_enqueue pick_next [Deq, Enq 2, Deq, Deq, Deq] sched_demo) = [Some 2, Some 3, Some 2, None]"
proof -
  have "l_ok (runnable sched_demo) [Deq, Enq 2, Deq, Deq, Deq] [2, 3]"
    by (simp add: runnable_def sched_demo_def sched_base_proc demo_proc_def)
  from ready_queue_refines [OF sched_demo_ok(3) this] show ?thesis by simp
qed

theorem preempt_round_robin_witness:
  "current (fold sched_preempt_tick (replicate 400 0) sched_demo) = 2"
proof -
  have "sched_ok (fold sched_preempt_tick (replicate 400 0) sched_demo)
      (hd (rotate 4 [1, 2, 3])) (tl (rotate 4 [1, 2, 3]))"
    by (rule preempt_round_robin [OF sched_demo_ok(1) _ sched_demo_ok(2)]) simp_all
  moreover have "hd (rotate 4 [1, 2, 3 :: nat]) = 2" by (simp add: rotate_def eval_nat_numeral)
  ultimately show ?thesis by (simp add: sched_ok_def)
qed

section \<open>Exit and wait\<close>

lemma proc_enqueue_fields [simp]:
  "pid (proc (ready_enqueue p s) i) = pid (proc s i)" "ppid (proc (ready_enqueue p s) i) = ppid (proc s i)"
  "exit_code (proc (ready_enqueue p s) i) = exit_code (proc s i)"
  "sig_pending (proc (ready_enqueue p s) i) = sig_pending (proc s i)"
  "wait_target (proc (ready_enqueue p s) i) = wait_target (proc s i)"
  "length (pcb (ready_enqueue p s)) = length (pcb s)"
  by (simp_all add: ready_enqueue_def Let_def split: option.split)

lemma fold_unchanged: "(\<And>x. x \<in> set xs \<Longrightarrow> f x s = s) \<Longrightarrow> fold f xs s = s"
  by (induction xs) auto

lemma fold_single:
  assumes "b \<in> set [m..<n]" "\<And>i. i \<in> set [m..<b] \<Longrightarrow> f i s = s"
    and "\<And>i. i \<in> set [Suc b..<n] \<Longrightarrow> f i (f b s) = f b s"
  shows "fold f [m..<n] s = f b s"
proof -
  have "[m..<n] = [m..<b] @ b # [Suc b..<n]"
    using assms(1) upt_add_eq_append [of m b "n - b"] by (simp add: upt_conv_Cons)
  then show ?thesis using fold_unchanged [of "[m..<b]" f s] fold_unchanged [of "[Suc b..<n]" f "f b s"] assms by simp
qed

text \<open>A child \<open>p\<close> with its parent \<open>b\<close> blocked in a wait for it; slots carry their index
  as pid.\<close>

definition awaited :: "'a procst_scheme \<Rightarrow> nat \<Rightarrow> nat \<Rightarrow> nat list \<Rightarrow> bool" where
  "awaited s p b xs \<longleftrightarrow> rq s xs \<and> 0 < p \<and> p < MAX_PROCESSES \<and> 0 < b \<and> b < MAX_PROCESSES \<and> b \<noteq> p \<and> b \<notin> set xs
     \<and> (\<forall>i. pid (proc s i) = 0 \<or> pid (proc s i) = of_nat i)
     \<and> pid (proc s p) \<noteq> 0 \<and> pstate (proc s p) \<in> {PROC_READY, PROC_RUNNING, PROC_BLOCKED} \<and> ppid (proc s p) = of_nat b
     \<and> pid (proc s b) \<noteq> 0 \<and> pstate (proc s b) = PROC_BLOCKED
     \<and> (wait_target (proc s b) = 0xFFFFFFFF \<or> wait_target (proc s b) = of_nat p)"

definition childless :: "'a procst_scheme \<Rightarrow> nat \<Rightarrow> bool" where
  "childless s p \<longleftrightarrow> (\<forall>i. pid (proc s i) \<noteq> 0 \<longrightarrow> ppid (proc s i) \<noteq> of_nat p)"

definition child_reported :: "'a procst_scheme \<Rightarrow> 'a procst_scheme \<Rightarrow> nat \<Rightarrow> nat \<Rightarrow> int \<Rightarrow> nat list \<Rightarrow> bool" where
  "child_reported s t p b code xs \<longleftrightarrow> rq t (xs @ [b])
     \<and> (\<forall>i. pid (proc t i) = pid (proc s i) \<and> ppid (proc t i) = ppid (proc s i)
          \<and> pstate (proc t i) = (if i = p then PROC_TERMINATED else if i = b then PROC_READY else pstate (proc s i)))
     \<and> exit_code (proc t p) = code \<and> bit (sig_pending (proc t b)) 17 \<and> current t = current s"

lemma unat_small: "n < 4294967296 \<Longrightarrow> unat (of_nat n :: u32) = n"
  by (simp add: unat_of_nat)

lemma of_nat_slot_inj: "i < 32 \<Longrightarrow> j < 32 \<Longrightarrow> (of_nat i :: u32) = of_nat j \<Longrightarrow> i = j"
proof -
  assume "i < 32" "j < 32" and e: "(of_nat i :: u32) = of_nat j"
  have "unat (of_nat i :: u32) = i" using \<open>i < 32\<close> by (intro unat_small) simp
  moreover have "unat (of_nat j :: u32) = j" using \<open>j < 32\<close> by (intro unat_small) simp
  ultimately show "i = j" using e by metis
qed

lemma wakes_parent_only:
  assumes a: "awaited s p b xs" and i: "i \<noteq> b"
    and t: "\<And>j. pid (proc t j) = pid (proc s j) \<and> ppid (proc t j) = ppid (proc s j)"
  shows "wake_waiter p i t = t"
proof -
  have "\<not> wakes p t i"
  proof
    assume "wakes p t i"
    then have "pid (proc s i) \<noteq> 0" "pid (proc s i) = of_nat b" using a t by (auto simp: wakes_def Let_def awaited_def)
    moreover have "pid (proc s i) = 0 \<or> pid (proc s i) = of_nat i" using a unfolding awaited_def by blast
    ultimately have "(of_nat i :: u32) = of_nat b" by metis
    moreover have "i < 32"
    proof (rule ccontr)
      assume "\<not> i < 32"
      then have "proc s i = proc_zero" using a rq_length [of s xs] by (simp add: proc_def awaited_def)
      then show False using \<open>pid (proc s i) \<noteq> 0\<close> by (simp add: proc_zero_def)
    qed
    ultimately show False using of_nat_slot_inj [of i b] i a by (simp add: awaited_def)
  qed
  then show ?thesis by (simp add: wake_waiter_def)
qed

lemma orphan_none:
  assumes a: "childless s p" and t: "\<And>j. pid (proc t j) = pid (proc s j) \<and> ppid (proc t j) = ppid (proc s j)"
  shows "orphan_child p i t = t"
  using a t by (auto simp: orphan_child_def Let_def childless_def)

text \<open>The part of \<open>exit_process_code\<close> before the processor is given up.\<close>

definition exit_prepare :: "nat \<Rightarrow> int \<Rightarrow> 'a procst_scheme \<Rightarrow> 'a procst_scheme" where
  "exit_prepare p code s =
     release_space p (fold (orphan_child p) [1..<MAX_PROCESSES] (signal_parent p
       (fold (wake_waiter p) [1..<MAX_PROCESSES]
         (proc_upd p (\<lambda>q. q\<lparr>exit_code := code, pstate := PROC_TERMINATED\<rparr>) s))))"

lemma release_space_same:
  "\<exists>f u. release_space p s = proc_upd p f u \<and> sched_same s u \<and> (\<forall>q. q\<lparr>page_dir := page_dir (f q)\<rparr> = f q)
     \<or> release_space p s = s"
proof (cases "private_dir s p")
  case True
  let ?w = "if current s = p then s\<lparr>cr3 := paging_kernel_pd_phys s\<rparr> else s"
  have "sched_same s (paging_destroy_address_space x ?w)" for x
    by (rule sched_same_trans [OF _ sched_same_destroy]) simp
  then show ?thesis using True
    by (intro exI [of _ "\<lambda>q. q\<lparr>page_dir := 0\<rparr>"] exI [of _ "paging_destroy_address_space (page_dir (proc ?w p)) ?w"])
       (simp add: release_space_def Let_def)
qed (simp add: release_space_def)

lemma exit_prepare_reports:
  assumes a: "awaited s p b xs" and n: "childless s p"
  shows "child_reported s (exit_prepare p code s) p b code xs"
proof -
  define u where "u = proc_upd p (\<lambda>q. q\<lparr>exit_code := code, pstate := PROC_TERMINATED\<rparr>) s"
  define v where "v = ready_enqueue b (proc_upd b (\<lambda>q. q\<lparr>pstate := PROC_READY\<rparr>) u)"
  define w where "w = signal_parent p v"
  have q: "rq s xs" "b \<notin> set xs" "b < 32" "0 < b" "p < 32" "b \<noteq> p" "length (pcb s) = 32"
    using a rq_length [of s xs] by (auto simp: awaited_def)
  have ids: "pid (proc u j) = pid (proc s j) \<and> ppid (proc u j) = ppid (proc s j)"
    "pid (proc v j) = pid (proc s j) \<and> ppid (proc v j) = ppid (proc s j)"
    "pid (proc w j) = pid (proc s j) \<and> ppid (proc w j) = ppid (proc s j)" for j
    by (simp_all add: u_def v_def w_def signal_parent_def Let_def)
  have wb: "wake_waiter p b u = v"
    using a q by (auto simp: wake_waiter_def wakes_def Let_def awaited_def u_def v_def)
  have "fold (wake_waiter p) [1..<32] u = wake_waiter p b u"
  proof (rule fold_single)
    show "b \<in> set [1..<32]" using q by auto
    show "wake_waiter p i u = u" if "i \<in> set [1..<b]" for i
      by (rule wakes_parent_only [OF a _ ids(1)]) (use that in auto)
    show "wake_waiter p i (wake_waiter p b u) = wake_waiter p b u" if "i \<in> set [Suc b..<32]" for i
      unfolding wb by (rule wakes_parent_only [OF a _ ids(2)]) (use that in auto)
  qed
  moreover have "fold (orphan_child p) [1..<32] w = w"
    by (rule fold_unchanged, rule orphan_none [OF n]) (rule ids)
  ultimately have e: "exit_prepare p code s = release_space p w"
    by (simp add: exit_prepare_def wb w_def flip: u_def)
  have rv: "rq v (xs @ [b])" unfolding v_def
    by (rule rq_enqueue) (use q in \<open>auto simp: u_def rq_proc_upd\<close>)
  have pp: "ppid (proc v p) = of_nat b" "pid (proc v b) \<noteq> 0" using a ids(2) by (auto simp: awaited_def)
  have ub: "unat (of_nat b :: u32) = b" "(of_nat b :: u32) \<noteq> 0" using q of_nat_slot_inj [of b 0] unat_small [of b] by auto
  have w: "w = proc_upd b (\<lambda>q. q\<lparr>sig_pending := sig_pending q OR push_bit 17 1\<rparr>) v"
    using pp ub q by (simp add: w_def signal_parent_def Let_def)
  have rw: "rq w (xs @ [b])" "current w = current s" "length (pcb w) = 32"
    using rv q by (simp_all add: w rq_proc_upd v_def u_def)
  have pw: "pstate (proc w i) = (if i = p then PROC_TERMINATED else if i = b then PROC_READY else pstate (proc s i))"
    "exit_code (proc w p) = code" "bit (sig_pending (proc w b)) 17" for i
    using q by (simp_all add: w v_def u_def bit_simps)
  have cw: "child_reported s w p b code xs" using rw pw ids(3) by (simp add: child_reported_def)
  consider (same) "release_space p w = w" | (upd) f z where "release_space p w = proc_upd p f z" "sched_same w z"
      "\<And>q. q\<lparr>page_dir := page_dir (f q)\<rparr> = f q"
    using release_space_same [of p w] by blast
  then show ?thesis
  proof cases
    case same
    then show ?thesis using cw by (simp add: e)
  next
    case upd
    have k: "next_ready (f q) = next_ready q" "pstate (f q) = pstate q" "pid (f q) = pid q" "ppid (f q) = ppid q"
      "exit_code (f q) = exit_code q" "sig_pending (f q) = sig_pending q" for q
      by (subst upd(3) [symmetric], simp)+
    have z: "proc z i = proc w i" for i by (rule sched_same_proc [OF upd(2)])
    have "rq (proc_upd p f z) (xs @ [b]) = rq w (xs @ [b])"
      by (simp add: rq_proc_upd k rq_cong [OF upd(2)])
    moreover have "current z = current w" using upd(2) by (simp add: sched_same_def)
    ultimately show ?thesis using cw q(6) by (simp add: e upd(1) child_reported_def k z)
  qed
qed

lemma find_unique:
  "p \<in> set xs \<Longrightarrow> P p \<Longrightarrow> (\<And>i. i \<in> set xs \<Longrightarrow> P i \<Longrightarrow> i = p) \<Longrightarrow> List.find P xs = Some p"
proof (cases "List.find P xs")
  case None
  assume "p \<in> set xs" "P p"
  with None show ?thesis by (auto simp: find_None_iff)
next
  case (Some i)
  assume u: "\<And>i. i \<in> set xs \<Longrightarrow> P i \<Longrightarrow> i = p"
  have "P i" "i \<in> set xs" using Some by (auto simp: find_Some_iff)
  then show ?thesis using u Some by blast
qed

lemma wait_scan_finds:
  fixes s t :: "'a procst_scheme"
  assumes a: "awaited s p b xs" and g: "target = - 1 \<or> target = int p"
    and n: "process_wait_scan target (s\<lparr>current := b\<rparr>) = (0, None)"
    and t: "\<And>i. pid (proc t i) = pid (proc s i) \<and> ppid (proc t i) = ppid (proc s i)"
    and o: "\<And>i. i \<noteq> p \<Longrightarrow> pstate (proc t i) = PROC_TERMINATED \<Longrightarrow> pstate (proc s i) = PROC_TERMINATED"
    and z: "pstate (proc t p) = PROC_TERMINATED" "exit_code (proc t p) = code"
  shows "process_wait_scan target (t\<lparr>current := b\<rparr>) = (int p, Some code)"
proof -
  have pp: "p < 32" "0 < p" "0 < b" "pid (proc s p) = of_nat p" "pid (proc s p) \<noteq> 0" "ppid (proc s p) = of_nat b"
    "pid (proc s b) = of_nat b"
    using a unfolding awaited_def by blast+
  have pc: "proc (x\<lparr>current := b\<rparr>) i = proc x i" for x :: "'a procst_scheme" and i by (simp add: proc_def)
  have mc: "my_child (t\<lparr>current := b\<rparr>) target i = my_child (s\<lparr>current := b\<rparr>) target i" for i
    using t by (simp add: my_child_def Let_def pc)
  have none: "\<not> (my_child (s\<lparr>current := b\<rparr>) target i \<and> pstate (proc s i) = PROC_TERMINATED)" if "i \<in> set [1..<32]" for i
    using n that pp(3) by (auto simp: process_wait_scan_def find_None_iff pc split: option.splits if_splits)
  have "List.find (\<lambda>i. my_child (t\<lparr>current := b\<rparr>) target i \<and> pstate (proc (t\<lparr>current := b\<rparr>) i) = PROC_TERMINATED) [1..<32] = Some p"
  proof (rule find_unique)
    show "p \<in> set [1..<32]" using pp by auto
    show "my_child (t\<lparr>current := b\<rparr>) target p \<and> pstate (proc (t\<lparr>current := b\<rparr>) p) = PROC_TERMINATED"
      using pp z g unfolding mc by (auto simp: my_child_def Let_def pc)
    fix i assume i: "i \<in> set [1..<32]" "my_child (t\<lparr>current := b\<rparr>) target i \<and> pstate (proc (t\<lparr>current := b\<rparr>) i) = PROC_TERMINATED"
    then have "my_child (s\<lparr>current := b\<rparr>) target i" "pstate (proc t i) = PROC_TERMINATED" by (simp_all add: mc pc)
    then show "i = p" using none [OF i(1)] o by blast
  qed
  then show ?thesis using z pp by (simp add: process_wait_scan_def pc)
qed

lemma dropWhile_last: "\<not> P b \<Longrightarrow> dropWhile P (xs @ [b]) \<noteq> [] \<and> last (dropWhile P (xs @ [b])) = b"
  by (induction xs) auto

text \<open>Giving up the processor: the queue's first ready process runs, and a ready
  process that was queued last is queued or running afterwards.\<close>

lemma schedule_keeps_last:
  fixes esp :: u32
  assumes q: "rq s (xs @ [b])" "pstate (proc s b) = PROC_READY" and c: "pstate (proc s (current s)) \<noteq> PROC_READY"
  defines "t \<equiv> schedule_next esp s"
  shows "(\<exists>ys. rq t ys \<and> b \<in> set ys \<and> pstate (proc t b) = PROC_READY) \<or> (current t = b \<and> pstate (proc t b) = PROC_RUNNING)"
    and "pid (proc t i) = pid (proc s i)" "ppid (proc t i) = ppid (proc s i)"
    and "exit_code (proc t i) = exit_code (proc s i)" "sig_pending (proc t i) = sig_pending (proc s i)"
    and "pstate (proc s i) \<noteq> PROC_READY \<Longrightarrow> pstate (proc t i) = pstate (proc s i)"
    and "pstate (proc t i) = PROC_TERMINATED \<Longrightarrow> pstate (proc s i) = PROC_TERMINATED"
proof -
  let ?P = "\<lambda>x. pstate (proc s x) \<noteq> PROC_READY"
  let ?d = "dropWhile ?P (xs @ [b])"
  have d: "?d \<noteq> []" "last ?d = b" using dropWhile_last [of ?P b xs] q(2) by auto
  then obtain y ys where y: "?d = y # ys" by (cases ?d) auto
  obtain u where u: "pick_next s = (Some y, u)" "rq u ys" "ids_same s u"
    using pick_next_spec [OF q(1)] y by auto
  have yr: "pstate (proc s y) = PROC_READY" using hd_dropWhile [of ?P "xs @ [b]"] d(1) y by simp
  then have yc: "y \<noteq> current s" using c by auto
  have yl: "y < length (pcb u)"
    using q(1) y u(2) rq_length [OF u(2)] set_dropWhileD [of y ?P "xs @ [b]"] by (auto simp: rq_def)
  have t: "t = dispatch_to esp y u" using u(1,3) yc by (simp add: t_def schedule_next_def ids_same_def)
  note e = dispatch_effect [OF yl]
  show "pid (proc t i) = pid (proc s i)" "ppid (proc t i) = ppid (proc s i)"
    "exit_code (proc t i) = exit_code (proc s i)" "sig_pending (proc t i) = sig_pending (proc s i)"
    "pstate (proc s i) \<noteq> PROC_READY \<Longrightarrow> pstate (proc t i) = pstate (proc s i)"
    "pstate (proc t i) = PROC_TERMINATED \<Longrightarrow> pstate (proc s i) = PROC_TERMINATED"
    using u(3) yr by (auto simp: t e ids_same_def split: if_splits)
  show "(\<exists>ys. rq t ys \<and> b \<in> set ys \<and> pstate (proc t b) = PROC_READY) \<or> (current t = b \<and> pstate (proc t b) = PROC_RUNNING)"
  proof (cases "y = b")
    case True
    have "current t = y" "pstate (proc t y) = PROC_RUNNING" by (simp_all add: t e)
    then show ?thesis using True by blast
  next
    case False
    then have "b \<in> set ys" using d(2) y by (cases ys) auto
    moreover have "rq t ys" using u(2) by (simp add: t e)
    ultimately show ?thesis using False q(2) u(3) by (auto simp: t e ids_same_def)
  qed
qed

text \<open>Property C27: when a process \<open>p\<close> without children of its own exits while its parent \<open>b\<close> is
  blocked waiting for it, or for any child with none to report yet, and whether \<open>p\<close>
  exits itself or is killed by another process: the exit code is recorded, the
  parent becomes runnable (queued, or running already) with SIGCHLD pending, and
  the scan the parent then repeats, with the target it waits for, finds exactly this child
  and its code.\<close>

theorem exit_wakes_waiting_parent:
  fixes esp :: u32 and code target :: int
  assumes a: "awaited s p b xs" and n: "childless s p"
    and g: "target = - 1 \<or> target = int p" "wait_target (proc s b) = word_of_int target"
    and w: "process_wait_scan target (s\<lparr>current := b\<rparr>) = (0, None)"
  defines "t \<equiv> exit_process_code esp (int p) code s"
  shows "((\<exists>ys. rq t ys \<and> b \<in> set ys \<and> pstate (proc t b) = PROC_READY) \<or> (current t = b \<and> pstate (proc t b) = PROC_RUNNING))
    \<and> bit (sig_pending (proc t b)) 17
    \<and> process_wait_scan target (t\<lparr>current := b\<rparr>) = (int p, Some code)"
proof -
  let ?u = "exit_prepare p code s"
  have r: "child_reported s ?u p b code xs" by (rule exit_prepare_reports [OF a n])
  have pp: "0 < p" "p < 32" "b \<noteq> p" "pid (proc s p) \<noteq> 0" "ppid (proc s p) = of_nat b" "b < 32" "0 < b"
    "pstate (proc s p) \<in> {PROC_READY, PROC_RUNNING, PROC_BLOCKED}"
    using a unfolding awaited_def by blast+
  have bz: "(of_nat b :: u32) \<noteq> 0" using of_nat_slot_inj [of b 0] pp by auto
  have u: "rq ?u (xs @ [b])" "pstate (proc ?u p) = PROC_TERMINATED" "pstate (proc ?u b) = PROC_READY"
    "ppid (proc ?u p) \<noteq> 0" "current ?u = current s" "bit (sig_pending (proc ?u b)) 17" "exit_code (proc ?u p) = code"
    "\<And>i. pid (proc ?u i) = pid (proc s i) \<and> ppid (proc ?u i) = ppid (proc s i)"
    "\<And>i. i \<noteq> p \<Longrightarrow> pstate (proc ?u i) = PROC_TERMINATED \<Longrightarrow> pstate (proc s i) = PROC_TERMINATED"
    using r pp bz by (auto simp: child_reported_def split: if_splits)
  have e: "t = (if current ?u \<noteq> p then
            (if kstack_phys (proc ?u p) \<noteq> 0
             then proc_upd p (\<lambda>q. q\<lparr>kstack_phys := 0\<rparr>) (pmm_free_page (kstack_phys (proc ?u p)) ?u) else ?u)
          else schedule_next esp ?u)"
    using pp u(2,4) by (auto simp: t_def exit_process_code_def exit_prepare_def Let_def)
  have T: "((\<exists>ys. rq t ys \<and> b \<in> set ys \<and> pstate (proc t b) = PROC_READY) \<or> (current t = b \<and> pstate (proc t b) = PROC_RUNNING))
    \<and> bit (sig_pending (proc t b)) 17 \<and> pstate (proc t p) = PROC_TERMINATED \<and> exit_code (proc t p) = code
    \<and> (\<forall>i. pid (proc t i) = pid (proc s i) \<and> ppid (proc t i) = ppid (proc s i))
    \<and> (\<forall>i. i \<noteq> p \<longrightarrow> pstate (proc t i) = PROC_TERMINATED \<longrightarrow> pstate (proc s i) = PROC_TERMINATED)"
  proof (cases "current s = p")
    case True
    then have t: "t = schedule_next esp ?u" using u(5) by (simp add: e)
    have "pstate (proc ?u (current ?u)) \<noteq> PROC_READY" using True u by simp
    note k = schedule_keeps_last [OF u(1,3) this, where esp = esp, folded t]
    show ?thesis using k(1) k(2-5) k(6) [of p] k(7) u by auto
  next
    case False
    let ?w = "pmm_free_page (kstack_phys (proc ?u p)) ?u"
    have w: "proc ?w i = proc ?u i" "rq ?w (xs @ [b])" for i
      by (simp_all add: sched_same_proc [OF sched_same_machine(4)] rq_cong [OF sched_same_machine(4)] u(1))
    have "rq t (xs @ [b])" using False u(1,5) w by (simp add: e rq_proc_upd)
    moreover have "pstate (proc t b) = PROC_READY" "bit (sig_pending (proc t b)) 17"
      "pstate (proc t p) = PROC_TERMINATED" "exit_code (proc t p) = code"
      "\<forall>i. pid (proc t i) = pid (proc s i) \<and> ppid (proc t i) = ppid (proc s i)"
      "\<forall>i. i \<noteq> p \<longrightarrow> pstate (proc t i) = PROC_TERMINATED \<longrightarrow> pstate (proc s i) = PROC_TERMINATED"
      using False u w pp(3) by (auto simp: e)
    ultimately show ?thesis by auto
  qed
  moreover have "process_wait_scan target (t\<lparr>current := b\<rparr>) = (int p, Some code)"
    by (rule wait_scan_finds [OF a g(1) w]) (use T in auto)
  ultimately show ?thesis by blast
qed

lemma sched_demo_awaited: "awaited sched_demo 3 4 [2, 3]" "childless sched_demo 3"
  "process_wait_scan (- 1) (sched_demo\<lparr>current := 4\<rparr>) = (0, None)"
proof -
  show "awaited sched_demo 3 4 [2, 3]" "childless sched_demo 3"
    using rq_demo unfolding awaited_def childless_def
    by (auto simp: sched_demo_def sched_base_proc demo_proc_def proc_zero_def)
  show "process_wait_scan (- 1) (sched_demo\<lparr>current := 4\<rparr>) = (0, None)" by code_simp
qed

theorem exit_wakes_waiting_parent_witness:
  "process_wait_scan (- 1) ((exit_process_code 0x5000 3 256 sched_demo)\<lparr>current := 4\<rparr>) = (3, Some 256)"
proof -
  have "wait_target (proc sched_demo 4) = word_of_int (- 1)"
    by (simp add: sched_demo_def sched_base_proc demo_proc_def)
  then show ?thesis
    using exit_wakes_waiting_parent [OF sched_demo_awaited(1,2) _ _ sched_demo_awaited(3), of "0x5000" 256] by simp
qed

section \<open>Reaping a queued slot\<close>

lemma chain_cut:
  "chain n h (xs @ p # ys) \<Longrightarrow> p \<notin> set xs \<Longrightarrow> chain (n(p := None)) h (xs @ [p])"
  by (induction xs arbitrary: h) auto

lemma reap_slot_effect:
  assumes "i < length (pcb s)"
  shows "proc (process_reap_slot i s) j = (if j = i then proc_zero else proc s j)"
    "ready_head (process_reap_slot i s) = ready_head s" "ready_tail (process_reap_slot i s) = ready_tail s"
    "length (pcb (process_reap_slot i s)) = length (pcb s)"
proof -
  define u where "u = (if private_dir s i
     then proc_upd i (\<lambda>q. q\<lparr>page_dir := 0\<rparr>) (paging_destroy_address_space (page_dir (proc s i)) s) else s)"
  define v where "v = (if kstack_phys (proc u i) \<noteq> 0
     then proc_upd i (\<lambda>q. q\<lparr>kstack_phys := 0\<rparr>) (pmm_free_page (kstack_phys (proc u i)) u) else u)"
  have r: "process_reap_slot i s = proc_upd i (\<lambda>_. proc_zero) v"
    by (simp add: process_reap_slot_def u_def v_def proc_clear_def Let_def)
  have d: "pcb (paging_destroy_address_space x s) = pcb s" "ready_head (paging_destroy_address_space x s) = ready_head s"
    "ready_tail (paging_destroy_address_space x s) = ready_tail s" for x
    using sched_same_destroy [of s x] by (auto simp: sched_same_def)
  have f: "pcb (pmm_free_page x u) = pcb u" "ready_head (pmm_free_page x u) = ready_head u"
    "ready_tail (pmm_free_page x u) = ready_tail u" for x
    using sched_same_machine(4) [of u x] by (auto simp: sched_same_def)
  have u: "length (pcb u) = length (pcb s)" "ready_head u = ready_head s" "ready_tail u = ready_tail s"
    "\<And>j. j \<noteq> i \<Longrightarrow> proc u j = proc s j"
    by (auto simp: u_def d proc_cong [OF d(1)])
  have v: "length (pcb v) = length (pcb s)" "ready_head v = ready_head s" "ready_tail v = ready_tail s"
    "\<And>j. j \<noteq> i \<Longrightarrow> proc v j = proc s j"
    using u by (auto simp: v_def f proc_cong [OF f(1)])
  show "proc (process_reap_slot i s) j = (if j = i then proc_zero else proc s j)"
    "ready_head (process_reap_slot i s) = ready_head s" "ready_tail (process_reap_slot i s) = ready_tail s"
    "length (pcb (process_reap_slot i s)) = length (pcb s)"
    using v assms by (simp_all add: r)
qed

text \<open>Property C40: waiting for a child that was killed while it was in the ready queue
  breaks the queue: the slot is cleared while it is still linked, so the queue ends at
  it, the ready processes behind it can no longer be reached from the head, and the
  tail still points to the last of them.\<close>

theorem reap_cuts_queue:
  assumes q: "rq s (xs @ p # ys)" and p: "0 < p" "pstate (proc s p) = PROC_TERMINATED" "pid (proc s p) \<noteq> 0"
    and y: "ys \<noteq> []"
  defines "t \<equiv> process_wait_reap (int p) s"
  shows "chain (nxt t) (ready_head t) (xs @ [p]) \<and> ready_tail t = Some (last ys) \<and> (\<forall>zs. \<not> rq t zs)"
proof -
  have l: "p < 32" "length (pcb s) = 32" "p \<notin> set xs" "p \<notin> set ys" using q by (auto simp: rq_def)
  have t: "t = process_reap_slot p s" using p l by (simp add: t_def process_wait_reap_def)
  note e = reap_slot_effect [of p s, folded t]
  have n: "nxt t = (nxt s)(p := None)" using e(1) l by (auto simp: nxt_def fun_eq_iff proc_zero_def)
  have h: "ready_head t = ready_head s" "ready_tail t = Some (last ys)"
    using e(2,3) l q y by (auto simp: rq_def)
  have c: "chain (nxt t) (ready_head t) (xs @ [p])"
    unfolding n h(1) by (rule chain_cut [of _ _ _ _ ys]) (use q l in \<open>auto simp: rq_def\<close>)
  have "\<not> rq t zs" for zs
  proof
    assume "rq t zs"
    then have "zs = xs @ [p]" "ready_tail t = (if zs = [] then None else Some (last zs))"
      using chain_unique [OF c] by (auto simp: rq_def)
    then have "last ys = p" using h(2) by simp
    then show False using y l(4) last_in_set [OF y] by simp
  qed
  then show ?thesis using c h(2) by blast
qed

theorem reap_cuts_queue_witness:
  "\<exists>t. t = process_wait_reap 2 (proc_upd 2 (\<lambda>q. q\<lparr>pstate := PROC_TERMINATED\<rparr>) sched_demo)
     \<and> chain (nxt t) (ready_head t) [2] \<and> ready_tail t = Some 3 \<and> pstate (proc t 3) = PROC_READY"
proof -
  let ?s = "proc_upd 2 (\<lambda>q. q\<lparr>pstate := PROC_TERMINATED\<rparr>) sched_demo"
  have q: "rq ?s ([] @ 2 # [3])" using rq_demo by (simp add: rq_proc_upd)
  have l: "length (pcb sched_demo) = 32" using rq_length [OF rq_demo] .
  have s2: "pstate (proc ?s 2) = PROC_TERMINATED" "pid (proc ?s 2) \<noteq> 0" "pstate (proc ?s 3) = PROC_READY"
    using l by (simp_all add: sched_demo_def sched_base_proc demo_proc_def sched_base_fields)
  have w: "process_wait_reap 2 ?s = process_reap_slot 2 ?s" using s2 by (simp add: process_wait_reap_def)
  have "pstate (proc (process_reap_slot 2 ?s) 3) = PROC_READY"
    using reap_slot_effect(1) [of 2 ?s 3] l s2(3) by simp
  then show ?thesis using reap_cuts_queue [OF q _ s2(1,2)] w by simp
qed

end
