(* ===== verification/Syscall.thy ===== *)
theory Syscall
  imports NetWait Elf VfsInit SchedProps
begin

text \<open>
  The system calls, \<^verbatim>\<open>src/kernel/syscall.c\<close>: the dispatcher behind \<open>int 0x80\<close> and every call it
  serves, over the network stack, the processes with their memory, and the file layer.

  The kernel state is the record \<open>kst\<close> of the three.  User memory is a function \<open>um\<close> from
  addresses to bytes; a call returns the list of the blocks it stores there, in order, as
  the code orders the stores and without the page faults they may cause.  Its
  result is \<open>None\<close> when the kernel does not get to the end of it (a fault, a loop that does
  not end), and otherwise the value for the caller, which is \<open>None\<close> when the caller is gone:
  it exited, and the processor is with another process.  What happens outside a call is in
  the record \<open>env\<close>: the interrupts during the network waits, the keys during a read of the
  keyboard, and the state of the machine each time the caller sleeps and is woken.
\<close>

unbundle bit_operations_syntax

section \<open>State\<close>

text \<open>The socket behind a descriptor is a slot of one of the two tables of handles.\<close>

datatype sockref = UdpH nat | TcpH nat

record kst =
  k_net :: tcpst
  k_proc :: procst
  k_vfs :: "sockref vfs"
  exec_img_buf :: "u8 list"
  next_mmap :: u32
  boot_epoch :: u32

type_synonym umem = "u32 \<Rightarrow> u8"

record env =
  e_esp :: u32
  e_anchor :: u32
  e_rounds :: "nev list list"
  e_keys :: "(u8 list \<times> u32) list"
  e_wakes :: "(umem \<times> kst) list"
  e_shell :: "u8 list"
  e_sock_abi :: "u8 list"
  e_nginx :: "u8 list"
  e_img_addr :: u32

type_synonym uwrites = "(u32 \<times> u8 list) list"

type_synonym kret = "(int option \<times> uwrites \<times> kst) option"

abbreviation (input) ret :: "int \<Rightarrow> kst \<Rightarrow> kret" where "ret r k \<equiv> Some (Some r, [], k)"

abbreviation (input) "CATOS_EXEC_IMG_MAX \<equiv> (524288 :: nat)"
abbreviation (input) "CATOS_NGINX_STACK_BASE \<equiv> (0x708000 :: u32)"
abbreviation (input) "CATOS_NGINX_STACK_PAGES \<equiv> (16 :: nat)"
abbreviation (input) "CATOS_NGINX_USER_SP \<equiv> (0x718000 :: u32)"
abbreviation (input) "CATOS_EXEC_USER_STACK_SP \<equiv> (0x701000 :: u32)"
abbreviation (input) "CATOS_SOCKABI_USER_SP \<equiv> (0x703000 :: u32)"
abbreviation (input) "CATOS_UDP_PAYLOAD_MAX \<equiv> (1472 :: u32)"

section \<open>Checks and descriptors\<close>

definition user_range_ok :: "u32 \<Rightarrow> u32 \<Rightarrow> bool" where
  "user_range_ok p n \<longleftrightarrow> p \<ge> 0x400000 \<and> n \<le> 0xBFC00000 - p"

definition bad_user :: "kst \<Rightarrow> u32 \<Rightarrow> u32 \<Rightarrow> bool \<Rightarrow> bool option" where
  "bad_user k p n w = do { ok \<leftarrow> user_access_ok (k_proc k) p n w; Some (\<not> ok) }"

definition sock_fd :: "int \<Rightarrow> kst \<Rightarrow> sockref option" where
  "sock_fd fd k = vfs_socket_get fd (k_vfs k)"

definition sock_err :: "int \<Rightarrow> kst \<Rightarrow> int" where
  "sock_err fd k = (if vfs_fd_exists fd (k_vfs k) then - 88 else - 9)"

definition sock_xlate :: "int \<Rightarrow> int \<Rightarrow> int" where
  "sock_xlate r fallback = (if r \<ge> 0 then r else if r = - 1 then fallback else r)"

definition sock_of :: "sockref \<Rightarrow> tcpst \<Rightarrow> socket" where
  "sock_of r s = (case r of UdpH i \<Rightarrow> udp_handles s ! i | TcpH i \<Rightarrow> tcp_handles s ! i)"

definition put_sock :: "sockref \<Rightarrow> socket \<Rightarrow> tcpst \<Rightarrow> tcpst" where
  "put_sock r h s =
     (case r of UdpH i \<Rightarrow> s\<lparr>udp_handles := (udp_handles s)[i := h]\<rparr>
      | TcpH i \<Rightarrow> s\<lparr>tcp_handles := (tcp_handles s)[i := h]\<rparr>)"

text \<open>The caller continues only if the processor is still with it.\<close>

definition resumes :: "procst \<Rightarrow> procst \<Rightarrow> int \<Rightarrow> int option" where
  "resumes s t r = (if current t = current s then Some r else None)"

section \<open>Processes\<close>

fun fetch_loop :: "nat \<Rightarrow> procst \<Rightarrow> umem \<Rightarrow> u32 \<Rightarrow> u8 list option option" where
  "fetch_loop 0 pg um a = Some None"
| "fetch_loop (Suc n) pg um a = do {
     ok \<leftarrow> user_access_ok pg a 1 False;
     if \<not> ok then Some None
     else if um a = 0 then Some (Some [])
     else do { r \<leftarrow> fetch_loop n pg um (a + 1); Some (map_option ((#) (um a)) r) } }"

text \<open>The path, or \<open>None\<close> for the error \<open>EFAULT\<close>.\<close>

definition sys_fetch_path :: "procst \<Rightarrow> umem \<Rightarrow> u32 \<Rightarrow> u8 list option option" where
  "sys_fetch_path pg um a = do {
     ok \<leftarrow> user_access_ok pg a 1 False;
     if \<not> ok then Some None else fetch_loop 255 pg um a }"

fun sys_streq :: "u8 list \<Rightarrow> u8 list \<Rightarrow> bool" where
  "sys_streq (x # xs) (y # ys) = (x = y \<and> sys_streq xs ys)"
| "sys_streq [] [] = True"
| "sys_streq _ _ = False"

definition exec_embedded :: "env \<Rightarrow> u8 list \<Rightarrow> u8 list option" where
  "exec_embedded e path =
     (let im = (if e_shell e \<noteq> [] \<and> sys_streq path (asc ''/bin/shell'') then Some (e_shell e) else None);
          im = (if e_sock_abi e \<noteq> [] \<and> sys_streq path (asc ''/bin/sock_abi'') then Some (e_sock_abi e) else im)
      in if e_nginx e \<noteq> [] \<and> sys_streq path (asc ''/bin/nginx'') then Some (e_nginx e) else im)"

text \<open>The loop that reads the image: the error, if any, the bytes read, the buffer.\<close>

partial_function (option) exec_read ::
  "env \<Rightarrow> procst \<Rightarrow> u32 \<Rightarrow> int \<Rightarrow> nat \<Rightarrow> u8 list \<Rightarrow> sockref vfs \<Rightarrow> (int option \<times> nat \<times> u8 list \<times> sockref vfs) option" where
  "exec_read e pg now fd got buf v =
     (if got \<ge> CATOS_EXEC_IMG_MAX then Some (Some (- 7), got, buf, snd (vfs_close fd v))
      else do {
        (r, b, v) \<leftarrow> vfs_read pg (e_keys e) now fd (e_img_addr e + of_nat got) (drop got buf) (of_nat (CATOS_EXEC_IMG_MAX - got)) v;
        if r < 0 then Some (Some r, got, take got buf @ b, snd (vfs_close fd v))
        else if r = 0 then Some (None, got, take got buf @ b, snd (vfs_close fd v))
        else exec_read e pg now fd (got + nat r) (take got buf @ b) v })"

text \<open>The image of a path, or the error.\<close>

definition exec_image :: "env \<Rightarrow> u8 list \<Rightarrow> kst \<Rightarrow> ((int + u8 list) \<times> kst) option" where
  "exec_image e path k =
     (case exec_embedded e path of Some im \<Rightarrow> Some (Inr im, k)
      | None \<Rightarrow> do {
          (fd, v) \<leftarrow> vfs_open path O_RDONLY (k_vfs k);
          if fd < 0 then Some (Inl fd, k\<lparr>k_vfs := v\<rparr>)
          else do {
            (err, got, buf, v) \<leftarrow> exec_read e (k_proc k) (ticks (k_net k)) fd 0 (exec_img_buf k) v;
            let k = k\<lparr>k_vfs := v, exec_img_buf := buf\<rparr>;
            Some (case err of Some r \<Rightarrow> Inl r | None \<Rightarrow> if got = 0 then Inl (- 2) else Inr (take got buf), k) } })"

fun exec_stack :: "nat list \<Rightarrow> procst \<Rightarrow> bool \<times> procst" where
  "exec_stack [] s = (True, s)"
| "exec_stack (i # is) s =
     (case pmm_alloc_page s of (phys, s) \<Rightarrow>
        if phys = 0 then (False, s)
        else (case map_page (CATOS_NGINX_STACK_BASE + of_nat i * 4096) phys (PAGE_PRESENT OR PAGE_RW OR PAGE_USER) s of
          (r, s) \<Rightarrow> if r \<noteq> 0 then (False, pmm_free_page phys s) else exec_stack is s))"

definition sys_exec :: "env \<Rightarrow> u32 list \<Rightarrow> umem \<Rightarrow> kst \<Rightarrow> kret" where
  "sys_exec e a um k = do {
     path \<leftarrow> sys_fetch_path (k_proc k) um (a ! 0);
     case path of None \<Rightarrow> ret (- 14) k
     | Some path \<Rightarrow> do {
         (im, k) \<leftarrow> exec_image e path k;
         case im of Inl err \<Rightarrow> ret err k
         | Inr im \<Rightarrow> do {
             let is_nginx = sys_streq path (asc ''/bin/nginx'');
             (segs, entry, p) \<leftarrow> (if is_nginx then elf_load_ex im CATOS_NGINX_STACK_BASE (k_proc k) else elf_load im (k_proc k));
             if segs < 0 then ret segs (k\<lparr>k_proc := p\<rparr>)
             else (case (if is_nginx then exec_stack [1..<CATOS_NGINX_STACK_PAGES] p else (True, p)) of (ok, p) \<Rightarrow>
               if \<not> ok then ret (- 12) (k\<lparr>k_proc := p\<rparr>)
               else
                 let sp = (if is_nginx then CATOS_NGINX_USER_SP else CATOS_EXEC_USER_STACK_SP);
                     sp = (if sys_streq path (asc ''/bin/sock_abi'') then CATOS_SOCKABI_USER_SP else sp)
                 in (case create_user_process (case entry of Some x \<Rightarrow> x | None \<Rightarrow> 0) 0 sp p of
                       (r, p) \<Rightarrow> ret r (k\<lparr>k_proc := p\<rparr>))) } } }"

definition sys_exit :: "env \<Rightarrow> u32 list \<Rightarrow> kst \<Rightarrow> kret" where
  "sys_exit e a k =
     (let pd = process_current_pid (k_proc k) in
      if pd = 0 then ret (- 1) k
      else
        let p = exit_process_code (e_esp e) (sint pd) (sint (push_bit 8 (a ! 0 AND 0xFF))) (k_proc k)
        in Some (resumes (k_proc k) p 0, [], k\<lparr>k_proc := p\<rparr>))"

definition sys_wait :: "u32 list \<Rightarrow> kst \<Rightarrow> kret" where
  "sys_wait a k = do { bad \<leftarrow> bad_user k (a ! 0) 4 True; if bad then ret (- 14) k else ret (- 10) k }"

definition sys_fork :: "env \<Rightarrow> kst \<Rightarrow> kret" where
  "sys_fork e k = (case process_fork_user (e_anchor e) (k_proc k) of (r, p) \<Rightarrow> ret r (k\<lparr>k_proc := p\<rparr>))"

definition cow_page_ok :: "procst \<Rightarrow> u32 \<Rightarrow> bool" where
  "cow_page_ok s v =
     (let pde = pmem s (cr3 s AND PAGE_FRAME_MASK) (PDE_INDEX v) in
      if (pde AND PAGE_PRESENT) = 0 \<or> (pde AND PAGE_USER) = 0 \<or> (pde AND PAGE_PSE) \<noteq> 0 then False
      else
        let pte = pmem s (pde AND PAGE_FRAME_MASK) (PTE_INDEX v) in
        \<not> ((pte AND PAGE_PRESENT) = 0 \<or> (pte AND PAGE_USER) = 0) \<and> (pte AND (PAGE_RW OR PAGE_COW)) \<noteq> 0)"

partial_function (option) cow_pages_ok :: "procst \<Rightarrow> u32 \<Rightarrow> u32 \<Rightarrow> bool option" where
  "cow_pages_ok s v e =
     (if v < e then (if \<not> cow_page_ok s v then Some False else cow_pages_ok s (v + PAGE_SIZE) e) else Some True)"

definition user_cow_faultable :: "procst \<Rightarrow> u32 \<Rightarrow> u32 \<Rightarrow> bool option" where
  "user_cow_faultable s u n = do {
     ok \<leftarrow> user_access_ok s u n False;
     if \<not> ok then Some False else cow_pages_ok s (u AND PAGE_FRAME_MASK) (u + n) }"

definition status_ok :: "procst \<Rightarrow> u32 \<Rightarrow> bool option" where
  "status_ok s ust = do {
     ok \<leftarrow> user_access_ok s ust 4 True;
     if ok then Some True else user_cow_faultable s ust 4 }"

text \<open>The loop of \<open>waitpid\<close>.  A caller that goes to sleep finds the next state of the list
  when it is woken.\<close>

definition waitpid_reap :: "u32 \<Rightarrow> int \<Rightarrow> int option \<Rightarrow> kst \<Rightarrow> kret" where
  "waitpid_reap ust z code k = do {
     w \<leftarrow> (if ust \<noteq> 0 then status_ok (k_proc k) ust else Some False);
     Some (Some z, if w then [(ust, le32 (word_of_int (the code)))] else [], k\<lparr>k_proc := process_wait_reap z (k_proc k)\<rparr>) }"

fun waitpid_loop :: "env \<Rightarrow> (umem \<times> kst) list \<Rightarrow> int \<Rightarrow> u32 \<Rightarrow> kst \<Rightarrow> kret" where
  "waitpid_loop e ws target ust k =
     (case process_wait_scan target (k_proc k) of (z, code) \<Rightarrow>
        if z > 0 then waitpid_reap ust z code k
        else if z < 0 then ret z k
        else
          (case ws of [] \<Rightarrow> None
           | (um, k') # ws \<Rightarrow>
               let p = process_wait_block (e_esp e) target (k_proc k)
               in waitpid_loop e ws target ust (if current p = current (k_proc k) then k\<lparr>k_proc := p\<rparr> else k')))"

declare waitpid_loop.simps [simp del]

definition sys_waitpid :: "env \<Rightarrow> u32 list \<Rightarrow> kst \<Rightarrow> kret" where
  "sys_waitpid e a k =
     (let target = sint (a ! 0); ust = a ! 1 in
      if a ! 2 \<noteq> 0 then ret (- 22) k
      else if target = 0 \<or> target < - 1 then ret (- 22) k
      else do {
        ok \<leftarrow> (if ust \<noteq> 0 then status_ok (k_proc k) ust else Some True);
        if \<not> ok then ret (- 14) k else waitpid_loop e (e_wakes e) target ust k })"

definition sys_kill :: "env \<Rightarrow> u32 list \<Rightarrow> kst \<Rightarrow> kret" where
  "sys_kill e a k = (case process_kill (e_esp e) (a ! 0) (a ! 1) (k_proc k) of
     (r, p) \<Rightarrow> Some (resumes (k_proc k) p r, [], k\<lparr>k_proc := p\<rparr>))"

definition proc_syscall :: "env \<Rightarrow> u32 \<Rightarrow> u32 list \<Rightarrow> umem \<Rightarrow> kst \<Rightarrow> kret" where
  "proc_syscall e nr a um k =
     (if nr = 11 then sys_exec e a um k
      else if nr = 12 then sys_exit e a k
      else if nr = 13 then sys_wait a k
      else if nr = 33 then sys_fork e k
      else if nr = 34 then sys_waitpid e a k
      else if nr = 35 then sys_kill e a k
      else ret (- 38) k)"

text \<open>The delivery of signals on the way out of every call.\<close>

definition sig_clear :: "nat \<Rightarrow> nat \<Rightarrow> procst \<Rightarrow> procst" where
  "sig_clear i sig s = proc_upd i (\<lambda>q. q\<lparr>sig_pending := sig_pending q AND NOT (push_bit sig 1)\<rparr>) s"

definition syscall_signal_deliver :: "env \<Rightarrow> int \<Rightarrow> procst \<Rightarrow> int option \<times> procst" where
  "syscall_signal_deliver e r s =
     (let pd = process_current_pid s in
      if pd = 0 \<or> unat pd \<ge> MAX_PROCESSES then (Some r, s)
      else
        let i = unat pd; pend = sig_pending (proc s i) in
        if bit pend 9 then
          (let t = exit_process_code (e_esp e) (int i) 9 (sig_clear i 9 s) in (resumes s t r, t))
        else if bit pend 15 then
          (let t = exit_process_code (e_esp e) (int i) 15 (sig_clear i 15 s) in (resumes s t r, t))
        else if bit pend 17 then (Some r, sig_clear i 17 s)
        else (Some r, s))"

section \<open>Time, polling and memory\<close>

definition sys_gettimeofday :: "u32 list \<Rightarrow> kst \<Rightarrow> kret" where
  "sys_gettimeofday a k =
     (if a ! 0 = 0 then ret 0 k
      else do {
        bad \<leftarrow> bad_user k (a ! 0) 8 True;
        if bad then ret (- 14) k
        else
          let now = ticks (k_net k); tv = (a ! 0, le32 (boot_epoch k + now div 100) @ le32 (now mod 100 * 10000)) in
          if a ! 1 \<noteq> 0 then do {
            bad \<leftarrow> bad_user k (a ! 1) 8 True;
            Some (if bad then (Some (- 14), [tv], k) else (Some 0, [tv, (a ! 1, le32 0 @ le32 0)], k)) }
          else Some (Some 0, [tv], k) })"

definition sys_clock_gettime :: "u32 list \<Rightarrow> kst \<Rightarrow> kret" where
  "sys_clock_gettime a k = do {
     bad \<leftarrow> bad_user k (a ! 1) 8 True;
     if bad then ret (- 14) k
     else
       let now = ticks (k_net k); ns = le32 (now mod 100 * 10000000) in
       if a ! 0 = 0 then Some (Some 0, [(a ! 1, le32 (boot_epoch k + now div 100) @ ns)], k)
       else if a ! 0 = 1 then Some (Some 0, [(a ! 1, le32 (now div 100) @ ns)], k)
       else ret (- 22) k }"

abbreviation (input) "CATOS_POLLIN \<equiv> (1 :: u16)"
abbreviation (input) "CATOS_POLLOUT \<equiv> (4 :: u16)"
abbreviation (input) "CATOS_POLLNVAL \<equiv> (0x20 :: u16)"

definition poll_check_fd :: "int \<Rightarrow> u16 \<Rightarrow> kst \<Rightarrow> u16" where
  "poll_check_fd fd events k =
     (case sock_fd fd k of Some r \<Rightarrow> net_socket_poll (Some (sock_of r (k_net k))) events (k_net k)
      | None \<Rightarrow>
          let re = (if vfs_fd_readable fd (k_vfs k) \<and> events AND CATOS_POLLIN \<noteq> 0 then CATOS_POLLIN else 0);
              re = re OR (if vfs_fd_writable fd (k_vfs k) \<and> events AND CATOS_POLLOUT \<noteq> 0 then CATOS_POLLOUT else 0)
          in if re = 0 \<and> \<not> vfs_fd_exists fd (k_vfs k) then CATOS_POLLNVAL else re)"

text \<open>One pass over the entries: the number of ready ones, and the events stored.\<close>

fun poll_scan :: "nat list \<Rightarrow> u32 \<Rightarrow> umem \<Rightarrow> kst \<Rightarrow> int \<times> uwrites" where
  "poll_scan [] ufds um k = (0, [])"
| "poll_scan (i # is) ufds um k =
     (let pfd = um_bytes um (ufds + of_nat i * 8) 8;
          re = poll_check_fd (sint (rd32 pfd 0)) (rd16 pfd 4) k
      in (case poll_scan is ufds um k of (ready, ws) \<Rightarrow>
            (if re \<noteq> 0 then ready + 1 else ready, (ufds + of_nat i * 8 + 6, le16 re) # ws)))"

text \<open>The caller halts between two passes and finds the next state of the list.\<close>

fun poll_loop :: "(umem \<times> kst) list \<Rightarrow> u32 \<Rightarrow> nat \<Rightarrow> int \<Rightarrow> u32 \<Rightarrow> u32 \<Rightarrow> umem \<Rightarrow> kst \<Rightarrow> kret" where
  "poll_loop rest ufds nfds tmo start tt um k =
     (case poll_scan [0..<nfds] ufds um k of (ready, ws) \<Rightarrow>
        if ready > 0 then Some (Some ready, ws, k)
        else if tmo = 0 then Some (Some 0, ws, k)
        else if ticks (k_net k) - start \<ge> tt then Some (Some 0, ws, k)
        else (case rest of [] \<Rightarrow> None
          | (um, k) # rest \<Rightarrow> do {
              (r, ws', k) \<leftarrow> poll_loop rest ufds nfds tmo start tt um k;
              Some (r, ws @ ws', k) }))"

declare poll_loop.simps [simp del]

definition sys_poll :: "env \<Rightarrow> u32 list \<Rightarrow> umem \<Rightarrow> kst \<Rightarrow> kret" where
  "sys_poll e a um k =
     (let ufds = a ! 0; nfds = a ! 1; tmo = sint (a ! 2) in
      if nfds = 0 then ret 0 k
      else if nfds > 0xFFFFFFFF div 8 then ret (- 22) k
      else do {
        bad \<leftarrow> bad_user k ufds (nfds * 8) True;
        if bad then ret (- 14) k
        else poll_loop (e_wakes e) ufds (unat nfds) tmo (ticks (k_net k))
               (if tmo < 0 then 0xFFFFFFFF else (a ! 2 + 9) div 10) um k })"

definition sys_brk :: "kst \<Rightarrow> kret" where
  "sys_brk k = ret 0x404000 k"

text \<open>\<open>memset((void *)phys, 0, 4096)\<close> writes through the current page directory, at the
  virtual address that equals the frame.  A fault that the copy-on-write handler does not
  resolve stops the kernel.\<close>

definition memset_virt_page :: "u32 \<Rightarrow> procst \<Rightarrow> procst option" where
  "memset_virt_page va s =
     (let pde = pmem s (cr3 s) (PDE_INDEX va) in
      if (pde AND PAGE_PRESENT) = 0 then None
      else if (pde AND PAGE_PSE) \<noteq> 0 then
        (if (pde AND PAGE_RW) = 0 then None else Some (pm_zero ((pde AND 0xFFC00000) OR (va AND 0x3FF000)) s))
      else
        let pte = pmem s (pde AND PAGE_FRAME_MASK) (PTE_INDEX va) in
        if (pte AND PAGE_PRESENT) = 0 then None
        else if (pte AND PAGE_RW) \<noteq> 0 then Some (pm_zero (pte AND PAGE_FRAME_MASK) s)
        else (case paging_handle_cow_fault va 3 s of (r, s) \<Rightarrow>
          if r \<noteq> 0 then None
          else Some (pm_zero (pmem s (pde AND PAGE_FRAME_MASK) (PTE_INDEX va) AND PAGE_FRAME_MASK) s)))"

text \<open>Each page contributes the 4096 zero bytes stored at its address.\<close>

fun mmap_pages :: "nat list \<Rightarrow> u32 \<Rightarrow> procst \<Rightarrow> (bool \<times> uwrites \<times> procst) option" where
  "mmap_pages [] vaddr s = Some (True, [], s)"
| "mmap_pages (i # is) vaddr s =
     (case pmm_alloc_page s of (phys, s) \<Rightarrow>
        if phys = 0 then Some (False, [], s)
        else do {
          s \<leftarrow> memset_virt_page phys s;
          let w = (phys, replicate 4096 0);
          case map_page (vaddr + of_nat i * 4096) phys (PAGE_PRESENT OR PAGE_RW OR PAGE_USER) s of (r, s) \<Rightarrow>
            if r < 0 then Some (False, [w], pmm_free_page phys s)
            else do { (ok, ws, s) \<leftarrow> mmap_pages is vaddr s; Some (ok, w # ws, s) } })"

definition sys_mmap2 :: "u32 list \<Rightarrow> kst \<Rightarrow> kret" where
  "sys_mmap2 a k =
     (let len = a ! 1 in
      if len = 0 then ret (- 22) k
      else do {
        let pages = (len + 4095) div 4096;
        let (vaddr, k) = (if a ! 0 = 0 then (next_mmap k, k\<lparr>next_mmap := next_mmap k + pages * 4096\<rparr>) else (a ! 0, k));
        (ok, ws, p) \<leftarrow> mmap_pages [0..<unat pages] vaddr (k_proc k);
        Some (Some (if ok then sint vaddr else - 12), ws, k\<lparr>k_proc := p\<rparr>) })"

definition sys_munmap :: "kst \<Rightarrow> kret" where
  "sys_munmap k = ret 0 k"

section \<open>Descriptors\<close>

definition sys_dup2 :: "u32 list \<Rightarrow> kst \<Rightarrow> kret" where
  "sys_dup2 a k = (case vfs_dup2 (sint (a ! 0)) (sint (a ! 1)) (k_vfs k) of (r, v) \<Rightarrow> ret r (k\<lparr>k_vfs := v\<rparr>))"

definition sys_fcntl :: "u32 list \<Rightarrow> kst \<Rightarrow> kret" where
  "sys_fcntl a k = (case vfs_fcntl (sint (a ! 0)) (sint (a ! 1)) (a ! 2) (k_vfs k) of (r, v) \<Rightarrow> ret r (k\<lparr>k_vfs := v\<rparr>))"

definition sys_ioctl :: "u32 list \<Rightarrow> kst \<Rightarrow> kret" where
  "sys_ioctl a k = do {
     (r, ws) \<leftarrow> vfs_ioctl (k_proc k) (sint (a ! 0)) (a ! 1) (a ! 2) (k_vfs k);
     Some (Some r, if ws = [] then [] else [(a ! 2, concat (map le16 ws))], k) }"

definition stat_bytes :: "catos_stat \<Rightarrow> u8 list" where
  "stat_bytes st = concat (map le32 [st_dev st, st_ino st, st_mode st, st_nlink st, st_uid st, st_gid st, st_rdev st,
     st_size st, st_blksize st, st_blocks st])"

definition sys_fstat :: "u32 list \<Rightarrow> kst \<Rightarrow> kret" where
  "sys_fstat a k = do {
     (r, st) \<leftarrow> vfs_fstat (k_proc k) (sint (a ! 0)) (a ! 1) (k_vfs k);
     Some (Some r, case st of Some x \<Rightarrow> [(a ! 1, stat_bytes x)] | None \<Rightarrow> [], k) }"

definition sys_lseek :: "u32 list \<Rightarrow> kst \<Rightarrow> kret" where
  "sys_lseek a k = (case vfs_lseek (sint (a ! 0)) (a ! 1) (sint (a ! 2)) (k_vfs k) of (r, v) \<Rightarrow> ret r (k\<lparr>k_vfs := v\<rparr>))"

text \<open>The import of the vector: \<open>None\<close> for \<open>EFAULT\<close>.\<close>

fun iov_import :: "nat list \<Rightarrow> u32 \<Rightarrow> umem \<Rightarrow> kst \<Rightarrow> (u32 \<times> u32) list option option" where
  "iov_import [] iov um k = Some (Some [])"
| "iov_import (i # is) iov um k = do {
     let e = um_bytes um (iov + of_nat i * 8) 8;
     bad \<leftarrow> (if rd32 e 4 \<noteq> 0 then bad_user k (rd32 e 0) (rd32 e 4) False else Some False);
     if bad then Some None
     else do { r \<leftarrow> iov_import is iov um k; Some (map_option ((#) (rd32 e 0, rd32 e 4)) r) } }"

fun writev_send :: "(u32 \<times> u32) list \<Rightarrow> sockref \<Rightarrow> umem \<Rightarrow> u32 \<Rightarrow> tcpst \<Rightarrow> int \<times> tcpst" where
  "writev_send [] r um tot s = (sint tot, s)"
| "writev_send ((base, len) # vs) h um tot s =
     (if len = 0 then writev_send vs h um tot s
      else (case tcp_send (Some (sock_of h s)) (um_bytes um base (unat len)) s of (r0, s) \<Rightarrow>
        let r = sock_xlate r0 (- 11) in
        if r < 0 then (if tot \<noteq> 0 then sint tot else r, s)
        else if (word_of_int r :: u32) < len then (sint (tot + word_of_int r), s)
        else writev_send vs h um (tot + word_of_int r) s))"

definition sys_writev :: "u32 list \<Rightarrow> umem \<Rightarrow> kst \<Rightarrow> kret" where
  "sys_writev a um k =
     (case sock_fd (sint (a ! 0)) k of
        None \<Rightarrow> do {
          (r, v) \<leftarrow> vfs_writev (k_proc k) um (sint (a ! 0)) (a ! 1) (sint (a ! 2)) (k_vfs k);
          ret r (k\<lparr>k_vfs := v\<rparr>) }
      | Some h \<Rightarrow>
          if a ! 2 > 16 then ret (- 22) k
          else if so_type (sock_of h (k_net k)) \<noteq> SOCK_TCP_ESTAB then ret (- 107) k
          else do {
            bad \<leftarrow> (if a ! 2 \<noteq> 0 then bad_user k (a ! 1) (a ! 2 * 8) False else Some False);
            if bad then ret (- 14) k
            else do {
              vs \<leftarrow> iov_import [0..<unat (a ! 2)] (a ! 1) um k;
              case vs of None \<Rightarrow> ret (- 14) k
              | Some vs \<Rightarrow> (case writev_send vs h um 0 (k_net k) of (r, s) \<Rightarrow> ret r (k\<lparr>k_net := s\<rparr>)) } })"

section \<open>Sockets\<close>

text \<open>The prologue of the calls on a socket.\<close>

definition with_sock :: "u32 \<Rightarrow> kst \<Rightarrow> (sockref \<Rightarrow> kret) \<Rightarrow> kret" where
  "with_sock fd k f = (case sock_fd (sint fd) k of None \<Rightarrow> ret (sock_err (sint fd) k) k | Some h \<Rightarrow> f h)"

definition sys_socket :: "u32 list \<Rightarrow> kst \<Rightarrow> kret" where
  "sys_socket a k =
     (if a ! 0 \<noteq> 2 \<and> a ! 0 \<noteq> 1 then ret (- 22) k
      else (case net_socket_open (a ! 0) (k_net k) of
         (None, s) \<Rightarrow> ret (- 24) (k\<lparr>k_net := s\<rparr>)
       | (Some i, s) \<Rightarrow>
           let h = (if a ! 0 = 2 then UdpH i else TcpH i) in
           (case vfs_socket_install h (k_vfs k) of (fd, v) \<Rightarrow>
              if fd < 0 then
                (case net_socket_close (sock_of h s) s of (_, g, s) \<Rightarrow> ret fd (k\<lparr>k_net := put_sock h g s, k_vfs := v\<rparr>))
              else ret fd (k\<lparr>k_net := s, k_vfs := v\<rparr>))))"

definition sys_bind :: "u32 list \<Rightarrow> kst \<Rightarrow> kret" where
  "sys_bind a k = with_sock (a ! 0) k (\<lambda>h.
     case net_socket_bind (sock_of h (k_net k)) (ucast (a ! 1)) (k_net k) of (r, g, s) \<Rightarrow>
       ret r (k\<lparr>k_net := put_sock h g s\<rparr>))"

definition sys_listen :: "u32 list \<Rightarrow> kst \<Rightarrow> kret" where
  "sys_listen a k = with_sock (a ! 0) k (\<lambda>h.
     case tcp_set_backlog (Some (sock_of h (k_net k))) (a ! 1) (k_net k) of (r, s) \<Rightarrow> ret r (k\<lparr>k_net := s\<rparr>))"

definition sockaddr_bytes :: "socket \<Rightarrow> tcpst \<Rightarrow> u8 list" where
  "sockaddr_bytes g s =
     (let (ip, port) = (if so_type g = SOCK_TCP_ESTAB then net_socket_peer (Some g) s else (0, 0))
      in le16 2 @ le16 ((drop_bit 8 port AND 0xFF) OR (push_bit 8 port AND 0xFF00)) @
         le32 ((drop_bit 24 ip AND 0xFF) OR (drop_bit 8 ip AND 0xFF00) OR (push_bit 8 ip AND 0xFF0000) OR (push_bit 24 ip AND 0xFF000000)) @
         replicate 8 0)"

text \<open>The address of the peer, stored where the checks allow it.\<close>

definition accept_addr :: "u32 list \<Rightarrow> umem \<Rightarrow> u8 list \<Rightarrow> kst \<Rightarrow> uwrites option" where
  "accept_addr a um sa k =
     (if a ! 1 = 0 then Some []
      else do {
        bad \<leftarrow> (if a ! 2 \<noteq> 0 then bad_user k (a ! 2) 4 True else Some True);
        let user_alen = rd32 (um_bytes um (a ! 2) 4) 0;
        let alen = (if \<not> bad \<and> user_alen < 16 then user_alen else 16);
        let ws = (if bad then [] else [(a ! 2, le32 16)]);
        bad \<leftarrow> bad_user k (a ! 1) alen True;
        Some (if bad then ws else ws @ [(a ! 1, take (unat alen) sa)]) })"

definition sys_accept :: "u32 list \<Rightarrow> umem \<Rightarrow> kst \<Rightarrow> kret" where
  "sys_accept a um k = with_sock (a ! 0) k (\<lambda>h.
     if so_type (sock_of h (k_net k)) \<noteq> SOCK_TCP_LISTEN then ret (- 22) k
     else (case tcp_accept_socket (Some (sock_of h (k_net k))) (k_net k) of
         (None, s) \<Rightarrow> ret (- 11) (k\<lparr>k_net := s\<rparr>)
       | (Some j, s) \<Rightarrow>
           (case vfs_socket_install (TcpH j) (k_vfs k) of (fd, v) \<Rightarrow>
              if fd < 0 then
                (case tcp_abort_socket (tcp_handles s ! j) s of (g, s) \<Rightarrow> ret fd (k\<lparr>k_net := put_sock (TcpH j) g s, k_vfs := v\<rparr>))
              else do {
                ws \<leftarrow> accept_addr a um (sockaddr_bytes (tcp_handles s ! j) s) k;
                Some (Some fd, ws, k\<lparr>k_net := s, k_vfs := v\<rparr>) })))"

definition sys_sendto :: "u32 list \<Rightarrow> umem \<Rightarrow> kst \<Rightarrow> kret" where
  "sys_sendto a um k = with_sock (a ! 0) k (\<lambda>h.
     if a ! 2 > CATOS_UDP_PAYLOAD_MAX then ret (- 90) k
     else do {
       bad \<leftarrow> bad_user k (a ! 1) (a ! 2) False;
       if bad then ret (- 14) k
       else if so_type (sock_of h (k_net k)) = SOCK_UDP_UNBOUND then ret (- 99) k
       else (case udp_sendto (sock_of h (k_net k)) (a ! 3) (ucast (a ! 4)) (um_bytes um (a ! 1) (unat (a ! 2))) (k_net k) of
         (r, s) \<Rightarrow> ret (sock_xlate r (- 11)) (k\<lparr>k_net := s\<rparr>)) })"

definition sys_recvfrom :: "u32 list \<Rightarrow> kst \<Rightarrow> kret" where
  "sys_recvfrom a k = with_sock (a ! 0) k (\<lambda>h. do {
     b1 \<leftarrow> bad_user k (a ! 1) (a ! 2) True;
     b2 \<leftarrow> (if b1 then Some True else bad_user k (a ! 3) 4 True);
     b3 \<leftarrow> (if b2 then Some True else bad_user k (a ! 4) 2 True);
     if b3 then ret (- 14) k
     else (case udp_recvfrom (sock_of h (k_net k)) (unat (a ! 2)) (k_net k) of
         (None, s) \<Rightarrow> ret (sock_xlate (- 1) (- 11)) (k\<lparr>k_net := s\<rparr>)
       | (Some (ip, port, d), s) \<Rightarrow>
           Some (Some (sock_xlate (int (length d)) (- 11)), [(a ! 3, le32 ip), (a ! 4, le16 port), (a ! 1, d)], k\<lparr>k_net := s\<rparr>)) })"

definition sys_send :: "u32 list \<Rightarrow> umem \<Rightarrow> kst \<Rightarrow> kret" where
  "sys_send a um k = with_sock (a ! 0) k (\<lambda>h.
     if so_type (sock_of h (k_net k)) \<noteq> SOCK_TCP_ESTAB then ret (- 107) k
     else do {
       bad \<leftarrow> bad_user k (a ! 1) (a ! 2) False;
       if bad then ret (- 14) k
       else (case tcp_send (Some (sock_of h (k_net k))) (um_bytes um (a ! 1) (unat (a ! 2))) (k_net k) of
         (r, s) \<Rightarrow> ret (sock_xlate r (- 11)) (k\<lparr>k_net := s\<rparr>)) })"

definition sys_recv :: "u32 list \<Rightarrow> kst \<Rightarrow> kret" where
  "sys_recv a k = with_sock (a ! 0) k (\<lambda>h.
     if so_type (sock_of h (k_net k)) \<noteq> SOCK_TCP_ESTAB then ret (- 107) k
     else do {
       bad \<leftarrow> bad_user k (a ! 1) (a ! 2) True;
       if bad then ret (- 14) k
       else (case tcp_recv (Some (sock_of h (k_net k))) (unat (a ! 2)) (k_net k) of
         ((r, d), s) \<Rightarrow> Some (Some (sock_xlate r (- 11)), [(a ! 1, d)], k\<lparr>k_net := s\<rparr>)) })"

definition sys_close :: "u32 list \<Rightarrow> kst \<Rightarrow> kret" where
  "sys_close a k =
     (case sock_fd (sint (a ! 0)) k of
        Some h \<Rightarrow>
          (case net_socket_close (sock_of h (k_net k)) (k_net k) of (r, g, s) \<Rightarrow>
             ret r (k\<lparr>k_net := put_sock h g s,
               k_vfs := if r = 0 then snd (vfs_socket_close (sint (a ! 0)) (k_vfs k)) else k_vfs k\<rparr>))
      | None \<Rightarrow> (case vfs_close (sint (a ! 0)) (k_vfs k) of (r, v) \<Rightarrow> ret r (k\<lparr>k_vfs := v\<rparr>)))"

definition text_at :: "umem \<Rightarrow> u32 \<Rightarrow> nat \<Rightarrow> string" where
  "text_at um a n = takeWhile (\<lambda>c. c \<noteq> CHR 0x00) (map (\<lambda>b. char_of (unat b)) (um_bytes um a n))"

definition ping_invalid :: string where
  "ping_invalid = ''ping: invalid address
''"

definition sys_ping :: "env \<Rightarrow> u32 list \<Rightarrow> umem \<Rightarrow> kst \<Rightarrow> kret" where
  "sys_ping e a um k = do {
     b1 \<leftarrow> bad_user k (a ! 0) 16 False;
     b2 \<leftarrow> (if b1 then Some True else bad_user k (a ! 1) (a ! 2) True);
     if b2 then ret (- 14) k
     else (case net_parse_ipv4 (text_at um (a ! 0) 16) of
         None \<Rightarrow>
           let n = unat (a ! 2); msg = take n ping_invalid
           in Some (Some (int (length msg)), [(a ! 1, asc msg @ replicate (n - length msg) 0)], k)
       | Some dst \<Rightarrow> do {
           ((out, n), s) \<leftarrow> net_ping dst (ucast (a ! 3)) (ucast (a ! 4))
             (map (\<lambda>b. char_of (unat b)) (um_bytes um (a ! 1) (unat (a ! 2)))) (unat (a ! 2)) (e_rounds e) (k_net k);
           Some (Some (sint (of_nat n :: u32)), [(a ! 1, asc out)], k\<lparr>k_net := s\<rparr>) }) }"

definition sys_ping_stats :: "u32 list \<Rightarrow> kst \<Rightarrow> kret" where
  "sys_ping_stats a k = do {
     bad \<leftarrow> bad_user k (a ! 0) (a ! 1) True;
     if bad then ret (- 14) k
     else (case net_ping_stats (replicate (unat (a ! 1)) CHR 0x00) (unat (a ! 1)) (k_net k) of
       (out, n) \<Rightarrow> Some (Some (sint (of_nat n :: u32)), [(a ! 0, asc out)], k)) }"

definition sys_net_stats :: "u32 list \<Rightarrow> kst \<Rightarrow> kret" where
  "sys_net_stats a k = do {
     let cnt = (if a ! 1 > of_nat NET_STATS_COUNT then of_nat NET_STATS_COUNT else a ! 1);
     bad \<leftarrow> bad_user k (a ! 0) (cnt * 4) True;
     if bad then ret (- 14) k
     else if a ! 0 = 0 then ret (- 1) k
     else (case net_stats_snapshot cnt (k_net k) of (vs, n) \<Rightarrow> Some (Some n, [(a ! 0, concat (map le32 vs))], k)) }"

text \<open>The copy of the name: \<open>Inl\<close> for an error, 65 bytes without an end being \<open>EINVAL\<close>.\<close>

fun fetch_name :: "nat \<Rightarrow> procst \<Rightarrow> umem \<Rightarrow> u32 \<Rightarrow> (int + u8 list) option" where
  "fetch_name 0 pg um a = Some (Inl (- 22))"
| "fetch_name (Suc n) pg um a = do {
     ok \<leftarrow> user_access_ok pg a 1 False;
     if \<not> ok then Some (Inl (- 14))
     else if um a = 0 then Some (Inr [])
     else do { r \<leftarrow> fetch_name n pg um (a + 1); Some (map_sum id ((#) (um a)) r) } }"

definition sys_resolve :: "env \<Rightarrow> u32 list \<Rightarrow> umem \<Rightarrow> kst \<Rightarrow> kret" where
  "sys_resolve e a um k = do {
     bad \<leftarrow> bad_user k (a ! 0) 1 False;
     if bad then ret (- 14) k
     else do {
       nm \<leftarrow> fetch_name 65 (k_proc k) um (a ! 0);
       case nm of Inl err \<Rightarrow> ret err k
       | Inr cs \<Rightarrow> do {
           bad \<leftarrow> bad_user k (a ! 1) 4 True;
           if bad then ret (- 14) k
           else do {
             (r, ip, s) \<leftarrow> net_dns_resolve (map (\<lambda>b. char_of (unat b)) cs) (e_rounds e) (k_net k);
             Some (Some r, if r = 0 then [(a ! 1, le32 (case ip of Some x \<Rightarrow> x | None \<Rightarrow> 0))] else [], k\<lparr>k_net := s\<rparr>) } } } }"

section \<open>The dispatcher\<close>

definition sock_syscall :: "env \<Rightarrow> u32 \<Rightarrow> u32 list \<Rightarrow> umem \<Rightarrow> kst \<Rightarrow> kret" where
  "sock_syscall e nr a um k =
     (if nr = 20 then sys_socket a k
      else if nr = 21 then sys_bind a k
      else if nr = 22 then sys_listen a k
      else if nr = 23 then sys_accept a um k
      else if nr = 24 then sys_sendto a um k
      else if nr = 25 then sys_recvfrom a k
      else if nr = 26 then sys_send a um k
      else if nr = 27 then sys_recv a k
      else if nr = 28 then sys_close a k
      else if nr = 29 then sys_ping e a um k
      else if nr = 30 then sys_ping_stats a k
      else if nr = 32 then sys_net_stats a k
      else if nr = 31 then sys_resolve e a um k
      else ret (- 38) k)"

definition syscall_dispatch_nr :: "env \<Rightarrow> u32 \<Rightarrow> u32 list \<Rightarrow> umem \<Rightarrow> kst \<Rightarrow> kret" where
  "syscall_dispatch_nr e nr a um k =
     (if (nr \<ge> 11 \<and> nr \<le> 13) \<or> (nr \<ge> 33 \<and> nr \<le> 35) then proc_syscall e nr a um k
      else if nr = 19 then sys_lseek a k
      else if nr = 45 then sys_brk k
      else if nr = 54 then sys_ioctl a k
      else if nr = 55 then sys_fcntl a k
      else if nr = 63 then sys_dup2 a k
      else if nr = 91 then sys_munmap k
      else if nr = 146 then sys_writev a um k
      else if nr = 168 then sys_poll e a um k
      else if nr = 192 then sys_mmap2 a k
      else if nr = 196 then sys_gettimeofday a k
      else if nr = 197 then sys_fstat a k
      else if nr = 263 then sys_clock_gettime a k
      else if nr < 20 then do {
        (r, ws, v) \<leftarrow> vfs_syscall (k_proc k) um (e_keys e) (ticks (k_net k)) nr a (k_vfs k);
        Some (Some r, ws, k\<lparr>k_vfs := v\<rparr>) }
      else sock_syscall e nr a um k)"

definition syscall_dispatch :: "env \<Rightarrow> u32 \<Rightarrow> u32 list \<Rightarrow> umem \<Rightarrow> kst \<Rightarrow> kret" where
  "syscall_dispatch e nr a um k = do {
     (r, ws, k) \<leftarrow> syscall_dispatch_nr e nr a um k;
     case r of None \<Rightarrow> Some (None, ws, k)
     | Some r \<Rightarrow> (case syscall_signal_deliver e r (k_proc k) of (r, p) \<Rightarrow> Some (r, ws, k\<lparr>k_proc := p\<rparr>)) }"

end
