(* ===== verification/VfsRead.thy ===== *)
theory VfsRead
  imports VfsProps CowFork
begin

text \<open>
  Reading a file of the FAT volume through its descriptor: \<open>vfs_read\<close> and \<open>fat_read\<close> in
  \<^verbatim>\<open>src/fs/vfs.c\<close> above \<open>fat16_read_file\<close> in \<^verbatim>\<open>src/fs/fat16.c\<close>.  A reader whose buffer size divides
  the cluster size gets the whole file.
\<close>

section \<open>One read\<close>

text \<open>An open file of a sound volume: the descriptor, its directory entry and the chain of
  the file's clusters, all readable.\<close>

definition file_open :: "disk \<Rightarrow> int \<Rightarrow> fat16_dirent \<Rightarrow> u32 \<Rightarrow> 'k vfs \<Rightarrow> bool" where
  "file_open disk fd de pos s \<longleftrightarrow> own_slots s \<and> blk_ok (fat_blk s) disk \<and> fat_inv disk (vfat s) \<and>
     (\<exists>f h. fd_file fd s = Some f \<and> f_kind f = FILE_VFS \<and> f_inode f = Some fattpl \<and> f_pos f = pos \<and>
        f_private f = PFat h \<and> h_de (fat_handles s ! h) = de)"

definition file_sound :: "disk \<Rightarrow> fat16_mnt \<Rightarrow> fat16_dirent \<Rightarrow> bool" where
  "file_sound disk m de \<longleftrightarrow> m_spc m \<noteq> 0 \<and> d_attr de AND ATTR_DIR = 0 \<and>
     (\<forall>k. k * cluster_bytes m < unat (d_size de) \<longrightarrow>
        (\<exists>c. chain disk m k (d_cluster de) = Some c \<and> 2 \<le> c \<and> c < FAT_BAD \<and>
           (\<forall>j < unat (m_spc m). disk (cluster_sector m c j) \<noteq> None)))"

lemma cluster_bytes_lt: "cluster_bytes m < 2 ^ 17"
  using unat_u8_lt [of "m_spc m"] by (simp add: cluster_bytes_def)

lemma upd_file_fields [simp]:
  "fat_blk (upd_file fd g s) = fat_blk s" "vfat (upd_file fd g s) = vfat s" "fat_handles (upd_file fd g s) = fat_handles s"
  "length (fs_slots (upd_file fd g s)) = length (fs_slots s)" "fds (upd_file fd g s) = fds s"
  by (simp_all add: upd_file_def split: option.splits)

lemma file_open_set:
  assumes "file_open disk fd de pos s" "fat_inv disk fat"
  shows "file_open disk fd de pos' (upd_file fd (\<lambda>f. f\<lparr>f_pos := pos'\<rparr>) (s\<lparr>vfat := fat\<rparr>))"
proof -
  let ?s = "s\<lparr>vfat := fat\<rparr>"
  have own: "own_slots ?s" using assms(1) by (simp add: file_open_def own_slots_def)
  have "fd_file fd ?s = fd_file fd s" by (rule fd_file_cong) simp_all
  then have "fd_file fd (upd_file fd (\<lambda>f. f\<lparr>f_pos := pos'\<rparr>) ?s) = map_option (\<lambda>f. f\<lparr>f_pos := pos'\<rparr>) (fd_file fd s)"
    by (simp add: fd_file_upd [OF own])
  then show ?thesis using assms own by (auto simp: file_open_def own_slots_def)
qed

lemma vfs_read_fat:
  assumes "file_open disk fd de pos s" "user_access_ok pg b n True = Some True"
    and "fat16_read_file (fat_blk s) de pos buf n (vfat s) = Some (r, buf', fat)"
  shows "\<exists>f. fd_file fd s = Some f \<and> f_pos f = pos \<and> vfs_read pg w tk fd b buf n s =
    Some (r, buf', if r > 0 then upd_file fd (\<lambda>f. f\<lparr>f_pos := f_pos f + word_of_int r\<rparr>) (s\<lparr>vfat := fat\<rparr>) else s\<lparr>vfat := fat\<rparr>)"
proof -
  obtain f h where f: "fd_file fd s = Some f" "f_kind f = FILE_VFS" "f_inode f = Some fattpl" "f_pos f = pos"
    "f_private f = PFat h" "h_de (fat_handles s ! h) = de" using assms(1) by (auto simp: file_open_def)
  have "i_ops fattpl = OpsFat" "can_read OpsFat" by (simp_all add: fattpl_def can_read_def)
  then show ?thesis using f assms(2,3) by (simp add: vfs_read_def read_op_def fat_read_def Let_def)
qed

lemma map_from: "map (\<lambda>i. g (a + i)) [0..<k] = map g [a..<a + k]"
  by (rule nth_equalityI) simp_all

text \<open>A read at a position that is a multiple of the buffer size.\<close>

lemma vfs_read_block:
  assumes o: "file_open disk fd de (of_nat (j * n)) s" and fs: "file_sound disk (mnt (vfat s)) de"
    and acc: "user_access_ok pg b (of_nat n) True = Some True" and n: "0 < n" "n dvd cluster_bytes (mnt (vfat s))"
    and pos: "j * n < unat (d_size de)" and buf: "length buf = n"
    and k: "k = min n (unat (d_size de) - j * n)"
  shows "\<exists>t. vfs_read pg w tk fd b buf (of_nat n) s =
      Some (int k, map (file_byte disk (mnt (vfat s)) de) [j * n..<j * n + k] @ drop k buf, t) \<and>
      file_open disk fd de (of_nat (j * n + k)) t \<and> mnt (vfat t) = mnt (vfat s) \<and> fat_blk t = fat_blk s"
proof -
  define m where "m = mnt (vfat s)"
  define off where "off = (of_nat (j * n) :: u32)"
  have cb: "0 < cluster_bytes m" using fs by (simp add: file_sound_def cluster_bytes_def m_def unat_gt_0)
  have n2: "n < 2 ^ 17" using n(2) cb cluster_bytes_lt [of m] dvd_imp_le [of n "cluster_bytes m"] by (simp add: m_def)
  have off: "unat off = j * n" using pos unat_u32_lt [of "d_size de"] by (simp add: off_def unat_of_nat del: of_nat_mult)
  have un: "unat (of_nat n :: u32) = n" using n2 by (simp add: unat_of_nat)
  obtain c where c: "chain disk m (unat off div cluster_bytes m) (d_cluster de) = Some c" "2 \<le> c" "c < FAT_BAD"
    "\<forall>i < unat (m_spc m). disk (cluster_sector m c i) \<noteq> None"
  proof -
    have "unat off div cluster_bytes m * cluster_bytes m < unat (d_size de)"
      using pos off div_times_less_eq_dividend [of "unat off" "cluster_bytes m"] by linarith
    then show ?thesis using fs that by (auto simp: file_sound_def m_def)
  qed
  have one: "unat off mod cluster_bytes m + k \<le> cluster_bytes m"
  proof -
    obtain q where q: "cluster_bytes m = n * q" using n(2) by (auto simp: m_def)
    have "unat off mod cluster_bytes m = n * (j mod q)" by (simp add: off q mult.commute [of j] mod_mult_mult1)
    moreover have "j mod q < q" using cb q by simp
    then have "n * Suc (j mod q) \<le> n * q" by (intro mult_le_mono) simp_all
    ultimately show ?thesis using k q by simp
  qed
  have k0: "0 < k" "k \<le> n" using k n pos by simp_all
  have ki: "sint (of_nat k :: u32) = int k" using sint_u32_of_int [of "int k"] k0 n2 by simp
  have "off < d_size de" "(of_nat n :: u32) \<noteq> 0" using pos off un n by (auto simp: word_less_nat_alt)
  then have "\<exists>fat. fat16_read_file (fat_blk s) de off buf (of_nat n) (vfat s) = Some (sint (of_nat k :: u32),
      map (\<lambda>i. file_byte disk (mnt (vfat s)) de (unat off + i)) [0..<k] @ drop k buf, fat) \<and> fat_inv disk fat \<and> mnt fat = mnt (vfat s)"
    using o fs c k off un one k0 buf
    by (intro fat16_read_bytes [where c = c]) (simp_all add: m_def file_open_def file_sound_def)
  then obtain fat where r: "fat16_read_file (fat_blk s) de off buf (of_nat n) (vfat s) = Some (int k,
      map (file_byte disk m de) [j * n..<j * n + k] @ drop k buf, fat)" "fat_inv disk fat" "mnt fat = m"
    unfolding ki off m_def map_from by auto
  obtain f where f: "f_pos f = off" "fd_file fd s = Some f" and v: "vfs_read pg w tk fd b buf (of_nat n) s = Some (int k,
      map (file_byte disk m de) [j * n..<j * n + k] @ drop k buf,
      upd_file fd (\<lambda>f. f\<lparr>f_pos := f_pos f + of_nat k\<rparr>) (s\<lparr>vfat := fat\<rparr>))"
    using vfs_read_fat [OF o [folded off_def] acc r(1), of w tk] k0 by auto
  have "upd_file fd (\<lambda>f. f\<lparr>f_pos := f_pos f + of_nat k\<rparr>) (s\<lparr>vfat := fat\<rparr>)
      = upd_file fd (\<lambda>f. f\<lparr>f_pos := of_nat (j * n + k)\<rparr>) (s\<lparr>vfat := fat\<rparr>)"
    using f by (auto simp: upd_file_def fd_file_def off_def fd_slot_def split: option.splits)
  then show ?thesis using v file_open_set [OF o r(2), of "of_nat (j * n + k)"] r(3) by (simp add: m_def)
qed

section \<open>The whole file\<close>

text \<open>A reader that calls \<open>vfs_read\<close> with a buffer of \<open>n\<close> bytes until nothing is left.\<close>

fun read_all :: "nat \<Rightarrow> paging \<Rightarrow> int \<Rightarrow> u32 \<Rightarrow> nat \<Rightarrow> 'k vfs \<Rightarrow> (u8 list \<times> 'k vfs) option" where
  "read_all 0 pg fd b n s = None"
| "read_all (Suc fuel) pg fd b n s = do {
     (r, buf, s) \<leftarrow> vfs_read pg [] 0 fd b (replicate n 0) (of_nat n) s;
     if r \<le> 0 then Some ([], s)
     else do { (bs, s) \<leftarrow> read_all fuel pg fd b n s; Some (take (nat r) buf @ bs, s) } }"

lemma vfs_read_end:
  assumes "file_open disk fd de pos s" "user_access_ok pg b n True = Some True" "d_size de \<le> pos" "d_attr de AND ATTR_DIR = 0"
  shows "\<exists>t. vfs_read pg w tk fd b buf n s = Some (0, buf, t)"
  using vfs_read_fat [OF assms(1,2), of buf 0 buf "vfat s" w tk] assms(3,4) by (auto simp: fat16_read_file_def)

lemma read_all_from:
  assumes "file_open disk fd de (of_nat p) s" "file_sound disk (mnt (vfat s)) de" "user_access_ok pg b (of_nat n) True = Some True"
    and "0 < n" "n dvd cluster_bytes (mnt (vfat s))" "p = min (j * n) (unat (d_size de))" "unat (d_size de) \<le> (j + fuel) * n"
  shows "\<exists>t. read_all (Suc fuel) pg fd b n s = Some (map (file_byte disk (mnt (vfat s)) de) [p..<unat (d_size de)], t)"
  using assms
proof (induction fuel arbitrary: j p s)
  case 0
  then have p: "p = unat (d_size de)" by simp
  then have "d_size de \<le> of_nat p" by simp
  moreover have "d_attr de AND ATTR_DIR = 0" using 0 by (simp add: file_sound_def)
  ultimately obtain t where "vfs_read pg [] 0 fd b (replicate n 0) (of_nat n) s = Some (0, replicate n 0, t)"
    using vfs_read_end [OF 0(1,3)] by blast
  then show ?case using p by simp
next
  case (Suc fuel)
  show ?case
  proof (cases "j * n < unat (d_size de)")
    case True
    define k where "k = min n (unat (d_size de) - j * n)"
    have p: "p = j * n" using True Suc(7) by simp
    have "\<exists>t. vfs_read pg [] 0 fd b (replicate n 0) (of_nat n) s =
        Some (int k, map (file_byte disk (mnt (vfat s)) de) [j * n..<j * n + k] @ drop k (replicate n 0), t) \<and>
        file_open disk fd de (of_nat (j * n + k)) t \<and> mnt (vfat t) = mnt (vfat s) \<and> fat_blk t = fat_blk s"
      using Suc(2-6) True k_def unfolding p by (intro vfs_read_block) simp_all
    then obtain t where t: "vfs_read pg [] 0 fd b (replicate n 0) (of_nat n) s =
        Some (int k, map (file_byte disk (mnt (vfat s)) de) [p..<p + k] @ drop k (replicate n 0), t)"
      "file_open disk fd de (of_nat (p + k)) t" "mnt (vfat t) = mnt (vfat s)" unfolding p by blast
    have k: "0 < k" using True Suc(5) by (simp add: k_def)
    have pk: "p + k = min (Suc j * n) (unat (d_size de))" using True by (auto simp: p k_def min_def)
    have "\<exists>u. read_all (Suc fuel) pg fd b n t = Some (map (file_byte disk (mnt (vfat t)) de) [p + k..<unat (d_size de)], u)"
      using Suc(3-6,8) t(2,3) by (intro Suc.IH [OF _ _ _ _ _ pk]) simp_all
    then obtain u where u: "read_all (Suc fuel) pg fd b n t
        = Some (map (file_byte disk (mnt (vfat s)) de) [p + k..<unat (d_size de)], u)" unfolding t(3) by blast
    have "p + k \<le> unat (d_size de)" using pk by simp
    then have "[p..<p + k] @ [p + k..<unat (d_size de)] = [p..<unat (d_size de)]"
      using upt_add_eq_append [of p "p + k" "unat (d_size de) - (p + k)"] by simp
    then have e: "map g [p..<p + k] @ map g [p + k..<unat (d_size de)] = map g [p..<unat (d_size de)]" for g :: "nat \<Rightarrow> u8"
      by (metis map_append)
    show ?thesis unfolding read_all.simps(2) [of "Suc fuel"] t(1) using k
      by (simp add: u e del: read_all.simps)
  next
    case False
    then have p: "p = unat (d_size de)" using Suc(7) by simp
    then have "d_size de \<le> of_nat p" by simp
    moreover have "d_attr de AND ATTR_DIR = 0" using Suc(3) by (simp add: file_sound_def)
    ultimately obtain t where "vfs_read pg [] 0 fd b (replicate n 0) (of_nat n) s = Some (0, replicate n 0, t)"
      using vfs_read_end [OF Suc(2,4)] by blast
    then show ?thesis using p by simp
  qed
qed

text \<open>Property C12: a program that opens a file of a sound volume and reads it with a buffer
  whose size divides the cluster size, until a read returns 0, gets the file: every byte of
  it once and in order, after at most one call per block and one more.\<close>

theorem vfs_read_whole_file:
  assumes "file_open disk fd de 0 s" "file_sound disk (mnt (vfat s)) de" "user_access_ok pg b (of_nat n) True = Some True"
    and "0 < n" "n dvd cluster_bytes (mnt (vfat s))" "unat (d_size de) \<le> fuel * n"
  shows "\<exists>t. read_all (Suc fuel) pg fd b n s = Some (map (file_byte disk (mnt (vfat s)) de) [0..<unat (d_size de)], t)"
  using assms by (intro read_all_from [where j = 0]) simp_all

section \<open>The small volume, mounted\<close>

definition demo_reader :: "nat vfs" where
  "demo_reader = demo_vfs\<lparr>fds := Some 0 # replicate 31 None,
     fs_slots := \<lparr>f_inode = Some fattpl, f_pos = 0, f_flags = 0, f_kind = FILE_VFS, f_private = PFat 0\<rparr> # tl (fs_slots demo_vfs)\<rparr>"

lemma demo_reader_open: "file_open demo_disk 0 demo_file 0 demo_reader"
  using demo_ok demo_inv
  by (auto simp: file_open_def demo_reader_def demo_vfs_def own_slots_def fd_file_def fd_slot_def nth_Cons split: nat.splits)

lemma demo_sound: "file_sound demo_disk (mnt demo_fs) demo_file"
proof -
  have "\<exists>c. chain demo_disk (mnt demo_fs) k 2 = Some c \<and> 2 \<le> c \<and> c < FAT_BAD" if "k * 512 < 600" for k
  proof -
    have "k = 0 \<or> k = 1" using that by auto
    then show ?thesis using demo_chain by auto
  qed
  then show ?thesis by (simp add: file_sound_def demo_mnt demo_file_def demo_cluster_bytes demo_disk_def)
qed

lemma demo_access: "user_access_ok (cow_demo 0x102007) 0x5000 512 True = Some True"
proof -
  have ok: "user_page_ok (cow_demo 0x102007) 0x5000 True"
    by (simp add: user_page_ok_def cow_demo_cr3 cow_demo_mem PDE_INDEX_def PTE_INDEX_def)
  have "user_pages_ok (cow_demo 0x102007) 0x6000 0x5200 True = Some True" by (subst user_pages_ok.simps) simp
  then have "user_pages_ok (cow_demo 0x102007) 0x5000 0x5200 True = Some True"
    using ok by (subst user_pages_ok.simps) simp
  then show ?thesis by (simp add: user_access_ok_def)
qed

theorem vfs_read_whole_file_witness:
  "\<exists>t. read_all 3 (cow_demo 0x102007) 0 0x5000 512 demo_reader
     = Some (map (file_byte demo_disk (mnt demo_fs) demo_file) [0..<600], t)"
proof -
  have v: "vfat demo_reader = demo_fs" by (simp add: demo_reader_def demo_vfs_def)
  have "\<exists>t. read_all (Suc 2) (cow_demo 0x102007) 0 0x5000 512 demo_reader
     = Some (map (file_byte demo_disk (mnt (vfat demo_reader)) demo_file) [0..<unat (d_size demo_file)], t)"
    using demo_access demo_sound
    by (intro vfs_read_whole_file [OF demo_reader_open]) (simp_all add: v demo_cluster_bytes demo_file_def)
  moreover have "unat (d_size demo_file) = 600" by (simp add: demo_file_def)
  moreover have "Suc 2 = 3" by simp
  ultimately show ?thesis unfolding v by simp
qed

end
