(* ===== verification/SyscallProps.thy ===== *)
theory SyscallProps
  imports Syscall VfsRead
begin

text \<open>
  What the system calls promise.  No call but \<open>mmap2\<close> and \<open>exec\<close>, which fill frames of their
  own, stores a byte outside the writable pages of the
  caller, provided the pointers it is given lie below the guard band at 0xBFC00000
  (\<open>syscall_writes_user\<close>); above it the check of a buffer wraps around, and a read from a
  connection overwrites kernel memory (\<open>recv_writes_kernel\<close>).
\<close>

section \<open>Stores into user memory\<close>

definition user_writable :: "procst \<Rightarrow> u32 \<Rightarrow> nat \<Rightarrow> bool" where
  "user_writable s p n \<longleftrightarrow> (\<forall>i < n. 0x1000 \<le> unat p + i \<and> unat p + i < 0xBFC00000 \<and>
     (user_page_ok s (p + of_nat i) True \<or> cow_page_ok s (p + of_nat i)))"

definition wr_ok :: "procst \<Rightarrow> uwrites \<Rightarrow> bool" where
  "wr_ok s ws \<longleftrightarrow> (\<forall>(p, bs) \<in> set ws. user_writable s p (length bs))"

lemma wr_ok_simps [simp]:
  "wr_ok s []" "wr_ok s ((p, bs) # ws) \<longleftrightarrow> user_writable s p (length bs) \<and> wr_ok s ws"
  "wr_ok s (ws @ vs) \<longleftrightarrow> wr_ok s ws \<and> wr_ok s vs"
  by (auto simp: wr_ok_def)

lemma user_writable_0 [simp]: "user_writable s p 0"
  by (simp add: user_writable_def)

lemma offset_in:
  assumes "unat (p :: u32) + n \<le> 0xBFC00000" "i < n"
  shows "unat (p + of_nat i) = unat p + i"
  using assms by (simp add: unat_word_ariths unat_of_nat)

lemma access_writable:
  assumes a: "user_access_ok s p n True = Some True" and p: "p < 0xBFC00000" and m: "m \<le> unat n"
  shows "user_writable s p m"
proof (cases "n = 0")
  case True
  then show ?thesis using m by simp
next
  case False
  then have h: "0x1000 \<le> unat p" "unat p + unat n \<le> 0xBFC00000" "\<And>q. p \<le> q \<Longrightarrow> q < p + n \<Longrightarrow> user_page_ok s q True"
    using a user_access_ok_exact [OF p, of s n True] by (auto simp: word_le_nat_alt)
  show ?thesis unfolding user_writable_def
  proof (intro allI impI conjI disjI1)
    fix i assume i: "i < m"
    then have u: "unat (p + of_nat i) = unat p + i" "unat (p + n) = unat p + unat n"
      using offset_in [OF h(2), of i] h(2) m by (simp_all add: unat_word_ariths)
    show "0x1000 \<le> unat p + i" "unat p + i < 0xBFC00000" using h i m by auto
    show "user_page_ok s (p + of_nat i) True"
      by (rule h(3)) (use u i m in \<open>simp_all add: word_le_nat_alt word_less_nat_alt\<close>)
  qed
qed

lemma bad_writable:
  "bad_user k p n True = Some False \<Longrightarrow> p < 0xBFC00000 \<Longrightarrow> m \<le> unat n \<Longrightarrow> user_writable (k_proc k) p m"
  by (rule access_writable) (auto simp: bad_user_def split: Option.bind_splits)

lemma cow_page_same: "drop_bit 12 p = drop_bit 12 q \<Longrightarrow> cow_page_ok s p = cow_page_ok s q"
proof -
  assume e: "drop_bit 12 p = drop_bit 12 q"
  have "drop_bit 22 x = drop_bit 10 (drop_bit 12 x)" for x :: u32 by simp
  then have "drop_bit 22 p = drop_bit 22 q" using e by metis
  then show ?thesis using e by (simp add: cow_page_ok_def PDE_INDEX_def PTE_INDEX_def)
qed

lemma cow_pages_spec:
  assumes "unat e \<le> 0xBFC00000" "unat v mod 4096 = 0" "cow_pages_ok s v e = Some True" "v \<le> q" "q < e"
  shows "cow_page_ok s q"
  using assms
proof (induction "unat e - unat v" arbitrary: v rule: less_induct)
  case less
  have lt: "unat v < unat e" using less.prems by (simp add: word_le_nat_alt word_less_nat_alt)
  have v: "v < e" using lt by (simp add: word_less_nat_alt)
  have ok: "cow_page_ok s v" "cow_pages_ok s (v + PAGE_SIZE) e = Some True"
    using less.prems(3) v by (subst (asm) cow_pages_ok.simps, simp split: if_splits)+
  have n: "unat (v + PAGE_SIZE) = unat v + 4096" using lt less.prems(1) by (simp add: unat_word_ariths)
  show ?case
  proof (cases "q < v + PAGE_SIZE")
    case True
    then have "unat q < unat v + 4096" "unat v \<le> unat q" using n less.prems(4) by (simp_all add: word_less_nat_alt word_le_nat_alt)
    then have "unat q div 4096 = unat v div 4096" using less.prems(2)
      by (intro div_nat_eqI) (auto simp: div_mult_mod_eq [symmetric] elim: dvdE)
    then have "drop_bit 12 q = drop_bit 12 v" by (intro unat_eqI) (simp add: unat_frame)
    then show ?thesis using ok(1) cow_page_same by blast
  next
    case False
    show ?thesis
      by (rule less.hyps [of "v + PAGE_SIZE"]) (use n lt less.prems ok(2) False in \<open>auto simp: mod_add_eq\<close>)
  qed
qed

lemma status_writable:
  assumes "status_ok s u = Some True" and u: "u < 0xBFC00000"
  shows "user_writable s u 4"
proof (cases "user_access_ok s u 4 True = Some True")
  case True
  show ?thesis by (rule access_writable [OF True u]) simp
next
  case False
  then have r: "user_access_ok s u 4 False = Some True" and c: "cow_pages_ok s (u AND PAGE_FRAME_MASK) (u + 4) = Some True"
    using assms by (auto simp: status_ok_def user_cow_faultable_def split: Option.bind_splits if_splits)
  have h: "0x1000 \<le> unat u" "unat u + 4 \<le> 0xBFC00000"
    using r user_access_ok_exact [OF u, of s 4 False] by (auto simp: word_le_nat_alt)
  have e: "unat (u + 4) = unat u + 4" using h by (simp add: unat_word_ariths)
  have m: "(0xFFFFF000 :: u32) = - 4096" by simp
  have d: "unat (u AND PAGE_FRAME_MASK) = unat u div 4096 * 4096"
    using unat_align_down [of u] unfolding m by (simp add: align_down_def)
  show ?thesis unfolding user_writable_def
  proof (intro allI impI conjI disjI2)
    fix i :: nat assume i: "i < 4"
    have o: "unat (u + of_nat i) = unat u + i" by (rule offset_in [OF h(2) i])
    show "0x1000 \<le> unat u + i" "unat u + i < 0xBFC00000" using h i by auto
    show "cow_page_ok s (u + of_nat i)"
    proof (rule cow_pages_spec [OF _ _ c])
      show "unat (u + 4) \<le> 0xBFC00000" using e h by simp
      show "unat (u AND PAGE_FRAME_MASK) mod 4096 = 0" using d by simp
      have "unat u div 4096 * 4096 \<le> unat u" by simp
      then show "u AND PAGE_FRAME_MASK \<le> u + of_nat i" using d o by (simp only: word_le_nat_alt)
      show "u + of_nat i < u + 4" using o e i by (simp add: word_less_nat_alt)
    qed
  qed
qed

section \<open>Reads fill no more than the buffer\<close>

text \<open>A device that fills the sector buffer it is given and nothing else.\<close>

definition blk_len :: "blk \<Rightarrow> bool" where
  "blk_len dev \<longleftrightarrow> (\<forall>lba b. length b = 512 \<longrightarrow> length (snd (dev lba b)) = 512)"

lemma read_chunk_length:
  assumes "blk_len dev" "rem \<noteq> 0" "d + unat rem \<le> length buf" "read_chunk dev clba rem pin d buf s = (rc, buf', s')"
  shows "length buf' = length buf"
proof -
  have c: "unat (chunk rem pin) \<le> unat rem" using chunk_pos [OF assms(2)] by simp
  have A: "length (put_at d (snd (dev l (take 512 (drop d buf)))) buf) = length buf" if "chunk rem pin = 512" for l
  proof (rule length_put_at)
    have "length (snd (dev l (take 512 (drop d buf)))) = 512" using assms(1,3) c that by (simp add: blk_len_def)
    then show "d + length (snd (dev l (take 512 (drop d buf)))) \<le> length buf" using that c assms(3) by simp
  qed
  have B: "length (put_at d (take (unat (chunk rem pin)) xs) buf) = length buf" for xs
    by (rule length_put_at) (use c assms(3) in simp)
  have C: "dev l (take 512 (drop d buf)) = (rc, x) \<Longrightarrow> chunk rem pin = 512 \<Longrightarrow> length (put_at d x buf) = length buf" for l rc x
    using A [of l] by simp
  show ?thesis
    using assms(4) by (auto simp: read_chunk_def Let_def B dest: C simp del: length_put_at split: if_splits prod.splits)
qed

lemma read_inner_length:
  "blk_len dev \<Longrightarrow> d + unat rem \<le> length buf \<Longrightarrow> read_inner dev clba cb rem pin d buf s = (ok, rem', d', buf', s')
    \<Longrightarrow> length buf' = length buf \<and> d' + unat rem' \<le> length buf"
proof (induction dev clba cb rem pin d buf s rule: read_inner.induct)
  case (1 dev clba cb rem pin d buf s)
  show ?case
  proof (cases "rem \<noteq> 0 \<and> pin < cb")
    case False
    then show ?thesis using 1(2-4) by (auto simp: read_inner.simps [of dev clba cb rem])
  next
    case True
    obtain rc b t where c: "read_chunk dev clba rem pin d buf s = (rc, b, t)" by (metis prod_cases3)
    have l: "length b = length buf" using read_chunk_length [OF 1(2) _ 1(3) c] True by simp
    have n: "unat (chunk rem pin) \<le> unat rem" using chunk_pos True by blast
    then have u: "unat (rem - chunk rem pin) = unat rem - unat (chunk rem pin)" by (simp add: unat_sub word_le_nat_alt)
    show ?thesis
    proof (cases "rc = 0")
      case False
      then show ?thesis using True c l 1(3,4) by (auto simp: read_inner.simps [of dev clba cb rem] Let_def)
    next
      case z: True
      have "length buf' = length b \<and> d' + unat rem' \<le> length b"
      proof (rule 1(1) [OF True refl c [symmetric] refl _ 1(2)])
        show "\<not> rc \<noteq> 0" using z by simp
        show "d + unat (chunk rem pin) + unat (rem - chunk rem pin) \<le> length b" using u n l 1(3) by simp
        show "read_inner dev clba cb (rem - chunk rem pin) (if cb \<le> pin + chunk rem pin then 0 else pin + chunk rem pin)
          (d + unat (chunk rem pin)) b t = (ok, rem', d', buf', s')"
          using 1(4) True c z by (simp add: read_inner.simps [of dev clba cb rem] Let_def)
      qed
      then show ?thesis using l by simp
    qed
  qed
qed

lemma read_outer_length:
  assumes "read_outer dev len cb c rem pin d buf s = Some (r, buf', s')" "blk_len dev" "d + unat rem \<le> length buf"
  shows "length buf' = length buf"
proof -
  have "blk_len dev \<longrightarrow> d + unat rem \<le> length buf \<longrightarrow> length (fst (snd (r, buf', s'))) = length buf"
  proof (rule read_outer.raw_induct [OF _ assms(1)], intro impI)
    fix f dev len cb c rem pin d buf s x
    assume IH: "\<And>dev len cb c rem pin d buf s x. f dev len cb c rem pin d buf s = Some x \<Longrightarrow>
        blk_len dev \<longrightarrow> d + unat rem \<le> length buf \<longrightarrow> length (fst (snd x)) = length buf"
      and e: "(if rem = 0 then Some (sint len, buf, s)
      else if c < 2 \<or> c \<ge> FAT_EOF_MIN \<or> c = FAT_BAD then
        Some (if rem < len then - 1 else sint (len - rem), buf, s)
      else
        (case read_inner dev (m_data_lba (mnt s) + (c - 2) * ucast (m_spc (mnt s))) cb rem pin d buf s of
           (ok, rem, d, buf, s) \<Rightarrow>
             if \<not> ok then Some (- 1, buf, s)
             else (case fat_next dev c s of (c, s) \<Rightarrow> f dev len cb c rem 0 d buf s))) = Some x"
      and h: "blk_len dev" "d + unat rem \<le> length buf"
    obtain ok rem' d' b t where i: "read_inner dev (m_data_lba (mnt s) + (c - 2) * ucast (m_spc (mnt s))) cb rem pin d buf s
      = (ok, rem', d', b, t)" by (metis prod_cases5)
    obtain c' u where n: "fat_next dev c t = (c', u)" by fastforce
    have l: "length b = length buf" "d' + unat rem' \<le> length buf" using read_inner_length [OF h i] by auto
    have "length (fst (snd x)) = length buf" if "f dev len cb c' rem' 0 d' b u = Some x"
      using IH [OF that] h(1) l by simp
    then show "length (fst (snd x)) = length buf" using e i n l(1) by (auto split: if_splits)
  qed
  then show ?thesis using assms(2,3) by simp
qed

lemma fat16_read_length:
  assumes "fat16_read_file dev de off buf n s = Some (r, buf', s')" "blk_len dev" "unat n \<le> length buf"
  shows "length buf' = length buf"
proof -
  define l where "l = (if n > d_size de - off then d_size de - off else n)"
  have "unat l \<le> length buf" using assms(3) by (auto simp: l_def word_less_nat_alt)
  then show ?thesis using assms(1) read_outer_length [OF _ assms(2), where d = 0 and buf = buf]
    by (auto simp: fat16_read_file_def Let_def l_def [symmetric] split: if_splits prod.splits option.splits)
qed

lemma kread_more_length: "length (fst (kread_more n k)) \<le> n"
  by (induction n arbitrary: k) (auto split: prod.splits, metis fst_conv)

lemma kread_length:
  assumes "kread fl ws now n k = Some (r, cs, k')"
  shows "length cs \<le> unat n"
proof (cases "n = 0")
  case False
  then have "0 < unat n" by (simp add: unat_gt_0)
  then show ?thesis using assms False kread_more_length [of "unat n - 1"]
    by (auto simp: kread_def split: Option.bind_splits prod.splits if_splits) (metis Suc_le_eq Suc_pred fst_conv le_imp_less_Suc)+
qed (use assms in \<open>auto simp: kread_def\<close>)

lemma urread_length: "length (fst (urread n r)) = n"
  by (induction n arbitrary: r) (auto simp: Let_def split: prod.splits, metis fst_conv)

lemma read_op_length:
  assumes "read_op ws now fd f ops buf n s = Some (r, buf', s')" "blk_len (fat_blk s)" "unat n = length buf"
  shows "length buf' = length buf"
proof (cases ops)
  case OpsKbd
  then show ?thesis using assms kread_length by (fastforce simp: read_op_def split: Option.bind_splits)
next
  case OpsUrandom
  then show ?thesis using assms urread_length [of "unat n" "rnd s"]
    by (auto simp: read_op_def split: prod.splits)
next
  case OpsFat
  then show ?thesis using assms fat16_read_length
    by (fastforce simp: read_op_def fat_read_def Let_def split: Option.bind_splits priv.splits)
qed (use assms in \<open>auto simp: read_op_def\<close>)

lemma vfs_read_stores:
  assumes r: "vfs_read pg ws now fd b buf n s = Some (r, buf', s')" and "buf' \<noteq> buf \<or> 0 < r" "blk_len (fat_blk s)" "unat n = length buf"
  shows "user_access_ok pg b n True = Some True \<and> length buf' = length buf"
  using assms read_op_length
  by (fastforce simp: vfs_read_def split: option.splits if_splits Option.bind_splits)

section \<open>The writes of each call\<close>

lemma vfs_syscall_wr:
  assumes "vfs_syscall pg um ws now nr a s = Some (r, wr, s')" "blk_len (fat_blk s)"
    "nr = 0 \<or> nr = 3 \<Longrightarrow> a ! 1 < 0xBFC00000"
  shows "wr_ok pg wr"
proof (cases "nr = 0 \<or> nr = 3")
  case True
  let ?buf = "um_bytes um (a ! 1) (unat (a ! 2))"
  have l: "unat (a ! 2) = length ?buf" by (simp add: um_bytes_def)
  obtain r b t where v: "vfs_read pg ws now (sint (a ! 0)) (a ! 1) ?buf (a ! 2) s = Some (r, b, t)"
    and w: "wr = (if r > 0 then [(a ! 1, take (nat r) b)] else if b = ?buf then [] else [(a ! 1, b)])"
    using assms(1) True by (auto simp: vfs_syscall_def Let_def split: Option.bind_splits)
  show ?thesis
  proof (cases "b \<noteq> ?buf \<or> 0 < r")
    case True
    note st = vfs_read_stores [OF v True assms(2) l]
    have "user_writable pg (a ! 1) m" if "m \<le> length b" for m
      using st assms(3) [OF \<open>nr = 0 \<or> nr = 3\<close>] l that by (intro access_writable [where n = "a ! 2"]) auto
    then show ?thesis using w True by auto
  qed (simp add: w)
next
  case False
  then have "wr = []" using assms(1)
    by (auto simp: vfs_syscall_def Let_def split: Option.bind_splits if_splits prod.splits)
  then show ?thesis by simp
qed

lemmas wr_split = Option.bind_splits if_splits prod.splits option.splits sum.splits

lemma quiet_wr:
  "sys_exec e a um k = Some (r, ws, k') \<Longrightarrow> ws = []"
  "sys_exit e a k = Some (r, ws, k') \<Longrightarrow> ws = []"
  "sys_wait a k = Some (r, ws, k') \<Longrightarrow> ws = []"
  "sys_fork e k = Some (r, ws, k') \<Longrightarrow> ws = []"
  "sys_kill e a k = Some (r, ws, k') \<Longrightarrow> ws = []"
  "sys_lseek a k = Some (r, ws, k') \<Longrightarrow> ws = []"
  "sys_fcntl a k = Some (r, ws, k') \<Longrightarrow> ws = []"
  "sys_dup2 a k = Some (r, ws, k') \<Longrightarrow> ws = []"
  "sys_writev a um k = Some (r, ws, k') \<Longrightarrow> ws = []"
  "sys_socket a k = Some (r, ws, k') \<Longrightarrow> ws = []"
  "sys_bind a k = Some (r, ws, k') \<Longrightarrow> ws = []"
  "sys_listen a k = Some (r, ws, k') \<Longrightarrow> ws = []"
  "sys_sendto a um k = Some (r, ws, k') \<Longrightarrow> ws = []"
  "sys_send a um k = Some (r, ws, k') \<Longrightarrow> ws = []"
  "sys_close a k = Some (r, ws, k') \<Longrightarrow> ws = []"
  by (auto simp: sys_exec_def sys_exit_def sys_wait_def sys_fork_def sys_kill_def sys_lseek_def sys_fcntl_def sys_dup2_def
      sys_writev_def sys_socket_def sys_bind_def sys_listen_def sys_sendto_def sys_send_def sys_close_def
      with_sock_def Let_def split: wr_split)

lemma time_wr:
  "sys_gettimeofday a k = Some (r, ws, k') \<Longrightarrow> a ! 0 < 0xBFC00000 \<Longrightarrow> a ! 1 < 0xBFC00000 \<Longrightarrow> wr_ok (k_proc k) ws"
  "sys_clock_gettime a k = Some (r, ws, k') \<Longrightarrow> a ! 1 < 0xBFC00000 \<Longrightarrow> wr_ok (k_proc k) ws"
  by (auto simp: sys_gettimeofday_def sys_clock_gettime_def Let_def bad_writable split: wr_split)

lemma fd_wr:
  "sys_ioctl a k = Some (r, ws, k') \<Longrightarrow> a ! 2 < 0xBFC00000 \<Longrightarrow> wr_ok (k_proc k) ws"
  "sys_fstat a k = Some (r, ws, k') \<Longrightarrow> a ! 1 < 0xBFC00000 \<Longrightarrow> wr_ok (k_proc k) ws"
  by (auto simp: sys_ioctl_def sys_fstat_def vfs_ioctl_def vfs_fstat_def stat_bytes_def access_writable split: wr_split)

lemma waitpid_reap_wr:
  "waitpid_reap ust z code k = Some (r, ws, k') \<Longrightarrow> ws = [] \<or> (ust \<noteq> 0 \<and> (\<exists>x. ws = [(ust, le32 x)]))"
  by (auto simp: waitpid_reap_def split: wr_split)

lemma waitpid_loop_wr:
  "waitpid_loop e rest target ust k = Some (r, ws, k') \<Longrightarrow> ws = [] \<or> (ust \<noteq> 0 \<and> (\<exists>x. ws = [(ust, le32 x)]))"
proof (induction rest arbitrary: k)
  case Nil
  then show ?case using waitpid_reap_wr by (subst (asm) waitpid_loop.simps) (fastforce split: wr_split)
next
  case (Cons x rest)
  show ?case using Cons.prems Cons.IH waitpid_reap_wr
    by (subst (asm) waitpid_loop.simps) (fastforce simp: Let_def split: wr_split)
qed

lemma waitpid_wr:
  assumes "sys_waitpid e a k = Some (r, ws, k')" "a ! 1 < 0xBFC00000"
  shows "wr_ok (k_proc k) ws"
proof (cases "ws = []")
  case False
  then obtain ok where ok: "(if a ! 1 \<noteq> 0 then status_ok (k_proc k) (a ! 1) else Some True) = Some ok" "ok"
    and l: "waitpid_loop e (e_wakes e) (sint (a ! 0)) (a ! 1) k = Some (r, ws, k')"
    using assms(1) by (auto simp: sys_waitpid_def Let_def split: wr_split)
  obtain x where "ws = [(a ! 1, le32 x)]" "a ! 1 \<noteq> 0" using waitpid_loop_wr [OF l] False by auto
  then show ?thesis using status_writable [OF _ assms(2)] ok by simp
qed simp

lemma poll_scan_wr:
  "(p, bs) \<in> set (snd (poll_scan is ufds um k)) \<Longrightarrow> \<exists>i \<in> set is. p = ufds + of_nat i * 8 + 6 \<and> length bs = 2"
  by (induction "is") (auto simp: Let_def split: prod.splits)

lemma poll_loop_wr:
  assumes "poll_loop rest ufds n tmo start tt um k = Some (r, ws, k')" "(p, bs) \<in> set ws"
  shows "\<exists>i < n. p = ufds + of_nat i * 8 + 6 \<and> length bs = 2"
  using assms
proof (induction rest arbitrary: um k ws)
  case Nil
  then show ?case using poll_scan_wr [of p bs "[0..<n]" ufds um k]
    by (subst (asm) poll_loop.simps) (fastforce split: wr_split)
next
  case (Cons x rest)
  have s: "(p, bs) \<in> set (snd (poll_scan [0..<n] ufds um k)) \<Longrightarrow> \<exists>i < n. p = ufds + of_nat i * 8 + 6 \<and> length bs = 2"
    using poll_scan_wr [of p bs "[0..<n]" ufds um k] by auto
  show ?case using Cons.prems Cons.IH [of "fst x" "snd x"] s
    by (subst (asm) poll_loop.simps) (fastforce split: wr_split)
qed

lemma writable_part:
  assumes "user_writable s p n" "unat p + n \<le> 0xBFC00000" "j + m \<le> n"
  shows "user_writable s (p + of_nat j) m"
  unfolding user_writable_def
proof (intro allI impI)
  fix i assume i: "i < m"
  have "unat (p + of_nat j) = unat p + j" using assms i by (intro offset_in [of p n]) auto
  moreover have "p + of_nat j + of_nat i = p + of_nat (j + i)" by (simp add: add.assoc)
  moreover have "j + i < n" using i assms by simp
  ultimately show "0x1000 \<le> unat (p + of_nat j) + i \<and> unat (p + of_nat j) + i < 0xBFC00000 \<and>
      (user_page_ok s (p + of_nat j + of_nat i) True \<or> cow_page_ok s (p + of_nat j + of_nat i))"
    using assms(1) unfolding user_writable_def by (metis add.assoc)
qed

lemma poll_wr:
  assumes "sys_poll e a um k = Some (r, ws, k')" "a ! 0 < 0xBFC00000"
  shows "wr_ok (k_proc k) ws"
proof (cases "ws = []")
  case False
  let ?n = "a ! 1"
  have h: "?n \<noteq> 0" "\<not> ?n > 0xFFFFFFFF div 8" "bad_user k (a ! 0) (?n * 8) True = Some False"
    "\<exists>t tt. poll_loop (e_wakes e) (a ! 0) (unat ?n) t (ticks (k_net k)) tt um k = Some (r, ws, k')"
    using assms(1) False by (auto simp: sys_poll_def Let_def split: wr_split)
  have n: "unat ?n * 8 < 2 ^ 32" "unat (?n * 8) = unat ?n * 8"
    using h(2) by (simp_all add: word_less_nat_alt unat_word_ariths not_less)
  have w: "user_writable (k_proc k) (a ! 0) (unat ?n * 8)" using bad_writable [OF h(3) assms(2)] n by simp
  have "user_access_ok (k_proc k) (a ! 0) (?n * 8) True = Some True" using h(3) by (auto simp: bad_user_def split: wr_split)
  moreover have "?n * 8 \<noteq> 0"
  proof
    assume "?n * 8 = 0"
    then have "unat ?n * 8 = 0" using n(2) by simp
    then show False using h(1) by (simp add: unat_eq_zero)
  qed
  ultimately have b: "unat (a ! 0) + unat ?n * 8 \<le> 0xBFC00000"
    using user_access_ok_exact [OF assms(2), of "k_proc k" "?n * 8" True] n(2) by simp
  have "user_writable (k_proc k) p (length bs)" if pb: "(p, bs) \<in> set ws" for p bs
  proof -
    obtain i where i: "i < unat ?n" "p = a ! 0 + of_nat i * 8 + 6" "length bs = 2"
      using h(4) poll_loop_wr pb by blast
    have "p = a ! 0 + of_nat (i * 8 + 6)" using i by (simp add: add.assoc)
    then show ?thesis using writable_part [OF w b, of "i * 8 + 6" 2] i by (simp add: add.assoc)
  qed
  then show ?thesis by (auto simp: wr_ok_def)
qed simp

lemma udp_recvfrom_length: "udp_recvfrom h m s = (Some (ip, port, d), s') \<Longrightarrow> length d \<le> m"
  by (auto simp: udp_recvfrom_def udp_dequeue_def Let_def split: wr_split)

lemma recvfrom_wr:
  "sys_recvfrom a k = Some (r, ws, k') \<Longrightarrow> a ! 1 < 0xBFC00000 \<Longrightarrow> a ! 3 < 0xBFC00000 \<Longrightarrow> a ! 4 < 0xBFC00000 \<Longrightarrow> wr_ok (k_proc k) ws"
  by (auto simp: sys_recvfrom_def with_sock_def bad_writable dest: udp_recvfrom_length split: wr_split)

lemma accept_wr:
  assumes "sys_accept a um k = Some (r, ws, k')" "a ! 1 < 0xBFC00000" "a ! 2 < 0xBFC00000"
  shows "wr_ok (k_proc k) ws"
proof -
  have "wr_ok (k_proc k) ws'" if "accept_addr a um sa k = Some ws'" for sa ws'
    using that assms(2,3) by (auto simp: accept_addr_def Let_def bad_writable split: wr_split)
  then show ?thesis using assms(1) by (auto simp: sys_accept_def with_sock_def Let_def split: wr_split)
qed

lemma asc_length [simp]: "length (asc s) = length s"
  by (simp add: asc_def)

lemma ping_wr:
  assumes "sys_ping e a um k = Some (r, ws, k')" "a ! 1 < 0xBFC00000"
  shows "wr_ok (k_proc k) ws"
proof -
  have "length out = length m" if "net_ping dst i sq m cap rs s = Some ((out, n), t)" for dst i sq m cap rs out n and s t :: tcpst
    using net_ping_text [OF that] by (simp add: fits_def)
  moreover have "length (um_bytes um p n) = n" for p n by (simp add: um_bytes_def)
  ultimately show ?thesis using assms by (auto simp: sys_ping_def Let_def bad_writable min_def split: wr_split)
qed

lemma ping_stats_wr:
  assumes "sys_ping_stats a k = Some (r, ws, k')" "a ! 0 < 0xBFC00000"
  shows "wr_ok (k_proc k) ws"
proof -
  have "fits (replicate m CHR 0x00) m (net_ping_stats (replicate m CHR 0x00) m s)" for m and s :: tcpst
    unfolding net_ping_stats_def Let_def by (intro ping_finish_ok ping_out_ok) (simp add: text_ok_def)
  then have "length (fst (net_ping_stats (replicate m CHR 0x00) m s)) = m" for m and s :: tcpst by (simp add: fits_def)
  then show ?thesis using assms
    by (auto simp: sys_ping_stats_def bad_writable split: wr_split) (metis bad_writable fst_conv order_refl)
qed

lemma net_stats_wr:
  assumes "sys_net_stats a k = Some (r, ws, k')" "a ! 0 < 0xBFC00000"
  shows "wr_ok (k_proc k) ws"
proof -
  define c :: u32 where "c = (if a ! 1 > of_nat NET_STATS_COUNT then of_nat NET_STATS_COUNT else a ! 1)"
  have "unat c \<le> 13" by (auto simp: c_def word_less_nat_alt)
  then have c: "unat (c * 4) = unat c * 4" by (simp add: unat_word_ariths)
  have l: "length (concat (map le32 vs)) = length vs * 4" for vs by (induction vs) simp_all
  have "length (fst (net_stats_snapshot c (k_net k))) \<le> unat c"
    by (auto simp: net_stats_snapshot_def Let_def)
  then have "length (concat (map le32 (fst (net_stats_snapshot c (k_net k))))) \<le> unat (c * 4)" unfolding l c by simp
  then show ?thesis using assms unfolding sys_net_stats_def c_def [symmetric] Let_def
    by (auto simp: bad_writable split: wr_split)
qed

lemma resolve_wr:
  "sys_resolve e a um k = Some (r, ws, k') \<Longrightarrow> a ! 1 < 0xBFC00000 \<Longrightarrow> wr_ok (k_proc k) ws"
  by (auto simp: sys_resolve_def bad_writable split: wr_split)

lemma tcp_recv_length: "tcp_recv h m s = ((r, d), s') \<Longrightarrow> length d \<le> m"
  by (auto simp: tcp_recv_def tcp_recv_conn_def tcp_recv_take_def Let_def split: wr_split)

lemma recv_wr:
  "sys_recv a k = Some (r, ws, k') \<Longrightarrow> a ! 1 < 0xBFC00000 \<Longrightarrow> wr_ok (k_proc k) ws"
  by (auto simp: sys_recv_def with_sock_def bad_writable dest: tcp_recv_length split: wr_split)

section \<open>No call stores outside the caller's pages\<close>

text \<open>The arguments of each call that point to where it stores something.\<close>

definition out_ptrs :: "u32 \<Rightarrow> nat list" where
  "out_ptrs nr =
     (if nr \<in> {0, 3, 34, 197, 263, 27, 29, 31} then [1]
      else if nr \<in> {168, 30, 32} then [0]
      else if nr = 196 then [0, 1]
      else if nr = 54 then [2]
      else if nr = 23 then [1, 2]
      else if nr = 25 then [1, 3, 4]
      else [])"

lemmas call_wr = time_wr fd_wr waitpid_wr poll_wr recvfrom_wr accept_wr ping_wr ping_stats_wr net_stats_wr resolve_wr recv_wr

lemma proc_syscall_wr:
  assumes "proc_syscall e nr a um k = Some (r, ws, k')" "\<forall>i \<in> set (out_ptrs nr). a ! i < 0xBFC00000"
  shows "wr_ok (k_proc k) ws"
proof (cases "nr = 34")
  case True
  then show ?thesis using assms waitpid_wr by (simp add: proc_syscall_def out_ptrs_def)
next
  case False
  then have "ws = []" using assms(1)
    by (auto simp: proc_syscall_def dest: quiet_wr split: if_splits)
  then show ?thesis by simp
qed

lemma sock_syscall_wr:
  assumes "sock_syscall e nr a um k = Some (r, ws, k')" "\<forall>i \<in> set (out_ptrs nr). a ! i < 0xBFC00000"
  shows "wr_ok (k_proc k) ws"
proof (cases "nr \<in> {23, 25, 27, 29, 30, 32, 31}")
  case True
  then show ?thesis
    using assms accept_wr [of a um k r ws k'] recvfrom_wr [of a k r ws k'] recv_wr [of a k r ws k']
      ping_wr [of e a um k r ws k'] ping_stats_wr [of a k r ws k'] net_stats_wr [of a k r ws k'] resolve_wr [of e a um k r ws k']
    by (auto simp: sock_syscall_def out_ptrs_def)
next
  case False
  then have "ws = []" using assms(1) by (auto simp: sock_syscall_def dest: quiet_wr split: if_splits)
  then show ?thesis by simp
qed

lemma dispatch_nr_wr:
  assumes d: "syscall_dispatch_nr e nr a um k = Some (r, ws, k')" and p: "\<forall>i \<in> set (out_ptrs nr). a ! i < 0xBFC00000"
    and b: "blk_len (fat_blk (k_vfs k))" and x: "nr \<noteq> 192"
  shows "wr_ok (k_proc k) ws"
proof -
  consider (proc) "(nr \<ge> 11 \<and> nr \<le> 13) \<or> (nr \<ge> 33 \<and> nr \<le> 35)"
    | (vfsc) "\<not> ((nr \<ge> 11 \<and> nr \<le> 13) \<or> (nr \<ge> 33 \<and> nr \<le> 35))" "nr < 20" "nr \<noteq> 19"
    | (posix) "\<not> ((nr \<ge> 11 \<and> nr \<le> 13) \<or> (nr \<ge> 33 \<and> nr \<le> 35))" "nr \<in> {19, 45, 54, 55, 63, 91, 146, 168, 192, 196, 197, 263}"
    | (sock) "\<not> ((nr \<ge> 11 \<and> nr \<le> 13) \<or> (nr \<ge> 33 \<and> nr \<le> 35))" "nr \<ge> 20"
        "nr \<notin> {19, 45, 54, 55, 63, 91, 146, 168, 192, 196, 197, 263}"
    by (metis insertCI linorder_not_less)
  then show ?thesis
  proof cases
    case proc
    then show ?thesis using d p proc_syscall_wr by (simp add: syscall_dispatch_nr_def)
  next
    case vfsc
    then have n: "nr \<notin> {19, 45, 54, 55, 63, 91, 146, 168, 192, 196, 197, 263}" by auto
    obtain v where "vfs_syscall (k_proc k) um (e_keys e) (ticks (k_net k)) nr a (k_vfs k) = Some (the r, ws, v)"
      using d vfsc n by (auto simp: syscall_dispatch_nr_def split: Option.bind_splits)
    then show ?thesis by (rule vfs_syscall_wr) (use b p in \<open>auto simp: out_ptrs_def\<close>)
  next
    case posix
    show ?thesis
    proof (cases "nr \<in> {54, 168, 196, 197, 263}")
      case True
      then show ?thesis
        using d p time_wr [of a k r ws k'] fd_wr [of a k r ws k'] poll_wr [of e a um k r ws k']
        by (auto simp: syscall_dispatch_nr_def out_ptrs_def)
    next
      case False
      then have "ws = []" using d posix x
        by (auto simp: syscall_dispatch_nr_def sys_brk_def sys_munmap_def dest: quiet_wr)
      then show ?thesis by simp
    qed
  next
    case sock
    then have "sock_syscall e nr a um k = Some (r, ws, k')" using d
      by (auto simp: syscall_dispatch_nr_def linorder_not_less [symmetric] split: if_splits)
    then show ?thesis using p by (rule sock_syscall_wr)
  qed
qed

text \<open>Property C4: whatever system call but \<open>exec\<close> (11) and \<open>mmap2\<close> (192) a program makes, with
  whatever arguments, every byte the call stores through an address lies on a page
  the caller itself may write when it makes the call (a writable user page, or one
  that is shared copy-on-write), above the first page and below the guard band at
  0xBFC00000, provided the pointers to its results lie below the guard band.  The two
  exceptions store into frames they have just allocated: \<open>exec\<close> the image it loads, and \<open>mmap2\<close>
  zero bytes at the virtual address that equals the frame.\<close>

theorem syscall_writes_user:
  assumes "syscall_dispatch e nr a um k = Some (r, ws, k')" "nr \<notin> {11, 192}" "\<forall>i \<in> set (out_ptrs nr). a ! i < 0xBFC00000"
    "blk_len (fat_blk (k_vfs k))" "(p, bs) \<in> set ws" "i < length bs"
  shows "0x1000 \<le> unat p + i \<and> unat p + i < 0xBFC00000 \<and>
    (user_page_ok (k_proc k) (p + of_nat i) True \<or> cow_page_ok (k_proc k) (p + of_nat i))"
proof -
  obtain r' k'' where "syscall_dispatch_nr e nr a um k = Some (r', ws, k'')"
    using assms(1) by (auto simp: syscall_dispatch_def split: Option.bind_splits option.splits prod.splits)
  from dispatch_nr_wr [OF this assms(3,4)] have "wr_ok (k_proc k) ws" using assms(2) by simp
  then have "user_writable (k_proc k) p (length bs)" using assms(5) by (auto simp: wr_ok_def)
  then show ?thesis using assms(6) by (simp add: user_writable_def)
qed

section \<open>Above the guard band\<close>

text \<open>A buffer that reaches exactly to the end of the address space wraps to 0, and no page
  of it is looked at.\<close>

lemma access_wraps:
  assumes "0xBFC00000 < v"
  shows "user_access_ok s v (- v) w = Some True"
proof -
  have v: "0xBFC00000 < unat v" using assms by (simp add: word_less_nat_alt)
  have n: "unat (- v) = 2 ^ 32 - unat v" using v unat_sub_if' [of 0 v] unat_u32_lt [of v] by simp
  have "unat (0xBFC00000 - v) = 0xBFC00000 + 2 ^ 32 - unat v"
    using v unat_u32_lt [of v] by (simp add: unat_sub_if')
  then have "\<not> - v > 0xBFC00000 - v" using n by (simp add: word_less_nat_alt)
  moreover have "\<not> v < 0x1000" using v by (simp add: word_less_nat_alt)
  moreover have "user_pages_ok s v (v + - v) w = Some True" by (subst user_pages_ok.simps) simp
  ultimately show ?thesis by (simp add: user_access_ok_def)
qed

text \<open>Property C36: the check of a buffer is no protection above the guard band.  A program that
  receives from an established connection into any address above 0xBFC00000, with the length
  that reaches to the end of the address space, has the bytes sent by the peer stored at that
  address of the kernel, whatever the page tables say.\<close>

theorem recv_writes_kernel:
  assumes h: "sock_fd (sint fd) k = Some h" "so_type (sock_of h (k_net k)) = SOCK_TCP_ESTAB" "so_conn (sock_of h (k_net k)) = Some i"
    and c: "\<not> dead (tcp_conns (k_net k) ! i)" "rxb (tcp_conns (k_net k) ! i) = x # xs"
    and v: "0xBFC00000 < v"
  shows "\<exists>n d k'. syscall_dispatch_nr e 27 [fd, v, - v] um k = Some (Some n, [(v, d)], k') \<and>
    d = take (unat (- v)) (x # xs) \<and> d \<noteq> []"
proof -
  have b: "bad_user k v (- v) True = Some False" by (simp add: bad_user_def access_wraps [OF v])
  have "unat (- v) \<noteq> 0" using v by (auto simp: unat_eq_zero)
  moreover obtain c' s where "tcp_recv_conn (unat (- v)) (tcp_conns (k_net k) ! i) (k_net k)
      = ((int (length (take (unat (- v)) (x # xs))), take (unat (- v)) (x # xs)), c', s)"
    using c by (cases "tcp_window_update_ack (snd (tcp_recv_take (unat (- v)) (tcp_conns (k_net k) ! i))) (k_net k)")
      (auto simp: tcp_recv_conn_def tcp_recv_take_def Let_def)
  ultimately show ?thesis using h b
    by (simp add: syscall_dispatch_nr_def sock_syscall_def sys_recv_def with_sock_def tcp_recv_def)
qed

section \<open>A running system\<close>

definition demo_env :: env where
  "demo_env = \<lparr>e_esp = 0, e_anchor = 0, e_rounds = [], e_keys = [], e_wakes = [], e_shell = [], e_sock_abi = [], e_nginx = [],
     e_img_addr = 0xC0200000\<rparr>"

definition demo_net :: tcpst where
  "demo_net = tcp_boot\<lparr>tcp_conns := [tcp_conn0\<lparr>c_used := True, c_state := TCP_ESTABLISHED, rxb := [0x41, 0x42]\<rparr>],
     tcp_handles := [socket0\<lparr>so_type := SOCK_TCP_ESTAB, so_conn := Some 0\<rparr>]\<rparr>"

definition demo_fds :: "sockref vfs" where
  "demo_fds = \<lparr>fds = (replicate 32 None)[3 := Some 3],
     fs_slots = (replicate 32 \<lparr>f_inode = None, f_pos = 0, f_flags = 0, f_kind = FILE_VFS, f_private = PNull\<rparr>)
       [3 := \<lparr>f_inode = None, f_pos = 0, f_flags = 2, f_kind = FILE_SOCKET, f_private = PSock (TcpH 0)\<rparr>],
     rnd = 0, g_blks = [], fat_handles = replicate 8 \<lparr>h_used = False, h_de = demo_file\<rparr>, g_fatmnt = True,
     fat_blk = demo_dev, vfat = demo_fs, vkbd = kbd_boot, con = []\<rparr>"

definition demo_k :: kst where
  "demo_k = \<lparr>k_net = demo_net, k_proc = pm_set 0x101000 5 0x102007 sched_base, k_vfs = demo_fds,
     exec_img_buf = replicate 524288 0, next_mmap = 0x500000, boot_epoch = 1000\<rparr>"

lemma demo_sock: "sock_fd 3 demo_k = Some (TcpH 0)"
  by (simp add: sock_fd_def demo_k_def demo_fds_def vfs_socket_get_def fd_file_def fd_slot_def)

lemma demo_conn:
  "so_type (sock_of (TcpH 0) (k_net demo_k)) = SOCK_TCP_ESTAB" "so_conn (sock_of (TcpH 0) (k_net demo_k)) = Some 0"
  "\<not> dead (tcp_conns (k_net demo_k) ! 0)" "rxb (tcp_conns (k_net demo_k) ! 0) = [0x41, 0x42]"
  by (simp_all add: demo_k_def sock_of_def demo_net_def tcp_conn0_def)

theorem recv_writes_kernel_witness:
  "\<exists>n k'. syscall_dispatch_nr demo_env 27 [3, 0xC0100000, 0x3FF00000] (\<lambda>_. 0) demo_k = Some (Some n, [(0xC0100000, [0x41, 0x42])], k')"
proof -
  have m: "- 0xC0100000 = (0x3FF00000 :: u32)" by simp
  show ?thesis
    using recv_writes_kernel [OF _ demo_conn, of 3 "0xC0100000" demo_env "\<lambda>_. 0"] demo_sock unfolding m by simp
qed

lemma demo_mem:
  "cr3 (k_proc demo_k) = 0x100000" "pmem (k_proc demo_k) 0x100000 0 = 0x101007" "pmem (k_proc demo_k) 0x101000 5 = 0x102007"
  by (simp_all add: demo_k_def pm_set_def sched_base_def cow_base_def pmm.defs paging.defs procst.defs pmm_blank_def)

lemma demo_access8: "user_access_ok (k_proc demo_k) 0x5000 8 True = Some True"
proof -
  have ok: "user_page_ok (k_proc demo_k) 0x5000 True"
    by (simp add: user_page_ok_def demo_mem PDE_INDEX_def PTE_INDEX_def)
  have "user_pages_ok (k_proc demo_k) 0x6000 0x5008 True = Some True" by (subst user_pages_ok.simps) simp
  then have "user_pages_ok (k_proc demo_k) 0x5000 0x5008 True = Some True"
    using ok by (subst user_pages_ok.simps) simp
  then show ?thesis by (simp add: user_access_ok_def)
qed

lemma blk_ok_len:
  assumes "blk_ok dev disk"
  shows "blk_len dev"
  unfolding blk_len_def
proof (intro allI impI)
  fix lba and b :: "u8 list" assume "length b = 512"
  moreover have "case disk lba of Some d \<Rightarrow> length d = 512 \<and> dev lba b = (0, d)
      | None \<Rightarrow> fst (dev lba b) \<noteq> 0 \<and> snd (dev lba b) = b"
    using assms unfolding blk_ok_def by blast
  ultimately show "length (snd (dev lba b)) = 512" by (auto split: option.splits)
qed

lemma demo_dispatch:
  "\<exists>r bs k'. syscall_dispatch demo_env 263 [1, 0x5000] (\<lambda>_. 0) demo_k = Some (r, [(0x5000, bs)], k') \<and> length bs = 8"
  by (cases "syscall_signal_deliver demo_env 0 (k_proc demo_k)")
    (simp add: syscall_dispatch_def syscall_dispatch_nr_def sys_clock_gettime_def bad_user_def demo_access8 Let_def)

theorem syscall_writes_user_witness:
  "\<exists>r bs k'. syscall_dispatch demo_env 263 [1, 0x5000] (\<lambda>_. 0) demo_k = Some (r, [(0x5000, bs)], k') \<and> length bs = 8 \<and>
    (user_page_ok (k_proc demo_k) 0x5007 True \<or> cow_page_ok (k_proc demo_k) 0x5007)"
proof -
  obtain r bs k' where d: "syscall_dispatch demo_env 263 [1, 0x5000] (\<lambda>_. 0) demo_k = Some (r, [(0x5000, bs)], k')" "length bs = 8"
    using demo_dispatch by blast
  have "blk_len demo_dev" by (rule blk_ok_len [OF demo_ok])
  then have b: "blk_len (fat_blk (k_vfs demo_k))" by (simp add: demo_k_def demo_fds_def)
  have "0x1000 \<le> unat (0x5000 :: u32) + 7 \<and> unat (0x5000 :: u32) + 7 < 0xBFC00000 \<and>
      (user_page_ok (k_proc demo_k) (0x5000 + of_nat 7) True \<or> cow_page_ok (k_proc demo_k) (0x5000 + of_nat 7))"
    by (rule syscall_writes_user [OF d(1) _ _ b, where bs = bs]) (simp_all add: out_ptrs_def d(2))
  then show ?thesis using d by simp
qed

end
