(* ===== verification/SyscallFlow.thy ===== *)
theory SyscallFlow
  imports SyscallProps
begin

text \<open>
  System calls that wait, map memory or start programs: \<open>poll\<close> with a timeout returns and
  reports what is ready; \<open>mmap2\<close> clears the new page through an address that is not mapped;
  the image of a program cannot be read from a file.
\<close>

section \<open>Polling returns\<close>

definition ready :: "umem \<Rightarrow> u32 \<Rightarrow> kst \<Rightarrow> nat \<Rightarrow> bool" where
  "ready um ufds k i \<longleftrightarrow> (let pfd = um_bytes um (ufds + of_nat i * 8) 8
     in poll_check_fd (sint (rd32 pfd 0)) (rd16 pfd 4) k \<noteq> 0)"

lemma poll_scan_ready: "fst (poll_scan is ufds um k) = int (length (filter (ready um ufds k) is))"
  by (induction "is") (auto simp: ready_def Let_def split: prod.splits)

lemma poll_loop_returns:
  assumes "\<exists>x \<in> set ((um, k) # rest). tt \<le> ticks (k_net (snd x)) - start" "tmo = 0 \<Longrightarrow> tt = 0"
  shows "\<exists>um' ws k'. (um', k') \<in> set ((um, k) # rest) \<and>
    poll_loop rest ufds n tmo start tt um k = Some (Some (int (length (filter (ready um' ufds k') [0..<n]))), ws, k') \<and>
    (filter (ready um' ufds k') [0..<n] = [] \<longrightarrow> tt \<le> ticks (k_net k') - start)"
  using assms
proof (induction rest arbitrary: um k)
  case Nil
  obtain ws where s: "poll_scan [0..<n] ufds um k = (int (length (filter (ready um ufds k) [0..<n])), ws)"
    using poll_scan_ready [of "[0..<n]" ufds um k] by (metis prod.collapse)
  show ?case using s Nil(1) by (subst poll_loop.simps) (auto simp: filter_empty_conv)
next
  case (Cons x rest)
  obtain ws where s: "poll_scan [0..<n] ufds um k = (int (length (filter (ready um ufds k) [0..<n])), ws)"
    using poll_scan_ready [of "[0..<n]" ufds um k] by (metis prod.collapse)
  show ?case
  proof (cases "filter (ready um ufds k) [0..<n] \<noteq> [] \<or> tmo = 0 \<or> tt \<le> ticks (k_net k) - start")
    case True
    then have "poll_loop (x # rest) ufds n tmo start tt um k = Some (Some (int (length (filter (ready um ufds k) [0..<n]))), ws, k)"
      using s by (subst poll_loop.simps) (cases "filter (ready um ufds k) [0..<n]"; auto)
    moreover have "filter (ready um ufds k) [0..<n] = [] \<longrightarrow> tt \<le> ticks (k_net k) - start" using True Cons.prems(2) by auto
    ultimately show ?thesis by fastforce
  next
    case False
    obtain um1 k1 where x: "x = (um1, k1)" by fastforce
    have "\<exists>x \<in> set ((um1, k1) # rest). tt \<le> ticks (k_net (snd x)) - start" using Cons.prems(1) False x by auto
    from Cons.IH [OF this Cons.prems(2)] obtain um' ws' k' where r: "(um', k') \<in> set ((um1, k1) # rest)"
      "poll_loop rest ufds n tmo start tt um1 k1 = Some (Some (int (length (filter (ready um' ufds k') [0..<n]))), ws', k')"
      "filter (ready um' ufds k') [0..<n] = [] \<longrightarrow> tt \<le> ticks (k_net k') - start" by blast
    have "poll_loop (x # rest) ufds n tmo start tt um k
        = Some (Some (int (length (filter (ready um' ufds k') [0..<n]))), ws @ ws', k')"
      using False s x r(2) by (subst poll_loop.simps) simp
    then show ?thesis using r(1,3) x by auto
  qed
qed

text \<open>Property C19: a \<open>poll\<close> with a timeout, on a buffer that passes the check, returns once one
  of the wake-ups finds the timeout passed, however many wake-ups come before it and
  whatever they find.  It returns the number of entries that are ready in the state in which
  it returns, and 0 only once the timeout has passed.\<close>

theorem poll_returns:
  assumes "0 < a ! 1" "a ! 1 \<le> 0x1FFFFFFF" "bad_user k (a ! 0) (a ! 1 * 8) True = Some False" "0 \<le> sint (a ! 2)"
    "\<exists>x \<in> set ((um, k) # e_wakes e). (a ! 2 + 9) div 10 \<le> ticks (k_net (snd x)) - ticks (k_net k)"
  shows "\<exists>um' ws k'. (um', k') \<in> set ((um, k) # e_wakes e) \<and>
    sys_poll e a um k = Some (Some (int (length (filter (ready um' (a ! 0) k') [0..<unat (a ! 1)]))), ws, k') \<and>
    (filter (ready um' (a ! 0) k') [0..<unat (a ! 1)] = [] \<longrightarrow> (a ! 2 + 9) div 10 \<le> ticks (k_net k') - ticks (k_net k))"
proof -
  have z: "(a ! 2 + 9) div 10 = 0" if "sint (a ! 2) = 0"
  proof -
    have "a ! 2 = word_of_int (sint (a ! 2))" by simp
    then have "a ! 2 = 0" unfolding that by simp
    then show ?thesis by simp
  qed
  have "sys_poll e a um k = poll_loop (e_wakes e) (a ! 0) (unat (a ! 1)) (sint (a ! 2)) (ticks (k_net k)) ((a ! 2 + 9) div 10) um k"
    using assms(1-4) by (auto simp: sys_poll_def Let_def)
  then show ?thesis
    using poll_loop_returns [OF assms(5), of "sint (a ! 2)" "a ! 0" "unat (a ! 1)"] z by simp
qed

text \<open>A caller that asks for no event of its socket and sleeps twice: the first wake-up comes
  before the clock has moved, the second after two ticks.\<close>

definition demo_um :: umem where
  "demo_um x = (if x = 0x5000 then 3 else 0)"

definition demo_late :: kst where
  "demo_late = demo_k\<lparr>k_net := demo_net\<lparr>ticks := ticks demo_net + 2\<rparr>\<rparr>"

lemma demo_not_ready: "\<not> ready demo_um 0x5000 demo_k 0" "\<not> ready demo_um 0x5000 demo_late 0"
proof -
  have m: "um_bytes demo_um 0x5000 8 = [3, 0, 0, 0, 0, 0, 0, 0]"
    by code_simp
  have d: "sint (rd32 [3, 0, 0, 0, 0, 0, 0, 0] 0) = 3" "rd16 [3, 0, 0, 0, 0, 0, 0, 0] 4 = 0" by code_simp+
  have s: "sock_fd 3 demo_late = Some (TcpH 0)" using demo_sock by (simp add: sock_fd_def demo_late_def)
  have p: "net_socket_poll (Some (sock_of (TcpH 0) n)) 0 n = 0" if "n \<in> {k_net demo_k, k_net demo_late}" for n
    using that by (auto simp: net_socket_poll_def tcp_socket_poll_def sock_of_def Let_def demo_late_def demo_k_def demo_net_def
        socket0_def tcp_conn0_def)
  show "\<not> ready demo_um 0x5000 demo_k 0" "\<not> ready demo_um 0x5000 demo_late 0"
    by (simp_all add: ready_def m d poll_check_fd_def demo_sock s p)
qed

theorem poll_returns_witness:
  "\<exists>ws. sys_poll (demo_env\<lparr>e_wakes := [(demo_um, demo_k), (demo_um, demo_late)]\<rparr>) [0x5000, 1, 20] demo_um demo_k
     = Some (Some 0, ws, demo_late)"
proof -
  let ?e = "demo_env\<lparr>e_wakes := [(demo_um, demo_k), (demo_um, demo_late)]\<rparr>"
  have t: "ticks (k_net demo_late) - ticks (k_net demo_k) = 2" by (simp add: demo_late_def demo_k_def)
  have b: "bad_user demo_k 0x5000 8 True = Some False" using demo_access8 by (simp add: bad_user_def)
  have "\<exists>um' ws k'. (um', k') \<in> set ((demo_um, demo_k) # e_wakes ?e) \<and>
    sys_poll ?e [0x5000, 1, 20] demo_um demo_k = Some (Some (int (length (filter (ready um' 0x5000 k') [0..<1]))), ws, k') \<and>
    (filter (ready um' 0x5000 k') [0..<1] = [] \<longrightarrow> 2 \<le> ticks (k_net k') - ticks (k_net demo_k))"
    using poll_returns [of "[0x5000, 1, 20]" demo_k demo_um ?e] b t by simp
  then show ?thesis using demo_not_ready by auto
qed

section \<open>Mapping memory\<close>

definition unmapped :: "procst \<Rightarrow> u32 \<Rightarrow> bool" where
  "unmapped s va \<longleftrightarrow>
     (let pde = pmem s (cr3 s) (PDE_INDEX va) in
      (pde AND PAGE_PRESENT) = 0 \<or>
      ((pde AND PAGE_PSE) = 0 \<and> (pmem s (pde AND PAGE_FRAME_MASK) (PTE_INDEX va) AND PAGE_PRESENT) = 0))"

text \<open>Property C37: \<open>mmap2\<close> clears the frame it allocated through the virtual address that equals
  its physical one.  The low identity map is gone by then, so unless the caller happens to
  have that address mapped the kernel faults, whatever address and length were asked for.\<close>

theorem mmap2_faults:
  assumes "0 < len" "len \<le> 0xFFFFF000" "pmm_alloc_page (k_proc k) = (phys, s)" "phys \<noteq> 0" "unmapped s phys"
  shows "sys_mmap2 [va, len] k = None"
proof -
  have "unat (len + 4095) = unat len + 4095" using assms(2) by (simp add: unat_word_ariths word_le_nat_alt)
  moreover have "0 < unat len" using assms(1) by (simp add: unat_gt_0)
  ultimately have "unat ((len + 4095) div 4096) \<noteq> 0" by (simp add: unat_div)
  then obtain n where n: "[0..<unat ((len + 4095) div 4096)] = 0 # n" by (auto simp: upt_rec)
  have "memset_virt_page phys s = None" using assms(5) by (auto simp: memset_virt_page_def unmapped_def Let_def)
  then have "mmap_pages (0 # n) v (k_proc k) = None" for v using assms(3,4) by simp
  then show ?thesis using assms(1) n by (auto simp: sys_mmap2_def Let_def)
qed

definition demo_free :: procst where
  "demo_free = mark_page_free 0x103 (pmm_reset 0x400000 sched_base)"

lemma demo_free_mem:
  "cr3 demo_free = 0x100000" "pmem demo_free 0x100000 0 = 0x101007" "pmem demo_free 0x101000 0x103 = 0"
  by (simp_all add: demo_free_def pmm_reset_def sched_base_def cow_base_def pmm.defs paging.defs procst.defs pmm_blank_def)

lemma demo_free_pmm: "pmm_inv demo_free" "usable demo_free = {0x103000}"
  by (simp_all add: demo_free_def pmm_inv_mark_free pmm_inv_reset usable_def frees_mark_free)

theorem mmap2_faults_witness: "sys_mmap2 [0, 100] (demo_k\<lparr>k_proc := demo_free\<rparr>) = None"
proof -
  obtain p t where a: "pmm_alloc_page demo_free = (p, t)" by fastforce
  have p: "p = 0x103000" using demo_free_pmm by (rule_tac pmm_alloc_page_cases [OF demo_free_pmm(1) a]) auto
  have "pmem t = pmem demo_free \<and> cr3 t = cr3 demo_free" by (rule pmm_alloc_page_memory [OF demo_free_pmm(1) a])
  then have "unmapped t p" by (simp add: unmapped_def p demo_free_mem PDE_INDEX_def PTE_INDEX_def)
  then show ?thesis using mmap2_faults [of 100 "demo_k\<lparr>k_proc := demo_free\<rparr>" p t 0] a p by simp
qed

text \<open>A length in the last page of the address space wraps to no page at all, and the call
  succeeds without mapping anything.\<close>

lemma mmap2_huge:
  assumes "0xFFFFF000 < len"
  shows "sys_mmap2 [va, len] k = ret (sint (if va = 0 then next_mmap k else va)) k"
proof -
  have "unat len > 0xFFFFF000" using assms by (simp add: word_less_nat_alt)
  then have "unat (len + 4095) = unat len - 0xFFFFF001" using unat_u32_lt [of len]
    by (simp add: unat_word_ariths mod_if)
  then have "unat (len + 4095) < 4096" using unat_u32_lt [of len] by simp
  then have "(len + 4095) div 4096 = 0" by (intro unat_eqI) (simp add: unat_div)
  then show ?thesis using assms by (auto simp: sys_mmap2_def Let_def)
qed

section \<open>Programs stored as files\<close>

lemma img_denied:
  assumes "v < v + of_nat CATOS_EXEC_IMG_MAX" "\<not> user_page_ok s v True"
  shows "user_access_ok s v (of_nat CATOS_EXEC_IMG_MAX) True = Some False"
proof -
  have "user_pages_ok s v (v + of_nat CATOS_EXEC_IMG_MAX) True = Some False" using assms by (subst user_pages_ok.simps) simp
  then show ?thesis by (simp add: user_access_ok_def)
qed

text \<open>The image buffer is in the kernel, and the read of a file checks its buffer as user
  memory: a program that is not embedded in the kernel is never loaded.\<close>

lemma exec_file_fails:
  assumes "sys_fetch_path (k_proc k) um (a ! 0) = Some (Some path)" "exec_embedded e path = None"
    and o: "vfs_open path O_RDONLY (k_vfs k) = Some (fd, v)" "0 \<le> fd"
    and f: "fd_file fd v = Some g" "f_kind g = FILE_VFS" "can_read (i_ops (the (f_inode g)))"
    and b: "e_img_addr e < e_img_addr e + of_nat CATOS_EXEC_IMG_MAX" "\<not> user_page_ok (k_proc k) (e_img_addr e) True"
  shows "\<exists>k'. sys_exec e a um k = ret (- 14) k'"
proof -
  have "vfs_read (k_proc k) (e_keys e) now fd (e_img_addr e) buf (of_nat CATOS_EXEC_IMG_MAX) v = Some (- 14, buf, v)" for now buf
    using f img_denied [OF b] by (simp add: vfs_read_def)
  then have "exec_read e (k_proc k) now fd 0 buf v = Some (Some (- 14), 0, buf, snd (vfs_close fd v))" for now buf
    by (subst exec_read.simps) simp
  then show ?thesis using assms(1,2) o by (simp add: sys_exec_def exec_image_def Let_def)
qed

end
