(* ===== verification/LibcSort.thy ===== *)
theory LibcSort
  imports CatPrelude "HOL-Library.Sorting_Algorithms"
begin

text \<open>
  Sorting and searching of the C library, \<^verbatim>\<open>qsort\<close> and \<^verbatim>\<open>bsearch\<close> of
  \<^verbatim>\<open>src/libc/src/stdlib.c\<close>.

  An array is its byte list; element \<open>j\<close> is the slice of \<open>size\<close> bytes at \<open>j * size\<close>.
  A comparison function of C reads two such slices and returns an int.  \<open>compar_ok\<close>
  says that it decides a total preorder, given as a comparator of the library.
\<close>

section \<open>The functions\<close>

definition elem_at :: "nat \<Rightarrow> u8 list \<Rightarrow> nat \<Rightarrow> u8 list" where
  "elem_at sz b j = take sz (drop (j * sz) b)"

text \<open>The three byte loops through the 256-byte buffer \<open>tmp\<close>.\<close>

definition qsort_swap :: "nat \<Rightarrow> nat \<Rightarrow> u8 list \<Rightarrow> u8 list" where
  "qsort_swap sz j b =
     (let ks = [0..<min sz 256];
          tmp = map (\<lambda>k. b ! ((j - 1) * sz + k)) ks;
          b = fold (\<lambda>k b. b[(j - 1) * sz + k := b ! (j * sz + k)]) ks b
      in fold (\<lambda>k b. b[j * sz + k := tmp ! k]) ks b)"

fun qsort_inner :: "(u8 list \<Rightarrow> u8 list \<Rightarrow> int) \<Rightarrow> nat \<Rightarrow> nat \<Rightarrow> u8 list \<Rightarrow> u8 list" where
  "qsort_inner compar sz 0 b = b"
| "qsort_inner compar sz (Suc j) b =
     (if compar (elem_at sz b j) (elem_at sz b (Suc j)) > 0
      then qsort_inner compar sz j (qsort_swap sz (Suc j) b) else b)"

definition qsort :: "u8 list \<Rightarrow> nat \<Rightarrow> nat \<Rightarrow> (u8 list \<Rightarrow> u8 list \<Rightarrow> int) \<Rightarrow> u8 list" where
  "qsort b nmemb sz compar = fold (qsort_inner compar sz) [1..<nmemb] b"

text \<open>The result of \<open>bsearch\<close> is the index of the element found; \<open>None\<close> is NULL.\<close>

function bsearch_loop ::
  "u8 list \<Rightarrow> u8 list \<Rightarrow> nat \<Rightarrow> (u8 list \<Rightarrow> u8 list \<Rightarrow> int) \<Rightarrow> nat \<Rightarrow> nat \<Rightarrow> nat option" where
  "bsearch_loop k b sz compar lo hi =
     (if lo < hi then
        (let mid = lo + (hi - lo) div 2; c = compar k (elem_at sz b mid) in
         if c = 0 then Some mid
         else if c < 0 then bsearch_loop k b sz compar lo mid
         else bsearch_loop k b sz compar (mid + 1) hi)
      else None)"
  by pat_completeness auto

termination bsearch_loop
  by (relation "measure (\<lambda>(_, _, _, _, lo, hi). hi - lo)") auto

declare bsearch_loop.simps [simp del]

definition bsearch ::
  "u8 list \<Rightarrow> u8 list \<Rightarrow> nat \<Rightarrow> nat \<Rightarrow> (u8 list \<Rightarrow> u8 list \<Rightarrow> int) \<Rightarrow> nat option" where
  "bsearch k b nmemb sz compar = bsearch_loop k b sz compar 0 nmemb"

section \<open>Arrays as lists of elements\<close>

definition elems :: "nat \<Rightarrow> nat \<Rightarrow> u8 list \<Rightarrow> u8 list list" where
  "elems sz n b = map (elem_at sz b) [0..<n]"

definition compar_ok :: "u8 list comparator \<Rightarrow> (u8 list \<Rightarrow> u8 list \<Rightarrow> int) \<Rightarrow> bool" where
  "compar_ok cmp compar \<longleftrightarrow>
     (\<forall>x y. (compar x y > 0 \<longleftrightarrow> compare cmp x y = Greater) \<and> (compar x y < 0 \<longleftrightarrow> compare cmp x y = Less))"

definition swap_adj :: "nat \<Rightarrow> 'a list \<Rightarrow> 'a list" where
  "swap_adj j xs = xs[j - 1 := xs ! j, j := xs ! (j - 1)]"

fun sink :: "'a comparator \<Rightarrow> nat \<Rightarrow> 'a list \<Rightarrow> 'a list" where
  "sink cmp 0 xs = xs"
| "sink cmp (Suc j) xs =
     (if compare cmp (xs ! j) (xs ! Suc j) = Greater then sink cmp j (swap_adj (Suc j) xs) else xs)"

lemma length_elems [simp]: "length (elems sz n b) = n"
  by (simp add: elems_def)

lemma nth_elems [simp]: "j < n \<Longrightarrow> elems sz n b ! j = elem_at sz b j"
  by (simp add: elems_def)

lemma fold_upd_nth:
  "length (fold (\<lambda>k b. b[f k := g k b]) ks b) = length b"
  by (induction ks arbitrary: b) auto

lemma copy_loop_nth:
  assumes "m \<le> d" "a + m \<le> length b"
  shows "fold (\<lambda>k b. b[a + k := b ! (a + d + k)]) [0..<m] b ! i
    = (if a \<le> i \<and> i < a + m then b ! (i + d) else b ! i)"
  using assms
proof (induction m arbitrary: i)
  case (Suc m)
  let ?f = "fold (\<lambda>k b. b[a + k := b ! (a + d + k)]) [0..<m] b"
  have "?f ! (a + d + m) = b ! (a + d + m)" using Suc by simp
  then show ?case using Suc by (auto simp: nth_list_update fold_upd_nth add.commute add.left_commute)
qed auto

lemma store_loop_nth:
  assumes "a + m \<le> length b"
  shows "fold (\<lambda>k b. b[a + k := v k]) [0..<m] b ! i = (if a \<le> i \<and> i < a + m then v (i - a) else b ! i)"
  using assms
proof (induction m)
  case (Suc m)
  then show ?case by (auto simp: nth_list_update fold_upd_nth)
qed auto

lemma length_qsort_swap [simp]: "length (qsort_swap sz j b) = length b"
  by (simp add: qsort_swap_def Let_def fold_upd_nth)

lemma qsort_swap_nth:
  assumes "0 < j" "sz \<le> 256" "Suc j * sz \<le> length b"
  shows "qsort_swap sz j b ! i =
    (if (j - 1) * sz \<le> i \<and> i < j * sz then b ! (i + sz)
     else if j * sz \<le> i \<and> i < Suc j * sz then b ! (i - sz) else b ! i)"
proof -
  define a where "a = (j - 1) * sz"
  have j: "j * sz = a + sz" using assms(1) by (cases j) (auto simp: a_def)
  have S: "Suc j * sz = a + sz + sz" using j by simp
  have m: "min sz 256 = sz" using assms(2) by simp
  define c where "c = fold (\<lambda>k b. b[a + k := b ! (a + sz + k)]) [0..<sz] b"
  have c: "c ! i = (if a \<le> i \<and> i < a + sz then b ! (i + sz) else b ! i)" for i
    unfolding c_def using assms(3) S by (intro copy_loop_nth) auto
  have lc: "length c = length b" by (simp add: c_def fold_upd_nth)
  have "qsort_swap sz j b = fold (\<lambda>k b. b[a + sz + k := map (\<lambda>k. b0 ! (a + k)) [0..<sz] ! k]) [0..<sz] c"
    if "b0 = b" for b0
    unfolding qsort_swap_def Let_def m a_def [symmetric] j c_def that ..
  from this [OF refl] show ?thesis
    using store_loop_nth [of "a + sz" sz c "\<lambda>k. map (\<lambda>k. b ! (a + k)) [0..<sz] ! k" i] assms(3)
    unfolding a_def [symmetric] j S by (auto simp: c lc S)
qed

lemma elem_at_map:
  assumes "Suc j * sz \<le> length b"
  shows "elem_at sz b j = map (\<lambda>k. b ! (j * sz + k)) [0..<sz]"
  using assms by (auto simp: elem_at_def intro: nth_equalityI)

lemma elem_bound: "j < n \<Longrightarrow> n * sz \<le> l \<Longrightarrow> Suc j * sz \<le> (l :: nat)"
  by (meson Suc_leI le_trans mult_le_mono1)

lemma elems_swap:
  assumes "0 < j" "j < n" "sz \<le> 256" "n * sz \<le> length b"
  shows "elems sz n (qsort_swap sz j b) = swap_adj j (elems sz n b)"
proof (rule nth_equalityI)
  fix i assume "i < length (elems sz n (qsort_swap sz j b))"
  then have i: "i < n" by simp
  have B: "Suc i * sz \<le> length b" "Suc j * sz \<le> length b" using elem_bound [OF i assms(4)] elem_bound [OF assms(2,4)] by simp_all
  have e: "elem_at sz (qsort_swap sz j b) i = elem_at sz b (if i = j then j - 1 else if Suc i = j then j else i)"
  proof (cases "i = j \<or> Suc i = j")
    case True
    then show ?thesis using B assms
      by (auto simp: elem_at_map qsort_swap_nth algebra_simps)
  next
    case False
    then have "Suc i < j \<or> j < i" by auto
    then show ?thesis
    proof
      assume "j < i"
      then have "Suc j * sz \<le> i * sz" by (intro mult_le_mono1) simp
      then show ?thesis using B assms False by (auto simp: elem_at_map qsort_swap_nth)
    next
      assume "Suc i < j"
      then obtain j' where j: "j = Suc j'" "Suc i \<le> j'" by (cases j) auto
      then have "Suc i * sz \<le> j' * sz" by (intro mult_le_mono1)
      then show ?thesis using B assms False j by (auto simp: elem_at_map qsort_swap_nth)
    qed
  qed
  then show "elems sz n (qsort_swap sz j b) ! i = swap_adj j (elems sz n b) ! i"
    using i assms by (auto simp: swap_adj_def nth_list_update)
qed (simp add: swap_adj_def)

lemma qsort_swap_tail:
  assumes "0 < j" "j < n" "sz \<le> 256" "n * sz \<le> length b"
  shows "drop (n * sz) (qsort_swap sz j b) = drop (n * sz) b"
proof (rule nth_equalityI)
  fix i assume "i < length (drop (n * sz) (qsort_swap sz j b))"
  then show "drop (n * sz) (qsort_swap sz j b) ! i = drop (n * sz) b ! i"
    using elem_bound [OF assms(2), of sz "n * sz"] elem_bound [OF assms(2,4)] assms
    by (auto simp: qsort_swap_nth)
qed simp

lemma qsort_inner_elems:
  assumes "compar_ok cmp compar" "j < n" "sz \<le> 256" "n * sz \<le> length b"
  shows "elems sz n (qsort_inner compar sz j b) = sink cmp j (elems sz n b)
    \<and> length (qsort_inner compar sz j b) = length b
    \<and> drop (n * sz) (qsort_inner compar sz j b) = drop (n * sz) b"
  using assms
proof (induction j arbitrary: b)
  case (Suc j)
  have g: "compar x y > 0 \<longleftrightarrow> compare cmp x y = Greater" for x y
    using Suc.prems(1) by (simp add: compar_ok_def)
  show ?case
    using Suc.IH [of "qsort_swap sz (Suc j) b"] Suc.prems
    by (simp add: g elems_swap qsort_swap_tail)
qed simp

section \<open>Insertion sort on lists\<close>

lemma swap_adj_app: "swap_adj (Suc (length ys)) (ys @ y # x # zs) = ys @ x # y # zs"
  by (simp add: swap_adj_def nth_append list_update_append)

text \<open>Sinking splits the prefix before the moved element into what stays left of it and
  what it passes.\<close>

lemma sink_splits:
  "\<exists>us vs. ys = us @ vs \<and> sink cmp (length ys) (ys @ x # zs) = us @ x # vs @ zs
     \<and> (\<forall>v \<in> set vs. compare cmp v x = Greater) \<and> (us \<noteq> [] \<longrightarrow> compare cmp (last us) x \<noteq> Greater)"
proof (induction ys arbitrary: zs rule: rev_induct)
  case (snoc y ys)
  show ?case
  proof (cases "compare cmp y x = Greater")
    case True
    obtain us vs where s: "ys = us @ vs" "sink cmp (length ys) (ys @ x # y # zs) = us @ x # vs @ y # zs"
      "\<forall>v \<in> set vs. compare cmp v x = Greater" "us \<noteq> [] \<longrightarrow> compare cmp (last us) x \<noteq> Greater"
      using snoc by blast
    have "sink cmp (length (ys @ [y])) ((ys @ [y]) @ x # zs) = us @ x # (vs @ [y]) @ zs"
      using True s(2) swap_adj_app [of ys y x zs] by (simp add: nth_append)
    moreover have "ys @ [y] = us @ (vs @ [y])" "\<forall>v \<in> set (vs @ [y]). compare cmp v x = Greater"
      using s True by auto
    ultimately show ?thesis using s(4) by blast
  next
    case False
    then have "sink cmp (length (ys @ [y])) ((ys @ [y]) @ x # zs) = (ys @ [y]) @ x # [] @ zs"
      by (simp add: nth_append)
    then show ?thesis using False
      by (intro exI [of _ "ys @ [y]"] exI [of _ "[]"]) simp
  qed
qed simp

lemma sorted_insert:
  assumes "Sorting_Algorithms.sorted cmp (us @ vs)" "\<forall>v \<in> set vs. compare cmp v x = Greater"
    "us \<noteq> [] \<longrightarrow> compare cmp (last us) x \<noteq> Greater"
  shows "Sorting_Algorithms.sorted cmp (us @ x # vs)"
proof -
  have u: "compare cmp u x \<noteq> Greater" if "u \<in> set us" for u
  proof -
    from that obtain us' where us: "us = us' @ [last us]" by (metis append_butlast_last_id empty_iff list.set(1))
    with assms(1) have "Sorting_Algorithms.sorted cmp (us' @ [last us])" by (auto simp: sorted_append_iff)
    then have "u = last us \<or> compare cmp u (last us) \<noteq> Greater"
      using that us by (metis Un_iff in_set_conv_decomp_first list.set_intros(1) set_ConsD set_append sorted_append_iff empty_iff list.set(1))
    then show ?thesis using assms(3) that compare.trans_not_greater [of cmp u "last us" x] by auto
  qed
  have v: "compare cmp x v \<noteq> Greater" if "v \<in> set vs" for v
    using assms(2) that by (auto simp: compare.greater_iff_sym_less)
  have "Sorting_Algorithms.sorted cmp (x # vs)"
    using assms(1) v by (intro sorted_ConsI) (auto simp: sorted_append_iff)
  then show ?thesis using assms(1) u by (auto simp: sorted_append_iff)
qed

lemma stable_insert:
  assumes "\<forall>v \<in> set vs. compare cmp v x = Greater"
  shows "stable_segment cmp k (us @ x # vs) = stable_segment cmp k (us @ vs @ [x])"
proof (cases "compare cmp k x = Equiv")
  case True
  then have "filter (\<lambda>v. compare cmp k v = Equiv) vs = []"
    using assms by (auto simp: filter_empty_conv) (metis comp.distinct(3) compare.sym compare.trans_equiv comp.distinct(5))
  then show ?thesis by simp
qed simp

lemma sink_step:
  assumes "i < length xs" "Sorting_Algorithms.sorted cmp (take i xs)"
  shows "Sorting_Algorithms.sorted cmp (take (Suc i) (sink cmp i xs)) \<and> mset (sink cmp i xs) = mset xs
    \<and> stable_segment cmp k (sink cmp i xs) = stable_segment cmp k xs"
proof -
  let ?ys = "take i xs" and ?x = "xs ! i" and ?zs = "drop (Suc i) xs"
  have xs: "xs = ?ys @ ?x # ?zs" using assms(1) by (simp add: id_take_nth_drop)
  have l: "length ?ys = i" using assms(1) by simp
  obtain us vs where s: "?ys = us @ vs" "sink cmp i xs = us @ ?x # vs @ ?zs"
    "\<forall>v \<in> set vs. compare cmp v ?x = Greater" "us \<noteq> [] \<longrightarrow> compare cmp (last us) ?x \<noteq> Greater"
    using sink_splits [of ?ys cmp ?x ?zs] xs l by metis
  have t: "take (Suc i) (sink cmp i xs) = us @ ?x # vs"
    using s(1,2) l by (simp add: take_Cons')
  have "xs = us @ vs @ ?x # ?zs" using xs s(1) by simp
  then have m: "mset xs = mset (us @ vs @ ?x # ?zs)" "stable_segment cmp k xs = stable_segment cmp k ((us @ vs @ [?x]) @ ?zs)"
    by (metis, metis append.assoc append_Cons append_Nil)
  have "Sorting_Algorithms.sorted cmp (us @ ?x # vs)"
    using sorted_insert [of cmp us vs ?x] assms(2) s by simp
  moreover have "mset (sink cmp i xs) = mset xs" by (simp add: s(2) m(1))
  moreover have "stable_segment cmp k (sink cmp i xs) = stable_segment cmp k xs"
    using stable_insert [OF s(3), of k us] by (auto simp: s(2) m(2))
  ultimately show ?thesis unfolding t by simp
qed

lemma qsort_prefix:
  assumes "compar_ok cmp compar" "m \<le> n" "sz \<le> 256" "n * sz \<le> length b"
  defines "c \<equiv> fold (qsort_inner compar sz) [1..<m] b"
  shows "length c = length b \<and> drop (n * sz) c = drop (n * sz) b
    \<and> Sorting_Algorithms.sorted cmp (take m (elems sz n c)) \<and> mset (elems sz n c) = mset (elems sz n b)
    \<and> stable_segment cmp k (elems sz n c) = stable_segment cmp k (elems sz n b)"
  using assms(2) unfolding c_def
proof (induction m)
  case (Suc m)
  let ?c = "fold (qsort_inner compar sz) [1..<m] b"
  show ?case
  proof (cases "m = 0")
    case True
    then show ?thesis by (cases "elems sz n b") auto
  next
    case False
    then have "[1..<Suc m] = [1..<m] @ [m]" by simp
    then have f: "fold (qsort_inner compar sz) [1..<Suc m] b = qsort_inner compar sz m ?c" by simp
    have ih: "length ?c = length b" "drop (n * sz) ?c = drop (n * sz) b"
      "Sorting_Algorithms.sorted cmp (take m (elems sz n ?c))" "mset (elems sz n ?c) = mset (elems sz n b)"
      "stable_segment cmp k (elems sz n ?c) = stable_segment cmp k (elems sz n b)"
      using Suc by auto
    have q: "elems sz n (qsort_inner compar sz m ?c) = sink cmp m (elems sz n ?c)
      \<and> length (qsort_inner compar sz m ?c) = length b
      \<and> drop (n * sz) (qsort_inner compar sz m ?c) = drop (n * sz) b"
      using qsort_inner_elems [OF assms(1), of m n sz ?c] Suc.prems assms(3,4) ih(1,2) by simp
    have m: "m < length (elems sz n ?c)" using Suc.prems by simp
    show ?thesis unfolding f using q ih(4,5) sink_step [OF m ih(3), of k] by simp
  qed
qed simp

lemma qsort_length: "length (qsort b n sz compar) = length b"
proof -
  have "length (qsort_inner compar sz j b) = length b" for j b
    by (induction j arbitrary: b) simp_all
  then have "length (fold (qsort_inner compar sz) js b) = length b" for js b
    by (induction js arbitrary: b) simp_all
  then show ?thesis by (simp add: qsort_def)
qed

section \<open>The contract of a sort and binary search over it\<close>

text \<open>A client of the sort relies on order and on the elements being kept; what binary
  search finds follows from these two laws alone.\<close>

lemma bsearch_loop_sound:
  assumes "bsearch_loop k b sz compar lo hi = Some i"
  shows "lo \<le> i \<and> i < hi \<and> compar k (elem_at sz b i) = 0"
  using assms
proof (induction k b sz compar lo hi rule: bsearch_loop.induct)
  case (1 k b sz compar lo hi)
  show ?case
  proof (cases "lo < hi")
    case True
    let ?mid = "lo + (hi - lo) div 2"
    have m: "lo \<le> ?mid" "?mid < hi" using True by auto
    show ?thesis
      using 1 True m by (subst (asm) (3) bsearch_loop.simps) (force simp: Let_def split: if_splits)
  next
    case False
    then show ?thesis using 1(3) by (subst (asm) bsearch_loop.simps) simp
  qed
qed

lemma sorted_nth_mono:
  assumes "Sorting_Algorithms.sorted cmp xs" "i \<le> j" "j < length xs"
  shows "compare cmp (xs ! i) (xs ! j) \<noteq> Greater"
proof (cases "i = j")
  case False
  then have "xs ! i \<in> set (take j xs)" "xs ! j \<in> set (drop j xs)"
    using assms by (auto simp: in_set_conv_nth intro: exI [of _ i] exI [of _ 0])
  then show ?thesis
    using assms(1) sorted_append_iff [of cmp "take j xs" "drop j xs"] by simp
qed simp

lemma bsearch_loop_complete:
  assumes "compar_ok cmp compar" "Sorting_Algorithms.sorted cmp (elems sz n b)"
    "hi \<le> n" "lo \<le> i" "i < hi" "compare cmp k (elem_at sz b i) = Equiv"
  shows "\<exists>j. bsearch_loop k b sz compar lo hi = Some j"
  using assms
proof (induction k b sz compar lo hi rule: bsearch_loop.induct)
  case (1 k b sz compar lo hi)
  let ?mid = "lo + (hi - lo) div 2"
  have lh: "lo < hi" using "1.prems"(4,5) by simp
  have mono: "compare cmp (elem_at sz b p) (elem_at sz b q) \<noteq> Greater" if "p \<le> q" "q < n" for p q
    using sorted_nth_mono [OF "1.prems"(2), of p q] that by simp
  have c: "compar x y < 0 \<longleftrightarrow> compare cmp x y = Less" "compar x y > 0 \<longleftrightarrow> compare cmp x y = Greater" for x y
    using "1.prems"(1) by (auto simp: compar_ok_def)
  have lt: "i < ?mid" if "compar k (elem_at sz b ?mid) < 0"
  proof (rule ccontr)
    assume "\<not> i < ?mid"
    then have "compare cmp (elem_at sz b ?mid) (elem_at sz b i) \<noteq> Greater" using mono [of ?mid i] "1.prems"(3,5) by simp
    moreover have "compare cmp (elem_at sz b i) k \<noteq> Greater" using "1.prems"(6) compare.sym [of cmp "elem_at sz b i" k] by simp
    ultimately have "compare cmp (elem_at sz b ?mid) k \<noteq> Greater" by (rule compare.trans_not_greater)
    then show False using that by (simp add: c compare.greater_iff_sym_less)
  qed
  have gt: "?mid < i" if "compar k (elem_at sz b ?mid) > 0"
  proof (rule ccontr)
    assume "\<not> ?mid < i"
    then have "compare cmp (elem_at sz b i) (elem_at sz b ?mid) \<noteq> Greater" using mono [of i ?mid] "1.prems"(3) lh by simp
    moreover have "compare cmp k (elem_at sz b i) \<noteq> Greater" using "1.prems"(6) by simp
    ultimately have "compare cmp k (elem_at sz b ?mid) \<noteq> Greater" by (metis compare.trans_not_greater)
    then show False using that by (simp add: c)
  qed
  consider "compar k (elem_at sz b ?mid) = 0" | "compar k (elem_at sz b ?mid) < 0" | "compar k (elem_at sz b ?mid) > 0"
    by linarith
  then show ?case
  proof cases
    case 1
    then show ?thesis using lh by (subst bsearch_loop.simps) simp
  next
    case 2
    then have "\<exists>j. bsearch_loop k b sz compar lo ?mid = Some j"
      using "1.IH"(1) [OF lh refl refl] "1.prems" lt by simp
    then show ?thesis using lh 2 by (subst bsearch_loop.simps) simp
  next
    case 3
    then have "\<exists>j. bsearch_loop k b sz compar (?mid + 1) hi = Some j"
      using "1.IH"(2) [OF lh refl refl] "1.prems" gt by simp
    then show ?thesis using lh 3 by (subst bsearch_loop.simps) (simp add: Let_def)
  qed
qed

locale array_sorter =
  fixes cmp :: "u8 list comparator" and srt :: "u8 list \<Rightarrow> u8 list"
    and sz n :: nat and valid :: "u8 list \<Rightarrow> bool"
  assumes sorts: "valid b \<Longrightarrow> Sorting_Algorithms.sorted cmp (elems sz n (srt b))"
    and keeps: "valid b \<Longrightarrow> mset (elems sz n (srt b)) = mset (elems sz n b)"
begin

lemma keeps_set: "valid b \<Longrightarrow> set (elems sz n (srt b)) = set (elems sz n b)"
  using keeps [of b] by (metis set_mset_mset)

lemma search_after_sort:
  assumes "valid b" "compar_ok cmp compar"
  shows "case bsearch k (srt b) n sz compar of
      Some i \<Rightarrow> i < n \<and> compare cmp k (elem_at sz (srt b) i) = Equiv
    | None \<Rightarrow> \<forall>x \<in> set (elems sz n b). compare cmp k x \<noteq> Equiv"
proof (cases "bsearch k (srt b) n sz compar")
  case None
  have "compare cmp k x \<noteq> Equiv" if "x \<in> set (elems sz n b)" for x
  proof
    assume e: "compare cmp k x = Equiv"
    have "x \<in> set (elems sz n (srt b))" using that by (simp only: keeps_set [OF assms(1)])
    then obtain i where "i < n" "x = elem_at sz (srt b) i" by (auto simp: elems_def)
    then show False
      using None e bsearch_loop_complete [OF assms(2) sorts [OF assms(1)], of n 0 i k] by (simp add: bsearch_def)
  qed
  then show ?thesis using None by simp
next
  case (Some i)
  then have i: "i < n" "compar k (elem_at sz (srt b) i) = 0"
    using bsearch_loop_sound [of k "srt b" sz compar 0 n i] by (auto simp: bsearch_def)
  have "compare cmp k (elem_at sz (srt b) i) = Equiv"
    using assms(2) [unfolded compar_ok_def, rule_format, of k "elem_at sz (srt b) i"] i(2)
    by (cases "compare cmp k (elem_at sz (srt b) i)") simp_all
  then show ?thesis using Some i by simp
qed

end

lemma qsort_sorts:
  assumes "compar_ok cmp compar" "sz \<le> 256" "n * sz \<le> length b"
  shows "Sorting_Algorithms.sorted cmp (elems sz n (qsort b n sz compar))"
    "mset (elems sz n (qsort b n sz compar)) = mset (elems sz n b)"
    "stable_segment cmp k (elems sz n (qsort b n sz compar)) = stable_segment cmp k (elems sz n b)"
    "drop (n * sz) (qsort b n sz compar) = drop (n * sz) b"
  using qsort_prefix [OF assms(1) order_refl assms(2,3), of k] by (simp_all add: qsort_def)

interpretation sorted_array: array_sorter cmp "\<lambda>b. qsort b n sz compar" sz n
  "\<lambda>b. compar_ok cmp compar \<and> sz \<le> 256 \<and> n * sz \<le> length b" for cmp compar sz n
  by unfold_locales (auto simp: qsort_sorts)

text \<open>Property C23: for elements of at most 256 bytes and a comparison function that decides
  a total preorder, \<open>qsort\<close> is the stable sort: the array afterwards holds the
  elements in the order that the reference sort of the library gives, and the bytes
  behind the array are untouched.\<close>

theorem qsort_is_stable_sort:
  assumes "compar_ok cmp compar" "sz \<le> 256" "n * sz \<le> length b"
  shows "elems sz n (qsort b n sz compar) = Sorting_Algorithms.sort cmp (elems sz n b)
    \<and> drop (n * sz) (qsort b n sz compar) = drop (n * sz) b
    \<and> length (qsort b n sz compar) = length b"
proof -
  have "Sorting_Algorithms.sort cmp (elems sz n b) = elems sz n (qsort b n sz compar)"
    using qsort_sorts [OF assms] by (intro sort_eqI) simp_all
  then show ?thesis using qsort_sorts(4) [OF assms] qsort_length by simp
qed

text \<open>A comparison of the first bytes, for arrays of two-byte elements.\<close>

definition first_byte :: "u8 list \<Rightarrow> u8 list \<Rightarrow> int" where
  "first_byte x y = uint (hd x) - uint (hd y)"

lemma first_byte_ok: "compar_ok (key hd default) first_byte"
  by (auto simp: compar_ok_def first_byte_def word_less_def)

theorem qsort_is_stable_sort_witness:
  "elems 2 3 (qsort [2, 7, 1, 8, 2, 6, 99] 3 2 first_byte) = [[1, 8], [2, 7], [2, 6]]
    \<and> drop 6 (qsort [2, 7, 1, 8, 2, 6, 99] 3 2 first_byte) = [99]"
  using qsort_is_stable_sort [OF first_byte_ok, of 2 3 "[2, 7, 1, 8, 2, 6, 99]"]
  by (simp add: elems_def elem_at_def upt_rec numeral_nat compare_default_eq_Greater_iff)

text \<open>A binary search of an array that was sorted with the same comparison
  function ends, finds an element equivalent to the key if the array had one, and
  otherwise returns NULL.\<close>

theorem bsearch_after_qsort:
  assumes "compar_ok cmp compar" "sz \<le> 256" "n * sz \<le> length b"
  shows "case bsearch k (qsort b n sz compar) n sz compar of
      Some i \<Rightarrow> i < n \<and> compare cmp k (elem_at sz (qsort b n sz compar) i) = Equiv
    | None \<Rightarrow> \<forall>x \<in> set (elems sz n b). compare cmp k x \<noteq> Equiv"
  using sorted_array.search_after_sort [of cmp compar sz n b compar k] assms by simp

theorem bsearch_after_qsort_witness:
  "\<exists>i < 3. bsearch [2, 0] (qsort [2, 7, 1, 8, 2, 6] 3 2 first_byte) 3 2 first_byte = Some i
     \<and> hd (elem_at 2 (qsort [2, 7, 1, 8, 2, 6] 3 2 first_byte) i) = 2"
  using bsearch_after_qsort [OF first_byte_ok, of 2 3 "[2, 7, 1, 8, 2, 6]" "[2, 0]"]
  by (auto simp: elems_def elem_at_def upt_rec numeral_nat compare_default_eq_Greater_iff compare_default_eq_Less_iff split: option.splits)

end
