(* ===== verification/LibcHeap.thy ===== *)
theory LibcHeap
  imports CatPrelude
begin

text \<open>
  The allocator of the C library, \<^verbatim>\<open>malloc\<close>, \<^verbatim>\<open>free\<close> and
  \<^verbatim>\<open>heap_coalesce\<close> of \<^verbatim>\<open>src/libc/src/stdlib.c\<close>.

  A block header is 16 bytes at a 16-aligned address of the pool; its three fields
  are maps from header addresses.  The address of the pool, fixed at link time, is a
  field.  A pointer to a link cell, \<open>prev\<close> and \<open>link\<close> of the source, is \<open>None\<close> for the
  list head and \<open>Some b\<close> for the link of block \<open>b\<close>.  The walks over the list and over
  the pool follow what the headers say and are partial functions: a damaged heap may
  make them run for ever.
\<close>

section \<open>The allocator\<close>

record heap =
  blk_size :: "u32 \<Rightarrow> u32"
  blk_next :: "u32 \<Rightarrow> u32"
  blk_magic :: "u32 \<Rightarrow> u32"
  free_head :: u32
  heap_ready :: bool
  heap_pool :: u32

abbreviation (input) "POOL_BYTES \<equiv> (0x80000 :: u32)"
abbreviation (input) "MAGIC_USED \<equiv> (0xC7A051B0 :: u32)"
abbreviation (input) "MAGIC_FREE \<equiv> (0xC7A051B1 :: u32)"

definition next_block :: "heap \<Rightarrow> u32 \<Rightarrow> u32" where
  "next_block h b = b + 16 + blk_size h b"

definition set_link :: "u32 option \<Rightarrow> u32 \<Rightarrow> heap \<Rightarrow> heap" where
  "set_link link v h =
     (case link of None \<Rightarrow> h\<lparr>free_head := v\<rparr> | Some b \<Rightarrow> h\<lparr>blk_next := (blk_next h)(b := v)\<rparr>)"

partial_function (option) coalesce_loop :: "heap \<Rightarrow> u32 \<Rightarrow> u32 \<Rightarrow> u32 option \<Rightarrow> u32 \<Rightarrow> heap option" where
  "coalesce_loop h cur tail link run =
     (if cur < tail then
        (if blk_magic h cur = MAGIC_FREE then
           (if run \<noteq> 0 then
              coalesce_loop (h\<lparr>blk_size := (blk_size h)(run := blk_size h run + (16 + blk_size h cur))\<rparr>)
                (next_block (h\<lparr>blk_size := (blk_size h)(run := blk_size h run + (16 + blk_size h cur))\<rparr>) cur)
                tail link run
            else coalesce_loop (set_link link cur h) (next_block (set_link link cur h) cur) tail (Some cur) cur)
         else coalesce_loop h (next_block h cur) tail link 0)
      else Some (set_link link 0 h))"

definition heap_coalesce :: "heap \<Rightarrow> heap option" where
  "heap_coalesce h = coalesce_loop h (heap_pool h) (heap_pool h + POOL_BYTES) None 0"

definition heap_setup :: "heap \<Rightarrow> heap" where
  "heap_setup h =
     (if heap_ready h then h
      else let b = heap_pool h in
        h\<lparr>blk_size := (blk_size h)(b := POOL_BYTES - 16), blk_magic := (blk_magic h)(b := MAGIC_FREE),
          blk_next := (blk_next h)(b := 0), free_head := b, heap_ready := True\<rparr>)"

definition malloc_take :: "heap \<Rightarrow> u32 \<Rightarrow> u32 option \<Rightarrow> u32 \<Rightarrow> u32 \<times> heap" where
  "malloc_take h req prev b =
     (let h = (if blk_size h b \<ge> req + 16 + 16 then
                 let rem = b + 16 + req;
                     h = h\<lparr>blk_size := (blk_size h)(rem := blk_size h b - req - 16),
                           blk_magic := (blk_magic h)(rem := MAGIC_FREE),
                           blk_next := (blk_next h)(rem := blk_next h b)\<rparr>;
                     h = set_link prev rem h
                 in h\<lparr>blk_size := (blk_size h)(b := req)\<rparr>
               else set_link prev (blk_next h b) h)
      in (b + 16, h\<lparr>blk_magic := (blk_magic h)(b := MAGIC_USED), blk_next := (blk_next h)(b := 0)\<rparr>))"

partial_function (option) malloc_walk :: "heap \<Rightarrow> u32 \<Rightarrow> u32 option \<Rightarrow> u32 \<Rightarrow> (u32 \<times> heap) option" where
  "malloc_walk h req prev b =
     (if b = 0 then Some (0, h)
      else if blk_size h b < req then malloc_walk h req (Some b) (blk_next h b)
      else Some (malloc_take h req prev b))"

definition malloc_req :: "u32 \<Rightarrow> u32" where
  "malloc_req len = (len + 15) AND NOT 15"

definition malloc :: "u32 \<Rightarrow> heap \<Rightarrow> (u32 \<times> heap) option" where
  "malloc len h =
     (let h = heap_setup h; len = (if len = 0 then 1 else len) in
      if len > POOL_BYTES then Some (0, h)
      else malloc_walk h (malloc_req len) None (free_head h))"

definition free :: "u32 \<Rightarrow> heap \<Rightarrow> heap option" where
  "free p h =
     (let pool_lo = heap_pool h; pool_hi = pool_lo + POOL_BYTES; b = p - 16 in
      if p = 0 then Some h
      else if p AND 15 \<noteq> 0 then Some h
      else if b < pool_lo \<or> p > pool_hi \<or> p + blk_size h b > pool_hi then Some h
      else if blk_magic h b \<noteq> MAGIC_USED then Some h
      else heap_coalesce (h\<lparr>blk_magic := (blk_magic h)(b := MAGIC_FREE)\<rparr>))"

section \<open>The layout of the pool\<close>

text \<open>A layout is the sequence of blocks from the start of the pool, each a payload size
  and whether it is in use.  Offsets are natural numbers; \<open>at h o\<close> is the address.\<close>

type_synonym layout = "(nat \<times> bool) list"

definition at :: "heap \<Rightarrow> nat \<Rightarrow> u32" where
  "at h off = heap_pool h + of_nat off"

definition pool_ok :: "heap \<Rightarrow> bool" where
  "pool_ok h \<longleftrightarrow> 0 < unat (heap_pool h) \<and> unat (heap_pool h) + 0x80000 < 2 ^ 32 \<and> heap_pool h AND 15 = 0"

fun lay :: "heap \<Rightarrow> nat \<Rightarrow> layout \<Rightarrow> nat \<Rightarrow> bool" where
  "lay h off [] e \<longleftrightarrow> off = e"
| "lay h off ((n, u) # bs) e \<longleftrightarrow> blk_size h (at h off) = of_nat n \<and>
     blk_magic h (at h off) = (if u then MAGIC_USED else MAGIC_FREE) \<and> 0 < n \<and> 16 dvd n \<and> lay h (off + 16 + n) bs e"

fun span :: "layout \<Rightarrow> nat" where
  "span [] = 0"
| "span ((n, u) # bs) = 16 + n + span bs"

fun free_offs :: "nat \<Rightarrow> layout \<Rightarrow> nat list" where
  "free_offs off [] = []"
| "free_offs off ((n, u) # bs) = (if u then [] else [off]) @ free_offs (off + 16 + n) bs"

fun used_offs :: "nat \<Rightarrow> layout \<Rightarrow> (nat \<times> nat) list" where
  "used_offs off [] = []"
| "used_offs off ((n, u) # bs) = (if u then [(off, n)] else []) @ used_offs (off + 16 + n) bs"

fun flist :: "heap \<Rightarrow> u32 \<Rightarrow> nat list \<Rightarrow> bool" where
  "flist h x [] \<longleftrightarrow> x = 0"
| "flist h x (o1 # os) \<longleftrightarrow> x = at h o1 \<and> flist h (blk_next h x) os"

fun coalesced :: "layout \<Rightarrow> bool" where
  "coalesced ((n, u) # (m, v) # bs) \<longleftrightarrow> (u \<or> v) \<and> coalesced ((m, v) # bs)"
| "coalesced bs \<longleftrightarrow> True"

definition heap_inv :: "heap \<Rightarrow> layout \<Rightarrow> bool" where
  "heap_inv h bs \<longleftrightarrow> heap_ready h \<and> pool_ok h \<and> lay h 0 bs 0x80000
     \<and> flist h (free_head h) (free_offs 0 bs) \<and> coalesced bs"

lemma unat_at: "pool_ok h \<Longrightarrow> off \<le> 0x80000 \<Longrightarrow> unat (at h off) = unat (heap_pool h) + off"
  by (simp add: pool_ok_def at_def unat_word_ariths unat_of_nat)

lemma at_inj: "pool_ok h \<Longrightarrow> a \<le> 0x80000 \<Longrightarrow> b \<le> 0x80000 \<Longrightarrow> at h a = at h b \<longleftrightarrow> a = b"
  by (metis add_left_cancel unat_at)

lemma at_nonzero: "pool_ok h \<Longrightarrow> off \<le> 0x80000 \<Longrightarrow> at h off \<noteq> 0"
  using unat_at [of h off] by (auto simp: pool_ok_def)

lemma at_add: "at h off + of_nat n = at h (off + n)"
  by (simp add: at_def add.assoc)

lemma at_16: "at h off + 16 = at h (off + 16)"
  using at_add [of h off 16] by simp

lemma lay_end: "lay h off bs e \<Longrightarrow> e = off + span bs"
  by (induction bs arbitrary: off) fastforce+

lemma lay_append: "lay h off (xs @ ys) e \<longleftrightarrow> lay h off xs (off + span xs) \<and> lay h (off + span xs) ys e"
  by (induction xs arbitrary: off) (auto simp: add.assoc)

lemma span_append [simp]: "span (xs @ ys) = span xs + span ys"
  by (induction xs) auto

lemma free_offs_append: "free_offs off (xs @ ys) = free_offs off xs @ free_offs (off + span xs) ys"
  by (induction xs arbitrary: off) (auto simp: add.assoc)

lemma used_offs_append: "used_offs off (xs @ ys) = used_offs off xs @ used_offs (off + span xs) ys"
  by (induction xs arbitrary: off) (auto simp: add.assoc)

lemma free_offs_bounds: "x \<in> set (free_offs off bs) \<Longrightarrow> off \<le> x \<and> x + 16 \<le> off + span bs"
  by (induction bs arbitrary: off) (force split: if_splits)+

lemma lay_frame:
  assumes "lay h off bs e" "heap_pool h' = heap_pool h"
    "\<And>x. off \<le> x \<Longrightarrow> x < e \<Longrightarrow> blk_size h' (at h x) = blk_size h (at h x) \<and> blk_magic h' (at h x) = blk_magic h (at h x)"
  shows "lay h' off bs e"
  using assms
proof (induction bs arbitrary: off)
  case (Cons b bs)
  obtain n u where b: "b = (n, u)" by force
  have "e = off + 16 + n + span bs" using lay_end [OF Cons.prems(1)] b by simp
  then have a: "blk_size h' (at h off) = blk_size h (at h off) \<and> blk_magic h' (at h off) = blk_magic h (at h off)"
    using Cons.prems(3) [of off] by simp
  have "at h' off = at h off" using Cons.prems(2) by (simp add: at_def)
  moreover have "lay h' (off + 16 + n) bs e" using Cons.prems b by (intro Cons.IH) auto
  ultimately show ?case using Cons.prems(1) a b by simp
qed simp

section \<open>The free list\<close>

text \<open>The part of the list before a block: from pointer \<open>x\<close> over the blocks \<open>os\<close> to \<open>y\<close>.\<close>

fun fseg :: "heap \<Rightarrow> u32 \<Rightarrow> nat list \<Rightarrow> u32 \<Rightarrow> bool" where
  "fseg h x [] y \<longleftrightarrow> x = y"
| "fseg h x (o1 # os) y \<longleftrightarrow> x = at h o1 \<and> fseg h (blk_next h x) os y"

lemma flist_append: "flist h x (os @ ps) \<longleftrightarrow> (\<exists>y. fseg h x os y \<and> flist h y ps)"
  by (induction os arbitrary: x) auto

lemma flist_frame:
  assumes "flist h x os" "heap_pool h' = heap_pool h" "\<And>i. i \<in> set os \<Longrightarrow> blk_next h' (at h i) = blk_next h (at h i)"
  shows "flist h' x os"
  using assms by (induction os arbitrary: x) (auto simp: at_def)

text \<open>The link cell that leads to the block behind \<open>os\<close>.\<close>

definition link_of :: "heap \<Rightarrow> u32 option \<Rightarrow> nat list \<Rightarrow> u32 option" where
  "link_of h prev os = (if os = [] then prev else Some (at h (last os)))"

lemma link_of_Cons: "link_of h (Some (at h i)) os = link_of h prev (i # os)"
  by (simp add: link_of_def)

lemma malloc_walk_spec:
  assumes "flist h b os" "pool_ok h" "\<And>i. i \<in> set os \<Longrightarrow> i \<le> 0x80000"
  shows "malloc_walk h req prev b =
    (case dropWhile (\<lambda>i. blk_size h (at h i) < req) os of
       [] \<Rightarrow> Some (0, h)
     | i # _ \<Rightarrow> Some (malloc_take h req (link_of h prev (takeWhile (\<lambda>i. blk_size h (at h i) < req) os)) (at h i)))"
  using assms
proof (induction os arbitrary: b prev)
  case Nil
  then show ?case by (simp add: malloc_walk.simps)
next
  case (Cons i os)
  have nz: "at h i \<noteq> 0" using Cons.prems by (intro at_nonzero) auto
  show ?case
  proof (cases "blk_size h (at h i) < req")
    case True
    then show ?thesis using Cons.prems nz Cons.IH [of "blk_next h b" "Some b"]
      by (subst malloc_walk.simps, cases "dropWhile (\<lambda>i. blk_size h (at h i) < req) os")
        (simp_all add: link_of_Cons [of h i _ prev] del: dropWhile_eq_Nil_conv)
  next
    case False
    then show ?thesis using Cons.prems nz by (subst malloc_walk.simps) (simp add: link_of_def)
  qed
qed

lemma set_link_sel [simp]:
  "blk_size (set_link l v h) = blk_size h" "blk_magic (set_link l v h) = blk_magic h"
  "heap_pool (set_link l v h) = heap_pool h" "heap_ready (set_link l v h) = heap_ready h"
  "free_head (set_link l v h) = (if l = None then v else free_head h)"
  "blk_next (set_link l v h) = (case l of None \<Rightarrow> blk_next h | Some b \<Rightarrow> (blk_next h)(b := v))"
  by (auto simp: set_link_def split: option.splits)

text \<open>Redirecting the cell behind \<open>os\<close> redirects the segment.\<close>

lemma fseg_redirect:
  assumes "fseg h x os y" "distinct os" "\<And>i. i \<in> set os \<Longrightarrow> i \<le> 0x80000" "pool_ok h" "os \<noteq> []"
    "heap_pool h' = heap_pool h" "blk_next h' (at h (last os)) = z"
    "\<And>i. i \<in> set os \<Longrightarrow> i \<noteq> last os \<Longrightarrow> blk_next h' (at h i) = blk_next h (at h i)"
  shows "fseg h' x os z"
  using assms
proof (induction os arbitrary: x)
  case (Cons i os)
  have a: "at h' j = at h j" for j using Cons.prems(6) by (simp add: at_def)
  show ?case
  proof (cases "os = []")
    case True
    then show ?thesis using Cons.prems a by simp
  next
    case False
    then have "last os \<in> set os" by simp
    then have "i \<noteq> last (i # os)" using Cons.prems(2) False by auto
    then have n: "blk_next h' (at h i) = blk_next h (at h i)" using Cons.prems(8) by simp
    have "fseg h' (blk_next h x) os z" using Cons.prems False by (intro Cons.IH) auto
    then show ?thesis using Cons.prems(1) n a by simp
  qed
qed simp

text \<open>The list after the cell behind \<open>xs\<close> was made to point at \<open>z\<close>.\<close>

lemma flist_relink:
  assumes h: "flist h (free_head h) (xs @ ys)" and ok: "pool_ok h"
    and d: "distinct xs" "\<And>i. i \<in> set xs \<Longrightarrow> i \<le> 0x80000"
    and p: "heap_pool h' = heap_pool h"
    and f: "free_head h' = (if xs = [] then z else free_head h)"
    and l: "xs \<noteq> [] \<Longrightarrow> blk_next h' (at h (last xs)) = z"
    and r: "\<And>i. i \<in> set xs \<Longrightarrow> i \<noteq> last xs \<Longrightarrow> blk_next h' (at h i) = blk_next h (at h i)"
    and z: "flist h' z zs"
  shows "flist h' (free_head h') (xs @ zs)"
proof (cases "xs = []")
  case False
  obtain y where "fseg h (free_head h) xs y" using h by (auto simp: flist_append)
  then have "fseg h' (free_head h) xs z"
    using fseg_redirect [of h "free_head h" xs y h' z] False ok d p l r by blast
  then show ?thesis using f False z by (auto simp: flist_append)
qed (use f z in simp)

lemma free_offs_distinct: "distinct (free_offs off bs)"
proof (induction bs arbitrary: off)
  case (Cons b bs)
  obtain n u where "b = (n, u)" by force
  then show ?case using Cons [of "off + 16 + n"] free_offs_bounds [of off "off + 16 + n" bs] by auto
qed simp

lemma free_offs_split:
  assumes "free_offs off bs = xs @ i # ys"
  shows "\<exists>as n cs. bs = as @ (n, False) # cs \<and> i = off + span as \<and> xs = free_offs off as
    \<and> ys = free_offs (i + 16 + n) cs"
  using assms
proof (induction bs arbitrary: off xs)
  case (Cons b bs)
  obtain n u where b: "b = (n, u)" by force
  show ?case
  proof (cases "\<not> u \<and> xs = []")
    case True
    then show ?thesis using Cons.prems b
      by (intro exI [of _ "[]"] exI [of _ n] exI [of _ bs]) auto
  next
    case False
    then obtain xs' where x: "xs = (if u then [] else [off]) @ xs'" "free_offs (off + 16 + n) bs = xs' @ i # ys"
      using Cons.prems b by (cases u; cases xs) auto
    obtain as m cs where "bs = as @ (m, False) # cs" "i = off + 16 + n + span as" "xs' = free_offs (off + 16 + n) as"
      "ys = free_offs (i + 16 + m) cs"
      using Cons.IH [OF x(2)] by blast
    then show ?thesis using b x(1)
      by (intro exI [of _ "(n, u) # as"] exI [of _ m] exI [of _ cs]) auto
  qed
qed simp

section \<open>Allocation\<close>

lemma malloc_req_spec:
  assumes "0 < unat len" "unat len \<le> 0x80000"
  shows "16 dvd unat (malloc_req len)" "unat len \<le> unat (malloc_req len)" "unat (malloc_req len) < unat len + 16"
proof -
  have "malloc_req len = (len + 15) AND NOT (mask 4)" by (simp add: malloc_req_def mask_eq_exp_minus_1)
  also have "\<dots> = push_bit 4 (drop_bit 4 (len + 15))" by (rule bit_word_eqI) (auto simp: bit_simps)
  finally have m: "malloc_req len = push_bit 4 (drop_bit 4 (len + 15))" .
  have "unat (malloc_req len) = 16 * (unat (len + 15) div 16) mod 2 ^ 32"
    by (simp add: m push_bit_eq_mult drop_bit_eq_div unat_word_ariths unat_div mult.commute)
  moreover have "unat (len + 15) = unat len + 15" using assms by (simp add: unat_word_ariths)
  ultimately have e: "unat (malloc_req len) = 16 * ((unat len + 15) div 16)" using assms by simp
  show "16 dvd unat (malloc_req len)" "unat len \<le> unat (malloc_req len)" "unat (malloc_req len) < unat len + 16"
    unfolding e by auto
qed

text \<open>What \<open>malloc_take\<close> makes of a block of the layout.\<close>

definition cut :: "nat \<Rightarrow> nat \<Rightarrow> layout" where
  "cut req n = (if req + 32 \<le> n then [(req, True), (n - req - 16, False)] else [(n, True)])"

lemma span_cut [simp]: "req \<le> n \<Longrightarrow> span (cut req n) = 16 + n"
  by (simp add: cut_def)

lemma free_offs_cut: "free_offs off (cut req n) = (if req + 32 \<le> n then [off + 16 + req] else [])"
  by (simp add: cut_def)

lemma used_offs_cut: "used_offs off (cut req n) = [(off, if req + 32 \<le> n then req else n)]"
  by (simp add: cut_def)

lemma coalesced_append:
  "coalesced (xs @ ys) \<longleftrightarrow> coalesced xs \<and> coalesced ys \<and> (xs \<noteq> [] \<and> ys \<noteq> [] \<longrightarrow> snd (last xs) \<or> snd (hd ys))"
proof (induction xs)
  case (Cons x xs)
  then show ?case by (cases xs; cases ys; cases x) auto
qed simp

lemma coalesced_cut: "coalesced (as @ (n, False) # cs) \<Longrightarrow> coalesced (as @ cut req n @ cs)"
  by (auto simp: coalesced_append cut_def) (cases cs; auto)+

text \<open>Replacing one free block by \<open>mid\<close> when the cells outside it are kept and the cell
  that led to it leads to \<open>z\<close>.\<close>

lemma heap_inv_replace:
  assumes inv: "heap_inv h (as @ (n, False) # cs)"
    and pool: "heap_pool h' = heap_pool h" "heap_ready h'"
    and mid: "lay h' (span as) mid (span as + 16 + n)" "coalesced (as @ mid @ cs)"
    and cells: "\<And>x. x < span as \<or> span as + 16 + n \<le> x \<Longrightarrow> x < 0x80000 \<Longrightarrow>
      blk_size h' (at h x) = blk_size h (at h x) \<and> blk_magic h' (at h x) = blk_magic h (at h x)"
    and nexts: "\<And>x. x \<in> set (free_offs 0 as) \<Longrightarrow> x \<noteq> last (free_offs 0 as) \<Longrightarrow> blk_next h' (at h x) = blk_next h (at h x)"
    and link: "free_head h' = (if free_offs 0 as = [] then z else free_head h)"
      "free_offs 0 as \<noteq> [] \<Longrightarrow> blk_next h' (at h (last (free_offs 0 as))) = z"
    and rest: "flist h' z (free_offs (span as) mid @ free_offs (span as + 16 + n) cs)"
  shows "heap_inv h' (as @ mid @ cs)"
proof -
  have ok: "pool_ok h" using inv by (simp add: heap_inv_def)
  have ok': "pool_ok h'" using ok pool by (simp add: pool_ok_def)
  have l: "lay h 0 as (span as)" "lay h (span as + 16 + n) cs 0x80000"
    using inv by (auto simp: heap_inv_def lay_append)
  have e: "span as + 16 + n + span cs = 0x80000" using lay_end [OF l(2)] by simp
  have m: "span mid = 16 + n" using lay_end [OF mid(1)] by simp
  have "lay h' 0 as (span as)" using e by (intro lay_frame [OF l(1) pool(1)] cells) auto
  moreover have "lay h' (span as + 16 + n) cs 0x80000"
    by (intro lay_frame [OF l(2) pool(1)] cells) auto
  ultimately have "lay h' 0 (as @ mid @ cs) 0x80000" using mid(1) m by (simp add: lay_append add.assoc)
  moreover have "flist h' (free_head h') (free_offs 0 as @ free_offs (span as) mid @ free_offs (span as + 16 + n) cs)"
  proof (rule flist_relink [OF _ ok free_offs_distinct _ pool(1) link nexts rest])
    show "flist h (free_head h) (free_offs 0 as @ span as # free_offs (span as + 16 + n) cs)"
      using inv by (simp add: heap_inv_def free_offs_append)
    show "i \<le> 0x80000" if "i \<in> set (free_offs 0 as)" for i using free_offs_bounds [OF that] e by simp
  qed
  ultimately show ?thesis using ok' pool(2) mid(2) m by (simp add: heap_inv_def free_offs_append add.assoc)
qed

lemma take_layout:
  assumes inv: "heap_inv h (as @ (n, False) # cs)" and fit: "unat req \<le> n" and r: "0 < unat req" "16 dvd unat req"
  defines "b \<equiv> at h (span as)"
  shows "\<exists>h'. malloc_take h req (link_of h None (free_offs 0 as)) b = (b + 16, h')
    \<and> heap_inv h' (as @ cut (unat req) n @ cs) \<and> heap_pool h' = heap_pool h"
proof -
  let ?o = "span as" and ?xs = "free_offs 0 as" and ?ys = "free_offs (span as + 16 + n) cs"
  define l where "l = link_of h None ?xs"
  define z where "z = span as + 16 + unat req"
  define h' where "h' = snd (malloc_take h req l b)"
  have ok: "pool_ok h" and ready: "heap_ready h" and co: "coalesced (as @ (n, False) # cs)"
    using inv by (auto simp: heap_inv_def)
  have L: "blk_size h b = of_nat n" "blk_magic h b = MAGIC_FREE" "0 < n" "16 dvd n" "lay h (?o + 16 + n) cs 0x80000"
    using inv by (auto simp: heap_inv_def lay_append b_def)
  have tot: "?o + 16 + n + span cs = 0x80000" using lay_end [OF L(5)] by simp
  have un: "unat (blk_size h b) = n" using tot by (simp add: L(1) unat_of_nat)
  have fb: "flist h (blk_next h b) ?ys"
    using inv by (auto simp: heap_inv_def free_offs_append flist_append b_def)
  have yb: "?o + 16 + n \<le> i \<and> i \<le> 0x80000" if "i \<in> set ?ys" for i using free_offs_bounds [OF that] tot by simp
  have xb: "i + 16 \<le> ?o" if "i \<in> set ?xs" for i using free_offs_bounds [OF that] by simp
  have ne: "at h i = at h j \<longleftrightarrow> i = j" if "i \<le> 0x80000" "j \<le> 0x80000" for i j
    using that at_inj [OF ok] by simp
  have neb: "at h i = b \<longleftrightarrow> i = ?o" if "i \<le> 0x80000" for i using that ne tot by (simp add: b_def)
  have "unat (req + 16 + 16) = unat req + 32" using fit tot by (simp add: unat_word_ariths)
  then have big: "blk_size h b \<ge> req + 16 + 16 \<longleftrightarrow> unat req + 32 \<le> n" by (simp add: word_le_nat_alt un)
  have l: "l = (if ?xs = [] then None else Some (at h (last ?xs)))" by (simp add: l_def link_of_def)
  have lastb: "?xs \<noteq> [] \<Longrightarrow> last ?xs + 16 \<le> ?o" using xb by simp
  have za: "b + 16 + req = at h z" using at_add [of h "span as + 16" "unat req"] by (simp add: b_def z_def at_16)
  have pool: "heap_pool h' = heap_pool h" "heap_ready h'" using ready by (simp_all add: h'_def malloc_take_def Let_def)
  have at': "at h' = at h" using pool by (simp add: at_def fun_eq_iff)
  have "heap_inv h' (as @ cut (unat req) n @ cs)"
  proof (cases "unat req + 32 \<le> n")
    case True
    have zb: "?o < z" "z + 32 \<le> ?o + 16 + n" and ze: "z + n - unat req = ?o + 16 + n"
      using True by (auto simp: z_def)
    have S: "blk_size h' = (blk_size h)(at h z := blk_size h b - req - 16, b := req)"
      "blk_magic h' = (blk_magic h)(at h z := MAGIC_FREE, b := MAGIC_USED)"
      "free_head h' = (if ?xs = [] then at h z else free_head h)"
      "blk_next h' = (case l of None \<Rightarrow> (blk_next h)(at h z := blk_next h b)
         | Some c \<Rightarrow> (blk_next h)(at h z := blk_next h b, c := at h z))(b := 0)"
      using True big by (auto simp: h'_def malloc_take_def Let_def za l split: option.split)
    have "blk_size h b - req - 16 = of_nat (n - unat req - 16)"
      using True by (simp add: L(1) of_nat_diff)
    then have "lay h' ?o (cut (unat req) n) (?o + 16 + n)"
      using True r L zb tot ne [of z ?o] ze unfolding cut_def
      by (simp add: at' S b_def z_def [symmetric] dvd_diff_nat)
    moreover have N: "blk_next h' (at h i) = (if i = ?o then 0 else if ?xs \<noteq> [] \<and> i = last ?xs then at h z
        else if i = z then blk_next h b else blk_next h (at h i))" if "i \<le> 0x80000" for i
      using that zb tot lastb by (auto simp: S l neb ne split: option.split)
    have "flist h' (blk_next h b) ?ys"
      using yb N zb lastb by (intro flist_frame [OF fb pool(1)]) force
    then have F: "flist h' (at h z) (free_offs ?o (cut (unat req) n) @ ?ys)"
      using N [of z] zb tot lastb True by (auto simp: at' free_offs_cut z_def [symmetric])
    have C: "blk_size h' (at h x) = blk_size h (at h x) \<and> blk_magic h' (at h x) = blk_magic h (at h x)"
      if "x < ?o \<or> ?o + 16 + n \<le> x" "x < 0x80000" for x
      using that zb tot ne [of x z] neb [of x] by (auto simp: S(1,2))
    ultimately show ?thesis
    proof (intro heap_inv_replace [OF inv pool _ coalesced_cut [OF co] C _ S(3) _ F])
      show "blk_next h' (at h x) = blk_next h (at h x)" if "x \<in> set ?xs" "x \<noteq> last ?xs" for x
        using N [of x] that xb [OF that(1)] zb tot by simp
      show "blk_next h' (at h (last ?xs)) = at h z" if "?xs \<noteq> []"
        using N [of "last ?xs"] that lastb tot by simp
    qed
  next
    case False
    have S: "blk_size h' = blk_size h" "blk_magic h' = (blk_magic h)(b := MAGIC_USED)"
      "free_head h' = (if ?xs = [] then blk_next h b else free_head h)"
      "blk_next h' = (case l of None \<Rightarrow> blk_next h | Some c \<Rightarrow> (blk_next h)(c := blk_next h b))(b := 0)"
      using False big by (auto simp: h'_def malloc_take_def Let_def l split: option.split)
    have "lay h' ?o (cut (unat req) n) (?o + 16 + n)"
      using False L unfolding cut_def by (simp add: at' S b_def)
    moreover have N: "blk_next h' (at h i) = (if i = ?o then 0 else if ?xs \<noteq> [] \<and> i = last ?xs then blk_next h b
        else blk_next h (at h i))" if "i \<le> 0x80000" for i
      using that tot lastb by (auto simp: S l neb ne split: option.split)
    have "flist h' (blk_next h b) ?ys"
      using yb N lastb by (intro flist_frame [OF fb pool(1)]) force
    then have F: "flist h' (blk_next h b) (free_offs ?o (cut (unat req) n) @ ?ys)" using False by (simp add: free_offs_cut)
    have C: "blk_size h' (at h x) = blk_size h (at h x) \<and> blk_magic h' (at h x) = blk_magic h (at h x)"
      if "x < ?o \<or> ?o + 16 + n \<le> x" "x < 0x80000" for x
      using that neb [of x] by (auto simp: S(1,2))
    ultimately show ?thesis
    proof (intro heap_inv_replace [OF inv pool _ coalesced_cut [OF co] C _ S(3) _ F])
      show "blk_next h' (at h x) = blk_next h (at h x)" if "x \<in> set ?xs" "x \<noteq> last ?xs" for x
        using N [of x] that xb [OF that(1)] tot by simp
      show "blk_next h' (at h (last ?xs)) = blk_next h b" if "?xs \<noteq> []"
        using N [of "last ?xs"] that lastb tot by simp
    qed
  qed
  then show ?thesis using pool unfolding l_def [symmetric]
    by (intro exI [of _ h']) (simp add: h'_def malloc_take_def Let_def)
qed

lemma lay_size:
  assumes "lay h off (as @ (n, u) # cs) 0x80000"
  shows "unat (blk_size h (at h (off + span as))) = n" "off + span as + 16 + n \<le> 0x80000"
proof -
  have l: "blk_size h (at h (off + span as)) = of_nat n" "lay h (off + span as + 16 + n) cs 0x80000"
    using assms by (auto simp: lay_append)
  then show "off + span as + 16 + n \<le> 0x80000" using lay_end by fastforce
  then show "unat (blk_size h (at h (off + span as))) = n" by (simp add: l(1) unat_of_nat)
qed

lemma heap_setup_inv:
  "heap_ready h \<Longrightarrow> heap_setup h = h"
  "\<not> heap_ready h \<Longrightarrow> pool_ok h \<Longrightarrow> heap_inv (heap_setup h) [(0x7FFF0, False)]"
  by (auto simp: heap_setup_def heap_inv_def pool_ok_def at_def Let_def)

text \<open>Allocation is first fit: it takes the first free block that is large enough and
  fails only when there is none.\<close>

lemma malloc_walk_first_fit:
  assumes inv: "heap_inv h bs" and r: "0 < unat req" "16 dvd unat req"
  shows "(malloc_walk h req None (free_head h) = Some (0, h) \<and> (\<forall>(n, u) \<in> set bs. u \<or> n < unat req))
    \<or> (\<exists>as n cs h'. bs = as @ (n, False) # cs \<and> unat req \<le> n \<and> (\<forall>(m, u) \<in> set as. u \<or> m < unat req)
        \<and> malloc_walk h req None (free_head h) = Some (at h (span as) + 16, h')
        \<and> heap_inv h' (as @ cut (unat req) n @ cs) \<and> heap_pool h' = heap_pool h)"
proof -
  let ?P = "\<lambda>i. blk_size h (at h i) < req" and ?os = "free_offs 0 bs"
  have ok: "pool_ok h" and L: "lay h 0 bs 0x80000" and F: "flist h (free_head h) ?os"
    using inv by (auto simp: heap_inv_def)
  have b: "i \<le> 0x80000" if "i \<in> set ?os" for i
    using free_offs_bounds [OF that] lay_end [OF L] by simp
  have small: "u \<or> m < unat req"
    if a: "bs = as @ ds" "\<forall>i \<in> set (free_offs 0 as). ?P i" "(m, u) \<in> set as" for as ds m u
  proof -
    obtain xs ys where as: "as = xs @ (m, u) # ys" using a(3) split_list by metis
    have "unat (blk_size h (at h (0 + span xs))) = m" using L by (intro lay_size) (simp add: a(1) as)
    then show ?thesis using a(2) by (auto simp: as free_offs_append word_less_nat_alt)
  qed
  show ?thesis
  proof (cases "dropWhile ?P ?os")
    case Nil
    have "malloc_walk h req None (free_head h) = Some (0, h)"
      using malloc_walk_spec [OF F ok b, of req None] unfolding Nil by simp
    moreover have "\<forall>i \<in> set ?os. ?P i" using Nil by (simp only: dropWhile_eq_Nil_conv)
    ultimately show ?thesis using small [of bs "[]"] by auto
  next
    case (Cons i ys)
    let ?xs = "takeWhile ?P ?os"
    have split: "?os = ?xs @ i # ys" using Cons takeWhile_dropWhile_id [of ?P ?os] by simp
    have i: "\<not> ?P i" using Cons hd_dropWhile [of ?P ?os] by simp
    obtain as n cs where bs: "bs = as @ (n, False) # cs" "i = span as" "?xs = free_offs 0 as"
      using free_offs_split [OF split] by auto
    have "unat (blk_size h (at h i)) = n" using lay_size(1) [of h 0 as n False cs] L by (simp add: bs)
    then have n: "unat req \<le> n" using i by (simp add: word_less_nat_alt)
    obtain h' where h': "malloc_take h req (link_of h None (free_offs 0 as)) (at h (span as)) = (at h (span as) + 16, h')"
      "heap_inv h' (as @ cut (unat req) n @ cs)" "heap_pool h' = heap_pool h"
      using take_layout [OF inv [unfolded bs(1)] n r] by blast
    have w: "malloc_walk h req None (free_head h) = Some (at h (span as) + 16, h')"
      using malloc_walk_spec [OF F ok b, of req None] Cons h'(1) bs(2,3) by simp
    have "\<forall>i \<in> set (free_offs 0 as). ?P i" unfolding bs(3) [symmetric] by (auto dest: set_takeWhileD)
    then have "\<forall>(m, u) \<in> set as. u \<or> m < unat req" using small [OF bs(1)] by auto
    then show ?thesis using bs(1) n w h' by blast
  qed
qed

section \<open>Coalescing\<close>

text \<open>The layout that the scan leaves behind; the first argument is the payload of the
  free run collected so far.\<close>

fun merged :: "nat option \<Rightarrow> layout \<Rightarrow> layout" where
  "merged None [] = []"
| "merged (Some s) [] = [(s, False)]"
| "merged None ((n, u) # bs) = (if u then (n, True) # merged None bs else merged (Some n) bs)"
| "merged (Some s) ((n, u) # bs) = (if u then (s, False) # (n, True) # merged None bs else merged (Some (s + 16 + n)) bs)"

lemma span_merged: "span (merged r bs) = (case r of None \<Rightarrow> 0 | Some s \<Rightarrow> 16 + s) + span bs"
  by (induction r bs rule: merged.induct) auto

lemma coalesced_merged:
  "coalesced (merged r bs) \<and> (r \<noteq> None \<longrightarrow> merged r bs \<noteq> []) \<and> coalesced ((n, True) # merged r bs)"
proof (induction r bs arbitrary: n rule: merged.induct)
  case (3 m u bs)
  then show ?case by auto
next
  case (4 s m u bs)
  then show ?case by auto
qed auto

lemma used_merged:
  "used_offs (case r of None \<Rightarrow> off | Some s \<Rightarrow> off - 16 - s) (merged r bs) = used_offs off bs"
  if "case r of None \<Rightarrow> True | Some s \<Rightarrow> 16 + s \<le> off"
  using that
proof (induction r bs arbitrary: off rule: merged.induct)
  case (3 n u bs)
  then show ?case using "3.IH"(2) [of "off + 16 + n"] by auto
next
  case (4 s n u bs)
  then show ?case using "4.IH"(2) [of "off + 16 + n"] by (auto simp: add.commute add.left_commute)
qed auto

definition link_val :: "heap \<Rightarrow> u32 option \<Rightarrow> u32" where
  "link_val h link = (case link of None \<Rightarrow> free_head h | Some l \<Rightarrow> blk_next h l)"

text \<open>The state of the scan at offset \<open>off\<close>: either no free run is open and \<open>link\<close> is a
  cell before \<open>off\<close>, or the run starts at \<open>st\<close> and its link is the open cell.\<close>

definition scan_ok :: "heap \<Rightarrow> nat \<Rightarrow> nat option \<Rightarrow> nat \<Rightarrow> u32 option \<Rightarrow> u32 \<Rightarrow> bool" where
  "scan_ok h off r st link run \<longleftrightarrow>
     (case r of
        None \<Rightarrow> st = off \<and> run = 0 \<and> (link = None \<or> (\<exists>k < off. link = Some (at h k)))
      | Some s \<Rightarrow> st + 16 + s = off \<and> run = at h st \<and> link = Some run \<and> blk_size h run = of_nat s
          \<and> blk_magic h run = MAGIC_FREE \<and> 0 < s \<and> 16 dvd s)"

text \<open>What the rest of the scan makes of the heap.\<close>

definition scanned :: "heap \<Rightarrow> nat \<Rightarrow> u32 option \<Rightarrow> nat option \<Rightarrow> layout \<Rightarrow> heap \<Rightarrow> bool" where
  "scanned h st link r bs h' \<longleftrightarrow>
     heap_pool h' = heap_pool h \<and> heap_ready h' = heap_ready h \<and> blk_magic h' = blk_magic h
     \<and> (\<forall>x < st. blk_size h' (at h x) = blk_size h (at h x))
     \<and> (\<forall>x < st. link \<noteq> Some (at h x) \<longrightarrow> blk_next h' (at h x) = blk_next h (at h x))
     \<and> (link \<noteq> None \<longrightarrow> free_head h' = free_head h)
     \<and> lay h' st (merged r bs) 0x80000
     \<and> flist h' (if r = None then link_val h' link else at h st) (free_offs st (merged r bs))"

lemma scanned_end:
  assumes "pool_ok h" "scan_ok h 0x80000 r st link run"
  shows "scanned h st link r [] (set_link link 0 h)"
proof (cases r)
  case None
  then show ?thesis using assms
    by (cases link) (auto simp: scanned_def scan_ok_def link_val_def)
next
  case (Some s)
  have "at (set_link link 0 h) st = at h st" by (simp add: at_def)
  then show ?thesis using assms Some by (auto simp: scanned_def scan_ok_def)
qed

lemma scanned_used:
  assumes "pool_ok h" "scan_ok h off r st link run" "lay h off ((n, True) # bs) 0x80000"
    "scanned h (off + 16 + n) link None bs h'"
  shows "scanned h st link r ((n, True) # bs) h'"
proof -
  have p: "at h' = at h" using assms(4) by (auto simp: scanned_def at_def fun_eq_iff)
  have "st \<le> off" using assms(2) by (auto simp: scan_ok_def split: option.splits)
  then show ?thesis
    using assms(2-4) by (cases r) (auto simp: scanned_def scan_ok_def p link_val_def)
qed

lemma scanned_open:
  assumes ok: "pool_ok h" and s: "scan_ok h off None st link run" and off: "off < 0x80000"
    and t: "scanned (set_link link (at h off) h) off (Some (at h off)) (Some n) bs h'"
  shows "scanned h st link None ((n, False) # bs) h'"
proof -
  let ?g = "set_link link (at h off) h"
  have g: "at ?g = at h" by (auto simp: at_def fun_eq_iff)
  have ne: "at h k \<noteq> at h off \<and> at h off \<noteq> at h k" if "k < off" for k
    using at_inj [OF ok, of k off] at_inj [OF ok, of off k] that off by simp
  have l: "link = None \<or> (\<exists>k < off. link = Some (at h k))" and st: "st = off" using s by (auto simp: scan_ok_def)
  have "link_val h' link = at h off"
    using l t ne by (auto simp: scanned_def g link_val_def)
  then show ?thesis using t l ne unfolding st
    by (auto simp: scanned_def g split: option.splits)
qed

lemma scanned_extend:
  assumes ok: "pool_ok h" and s: "scan_ok h off (Some m) st link run" and off: "off < 0x80000"
    and t: "scanned (h\<lparr>blk_size := (blk_size h)(run := v)\<rparr>) st link (Some (m + 16 + n)) bs h'"
  shows "scanned h st link (Some m) ((n, False) # bs) h'"
proof -
  let ?g = "h\<lparr>blk_size := (blk_size h)(run := v)\<rparr>"
  have g: "at ?g = at h" by (auto simp: at_def fun_eq_iff)
  have ne: "at h k \<noteq> run" if "k < st" for k
    using at_inj [OF ok, of k st] that off s by (auto simp: scan_ok_def)
  show ?thesis using t ne by (auto simp: scanned_def g)
qed

lemma scan_ok_close:
  assumes "scan_ok h off r st link run"
  shows "scan_ok h (off + 16 + n) None (off + 16 + n) link 0"
proof (cases r)
  case None
  then have "link = None \<or> (\<exists>k < off. link = Some (at h k))" using assms by (simp add: scan_ok_def)
  then show ?thesis by (auto simp: scan_ok_def) (metis add.assoc trans_less_add1)
next
  case (Some s)
  then have "link = Some (at h st)" "st < off + 16 + n" using assms by (auto simp: scan_ok_def)
  then show ?thesis by (auto simp: scan_ok_def)
qed

lemma coalesce_loop_spec:
  assumes "pool_ok h" "lay h off bs 0x80000" "scan_ok h off r st link run"
  shows "\<exists>h'. coalesce_loop h (at h off) (at h 0x80000) link run = Some h' \<and> scanned h st link r bs h'"
  using assms
proof (induction bs arbitrary: h off r st link run)
  case Nil
  then show ?case using scanned_end [of h r st link run] by (auto simp: coalesce_loop.simps [of h])
next
  case (Cons b bs)
  obtain n u where b: "b = (n, u)" by force
  note lay = Cons.prems(2) [unfolded b]
  let ?off = "off + 16 + n"
  have ok: "pool_ok h" by (rule Cons.prems(1))
  have off: "off < 0x80000" using lay_end [OF lay] by simp
  have L: "lay h ?off bs 0x80000" "0 < n" "16 dvd n" "blk_size h (at h off) = of_nat n" using lay by auto
  have lt: "at h off < at h 0x80000" using unat_at [OF ok] off by (simp add: word_less_nat_alt)
  have nb: "next_block h (at h off) = at h ?off" using L(4) at_add [of h "off + 16" n] by (simp add: next_block_def at_16)
  show ?case
  proof (cases u)
    case True
    have "scan_ok h ?off None ?off link 0"
      using Cons.prems(3) by (rule scan_ok_close)
    then obtain h' where "coalesce_loop h (at h ?off) (at h 0x80000) link 0 = Some h'" "scanned h ?off link None bs h'"
      using Cons.IH [OF ok L(1)] by blast
    then show ?thesis using True lt nb lay scanned_used [OF ok Cons.prems(3)] b
      by (subst coalesce_loop.simps) auto
  next
    case False
    then have mg: "blk_magic h (at h off) = MAGIC_FREE" using lay by simp
    show ?thesis
    proof (cases r)
      case None
      let ?g = "set_link link (at h off) h"
      have g: "at ?g = at h" "pool_ok ?g" using ok by (auto simp: at_def fun_eq_iff pool_ok_def)
      have "lay ?g ?off bs 0x80000" by (rule lay_frame [OF L(1)]) simp_all
      moreover have "scan_ok ?g ?off (Some n) off (Some (at h off)) (at h off)" using L mg by (simp add: scan_ok_def g)
      ultimately obtain h' where "coalesce_loop ?g (at h ?off) (at h 0x80000) (Some (at h off)) (at h off) = Some h'"
        "scanned ?g off (Some (at h off)) (Some n) bs h'"
        using Cons.IH [OF g(2), of ?off, unfolded g] by blast
      moreover have "run = 0" using Cons.prems(3) None by (simp add: scan_ok_def)
      moreover have "next_block ?g (at h off) = at h ?off" using nb by (simp add: next_block_def)
      ultimately show ?thesis
        using lt mg scanned_open [OF ok Cons.prems(3) [unfolded None] off, of n bs h'] False b None
        by (subst coalesce_loop.simps) auto
    next
      case (Some m)
      let ?v = "blk_size h run + (16 + blk_size h (at h off))"
      let ?g = "h\<lparr>blk_size := (blk_size h)(run := ?v)\<rparr>"
      have S: "st + 16 + m = off" "run = at h st" "link = Some run" "blk_size h run = of_nat m"
        "blk_magic h run = MAGIC_FREE" "0 < m" "16 dvd m"
        using Cons.prems(3) Some by (auto simp: scan_ok_def)
      have g: "at ?g = at h" "pool_ok ?g" using ok by (auto simp: at_def fun_eq_iff pool_ok_def)
      have rn: "at h x \<noteq> run" if "off \<le> x" "x < 0x80000" for x using at_inj [OF ok, of x st] that S(1,2) by simp
      have nz: "run \<noteq> 0" using at_nonzero [OF ok, of st] S(1,2) off by simp
      have "lay ?g ?off bs 0x80000" using rn by (intro lay_frame [OF L(1)]) simp_all
      moreover have "scan_ok ?g ?off (Some (m + 16 + n)) st link run"
        unfolding scan_ok_def option.case g using S L by (simp add: algebra_simps)
      ultimately obtain h' where "coalesce_loop ?g (at h ?off) (at h 0x80000) link run = Some h'"
        "scanned ?g st link (Some (m + 16 + n)) bs h'"
        using Cons.IH [OF g(2), of ?off, unfolded g] by blast
      moreover have "next_block ?g (at h off) = at h ?off" using nb rn [of off] off by (simp add: next_block_def)
      ultimately show ?thesis
        using lt mg nz scanned_extend [OF ok Cons.prems(3) [unfolded Some] off, of ?v n bs h'] False b Some
        by (subst coalesce_loop.simps) auto
    qed
  qed
qed

section \<open>The interface\<close>

lemma malloc_spec:
  assumes "heap_inv h bs"
  shows "(malloc len h = Some (0, h) \<and> (\<forall>(n, u) \<in> set bs. u \<or> n < unat len))
    \<or> (\<exists>as n cs req h'. bs = as @ (n, False) # cs \<and> 0 < req \<and> unat len \<le> req \<and> req \<le> n
        \<and> malloc len h = Some (at h (span as + 16), h')
        \<and> heap_inv h' (as @ cut req n @ cs) \<and> heap_pool h' = heap_pool h)"
proof -
  define l where "l = (if len = 0 then 1 else len)"
  have ready: "heap_setup h = h" using assms by (simp add: heap_setup_inv heap_inv_def)
  have l: "0 < unat l" "unat len \<le> unat l" by (auto simp: l_def unat_gt_0)
  have m: "malloc len h = (if l > 0x80000 then Some (0, h) else malloc_walk h (malloc_req l) None (free_head h))"
    by (simp add: malloc_def Let_def ready l_def)
  have nb: "n < 0x80000" if "(n, u) \<in> set bs" for n u
    using that lay_end [of h 0 bs "0x80000"] assms by (auto simp: heap_inv_def dest!: split_list)
  show ?thesis
  proof (cases "l > 0x80000")
    case True
    then have "unat len > 0x80000" by (auto simp: l_def word_less_nat_alt split: if_splits)
    then show ?thesis using True nb by (fastforce simp: m)
  next
    case False
    then have le: "unat l \<le> 0x80000" by (simp add: word_less_nat_alt)
    note q = malloc_req_spec [OF l(1) le]
    have small: "n < unat len" if "n < unat (malloc_req l)" "(n, u) \<in> set bs" "\<not> u" for n u
    proof -
      have "16 dvd n"
        using that(2) assms by (auto simp: heap_inv_def lay_append dest!: split_list)
      then have "n < unat l" using that(1) q(1,3) by (auto elim!: dvdE)
      moreover have "0 < n" using that(2) assms by (auto simp: heap_inv_def lay_append dest!: split_list)
      ultimately show ?thesis by (auto simp: l_def split: if_splits)
    qed
    have w: "malloc len h = malloc_walk h (malloc_req l) None (free_head h)" using False by (simp add: m)
    have r0: "0 < unat (malloc_req l)" using q(2) l by simp
    from malloc_walk_first_fit [OF assms r0 q(1)] show ?thesis
    proof
      assume "malloc_walk h (malloc_req l) None (free_head h) = Some (0, h) \<and> (\<forall>(n, u) \<in> set bs. u \<or> n < unat (malloc_req l))"
      then show ?thesis using small unfolding w by blast
    next
      assume "\<exists>as n cs h'. bs = as @ (n, False) # cs \<and> unat (malloc_req l) \<le> n \<and> (\<forall>(m, u) \<in> set as. u \<or> m < unat (malloc_req l))
        \<and> malloc_walk h (malloc_req l) None (free_head h) = Some (at h (span as) + 16, h')
        \<and> heap_inv h' (as @ cut (unat (malloc_req l)) n @ cs) \<and> heap_pool h' = heap_pool h"
      then show ?thesis unfolding w at_16 using r0 q(2) l(2) le_trans by blast
    qed
  qed
qed

lemma and_15: "x AND 15 = 0 \<longleftrightarrow> 16 dvd unat x" for x :: u32
proof -
  have "x AND 15 = take_bit 4 x" by (simp add: take_bit_eq_mask mask_eq_exp_minus_1)
  moreover have "unat (take_bit 4 x) = unat x mod 16" by (simp add: take_bit_eq_mod unat_mod)
  ultimately show ?thesis by (metis dvd_eq_mod_eq_0 unat_eq_zero)
qed

lemma lay_aligned: "lay h off bs e \<Longrightarrow> 16 dvd span bs"
  by (induction bs arbitrary: off) auto

lemma free_spec:
  assumes inv: "heap_inv h bs" and bs: "bs = as @ (n, True) # cs"
  shows "\<exists>h'. free (at h (span as + 16)) h = Some h' \<and> heap_inv h' (merged None (as @ (n, False) # cs))
    \<and> heap_pool h' = heap_pool h"
proof -
  let ?p = "at h (span as + 16)" and ?b = "at h (span as)"
  have ok: "pool_ok h" and L: "lay h 0 bs 0x80000" using inv by (auto simp: heap_inv_def)
  have parts: "lay h 0 as (span as)" "blk_size h ?b = of_nat n" "blk_magic h ?b = MAGIC_USED" "0 < n" "16 dvd n"
    "lay h (span as + 16 + n) cs 0x80000"
    using L by (auto simp: bs lay_append)
  have tot: "span as + 16 + n + span cs = 0x80000" using lay_end [OF parts(6)] by simp
  have b: "?p - 16 = ?b" using at_16 [of h "span as"] by (simp add: algebra_simps)
  have u: "unat ?p = unat (heap_pool h) + span as + 16" "unat ?b = unat (heap_pool h) + span as"
    "unat (heap_pool h + 0x80000) = unat (heap_pool h) + 0x80000"
    "unat (at h (span as + 16 + n)) = unat (heap_pool h) + span as + 16 + n"
    using unat_at [OF ok, of "span as + 16"] unat_at [OF ok, of "span as"] unat_at [OF ok, of "span as + 16 + n"]
      unat_at [OF ok, of "0x80000"] tot at_def [of h "0x80000"] by simp_all
  have pb: "?p + blk_size h ?b = at h (span as + 16 + n)" by (simp add: parts(2) at_add)
  have al: "?p AND 15 = 0"
    using ok lay_aligned [OF parts(1)] by (simp add: and_15 u(1) pool_ok_def)
  let ?g = "h\<lparr>blk_magic := (blk_magic h)(?b := MAGIC_FREE)\<rparr>"
  have g: "at ?g = at h" "pool_ok ?g" using ok by (auto simp: at_def fun_eq_iff pool_ok_def)
  have ne: "at h x \<noteq> ?b" if "x \<noteq> span as" "x < 0x80000" for x using at_inj [OF ok, of x "span as"] that tot by simp
  have "lay ?g 0 as (span as)" using ne tot by (intro lay_frame [OF parts(1)]) auto
  moreover have "lay ?g (span as + 16 + n) cs 0x80000" using ne by (intro lay_frame [OF parts(6)]) auto
  ultimately have lg: "lay ?g 0 (as @ (n, False) # cs) 0x80000" using parts(2,4,5) g(1) by (simp add: lay_append)
  obtain h' where h': "coalesce_loop ?g (at h 0) (at h 0x80000) None 0 = Some h'"
    "scanned ?g 0 None None (as @ (n, False) # cs) h'"
    using coalesce_loop_spec [OF g(2) lg, of None 0 None 0] by (auto simp: scan_ok_def g(1))
  have "free ?p h = heap_coalesce ?g"
    unfolding free_def Let_def b pb using al parts(3) u tot at_nonzero [OF ok, of "span as + 16"]
    by (simp add: word_less_nat_alt)
  also have "\<dots> = Some h'" using h'(1) by (simp add: heap_coalesce_def at_def)
  finally have "free ?p h = Some h'" .
  moreover have "heap_inv h' (merged None (as @ (n, False) # cs)) \<and> heap_pool h' = heap_pool h"
    using h'(2) g(2) inv coalesced_merged
    by (auto simp: scanned_def heap_inv_def link_val_def pool_ok_def)
  ultimately show ?thesis by blast
qed

section \<open>Clients of the heap\<close>

text \<open>The states a program can reach: \<open>live\<close> lists the pointers it holds with the sizes it
  asked for.  Besides calling the allocator it may write anything into the payloads
  it holds, also at places that look like headers.\<close>

definition scribble :: "u32 \<Rightarrow> u32 \<Rightarrow> u32 \<Rightarrow> u32 \<Rightarrow> heap \<Rightarrow> heap" where
  "scribble a x y z h = h\<lparr>blk_size := (blk_size h)(a := x), blk_next := (blk_next h)(a := y),
     blk_magic := (blk_magic h)(a := z)\<rparr>"

inductive heap_reach :: "heap \<Rightarrow> (u32 \<times> u32) list \<Rightarrow> bool" where
  start: "\<not> heap_ready h \<Longrightarrow> pool_ok h \<Longrightarrow> heap_reach h []"
| alloc: "heap_reach h live \<Longrightarrow> malloc n h = Some (p, h') \<Longrightarrow>
    heap_reach h' (if p = 0 then live else (p, n) # live)"
| release: "heap_reach h (xs @ (p, n) # ys) \<Longrightarrow> free p h = Some h' \<Longrightarrow> heap_reach h' (xs @ ys)"
| store: "heap_reach h live \<Longrightarrow> (p, n) \<in> set live \<Longrightarrow> p \<le> a \<Longrightarrow> unat a < unat p + unat n \<Longrightarrow>
    heap_reach (scribble a x y z h) live"

text \<open>The blocks of the layout that are in use are those the program holds, each at least
  as large as asked for.\<close>

definition held :: "heap \<Rightarrow> (nat \<times> nat) list \<Rightarrow> (u32 \<times> u32) list \<Rightarrow> bool" where
  "held h us live \<longleftrightarrow> distinct (map fst live)
     \<and> set (map fst live) = (\<lambda>(off, n). at h (off + 16)) ` set us
     \<and> (\<forall>(off, n) \<in> set us. \<forall>m. (at h (off + 16), m) \<in> set live \<longrightarrow> unat m \<le> n)"

definition client_inv :: "heap \<Rightarrow> (u32 \<times> u32) list \<Rightarrow> bool" where
  "client_inv h live \<longleftrightarrow> (\<not> heap_ready h \<and> pool_ok h \<and> live = [])
     \<or> (\<exists>bs. heap_inv h bs \<and> held h (used_offs 0 bs) live)"

lemma used_offs_bounds: "(x, m) \<in> set (used_offs off bs) \<Longrightarrow> off \<le> x \<and> x + 16 + m \<le> off + span bs"
  by (induction bs arbitrary: off) (force split: if_splits)+

lemma used_offs_sorted: "sorted_wrt (\<lambda>(x, n) (y, m). x + 16 + n \<le> y) (used_offs off bs)"
proof (induction bs arbitrary: off)
  case (Cons b bs)
  obtain n u where "b = (n, u)" by force
  then show ?case using Cons [of "off + 16 + n"] used_offs_bounds [of _ _ "off + 16 + n" bs]
    by (auto simp: sorted_wrt_append)
qed simp

lemma used_offs_apart:
  assumes "(x, n) \<in> set (used_offs off bs)" "(y, m) \<in> set (used_offs off bs)" "(x, n) \<noteq> (y, m)"
  shows "x + 16 + n \<le> y \<or> y + 16 + m \<le> x"
proof -
  let ?us = "used_offs off bs"
  obtain i j where ij: "i < length ?us" "j < length ?us" "?us ! i = (x, n)" "?us ! j = (y, m)"
    using assms(1,2) by (metis in_set_conv_nth)
  then have "i < j \<or> j < i" using assms(3) by (metis linorder_neqE_nat)
  then show ?thesis
    using sorted_wrt_nth_less [OF used_offs_sorted [of off bs], of i j] sorted_wrt_nth_less [OF used_offs_sorted [of off bs], of j i] ij
    by auto
qed

lemma used_offs_split:
  assumes "(x, n) \<in> set (used_offs off bs)"
  shows "\<exists>as cs. bs = as @ (n, True) # cs \<and> x = off + span as"
  using assms
proof (induction bs arbitrary: off)
  case (Cons b bs)
  obtain m u where b: "b = (m, u)" by force
  show ?case
  proof (cases "u \<and> x = off \<and> n = m")
    case True
    then show ?thesis using b by (intro exI [of _ "[]"] exI [of _ bs]) simp
  next
    case False
    then have "(x, n) \<in> set (used_offs (off + 16 + m) bs)" using Cons.prems b by auto
    then obtain as cs where "bs = as @ (n, True) # cs" "x = off + 16 + m + span as" using Cons.IH by blast
    then show ?thesis using b by (intro exI [of _ "b # as"] exI [of _ cs]) auto
  qed
qed simp

text \<open>Every pointer held is a used block of the layout.\<close>

lemma held_block:
  assumes "held h (used_offs 0 bs) live" "(p, n) \<in> set live"
  obtains as m cs where "bs = as @ (m, True) # cs" "p = at h (span as + 16)" "unat n \<le> m"
proof -
  have "p \<in> set (map fst live)" using assms(2) by force
  then obtain off m where u: "(off, m) \<in> set (used_offs 0 bs)" "p = at h (off + 16)"
    using assms(1) by (auto simp: held_def)
  obtain as cs where "bs = as @ (m, True) # cs" "off = span as" using used_offs_split [OF u(1)] by auto
  moreover have "unat n \<le> m" using assms u by (auto simp: held_def)
  ultimately show ?thesis using that u(2) by blast
qed

lemma client_inv_malloc:
  assumes inv: "heap_inv h bs" and held: "held h (used_offs 0 bs) live" and m: "malloc n h = Some (p, h')"
  shows "client_inv h' (if p = 0 then live else (p, n) # live)"
  using malloc_spec [OF inv, of n]
proof (elim disjE exE conjE)
  assume "malloc n h = Some (0, h)"
  then show ?thesis using m inv held by (auto simp: client_inv_def)
next
  fix as k cs req g
  assume a: "bs = as @ (k, False) # cs" "0 < req" "unat n \<le> req" "req \<le> k"
    "malloc n h = Some (at h (span as + 16), g)" "heap_inv g (as @ cut req k @ cs)" "heap_pool g = heap_pool h"
  have ok: "pool_ok h" using inv by (simp add: heap_inv_def)
  have p: "p = at h (span as + 16)" "h' = g" using m a(5) by auto
  have tot: "span as + 16 + k + span cs = 0x80000" using inv lay_end [of h 0 bs "0x80000"] by (simp add: heap_inv_def a(1))
  have nz: "p \<noteq> 0" using at_nonzero [OF ok] tot by (simp add: p)
  have at': "at g = at h" using a(7) by (simp add: at_def fun_eq_iff)
  let ?us = "used_offs 0 as @ used_offs (span as + 16 + k) cs" and ?k = "if req + 32 \<le> k then req else k"
  have us: "used_offs 0 bs = ?us" "set (used_offs 0 (as @ cut req k @ cs)) = insert (span as, ?k) (set ?us)"
    using a(4) by (simp_all add: a(1) used_offs_append used_offs_cut add.assoc)
  have far: "x \<noteq> span as \<and> x + 16 \<le> 0x80000" if "(x, j) \<in> set ?us" for x j
    using that tot used_offs_bounds [of x j 0 as] used_offs_bounds [of x j "span as + 16 + k" cs] by auto
  have ne: "at h (x + 16) \<noteq> p" if "(x, j) \<in> set ?us" for x j
    using far [OF that] tot at_inj [OF ok, of "x + 16" "span as + 16"] by (simp add: p)
  have fr: "p \<notin> set (map fst live)" using held ne unfolding held_def us(1) by auto
  have h: "distinct (map fst live)" "set (map fst live) = (\<lambda>(off, n). at h (off + 16)) ` set ?us"
    "\<forall>(off, n) \<in> set ?us. \<forall>m. (at h (off + 16), m) \<in> set live \<longrightarrow> unat m \<le> n"
    using held unfolding held_def us(1) by blast+
  have np: "(p, j) \<notin> set live" for j using fr by force
  have sz: "unat j \<le> i" if "(off, i) \<in> insert (span as, ?k) (set ?us)" "(at h (off + 16), j) \<in> set ((p, n) # live)" for off i j
  proof (cases "(off, i) \<in> set ?us")
    case True
    then show ?thesis using that(2) ne [OF True] h(3) by auto
  next
    case False
    then have "off = span as" "i = ?k" using that(1) by auto
    then show ?thesis using that(2) np a(3,4) by (auto simp: p(1))
  qed
  have "held g (used_offs 0 (as @ cut req k @ cs)) ((p, n) # live)"
  proof (unfold held_def us at', intro conjI)
    show "distinct (map fst ((p, n) # live))" using h(1) fr by simp
    show "set (map fst ((p, n) # live)) = (\<lambda>(off, n). at h (off + 16)) ` insert (span as, ?k) (set ?us)"
      using h(2) p(1) by simp
    show "\<forall>(off, i) \<in> insert (span as, ?k) (set ?us). \<forall>m. (at h (off + 16), m) \<in> set ((p, n) # live) \<longrightarrow> unat m \<le> i"
      using sz by blast
  qed
  then show ?thesis using a(6) nz p(2) by (auto simp: client_inv_def)
qed

lemma client_inv_free:
  assumes inv: "heap_inv h bs" and held: "held h (used_offs 0 bs) (xs @ (p, n) # ys)" and f: "free p h = Some h'"
  shows "client_inv h' (xs @ ys)"
proof -
  have "(p, n) \<in> set (xs @ (p, n) # ys)" by simp
  then obtain as m cs where b: "bs = as @ (m, True) # cs" "p = at h (span as + 16)"
    using held_block [OF held] by blast
  obtain g where g: "free p h = Some g" "heap_inv g (merged None (as @ (m, False) # cs))" "heap_pool g = heap_pool h"
    using free_spec [OF inv b(1)] b(2) by auto
  have ok: "pool_ok h" using inv by (simp add: heap_inv_def)
  have at': "at g = at h" using g(3) by (simp add: at_def fun_eq_iff)
  have tot: "span as + 16 + m + span cs = 0x80000" using inv lay_end [of h 0 bs "0x80000"] by (simp add: heap_inv_def b(1))
  let ?us = "used_offs 0 as @ used_offs (span as + 16 + m) cs"
  have us: "set (used_offs 0 bs) = insert (span as, m) (set ?us)" "used_offs 0 (merged None (as @ (m, False) # cs)) = ?us"
    using used_merged [where r = None and off = 0 and bs = "as @ (m, False) # cs"] by (simp_all add: b(1) used_offs_append)
  have far: "x \<noteq> span as \<and> x + 16 \<le> 0x80000" if "(x, j) \<in> set ?us" for x j
    using that tot used_offs_bounds [of x j 0 as] used_offs_bounds [of x j "span as + 16 + m" cs] by auto
  have ne: "p \<notin> (\<lambda>(off, n). at h (off + 16)) ` set ?us"
  proof
    assume "p \<in> (\<lambda>(off, n). at h (off + 16)) ` set ?us"
    then obtain x j where x: "(x, j) \<in> set ?us" "p = at h (x + 16)" by auto
    then show False using far [OF x(1)] tot at_inj [OF ok, of "x + 16" "span as + 16"] by (simp add: b(2))
  qed
  have h: "distinct (map fst (xs @ (p, n) # ys))" "set (map fst (xs @ (p, n) # ys)) = insert p ((\<lambda>(off, n). at h (off + 16)) ` set ?us)"
    "\<forall>(off, i) \<in> set ?us. \<forall>j. (at h (off + 16), j) \<in> set (xs @ (p, n) # ys) \<longrightarrow> unat j \<le> i"
    using held unfolding held_def us by (auto simp: b(2))
  have "held g ?us (xs @ ys)"
  proof (unfold held_def at', intro conjI)
    show "distinct (map fst (xs @ ys))" using h(1) by auto
    have "p \<notin> set (map fst (xs @ ys))" using h(1) by auto
    then show "set (map fst (xs @ ys)) = (\<lambda>(off, n). at h (off + 16)) ` set ?us" using h(2) ne by auto
    show "\<forall>(off, i) \<in> set ?us. \<forall>j. (at h (off + 16), j) \<in> set (xs @ ys) \<longrightarrow> unat j \<le> i" using h(3) by auto
  qed
  then show ?thesis using g f us(2) by (auto simp: client_inv_def)
qed

lemma client_inv_scribble:
  assumes inv: "heap_inv h bs" and held: "held h (used_offs 0 bs) live" and l: "(p, n) \<in> set live"
    and a: "p \<le> a" "unat a < unat p + unat n"
  shows "client_inv (scribble a x y z h) live"
proof -
  let ?g = "scribble a x y z h"
  obtain as m cs where b: "bs = as @ (m, True) # cs" "p = at h (span as + 16)" "unat n \<le> m"
    using held_block [OF held l] by auto
  have ok: "pool_ok h" and L: "lay h 0 bs 0x80000" and F: "flist h (free_head h) (free_offs 0 bs)"
    and R: "heap_ready h" "coalesced bs" using inv by (auto simp: heap_inv_def)
  have parts: "lay h 0 as (span as)" "blk_size h (at h (span as)) = of_nat m" "blk_magic h (at h (span as)) = MAGIC_USED"
    "0 < m" "16 dvd m" "lay h (span as + 16 + m) cs 0x80000"
    using L by (auto simp: b(1) lay_append)
  have tot: "span as + 16 + m + span cs = 0x80000" using lay_end [OF parts(6)] by simp
  have ua: "unat (at h (span as + 16)) \<le> unat a" "unat a < unat (at h (span as + 16)) + m"
    using a b(2,3) by (auto simp: word_le_nat_alt)
  have ne: "at h i \<noteq> a" if "i \<le> span as \<or> span as + 16 + m \<le> i" "i \<le> 0x80000" for i
    using that ua tot unat_at [OF ok, of i] unat_at [OF ok, of "span as + 16"] by auto
  have pool: "heap_pool ?g = heap_pool h" "pool_ok ?g" using ok by (simp_all add: scribble_def pool_ok_def)
  have at': "at ?g = at h" using pool by (simp add: at_def fun_eq_iff)
  have "lay ?g 0 as (span as)" using ne tot by (intro lay_frame [OF parts(1)]) (auto simp: scribble_def)
  moreover have "lay ?g (span as + 16 + m) cs 0x80000" using ne by (intro lay_frame [OF parts(6)]) (auto simp: scribble_def)
  ultimately have "lay ?g 0 bs 0x80000"
    using parts(2-5) ne [of "span as"] tot by (simp add: b(1) lay_append at') (simp add: scribble_def)
  moreover have "flist ?g (free_head ?g) (free_offs 0 bs)"
  proof -
    have "i \<le> span as \<or> span as + 16 + m \<le> i" "i \<le> 0x80000" if "i \<in> set (free_offs 0 bs)" for i
      using that free_offs_bounds [of i 0 as] free_offs_bounds [of i "span as + 16 + m" cs] tot
      by (auto simp: b(1) free_offs_append)
    then have "flist ?g (free_head h) (free_offs 0 bs)" using ne
      by (intro flist_frame [OF F pool(1)]) (simp add: scribble_def)
    then show ?thesis by (simp add: scribble_def)
  qed
  moreover have "heap_ready ?g" using R by (simp add: scribble_def)
  moreover have "held ?g (used_offs 0 bs) live" using held by (simp add: held_def at')
  ultimately show ?thesis using R(2) pool(2) by (auto simp: client_inv_def heap_inv_def)
qed

lemma setup_idem: "heap_setup (heap_setup h) = heap_setup h"
  by (simp add: heap_setup_def Let_def)

lemma malloc_setup: "malloc n (heap_setup h) = malloc n h"
  by (simp only: malloc_def setup_idem)

lemma client_inv_ready:
  assumes "client_inv h live" "heap_ready h \<or> live \<noteq> []"
  obtains bs where "heap_inv h bs" "held h (used_offs 0 bs) live"
  using assms by (auto simp: client_inv_def)

lemma client_inv_unready: "client_inv h live \<Longrightarrow> \<not> heap_ready h \<Longrightarrow> heap_inv (heap_setup h) [(0x7FFF0, False)]"
  using heap_setup_inv(2) [of h] unfolding client_inv_def heap_inv_def by blast

lemma heap_reach_inv: "heap_reach h live \<Longrightarrow> client_inv h live"
proof (induction rule: heap_reach.induct)
  case (start h)
  then show ?case by (simp add: client_inv_def)
next
  case (alloc h live n p h')
  show ?case
  proof (cases "heap_ready h")
    case True
    then show ?thesis using client_inv_ready [OF alloc.IH] client_inv_malloc alloc.hyps(2) by metis
  next
    case False
    then have i: "pool_ok h" "live = []" using alloc.IH by (auto simp: client_inv_def heap_inv_def)
    have "held (heap_setup h) (used_offs 0 [(0x7FFF0, False)]) []" by (simp add: held_def)
    then show ?thesis
      using client_inv_malloc [OF heap_setup_inv(2) [OF False i(1)], of "[]" n p h'] alloc.hyps(2)
      unfolding i(2) malloc_setup by blast
  qed
next
  case (release h xs p n ys h')
  obtain bs where "heap_inv h bs" "held h (used_offs 0 bs) (xs @ (p, n) # ys)"
    using client_inv_ready [OF release.IH] by blast
  then show ?case using client_inv_free release.hyps(2) by blast
next
  case (store h live p n a x y z)
  then have "live \<noteq> []" by auto
  then obtain bs where "heap_inv h bs" "held h (used_offs 0 bs) live" using client_inv_ready [OF store.IH] by blast
  then show ?case using client_inv_scribble store.hyps by blast
qed

lemma coalesced_unused:
  assumes "coalesced bs" "used_offs off bs = []" "bs \<noteq> []"
  shows "\<exists>n. bs = [(n, False)]"
  using assms by (cases bs rule: coalesced.cases) (auto split: if_splits)

lemma heap_total:
  assumes "heap_reach h live"
  shows "\<exists>p h'. malloc n h = Some (p, h')" "(p, m) \<in> set live \<Longrightarrow> \<exists>h'. free p h = Some h'"
proof -
  note c = heap_reach_inv [OF assms]
  show "\<exists>p h'. malloc n h = Some (p, h')"
  proof (cases "heap_ready h")
    case True
    then obtain bs where "heap_inv h bs" using client_inv_ready [OF c] by blast
    then show ?thesis using malloc_spec [of h bs n] by blast
  next
    case False
    then have "heap_inv (heap_setup h) [(0x7FFF0, False)]" by (rule client_inv_unready [OF c])
    then show ?thesis using malloc_spec [of "heap_setup h" _ n] by (metis malloc_setup)
  qed
  show "\<exists>h'. free p h = Some h'" if "(p, m) \<in> set live"
  proof -
    have "live \<noteq> []" using that by auto
    then obtain bs where b: "heap_inv h bs" "held h (used_offs 0 bs) live" using client_inv_ready [OF c] by blast
    show ?thesis by (rule held_block [OF b(2) that]) (use free_spec [OF b(1)] in blast)
  qed
qed

text \<open>The payloads held lie in the pool, are aligned and do not overlap.\<close>

lemma heap_apart:
  assumes "heap_reach h live" "(p, n) \<in> set live"
  shows "p \<noteq> 0" "p AND 15 = 0" "unat (heap_pool h) < unat p" "unat p + unat n \<le> unat (heap_pool h) + 0x80000"
    "(q, m) \<in> set live \<Longrightarrow> (q, m) \<noteq> (p, n) \<Longrightarrow> unat p + unat n \<le> unat q \<or> unat q + unat m \<le> unat p"
proof -
  have "live \<noteq> []" using assms(2) by auto
  then obtain bs where b: "heap_inv h bs" "held h (used_offs 0 bs) live"
    using client_inv_ready [OF heap_reach_inv [OF assms(1)]] by blast
  have ok: "pool_ok h" and L: "lay h 0 bs 0x80000" using b(1) by (auto simp: heap_inv_def)
  have blk: "\<exists>off k. (off, k) \<in> set (used_offs 0 bs) \<and> p = at h (off + 16) \<and> unat n \<le> k \<and> off + 16 + k \<le> 0x80000
    \<and> 16 dvd off \<and> unat p = unat (heap_pool h) + off + 16" if "(p, n) \<in> set live" for p n
  proof (rule held_block [OF b(2) that])
    fix as k cs
    assume a: "bs = as @ (k, True) # cs" "p = at h (span as + 16)" "unat n \<le> k"
    have "span as + 16 + k \<le> 0x80000" using lay_size(2) [of h 0 as k True cs] L by (simp add: a(1))
    moreover have "16 dvd span as" using L lay_aligned [of h 0 as] by (auto simp: a(1) lay_append)
    ultimately show ?thesis using a unat_at [OF ok, of "span as + 16"]
      by (intro exI [of _ "span as"] exI [of _ k]) (simp add: used_offs_append)
  qed
  obtain x k where x: "(x, k) \<in> set (used_offs 0 bs)" "p = at h (x + 16)" "unat n \<le> k" "x + 16 + k \<le> 0x80000" "16 dvd x"
    "unat p = unat (heap_pool h) + x + 16"
    using blk [OF assms(2)] by blast
  show "p \<noteq> 0" using at_nonzero [OF ok] x by simp
  show "p AND 15 = 0" using ok x by (simp add: and_15 pool_ok_def)
  show "unat (heap_pool h) < unat p" "unat p + unat n \<le> unat (heap_pool h) + 0x80000" using x by auto
  show "unat p + unat n \<le> unat q \<or> unat q + unat m \<le> unat p" if q: "(q, m) \<in> set live" "(q, m) \<noteq> (p, n)"
  proof -
    obtain y j where y: "(y, j) \<in> set (used_offs 0 bs)" "q = at h (y + 16)" "unat m \<le> j" "unat q = unat (heap_pool h) + y + 16"
      using blk [OF q(1)] by blast
    have "q \<noteq> p"
    proof
      assume "q = p"
      then show False using b(2) eq_key_imp_eq_value [of live p n m] assms(2) q by (auto simp: held_def)
    qed
    then have "(x, k) \<noteq> (y, j)" using x(2) y(2) by auto
    then show ?thesis using used_offs_apart [OF x(1) y(1)] x y by auto
  qed
qed

lemma heap_all_free:
  assumes "heap_reach h []" "unat n \<le> 0x7FFF0"
  shows "\<exists>h'. malloc n h = Some (heap_pool h + 16, h')"
proof -
  have "\<exists>h'. malloc n g = Some (at g 16, h')" if "heap_inv g [(0x7FFF0, False)]" for g
    using malloc_spec [OF that, of n] assms(2) by (auto simp: Cons_eq_append_conv)
  moreover have "heap_inv (heap_setup h) [(0x7FFF0, False)]"
  proof (cases "heap_ready h")
    case False
    then show ?thesis by (rule client_inv_unready [OF heap_reach_inv [OF assms(1)]])
  next
    case True
    then obtain bs where b: "heap_inv h bs" "held h (used_offs 0 bs) []"
      using client_inv_ready [OF heap_reach_inv [OF assms(1)]] by blast
    then have "used_offs 0 bs = []" "bs \<noteq> []" by (auto simp: held_def heap_inv_def)
    then obtain k where "bs = [(k, False)]" using coalesced_unused b(1) by (auto simp: heap_inv_def)
    then show ?thesis using b(1) True by (auto simp: heap_inv_def heap_setup_def)
  qed
  ultimately have "\<exists>h'. malloc n (heap_setup h) = Some (at (heap_setup h) 16, h')" by blast
  moreover have "at (heap_setup h) 16 = heap_pool h + 16" by (simp add: at_def heap_setup_def Let_def)
  ultimately show ?thesis by (simp only: malloc_setup)
qed

text \<open>Property C8: whatever sequence of allocations, releases and writes into its own blocks
  a program makes, the pointers it holds are aligned, lie in the pool and give it
  disjoint blocks of at least the sizes it asked for; every further allocation
  returns, as does the release of every pointer held; the pool is tiled by blocks of which
  exactly the blocks held are in use and the others are, in address order and without two
  neighbours among them, the free list; and once everything is released
  the whole pool is one free block again, so that any size up to 512 KiB less a
  header can be had.\<close>

theorem heap_sound:
  assumes "heap_reach h live"
  shows "(\<forall>(p, n) \<in> set live. p \<noteq> 0 \<and> p AND 15 = 0 \<and> unat (heap_pool h) < unat p
      \<and> unat p + unat n \<le> unat (heap_pool h) + 0x80000)
    \<and> (\<forall>(p, n) \<in> set live. \<forall>(q, m) \<in> set live. (p, n) \<noteq> (q, m) \<longrightarrow>
        unat p + unat n \<le> unat q \<or> unat q + unat m \<le> unat p)
    \<and> (\<forall>n. malloc n h \<noteq> None) \<and> (\<forall>(p, n) \<in> set live. free p h \<noteq> None)
    \<and> (heap_ready h \<or> live \<noteq> [] \<longrightarrow> (\<exists>bs. lay h 0 bs 0x80000 \<and> flist h (free_head h) (free_offs 0 bs) \<and> coalesced bs
        \<and> set (map fst live) = (\<lambda>(off, n). at h (off + 16)) ` set (used_offs 0 bs)))
    \<and> (live = [] \<longrightarrow> (\<forall>n. unat n \<le> 0x7FFF0 \<longrightarrow> (\<exists>h'. malloc n h = Some (heap_pool h + 16, h'))))"
proof (intro conjI)
  show "\<forall>(p, n) \<in> set live. p \<noteq> 0 \<and> p AND 15 = 0 \<and> unat (heap_pool h) < unat p
      \<and> unat p + unat n \<le> unat (heap_pool h) + 0x80000"
    using heap_apart(1-4) [OF assms] by blast
  show "\<forall>(p, n) \<in> set live. \<forall>(q, m) \<in> set live. (p, n) \<noteq> (q, m) \<longrightarrow>
        unat p + unat n \<le> unat q \<or> unat q + unat m \<le> unat p"
    using heap_apart(5) [OF assms] by blast
  show "\<forall>n. malloc n h \<noteq> None" using heap_total(1) [OF assms] by (metis option.distinct(1))
  show "\<forall>(p, n) \<in> set live. free p h \<noteq> None" using heap_total(2) [OF assms] by fastforce
  show "heap_ready h \<or> live \<noteq> [] \<longrightarrow> (\<exists>bs. lay h 0 bs 0x80000 \<and> flist h (free_head h) (free_offs 0 bs) \<and> coalesced bs
        \<and> set (map fst live) = (\<lambda>(off, n). at h (off + 16)) ` set (used_offs 0 bs))"
    using heap_reach_inv [OF assms] by (auto simp: client_inv_def heap_inv_def held_def)
  show "live = [] \<longrightarrow> (\<forall>n. unat n \<le> 0x7FFF0 \<longrightarrow> (\<exists>h'. malloc n h = Some (heap_pool h + 16, h')))"
    using heap_all_free assms by blast
qed

definition heap_demo :: heap where
  "heap_demo = \<lparr>blk_size = (\<lambda>_. 0), blk_next = (\<lambda>_. 0), blk_magic = (\<lambda>_. 0), free_head = 0,
     heap_ready = False, heap_pool = 0x500000\<rparr>"

lemma heap_demo_run:
  "\<exists>h1 h2. malloc 100 heap_demo = Some (0x500010, h1) \<and> malloc 20 h1 = Some (0x500090, h2)"
  by (simp add: malloc_def heap_setup_def heap_demo_def malloc_walk.simps malloc_take_def malloc_req_def set_link_def Let_def)

theorem heap_sound_witness:
  "\<exists>h. heap_reach h [(0x500090, 20), (0x500010, 100)] \<and> malloc 5000 h \<noteq> None \<and> free 0x500010 h \<noteq> None"
proof -
  obtain h1 h2 where m: "malloc 100 heap_demo = Some (0x500010, h1)" "malloc 20 h1 = Some (0x500090, h2)"
    using heap_demo_run by blast
  have "heap_reach heap_demo []" by (rule heap_reach.start) (simp_all add: heap_demo_def pool_ok_def)
  then have r: "heap_reach h2 [(0x500090, 20), (0x500010, 100)]"
    using heap_reach.alloc [OF heap_reach.alloc [OF _ m(1)] m(2)] by simp
  show ?thesis using heap_sound [OF r] r by auto
qed

end
