(* ===== verification/LibcString.thy ===== *)
theory LibcString
  imports CatPrelude "HOL-Library.Monad_Syntax"
begin

text \<open>
  Memory blocks and strings of the C library, \<^verbatim>\<open>src/libc/src/string.c\<close>, and the
  character classes of \<^verbatim>\<open>src/libc/src/ctype.c\<close>.

  Memory is a function from 32-bit addresses to bytes; pointer arithmetic wraps.  A
  loop bounded by a count recurses on it.  A loop that runs to a terminator is a
  partial function, so that \<open>None\<close> is a string without terminator.  The null pointer
  is address 0.  Functions that return their first argument return only the memory.
\<close>

type_synonym mem = "u32 \<Rightarrow> u8"

section \<open>Memory blocks\<close>

fun memset_loop :: "nat \<Rightarrow> u32 \<Rightarrow> u8 \<Rightarrow> mem \<Rightarrow> mem" where
  "memset_loop 0 p v m = m"
| "memset_loop (Suc n) p v m = memset_loop n (p + 1) v (m(p := v))"

definition memset :: "u32 \<Rightarrow> int \<Rightarrow> u32 \<Rightarrow> mem \<Rightarrow> mem" where
  "memset s c n m = memset_loop (unat n) s (word_of_int c) m"

fun memcpy_loop :: "nat \<Rightarrow> u32 \<Rightarrow> u32 \<Rightarrow> mem \<Rightarrow> mem" where
  "memcpy_loop 0 d s m = m"
| "memcpy_loop (Suc n) d s m = memcpy_loop n (d + 1) (s + 1) (m(d := m s))"

definition memcpy :: "u32 \<Rightarrow> u32 \<Rightarrow> u32 \<Rightarrow> mem \<Rightarrow> mem" where
  "memcpy d s n m = memcpy_loop (unat n) d s m"

fun memmove_back :: "nat \<Rightarrow> u32 \<Rightarrow> u32 \<Rightarrow> mem \<Rightarrow> mem" where
  "memmove_back 0 d s m = m"
| "memmove_back (Suc n) d s m = memmove_back n (d - 1) (s - 1) (m(d - 1 := m (s - 1)))"

definition memmove :: "u32 \<Rightarrow> u32 \<Rightarrow> u32 \<Rightarrow> mem \<Rightarrow> mem" where
  "memmove d s n m =
     (if d = s \<or> n = 0 then m
      else if d < s \<or> d \<ge> s + n then memcpy_loop (unat n) d s m
      else memmove_back (unat n) (d + n) (s + n) m)"

fun memcmp_loop :: "nat \<Rightarrow> u32 \<Rightarrow> u32 \<Rightarrow> mem \<Rightarrow> int" where
  "memcmp_loop 0 a b m = 0"
| "memcmp_loop (Suc n) a b m =
     (if m a \<noteq> m b then uint (m a) - uint (m b) else memcmp_loop n (a + 1) (b + 1) m)"

definition memcmp :: "u32 \<Rightarrow> u32 \<Rightarrow> u32 \<Rightarrow> mem \<Rightarrow> int" where
  "memcmp a b n m = memcmp_loop (unat n) a b m"

section \<open>Strings\<close>

partial_function (option) strlen_loop :: "mem \<Rightarrow> u32 \<Rightarrow> u32 \<Rightarrow> u32 option" where
  "strlen_loop m s n = (if m (s + n) \<noteq> 0 then strlen_loop m s (n + 1) else Some n)"

definition strlen :: "u32 \<Rightarrow> mem \<Rightarrow> u32 option" where
  "strlen s m = strlen_loop m s 0"

partial_function (option) strcmp :: "u32 \<Rightarrow> u32 \<Rightarrow> mem \<Rightarrow> int option" where
  "strcmp a b m =
     (if m a \<noteq> 0 \<and> m a = m b then strcmp (a + 1) (b + 1) m else Some (uint (m a) - uint (m b)))"

fun strncmp_loop :: "nat \<Rightarrow> u32 \<Rightarrow> u32 \<Rightarrow> mem \<Rightarrow> int" where
  "strncmp_loop 0 a b m = 0"
| "strncmp_loop (Suc n) a b m =
     (if m a \<noteq> m b then uint (m a) - uint (m b)
      else if m a = 0 then 0 else strncmp_loop n (a + 1) (b + 1) m)"

definition strncmp :: "u32 \<Rightarrow> u32 \<Rightarrow> u32 \<Rightarrow> mem \<Rightarrow> int" where
  "strncmp a b n m = strncmp_loop (unat n) a b m"

partial_function (option) strcpy :: "u32 \<Rightarrow> u32 \<Rightarrow> mem \<Rightarrow> mem option" where
  "strcpy d s m = (if m s \<noteq> 0 then strcpy (d + 1) (s + 1) (m(d := m s)) else Some (m(d := m s)))"

fun strncpy_loop :: "nat \<Rightarrow> u32 \<Rightarrow> u32 \<Rightarrow> mem \<Rightarrow> mem" where
  "strncpy_loop 0 d s m = m"
| "strncpy_loop (Suc n) d s m =
     (if m s \<noteq> 0 then strncpy_loop n (d + 1) (s + 1) (m(d := m s)) else memset_loop (Suc n) d 0 m)"

definition strncpy :: "u32 \<Rightarrow> u32 \<Rightarrow> u32 \<Rightarrow> mem \<Rightarrow> mem" where
  "strncpy d s n m = strncpy_loop (unat n) d s m"

definition strcat :: "u32 \<Rightarrow> u32 \<Rightarrow> mem \<Rightarrow> mem option" where
  "strcat d s m = do { n \<leftarrow> strlen d m; strcpy (d + n) s m }"

fun strncat_loop :: "nat \<Rightarrow> u32 \<Rightarrow> u32 \<Rightarrow> mem \<Rightarrow> mem" where
  "strncat_loop 0 d s m = m(d := 0)"
| "strncat_loop (Suc n) d s m =
     (if m s \<noteq> 0 then strncat_loop n (d + 1) (s + 1) (m(d := m s)) else m(d := 0))"

definition strncat :: "u32 \<Rightarrow> u32 \<Rightarrow> u32 \<Rightarrow> mem \<Rightarrow> mem option" where
  "strncat d s n m = do { k \<leftarrow> strlen d m; Some (strncat_loop (unat n) (d + k) s m) }"

partial_function (option) strchr_loop :: "u32 \<Rightarrow> u8 \<Rightarrow> mem \<Rightarrow> u32 option" where
  "strchr_loop s c m =
     (if m s = c then Some s else if m s = 0 then Some 0 else strchr_loop (s + 1) c m)"

definition strchr :: "u32 \<Rightarrow> int \<Rightarrow> mem \<Rightarrow> u32 option" where
  "strchr s c m = strchr_loop s (word_of_int c) m"

partial_function (option) strrchr_loop :: "u32 \<Rightarrow> u8 \<Rightarrow> u32 \<Rightarrow> mem \<Rightarrow> u32 option" where
  "strrchr_loop s c prev m =
     (if m s = 0 then Some (if m s = c then s else prev)
      else strrchr_loop (s + 1) c (if m s = c then s else prev) m)"

definition strrchr :: "u32 \<Rightarrow> int \<Rightarrow> mem \<Rightarrow> u32 option" where
  "strrchr s c m = strrchr_loop s (word_of_int c) 0 m"

partial_function (option) strstr_match :: "u32 \<Rightarrow> u32 \<Rightarrow> mem \<Rightarrow> bool option" where
  "strstr_match a b m =
     (if m a \<noteq> 0 \<and> m b \<noteq> 0 \<and> m a = m b then strstr_match (a + 1) (b + 1) m else Some (m b = 0))"

partial_function (option) strstr_loop :: "u32 \<Rightarrow> u32 \<Rightarrow> mem \<Rightarrow> u32 option" where
  "strstr_loop h n m =
     (if m h \<noteq> 0
      then Option.bind (strstr_match h n m) (\<lambda>ok. if ok then Some h else strstr_loop (h + 1) n m)
      else Some 0)"

definition strstr :: "u32 \<Rightarrow> u32 \<Rightarrow> mem \<Rightarrow> u32 option" where
  "strstr h n m = (if m n = 0 then Some h else strstr_loop h n m)"

definition catos_case_fold :: "u8 \<Rightarrow> int" where
  "catos_case_fold c = (if 0x41 \<le> c \<and> c \<le> 0x5A then uint c + 32 else uint c)"

partial_function (option) strcasecmp :: "u32 \<Rightarrow> u32 \<Rightarrow> mem \<Rightarrow> int option" where
  "strcasecmp a b m =
     (if m a \<noteq> 0 \<and> catos_case_fold (m a) = catos_case_fold (m b)
      then strcasecmp (a + 1) (b + 1) m
      else Some (catos_case_fold (m a) - catos_case_fold (m b)))"

fun strncasecmp_loop :: "nat \<Rightarrow> u32 \<Rightarrow> u32 \<Rightarrow> mem \<Rightarrow> int" where
  "strncasecmp_loop 0 a b m = 0"
| "strncasecmp_loop (Suc n) a b m =
     (if catos_case_fold (m a) \<noteq> catos_case_fold (m b)
      then catos_case_fold (m a) - catos_case_fold (m b)
      else if m a = 0 then 0 else strncasecmp_loop n (a + 1) (b + 1) m)"

definition strncasecmp :: "u32 \<Rightarrow> u32 \<Rightarrow> u32 \<Rightarrow> mem \<Rightarrow> int" where
  "strncasecmp a b n m = strncasecmp_loop (unat n) a b m"

text \<open>\<open>strtok_r\<close>: the scan over delimiters (\<open>want = True\<close>) or over the token.  The result
  is the token, the new value of \<open>*sp\<close> and the memory.\<close>

partial_function (option) tok_span :: "bool \<Rightarrow> u32 \<Rightarrow> u32 \<Rightarrow> mem \<Rightarrow> u32 option" where
  "tok_span want delim cur m =
     (if m cur \<noteq> 0
      then Option.bind (strchr delim (uint (m cur)) m)
        (\<lambda>r. if (r \<noteq> 0) = want then tok_span want delim (cur + 1) m else Some cur)
      else Some cur)"

definition strtok_r :: "u32 \<Rightarrow> u32 \<Rightarrow> u32 \<Rightarrow> mem \<Rightarrow> (u32 \<times> u32 \<times> mem) option" where
  "strtok_r s delim sp m =
     (let s = (if s = 0 then sp else s) in
      if s = 0 then Some (0, 0, m)
      else do {
        tok \<leftarrow> tok_span True delim s m;
        if m tok = 0 then Some (0, tok, m)
        else do {
          cur \<leftarrow> tok_span False delim tok m;
          if m cur \<noteq> 0 then Some (tok, cur + 1, m(cur := 0)) else Some (tok, cur, m)
        }
      })"

section \<open>Character classes\<close>

definition catos_ctype_in_range :: "int \<Rightarrow> bool" where
  "catos_ctype_in_range c = (0 \<le> c \<and> c \<le> 255)"

definition isdigit :: "int \<Rightarrow> bool" where
  "isdigit c = (48 \<le> c \<and> c \<le> 57)"

definition isalpha :: "int \<Rightarrow> bool" where
  "isalpha c = (if \<not> catos_ctype_in_range c then False else 65 \<le> c \<and> c \<le> 90 \<or> 97 \<le> c \<and> c \<le> 122)"

definition isalnum :: "int \<Rightarrow> bool" where
  "isalnum c = (isdigit c \<or> isalpha c)"

definition isblank :: "int \<Rightarrow> bool" where
  "isblank c = (c = 32 \<or> c = 9)"

definition iscntrl :: "int \<Rightarrow> bool" where
  "iscntrl c = (if \<not> catos_ctype_in_range c then False else 0 \<le> c \<and> c \<le> 0x1F \<or> c = 0x7F)"

definition isgraph :: "int \<Rightarrow> bool" where
  "isgraph c = (c > 0x20 \<and> c < 0x7F)"

definition islower :: "int \<Rightarrow> bool" where
  "islower c = (97 \<le> c \<and> c \<le> 122)"

definition isprint :: "int \<Rightarrow> bool" where
  "isprint c = (c \<ge> 0x20 \<and> c < 0x7F)"

definition ispunct :: "int \<Rightarrow> bool" where
  "ispunct c = (isgraph c \<and> \<not> isalnum c)"

definition isspace :: "int \<Rightarrow> bool" where
  "isspace c = (c = 32 \<or> 9 \<le> c \<and> c \<le> 13)"

definition isupper :: "int \<Rightarrow> bool" where
  "isupper c = (65 \<le> c \<and> c \<le> 90)"

definition isxdigit :: "int \<Rightarrow> bool" where
  "isxdigit c = (isdigit c \<or> 65 \<le> c \<and> c \<le> 70 \<or> 97 \<le> c \<and> c \<le> 102)"

definition tolower :: "int \<Rightarrow> int" where
  "tolower c = (if 65 \<le> c \<and> c \<le> 90 then c - 65 + 97 else c)"

definition toupper :: "int \<Rightarrow> int" where
  "toupper c = (if 97 \<le> c \<and> c \<le> 122 then c - 97 + 65 else c)"

lemmas ctype_defs = catos_ctype_in_range_def isdigit_def isalpha_def isalnum_def isblank_def iscntrl_def
  isgraph_def islower_def isprint_def ispunct_def isspace_def isupper_def isxdigit_def tolower_def toupper_def

section \<open>Block copies\<close>

lemma of_nat_unat_id: "of_nat (unat x) = x" for x :: u32
  by simp

lemma unat_minus_1: "x \<noteq> 0 \<Longrightarrow> unat (x - 1) = unat x - 1" for x :: u32
  by (metis One_nat_def unat_minus_one)

lemma memset_loop_apply:
  assumes "n < 2 ^ 32"
  shows "memset_loop n p v m q = (if unat (q - p) < n then v else m q)"
  using assms
proof (induction n arbitrary: p m)
  case (Suc n)
  have e: "q - (p + 1) = q - p - 1" by simp
  show ?case
  proof (cases "q = p")
    case True
    then show ?thesis using Suc by (simp add: e)
  next
    case False
    then have "unat (q - p - 1) = unat (q - p) - 1" "0 < unat (q - p)"
      by (auto simp: unat_minus_1 unat_gt_0)
    then show ?thesis using Suc False by (auto simp: e)
  qed
qed simp

lemma memcpy_loop_apply:
  assumes "n < 2 ^ 32" "\<forall>k < n. 0 < k \<longrightarrow> d \<noteq> s + of_nat k"
  shows "memcpy_loop n d s m q = (if unat (q - d) < n then m (s + (q - d)) else m q)"
  using assms
proof (induction n arbitrary: d s m)
  case (Suc n)
  have e: "q - (d + 1) = q - d - 1" "s + 1 + (q - d - 1) = s + (q - d)" by simp_all
  have ih: "memcpy_loop n (d + 1) (s + 1) (m(d := m s)) q
    = (if unat (q - d - 1) < n then (m(d := m s)) (s + (q - d)) else (m(d := m s)) q)"
    unfolding e [symmetric] using Suc.prems by (intro Suc.IH) (auto simp: add.commute add.left_commute)
  show ?case
  proof (cases "q = d")
    case True
    then show ?thesis using Suc.prems ih by simp
  next
    case False
    then have u: "unat (q - d - 1) = unat (q - d) - 1" "0 < unat (q - d)"
      by (auto simp: unat_minus_1 unat_gt_0)
    have "d \<noteq> s + (q - d)" if "unat (q - d) < Suc n"
      using Suc.prems(2) that u(2) by (metis of_nat_unat_id)
    then show ?thesis using u False ih by auto
  qed
qed simp

lemma memmove_back_apply:
  assumes "n < 2 ^ 32" "\<forall>k < n. 0 < k \<longrightarrow> s \<noteq> d + of_nat k"
  shows "memmove_back n d s m q
    = (if unat (q - (d - of_nat n)) < n then m (s - of_nat n + (q - (d - of_nat n))) else m q)"
  using assms
proof (induction n arbitrary: d s m)
  case (Suc n)
  define x where "x = q - (d - of_nat (Suc n))"
  have e: "d - 1 - of_nat n = d - of_nat (Suc n)" "s - 1 - of_nat n = s - of_nat (Suc n)" by simp_all
  have ih: "memmove_back n (d - 1) (s - 1) (m(d - 1 := m (s - 1))) q
    = (if unat x < n then (m(d - 1 := m (s - 1))) (s - of_nat (Suc n) + x) else (m(d - 1 := m (s - 1))) q)"
    unfolding x_def e [symmetric] using Suc.prems by (intro Suc.IH) (auto simp: algebra_simps)
  have q: "q = d - 1 \<longleftrightarrow> x = of_nat n" by (auto simp: x_def algebra_simps)
  have ne: "s - of_nat (Suc n) + x \<noteq> d - 1" if "unat x < n"
  proof
    assume a: "s - of_nat (Suc n) + x = d - 1"
    have "of_nat (n - unat x) = of_nat n - x" using that by (simp add: of_nat_diff)
    then have o: "of_nat (n - unat x) + x = of_nat n" by simp
    have "s + x = d + of_nat n" using a by (simp add: algebra_simps)
    then have "s + x = d + of_nat (n - unat x) + x" by (simp add: add.assoc o)
    then have "s = d + of_nat (n - unat x)" by simp
    moreover have "0 < n - unat x" "n - unat x < Suc n" using that by auto
    ultimately show False using Suc.prems(2) by blast
  qed
  have n: "unat (of_nat n :: u32) = n" using Suc.prems(1) by (simp add: unat_of_nat)
  show ?case
  proof (cases "q = d - 1")
    case True
    then have "x = of_nat n" using q by simp
    then show ?thesis using True ih n unfolding x_def [symmetric] by (simp add: algebra_simps)
  next
    case False
    then have "unat x < Suc n \<longleftrightarrow> unat x < n" using q by (metis less_Suc_eq of_nat_unat_id)
    then show ?thesis using False ih ne unfolding x_def [symmetric] by simp
  qed
qed simp

text \<open>Property C29: for blocks inside the address space \<open>memmove\<close> is a simultaneous copy:
  afterwards every byte of the destination is what the corresponding byte of the
  source was before, however the blocks overlap, and no other byte has changed.\<close>

theorem memmove_simultaneous:
  assumes "unat s + unat n < 2 ^ 32" "unat d + unat n \<le> 2 ^ 32"
  shows "memmove d s n m = (\<lambda>q. if q - d < n then m (s + (q - d)) else m q)"
proof
  fix q
  have N: "unat n < 2 ^ 32" using unsigned_less [of n, where ?'a = nat] by simp
  have lt: "q - d < n \<longleftrightarrow> unat (q - d) < unat n" by (rule word_less_nat_alt)
  have sn: "unat (s + n) = unat s + unat n" using assms(1) by (intro unat_add_lem [THEN iffD1]) simp
  have k: "unat (x + of_nat k) = (unat x + k) mod 2 ^ 32" for x :: u32 and k
    by (simp add: unat_word_ariths unat_of_nat mod_add_right_eq)
  consider "d = s \<or> n = 0" | "d \<noteq> s" "n \<noteq> 0" "d < s \<or> d \<ge> s + n" | "n \<noteq> 0" "s < d" "d < s + n"
    by force
  then show "memmove d s n m q = (if q - d < n then m (s + (q - d)) else m q)"
  proof cases
    case 1
    then show ?thesis by (auto simp: memmove_def)
  next
    case 2
    have "d \<noteq> s + of_nat j" if "0 < j" "j < unat n" for j
    proof
      assume "d = s + of_nat j"
      then have "unat d = unat s + j" using k [of s j] that assms(1) by simp
      then show False using 2(3) that sn by (auto simp: word_less_nat_alt word_le_nat_alt)
    qed
    then show ?thesis using 2 memcpy_loop_apply [OF N, of d s m q] by (auto simp: memmove_def lt)
  next
    case 3
    have "s + n \<noteq> d + n + of_nat j" if "0 < j" "j < unat n" for j
    proof
      assume "s + n = d + n + of_nat j"
      then have "s = d + of_nat j" by (simp add: algebra_simps)
      then have "unat s = unat d + j" using k [of d j] that assms(2) by simp
      then show False using 3(2) by (simp add: word_less_nat_alt)
    qed
    then show ?thesis
      using 3 memmove_back_apply [OF N, of "s + n" "d + n" m q] by (auto simp: memmove_def lt not_le)
  qed
qed

theorem memmove_simultaneous_witness:
  "map (memmove 0x1002 0x1000 4 (\<lambda>a. ucast (a - 0x1000))) [0x1000, 0x1001, 0x1002, 0x1003, 0x1004, 0x1005, 0x1006]
     = [0, 1, 0, 1, 2, 3, 6]"
  using memmove_simultaneous [of "0x1000" 4 "0x1002" "\<lambda>a. ucast (a - 0x1000)"] by simp

section \<open>Strings in memory\<close>

text \<open>The bytes \<open>cs\<close> and a terminator at address \<open>p\<close>.\<close>

fun cstr :: "mem \<Rightarrow> u32 \<Rightarrow> u8 list \<Rightarrow> bool" where
  "cstr m p [] = (m p = 0)"
| "cstr m p (c # cs) = (m p = c \<and> c \<noteq> 0 \<and> cstr m (p + 1) cs)"

lemma cstr_append: "cstr m p (xs @ ys) \<longleftrightarrow> (\<forall>i < length xs. m (p + of_nat i) = xs ! i) \<and> 0 \<notin> set xs
    \<and> cstr m (p + of_nat (length xs)) ys"
proof (induction xs arbitrary: p)
  case (Cons x xs)
  have "(\<forall>i < length (x # xs). m (p + of_nat i) = (x # xs) ! i)
    \<longleftrightarrow> m p = x \<and> (\<forall>i < length xs. m (p + 1 + of_nat i) = xs ! i)"
    by (auto simp: less_Suc_eq_0_disj add.assoc)
  then show ?case using Cons [of "p + 1"] by (auto simp: add.assoc)
qed simp

lemma strlen_cstr:
  assumes "cstr m p cs"
  shows "strlen p m = Some (of_nat (length cs))"
proof -
  have "strlen_loop m p n = Some (n + of_nat (length cs))" if "cstr m (p + n) cs" for n
    using that
  proof (induction cs arbitrary: n)
    case Nil
    then show ?case by (simp add: strlen_loop.simps)
  next
    case (Cons c cs)
    then show ?case using Cons.IH [of "n + 1"] by (simp add: strlen_loop.simps [of m p n] add.assoc)
  qed
  from this [of 0] show ?thesis using assms by (simp add: strlen_def)
qed

text \<open>The order of \<open>strcmp\<close>: the difference at the first mismatch, a terminator counting
  as 0.\<close>

fun str_diff :: "u8 list \<Rightarrow> u8 list \<Rightarrow> int" where
  "str_diff [] [] = 0"
| "str_diff [] (y # ys) = - uint y"
| "str_diff (x # xs) [] = uint x"
| "str_diff (x # xs) (y # ys) = (if x = y then str_diff xs ys else uint x - uint y)"

lemma strcmp_cstr:
  assumes "cstr m a xs" "cstr m b ys"
  shows "strcmp a b m = Some (str_diff xs ys)"
  using assms
  by (induction xs ys arbitrary: a b rule: str_diff.induct) (auto simp: strcmp.simps)

lemma str_diff_0: "0 \<notin> set xs \<Longrightarrow> 0 \<notin> set ys \<Longrightarrow> str_diff xs ys = 0 \<longleftrightarrow> xs = ys"
  by (induction xs ys rule: str_diff.induct) (auto simp: word_uint_eq_iff)

lemma cstr_nonzero: "cstr m p cs \<Longrightarrow> 0 \<notin> set cs"
  by (induction cs arbitrary: p) auto

lemma strcmp_eq_0_iff:
  assumes "cstr m a xs" "cstr m b ys"
  shows "strcmp a b m = Some 0 \<longleftrightarrow> xs = ys"
  by (simp add: strcmp_cstr [OF assms] str_diff_0 cstr_nonzero [OF assms(1)] cstr_nonzero [OF assms(2)])

lemma cstr_frame:
  "\<forall>k \<le> length cs. d \<noteq> p + of_nat k \<Longrightarrow> cstr (m(d := x)) p cs = cstr m p cs"
proof (induction cs arbitrary: p)
  case (Cons c cs)
  have "d \<noteq> p + 1 + of_nat k" if "k \<le> length cs" for k
    using Cons.prems [rule_format, of "Suc k"] that by (simp add: add.assoc)
  moreover have "d \<noteq> p" using Cons.prems [rule_format, of 0] by simp
  ultimately show ?case using Cons.IH [of "p + 1"] by simp
qed force

lemma strcpy_memcpy:
  assumes "cstr m s cs" "\<forall>k \<le> length cs. 0 < k \<longrightarrow> d \<noteq> s + of_nat k"
  shows "strcpy d s m = Some (memcpy_loop (Suc (length cs)) d s m)"
  using assms
proof (induction cs arbitrary: d s m)
  case Nil
  then show ?case by (simp add: strcpy.simps fun_upd_def)
next
  case (Cons c cs)
  have n: "d \<noteq> s + 1 + of_nat k" if "k \<le> length cs" for k
    using Cons.prems(2) [rule_format, of "Suc k"] that by (simp add: add.assoc)
  have "cstr (m(d := c)) (s + 1) cs"
    using Cons.prems(1) cstr_frame [of cs d "s + 1" m c] n by auto
  moreover have "d + 1 \<noteq> s + 1 + of_nat k" if "k \<le> length cs" "0 < k" for k
    using Cons.prems(2) [rule_format, of k] that by (simp add: add.commute add.left_commute)
  ultimately have "strcpy (d + 1) (s + 1) (m(d := c)) = Some (memcpy_loop (Suc (length cs)) (d + 1) (s + 1) (m(d := c)))"
    using Cons.IH [of "m(d := c)" "s + 1" "d + 1"] by blast
  then show ?case using Cons.prems(1) by (subst strcpy.simps) auto
qed

lemma strcpy_cstr:
  assumes "cstr m s cs" "Suc (length cs) < 2 ^ 32" "\<forall>k \<le> length cs. 0 < k \<longrightarrow> d \<noteq> s + of_nat k"
  shows "strcpy d s m = Some (\<lambda>q. if unat (q - d) \<le> length cs then m (s + (q - d)) else m q)"
proof -
  have "memcpy_loop (Suc (length cs)) d s m q = (if unat (q - d) \<le> length cs then m (s + (q - d)) else m q)" for q
    using memcpy_loop_apply [OF assms(2), of d s m q] assms(3) unfolding less_Suc_eq_le by blast
  then show ?thesis unfolding strcpy_memcpy [OF assms(1,3)] by (simp only: fun_eq_iff option.inject) blast
qed

lemma strchr_loop_cstr:
  assumes "cstr m p cs"
  shows "strchr_loop p c m = Some (if c = 0 \<or> c \<in> set cs
    then p + of_nat (length (takeWhile (\<lambda>x. x \<noteq> c) cs)) else 0)"
  using assms
proof (induction cs arbitrary: p)
  case Nil
  then show ?case by (simp add: strchr_loop.simps)
next
  case (Cons x cs)
  then show ?case using Cons.IH [of "p + 1"] by (subst strchr_loop.simps) (auto simp: add.assoc)
qed

text \<open>\<open>strchr\<close> on a string that does not wrap around the address space: not NULL exactly
  when the byte occurs.\<close>

lemma strchr_cstr:
  assumes "cstr m p cs" "0 < unat p" "unat p + length cs < 2 ^ 32"
  shows "\<exists>r. strchr p (uint c) m = Some r \<and> (r \<noteq> 0 \<longleftrightarrow> c = 0 \<or> c \<in> set cs)"
proof -
  let ?k = "length (takeWhile (\<lambda>x. x \<noteq> c) cs)"
  have "?k \<le> length cs" by (rule length_takeWhile_le)
  then have "unat (p + of_nat ?k) = unat p + ?k"
    using assms(3) by (simp add: unat_word_ariths unat_of_nat)
  then have "p + of_nat ?k \<noteq> 0" using assms(2) by (metis add_is_0 neq0_conv unat_0)
  then show ?thesis by (simp add: strchr_def strchr_loop_cstr [OF assms(1)])
qed

lemma tok_span_cstr:
  assumes "cstr m p cs" "cstr m delim ds" "0 < unat delim" "unat delim + length ds < 2 ^ 32"
  shows "tok_span want delim p m = Some (p + of_nat (length (takeWhile (\<lambda>c. (c \<in> set ds) = want) cs)))"
  using assms(1)
proof (induction cs arbitrary: p)
  case Nil
  then show ?case by (simp add: tok_span.simps)
next
  case (Cons c cs)
  obtain r where r: "strchr delim (uint c) m = Some r" "r \<noteq> 0 \<longleftrightarrow> c = 0 \<or> c \<in> set ds"
    using strchr_cstr [OF assms(2-4), of c] by blast
  show ?case using Cons Cons.IH [of "p + 1"] r by (subst tok_span.simps) (auto simp: add.assoc)
qed

text \<open>One call of \<open>strtok_r\<close>: leading delimiters are skipped, the token is the longest run
  without delimiters, its end is overwritten by a terminator, and the scan resumes
  behind it.\<close>

lemma strtok_r_cstr:
  assumes "cstr m p cs" "p \<noteq> 0" "cstr m delim ds" "0 < unat delim" "unat delim + length ds < 2 ^ 32"
  defines "a \<equiv> takeWhile (\<lambda>c. c \<in> set ds) cs" and "r \<equiv> dropWhile (\<lambda>c. c \<in> set ds) cs"
  defines "t \<equiv> takeWhile (\<lambda>c. c \<notin> set ds) r"
  defines "tok \<equiv> p + of_nat (length a)" and "cur \<equiv> p + of_nat (length a) + of_nat (length t)"
  shows "strtok_r p delim sp m =
    (if r = [] then Some (0, tok, m)
     else if t = r then Some (tok, cur, m) else Some (tok, cur + 1, m(cur := 0)))"
proof -
  have cs: "cs = a @ r" by (simp add: a_def r_def)
  have r: "cstr m tok r" using assms(1) unfolding cs tok_def by (simp add: cstr_append)
  have rt: "r = t @ dropWhile (\<lambda>c. c \<notin> set ds) r" by (simp add: t_def)
  have c: "cstr m cur (dropWhile (\<lambda>c. c \<notin> set ds) r)"
    using r rt unfolding cur_def tok_def [symmetric] by (metis cstr_append)
  have s1: "tok_span True delim p m = Some tok"
    using tok_span_cstr [OF assms(1,3-5), of True] by (simp add: a_def tok_def)
  have s2: "tok_span False delim tok m = Some cur"
    using tok_span_cstr [OF r assms(3-5), of False] by (simp add: t_def cur_def tok_def)
  have e: "m tok = 0 \<longleftrightarrow> r = []" using r by (cases r) auto
  have f: "m cur = 0 \<longleftrightarrow> t = r"
    using c rt by (cases "dropWhile (\<lambda>c. c \<notin> set ds) r") auto
  show ?thesis using assms(2) by (simp add: strtok_r_def Let_def s1 s2 e f)
qed

section \<open>Laws of the character classes\<close>

lemma ctype_partition:
  "catos_ctype_in_range c \<Longrightarrow> isprint c \<longleftrightarrow> c = 32 \<or> isgraph c"
  "isgraph c \<longleftrightarrow> isalnum c \<or> ispunct c" "isalpha c \<longleftrightarrow> isupper c \<or> islower c"
  by (auto simp: ctype_defs)

lemma ctype_case:
  "isupper c \<Longrightarrow> islower (tolower c) \<and> toupper (tolower c) = c"
  "islower c \<Longrightarrow> isupper (toupper c) \<and> tolower (toupper c) = c"
  "\<not> isalpha c \<Longrightarrow> tolower c = c \<and> toupper c = c"
  by (auto simp: ctype_defs)

lemma ctype_out_of_range:
  "\<not> catos_ctype_in_range c \<Longrightarrow> \<not> isalnum c \<and> \<not> isblank c \<and> \<not> iscntrl c \<and> \<not> isprint c \<and> \<not> isspace c \<and> \<not> isxdigit c"
  by (auto simp: ctype_defs)

end
