(* ===== verification/LibcNum.thy ===== *)
theory LibcNum
  imports LibcString
begin

text \<open>
  Numbers and formatted text of the C library: \<^verbatim>\<open>strtol\<close>, \<^verbatim>\<open>strtoul\<close> and their
  relatives and \<^verbatim>\<open>random\<close> of \<^verbatim>\<open>src/libc/src/stdlib.c\<close>, and the input and output
  functions of \<^verbatim>\<open>src/libc/src/stdio.c\<close>.

  The number scanner takes the bytes of its string before the terminator, so that
  reading at the end of the list is reading the terminator.  A scan position is the
  rest of the list and \<open>endptr\<close> is the number of bytes consumed.  \<open>errno\<close> is \<open>None\<close> when
  it is not assigned.  \<open>unsigned long\<close> has 32 bits.

  The two weak symbols \<open>catos_stdout_emit\<close> and \<open>catos_stdin_read\<close>, through which all
  output and input goes, are the parameters \<open>emit\<close> and \<open>inp\<close> over a device state.
\<close>

section \<open>Scanning numbers\<close>

abbreviation (input) "EINVAL \<equiv> (22 :: int)"
abbreviation (input) "ERANGE \<equiv> (34 :: int)"

definition peek :: "u8 list \<Rightarrow> u8" where
  "peek s = (case s of [] \<Rightarrow> 0 | c # _ \<Rightarrow> c)"

definition scan_space :: "u8 \<Rightarrow> bool" where
  "scan_space c = (c = 0x20 \<or> 0x09 \<le> c \<and> c \<le> 0x0D)"

definition scan_sign :: "u8 list \<Rightarrow> bool \<times> u8 list" where
  "scan_sign s = (if peek s = 0x2B then (False, tl s) else if peek s = 0x2D then (True, tl s) else (False, s))"

definition hex_char :: "u8 \<Rightarrow> bool" where
  "hex_char c = (0x30 \<le> c \<and> c \<le> 0x39 \<or> 0x41 \<le> c \<and> c \<le> 0x46 \<or> 0x61 \<le> c \<and> c \<le> 0x66)"

definition scan_prefix :: "int \<Rightarrow> u8 list \<Rightarrow> int \<times> u8 list" where
  "scan_prefix base s =
     (let x = (peek s = 0x30 \<and> (peek (tl s) = 0x78 \<or> peek (tl s) = 0x58)) in
      if base = 0 then
        (if x then (16, drop 2 s) else if peek s = 0x30 then (8, tl s) else (10, s))
      else if base = 16 then
        (if x \<and> hex_char (peek (drop 2 s)) then (16, drop 2 s) else (16, s))
      else (base, s))"

text \<open>The value of a digit character; \<open>None\<close> ends the number.\<close>

definition scan_digit :: "u8 \<Rightarrow> int option" where
  "scan_digit c =
     (if 0x30 \<le> c \<and> c \<le> 0x39 then Some (uint c - 0x30)
      else if 0x61 \<le> c \<and> c \<le> 0x7A then Some (uint c - 0x61 + 10)
      else if 0x41 \<le> c \<and> c \<le> 0x5A then Some (uint c - 0x41 + 10)
      else None)"

definition scan_acc :: "int \<Rightarrow> int \<Rightarrow> u32 \<times> bool \<Rightarrow> u32 \<times> bool" where
  "scan_acc base d st =
     (case st of (acc, ovf) \<Rightarrow>
        if ovf then (0xFFFFFFFF, True)
        else if acc > (0xFFFFFFFF - word_of_int d) div word_of_int base then (0xFFFFFFFF, True)
        else (acc * word_of_int base + word_of_int d, False))"

fun scan_digits :: "int \<Rightarrow> u8 list \<Rightarrow> u32 \<times> bool \<Rightarrow> u8 list \<times> u32 \<times> bool" where
  "scan_digits base [] st = ([], st)"
| "scan_digits base (c # s) st =
     (case scan_digit c of
        None \<Rightarrow> (c # s, st)
      | Some d \<Rightarrow> if d \<ge> base then (c # s, st) else scan_digits base s (scan_acc base d st))"

text \<open>The result of the scan: magnitude, bytes consumed, overflow, any digit, sign.\<close>

definition catos_strto_scan :: "u8 list \<Rightarrow> int \<Rightarrow> u32 \<times> nat \<times> bool \<times> bool \<times> bool" where
  "catos_strto_scan nptr base =
     (case scan_sign (dropWhile scan_space nptr) of (neg, s) \<Rightarrow>
        (case scan_prefix base s of (base, start) \<Rightarrow>
           (case scan_digits base start (0, False) of (s, acc, ovf) \<Rightarrow>
              let any = (length s \<noteq> length start) in
              (acc, if any then length nptr - length s else 0, ovf, any, neg))))"

definition bad_base :: "int \<Rightarrow> bool" where
  "bad_base base = (base \<noteq> 0 \<and> (base < 2 \<or> base > 36))"

definition strtol :: "u8 list \<Rightarrow> int \<Rightarrow> int \<times> nat \<times> int option" where
  "strtol nptr base =
     (if bad_base base then (0, 0, Some EINVAL)
      else
        (case catos_strto_scan nptr base of (mag, pos, ovf, any, neg) \<Rightarrow>
           if \<not> any then (0, pos, None)
           else if ovf then (if neg then - 0x80000000 else 0x7FFFFFFF, pos, Some ERANGE)
           else if neg then
             (if mag \<ge> 0x80000000
              then (- 0x80000000, pos, if mag > 0x80000000 then Some ERANGE else None)
              else (- uint mag, pos, None))
           else if mag > 0x7FFFFFFF then (0x7FFFFFFF, pos, Some ERANGE)
           else (uint mag, pos, None)))"

definition strtoul :: "u8 list \<Rightarrow> int \<Rightarrow> u32 \<times> nat \<times> int option" where
  "strtoul nptr base =
     (if bad_base base then (0, 0, Some EINVAL)
      else
        (case catos_strto_scan nptr base of (mag, pos, ovf, any, neg) \<Rightarrow>
           if \<not> any then (0, pos, None)
           else if ovf then (0xFFFFFFFF, pos, Some ERANGE)
           else if neg then (0 - mag, pos, Some ERANGE)
           else (mag, pos, None)))"

definition strtoll :: "u8 list \<Rightarrow> int \<Rightarrow> int \<times> nat \<times> int option" where
  "strtoll nptr base = strtol nptr base"

definition atol :: "u8 list \<Rightarrow> int" where
  "atol s = fst (strtol s 10)"

definition atoi :: "u8 list \<Rightarrow> int" where
  "atoi s = fst (strtol s 10)"

definition abs_int :: "u32 \<Rightarrow> u32" where
  "abs_int x = (if sint x < 0 then - x else x)"

section \<open>The random generator\<close>

type_synonym u64 = "64 word"

definition srandom :: "u32 \<Rightarrow> u64" where
  "srandom seed = ucast seed"

definition random :: "u64 \<Rightarrow> u32 \<times> u64" where
  "random seed =
     (let seed = seed * 6364136223846793005 + 1442695040888963407 in (ucast (drop_bit 33 seed), seed))"

definition rand :: "u64 \<Rightarrow> u32 \<times> u64" where
  "rand seed = (case random seed of (r, seed) \<Rightarrow> (r AND 0x7FFFFFFF, seed))"

definition srand :: "u32 \<Rightarrow> u64" where
  "srand seed = srandom seed"

section \<open>Character output and input\<close>

type_synonym 'o emitter = "u8 list \<Rightarrow> 'o \<Rightarrow> int \<times> 'o"
type_synonym 'i reader = "int \<Rightarrow> 'i \<Rightarrow> int \<times> u8 \<times> 'i"

definition putchar :: "'o emitter \<Rightarrow> u8 \<Rightarrow> 'o \<Rightarrow> int \<times> 'o" where
  "putchar emit c dev = (case emit [c] dev of (r, dev) \<Rightarrow> (if r < 0 then r else uint c, dev))"

definition puts :: "'o emitter \<Rightarrow> u8 list option \<Rightarrow> 'o \<Rightarrow> int \<times> 'o" where
  "puts emit str dev =
     (case str of None \<Rightarrow> (- 1, dev)
      | Some s \<Rightarrow>
          (case emit s dev of (r, dev) \<Rightarrow>
             if r < 0 then (- 1, dev)
             else (case emit [0x0A] dev of (r, dev) \<Rightarrow>
                     if r < 0 then (- 1, dev) else (int (length s) + 1, dev))))"

definition getchar :: "'i reader \<Rightarrow> 'i \<Rightarrow> int \<times> 'i" where
  "getchar inp dev = (case inp 0 dev of (r, ch, dev) \<Rightarrow> (if r \<noteq> 1 then - 1 else uint ch, dev))"

text \<open>The bytes \<open>fgets\<close> collects, at most \<open>n\<close> of them.\<close>

fun fgets_loop :: "'i reader \<Rightarrow> int \<Rightarrow> nat \<Rightarrow> 'i \<Rightarrow> u8 list \<times> 'i" where
  "fgets_loop inp fd 0 dev = ([], dev)"
| "fgets_loop inp fd (Suc n) dev =
     (case inp fd dev of (r, ch, dev) \<Rightarrow>
        if r \<noteq> 1 then ([], dev)
        else if ch = 0x0A then ([ch], dev)
        else (case fgets_loop inp fd n dev of (s, dev) \<Rightarrow> (ch # s, dev)))"

definition fgets :: "'i reader \<Rightarrow> int \<Rightarrow> int \<Rightarrow> 'i \<Rightarrow> u8 list option \<times> 'i" where
  "fgets inp len fd dev =
     (if len \<le> 1 then (None, dev)
      else (case fgets_loop inp fd (nat (len - 1)) dev of (s, dev) \<Rightarrow>
              (if s = [] then None else Some (s @ [0]), dev)))"

section \<open>Formatted output\<close>

definition digit_char :: "u32 \<Rightarrow> u8" where
  "digit_char d = (if d < 10 then 0x30 + ucast d else 0x61 + ucast d - 10)"

partial_function (option) u32_rev :: "u32 \<Rightarrow> u32 \<Rightarrow> u8 list option" where
  "u32_rev v base =
     (if v div base \<noteq> 0
      then Option.bind (u32_rev (v div base) base) (\<lambda>r. Some (digit_char (v mod base) # r))
      else Some [digit_char (v mod base)])"

definition catos_u32_to_str :: "u32 \<Rightarrow> u32 \<Rightarrow> u8 list option" where
  "catos_u32_to_str v base = map_option rev (u32_rev v base)"

fun put_all :: "'o emitter \<Rightarrow> u8 list \<Rightarrow> 'o \<Rightarrow> bool \<times> 'o" where
  "put_all emit [] dev = (True, dev)"
| "put_all emit (c # cs) dev =
     (case putchar emit c dev of (r, dev) \<Rightarrow> if r < 0 then (False, dev) else put_all emit cs dev)"

definition catos_emit_pad :: "'o emitter \<Rightarrow> nat \<Rightarrow> 'o \<Rightarrow> bool \<times> 'o" where
  "catos_emit_pad emit n dev = put_all emit (replicate n 0x20) dev"

definition pad_width :: "u32 \<Rightarrow> nat \<Rightarrow> nat" where
  "pad_width width len = (if sint width > 0 \<and> unat width > len then unat width - len else 0)"

definition catos_emit_field ::
  "'o emitter \<Rightarrow> u8 list \<Rightarrow> nat \<Rightarrow> u32 \<Rightarrow> bool \<Rightarrow> bool \<Rightarrow> 'o \<Rightarrow> int option \<times> 'o" where
  "catos_emit_field emit body lead width left zeropad dev =
     (let len = length body; pad = pad_width width len;
          text = (if \<not> left \<and> pad \<noteq> 0 \<and> zeropad then take lead body @ replicate pad 0x30 @ drop lead body
                  else if \<not> left \<and> pad \<noteq> 0 then replicate pad 0x20 @ body
                  else if left \<and> pad \<noteq> 0 then body @ replicate pad 0x20 else body)
      in (case put_all emit text dev of (ok, dev) \<Rightarrow> (if ok then Some (int (len + pad)) else None, dev)))"

text \<open>The parts of a conversion: flags, minimum width, rest with the conversion letter.\<close>

definition parse_flags :: "u8 list \<Rightarrow> bool \<times> bool \<times> u8 list" where
  "parse_flags p =
     (let fl = takeWhile (\<lambda>c. c = 0x2D \<or> c = 0x30) p
      in (0x2D \<in> set fl, 0x30 \<in> set fl, dropWhile (\<lambda>c. c = 0x2D \<or> c = 0x30) p))"

definition parse_width :: "u8 list \<Rightarrow> u32 \<times> u8 list" where
  "parse_width p =
     (let ds = takeWhile (\<lambda>c. 0x30 \<le> c \<and> c \<le> 0x39) p
      in (foldl (\<lambda>w c. w * 10 + ucast (c - 0x30)) 0 ds, dropWhile (\<lambda>c. 0x30 \<le> c \<and> c \<le> 0x39) p))"

text \<open>A string argument: the bytes at a pointer, \<open>(null)\<close> for the null pointer.\<close>

definition str_arg :: "mem \<Rightarrow> u32 \<Rightarrow> u8 list option" where
  "str_arg m p = (if p = 0 then Some [0x28, 0x6E, 0x75, 0x6C, 0x6C, 0x29]
     else do { n \<leftarrow> strlen p m; Some (map (\<lambda>i. m (p + of_nat i)) [0..<unat n]) })"

text \<open>The body of a conversion with the length of its sign or \<open>0x\<close> prefix and whether the
  zero flag applies; it takes one argument.  The outer \<open>None\<close> is a missing argument,
  a string without terminator or a letter that is no conversion.\<close>

definition conv_body :: "mem \<Rightarrow> u8 \<Rightarrow> u32 \<Rightarrow> (u8 list \<times> nat \<times> bool) option" where
  "conv_body m spec v =
     (if spec = 0x63 then Some ([ucast v], 0, False)
      else if spec = 0x73 then do { s \<leftarrow> str_arg m v; Some (s, 0, False) }
      else if spec = 0x64 then
        (if sint v < 0 then do { s \<leftarrow> catos_u32_to_str (0 - v) 10; Some (0x2D # s, 1, True) }
         else do { s \<leftarrow> catos_u32_to_str v 10; Some (s, 0, True) })
      else if spec = 0x75 then do { s \<leftarrow> catos_u32_to_str v 10; Some (s, 0, True) }
      else if spec = 0x78 then do { s \<leftarrow> catos_u32_to_str v 16; Some (s, 0, True) }
      else if spec = 0x70 then
        (if v = 0 then Some ([0x28, 0x6E, 0x69, 0x6C, 0x29], 0, False)
         else do { s \<leftarrow> catos_u32_to_str v 16; Some (0x30 # 0x78 # s, 2, True) })
      else None)"

definition is_conv :: "u8 \<Rightarrow> bool" where
  "is_conv spec = (spec \<in> {0x63, 0x73, 0x64, 0x75, 0x78, 0x70})"

definition conv_split :: "u8 list \<Rightarrow> bool \<times> bool \<times> u32 \<times> u8 list" where
  "conv_split p =
     (case parse_flags p of (left, zflag, p) \<Rightarrow>
        (case parse_width p of (width, p) \<Rightarrow> (left, zflag, width, p)))"

lemma conv_split_rest:
  "conv_split p = (l, z, w, q) \<Longrightarrow> q = dropWhile (\<lambda>c. 0x30 \<le> c \<and> c \<le> 0x39) (dropWhile (\<lambda>c. c = 0x2D \<or> c = 0x30) p)"
  by (simp add: conv_split_def parse_flags_def parse_width_def Let_def)

lemma conv_split_length: "conv_split p = (l, z, w, q) \<Longrightarrow> length q \<le> length p"
  by (drule conv_split_rest, simp only:) (rule order_trans [OF length_dropWhile_le length_dropWhile_le])

text \<open>One pass of the loop of \<open>printf\<close>: it ends with a result or goes on with the rest of
  the format and of the arguments.\<close>

datatype 'o pf = PfStop "(int \<times> 'o) option" | PfGo "u8 list" "u32 list" int 'o

definition printf_conv ::
  "'o emitter \<Rightarrow> mem \<Rightarrow> u8 \<Rightarrow> u8 list \<Rightarrow> u32 \<Rightarrow> bool \<Rightarrow> bool \<Rightarrow> u32 list \<Rightarrow> int \<Rightarrow> 'o \<Rightarrow> 'o pf" where
  "printf_conv emit m spec rest width left zflag args tot dev =
     (case args of [] \<Rightarrow> PfStop None
      | v # args \<Rightarrow>
          (case conv_body m spec v of None \<Rightarrow> PfStop None
           | Some (body, lead, num) \<Rightarrow>
               (case catos_emit_field emit body lead width left (num \<and> zflag \<and> \<not> left) dev of
                  (None, dev) \<Rightarrow> PfStop (Some (- 1, dev))
                | (Some k, dev) \<Rightarrow> PfGo rest args (tot + k) dev)))"

definition printf_raw :: "'o emitter \<Rightarrow> u8 list \<Rightarrow> u8 list \<Rightarrow> u32 list \<Rightarrow> int \<Rightarrow> 'o \<Rightarrow> 'o pf" where
  "printf_raw emit raw rest args tot dev =
     (case put_all emit raw dev of (ok, dev) \<Rightarrow>
        if ok then PfGo rest args (tot + int (length raw)) dev else PfStop (Some (- 1, dev)))"

definition printf_step ::
  "'o emitter \<Rightarrow> mem \<Rightarrow> u8 \<Rightarrow> u8 list \<Rightarrow> u32 list \<Rightarrow> int \<Rightarrow> 'o \<Rightarrow> 'o pf" where
  "printf_step emit m c fmt args tot dev =
     (if c \<noteq> 0x25 then printf_raw emit [c] fmt args tot dev
      else
        (case conv_split fmt of (left, zflag, width, p) \<Rightarrow>
           (case p of
              [] \<Rightarrow> printf_raw emit (0x25 # fmt) [] args tot dev
            | spec # rest \<Rightarrow>
                if spec = 0x25 then printf_raw emit [0x25] rest args tot dev
                else if is_conv spec then printf_conv emit m spec rest width left zflag args tot dev
                else printf_raw emit (0x25 # take (length fmt - length rest) fmt) rest args tot dev)))"

lemma printf_raw_rest: "printf_raw emit raw rest args tot dev = PfGo r a t d \<Longrightarrow> r = rest"
  by (simp add: printf_raw_def split: prod.splits if_splits)

lemma printf_conv_rest: "printf_conv emit m spec rest width left zflag args tot dev = PfGo r a t d \<Longrightarrow> r = rest"
  by (simp add: printf_conv_def split: list.splits option.splits prod.splits)

lemma printf_step_shrinks:
  assumes "printf_step emit m c fmt args tot dev = PfGo rest args' tot' dev'"
  shows "length rest \<le> length fmt"
proof (cases "c = 0x25")
  case False
  then show ?thesis using assms by (auto simp: printf_step_def dest!: printf_raw_rest)
next
  case True
  obtain l z w q where q: "conv_split fmt = (l, z, w, q)" by (cases "conv_split fmt")
  note len = conv_split_length [OF q]
  show ?thesis
  proof (cases q)
    case Nil
    then show ?thesis using assms True q by (auto simp: printf_step_def dest!: printf_raw_rest)
  next
    case (Cons spec r)
    then have "rest = r"
      using assms True q by (auto simp: printf_step_def dest!: printf_raw_rest printf_conv_rest split: if_splits)
    then show ?thesis using len Cons by simp
  qed
qed

function printf_loop ::
  "'o emitter \<Rightarrow> mem \<Rightarrow> u8 list \<Rightarrow> u32 list \<Rightarrow> int \<Rightarrow> 'o \<Rightarrow> (int \<times> 'o) option" where
  "printf_loop emit m fmt args tot dev =
     (case fmt of [] \<Rightarrow> Some (tot, dev)
      | c # fmt \<Rightarrow>
          (case printf_step emit m c fmt args tot dev of
             PfStop r \<Rightarrow> r
           | PfGo fmt args tot dev \<Rightarrow> printf_loop emit m fmt args tot dev))"
  by pat_completeness auto

termination printf_loop
  by (relation "measure (\<lambda>(_, _, fmt, _, _, _). length fmt)")
    (auto simp: less_Suc_eq_le printf_step_shrinks)

declare printf_loop.simps [simp del]

definition printf :: "'o emitter \<Rightarrow> mem \<Rightarrow> u8 list option \<Rightarrow> u32 list \<Rightarrow> 'o \<Rightarrow> (int \<times> 'o) option" where
  "printf emit m fmt args dev =
     (case fmt of None \<Rightarrow> Some (- 1, dev) | Some f \<Rightarrow> printf_loop emit m f args 0 dev)"

section \<open>Printed numbers read back\<close>

lemma u32_cases_sint: "sint v = (if uint v < 2147483648 then uint v else uint v - 4294967296)" for v :: u32
proof -
  have r: "0 \<le> uint v" "uint v < 4294967296" using uint_bounded [of v] by auto
  show ?thesis
  proof (cases "uint v < 2147483648")
    case True
    then show ?thesis using sint_u32_of_int [of "uint v"] r by simp
  next
    case False
    have "word_of_int (uint v - 4294967296) = v" by (simp add: word_of_int_minus [symmetric])
    then have "sint v = uint v - 4294967296" using sint_u32_of_int [of "uint v - 4294967296"] r False by (simp only:)
    then show ?thesis using False by simp
  qed
qed

lemma scan_digit_table: "list_all (\<lambda>n. scan_digit (digit_char (of_nat n)) = Some (int n)) [0..<16]"
  by code_simp

lemma scan_digit_char:
  assumes "d < 16"
  shows "scan_digit (digit_char d) = Some (uint d)"
proof -
  have "unat d < 16" using assms by (simp add: word_less_nat_alt)
  then have "scan_digit (digit_char (of_nat (unat d))) = Some (int (unat d))"
    using bspec [OF scan_digit_table [unfolded list_all_iff], of "unat d"] by simp
  then show ?thesis by simp
qed

lemma scan_digits_append:
  "scan_digits base xs st = ([], st') \<Longrightarrow> scan_digits base (xs @ ys) st = scan_digits base ys st'"
  by (induction xs arbitrary: st) (auto split: option.splits if_splits)

lemma scan_acc_exact:
  fixes v base :: u32
  assumes "1 < base"
  shows "scan_acc (uint base) (uint (v mod base)) (v div base, False) = (v, False)"
proof -
  let ?q = "v div base" and ?d = "v mod base"
  have e: "unat ?q * unat base + unat ?d = unat v" by (simp add: unat_div unat_mod)
  have "unat (0xFFFFFFFF - ?d) = 4294967295 - unat ?d"
    using unat_u32_lt [of ?d] by (subst unat_sub) (auto simp: word_le_nat_alt)
  moreover have "unat ?q * unat base \<le> 4294967295 - unat ?d" using e unat_u32_lt [of v] by linarith
  ultimately have "unat ?q \<le> unat ((0xFFFFFFFF - ?d) div base)"
    using assms by (simp add: unat_div less_eq_div_iff_mult_less_eq word_less_nat_alt)
  then have "\<not> ?q > (0xFFFFFFFF - ?d) div base" by (simp add: word_less_nat_alt)
  moreover have "?q * base + ?d = v" by (rule div_mult_mod_eq)
  ultimately show ?thesis by (simp add: scan_acc_def)
qed

text \<open>The digits of a number in base 10 or 16 exist, are no more than its magnitude needs,
  and are read back as the number.\<close>

lemma u32_rev_scan:
  fixes v base :: u32
  assumes "1 < base" "base \<le> 16"
  shows "\<exists>r. u32_rev v base = Some r \<and> r \<noteq> [] \<and> set r \<subseteq> digit_char ` {d. d < base}
    \<and> scan_digits (uint base) (rev r) (0, False) = ([], v, False)"
proof (induction "unat v" arbitrary: v rule: less_induct)
  case less
  let ?d = "v mod base" and ?c = "digit_char (v mod base)"
  have d: "?d < base" using assms by (simp add: word_less_nat_alt unat_mod)
  then have sd: "scan_digit ?c = Some (uint ?d)" using assms(2) by (intro scan_digit_char) (rule less_le_trans)
  have dl: "\<not> uint ?d \<ge> uint base" using d by (simp add: word_less_def)
  show ?case
  proof (cases "v div base = 0")
    case True
    then show ?thesis using sd dl d scan_acc_exact [OF assms(1), of v] by (simp add: u32_rev.simps)
  next
    case False
    have "v \<noteq> 0" using False by auto
    then have "unat (v div base) < unat v"
      using assms(1) by (simp add: unat_div word_less_nat_alt div_less_dividend unat_gt_0)
    then obtain r where r: "u32_rev (v div base) base = Some r" "r \<noteq> []" "set r \<subseteq> digit_char ` {d. d < base}"
      "scan_digits (uint base) (rev r) (0, False) = ([], v div base, False)"
      using less by blast
    have "scan_digits (uint base) (rev (?c # r)) (0, False) = ([], v, False)"
      using scan_digits_append [OF r(4), of "[?c]"] sd dl scan_acc_exact [OF assms(1), of v] by simp
    then show ?thesis using r False d by (subst u32_rev.simps) auto
  qed
qed

lemma digit_char_table:
  "list_all (\<lambda>n. let c = digit_char (of_nat n) in \<not> scan_space c \<and> c \<noteq> 0x2B \<and> c \<noteq> 0x2D \<and> c \<noteq> 0x78 \<and> c \<noteq> 0x58) [0..<16]"
  by code_simp

lemma digit_char_plain:
  assumes "d < 16"
  shows "\<not> scan_space (digit_char d)" "digit_char d \<noteq> 0x2B" "digit_char d \<noteq> 0x2D" "digit_char d \<noteq> 0x78" "digit_char d \<noteq> 0x58"
proof -
  have "unat d < 16" using assms by (simp add: word_less_nat_alt)
  then have "let c = digit_char (of_nat (unat d)) in \<not> scan_space c \<and> c \<noteq> 0x2B \<and> c \<noteq> 0x2D \<and> c \<noteq> 0x78 \<and> c \<noteq> 0x58"
    using bspec [OF digit_char_table [unfolded list_all_iff], of "unat d"] by simp
  then show "\<not> scan_space (digit_char d)" "digit_char d \<noteq> 0x2B" "digit_char d \<noteq> 0x2D" "digit_char d \<noteq> 0x78" "digit_char d \<noteq> 0x58"
    by (simp_all add: Let_def)
qed

text \<open>The text of a number is read back completely, also behind a minus sign.\<close>

lemma u32_to_str_scan:
  fixes v base :: u32
  assumes "base = 10 \<or> base = 16"
  obtains s where "catos_u32_to_str v base = Some s"
    "catos_strto_scan s (uint base) = (v, length s, False, True, False)"
    "base = 10 \<Longrightarrow> catos_strto_scan (0x2D # s) 10 = (v, Suc (length s), False, True, True)"
proof -
  have b: "1 < base" "base \<le> 16" using assms by auto
  obtain r where r: "u32_rev v base = Some r" "r \<noteq> []" "set r \<subseteq> digit_char ` {d. d < base}"
    "scan_digits (uint base) (rev r) (0, False) = ([], v, False)"
    using u32_rev_scan [OF b] by blast
  have plain: "\<not> scan_space c \<and> c \<noteq> 0x2B \<and> c \<noteq> 0x2D \<and> c \<noteq> 0x78 \<and> c \<noteq> 0x58" if "c \<in> set r" for c
    using that r(3) b(2) digit_char_plain by (auto dest: less_le_trans)
  obtain c cs where s: "rev r = c # cs" using r(2) by (cases "rev r") auto
  have mem: "set (c # cs) = set r" using s by (metis set_rev)
  have c: "\<not> scan_space c" "c \<noteq> 0x2B" "c \<noteq> 0x2D" using plain mem by auto
  have x: "peek cs \<noteq> 0x78 \<and> peek cs \<noteq> 0x58" using plain mem by (cases cs) (auto simp: peek_def)
  have p: "scan_prefix (uint base) (c # cs) = (uint base, c # cs)"
    using assms x by (auto simp: scan_prefix_def Let_def)
  have sg: "scan_sign (c # cs) = (False, c # cs)" "scan_sign (0x2D # c # cs) = (True, c # cs)"
    using c by (auto simp: scan_sign_def peek_def)
  have "catos_strto_scan (c # cs) (uint base) = (v, length (c # cs), False, True, False)"
    using c(1) sg(1) p r(4) unfolding s by (simp add: catos_strto_scan_def del: scan_digits.simps)
  moreover have "catos_strto_scan (0x2D # c # cs) 10 = (v, Suc (length (c # cs)), False, True, True)" if "base = 10"
    using sg(2) p r(4) that unfolding s by (simp add: catos_strto_scan_def scan_space_def del: scan_digits.simps)
  moreover have "catos_u32_to_str v base = Some (c # cs)" using r(1) s by (simp add: catos_u32_to_str_def)
  ultimately show ?thesis using that by blast
qed

text \<open>A device that keeps what is written to it.\<close>

definition keep :: "u8 list emitter" where
  "keep cs dev = (int (length cs), dev @ cs)"

lemma put_all_keep: "put_all keep cs dev = (True, dev @ cs)"
  by (induction cs arbitrary: dev) (simp_all add: putchar_def keep_def)

lemma printf_one:
  assumes "conv_body m spec v = Some (body, lead, num)" "is_conv spec" "spec \<noteq> 0x25" "\<not> (0x30 \<le> spec \<and> spec \<le> 0x39)" "spec \<noteq> 0x2D"
  shows "printf keep m (Some [0x25, spec]) [v] [] = Some (int (length body), body)"
proof -
  have "spec \<noteq> 0x30" using assms(4) by auto
  then have "conv_split [spec] = (False, False, 0, [spec])"
    using assms(4,5) by (auto simp: conv_split_def parse_flags_def parse_width_def Let_def)
  then show ?thesis
    using assms(1-3) by (simp add: printf_def printf_loop.simps printf_step_def printf_conv_def
      catos_emit_field_def pad_width_def put_all_keep)
qed

text \<open>Property C24: what \<open>printf\<close> prints for a number is read back as that number: \<open>%d\<close> by
  \<open>strtol\<close> in base 10, including the smallest int, \<open>%u\<close> by \<open>strtoul\<close> in base 10 and
  \<open>%x\<close> by \<open>strtoul\<close> in base 16, with the whole text consumed and \<open>errno\<close> untouched.\<close>

theorem printf_strtol_roundtrip:
  "\<exists>d u x. printf keep m (Some [0x25, 0x64]) [v] [] = Some (int (length d), d)
     \<and> strtol d 10 = (sint v, length d, None)
     \<and> printf keep m (Some [0x25, 0x75]) [v] [] = Some (int (length u), u)
     \<and> strtoul u 10 = (v, length u, None)
     \<and> printf keep m (Some [0x25, 0x78]) [v] [] = Some (int (length x), x)
     \<and> strtoul x 16 = (v, length x, None)"
proof -
  obtain u where u: "catos_u32_to_str v 10 = Some u" "catos_strto_scan u 10 = (v, length u, False, True, False)"
    using u32_to_str_scan [of 10 v] by auto
  obtain x where x: "catos_u32_to_str v 16 = Some x" "catos_strto_scan x 16 = (v, length x, False, True, False)"
    using u32_to_str_scan [of 16 v] by auto
  obtain n where n: "catos_u32_to_str (0 - v) 10 = Some n" "catos_strto_scan (0x2D # n) 10 = (0 - v, Suc (length n), False, True, True)"
    using u32_to_str_scan [of 10 "0 - v"] by auto
  define d where "d = (if sint v < 0 then 0x2D # n else u)"
  have neg: "uint (0 - v) = 4294967296 - uint v" if "sint v < 0"
    using that uint_bounded [of v] by (auto simp: u32_cases_sint uint_word_ariths zmod_zminus1_eq_if split: if_splits)
  have "strtol d 10 = (sint v, length d, None)"
  proof (cases "sint v < 0")
    case True
    then show ?thesis using n(2) neg [OF True] uint_bounded [of v]
      by (auto simp: strtol_def bad_base_def d_def u32_cases_sint word_le_def word_less_def split: if_splits)
  next
    case False
    then show ?thesis using u(2) uint_bounded [of v]
      by (auto simp: strtol_def bad_base_def d_def u32_cases_sint word_less_def split: if_splits)
  qed
  moreover have "strtoul u 10 = (v, length u, None)" "strtoul x 16 = (v, length x, None)"
    using u(2) x(2) by (simp_all add: strtoul_def bad_base_def)
  moreover have "printf keep m (Some [0x25, 0x64]) [v] [] = Some (int (length d), d)"
    using n(1) u(1) by (intro printf_one [where lead = "if sint v < 0 then 1 else 0" and num = True])
      (auto simp: conv_body_def is_conv_def d_def)
  moreover have "printf keep m (Some [0x25, 0x75]) [v] [] = Some (int (length u), u)"
    using u(1) by (intro printf_one [where lead = 0 and num = True]) (auto simp: conv_body_def is_conv_def)
  moreover have "printf keep m (Some [0x25, 0x78]) [v] [] = Some (int (length x), x)"
    using x(1) by (intro printf_one [where lead = 0 and num = True]) (auto simp: conv_body_def is_conv_def)
  ultimately show ?thesis by blast
qed

section \<open>Ranges and errors\<close>

lemma strtol_range: "strtol s base = (v, pos, e) \<Longrightarrow> - 0x80000000 \<le> v \<and> v \<le> 0x7FFFFFFF \<and> pos \<le> length s"
proof -
  assume a: "strtol s base = (v, pos, e)"
  obtain mag p ovf any neg where c: "catos_strto_scan s base = (mag, p, ovf, any, neg)"
    by (cases "catos_strto_scan s base")
  have "p \<le> length s"
    using c by (auto simp: catos_strto_scan_def Let_def split: prod.splits if_splits)
  then show ?thesis using a c uint_bounded [of mag]
    by (auto simp: strtol_def word_less_def word_le_def split: if_splits) (use uint_ge_0 [of mag] in linarith)+
qed

lemma strtol_bad_base: "bad_base base \<Longrightarrow> strtol s base = (0, 0, Some EINVAL) \<and> strtoul s base = (0, 0, Some EINVAL)"
  by (simp add: strtol_def strtoul_def)

text \<open>With base 0 the leading zero of the text \<open>0\<close> is taken as an octal prefix and no digit
  is left: the conversion reports that nothing was consumed.\<close>

lemma strtol_zero_auto: "strtol [0x30] 0 = (0, 0, None)" "strtol [0x30] 10 = (0, 1, None)"
  by (simp_all add: strtol_def bad_base_def catos_strto_scan_def scan_sign_def scan_prefix_def scan_space_def peek_def
    scan_digit_def scan_acc_def Let_def)

text \<open>A line read by \<open>fgets\<close> fits the buffer with its terminator, and only its last
  character can be a newline.\<close>

lemma fgets_loop_bound: "fgets_loop inp fd n dev = (s, dev') \<Longrightarrow> length s \<le> n \<and> 0x0A \<notin> set (butlast s)"
proof (induction n arbitrary: s dev dev')
  case (Suc n)
  obtain r ch d where i: "inp fd dev = (r, ch, d)" by (cases "inp fd dev")
  obtain t d' where f: "fgets_loop inp fd n d = (t, d')" by (cases "fgets_loop inp fd n d")
  show ?case using Suc.prems Suc.IH [OF f] i f by (auto split: if_splits)
qed simp

lemma fgets_fits: "fgets inp len fd dev = (Some buf, dev') \<Longrightarrow> int (length buf) \<le> len \<and> last buf = 0"
proof -
  assume a: "fgets inp len fd dev = (Some buf, dev')"
  obtain s d where "fgets_loop inp fd (nat (len - 1)) dev = (s, d)" by (cases "fgets_loop inp fd (nat (len - 1)) dev")
  then show ?thesis using a fgets_loop_bound [of inp fd "nat (len - 1)" dev s d]
    by (auto simp: fgets_def split: if_splits)
qed

end
