(* ===== verification/Spec2Isabelle.thy ===== *)
theory Spec2Isabelle
  imports SyscallFlow LibcSort LibcHeap LibcNum
begin

text \<open>
  \<^bold>\<open>A verification development for cat-OS.\<close>

  cat-OS is an i686 teaching kernel.  A timer interrupt advances the clock and polls the
  network stack, which takes frames from the rings of an e1000 controller and hands them to
  ARP, ICMP, UDP with DHCP and DNS on top of it, and TCP.  Processes run in user mode under a
  round-robin scheduler, in address spaces that \<open>fork\<close> shares copy-on-write.  They reach the
  kernel through \<open>int 0x80\<close>, whose dispatcher serves sockets, files (device nodes and a
  read-only FAT16 volume behind one table of descriptors), processes, memory and time.  A
  small C library runs on the user side.

  The theories follow the sources, one per component; the names are those of the code.
  State is a record and is passed explicitly; the records of the stack extend each other in
  the order in which the layers call each other (\<open>e1000\<close>, \<open>netcore\<close>, \<open>arpst\<close>, \<open>dhcpst\<close>,
  \<open>udpst\<close>, \<open>icmpst\<close>, \<open>tcpst\<close>; and \<open>pmm\<close>, \<open>paging\<close>, \<open>procst\<close> for memory and processes), so
  that an operation of one layer applies to the state of every layer above it.  Machine
  integers are words of their width, C strings are lists of bytes, errors are the negative
  values the code returns, and \<open>None\<close> is a run that does not come back: an access outside a
  buffer, a fault, or a loop that does not end.

  \<^bold>\<open>Network\<close> (\<^verbatim>\<open>src/net\<close>, \<^verbatim>\<open>src/drivers/e1000.c\<close>)

  \<^item> \<open>CatPrelude\<close>: fixed-width integers, byte order, table scans (\<^verbatim>\<open>net_internal.h\<close>).
  \<^item> \<open>E1000\<close>: the descriptor rings as the software sees them.
  \<^item> \<open>NetCore\<close>, \<open>NetFraming\<close> (\<^verbatim>\<open>net.c\<close>): checksums, IPv4 framing, address text; a frame that is
    sent carries a header with the right lengths and checksum.
  \<^item> \<open>Arp\<close> (\<^verbatim>\<open>net_arp.c\<close>): the cache; an answer is always one a peer gave.
  \<^item> \<open>Dhcp\<close> (\<^verbatim>\<open>net_dhcp.c\<close>): the lease state machine, as a step relation with its invariant, and
    the run of a lease from the acknowledgement to the loss of the address.
  \<^item> \<open>Fifo\<close>, \<open>Udp\<close> (\<^verbatim>\<open>net_udp.c\<close>): sockets; the packed receive buffer refines a bounded queue of
    datagrams, the locale of \<open>Fifo\<close>.
  \<^item> \<open>Dns\<close> (\<^verbatim>\<open>net_dns.c\<close>), \<open>Icmp\<close> (\<^verbatim>\<open>net_icmp.c\<close>): names, queries, the judgement of replies; echo.
  \<^item> \<open>TcpConn\<close>, \<open>TcpIo\<close>, \<open>TcpInput\<close>, \<open>TcpTable\<close> (\<^verbatim>\<open>net_tcp.c\<close>): a connection with reassembly,
    scoreboard, timers and congestion control, segment construction and input, the table.
    \<open>TcpRx\<close> shows that the reader gets the peer's stream whatever the order of the segments,
    \<open>TcpFlow\<close> that the sender keeps its stream and its window, \<open>TcpFsm\<close> that a
    connection is closed only in order, the validation of resets and that retransmission gives
    up (and that it may send a frame longer than its page).
  \<^item> \<open>NetStack\<close>, \<open>NetSafety\<close>, \<open>NetRun\<close>: the composition; under any interleaving of interrupts, polls
    and well-formed frames the receive side stays inside its buffers.
  \<^item> \<open>NetWait\<close>: \<open>net_ping\<close> and \<open>net_dns_resolve\<close>, which wait for the network, return if the
    clock keeps running.

  \<^bold>\<open>Memory and processes\<close> (\<^verbatim>\<open>src/kernel\<close>)

  \<^item> \<open>Pmm\<close>, \<open>Paging\<close> (\<^verbatim>\<open>paging.c\<close>): the frame allocator as a set of free frames; page tables, the
    check of user pointers, clone and write fault.  \<open>CowFork\<close> and \<open>CowClone\<close> tie page tables,
    allocator and reference counts together and show that no address space sees another's
    writes.
  \<^item> \<open>Process\<close> (\<^verbatim>\<open>process.c\<close>), \<open>Sched\<close>, \<open>SchedProps\<close>: the linked ready queue is a FIFO, preemption
    goes round, the exit of a process without children wakes the waiting parent, whose scan
    then finds it.
  \<^item> \<open>Elf\<close> (\<^verbatim>\<open>elf.c\<close>): the loader stays inside the image and the user half.

  \<^bold>\<open>Devices and files\<close>

  \<^item> \<open>Keyboard\<close> (\<^verbatim>\<open>drivers/keyboard.c\<close>, \<^verbatim>\<open>kbdwait.c\<close>): the decoder and its ring refine a queue.
  \<^item> \<open>Fat16\<close>, \<open>Fat16Dir\<close> (\<^verbatim>\<open>fs/fat16.c\<close>): mounting, table cache, chains, directories, reads; the
    block device is a parameter.
  \<^item> \<open>Vfs\<close> (\<^verbatim>\<open>fs/vfs.c\<close>), \<open>VfsProps\<close>, \<open>VfsInit\<close>, \<open>VfsRead\<close>: descriptors refer to files of their own,
    the table refines an abstract one, and a file is read once and in order.

  \<^bold>\<open>System calls\<close> (\<^verbatim>\<open>kernel/syscall.c\<close>)

  \<^item> \<open>Syscall\<close>: the dispatcher over the three states together, every call, and the delivery of
    signals.  User memory is a function from addresses to bytes, and a call returns the
    blocks it stores.  \<open>SyscallProps\<close>: every byte stored by a call other than \<open>exec\<close> and \<open>mmap2\<close>
    lies on a page the caller may write, for pointers below the guard band.  \<open>SyscallFlow\<close>: \<open>poll\<close> returns; \<open>mmap2\<close> and \<open>exec\<close> of a file.

  \<^bold>\<open>C library\<close> (\<^verbatim>\<open>src/libc/src\<close>)

  \<^item> \<open>LibcString\<close>, \<open>LibcSort\<close>, \<open>LibcHeap\<close>, \<open>LibcNum\<close>: strings and character classes, sorting and
    searching, the allocator, numbers and formatted output.

  \<^bold>\<open>Bounds and fuel.\<close>  The loops that end by themselves are structural or have a termination
  proof.  Loops over data from outside (a cluster chain, the pages of a buffer, the packets
  in a queue) are partial functions into \<open>option\<close>, with lemmas that say when they return.
  A loop that waits takes the list of what happens on each of its turns.  A list in which the
  timer ticks before 600 of the turns, with any number of other turns between them, is
  enough for \<open>net_ping\<close> and \<open>net_dns_resolve\<close>, which wait twice for at most 300 ticks; for \<open>poll\<close>
  one with a wake-up after the timeout is.

  \<^bold>\<open>Not modelled.\<close>  Port and register access of the drivers (\<^verbatim>\<open>e1000.c\<close> beyond the rings,
  \<^verbatim>\<open>ide.c\<close>, \<^verbatim>\<open>pci.c\<close>, \<^verbatim>\<open>rtc.c\<close>) and the interrupt controller and descriptor tables
  (\<^verbatim>\<open>interrupts.c\<close>), which only talk to hardware; the assembly of \<^verbatim>\<open>boot.asm\<close> and \<^verbatim>\<open>arch.asm\<close>,
  and with it the switch of stacks itself, of which the model has the effect on the tables;
  console output.  A wait of \<open>net_ping\<close> or \<open>net_dns_resolve\<close> sees the interrupts of the network
  only: a preemption in the middle of it, and a timer poll in the middle of a poll, are not
  modelled.  Stores into user memory are not threaded through the page tables, so the copies
  they cause of shared pages are modelled by the write fault alone.  \<^verbatim>\<open>kernel.c\<close> and
  \<^verbatim>\<open>usermode.c\<close> print, run probes and start programs; \<^verbatim>\<open>shell_user.c\<close> is a user program;
  \<^verbatim>\<open>posix_stubs.c\<close> and \<^verbatim>\<open>environ.c\<close> are thin wrappers and stubs for the nginx port, and nginx itself
  is third-party code.  \<^verbatim>\<open>netring.c\<close> holds counters that nothing updates.
\<close>

end
